(* ===== verification/Qse_Prelude.thy ===== *)
theory Qse_Prelude
  imports Main "HOL-Library.Word" "HOL-Library.Multiset"
begin

text \<open>
  Shared vocabulary of the development: the types that the C sources use everywhere (bytes,
  addresses, results of an allocation), C's fixed-width signed arithmetic and truncating division
  on \<open>int\<close>, and the lemmas on lists, options and words that more than one component needs.
  The collections \<open>c_arith\<close> (machine arithmetic) and \<open>qse_defs\<close> (constants to unfold when a closed
  term is evaluated) are filled by the component theories.
\<close>

unbundle bit_operations_syntax

named_theorems c_arith
named_theorems qse_defs

section \<open>Types\<close>

text \<open>
  \<open>byte\<close> is \<open>qse_byte_t\<close>/\<open>qse_uint8_t\<close>. An \<open>addr\<close> is the value of a pointer; \<open>QSE_NULL\<close> is
  address 0. The result of \<open>QSE_MMGR_ALLOC\<close> and \<open>QSE_MMGR_REALLOC\<close>, which call through the
  function pointers of a \<open>qse_mmgr_t\<close>, is an argument of the operation that allocates: \<open>None\<close> when the memory
  manager returned \<open>QSE_NULL\<close>, otherwise the address it returned.
\<close>

type_synonym byte = "8 word"
type_synonym addr = nat

definition QSE_NULL :: addr where
  "QSE_NULL = 0"

section \<open>Signed machine arithmetic\<close>

text \<open>The value a two's complement register of \<open>w\<close> bits holds after the exact result \<open>x\<close> is stored.\<close>

definition wrap_s :: "nat \<Rightarrow> int \<Rightarrow> int" where
  "wrap_s w x = (x + 2 ^ (w - 1)) mod 2 ^ w - 2 ^ (w - 1)"

lemma wrap_s_id [c_arith]:
  assumes "0 < w" "- (2 ^ (w - 1)) \<le> x" "x < 2 ^ (w - 1)"
  shows "wrap_s w x = x"
proof -
  have "(2::int) ^ w = 2 * 2 ^ (w - 1)"
    using assms(1) by (cases w) auto
  then show ?thesis
    using assms(2,3) by (simp add: wrap_s_def)
qed

lemma wrap_s_32: "- 2147483648 \<le> x \<Longrightarrow> x < 2147483648 \<Longrightarrow> wrap_s 32 x = x"
  by (simp add: wrap_s_id)

lemma wrap_s_64:
  "- 9223372036854775808 \<le> x \<Longrightarrow> x < 9223372036854775808 \<Longrightarrow> wrap_s 64 x = x"
  by (simp add: wrap_s_id)

lemma wrap_s_range: "0 < w \<Longrightarrow> - (2 ^ (w - 1)) \<le> wrap_s w x \<and> wrap_s w x < 2 ^ (w - 1)"
proof -
  assume "0 < w"
  then have p: "(2::int) ^ w = 2 * 2 ^ (w - 1)" by (cases w) auto
  have "0 \<le> (x + 2 ^ (w - 1)) mod 2 ^ w" "(x + 2 ^ (w - 1)) mod 2 ^ w < 2 ^ w"
    by simp_all
  then show ?thesis unfolding wrap_s_def p by linarith
qed

text \<open>C's \<open>/\<close> and \<open>%\<close> on signed operands truncate towards zero.\<close>

definition c_div :: "int \<Rightarrow> int \<Rightarrow> int" where
  "c_div a b = sgn a * sgn b * (\<bar>a\<bar> div \<bar>b\<bar>)"

definition c_mod :: "int \<Rightarrow> int \<Rightarrow> int" where
  "c_mod a b = a - b * c_div a b"

lemma c_div_nonneg [c_arith]: "0 \<le> a \<Longrightarrow> 0 < b \<Longrightarrow> c_div a b = a div b"
  by (cases "a = 0") (auto simp: c_div_def)

lemma c_mod_nonneg [c_arith]: "0 \<le> a \<Longrightarrow> 0 < b \<Longrightarrow> c_mod a b = a mod b"
  by (simp add: c_mod_def c_div_nonneg minus_mult_div_eq_mod)

lemma c_mod_eq_0_iff: "0 < b \<Longrightarrow> c_mod a b = 0 \<longleftrightarrow> b dvd a"
proof -
  assume b: "0 < b"
  show ?thesis
  proof
    assume "c_mod a b = 0"
    then have "a = b * c_div a b" by (simp add: c_mod_def)
    then show "b dvd a" by (metis dvd_triv_left)
  next
    assume "b dvd a"
    then obtain k where "a = b * k" by auto
    with b show "c_mod a b = 0"
      by (cases "k = 0"; cases "k < 0") (auto simp: c_mod_def c_div_def abs_mult sgn_mult)
  qed
qed

lemma c_mod_neg: "x < 0 \<Longrightarrow> 0 < k \<Longrightarrow> c_mod x k = - ((- x) mod k)"
  by (simp add: c_mod_def c_div_def minus_div_mult_eq_mod [symmetric] algebra_simps)

text \<open>The idiom \<open>r = x % k; if (r < 0) r += k;\<close> is the flooring remainder.\<close>

lemma c_mod_fixup:
  assumes "0 < k"
  shows "(if c_mod x k < 0 then c_mod x k + k else c_mod x k) = x mod k"
proof (cases "0 \<le> x")
  case True
  then show ?thesis
    using assms pos_mod_sign [OF assms, of x] by (simp add: c_mod_nonneg not_less)
next
  case False
  then have "x mod k = (if (- x) mod k = 0 then 0 else k - (- x) mod k)"
    using zmod_zminus1_eq_if [of "- x" k] by simp
  moreover have "0 \<le> (- x) mod k" using assms by simp
  moreover have "c_mod x k = - ((- x) mod k)" using False assms by (simp add: c_mod_neg)
  ultimately show ?thesis by (smt (verit))
qed

section \<open>Lists\<close>

lemma take_update_drop_nth:
  "i < length xs \<Longrightarrow> xs = take i xs @ xs ! i # drop (Suc i) xs"
  by (simp add: Cons_nth_drop_Suc)

lemma mset_swap_update:
  "i < length xs \<Longrightarrow> mset (xs[i := x]) = mset xs - {#xs ! i#} + {#x#}"
  by (simp add: mset_update)

lemma ball_set_update: "\<forall>a \<in> set xs. P a \<Longrightarrow> P y \<Longrightarrow> \<forall>a \<in> set (xs[i := y]). P a"
  using set_update_subset_insert [of xs i y] by auto

lemma sum_list_concat_length: "length (concat xss) = sum_list (map length xss)"
  by (induction xss) auto

lemma take_butlast_mset:
  assumes "i < length xs" "n = length xs - 1"
  shows "i = n \<Longrightarrow> add_mset (xs ! i) (mset (take n xs)) = mset xs"
    and "i \<noteq> n \<Longrightarrow> add_mset (xs ! i) (mset ((take n xs)[i := xs ! n])) = mset xs"
proof -
  have xs: "xs = take n xs @ [xs ! n]"
    using assms take_Suc_conv_app_nth [of n xs] by simp
  have m: "mset xs = add_mset (xs ! n) (mset (take n xs))"
    by (subst xs) simp
  show "add_mset (xs ! i) (mset (take n xs)) = mset xs" if "i = n" using m that by simp
  assume "i \<noteq> n"
  then have "i < length (take n xs)" using assms by simp
  then have b: "i < length (take n xs)" "take n xs ! i = xs ! i" "xs ! i \<in># mset (take n xs)"
    using nth_mem [of i "take n xs"] by simp_all
  then show "add_mset (xs ! i) (mset ((take n xs)[i := xs ! n])) = mset xs"
    unfolding m mset_update [OF b(1)] b(2)
    by (metis add_mset_commute insert_DiffM)
qed

section \<open>Words bit by bit\<close>

text \<open>Equality of bytes and 32-bit words as finitely many questions about single bits.\<close>

lemma byte_eqI: "(\<And>n. n < 8 \<Longrightarrow> bit a n = bit b n) \<Longrightarrow> a = b" for a b :: byte
  by (rule bit_word_eqI) simp

lemma lt8: "n < 8 \<longleftrightarrow> n = (7 :: nat) \<or> n = 6 \<or> n = 5 \<or> n = 4 \<or> n = 3 \<or> n = 2 \<or> n = 1 \<or> n = 0"
  by auto

lemma word32_eqI: "(\<And>n. n < 32 \<Longrightarrow> bit a n = bit b n) \<Longrightarrow> a = b" for a b :: "32 word"
  by (rule bit_word_eqI) simp

lemma lt32: "n < 32 \<longleftrightarrow> n = (31 :: nat) \<or> n = 30 \<or> n = 29 \<or> n = 28 \<or> n = 27 \<or> n = 26 \<or> n = 25 \<or> n = 24 \<or> n = 23 \<or>
    n = 22 \<or> n = 21 \<or> n = 20 \<or> n = 19 \<or> n = 18 \<or> n = 17 \<or> n = 16 \<or> n = 15 \<or> n = 14 \<or> n = 13 \<or>
    n = 12 \<or> n = 11 \<or> n = 10 \<or> n = 9 \<or> n = 8 \<or> n = 7 \<or> n = 6 \<or> n = 5 \<or> n = 4 \<or> n = 3 \<or> n = 2 \<or>
    n = 1 \<or> n = 0"
  by presburger

end
