(* ===== verification/Qse_Time.thy ===== *)
theory Qse_Time
  imports Qse_Prelude
begin

text \<open>
  The time component (\<open>src/lib/cmn/time.c\<close> with \<open>src/include/qse/cmn/time.h\<close>): numeric time
  \<open>qse_ntime_t\<close> with its saturating addition and subtraction, the comparison macro, the conversion
  between numeric and broken-down time, and the parser of the text form \<open>seconds.nanoseconds\<close>.
  Seconds are 64-bit and nanoseconds 32-bit signed integers, modelled as \<open>int\<close> with the
  wrap-around written out where the code can reach it.
\<close>

section \<open>Numeric time\<close>

record qse_ntime =
  nt_sec :: int
  nt_nsec :: int

abbreviation (input) Ntime :: "int \<Rightarrow> int \<Rightarrow> qse_ntime" where
  "Ntime s n \<equiv> \<lparr>nt_sec = s, nt_nsec = n\<rparr>"

definition QSE_NSECS_PER_SEC :: int where
  [qse_defs]: "QSE_NSECS_PER_SEC = 1000000000"

definition SEC_MAX :: int where
  [qse_defs]: "SEC_MAX = 9223372036854775807"

definition SEC_MIN :: int where
  [qse_defs]: "SEC_MIN = - 9223372036854775808"

lemmas ntime_consts = QSE_NSECS_PER_SEC_def SEC_MAX_def SEC_MIN_def

definition qse_cmp_ntime :: "qse_ntime \<Rightarrow> qse_ntime \<Rightarrow> int" where
  "qse_cmp_ntime x y =
     (if nt_sec x = nt_sec y then wrap_s 32 (nt_nsec x - nt_nsec y)
      else wrap_s 64 (nt_sec x - nt_sec y))"

definition qse_is_neg_ntime :: "qse_ntime \<Rightarrow> bool" where
  "qse_is_neg_ntime x \<longleftrightarrow> nt_sec x < 0"

definition qse_clear_ntime :: "qse_ntime" where
  "qse_clear_ntime = Ntime 0 0"

text \<open>The part of \<open>qse_add_ntime\<close> after the carry: the overflow test and the two saturated results.\<close>

definition add_ntime_tail :: "int \<Rightarrow> int \<Rightarrow> int \<Rightarrow> qse_ntime" where
  "add_ntime_tail xs ys ns =
     (if (1 \<le> ys \<and> SEC_MAX - ys < xs) \<or> (ys \<le> - 1 \<and> xs < SEC_MIN - ys)
      then if 0 \<le> xs then Ntime SEC_MAX (QSE_NSECS_PER_SEC - 1) else Ntime SEC_MIN 0
      else Ntime (xs + ys) ns)"

definition qse_add_ntime :: "qse_ntime \<Rightarrow> qse_ntime \<Rightarrow> qse_ntime" where
  "qse_add_ntime x y =
     (let ns = wrap_s 32 (nt_nsec x + nt_nsec y) in
      if QSE_NSECS_PER_SEC \<le> ns then
        (let ns = ns - QSE_NSECS_PER_SEC in
         if nt_sec x = SEC_MAX then
           if 0 \<le> nt_sec y then Ntime SEC_MAX (QSE_NSECS_PER_SEC - 1)
           else add_ntime_tail (nt_sec x) (nt_sec y + 1) ns
         else add_ntime_tail (nt_sec x + 1) (nt_sec y) ns)
      else add_ntime_tail (nt_sec x) (nt_sec y) ns)"

definition sub_ntime_tail :: "int \<Rightarrow> int \<Rightarrow> int \<Rightarrow> qse_ntime" where
  "sub_ntime_tail xs ys ns =
     (if (1 \<le> ys \<and> xs < SEC_MIN + ys) \<or> (ys \<le> - 1 \<and> SEC_MAX + ys < xs)
      then if 0 \<le> xs then Ntime SEC_MAX (QSE_NSECS_PER_SEC - 1) else Ntime SEC_MIN 0
      else Ntime (xs - ys) ns)"

definition qse_sub_ntime :: "qse_ntime \<Rightarrow> qse_ntime \<Rightarrow> qse_ntime" where
  "qse_sub_ntime x y =
     (let ns = wrap_s 32 (nt_nsec x - nt_nsec y) in
      if ns < 0 then
        (let ns = ns + QSE_NSECS_PER_SEC in
         if nt_sec x = SEC_MIN then
           if nt_sec y \<le> 0 then Ntime SEC_MIN 0
           else sub_ntime_tail (nt_sec x) (nt_sec y - 1) ns
         else sub_ntime_tail (nt_sec x - 1) (nt_sec y) ns)
      else sub_ntime_tail (nt_sec x) (nt_sec y) ns)"

text \<open>
  Normalised times (the two assertions of the source, and the range of the seconds field), the
  number of nanoseconds a time stands for, and the least and greatest such numbers.
\<close>

definition ntime_ok :: "qse_ntime \<Rightarrow> bool" where
  "ntime_ok x \<longleftrightarrow> SEC_MIN \<le> nt_sec x \<and> nt_sec x \<le> SEC_MAX \<and>
     0 \<le> nt_nsec x \<and> nt_nsec x < QSE_NSECS_PER_SEC"

definition ntime_val :: "qse_ntime \<Rightarrow> int" where
  "ntime_val x = nt_sec x * QSE_NSECS_PER_SEC + nt_nsec x"

definition clamp_val :: "int \<Rightarrow> int" where
  "clamp_val v = max (SEC_MIN * QSE_NSECS_PER_SEC)
     (min (SEC_MAX * QSE_NSECS_PER_SEC + (QSE_NSECS_PER_SEC - 1)) v)"

lemma add_ntime_tail_val:
  assumes "SEC_MIN \<le> xs" "xs \<le> SEC_MAX" "SEC_MIN \<le> ys" "ys \<le> SEC_MAX"
    and "0 \<le> ns" "ns < QSE_NSECS_PER_SEC"
  shows "ntime_val (add_ntime_tail xs ys ns) = clamp_val ((xs + ys) * QSE_NSECS_PER_SEC + ns)"
    and "ntime_ok (add_ntime_tail xs ys ns)"
  using assms
  by (auto simp: add_ntime_tail_def ntime_val_def clamp_val_def ntime_ok_def ntime_consts)

lemma sub_ntime_tail_val:
  assumes "SEC_MIN \<le> xs" "xs \<le> SEC_MAX" "SEC_MIN \<le> ys" "ys \<le> SEC_MAX"
    and "0 \<le> ns" "ns < QSE_NSECS_PER_SEC"
  shows "ntime_val (sub_ntime_tail xs ys ns) = clamp_val ((xs - ys) * QSE_NSECS_PER_SEC + ns)"
    and "ntime_ok (sub_ntime_tail xs ys ns)"
  using assms
  by (auto simp: sub_ntime_tail_def ntime_val_def clamp_val_def ntime_ok_def ntime_consts)

lemma add_ntime_carry:
  assumes "ntime_ok x" "ntime_ok y"
  shows "wrap_s 32 (nt_nsec x + nt_nsec y) = nt_nsec x + nt_nsec y"
  using assms by (intro wrap_s_32) (auto simp: ntime_ok_def ntime_consts)

lemma sub_ntime_borrow:
  assumes "ntime_ok x" "ntime_ok y"
  shows "wrap_s 32 (nt_nsec x - nt_nsec y) = nt_nsec x - nt_nsec y"
  using assms by (intro wrap_s_32) (auto simp: ntime_ok_def ntime_consts)

lemma qse_add_ntime_saturates_aux:
  assumes "ntime_ok x" "ntime_ok y"
  shows "ntime_val (qse_add_ntime x y) = clamp_val (ntime_val x + ntime_val y)
     \<and> ntime_ok (qse_add_ntime x y)"
proof -
  note w = add_ntime_carry [OF assms]
  let ?ns = "nt_nsec x + nt_nsec y"
  have r: "SEC_MIN \<le> nt_sec x" "nt_sec x \<le> SEC_MAX" "SEC_MIN \<le> nt_sec y" "nt_sec y \<le> SEC_MAX"
    "0 \<le> ?ns" "?ns < 2 * QSE_NSECS_PER_SEC"
    using assms by (auto simp: ntime_ok_def)
  consider (plain) "?ns < QSE_NSECS_PER_SEC"
    | (top) "QSE_NSECS_PER_SEC \<le> ?ns" "nt_sec x = SEC_MAX" "0 \<le> nt_sec y"
    | (carry_y) "QSE_NSECS_PER_SEC \<le> ?ns" "nt_sec x = SEC_MAX" "nt_sec y < 0"
    | (carry_x) "QSE_NSECS_PER_SEC \<le> ?ns" "nt_sec x \<noteq> SEC_MAX"
    by linarith
  then show ?thesis
  proof cases
    case plain
    then show ?thesis
      using r add_ntime_tail_val [of "nt_sec x" "nt_sec y" ?ns]
      by (simp add: qse_add_ntime_def w ntime_val_def algebra_simps)
  next
    case top
    then show ?thesis
      using r by (auto simp: qse_add_ntime_def w ntime_val_def clamp_val_def ntime_ok_def ntime_consts)
  next
    case carry_y
    then show ?thesis
      using r add_ntime_tail_val [of "nt_sec x" "nt_sec y + 1" "?ns - QSE_NSECS_PER_SEC"]
      by (simp add: qse_add_ntime_def w ntime_val_def algebra_simps ntime_consts)
  next
    case carry_x
    then show ?thesis
      using r add_ntime_tail_val [of "nt_sec x + 1" "nt_sec y" "?ns - QSE_NSECS_PER_SEC"]
      by (simp add: qse_add_ntime_def w ntime_val_def algebra_simps)
  qed
qed

text \<open>
  The borrow branch of \<open>qse_sub_ntime\<close> is not the mirror image of the carry branch when the
  minuend holds the least number of seconds; the saturation law is stated away from it.
\<close>

lemma qse_sub_ntime_saturates_aux:
  assumes "ntime_ok x" "ntime_ok y" "nt_sec x \<noteq> SEC_MIN \<or> nt_nsec y \<le> nt_nsec x"
  shows "ntime_val (qse_sub_ntime x y) = clamp_val (ntime_val x - ntime_val y)
     \<and> ntime_ok (qse_sub_ntime x y)"
proof -
  note w = sub_ntime_borrow [OF assms(1,2)]
  let ?ns = "nt_nsec x - nt_nsec y"
  have r: "SEC_MIN \<le> nt_sec x" "nt_sec x \<le> SEC_MAX" "SEC_MIN \<le> nt_sec y" "nt_sec y \<le> SEC_MAX"
    "- QSE_NSECS_PER_SEC < ?ns" "?ns < QSE_NSECS_PER_SEC"
    using assms by (auto simp: ntime_ok_def)
  consider (plain) "0 \<le> ?ns" | (borrow) "?ns < 0" "nt_sec x \<noteq> SEC_MIN"
    using assms(3) by linarith
  then show ?thesis
  proof cases
    case plain
    then show ?thesis
      using r sub_ntime_tail_val [of "nt_sec x" "nt_sec y" ?ns]
      by (simp add: qse_sub_ntime_def w ntime_val_def algebra_simps)
  next
    case borrow
    then show ?thesis
      using r sub_ntime_tail_val [of "nt_sec x - 1" "nt_sec y" "?ns + QSE_NSECS_PER_SEC"]
      by (simp add: qse_sub_ntime_def w ntime_val_def algebra_simps)
  qed
qed

text \<open>The comparison macro orders normalised times by value as long as the 64-bit difference fits.\<close>

definition ntime_near :: "qse_ntime \<Rightarrow> bool" where
  "ntime_near x \<longleftrightarrow> - (2 ^ 62) \<le> nt_sec x \<and> nt_sec x < 2 ^ 62 \<and>
     0 \<le> nt_nsec x \<and> nt_nsec x < QSE_NSECS_PER_SEC"

lemma qse_cmp_ntime_exact:
  assumes "ntime_near x" "ntime_near y"
  shows "qse_cmp_ntime x y = (if nt_sec x = nt_sec y then nt_nsec x - nt_nsec y
     else nt_sec x - nt_sec y)"
proof -
  have "wrap_s 32 (nt_nsec x - nt_nsec y) = nt_nsec x - nt_nsec y"
    using assms by (intro wrap_s_32) (auto simp: ntime_near_def ntime_consts)
  moreover have "wrap_s 64 (nt_sec x - nt_sec y) = nt_sec x - nt_sec y"
    using assms by (intro wrap_s_64) (auto simp: ntime_near_def)
  ultimately show ?thesis by (simp add: qse_cmp_ntime_def)
qed

lemma qse_cmp_ntime_val:
  assumes "ntime_near x" "ntime_near y"
  shows "qse_cmp_ntime x y < 0 \<longleftrightarrow> ntime_val x < ntime_val y"
    and "qse_cmp_ntime x y > 0 \<longleftrightarrow> ntime_val y < ntime_val x"
    and "qse_cmp_ntime x y = 0 \<longleftrightarrow> ntime_val x = ntime_val y"
  using assms
  by (auto simp: qse_cmp_ntime_exact ntime_val_def ntime_near_def ntime_consts)

section \<open>Broken-down time\<close>

record qse_btime =
  bt_sec :: int
  bt_min :: int
  bt_hour :: int
  bt_mday :: int
  bt_mon :: int
  bt_year :: int
  bt_wday :: int
  bt_yday :: int
  bt_isdst :: int
  bt_gmtoff :: int

definition QSE_EPOCH_YEAR :: int where [qse_defs]: "QSE_EPOCH_YEAR = 1970"
definition QSE_EPOCH_WDAY :: int where [qse_defs]: "QSE_EPOCH_WDAY = 4"
definition QSE_BTIME_YEAR_BASE :: int where [qse_defs]: "QSE_BTIME_YEAR_BASE = 1900"
definition QSE_SECS_PER_DAY :: int where [qse_defs]: "QSE_SECS_PER_DAY = 86400"

lemmas btime_consts = QSE_EPOCH_YEAR_def QSE_EPOCH_WDAY_def QSE_BTIME_YEAR_BASE_def
  QSE_SECS_PER_DAY_def

definition mdays :: "bool \<Rightarrow> int list" where
  "mdays leap =
     (if leap then [31, 29, 31, 30, 31, 30, 31, 31, 30, 31, 30, 31]
      else [31, 28, 31, 30, 31, 30, 31, 31, 30, 31, 30, 31])"

definition mdays_tot :: "bool \<Rightarrow> int list" where
  "mdays_tot leap =
     (if leap then [0, 31, 60, 91, 121, 152, 182, 213, 244, 274, 305, 335]
      else [0, 31, 59, 90, 120, 151, 181, 212, 243, 273, 304, 334])"

definition mdays_rtot :: "bool \<Rightarrow> int list" where
  "mdays_rtot leap =
     (if leap then [335, 306, 275, 245, 214, 184, 153, 122, 92, 61, 31, 0]
      else [334, 306, 275, 245, 214, 184, 153, 122, 92, 61, 31, 0])"

definition QSE_IS_LEAPYEAR :: "int \<Rightarrow> bool" where
  "QSE_IS_LEAPYEAR y \<longleftrightarrow> (c_mod y 4 = 0 \<and> c_mod y 100 \<noteq> 0) \<or> c_mod y 400 = 0"

definition QSE_DAYS_PER_YEAR :: "int \<Rightarrow> int" where
  "QSE_DAYS_PER_YEAR y = (if QSE_IS_LEAPYEAR y then 366 else 365)"

definition get_leap_days :: "int \<Rightarrow> int \<Rightarrow> int" where
  "get_leap_days fy ty =
     (let fy = fy - 1; ty = ty - 1 in
      (c_div ty 4 - c_div fy 4) - (c_div ty 100 - c_div fy 100) + (c_div ty 400 - c_div fy 400))"

text \<open>
  The year arithmetic of \<open>qse_timegm\<close> is done in \<open>int\<close> (32 bits) before it is stored in the
  64-bit \<open>n\<close>. The day of the month is taken to be one whose difference to the length of the month is an \<open>int\<close>. The month indexes the tables; the source asserts that it is in range.
\<close>

definition qse_timegm :: "qse_btime \<Rightarrow> qse_ntime" where
  "qse_timegm bt =
     (let y = wrap_s 32 (bt_year bt + QSE_BTIME_YEAR_BASE);
          leap = QSE_IS_LEAPYEAR y;
          mon = nat (bt_mon bt) in
      if y < QSE_EPOCH_YEAR then
        (let n = wrap_s 32 (365 * (QSE_EPOCH_YEAR - 1 - y) + get_leap_days y (QSE_EPOCH_YEAR - 1));
             n = n + mdays_rtot leap ! mon;
             n = n + (mdays leap ! mon - bt_mday bt);
             n = (if leap then n - 1 else n);
             n = n * 24;
             n = (n + 24 - bt_hour bt - 1) * 60;
             n = (n + 60 - bt_min bt - 1) * 60;
             n = n + 60 - bt_sec bt
         in Ntime (- n) 0)
      else
        (let n = wrap_s 32 (365 * (y - QSE_EPOCH_YEAR) + get_leap_days QSE_EPOCH_YEAR y);
             n = n + mdays_tot leap ! mon;
             n = (n + bt_mday bt - 1) * 24;
             n = (n + bt_hour bt) * 60;
             n = (n + bt_min bt) * 60;
             n = n + bt_sec bt
         in Ntime n 0))"

text \<open>The four loops of \<open>breakdown_time\<close>.\<close>

function (sequential) bd_neg_secs :: "int \<Rightarrow> int \<Rightarrow> int \<times> int" where
  "bd_neg_secs secs days =
     (if secs < 0 then bd_neg_secs (secs + QSE_SECS_PER_DAY) (days - 1) else (secs, days))"
  by pat_completeness auto
termination
  by (relation "measure (\<lambda>(s, d). nat (- s))") (auto simp: btime_consts)

function (sequential) bd_big_secs :: "int \<Rightarrow> int \<Rightarrow> int \<times> int" where
  "bd_big_secs secs days =
     (if QSE_SECS_PER_DAY \<le> secs then bd_big_secs (secs - QSE_SECS_PER_DAY) (days + 1)
      else (secs, days))"
  by pat_completeness auto
termination
  by (relation "measure (\<lambda>(s, d). nat s)") (auto simp: btime_consts)

lemma QSE_DAYS_PER_YEAR_bounds: "365 \<le> QSE_DAYS_PER_YEAR y" "QSE_DAYS_PER_YEAR y \<le> 366"
  by (auto simp: QSE_DAYS_PER_YEAR_def)

function (sequential) bd_years_up :: "int \<Rightarrow> int \<Rightarrow> int \<times> int" where
  "bd_years_up days year =
     (if QSE_DAYS_PER_YEAR year \<le> days
      then bd_years_up (days - QSE_DAYS_PER_YEAR year) (year + 1) else (days, year))"
  by pat_completeness auto
termination
proof (relation "measure (\<lambda>(d, y). nat d)")
  fix days year :: int
  assume "QSE_DAYS_PER_YEAR year \<le> days"
  then show "((days - QSE_DAYS_PER_YEAR year, year + 1), (days, year))
      \<in> measure (\<lambda>(d, y). nat d)"
    using QSE_DAYS_PER_YEAR_bounds(1) [of year] by simp
qed simp

function (sequential) bd_years_down :: "int \<Rightarrow> int \<Rightarrow> int \<times> int" where
  "bd_years_down days year =
     (let year = year - 1; days = days + QSE_DAYS_PER_YEAR year in
      if days < 0 then bd_years_down days year else (days, year))"
  by pat_completeness auto
termination
proof (relation "measure (\<lambda>(d, y). nat (- d))", goal_cases)
  case (2 days year y d)
  then show ?case using QSE_DAYS_PER_YEAR_bounds(1) [of "year - 1"] by simp
qed simp

declare bd_neg_secs.simps [simp del] bd_big_secs.simps [simp del]
  bd_years_up.simps [simp del] bd_years_down.simps [simp del]

text \<open>The month loop; it reads \<open>mdays\<close> at most at index 11 because the days left are fewer than the
  days of the year, which the guard \<open>mon < 12\<close> makes explicit.\<close>

function (sequential) bd_months :: "bool \<Rightarrow> nat \<Rightarrow> int \<Rightarrow> nat \<times> int" where
  "bd_months leap mon days =
     (if mon < 12 \<and> mdays leap ! mon \<le> days
      then bd_months leap (mon + 1) (days - mdays leap ! mon) else (mon, days))"
  by pat_completeness auto
termination
  by (relation "measure (\<lambda>(l, m, d). 12 - m)") auto

declare bd_months.simps [simp del]

definition breakdown_time :: "qse_ntime \<Rightarrow> int \<Rightarrow> qse_btime" where
  "breakdown_time nt gmtoff =
     (let secs = nt_sec nt + gmtoff;
          days = c_div secs QSE_SECS_PER_DAY;
          secs = c_mod secs QSE_SECS_PER_DAY;
          (secs, days) = bd_neg_secs secs days;
          (secs, days) = bd_big_secs secs days;
          hour = c_div secs 3600;
          secs = c_mod secs 3600;
          wday = c_mod (days + QSE_EPOCH_WDAY) 7;
          wday = (if wday < 0 then wday + 7 else wday);
          (days, year) = (if 0 \<le> days then bd_years_up days QSE_EPOCH_YEAR
                          else bd_years_down days QSE_EPOCH_YEAR);
          (mon, mdy) = bd_months (QSE_IS_LEAPYEAR year) 0 days
      in \<lparr>bt_sec = c_mod secs 60, bt_min = c_div secs 60, bt_hour = hour,
          bt_mday = mdy + 1, bt_mon = int mon, bt_year = year - QSE_BTIME_YEAR_BASE,
          bt_wday = wday, bt_yday = days, bt_isdst = 0, bt_gmtoff = gmtoff\<rparr>)"

text \<open>
  The calendar as a specification: the day number of January 1st of a year, counted from the
  epoch by adding up the lengths of the years between.
\<close>

definition day_of_year_start :: "int \<Rightarrow> int" where
  "day_of_year_start y =
     (if QSE_EPOCH_YEAR \<le> y then \<Sum>k \<in> {QSE_EPOCH_YEAR..<y}. QSE_DAYS_PER_YEAR k
      else - (\<Sum>k \<in> {y..<QSE_EPOCH_YEAR}. QSE_DAYS_PER_YEAR k))"

definition day_of_date :: "int \<Rightarrow> nat \<Rightarrow> int \<Rightarrow> int" where
  "day_of_date y mon mday =
     day_of_year_start y + sum_list (take mon (mdays (QSE_IS_LEAPYEAR y))) + mday - 1"

lemma QSE_IS_LEAPYEAR_dvd:
  "QSE_IS_LEAPYEAR y \<longleftrightarrow> (4 dvd y \<and> \<not> 100 dvd y) \<or> 400 dvd y"
  by (simp add: QSE_IS_LEAPYEAR_def c_mod_eq_0_iff)

lemma day_of_year_start_Suc:
  "day_of_year_start (y + 1) = day_of_year_start y + QSE_DAYS_PER_YEAR y"
proof (cases "1970 \<le> y")
  case True
  then have "{1970..<y + 1} = insert y {1970..<y}" by auto
  with True show ?thesis by (simp add: day_of_year_start_def btime_consts)
next
  case False
  then have s: "{y..<1970} = insert y {y + 1..<1970}" by auto
  show ?thesis
  proof (cases "y + 1 = 1970")
    case True
    then have "y = 1969" by simp
    then show ?thesis using s by (simp add: day_of_year_start_def btime_consts)
  next
    case False
    with \<open>\<not> 1970 \<le> y\<close> s show ?thesis by (simp add: day_of_year_start_def btime_consts)
  qed
qed

definition leap_count :: "int \<Rightarrow> int" where
  "leap_count y = (y - 1) div 4 - (y - 1) div 100 + (y - 1) div 400"

lemma div_step:
  assumes k: "0 < (k::int)"
  shows "y div k = (y - 1) div k + (if k dvd y then 1 else 0)"
proof (cases "k dvd y")
  case True
  then obtain q where q: "y = k * q" by auto
  have "(y - 1) div k = q - 1"
    using k q by (intro int_div_pos_eq [where r = "k - 1"]) (auto simp: algebra_simps)
  then show ?thesis using q k by simp
next
  case False
  have "y mod k \<noteq> 0" using False by (simp add: dvd_eq_mod_eq_0)
  then have "1 \<le> y mod k" using k pos_mod_sign[of k y] by linarith
  then have "(y - 1) div k = y div k"
    using pos_mod_bound [OF k, of y] mult_div_mod_eq [of k y]
    by (intro int_div_pos_eq [where r = "y mod k - 1"]) linarith+
  then show ?thesis using False by simp
qed

lemma leap_count_Suc: "leap_count (y + 1) = leap_count y + (if QSE_IS_LEAPYEAR y then 1 else 0)"
proof -
  have "(100::int) dvd y \<Longrightarrow> 4 dvd y" "(400::int) dvd y \<Longrightarrow> 100 dvd y"
    by (auto intro: dvd_trans[of 4 100 y] dvd_trans[of 100 400 y])
  then show ?thesis
    by (auto simp: leap_count_def QSE_IS_LEAPYEAR_dvd div_step[of 4 y] div_step[of 100 y] div_step[of 400 y])
qed

lemma day_of_year_start_closed:
  "day_of_year_start y = 365 * (y - 1970) + leap_count y - leap_count 1970"
proof (induction y rule: int_induct [where k = 1970])
  case base
  show ?case by (simp add: day_of_year_start_def btime_consts)
next
  case (step1 i)
  then show ?case by (simp add: day_of_year_start_Suc leap_count_Suc QSE_DAYS_PER_YEAR_def)
next
  case (step2 i)
  then show ?case
    using day_of_year_start_Suc [of "i - 1"] leap_count_Suc [of "i - 1"]
    by (simp add: QSE_DAYS_PER_YEAR_def split: if_splits)
qed

lemma get_leap_days_count:
  "1 \<le> fy \<Longrightarrow> 1 \<le> ty \<Longrightarrow> get_leap_days fy ty = leap_count ty - leap_count fy"
  by (simp add: get_leap_days_def leap_count_def c_arith Let_def)

lemma day_of_year_start_mono: "x \<le> y \<Longrightarrow> day_of_year_start x \<le> day_of_year_start y"
proof (induction y rule: int_ge_induct)
  case (step i)
  then show ?case using QSE_DAYS_PER_YEAR_bounds(1) [of i] by (simp add: day_of_year_start_Suc)
qed simp

lemma length_mdays: "length (mdays l) = 12"
  by (simp add: mdays_def)

lemma sum_mdays: "sum_list (mdays (QSE_IS_LEAPYEAR y)) = QSE_DAYS_PER_YEAR y"
  by (simp add: mdays_def QSE_DAYS_PER_YEAR_def)

lemma less_12_cases:
  assumes "m < (12::nat)"
  shows "m = 0 \<or> m = 1 \<or> m = 2 \<or> m = 3 \<or> m = 4 \<or> m = 5 \<or> m = 6 \<or> m = 7 \<or> m = 8
    \<or> m = 9 \<or> m = 10 \<or> m = 11"
  using assms by presburger

lemma mdays_tot_take: "m < 12 \<Longrightarrow> mdays_tot l ! m = sum_list (take m (mdays l))"
  by (drule less_12_cases) (auto simp: mdays_tot_def mdays_def)

lemma mdays_rtot_take: "m < 12 \<Longrightarrow>
  mdays_rtot l ! m = sum_list (mdays l) - sum_list (take m (mdays l)) - mdays l ! m"
  by (drule less_12_cases) (auto simp: mdays_rtot_def mdays_def)

definition btime_ok :: "qse_btime \<Rightarrow> bool" where
  "btime_ok bt \<longleftrightarrow> 1 \<le> bt_year bt + 1900 \<and> bt_year bt + 1900 \<le> 5000000 \<and>
     0 \<le> bt_mon bt \<and> bt_mon bt < 12"

lemma leap_count_bounds:
  assumes "1 \<le> y" "y \<le> 5000000"
  shows "0 \<le> leap_count y \<and> leap_count y \<le> 1500000"
proof -
  let ?n = "y - 1"
  have "?n div 100 \<le> ?n div 4" using assms by (intro zdiv_mono2) auto
  moreover have "0 \<le> ?n div 400" "?n div 4 \<le> 1250000" "?n div 400 \<le> 12500" "0 \<le> ?n div 100"
    using assms by linarith+
  ultimately show ?thesis unfolding leap_count_def by linarith
qed

lemma qse_timegm_day_of_date:
  assumes "btime_ok bt"
  shows "qse_timegm bt = Ntime
     (((day_of_date (bt_year bt + QSE_BTIME_YEAR_BASE) (nat (bt_mon bt)) (bt_mday bt) * 24
        + bt_hour bt) * 60 + bt_min bt) * 60 + bt_sec bt) 0"
proof -
  define y where "y = bt_year bt + 1900"
  have y: "1 \<le> y" "y \<le> 5000000" and m: "nat (bt_mon bt) < 12"
    using assms by (auto simp: btime_ok_def y_def)
  have wy: "wrap_s 32 (bt_year bt + 1900) = y"
    unfolding y_def [symmetric] using y by (intro wrap_s_32) auto
  have l0: "leap_count 1969 = 477" "leap_count 1970 = 477" by (simp_all add: leap_count_def)
  have w1: "wrap_s 32 (365 * (1969 - y) + get_leap_days y 1969)
      = 365 * (1969 - y) + leap_count 1969 - leap_count y" if "y < 1970"
    using that y leap_count_bounds [OF y]
    by (subst wrap_s_32) (auto simp: get_leap_days_count l0)
  have w2: "wrap_s 32 (365 * (y - 1970) + get_leap_days 1970 y)
      = 365 * (y - 1970) + leap_count y - leap_count 1970" if "\<not> y < 1970"
    using that y leap_count_bounds [OF y]
    by (subst wrap_s_32) (auto simp: get_leap_days_count l0)
  show ?thesis
  proof (cases "y < 1970")
    case True
    with wy w1 m show ?thesis
      by (simp add: qse_timegm_def btime_consts Let_def day_of_date_def day_of_year_start_closed
          mdays_rtot_take sum_mdays QSE_DAYS_PER_YEAR_def l0 flip: y_def)
  next
    case False
    with wy w2 m show ?thesis
      by (simp add: qse_timegm_def btime_consts Let_def day_of_date_def day_of_year_start_closed
          mdays_tot_take flip: y_def)
  qed
qed


lemma bd_neg_secs_nonneg: "0 \<le> secs \<Longrightarrow> bd_neg_secs secs days = (secs, days)"
  by (simp add: bd_neg_secs.simps)

lemma bd_neg_secs_neg:
  "secs < 0 \<Longrightarrow> - QSE_SECS_PER_DAY \<le> secs \<Longrightarrow>
   bd_neg_secs secs days = (secs + QSE_SECS_PER_DAY, days - 1)"
  by (subst bd_neg_secs.simps) (simp add: bd_neg_secs_nonneg)

lemma bd_big_secs_small: "secs < QSE_SECS_PER_DAY \<Longrightarrow> bd_big_secs secs days = (secs, days)"
  by (simp add: bd_big_secs.simps)

text \<open>Truncating division followed by the two correction loops is flooring division.\<close>

lemma bd_split_secs:
  "(case bd_neg_secs (c_mod s QSE_SECS_PER_DAY) (c_div s QSE_SECS_PER_DAY) of
      (secs, days) \<Rightarrow> bd_big_secs secs days) = (s mod QSE_SECS_PER_DAY, s div QSE_SECS_PER_DAY)"
proof (cases "0 \<le> s")
  case True
  then show ?thesis
    by (simp add: c_arith btime_consts bd_neg_secs_nonneg bd_big_secs_small [unfolded btime_consts])
next
  case False
  define q where "q = (- s) div 86400"
  define r where "r = (- s) mod 86400"
  have s: "s = - (86400 * q + r)" and r: "0 \<le> r" "r < 86400"
    by (auto simp: q_def r_def)
  have d: "c_div s 86400 = - q"
    using False by (simp add: c_div_def q_def)
  then have m: "c_mod s 86400 = - r"
    using s by (simp add: c_mod_def)
  show ?thesis
  proof (cases "r = 0")
    case True
    then have "s div 86400 = - q" "s mod 86400 = 0" using s by auto
    with True show ?thesis
      by (simp add: btime_consts d m bd_neg_secs_nonneg bd_big_secs_small [unfolded btime_consts])
  next
    case False
    have "s div 86400 = - q - 1" "s mod 86400 = 86400 - r"
      using s r False by (auto intro!: int_div_pos_eq [where r = "86400 - r"]
          int_mod_pos_eq [where q = "- q - 1"])
    with False r show ?thesis
      by (simp add: btime_consts d m bd_neg_secs_neg [unfolded btime_consts]
          bd_big_secs_small [unfolded btime_consts])
  qed
qed

lemma bd_years_up_spec:
  "0 \<le> days \<Longrightarrow> bd_years_up days year = (d, y) \<Longrightarrow>
   day_of_year_start y + d = day_of_year_start year + days \<and> 0 \<le> d \<and> d < QSE_DAYS_PER_YEAR y"
proof (induction days year rule: bd_years_up.induct)
  case (1 days year)
  show ?case
  proof (cases "QSE_DAYS_PER_YEAR year \<le> days")
    case True
    with "1.prems" have "bd_years_up (days - QSE_DAYS_PER_YEAR year) (year + 1) = (d, y)"
      by (simp add: bd_years_up.simps [of days year])
    from "1.IH" [OF True _ this] True show ?thesis
      by (simp add: day_of_year_start_Suc)
  next
    case False
    with "1.prems" show ?thesis by (simp add: bd_years_up.simps [of days year])
  qed
qed

lemma bd_years_down_spec:
  "days < 0 \<Longrightarrow> bd_years_down days year = (d, y) \<Longrightarrow>
   day_of_year_start y + d = day_of_year_start year + days \<and> 0 \<le> d \<and> d < QSE_DAYS_PER_YEAR y"
proof (induction days year rule: bd_years_down.induct)
  case (1 days year)
  let ?d = "days + QSE_DAYS_PER_YEAR (year - 1)"
  have st: "day_of_year_start year = day_of_year_start (year - 1) + QSE_DAYS_PER_YEAR (year - 1)"
    using day_of_year_start_Suc [of "year - 1"] by simp
  show ?case
  proof (cases "?d < 0")
    case True
    with "1.prems" have "bd_years_down ?d (year - 1) = (d, y)"
      by (simp add: bd_years_down.simps [of days year] Let_def)
    from "1.IH" [OF refl refl True True this] st show ?thesis by simp
  next
    case False
    with "1.prems" st show ?thesis by (auto simp: bd_years_down.simps [of days year] Let_def)
  qed
qed

lemma bd_months_spec:
  "m \<le> 12 \<Longrightarrow> 0 \<le> days \<Longrightarrow> days < sum_list (drop m (mdays l)) \<Longrightarrow> bd_months l m days = (m', d) \<Longrightarrow>
   m' < 12 \<and> 0 \<le> d \<and> d < mdays l ! m' \<and>
   sum_list (take m' (mdays l)) + d = sum_list (take m (mdays l)) + days"
proof (induction l m days rule: bd_months.induct)
  case (1 l m days)
  have m: "m < 12"
    using "1.prems" by (cases "m = 12") (auto simp: length_mdays)
  have dr: "drop m (mdays l) = mdays l ! m # drop (Suc m) (mdays l)"
    using m by (simp add: Cons_nth_drop_Suc length_mdays)
  have tk: "take (Suc m) (mdays l) = take m (mdays l) @ [mdays l ! m]"
    using m by (simp add: take_Suc_conv_app_nth length_mdays)
  show ?case
  proof (cases "mdays l ! m \<le> days")
    case True
    with "1.prems" m have "bd_months l (m + 1) (days - mdays l ! m) = (m', d)"
      by (simp add: bd_months.simps [of l m days])
    from "1.IH" [OF _ _ _ _ this] True m "1.prems"(3) dr tk show ?thesis by simp
  next
    case False
    with "1.prems" m show ?thesis by (simp add: bd_months.simps [of l m days])
  qed
qed

lemma breakdown_time_unfold:
  fixes nt gmtoff
  defines "s \<equiv> nt_sec nt + gmtoff"
  assumes "(if 0 \<le> s div 86400 then bd_years_up (s div 86400) QSE_EPOCH_YEAR
            else bd_years_down (s div 86400) QSE_EPOCH_YEAR) = (d, y)"
    and "bd_months (QSE_IS_LEAPYEAR y) 0 d = (mon, mdy)"
  shows "breakdown_time nt gmtoff =
     \<lparr>bt_sec = s mod 86400 mod 3600 mod 60, bt_min = s mod 86400 mod 3600 div 60,
      bt_hour = s mod 86400 div 3600, bt_mday = mdy + 1, bt_mon = int mon,
      bt_year = y - QSE_BTIME_YEAR_BASE, bt_wday = (s div 86400 + QSE_EPOCH_WDAY) mod 7,
      bt_yday = d, bt_isdst = 0, bt_gmtoff = gmtoff\<rparr>"
proof -
  obtain a b where nb: "bd_neg_secs (c_mod s 86400) (c_div s 86400) = (a, b)"
    by (metis surj_pair)
  have sp: "bd_big_secs a b = (s mod 86400, s div 86400)"
    using bd_split_secs [of s] by (simp add: QSE_SECS_PER_DAY_def nb)
  show ?thesis
    unfolding breakdown_time_def QSE_SECS_PER_DAY_def s_def [symmetric] Let_def nb sp prod.case
      assms(2,3) c_mod_fixup [OF zero_less_numeral]
    by (simp add: c_arith)
qed

text \<open>What \<open>breakdown_time\<close> computes: the calendar date and the time of day of the shifted second.\<close>

lemma breakdown_time_fields:
  assumes "breakdown_time nt gmtoff = bt"
  shows "day_of_date (bt_year bt + QSE_BTIME_YEAR_BASE) (nat (bt_mon bt)) (bt_mday bt)
      = (nt_sec nt + gmtoff) div 86400"
    and "(bt_hour bt * 60 + bt_min bt) * 60 + bt_sec bt = (nt_sec nt + gmtoff) mod 86400"
    and "0 \<le> bt_sec bt \<and> bt_sec bt < 60 \<and> 0 \<le> bt_min bt \<and> bt_min bt < 60
      \<and> 0 \<le> bt_hour bt \<and> bt_hour bt < 24"
    and "0 \<le> bt_mon bt \<and> bt_mon bt < 12 \<and> 1 \<le> bt_mday bt \<and>
      bt_mday bt \<le> mdays (QSE_IS_LEAPYEAR (bt_year bt + QSE_BTIME_YEAR_BASE)) ! nat (bt_mon bt)"
    and "bt_wday bt = ((nt_sec nt + gmtoff) div 86400 + QSE_EPOCH_WDAY) mod 7"
    and "day_of_year_start (bt_year bt + QSE_BTIME_YEAR_BASE) + bt_yday bt
        = (nt_sec nt + gmtoff) div 86400 \<and>
      0 \<le> bt_yday bt \<and> bt_yday bt < QSE_DAYS_PER_YEAR (bt_year bt + QSE_BTIME_YEAR_BASE)"
proof -
  define s where "s = nt_sec nt + gmtoff"
  obtain d y where years: "(if 0 \<le> s div 86400 then bd_years_up (s div 86400) QSE_EPOCH_YEAR
      else bd_years_down (s div 86400) QSE_EPOCH_YEAR) = (d, y)"
    by (metis surj_pair)
  obtain mon mdy where months: "bd_months (QSE_IS_LEAPYEAR y) 0 d = (mon, mdy)"
    by (metis surj_pair)
  have e0: "day_of_year_start QSE_EPOCH_YEAR = 0" by (simp add: day_of_year_start_def)
  have dy: "day_of_year_start y + d = s div 86400 \<and> 0 \<le> d \<and> d < QSE_DAYS_PER_YEAR y"
    using bd_years_up_spec [of "s div 86400" QSE_EPOCH_YEAR d y]
      bd_years_down_spec [of "s div 86400" QSE_EPOCH_YEAR d y] years e0
    by (auto split: if_splits)
  then have mm: "mon < 12 \<and> 0 \<le> mdy \<and> mdy < mdays (QSE_IS_LEAPYEAR y) ! mon \<and>
      sum_list (take mon (mdays (QSE_IS_LEAPYEAR y))) + mdy = d"
    using bd_months_spec [OF _ _ _ months] by (simp add: sum_mdays)
  have bt: "bt = \<lparr>bt_sec = s mod 86400 mod 3600 mod 60, bt_min = s mod 86400 mod 3600 div 60,
      bt_hour = s mod 86400 div 3600, bt_mday = mdy + 1, bt_mon = int mon,
      bt_year = y - QSE_BTIME_YEAR_BASE, bt_wday = (s div 86400 + QSE_EPOCH_WDAY) mod 7,
      bt_yday = d, bt_isdst = 0, bt_gmtoff = gmtoff\<rparr>"
    using breakdown_time_unfold [of nt gmtoff, folded s_def, OF years months] assms by simp
  show "day_of_date (bt_year bt + QSE_BTIME_YEAR_BASE) (nat (bt_mon bt)) (bt_mday bt)
      = (nt_sec nt + gmtoff) div 86400"
    using dy mm by (simp add: bt day_of_date_def flip: s_def)
  show "(bt_hour bt * 60 + bt_min bt) * 60 + bt_sec bt = (nt_sec nt + gmtoff) mod 86400"
  proof -
    have "(a div 3600 * 60 + a mod 3600 div 60) * 60 + a mod 3600 mod 60 = a" for a :: int
      using div_mult_mod_eq [of a 3600] div_mult_mod_eq [of "a mod 3600" 60] by (simp add: algebra_simps)
    then show ?thesis by (simp add: bt flip: s_def)
  qed
  show "0 \<le> bt_sec bt \<and> bt_sec bt < 60 \<and> 0 \<le> bt_min bt \<and> bt_min bt < 60
      \<and> 0 \<le> bt_hour bt \<and> bt_hour bt < 24"
  proof -
    have "0 \<le> a div 3600 \<and> a div 3600 < 24" if "0 \<le> a" "a < 86400" for a :: int
      using that by linarith
    moreover have "0 \<le> a div 60 \<and> a div 60 < 60" if "0 \<le> a" "a < 3600" for a :: int
      using that by linarith
    ultimately have "0 \<le> s mod 86400 div 3600 \<and> s mod 86400 div 3600 < 24"
      "0 \<le> s mod 86400 mod 3600 div 60 \<and> s mod 86400 mod 3600 div 60 < 60"
      by simp_all
    then show ?thesis by (simp add: bt)
  qed
  show "0 \<le> bt_mon bt \<and> bt_mon bt < 12 \<and> 1 \<le> bt_mday bt \<and>
      bt_mday bt \<le> mdays (QSE_IS_LEAPYEAR (bt_year bt + QSE_BTIME_YEAR_BASE)) ! nat (bt_mon bt)"
    using mm by (simp add: bt)
  show "bt_wday bt = ((nt_sec nt + gmtoff) div 86400 + QSE_EPOCH_WDAY) mod 7"
    by (simp add: bt s_def)
  show "day_of_year_start (bt_year bt + QSE_BTIME_YEAR_BASE) + bt_yday bt
        = (nt_sec nt + gmtoff) div 86400 \<and>
      0 \<le> bt_yday bt \<and> bt_yday bt < QSE_DAYS_PER_YEAR (bt_year bt + QSE_BTIME_YEAR_BASE)"
    using dy by (simp add: bt s_def)
qed

lemma breakdown_time_btime_ok:
  assumes "- 62135596800 \<le> nt_sec nt" "nt_sec nt \<le> 100000000000000"
  shows "btime_ok (breakdown_time nt 0)"
proof -
  define bt where "bt = breakdown_time nt 0"
  note f = breakdown_time_fields [of nt 0 bt, OF bt_def [symmetric]]
  define y where "y = bt_year bt + QSE_BTIME_YEAR_BASE"
  define n where "n = nt_sec nt div 86400"
  have n: "- 719162 \<le> n" "n \<le> 1157407408" using assms by (auto simp: n_def)
  have y: "day_of_year_start y \<le> n" "n < day_of_year_start (y + 1)"
    using f(6) by (auto simp: y_def n_def day_of_year_start_Suc)
  have "1 \<le> y"
  proof (rule ccontr)
    assume "\<not> 1 \<le> y"
    then have "day_of_year_start (y + 1) \<le> day_of_year_start 1"
      by (intro day_of_year_start_mono) simp
    moreover have "day_of_year_start 1 = - 719162"
      by (simp add: day_of_year_start_closed leap_count_def)
    ultimately show False using y n by linarith
  qed
  moreover have "y \<le> 5000000"
  proof (rule ccontr)
    assume "\<not> y \<le> 5000000"
    then have "day_of_year_start 5000000 \<le> day_of_year_start y"
      by (intro day_of_year_start_mono) simp
    moreover have "1157407408 < day_of_year_start 5000000"
      by (simp add: day_of_year_start_closed leap_count_def)
    ultimately show False using y n by linarith
  qed
  ultimately show ?thesis
    using f(4) by (simp add: btime_ok_def y_def btime_consts flip: bt_def)
qed


section \<open>The text form of numeric time\<close>

text \<open>
  A C string is the list of its characters before the terminating NUL; reading at the end of the
  list gives NUL. \<open>qse_mbs_to_ntime\<close> and \<open>qse_wcs_to_ntime\<close> are the same code over two character
  types, so the model is over code points.
\<close>

type_synonym cstr = "int list"

definition cpeek :: "cstr \<Rightarrow> int" where
  "cpeek p = (case p of [] \<Rightarrow> 0 | c # _ \<Rightarrow> c)"

definition ISDIGIT :: "int \<Rightarrow> bool" where
  "ISDIGIT c \<longleftrightarrow> 48 \<le> c \<and> c \<le> 57"

text \<open>The loop over the digits of the seconds: \<open>None\<close> is the early \<open>return -1\<close> on overflow.\<close>

fun ntime_secs :: "int \<Rightarrow> cstr \<Rightarrow> (int \<times> cstr) option" where
  "ntime_secs sec [] = Some (sec, [])"
| "ntime_secs sec (c # p) =
     (if ISDIGIT c then
        (let sec' = wrap_s 64 (sec * 10 + (c - 48)) in
         if sec' < sec then None else ntime_secs sec' p)
      else Some (sec, c # p))"

fun ntime_frac :: "int \<Rightarrow> int \<Rightarrow> cstr \<Rightarrow> int \<times> cstr" where
  "ntime_frac nsec base [] = (nsec, [])"
| "ntime_frac nsec base (c # p) =
     (if c \<noteq> 0 \<and> ISDIGIT c \<and> 0 < base
      then ntime_frac (wrap_s 32 (nsec + (c - 48) * base)) (c_div base 10) p
      else (nsec, c # p))"

definition qse_mbs_to_ntime :: "cstr \<Rightarrow> qse_ntime option" where
  "qse_mbs_to_ntime text =
     (let (neg, p) = (if cpeek text = 45 then (True, tl text)
                      else if cpeek text = 43 then (False, tl text) else (False, text));
          cp = p in
      case ntime_secs 0 p of
        None \<Rightarrow> None
      | Some (sec, p) \<Rightarrow>
          if p = cp then None
          else
            (let (nsec, p) = (if cpeek p = 46 then ntime_frac 0 (c_div QSE_NSECS_PER_SEC 10) (tl p)
                              else (0, p)) in
             if cpeek p \<noteq> 0 then None
             else Some (Ntime (if neg then wrap_s 64 (sec * - 1) else sec) nsec)))"

definition qse_wcs_to_ntime :: "cstr \<Rightarrow> qse_ntime option" where
  "qse_wcs_to_ntime text = qse_mbs_to_ntime text"

text \<open>What decimal digits stand for.\<close>

definition dec_val :: "cstr \<Rightarrow> int" where
  "dec_val ds = foldl (\<lambda>v c. v * 10 + (c - 48)) 0 ds"

lemma dec_val_nonneg_aux: "0 \<le> v \<Longrightarrow> \<forall>c \<in> set ds. ISDIGIT c \<Longrightarrow> v \<le> foldl (\<lambda>v c. v * 10 + (c - 48)) v ds"
proof (induction ds arbitrary: v)
  case (Cons c ds)
  have "v \<le> v * 10 + (c - 48)" using Cons.prems by (auto simp: ISDIGIT_def)
  also have "\<dots> \<le> foldl (\<lambda>v c. v * 10 + (c - 48)) (v * 10 + (c - 48)) ds"
    using Cons.prems by (intro Cons.IH) (auto simp: ISDIGIT_def)
  finally show ?case by simp
qed simp

lemma ntime_secs_digits:
  "0 \<le> v \<Longrightarrow> \<forall>c \<in> set ds. ISDIGIT c \<Longrightarrow> \<not> ISDIGIT (cpeek rest) \<Longrightarrow>
   foldl (\<lambda>v c. v * 10 + (c - 48)) v ds \<le> SEC_MAX \<Longrightarrow>
   ntime_secs v (ds @ rest) = Some (foldl (\<lambda>v c. v * 10 + (c - 48)) v ds, rest)"
proof (induction ds arbitrary: v)
  case Nil
  then show ?case by (cases rest) (auto simp: cpeek_def)
next
  case (Cons c ds)
  let ?v = "v * 10 + (c - 48)"
  have v: "0 \<le> ?v" "v \<le> ?v" using Cons.prems by (auto simp: ISDIGIT_def)
  have "?v \<le> SEC_MAX"
    using dec_val_nonneg_aux [of ?v ds] v Cons.prems by simp
  then have w: "wrap_s 64 ?v = ?v"
    using v by (intro wrap_s_64) (auto simp: SEC_MAX_def)
  show ?case
    using Cons.IH [of ?v] Cons.prems v by (simp add: w Let_def)
qed

lemma dec_val_acc:
  "foldl (\<lambda>v c. v * 10 + (c - 48)) v ds = v * 10 ^ length ds + foldl (\<lambda>v c. v * 10 + (c - 48)) 0 ds"
  for v :: int
proof (induction ds arbitrary: v)
  case (Cons d ds)
  show ?case
    using Cons.IH [of "v * 10 + (d - 48)"] Cons.IH [of "d - 48"] by (simp add: distrib_right)
qed simp

lemma dec_val_Cons: "dec_val (c # ds) = (c - 48) * 10 ^ length ds + dec_val ds"
  unfolding dec_val_def foldl_Cons by (subst dec_val_acc) simp

lemma c_div_pow10: "c_div (10 ^ k) 10 = (if k = 0 then 0 else 10 ^ (k - 1))"
  by (cases k) (auto simp: c_arith)

lemma ntime_frac_digits:
  "\<forall>c \<in> set ds. ISDIGIT c \<Longrightarrow> length ds \<le> k \<Longrightarrow> k \<le> 9 \<Longrightarrow> 0 \<le> n \<Longrightarrow> n + 10 ^ k \<le> 10 ^ 9 \<Longrightarrow>
   ntime_frac n (if k = 0 then 0 else 10 ^ (k - 1)) ds = (n + dec_val ds * 10 ^ (k - length ds), [])"
proof (induction ds arbitrary: k n)
  case Nil
  then show ?case by (simp add: dec_val_def)
next
  case (Cons c ds)
  then obtain j where k: "k = Suc j" by (cases k) auto
  have c: "0 \<le> c - 48" "c - 48 \<le> 9" using Cons.prems by (auto simp: ISDIGIT_def)
  let ?n = "n + (c - 48) * 10 ^ j"
  have "(c - 48) * 10 ^ j \<le> 9 * 10 ^ j" using c by (intro mult_right_mono) auto
  moreover have "n + 10 * 10 ^ j \<le> 1000000000" using Cons.prems by (simp add: k)
  moreover have "0 \<le> (c - 48) * 10 ^ j" using c by simp
  ultimately have n: "0 \<le> ?n" "?n + 10 ^ j \<le> 1000000000" using Cons.prems(4) by linarith+
  have "(0::int) \<le> 10 ^ j" by simp
  with n have w: "wrap_s 32 ?n = ?n"
    by (intro wrap_s_32) linarith+
  have ih: "ntime_frac ?n (if j = 0 then 0 else 10 ^ (j - 1)) ds
      = (?n + dec_val ds * 10 ^ (j - length ds), [])"
    using Cons.prems n by (intro Cons.IH) (auto simp: k)
  have p: "(10::int) ^ length ds * 10 ^ (j - length ds) = 10 ^ j"
    using Cons.prems k by (simp flip: power_add)
  have "dec_val (c # ds) * 10 ^ (j - length ds) = (c - 48) * 10 ^ j + dec_val ds * 10 ^ (j - length ds)"
    unfolding dec_val_Cons distrib_right mult.assoc p ..
  moreover have "ISDIGIT c" "c \<noteq> 0" using Cons.prems c by auto
  ultimately show ?case
    by (simp add: k w c_div_pow10 ih)
qed

text \<open>A text of the documented form, without a sign.\<close>

lemma qse_mbs_to_ntime_parse:
  assumes "ss \<noteq> []" "\<forall>c \<in> set ss. ISDIGIT c" "\<forall>c \<in> set fs. ISDIGIT c"
    and "dec_val ss \<le> SEC_MAX" "length fs \<le> 9"
  shows "qse_mbs_to_ntime (ss @ 46 # fs) = Some (Ntime (dec_val ss) (dec_val fs * 10 ^ (9 - length fs)))"
    and "qse_mbs_to_ntime ss = Some (Ntime (dec_val ss) 0)"
proof -
  from assms(1) obtain c cs where ss: "ss = c # cs" by (cases ss) auto
  have c: "c \<noteq> 45" "c \<noteq> 43" using assms(2) by (auto simp: ss ISDIGIT_def)
  have nd: "\<not> ISDIGIT (cpeek (46 # fs))" "\<not> ISDIGIT (cpeek [])" by (simp_all add: cpeek_def ISDIGIT_def)
  have sec: "ntime_secs 0 (ss @ rest) = Some (dec_val ss, rest)" if "\<not> ISDIGIT (cpeek rest)" for rest
    using ntime_secs_digits [of 0 ss rest] assms that by (simp add: dec_val_def)
  have fr: "ntime_frac 0 (c_div QSE_NSECS_PER_SEC 10) fs = (dec_val fs * 10 ^ (9 - length fs), [])"
    using ntime_frac_digits [of fs 9 0] assms by (simp add: QSE_NSECS_PER_SEC_def c_arith)
  show "qse_mbs_to_ntime (ss @ 46 # fs) = Some (Ntime (dec_val ss) (dec_val fs * 10 ^ (9 - length fs)))"
    using sec [OF nd(1)] c fr by (simp add: qse_mbs_to_ntime_def ss cpeek_def)
  show "qse_mbs_to_ntime ss = Some (Ntime (dec_val ss) 0)"
    using sec [OF nd(2)] c by (simp add: qse_mbs_to_ntime_def ss cpeek_def)
qed


section \<open>Properties\<close>

text \<open>
  C31. For normalised operands \<open>qse_add_ntime\<close> returns a normalised time whose value in
  nanoseconds is the exact sum, clamped to the least and the greatest representable time.
\<close>

theorem qse_add_ntime_saturates:
  assumes "ntime_ok x" and "ntime_ok y"
  shows "ntime_ok (qse_add_ntime x y) \<and>
     ntime_val (qse_add_ntime x y) = clamp_val (ntime_val x + ntime_val y)"
  using qse_add_ntime_saturates_aux [OF assms] by blast

theorem qse_add_ntime_saturates_witness:
  "ntime_ok (qse_add_ntime (Ntime SEC_MAX 999999999) (Ntime (- 1) 2)) \<and>
   ntime_val (qse_add_ntime (Ntime SEC_MAX 999999999) (Ntime (- 1) 2))
     = clamp_val (ntime_val (Ntime SEC_MAX 999999999) + ntime_val (Ntime (- 1) 2))"
  by (rule qse_add_ntime_saturates) (simp_all add: ntime_ok_def ntime_consts)

text \<open>
  For normalised operands \<open>qse_sub_ntime\<close> returns a normalised time whose value is the
  exact difference clamped to the representable range, unless the minuend holds the least number
  of seconds and the subtraction of the nanoseconds borrows.
\<close>

theorem qse_sub_ntime_saturates:
  assumes "ntime_ok x" and "ntime_ok y" and "nt_sec x \<noteq> SEC_MIN \<or> nt_nsec y \<le> nt_nsec x"
  shows "ntime_ok (qse_sub_ntime x y) \<and>
     ntime_val (qse_sub_ntime x y) = clamp_val (ntime_val x - ntime_val y)"
  using qse_sub_ntime_saturates_aux [OF assms] by blast

theorem qse_sub_ntime_saturates_witness:
  "ntime_ok (qse_sub_ntime (Ntime 5 1) (Ntime 7 2)) \<and>
   ntime_val (qse_sub_ntime (Ntime 5 1) (Ntime 7 2))
     = clamp_val (ntime_val (Ntime 5 1) - ntime_val (Ntime 7 2))"
  by (rule qse_sub_ntime_saturates) (simp_all add: ntime_ok_def ntime_consts)

text \<open>
  In the excluded case the result is wrong in both directions: subtracting a negative time
  from the least second underflows although the difference is representable, and subtracting one
  second and one nanosecond from the least time does not saturate but returns a greater time.
\<close>

theorem qse_sub_ntime_borrow_at_min:
  "qse_sub_ntime (Ntime SEC_MIN 0) (Ntime (- 5) 1) = Ntime SEC_MIN 0 \<and>
   clamp_val (ntime_val (Ntime SEC_MIN 0) - ntime_val (Ntime (- 5) 1))
     = ntime_val (Ntime (SEC_MIN + 4) 999999999) \<and>
   qse_sub_ntime (Ntime SEC_MIN 0) (Ntime 1 1) = Ntime SEC_MIN 999999999 \<and>
   clamp_val (ntime_val (Ntime SEC_MIN 0) - ntime_val (Ntime 1 1)) = ntime_val (Ntime SEC_MIN 0)"
  by (simp add: qse_sub_ntime_def sub_ntime_tail_def wrap_s_def clamp_val_def ntime_val_def
      ntime_consts)

text \<open>
  C23. For a broken-down time with a year from 1 to 5000000 and a month in range, before or after
  the epoch, \<open>qse_timegm\<close> returns the seconds of the calendar date: the days counted by adding up the
  lengths of the years and months, plus the time of day.
\<close>

theorem qse_timegm_calendar:
  assumes "1 \<le> bt_year bt + QSE_BTIME_YEAR_BASE" and "bt_year bt + QSE_BTIME_YEAR_BASE \<le> 5000000"
    and "0 \<le> bt_mon bt" and "bt_mon bt < 12"
  shows "nt_nsec (qse_timegm bt) = 0 \<and> nt_sec (qse_timegm bt) =
     day_of_date (bt_year bt + QSE_BTIME_YEAR_BASE) (nat (bt_mon bt)) (bt_mday bt) * QSE_SECS_PER_DAY
     + bt_hour bt * 3600 + bt_min bt * 60 + bt_sec bt"
  using qse_timegm_day_of_date [of bt] assms
  by (simp add: btime_ok_def btime_consts)

definition leap_day_1968 :: qse_btime where
  "leap_day_1968 = \<lparr>bt_sec = 59, bt_min = 59, bt_hour = 23, bt_mday = 29, bt_mon = 1, bt_year = 68,
     bt_wday = 4, bt_yday = 59, bt_isdst = 0, bt_gmtoff = 0\<rparr>"

theorem qse_timegm_calendar_witness:
  "nt_nsec (qse_timegm leap_day_1968) = 0 \<and> nt_sec (qse_timegm leap_day_1968) =
     day_of_date (bt_year leap_day_1968 + QSE_BTIME_YEAR_BASE) (nat (bt_mon leap_day_1968))
       (bt_mday leap_day_1968) * QSE_SECS_PER_DAY
     + bt_hour leap_day_1968 * 3600 + bt_min leap_day_1968 * 60 + bt_sec leap_day_1968"
  by (rule qse_timegm_calendar) (simp_all add: leap_day_1968_def btime_consts)

lemma seconds_of_day_split:
  "(h * 60 + m) * 60 + s = r \<Longrightarrow> q * 86400 + r = x \<Longrightarrow> ((q * 24 + h) * 60 + m) * 60 + s = x"
  for q :: int
  by (auto simp: algebra_simps)

text \<open>
  C24. \<open>qse_timegm\<close> inverts \<open>breakdown_time\<close> (with no offset from UTC) for every second from the
  start of year 1 (-62135596800) up to 10 to the 14th seconds after the epoch, which is beyond the year three million, and the
  broken-down fields are in the ranges that the header documents. Far beyond that bound the claim is false: the year and the
  number of days overflow the \<open>int\<close> they are computed in.
\<close>

theorem qse_timegm_breakdown_time:
  assumes "- 62135596800 \<le> nt_sec nt" and "nt_sec nt \<le> 100000000000000"
  shows "qse_timegm (breakdown_time nt 0) = Ntime (nt_sec nt) 0 \<and>
    (let bt = breakdown_time nt 0 in
       bt_sec bt \<in> {0..59} \<and> bt_min bt \<in> {0..59} \<and> bt_hour bt \<in> {0..23} \<and>
       bt_mon bt \<in> {0..11} \<and> 1 \<le> bt_mday bt \<and>
       bt_mday bt \<le> mdays (QSE_IS_LEAPYEAR (bt_year bt + QSE_BTIME_YEAR_BASE)) ! nat (bt_mon bt) \<and>
       bt_wday bt \<in> {0..6} \<and> bt_yday bt \<in> {0..365})"
proof -
  define bt where "bt = breakdown_time nt 0"
  note f = breakdown_time_fields [of nt 0 bt, OF bt_def [symmetric]]
  have ok: "btime_ok bt" unfolding bt_def using assms by (rule breakdown_time_btime_ok)
  have "((nt_sec nt div 86400 * 24 + bt_hour bt) * 60 + bt_min bt) * 60 + bt_sec bt = nt_sec nt"
    using f(2) [unfolded add_0_right] div_mult_mod_eq [of "nt_sec nt" 86400]
    by (rule seconds_of_day_split)
  then have "qse_timegm bt = Ntime (nt_sec nt) 0"
    using qse_timegm_day_of_date [OF ok] f(1) by simp
  moreover have "0 \<le> bt_wday bt" "bt_wday bt < 7"
    unfolding f(5) by (rule pos_mod_sign, simp, rule pos_mod_bound, simp)
  ultimately show ?thesis
    using f(3,4,6) QSE_DAYS_PER_YEAR_bounds(2) [of "bt_year bt + QSE_BTIME_YEAR_BASE"]
    by (auto simp: Let_def simp flip: bt_def)
qed

theorem qse_timegm_breakdown_time_witness:
  "qse_timegm (breakdown_time (Ntime (- 1) 0) 0) = Ntime (nt_sec (Ntime (- 1) 0)) 0 \<and>
    (let bt = breakdown_time (Ntime (- 1) 0) 0 in
       bt_sec bt \<in> {0..59} \<and> bt_min bt \<in> {0..59} \<and> bt_hour bt \<in> {0..23} \<and>
       bt_mon bt \<in> {0..11} \<and> 1 \<le> bt_mday bt \<and>
       bt_mday bt \<le> mdays (QSE_IS_LEAPYEAR (bt_year bt + QSE_BTIME_YEAR_BASE)) ! nat (bt_mon bt) \<and>
       bt_wday bt \<in> {0..6} \<and> bt_yday bt \<in> {0..365})"
  by (rule qse_timegm_breakdown_time) simp_all

text \<open>
  \<open>qse_mbs_to_ntime\<close> reads a text \<open>seconds.fraction\<close> with at most nine fraction digits as the
  time it denotes: the value of the digits before the point in seconds, and the fraction scaled to
  nanoseconds.
\<close>

theorem qse_mbs_to_ntime_decimal:
  assumes "ss \<noteq> []" and "\<forall>c \<in> set ss. ISDIGIT c" and "\<forall>c \<in> set fs. ISDIGIT c"
    and "dec_val ss \<le> SEC_MAX" and "length fs \<le> 9"
  shows "qse_mbs_to_ntime (ss @ 46 # fs)
     = Some (Ntime (dec_val ss) (dec_val fs * 10 ^ (9 - length fs)))"
  using assms by (rule qse_mbs_to_ntime_parse(1))

theorem qse_mbs_to_ntime_decimal_witness:
  "qse_mbs_to_ntime ([49, 48] @ 46 # [50, 51, 49])
     = Some (Ntime (dec_val [49, 48]) (dec_val [50, 51, 49] * 10 ^ (9 - length [50, 51, 49::int])))"
  by (rule qse_mbs_to_ntime_decimal) (simp_all add: ISDIGIT_def dec_val_def ntime_consts)

end
