(* ===== verification/Qse_Heap.thy ===== *)
theory Qse_Heap
  imports Qse_Prelude
begin

text \<open>
  The binary heap on an array that two components of the library keep: the timer
  (\<open>src/lib/cmn/tmr.c\<close>) and the heap operations of the dynamic array (\<open>src/lib/cmn/arr.c\<close>). Both
  contain the same pair of loops, which move a hole towards the root or towards the leaves; the
  loops are defined here once over the relation \<open>abv\<close> ("the first element belongs strictly above the
  second") and the positions they report are kept as a log, because both
  components tell the owner of an element where it has moved to. The locale \<open>heap_order\<close> states what
  the loops need of \<open>abv\<close> and proves that they restore the heap.
\<close>

section \<open>The two loops\<close>

definition HEAP_PARENT :: "nat \<Rightarrow> nat" where "HEAP_PARENT x = (x - 1) div 2"
definition HEAP_LEFT :: "nat \<Rightarrow> nat" where "HEAP_LEFT x = x * 2 + 1"
definition HEAP_RIGHT :: "nat \<Rightarrow> nat" where "HEAP_RIGHT x = x * 2 + 2"

lemma HEAP_PARENT_less [termination_simp]: "0 < x \<Longrightarrow> HEAP_PARENT x < x"
  by (auto simp: HEAP_PARENT_def)

text \<open>A log entry: the old index, the new index and the element that moved.\<close>

type_synonym 'a move = "nat \<times> nat \<times> 'a"

fun up_loop :: "('a \<Rightarrow> 'a \<Rightarrow> bool) \<Rightarrow> 'a list \<Rightarrow> nat \<Rightarrow> 'a \<Rightarrow> 'a list \<times> nat \<times> 'a move list" where
  "up_loop abv xs i item =
     (if 0 < i \<and> abv item (xs ! HEAP_PARENT i) then
        (let p = HEAP_PARENT i;
             (ys, k, log) = up_loop abv (xs[i := xs ! p]) p item
         in (ys, k, (p, i, xs ! p) # log))
      else (xs[i := item], i, []))"

function (sequential) down_loop ::
  "('a \<Rightarrow> 'a \<Rightarrow> bool) \<Rightarrow> 'a list \<Rightarrow> nat \<Rightarrow> 'a \<Rightarrow> 'a list \<times> nat \<times> 'a move list" where
  "down_loop abv xs i item =
     (if i < length xs div 2 then
        (let left = HEAP_LEFT i; right = HEAP_RIGHT i;
             child = (if right < length xs \<and> abv (xs ! right) (xs ! left) then right else left)
         in if abv item (xs ! child) then (xs[i := item], i, [])
            else (let (ys, k, log) = down_loop abv (xs[i := xs ! child]) child item
                  in (ys, k, (child, i, xs ! child) # log)))
      else (xs[i := item], i, []))"
  by pat_completeness auto
termination
  by (relation "measure (\<lambda>(f, xs, i, x). length xs - i)")
    (auto simp: HEAP_LEFT_def HEAP_RIGHT_def split: if_splits)

declare up_loop.simps [simp del] down_loop.simps [simp del]

text \<open>Telling the owners of the moved elements: each one records the index it is told.\<close>

definition tell :: "'a move list \<Rightarrow> ('a \<Rightarrow> nat) \<Rightarrow> 'a \<Rightarrow> nat" where
  "tell log pos = fold (\<lambda>(old, new, e) f. f(e := new)) log pos"

lemma tell_Nil [simp]: "tell [] pos = pos"
  by (simp add: tell_def)

lemma tell_Cons [simp]: "tell ((old, new, e) # log) pos = tell log (pos(e := new))"
  by (simp add: tell_def)

lemma tell_append [simp]: "tell (l1 @ l2) pos = tell l2 (tell l1 pos)"
  by (simp add: tell_def)

section \<open>Frame facts of the loops\<close>

lemma up_loop_length: "up_loop abv xs i x = (ys, k, log) \<Longrightarrow> length ys = length xs \<and> k \<le> i"
proof (induction abv xs i x arbitrary: ys k log rule: up_loop.induct)
  case (1 abv xs i x)
  let ?p = "HEAP_PARENT i"
  show ?case
  proof (cases "0 < i \<and> abv x (xs ! ?p)")
    case True
    then obtain log' where "up_loop abv (xs[i := xs ! ?p]) ?p x = (ys, k, log')"
      using "1.prems" by (auto simp: up_loop.simps [of abv xs i x] Let_def split: prod.splits)
    from "1.IH" [OF True refl this] show ?thesis using HEAP_PARENT_less [of i] True by simp
  next
    case False
    then show ?thesis using "1.prems" by (auto simp: up_loop.simps [of abv xs i x])
  qed
qed

lemma up_loop_mset:
  "i < length xs \<Longrightarrow> up_loop abv xs i x = (ys, k, log) \<Longrightarrow> mset ys = mset (xs[i := x])"
proof (induction abv xs i x arbitrary: ys k log rule: up_loop.induct)
  case (1 abv xs i x)
  let ?p = "HEAP_PARENT i"
  show ?case
  proof (cases "0 < i \<and> abv x (xs ! ?p)")
    case True
    then obtain log' where r: "up_loop abv (xs[i := xs ! ?p]) ?p x = (ys, k, log')"
      using "1.prems" by (auto simp: up_loop.simps [of abv xs i x] Let_def split: prod.splits)
    have p: "?p < i" using True by (simp add: HEAP_PARENT_less)
    have "mset ys = mset (xs[i := xs ! ?p, ?p := x])"
      using "1.IH" [OF True refl _ r] "1.prems" p by simp
    also have "xs[i := xs ! ?p, ?p := x] = (xs[i := x])[i := (xs[i := x]) ! ?p, ?p := (xs[i := x]) ! i]"
      using "1.prems" p by simp
    also have "mset \<dots> = mset (xs[i := x])"
      using "1.prems" p by (intro mset_swap) auto
    finally show ?thesis .
  next
    case False
    then show ?thesis using "1.prems" by (auto simp: up_loop.simps [of abv xs i x])
  qed
qed

lemma down_child_bounds:
  fixes xs :: "'a list"
  assumes "i < length xs div 2"
    and "child = (if HEAP_RIGHT i < length xs \<and> b then HEAP_RIGHT i else HEAP_LEFT i)"
  shows "i < child" "child < length xs" "HEAP_PARENT child = i"
  using assms by (auto simp: HEAP_LEFT_def HEAP_RIGHT_def HEAP_PARENT_def)

lemma down_loop_length: "down_loop abv xs i x = (ys, k, log) \<Longrightarrow> length ys = length xs"
proof (induction abv xs i x arbitrary: ys k log rule: down_loop.induct)
  case (1 abv xs i x)
  define c where "c = (if HEAP_RIGHT i < length xs \<and> abv (xs ! HEAP_RIGHT i) (xs ! HEAP_LEFT i)
      then HEAP_RIGHT i else HEAP_LEFT i)"
  show ?case
  proof (cases "i < length xs div 2 \<and> \<not> abv x (xs ! c)")
    case True
    then obtain log' where "down_loop abv (xs[i := xs ! c]) c x = (ys, k, log')"
      using "1.prems"
      by (auto simp: down_loop.simps [of abv xs i x] c_def Let_def split: prod.splits if_splits)
    then show ?thesis using "1.IH" [OF _ refl refl c_def] True by simp
  next
    case False
    then show ?thesis
      using "1.prems" by (auto simp: down_loop.simps [of abv xs i x] c_def Let_def split: if_splits)
  qed
qed

lemma down_loop_mset:
  "i < length xs \<Longrightarrow> down_loop abv xs i x = (ys, k, log) \<Longrightarrow>
   mset ys = mset (xs[i := x]) \<and> length ys = length xs \<and> k < length xs"
proof (induction abv xs i x arbitrary: ys k log rule: down_loop.induct)
  case (1 abv xs i x)
  define c where "c = (if HEAP_RIGHT i < length xs \<and> abv (xs ! HEAP_RIGHT i) (xs ! HEAP_LEFT i)
      then HEAP_RIGHT i else HEAP_LEFT i)"
  show ?case
  proof (cases "i < length xs div 2 \<and> \<not> abv x (xs ! c)")
    case True
    then obtain log' where r: "down_loop abv (xs[i := xs ! c]) c x = (ys, k, log')"
      using "1.prems"
      by (auto simp: down_loop.simps [of abv xs i x] c_def Let_def split: prod.splits if_splits)
    note c = down_child_bounds [OF conjunct1 [OF True] c_def]
    have "mset ys = mset (xs[i := xs ! c, c := x]) \<and> length ys = length xs \<and> k < length xs"
      using "1.IH" [OF _ refl refl c_def _ _ r] True c by simp
    also have "xs[i := xs ! c, c := x] = (xs[i := x])[i := (xs[i := x]) ! c, c := (xs[i := x]) ! i]"
      using "1.prems" c by simp
    also have "mset \<dots> = mset (xs[i := x])"
      using "1.prems" c by (intro mset_swap) auto
    finally show ?thesis by simp
  next
    case False
    then show ?thesis
      using "1.prems" by (auto simp: down_loop.simps [of abv xs i x] c_def Let_def split: if_splits)
  qed
qed

section \<open>Position tracking\<close>

text \<open>\<open>tracks pos xs i\<close>: the owners know the index of every element except the one at \<open>i\<close>.\<close>

definition tracks :: "('a \<Rightarrow> nat) \<Rightarrow> 'a list \<Rightarrow> nat \<Rightarrow> bool" where
  "tracks pos xs i \<longleftrightarrow> (\<forall>j < length xs. j \<noteq> i \<longrightarrow> pos (xs ! j) = j)"

lemma tracks_step:
  assumes "tracks pos xs i" "distinct (xs[i := x])" "i < length xs" "p < length xs" "p \<noteq> i"
  shows "tracks (pos(xs ! p := i)) (xs[i := xs ! p]) p" "distinct (xs[i := xs ! p, p := x])"
proof -
  have ne: "xs ! j \<noteq> xs ! p" if "j < length xs" "j \<noteq> i" "j \<noteq> p" for j
    using assms that nth_eq_iff_index_eq [of "xs[i := x]" j p] by auto
  then show "tracks (pos(xs ! p := i)) (xs[i := xs ! p]) p"
    using assms by (auto simp: tracks_def nth_list_update)
  have "xs[i := xs ! p, p := x] = (xs[i := x])[i := (xs[i := x]) ! p, p := (xs[i := x]) ! i]"
    using assms by simp
  also have "distinct \<dots> = distinct (xs[i := x])"
    using assms by (intro distinct_swap) auto
  finally show "distinct (xs[i := xs ! p, p := x])" using assms by simp
qed

lemma up_loop_tracks:
  "i < length xs \<Longrightarrow> distinct (xs[i := x]) \<Longrightarrow> tracks pos xs i \<Longrightarrow>
   up_loop abv xs i x = (ys, k, log) \<Longrightarrow> tracks (tell log pos) ys k \<and> ys ! k = x"
proof (induction abv xs i x arbitrary: pos ys k log rule: up_loop.induct)
  case (1 abv xs i x)
  let ?p = "HEAP_PARENT i"
  show ?case
  proof (cases "0 < i \<and> abv x (xs ! ?p)")
    case True
    then obtain log' where r: "up_loop abv (xs[i := xs ! ?p]) ?p x = (ys, k, log')"
      and l: "log = (?p, i, xs ! ?p) # log'"
      using "1.prems" by (auto simp: up_loop.simps [of abv xs i x] Let_def split: prod.splits)
    have p: "?p < i" using True by (simp add: HEAP_PARENT_less)
    then have "?p < length xs" "?p \<noteq> i" using "1.prems"(1) by auto
    note st = tracks_step [OF "1.prems"(3,2,1) this]
    have "tracks (tell log' (pos(xs ! ?p := i))) ys k \<and> ys ! k = x"
      using \<open>?p < length xs\<close> by (intro "1.IH" [OF True refl _ st(2,1) r]) simp
    then show ?thesis by (simp add: l)
  next
    case False
    then have "ys = xs[i := x]" "k = i" "log = []"
      using "1.prems" by (auto simp: up_loop.simps [of abv xs i x])
    then show ?thesis using "1.prems" by (simp add: tracks_def)
  qed
qed

lemma down_loop_tracks:
  "i < length xs \<Longrightarrow> distinct (xs[i := x]) \<Longrightarrow> tracks pos xs i \<Longrightarrow>
   down_loop abv xs i x = (ys, k, log) \<Longrightarrow> tracks (tell log pos) ys k \<and> ys ! k = x"
proof (induction abv xs i x arbitrary: pos ys k log rule: down_loop.induct)
  case (1 abv xs i x)
  define c where "c = (if HEAP_RIGHT i < length xs \<and> abv (xs ! HEAP_RIGHT i) (xs ! HEAP_LEFT i)
      then HEAP_RIGHT i else HEAP_LEFT i)"
  show ?case
  proof (cases "i < length xs div 2 \<and> \<not> abv x (xs ! c)")
    case True
    then obtain log' where r: "down_loop abv (xs[i := xs ! c]) c x = (ys, k, log')"
      and l: "log = (c, i, xs ! c) # log'"
      using "1.prems"
      by (auto simp: down_loop.simps [of abv xs i x] c_def Let_def split: prod.splits if_splits)
    note c = down_child_bounds [OF conjunct1 [OF True] c_def]
    then have "c < length xs" "c \<noteq> i" by auto
    note st = tracks_step [OF "1.prems"(3,2,1) this]
    have "tracks (tell log' (pos(xs ! c := i))) ys k \<and> ys ! k = x"
      using True \<open>c < length xs\<close> by (intro "1.IH" [OF _ refl refl c_def _ _ st(2,1) r]) simp_all
    then show ?thesis by (simp add: l)
  next
    case False
    then have "ys = xs[i := x]" "k = i" "log = []"
      using "1.prems" by (auto simp: down_loop.simps [of abv xs i x] c_def Let_def split: if_splits)
    then show ?thesis using "1.prems" by (simp add: tracks_def)
  qed
qed

text \<open>An element that stays where it was has displaced nothing.\<close>

lemma up_loop_still: "up_loop abv xs i x = (ys, i, log) \<Longrightarrow> log = []"
proof (rule ccontr)
  assume u: "up_loop abv xs i x = (ys, i, log)" and "log \<noteq> []"
  then obtain log' where "0 < i" "up_loop abv (xs[i := xs ! HEAP_PARENT i]) (HEAP_PARENT i) x = (ys, i, log')"
    by (auto simp: up_loop.simps [of abv xs i x] Let_def split: prod.splits if_splits)
  then show False using up_loop_length HEAP_PARENT_less [of i] by fastforce
qed

lemma down_loop_ge: "down_loop abv xs i x = (ys, k, log) \<Longrightarrow> i \<le> k \<and> (log \<noteq> [] \<longrightarrow> i < k)"
proof (induction abv xs i x arbitrary: ys k log rule: down_loop.induct)
  case (1 abv xs i x)
  define c where "c = (if HEAP_RIGHT i < length xs \<and> abv (xs ! HEAP_RIGHT i) (xs ! HEAP_LEFT i)
      then HEAP_RIGHT i else HEAP_LEFT i)"
  show ?case
  proof (cases "i < length xs div 2 \<and> \<not> abv x (xs ! c)")
    case True
    then obtain log' where "down_loop abv (xs[i := xs ! c]) c x = (ys, k, log')"
      using "1.prems"
      by (auto simp: down_loop.simps [of abv xs i x] c_def Let_def split: prod.splits if_splits)
    from "1.IH" [OF _ refl refl c_def _ this] True have "c \<le> k" by simp
    moreover have "i < c" using True by (auto simp: c_def HEAP_LEFT_def HEAP_RIGHT_def)
    ultimately show ?thesis by simp
  next
    case False
    then show ?thesis
      using "1.prems" by (auto simp: down_loop.simps [of abv xs i x] c_def Let_def split: if_splits)
  qed
qed

section \<open>The heap property\<close>

definition heap_on :: "('a \<Rightarrow> 'a \<Rightarrow> bool) \<Rightarrow> 'a list \<Rightarrow> bool" where
  "heap_on abv xs \<longleftrightarrow> (\<forall>j < length xs. 0 < j \<longrightarrow> \<not> abv (xs ! j) (xs ! HEAP_PARENT j))"

text \<open>
  A heap with a hole at \<open>i\<close> that \<open>x\<close> is to fill: all pairs away from the hole are in order, and
  the children of the hole are in order with its parent. On the way up \<open>x\<close> is in order with
  the children of the hole, on the way down with its parent.
\<close>

definition hole_inv :: "('a \<Rightarrow> 'a \<Rightarrow> bool) \<Rightarrow> 'a list \<Rightarrow> nat \<Rightarrow> bool" where
  "hole_inv abv xs i \<longleftrightarrow> i < length xs \<and>
     (\<forall>j < length xs. 0 < j \<longrightarrow> j \<noteq> i \<longrightarrow> HEAP_PARENT j \<noteq> i \<longrightarrow>
        \<not> abv (xs ! j) (xs ! HEAP_PARENT j)) \<and>
     (\<forall>j < length xs. 0 < i \<longrightarrow> 0 < j \<longrightarrow> HEAP_PARENT j = i \<longrightarrow>
        \<not> abv (xs ! j) (xs ! HEAP_PARENT i))"

definition under_ok :: "('a \<Rightarrow> 'a \<Rightarrow> bool) \<Rightarrow> 'a list \<Rightarrow> nat \<Rightarrow> 'a \<Rightarrow> bool" where
  "under_ok abv xs i x \<longleftrightarrow>
     (\<forall>j < length xs. 0 < j \<longrightarrow> HEAP_PARENT j = i \<longrightarrow> \<not> abv (xs ! j) x)"

definition over_ok :: "('a \<Rightarrow> 'a \<Rightarrow> bool) \<Rightarrow> 'a list \<Rightarrow> nat \<Rightarrow> 'a \<Rightarrow> bool" where
  "over_ok abv xs i x \<longleftrightarrow> (0 < i \<longrightarrow> \<not> abv x (xs ! HEAP_PARENT i))"

lemma HEAP_PARENT_neq: "0 < j \<Longrightarrow> HEAP_PARENT j \<noteq> j"
  using HEAP_PARENT_less [of j] by simp

lemma hole_fill: "hole_inv abv xs i \<Longrightarrow> under_ok abv xs i x \<Longrightarrow> over_ok abv xs i x \<Longrightarrow>
  heap_on abv (xs[i := x])"
  by (auto simp: hole_inv_def under_ok_def over_ok_def heap_on_def nth_list_update HEAP_PARENT_neq)

lemma hole_update [simp]:
  "hole_inv abv (xs[i := y]) i = hole_inv abv xs i"
  "under_ok abv (xs[i := y]) i x = under_ok abv xs i x"
  "over_ok abv (xs[i := y]) i x = over_ok abv xs i x"
  by (auto simp: hole_inv_def under_ok_def over_ok_def nth_list_update HEAP_PARENT_neq
      HEAP_PARENT_neq [symmetric])

lemma hole_append:
  assumes "heap_on abv xs"
  shows "hole_inv abv (xs @ [y]) (length xs)" "under_ok abv (xs @ [y]) (length xs) x"
proof -
  have p: "HEAP_PARENT j < length xs" "HEAP_PARENT j \<noteq> length xs" if "0 < j" "j \<le> length xs" for j
    using HEAP_PARENT_less [OF that(1)] that(2) by auto
  show "hole_inv abv (xs @ [y]) (length xs)" "under_ok abv (xs @ [y]) (length xs) x"
    using assms p by (simp_all add: hole_inv_def under_ok_def heap_on_def nth_append less_Suc_eq_le)
qed

lemma heap_on_take: "heap_on abv xs \<Longrightarrow> heap_on abv (take n xs)"
  using order_less_trans [OF HEAP_PARENT_less] by (simp add: heap_on_def)

locale heap_order =
  fixes abv :: "'a \<Rightarrow> 'a \<Rightarrow> bool" and ok :: "'a \<Rightarrow> bool"
  assumes asym: "ok a \<Longrightarrow> ok b \<Longrightarrow> abv a b \<Longrightarrow> \<not> abv b a"
    and trans: "ok a \<Longrightarrow> ok b \<Longrightarrow> ok c \<Longrightarrow> abv a b \<Longrightarrow> abv b c \<Longrightarrow> abv a c"
    and neg_trans: "ok a \<Longrightarrow> ok b \<Longrightarrow> ok c \<Longrightarrow> \<not> abv a b \<Longrightarrow> \<not> abv b c \<Longrightarrow> \<not> abv a c"
begin

lemma heap_hole:
  assumes h: "heap_on abv xs" and o: "\<forall>a \<in> set xs. ok a" and i: "i < length xs"
  shows "hole_inv abv xs i"
proof -
  have "\<not> abv (xs ! j) (xs ! HEAP_PARENT i)"
    if j: "j < length xs" "0 < j" "HEAP_PARENT j = i" "0 < i" for j
  proof -
    have "HEAP_PARENT i < length xs" using i HEAP_PARENT_less [OF j(4)] by simp
    moreover have "\<not> abv (xs ! j) (xs ! i)" "\<not> abv (xs ! i) (xs ! HEAP_PARENT i)"
      using h j i by (auto simp: heap_on_def)
    ultimately show ?thesis using neg_trans o j i by (meson nth_mem)
  qed
  then show ?thesis using h i by (simp add: hole_inv_def heap_on_def)
qed

lemma up_step:
  assumes h: "hole_inv abv xs i" and u: "under_ok abv xs i x" and x: "ok x"
    and o: "\<forall>a \<in> set xs. ok a" and i: "0 < i" and gt: "abv x (xs ! HEAP_PARENT i)"
  defines "p \<equiv> HEAP_PARENT i"
  shows "hole_inv abv (xs[i := xs ! p]) p" "under_ok abv (xs[i := xs ! p]) p x"
proof -
  have p: "p < i" "p < length xs" "i < length xs"
    using h i HEAP_PARENT_less [of i] by (auto simp: p_def hole_inv_def)
  have gt': "abv x (xs ! p)" using gt by (simp add: p_def)
  have pair: "\<not> abv (xs ! j) (xs ! HEAP_PARENT j)"
    if "j < length xs" "0 < j" "j \<noteq> i" "HEAP_PARENT j \<noteq> i" for j
    using h that by (simp add: hole_inv_def)
  have okn: "ok (xs ! j)" if "j < length xs" for j using o that by simp
  have sib: "\<not> abv (xs ! j) x \<and> \<not> abv (xs ! j) (xs ! p)"
    if "j < length xs" "0 < j" "j \<noteq> i" "HEAP_PARENT j = p" for j
  proof -
    have "\<not> abv (xs ! j) (xs ! p)" using pair [of j] that p by simp
    then show ?thesis using trans [OF okn [OF that(1)] x okn [OF p(2)]] gt' by blast
  qed
  have pp: "HEAP_PARENT p < p" "\<not> abv (xs ! p) (xs ! HEAP_PARENT p)" if "0 < p"
    using HEAP_PARENT_less [OF that] pair [of p] that p by auto
  have top: "\<not> abv (xs ! j) (xs ! HEAP_PARENT p)"
    if "j < length xs" "0 < j" "j \<noteq> i" "HEAP_PARENT j = p" "0 < p" for j
  proof (rule neg_trans [of "xs ! j" "xs ! p"])
    show "ok (xs ! HEAP_PARENT p)" using okn pp(1) [OF that(5)] p by simp
    show "\<not> abv (xs ! j) (xs ! p)" using sib that by blast
  qed (use that p pp okn in auto)
  have lo: "\<not> abv (xs ! p) x" using asym [OF x okn [OF p(2)] gt'] .
  show "under_ok abv (xs[i := xs ! p]) p x"
    unfolding under_ok_def using sib lo p(3) by (simp add: nth_list_update)
  have a: "\<not> abv (xs[i := xs ! p] ! j) (xs[i := xs ! p] ! HEAP_PARENT j)"
    if j: "j < length xs" "0 < j" "j \<noteq> p" "HEAP_PARENT j \<noteq> p" for j
  proof -
    have ji: "j \<noteq> i" using j by (auto simp: p_def)
    show ?thesis
    proof (cases "HEAP_PARENT j = i")
      case True
      then show ?thesis using h i j ji p by (simp add: hole_inv_def p_def)
    next
      case False
      then show ?thesis using pair [of j] j ji by simp
    qed
  qed
  have b: "\<not> abv (xs[i := xs ! p] ! j) (xs[i := xs ! p] ! HEAP_PARENT p)"
    if j: "j < length xs" "0 < j" "HEAP_PARENT j = p" "0 < p" for j
    using top [of j] pp [OF j(4)] j p by (simp add: nth_list_update)
  show "hole_inv abv (xs[i := xs ! p]) p"
    unfolding hole_inv_def using a b p by simp
qed

lemma up_loop_heap:
  assumes "hole_inv abv xs i" "under_ok abv xs i x" "ok x" "\<forall>a \<in> set xs. ok a"
    and "up_loop abv xs i x = (ys, k, log)"
  shows "heap_on abv ys"
  using assms
proof (induction i arbitrary: xs log rule: less_induct)
  case (less i)
  let ?p = "HEAP_PARENT i"
  show ?case
  proof (cases "0 < i \<and> abv x (xs ! ?p)")
    case True
    then obtain log' where r: "up_loop abv (xs[i := xs ! ?p]) ?p x = (ys, k, log')"
      using less.prems(5) by (auto simp: up_loop.simps [of abv xs i x] Let_def split: prod.splits)
    have i: "i < length xs" using less.prems(1) by (simp add: hole_inv_def)
    have p: "?p < i" using True by (simp add: HEAP_PARENT_less)
    have "\<forall>a \<in> set (xs[i := xs ! ?p]). ok a"
      using less.prems(4) p i by (intro ball_set_update) simp_all
    then show ?thesis
      using less.IH [OF p _ _ less.prems(3) _ r] up_step [OF less.prems(1-4)] True by blast
  next
    case False
    then have "ys = xs[i := x]" using less.prems(5) by (auto simp: up_loop.simps [of abv xs i x])
    moreover have "over_ok abv xs i x" using False by (auto simp: over_ok_def)
    ultimately show ?thesis using hole_fill [OF less.prems(1,2)] by simp
  qed
qed


lemma down_step:
  assumes h: "hole_inv abv xs i" and v: "over_ok abv xs i x" and x: "ok x"
    and o: "\<forall>a \<in> set xs. ok a" and i: "i < length xs div 2"
    and c: "c = (if HEAP_RIGHT i < length xs \<and> abv (xs ! HEAP_RIGHT i) (xs ! HEAP_LEFT i)
      then HEAP_RIGHT i else HEAP_LEFT i)"
  shows "abv x (xs ! c) \<Longrightarrow> under_ok abv xs i x"
    and "\<not> abv x (xs ! c) \<Longrightarrow> hole_inv abv (xs[i := xs ! c]) c \<and> over_ok abv (xs[i := xs ! c]) c x"
proof -
  note cb = down_child_bounds [OF i c]
  have okn: "ok (xs ! j)" if "j < length xs" for j using o that by simp
  have kids: "j = HEAP_LEFT i \<or> j = HEAP_RIGHT i" if "HEAP_PARENT j = i" "0 < j" for j
    using that by (auto simp: HEAP_PARENT_def HEAP_LEFT_def HEAP_RIGHT_def)
  have best: "\<not> abv (xs ! j) (xs ! c)" if j: "HEAP_PARENT j = i" "0 < j" "j < length xs" for j
  proof (cases "j = c")
    case True
    then show ?thesis using asym [OF okn [OF cb(2)] okn [OF cb(2)]] by blast
  next
    case False
    have l: "HEAP_LEFT i < length xs" using i by (simp add: HEAP_LEFT_def)
    from kids [OF j(1,2)] False show ?thesis
      using c j asym [OF okn okn, of "HEAP_RIGHT i" "HEAP_LEFT i"] l by (auto split: if_splits)
  qed
  show "under_ok abv xs i x" if gt: "abv x (xs ! c)"
    unfolding under_ok_def using best trans [OF okn x okn [OF cb(2)] _ gt] by blast
  assume le: "\<not> abv x (xs ! c)"
  have pair: "\<not> abv (xs ! j) (xs ! HEAP_PARENT j)"
    if "j < length xs" "0 < j" "j \<noteq> i" "HEAP_PARENT j \<noteq> i" for j
    using h that by (simp add: hole_inv_def)
  have il: "i < length xs" using cb by simp
  have a: "\<not> abv (xs[i := xs ! c] ! j) (xs[i := xs ! c] ! HEAP_PARENT j)"
    if j: "j < length xs" "0 < j" "j \<noteq> c" "HEAP_PARENT j \<noteq> c" for j
  proof (cases "j = i")
    case True
    then have "0 < i" "HEAP_PARENT i \<noteq> i" using j HEAP_PARENT_neq by auto
    then show ?thesis using True h cb il by (simp add: hole_inv_def)
  next
    case False
    then show ?thesis using best [of j] pair [of j] j il by (cases "HEAP_PARENT j = i") simp_all
  qed
  have b: "\<not> abv (xs[i := xs ! c] ! j) (xs[i := xs ! c] ! HEAP_PARENT c)"
    if j: "j < length xs" "0 < j" "HEAP_PARENT j = c" for j
  proof -
    have "j \<noteq> i" using j cb HEAP_PARENT_less [of j] by auto
    then show ?thesis using pair [of j] j cb il by simp
  qed
  have "over_ok abv (xs[i := xs ! c]) c x" using le cb il by (simp add: over_ok_def)
  then show "hole_inv abv (xs[i := xs ! c]) c \<and> over_ok abv (xs[i := xs ! c]) c x"
    unfolding hole_inv_def using a b cb by simp
qed

lemma down_loop_heap:
  assumes "hole_inv abv xs i" "over_ok abv xs i x" "ok x" "\<forall>a \<in> set xs. ok a"
    and "down_loop abv xs i x = (ys, k, log)"
  shows "heap_on abv ys"
  using assms
proof (induction "length xs - i" arbitrary: xs i log rule: less_induct)
  case less
  define c where "c = (if HEAP_RIGHT i < length xs \<and> abv (xs ! HEAP_RIGHT i) (xs ! HEAP_LEFT i)
      then HEAP_RIGHT i else HEAP_LEFT i)"
  have i: "i < length xs" using less.prems(1) by (simp add: hole_inv_def)
  consider (leaf) "\<not> i < length xs div 2" | (stop) "i < length xs div 2" "abv x (xs ! c)"
    | (go) "i < length xs div 2" "\<not> abv x (xs ! c)" by blast
  then show ?case
  proof cases
    case leaf
    then have "ys = xs[i := x]" using less.prems(5) by (auto simp: down_loop.simps [of abv xs i x])
    moreover have "under_ok abv xs i x"
      using leaf by (auto simp: under_ok_def HEAP_PARENT_def)
    ultimately show ?thesis using hole_fill [OF less.prems(1) _ less.prems(2)] by simp
  next
    case stop
    then have "ys = xs[i := x]"
      using less.prems(5) by (auto simp: down_loop.simps [of abv xs i x] c_def Let_def split: if_splits)
    then show ?thesis
      using hole_fill [OF less.prems(1) down_step(1) [OF less.prems(1-4) stop(1) c_def stop(2)] less.prems(2)]
      by simp
  next
    case go
    then obtain log' where r: "down_loop abv (xs[i := xs ! c]) c x = (ys, k, log')"
      using less.prems(5)
      by (auto simp: down_loop.simps [of abv xs i x] c_def Let_def split: prod.splits if_splits)
    note cb = down_child_bounds [OF go(1) c_def]
    note st = down_step(2) [OF less.prems(1-4) go(1) c_def go(2)]
    have "\<forall>a \<in> set (xs[i := xs ! c]). ok a"
      using less.prems(4) cb by (intro ball_set_update) simp_all
    moreover have "length (xs[i := xs ! c]) - c < length xs - i" using cb i by simp
    ultimately show ?thesis using less.hyps st less.prems(3) r by blast
  qed
qed

text \<open>Nothing belongs above the first element of a heap.\<close>

lemma heap_root:
  assumes "heap_on abv xs" "\<forall>a \<in> set xs. ok a" "j < length xs"
  shows "\<not> abv (xs ! j) (xs ! 0)"
  using assms(3)
proof (induction j rule: less_induct)
  case (less j)
  have okn: "ok (xs ! n)" if "n < length xs" for n using assms(2) that by simp
  show ?case
  proof (cases "j = 0")
    case True
    then show ?thesis using asym [OF okn okn] less.prems by blast
  next
    case False
    then have p: "HEAP_PARENT j < j" by (simp add: HEAP_PARENT_less)
    show ?thesis
    proof (rule neg_trans)
      show "\<not> abv (xs ! j) (xs ! HEAP_PARENT j)"
        using assms(1) less.prems False by (simp add: heap_on_def)
      show "\<not> abv (xs ! HEAP_PARENT j) (xs ! 0)" using less.IH p less.prems by simp
      show "ok (xs ! 0)" by (rule okn) (use less.prems in linarith)
    qed (use okn p less.prems in auto)
  qed
qed


text \<open>The three changes a client makes to a heap: add at the end, replace, and cut the last element.\<close>

lemma heap_push:
  assumes "heap_on abv xs" "\<forall>a \<in> set xs. ok a" "ok x"
    and "up_loop abv (xs @ [x]) (length xs) x = (ys, k, log)"
  shows "heap_on abv ys"
  using up_loop_heap [OF hole_append [OF assms(1)] assms(3) _ assms(4)] assms(2,3) by simp

lemma heap_replace_up:
  assumes "heap_on abv xs" "\<forall>a \<in> set xs. ok a" "ok x" "i < length xs" "abv x (xs ! i)"
    and "up_loop abv (xs[i := x]) i x = (ys, k, log)"
  shows "heap_on abv ys"
proof -
  have "\<not> abv (xs ! j) x" if "j < length xs" "0 < j" "HEAP_PARENT j = i" for j
  proof
    assume "abv (xs ! j) x"
    then have "abv (xs ! j) (xs ! i)"
      using assms(2,4) that(1) by (intro trans [OF _ assms(3) _ _ assms(5)]) simp_all
    then show False using assms(1) that by (auto simp: heap_on_def)
  qed
  then have "under_ok abv xs i x" by (simp add: under_ok_def)
  then show ?thesis
    using up_loop_heap [OF _ _ assms(3) ball_set_update [OF assms(2,3)] assms(6)] heap_hole [OF assms(1,2,4)]
    by simp
qed

lemma heap_replace_same:
  assumes "heap_on abv xs" "\<forall>a \<in> set xs. ok a" "ok x" "i < length xs" "\<not> abv x (xs ! i)" "\<not> abv (xs ! i) x"
  shows "heap_on abv (xs[i := x])"
proof (rule hole_fill)
  show "hole_inv abv xs i" using assms by (intro heap_hole) auto
  show "under_ok abv xs i x"
    unfolding under_ok_def
  proof (intro allI impI)
    fix j assume j: "j < length xs" "0 < j" "HEAP_PARENT j = i"
    then have "\<not> abv (xs ! j) (xs ! i)" using assms(1) by (auto simp: heap_on_def)
    then show "\<not> abv (xs ! j) x" using assms j by (intro neg_trans [OF _ _ assms(3) _ assms(6)]) auto
  qed
  show "over_ok abv xs i x"
    unfolding over_ok_def
  proof
    assume i: "0 < i"
    then have "HEAP_PARENT i < length xs" using assms(4) HEAP_PARENT_less [OF i] by simp
    moreover have "\<not> abv (xs ! i) (xs ! HEAP_PARENT i)" using assms(1,4) i by (simp add: heap_on_def)
    ultimately show "\<not> abv x (xs ! HEAP_PARENT i)"
      using assms by (intro neg_trans [OF assms(3) _ _ assms(5)]) auto
  qed
qed

lemma heap_replace_down:
  assumes "heap_on abv xs" "\<forall>a \<in> set xs. ok a" "ok x" "i < length xs" "\<not> abv x (xs ! i)"
    and "down_loop abv (xs[i := x]) i x = (ys, k, log)"
  shows "heap_on abv ys"
proof -
  have "over_ok abv xs i x"
    unfolding over_ok_def
  proof
    assume i: "0 < i"
    then have "HEAP_PARENT i < length xs" using assms(4) HEAP_PARENT_less [OF i] by simp
    moreover have "\<not> abv (xs ! i) (xs ! HEAP_PARENT i)"
      using assms(1,4) i by (simp add: heap_on_def)
    ultimately show "\<not> abv x (xs ! HEAP_PARENT i)"
      using assms(2,4) by (intro neg_trans [OF assms(3) _ _ assms(5)]) simp_all
  qed
  then show ?thesis
    using down_loop_heap [OF _ _ assms(3) ball_set_update [OF assms(2,3)] assms(6)] heap_hole [OF assms(1,2,4)]
    by simp
qed

end

end
