(* ===== verification/Qse_Tmr.thy ===== *)
theory Qse_Tmr
  imports Qse_Time Qse_Heap
begin

text \<open>
  The timer (\<open>src/lib/cmn/tmr.c\<close>): a binary heap of events ordered by due time. The state is the
  record \<open>qse_tmr\<close>; \<open>tmr_event\<close> holds the live prefix of the C array, so that the field \<open>size\<close> of the C
  structure is its length. The calls of the updater of an event, by which its owner learns
  its new index, are returned as a log in call order; updaters and handlers are code of the client,
  so a handler is a parameter. Whether the memory manager could grow the array is an argument.
  The capacity is a number: an array of events whose size in bytes does not fit 64 bits would not be granted.
\<close>

section \<open>State and operations\<close>

record qse_tmr_event =
  te_ctx :: addr
  te_ctx2 :: addr
  te_ctx3 :: addr
  te_when :: qse_ntime
  te_handler :: addr
  te_updater :: addr

record qse_tmr =
  tmr_capa :: nat
  tmr_event :: "qse_tmr_event list"

type_synonym tmr_log = "qse_tmr_event move list"

abbreviation tmr_size :: "qse_tmr \<Rightarrow> nat" where
  "tmr_size t \<equiv> length (tmr_event t)"

definition QSE_TMR_INVALID_INDEX :: nat where
  [qse_defs]: "QSE_TMR_INVALID_INDEX = 2 ^ 64 - 1"

definition YOUNGER_THAN :: "qse_tmr_event \<Rightarrow> qse_tmr_event \<Rightarrow> bool" where
  "YOUNGER_THAN x y \<longleftrightarrow> qse_cmp_ntime (te_when x) (te_when y) < 0"

definition qse_tmr_init :: "bool \<Rightarrow> nat \<Rightarrow> qse_tmr option" where
  "qse_tmr_init alloc_ok capa =
     (let capa = (if capa \<le> 0 then 1 else capa)
      in if alloc_ok then Some \<lparr>tmr_capa = capa, tmr_event = []\<rparr> else None)"

text \<open>
  \<open>own_move\<close> is the last notification of both sifting functions: the element that was moved
  is told its new index, if the caller asked for it and the index changed.
\<close>

definition own_move :: "bool \<Rightarrow> nat \<Rightarrow> nat \<Rightarrow> qse_tmr_event \<Rightarrow> tmr_log" where
  "own_move notify old new e = (if notify \<and> new \<noteq> old then [(old, new, e)] else [])"

definition sift_up :: "qse_tmr \<Rightarrow> nat \<Rightarrow> bool \<Rightarrow> qse_tmr \<times> nat \<times> tmr_log" where
  "sift_up t index notify =
     (let item = tmr_event t ! index;
          (es, k, log) = up_loop YOUNGER_THAN (tmr_event t) index item
      in (t\<lparr>tmr_event := es\<rparr>, k, log @ own_move notify index k item))"

definition sift_down :: "qse_tmr \<Rightarrow> nat \<Rightarrow> bool \<Rightarrow> qse_tmr \<times> nat \<times> tmr_log" where
  "sift_down t index notify =
     (let item = tmr_event t ! index;
          (es, k, log) = down_loop YOUNGER_THAN (tmr_event t) index item
      in (t\<lparr>tmr_event := es\<rparr>, k, log @ own_move notify index k item))"

definition qse_tmr_delete :: "qse_tmr \<Rightarrow> nat \<Rightarrow> qse_tmr \<times> tmr_log" where
  "qse_tmr_delete t index =
     (let item = tmr_event t ! index;
          log0 = [(index, QSE_TMR_INVALID_INDEX, item)];
          size = tmr_size t - 1;
          lst = tmr_event t ! size
      in if size > 0 \<and> index \<noteq> size then
           (let t1 = t\<lparr>tmr_event := (take size (tmr_event t))[index := lst]\<rparr>;
                (t2, k, log) = (if YOUNGER_THAN lst item then sift_up t1 index True
                                else sift_down t1 index True)
            in (t2, log0 @ (size, index, lst) # log))
         else (t\<lparr>tmr_event := take size (tmr_event t)\<rparr>, log0))"

lemma tmr_sift_size:
  "sift_up t i n = (t', k, log) \<Longrightarrow> tmr_size t' = tmr_size t"
  "sift_down t i n = (t', k, log) \<Longrightarrow> tmr_size t' = tmr_size t"
  by (auto simp: sift_up_def sift_down_def Let_def up_loop_length down_loop_length split: prod.splits)

lemma tmr_delete_size:
  assumes "qse_tmr_delete t i = (t', log)"
  shows "tmr_size t' = tmr_size t - 1"
  using assms
  by (auto simp: qse_tmr_delete_def Let_def split: prod.splits if_splits dest!: tmr_sift_size)

function (sequential) qse_tmr_clear :: "qse_tmr \<Rightarrow> qse_tmr \<times> tmr_log" where
  "qse_tmr_clear t =
     (if tmr_size t > 0 then
        (let (t1, log1) = qse_tmr_delete t 0; (t2, log2) = qse_tmr_clear t1 in (t2, log1 @ log2))
      else (t, []))"
  by pat_completeness auto
termination
  by (relation "measure tmr_size") (auto dest!: sym [THEN tmr_delete_size])

declare qse_tmr_clear.simps [simp del]

definition qse_tmr_insert :: "bool \<Rightarrow> qse_tmr \<Rightarrow> qse_tmr_event \<Rightarrow> qse_tmr \<times> nat \<times> tmr_log" where
  "qse_tmr_insert realloc_ok t e =
     (let index = tmr_size t in
      if index \<ge> tmr_capa t \<and> \<not> realloc_ok then (t, QSE_TMR_INVALID_INDEX, [])
      else
        (let capa = (if index \<ge> tmr_capa t then tmr_capa t * 2 else tmr_capa t)
         in sift_up \<lparr>tmr_capa = capa, tmr_event = tmr_event t @ [e]\<rparr> index False))"

definition qse_tmr_update :: "qse_tmr \<Rightarrow> nat \<Rightarrow> qse_tmr_event \<Rightarrow> qse_tmr \<times> nat \<times> tmr_log" where
  "qse_tmr_update t index e =
     (let item = tmr_event t ! index;
          t1 = t\<lparr>tmr_event := (tmr_event t)[index := e]\<rparr>
      in if YOUNGER_THAN e item then sift_up t1 index False else sift_down t1 index False)"

text \<open>
  The loop of \<open>qse_tmr_fire\<close>. The handler is the client's: it is called with the
  current time and the event on the timer from which the event has been removed, and returns the timer
  it leaves. The result is the timer and the events fired, in order; a handler that
  keeps adding due events makes the loop run forever, which is the result \<open>None\<close>.
\<close>

partial_function (option) fire_loop ::
  "(qse_ntime \<Rightarrow> qse_tmr_event \<Rightarrow> qse_tmr \<Rightarrow> qse_tmr) \<Rightarrow> qse_ntime \<Rightarrow> qse_tmr \<Rightarrow>
   (qse_tmr \<times> qse_tmr_event list) option" where
  "fire_loop handler now t =
     (if tmr_size t > 0 \<and> \<not> qse_cmp_ntime (te_when (tmr_event t ! 0)) now > 0 then
        (let event = tmr_event t ! 0; t1 = fst (qse_tmr_delete t 0) in
         Option.bind (fire_loop handler now (handler now event t1))
           (\<lambda>(t2, fired). Some (t2, event # fired)))
      else Some (t, []))"

text \<open>
  \<open>tm\<close> is the caller's time, or \<open>None\<close> for the null pointer; \<open>gettime\<close> is the answer of the system clock,
  \<open>None\<close> when \<open>qse_gettime\<close> fails. The result is \<open>Inl ()\<close> for the return value -1.
\<close>

definition tmr_now :: "qse_ntime option \<Rightarrow> qse_ntime option \<Rightarrow> qse_ntime option" where
  "tmr_now gettime tm = (case tm of Some now \<Rightarrow> Some now | None \<Rightarrow> gettime)"

definition qse_tmr_fire ::
  "(qse_ntime \<Rightarrow> qse_tmr_event \<Rightarrow> qse_tmr \<Rightarrow> qse_tmr) \<Rightarrow> qse_ntime option \<Rightarrow> qse_tmr \<Rightarrow>
   qse_ntime option \<Rightarrow> (unit + qse_tmr \<times> qse_tmr_event list \<times> nat) option" where
  "qse_tmr_fire handler gettime t tm =
     (case tmr_now gettime tm of
        None \<Rightarrow> Some (Inl ())
      | Some now \<Rightarrow>
          (case fire_loop handler now t of
             None \<Rightarrow> None
           | Some (t2, fired) \<Rightarrow> Some (Inr (t2, fired, length fired))))"

definition qse_tmr_gettmout :: "qse_ntime option \<Rightarrow> qse_tmr \<Rightarrow> qse_ntime option \<Rightarrow> qse_ntime option" where
  "qse_tmr_gettmout gettime t tm =
     (if tmr_size t \<le> 0 then None
      else case tmr_now gettime tm of
        None \<Rightarrow> None
      | Some now \<Rightarrow>
          (let tmout = qse_sub_ntime (te_when (tmr_event t ! 0)) now
           in Some (if qse_is_neg_ntime tmout then qse_clear_ntime else tmout)))"

definition qse_tmr_getevent :: "qse_tmr \<Rightarrow> nat \<Rightarrow> qse_tmr_event option" where
  "qse_tmr_getevent t index = (if index \<ge> tmr_size t then None else Some (tmr_event t ! index))"

section \<open>The invariant\<close>

definition tmr_ok :: "qse_tmr \<Rightarrow> bool" where
  "tmr_ok t \<longleftrightarrow> 1 \<le> tmr_capa t \<and> tmr_size t \<le> tmr_capa t \<and>
     (\<forall>e \<in> set (tmr_event t). ntime_near (te_when e)) \<and> heap_on YOUNGER_THAN (tmr_event t)"

interpretation tmr_heap: heap_order YOUNGER_THAN "\<lambda>e. ntime_near (te_when e)"
  by unfold_locales (simp_all add: YOUNGER_THAN_def qse_cmp_ntime_val)

lemma heap_on_Nil [simp]: "heap_on abv []"
  by (simp add: heap_on_def)

lemma tmr_ok_init: "qse_tmr_init a capa = Some t \<Longrightarrow> tmr_ok t \<and> tmr_event t = []"
  by (auto simp: qse_tmr_init_def tmr_ok_def Let_def split: if_splits)

lemma sift_frame:
  assumes "i < tmr_size t" "sift_up t i n = (t', k, log) \<or> sift_down t i n = (t', k, log)"
  shows "mset (tmr_event t') = mset (tmr_event t)" "tmr_capa t' = tmr_capa t" "k < tmr_size t"
  using assms up_loop_mset [OF assms(1)] down_loop_mset [OF assms(1)]
  by (auto simp: sift_up_def sift_down_def Let_def split: prod.splits dest: up_loop_length)

lemma mset_ball: "mset xs = mset ys \<Longrightarrow> (\<forall>a \<in> set xs. P a) \<Longrightarrow> (\<forall>a \<in> set ys. P a)"
  by (metis set_mset_mset)

lemma sift_ok:
  assumes "i < tmr_size t" "sift_up t i n = (t', k, log) \<or> sift_down t i n = (t', k, log)"
    and "1 \<le> tmr_capa t" "tmr_size t \<le> tmr_capa t" "\<forall>e \<in> set (tmr_event t). ntime_near (te_when e)"
    and "heap_on YOUNGER_THAN (tmr_event t')"
  shows "tmr_ok t'"
proof -
  note f = sift_frame [OF assms(1,2)]
  have "tmr_size t' = tmr_size t" using f(1) mset_eq_length by blast
  then show ?thesis
    using assms(3-6) f mset_ball [OF f(1) [symmetric] assms(5)] by (simp add: tmr_ok_def)
qed

lemma tmr_update_ok:
  assumes t: "tmr_ok t" and i: "i < tmr_size t" and e: "ntime_near (te_when e)"
    and u: "qse_tmr_update t i e = (t', k, log)"
  shows "tmr_ok t'" "mset (tmr_event t') = mset ((tmr_event t)[i := e])"
proof -
  let ?es = "tmr_event t" let ?t1 = "t\<lparr>tmr_event := ?es[i := e]\<rparr>"
  have s: "sift_up ?t1 i False = (t', k, log) \<or> sift_down ?t1 i False = (t', k, log)"
    using u by (auto simp: qse_tmr_update_def Let_def split: if_splits)
  have near: "\<forall>a \<in> set ?es. ntime_near (te_when a)" and h: "heap_on YOUNGER_THAN ?es"
    and c: "1 \<le> tmr_capa t" "tmr_size t \<le> tmr_capa t" using t by (auto simp: tmr_ok_def)
  have "heap_on YOUNGER_THAN (tmr_event t')"
    using u i tmr_heap.heap_replace_up [OF h near e i] tmr_heap.heap_replace_down [OF h near e i]
    by (auto simp: qse_tmr_update_def sift_up_def sift_down_def Let_def split: if_splits prod.splits)
  then show "tmr_ok t'"
    using i c ball_set_update [OF near e] by (intro sift_ok [OF _ s]) simp_all
  show "mset (tmr_event t') = mset (?es[i := e])" using sift_frame(1) [OF _ s] i by simp
qed

lemma tmr_insert_ok:
  assumes t: "tmr_ok t" and e: "ntime_near (te_when e)" and u: "qse_tmr_insert r t e = (t', k, log)"
  shows "tmr_ok t'"
    and "tmr_size t < tmr_capa t \<or> r \<Longrightarrow> mset (tmr_event t') = add_mset e (mset (tmr_event t)) \<and> k \<le> tmr_size t"
    and "\<not> (tmr_size t < tmr_capa t \<or> r) \<Longrightarrow> t' = t \<and> k = QSE_TMR_INVALID_INDEX \<and> log = []"
proof -
  have near: "\<forall>a \<in> set (tmr_event t). ntime_near (te_when a)" and h: "heap_on YOUNGER_THAN (tmr_event t)"
    and c: "1 \<le> tmr_capa t" "tmr_size t \<le> tmr_capa t" using t by (auto simp: tmr_ok_def)
  define cp where "cp = (if tmr_size t \<ge> tmr_capa t then tmr_capa t * 2 else tmr_capa t)"
  define t1 where "t1 = \<lparr>tmr_capa = cp, tmr_event = tmr_event t @ [e]\<rparr>"
  have s: "sift_up t1 (tmr_size t) False = (t', k, log)" if "tmr_size t < tmr_capa t \<or> r"
    using u that by (auto simp: qse_tmr_insert_def Let_def t1_def cp_def split: if_splits)
  have hp: "heap_on YOUNGER_THAN (tmr_event t')" if "tmr_size t < tmr_capa t \<or> r"
    using s [OF that] tmr_heap.heap_push [OF h near e]
    by (auto simp: sift_up_def t1_def Let_def split: prod.splits)
  show "mset (tmr_event t') = add_mset e (mset (tmr_event t)) \<and> k \<le> tmr_size t"
    if "tmr_size t < tmr_capa t \<or> r"
    using sift_frame [OF _ disjI1 [OF s [OF that]]] by (auto simp: t1_def)
  show f: "t' = t \<and> k = QSE_TMR_INVALID_INDEX \<and> log = []" if "\<not> (tmr_size t < tmr_capa t \<or> r)"
    using that u by (auto simp: qse_tmr_insert_def Let_def)
  show "tmr_ok t'"
  proof (cases "tmr_size t < tmr_capa t \<or> r")
    case True
    then show ?thesis
      using c near e hp by (intro sift_ok [OF _ disjI1 [OF s]]) (auto simp: t1_def cp_def)
  next
    case False
    then show ?thesis using f t by simp
  qed
qed

lemma tmr_delete_cases:
  assumes "qse_tmr_delete t i = (t', log)" "i < tmr_size t"
  defines "n \<equiv> tmr_size t - 1"
  defines "t1 \<equiv> t\<lparr>tmr_event := (take n (tmr_event t))[i := tmr_event t ! n]\<rparr>"
  obtains (last) "i = n" "t' = t\<lparr>tmr_event := take n (tmr_event t)\<rparr>"
      "log = [(i, QSE_TMR_INVALID_INDEX, tmr_event t ! i)]"
  | (up) k log' where "i < n" "YOUNGER_THAN (tmr_event t ! n) (tmr_event t ! i)"
      "sift_up t1 i True = (t', k, log')"
      "log = [(i, QSE_TMR_INVALID_INDEX, tmr_event t ! i), (n, i, tmr_event t ! n)] @ log'"
  | (down) k log' where "i < n" "\<not> YOUNGER_THAN (tmr_event t ! n) (tmr_event t ! i)"
      "sift_down t1 i True = (t', k, log')"
      "log = [(i, QSE_TMR_INVALID_INDEX, tmr_event t ! i), (n, i, tmr_event t ! n)] @ log'"
  using assms(1,2) that
  by (auto simp: qse_tmr_delete_def Let_def n_def t1_def split: if_splits prod.splits)

lemma tmr_delete_ok:
  assumes t: "tmr_ok t" and i: "i < tmr_size t" and d: "qse_tmr_delete t i = (t', log)"
  shows "tmr_ok t'" "add_mset (tmr_event t ! i) (mset (tmr_event t')) = mset (tmr_event t)"
proof -
  define n where "n = tmr_size t - 1"
  let ?es = "tmr_event t" let ?bs = "take n ?es"
  let ?t1 = "t\<lparr>tmr_event := ?bs[i := ?es ! n]\<rparr>"
  have near: "\<forall>a \<in> set ?es. ntime_near (te_when a)" and h: "heap_on YOUNGER_THAN ?es"
    and c: "1 \<le> tmr_capa t" "tmr_size t \<le> tmr_capa t" using t by (auto simp: tmr_ok_def)
  have nearb: "\<forall>a \<in> set ?bs. ntime_near (te_when a)" using near in_set_takeD by fast
  have last: "ntime_near (te_when (?es ! n))" using near i by (simp add: n_def)
  note tb = take_butlast_mset [OF i n_def]
  note hb = heap_on_take [OF h, of n]
  have sifted: "tmr_ok t' \<and> add_mset (?es ! i) (mset (tmr_event t')) = mset ?es"
    if "i < n" "sift_up ?t1 i True = (t', k, log') \<or> sift_down ?t1 i True = (t', k, log')"
      "heap_on YOUNGER_THAN (tmr_event t')" for k log'
  proof
    have l: "i < tmr_size ?t1" using that(1) i by (simp add: n_def)
    show "tmr_ok t'"
      using c that(3) i ball_set_update [OF nearb last]
      by (intro sift_ok [OF l that(2)]) (simp_all add: n_def)
    show "add_mset (?es ! i) (mset (tmr_event t')) = mset ?es"
      using sift_frame(1) [OF l that(2)] tb(2) that(1) by simp
  qed
  from d i have "tmr_ok t' \<and> add_mset (?es ! i) (mset (tmr_event t')) = mset ?es"
  proof (cases rule: tmr_delete_cases)
    case last
    then show ?thesis using tb(1) hb nearb c by (simp add: tmr_ok_def n_def)
  next
    case (up k log')
    then have ib: "i < length ?bs" "?bs ! i = ?es ! i" by (simp_all add: n_def)
    then have "heap_on YOUNGER_THAN (tmr_event t')"
      using up tmr_heap.heap_replace_up [OF hb nearb \<open>ntime_near (te_when (?es ! n))\<close> ib(1)]
      by (auto simp: sift_up_def Let_def n_def split: prod.splits)
    then show ?thesis using up by (intro sifted [of k log']) (simp_all add: n_def)
  next
    case (down k log')
    then have ib: "i < length ?bs" "?bs ! i = ?es ! i" by (simp_all add: n_def)
    then have "heap_on YOUNGER_THAN (tmr_event t')"
      using down tmr_heap.heap_replace_down [OF hb nearb \<open>ntime_near (te_when (?es ! n))\<close> ib(1)]
      by (auto simp: sift_down_def Let_def n_def split: prod.splits)
    then show ?thesis using down by (intro sifted [of k log']) (simp_all add: n_def)
  qed
  then show "tmr_ok t'" "add_mset (?es ! i) (mset (tmr_event t')) = mset ?es" by auto
qed


section \<open>The owners know where their events are\<close>

lemma tracks_all_step:
  assumes "tracks pos xs k" "xs ! k = x" "distinct xs" "k < length xs"
  shows "tracks (pos(x := k)) xs (length xs)"
  using assms by (auto simp: tracks_def nth_eq_iff_index_eq)

lemma sift_tracks:
  assumes "i < tmr_size t" "distinct (tmr_event t)" "tracks pos (tmr_event t) i"
    and "sift_up t i n = (t', k, log) \<or> sift_down t i n = (t', k, log)"
  shows "tracks ((tell log pos)(tmr_event t ! i := k)) (tmr_event t') (tmr_size t')"
    and "distinct (tmr_event t')"
    and "n \<Longrightarrow> pos (tmr_event t ! i) = i \<Longrightarrow> tracks (tell log pos) (tmr_event t') (tmr_size t')"
proof -
  let ?x = "tmr_event t ! i"
  obtain ys log' where l: "up_loop YOUNGER_THAN (tmr_event t) i ?x = (ys, k, log')
      \<or> down_loop YOUNGER_THAN (tmr_event t) i ?x = (ys, k, log')"
    and e: "tmr_event t' = ys" "log = log' @ own_move n i k ?x"
    using assms(4) by (auto simp: sift_up_def sift_down_def Let_def split: prod.splits)
  have d: "distinct ((tmr_event t)[i := ?x])" using assms(2) by simp
  have tr: "tracks (tell log' pos) ys k \<and> ys ! k = ?x"
    using l up_loop_tracks [OF assms(1) d assms(3)] down_loop_tracks [OF assms(1) d assms(3)] by blast
  have "mset ys = mset (tmr_event t)" "k < tmr_size t" using sift_frame [OF assms(1,4)] e by simp_all
  then have ys: "distinct ys" "k < length ys"
    using assms(2) mset_eq_imp_distinct_iff mset_eq_length by metis+
  note all = tracks_all_step [OF conjunct1 [OF tr] conjunct2 [OF tr] ys]
  show a: "tracks ((tell log pos)(?x := k)) (tmr_event t') (tmr_size t')"
    using all by (simp add: e own_move_def)
  show "distinct (tmr_event t')" using ys e by simp
  show "tracks (tell log pos) (tmr_event t') (tmr_size t')" if n: n and p: "pos ?x = i"
  proof (cases "k = i")
    case True
    then have "log' = []"
      using l up_loop_still [of _ _ i _ ys log'] down_loop_ge [of _ _ i _ ys k log'] by auto
    moreover have "pos(?x := i) = pos" using p by (rule fun_upd_idem)
    ultimately show ?thesis using all True by (simp add: own_move_def e)
  next
    case False
    then show ?thesis using all n by (simp add: e own_move_def)
  qed
qed

definition tmr_tracked :: "(qse_tmr_event \<Rightarrow> nat) \<Rightarrow> qse_tmr \<Rightarrow> bool" where
  "tmr_tracked pos t \<longleftrightarrow> distinct (tmr_event t) \<and> (\<forall>j < tmr_size t. pos (tmr_event t ! j) = j)"

lemma tmr_tracked_tracks:
  "tmr_tracked pos t \<longleftrightarrow> distinct (tmr_event t) \<and> tracks pos (tmr_event t) (tmr_size t)"
  by (auto simp: tmr_tracked_def tracks_def)

lemma tmr_insert_tracked:
  assumes "tmr_tracked pos t" "e \<notin> set (tmr_event t)" "qse_tmr_insert r t e = (t', k, log)"
    and "tmr_size t < tmr_capa t \<or> r"
  shows "tmr_tracked ((tell log pos)(e := k)) t'"
proof -
  obtain cp where s: "sift_up \<lparr>tmr_capa = cp, tmr_event = tmr_event t @ [e]\<rparr> (tmr_size t) False = (t', k, log)"
    using assms(3,4) by (auto simp: qse_tmr_insert_def Let_def split: if_splits)
  have "tracks pos (tmr_event t @ [e]) (tmr_size t)"
    using assms(1) by (auto simp: tmr_tracked_def tracks_def nth_append)
  then show ?thesis
    using sift_tracks(1,2) [OF _ _ _ disjI1 [OF s], of pos] assms(1,2)
    by (simp add: tmr_tracked_tracks)
qed

lemma tmr_update_tracked:
  assumes "tmr_tracked pos t" "e \<notin> set (tmr_event t) \<or> e = tmr_event t ! i" "i < tmr_size t"
    and "qse_tmr_update t i e = (t', k, log)"
  shows "tmr_tracked ((tell log pos)(e := k)) t'"
proof -
  let ?t1 = "t\<lparr>tmr_event := (tmr_event t)[i := e]\<rparr>"
  have s: "sift_up ?t1 i False = (t', k, log) \<or> sift_down ?t1 i False = (t', k, log)"
    using assms(4) by (auto simp: qse_tmr_update_def Let_def split: if_splits)
  have d: "distinct ((tmr_event t)[i := e])"
    using assms(1,2) by (auto simp: tmr_tracked_def distinct_list_update)
  have "tracks pos ((tmr_event t)[i := e]) i"
    using assms(1) by (auto simp: tmr_tracked_def tracks_def)
  then show ?thesis
    using sift_tracks(1,2) [OF _ _ _ s, of pos] assms(3) d by (simp add: tmr_tracked_tracks)
qed

lemma tmr_delete_tracked:
  assumes t: "tmr_tracked pos t" and i: "i < tmr_size t" and d: "qse_tmr_delete t i = (t', log)"
  shows "tmr_tracked (tell log pos) t'"
proof -
  define n where "n = tmr_size t - 1"
  let ?es = "tmr_event t" let ?bs = "(take n ?es)[i := ?es ! n]"
  let ?t1 = "t\<lparr>tmr_event := ?bs\<rparr>"
  let ?pos = "pos(?es ! i := QSE_TMR_INVALID_INDEX, ?es ! n := i)"
  have ds: "distinct ?es" and ps: "\<And>j. j < tmr_size t \<Longrightarrow> pos (?es ! j) = j"
    using t by (auto simp: tmr_tracked_def)
  have ne: "?es ! j \<noteq> ?es ! k" if "j < tmr_size t" "k < tmr_size t" "j \<noteq> k" for j k
    using ds that by (simp add: nth_eq_iff_index_eq)
  have nl: "n < tmr_size t" using i by (simp add: n_def)
  have "?es ! n \<notin> set (take n ?es)"
    using nl ne [of _ n] by (auto simp: in_set_conv_nth)
  then have db: "distinct ?bs" using ds by (auto simp: distinct_list_update)
  have tb: "tracks ?pos ?bs i" "?pos (?bs ! i) = i" if "i < n"
    using that ne nl ps i by (auto simp: tracks_def nth_list_update)
  have sifted: "tmr_tracked (tell log' ?pos) t'"
    if "i < n" "sift_up ?t1 i True = (t', k, log') \<or> sift_down ?t1 i True = (t', k, log')" for k log'
    using sift_tracks(2,3) [OF _ _ _ that(2), of ?pos] db tb [OF that(1)] that(1) nl
    by (simp add: tmr_tracked_tracks)
  from d i show ?thesis
  proof (cases rule: tmr_delete_cases)
    case last
    then show ?thesis using ps ne nl ds i by (auto simp: tmr_tracked_def n_def)
  next
    case (up k log')
    then show ?thesis using sifted [of k log'] by (simp add: n_def)
  next
    case (down k log')
    then show ?thesis using sifted [of k log'] by (simp add: n_def)
  qed
qed

text \<open>
  The life of a timer whose events are distinct: \<open>pos\<close> is what the owners have recorded, from the
  return values of insertion and update and from the calls of the updaters.
\<close>

inductive tmr_run :: "qse_tmr \<Rightarrow> (qse_tmr_event \<Rightarrow> nat) \<Rightarrow> bool" where
  opened: "qse_tmr_init True capa = Some t \<Longrightarrow> tmr_run t pos"
| inserted: "tmr_run t pos \<Longrightarrow> ntime_near (te_when e) \<Longrightarrow> e \<notin> set (tmr_event t) \<Longrightarrow>
    qse_tmr_insert r t e = (t', k, log) \<Longrightarrow> tmr_run t' ((tell log pos)(e := k))"
| updated: "tmr_run t pos \<Longrightarrow> ntime_near (te_when e) \<Longrightarrow> i < tmr_size t \<Longrightarrow>
    e \<notin> set (tmr_event t) \<or> e = tmr_event t ! i \<Longrightarrow>
    qse_tmr_update t i e = (t', k, log) \<Longrightarrow> tmr_run t' ((tell log pos)(e := k))"
| deleted: "tmr_run t pos \<Longrightarrow> i < tmr_size t \<Longrightarrow> qse_tmr_delete t i = (t', log) \<Longrightarrow>
    tmr_run t' (tell log pos)"

lemma tmr_run_inv: "tmr_run t pos \<Longrightarrow> tmr_ok t \<and> tmr_tracked pos t"
proof (induction rule: tmr_run.induct)
  case (opened capa t pos)
  then show ?case using tmr_ok_init by (auto simp: tmr_tracked_def)
next
  case (inserted t pos e r t' k log)
  then show ?case
    using tmr_insert_ok [of t e r t' k log] tmr_insert_tracked [of pos t e r t' k log]
    by (cases "tmr_size t < tmr_capa t \<or> r") (auto simp: tmr_tracked_def)
next
  case (updated t pos e i t' k log)
  then show ?case using tmr_update_ok(1) tmr_update_tracked by blast
next
  case (deleted t pos i t' log)
  then show ?case using tmr_delete_ok(1) tmr_delete_tracked by blast
qed


section \<open>Firing\<close>

definition tmr_due :: "qse_ntime \<Rightarrow> qse_tmr \<Rightarrow> qse_tmr_event multiset" where
  "tmr_due now t =
     filter_mset (\<lambda>e. ntime_val (te_when e) \<le> ntime_val now) (mset (tmr_event t))"

lemma tmr_root_least:
  assumes "tmr_ok t" "e \<in> set (tmr_event t)"
  shows "ntime_val (te_when (tmr_event t ! 0)) \<le> ntime_val (te_when e)"
proof -
  obtain j where j: "j < tmr_size t" "e = tmr_event t ! j" using assms(2) by (auto simp: in_set_conv_nth)
  then have "tmr_event t ! 0 \<in> set (tmr_event t)" by (metis gr_implies_not0 neq0_conv nth_mem)
  then show ?thesis
    using assms tmr_heap.heap_root [of "tmr_event t" j] j
    by (auto simp: tmr_ok_def YOUNGER_THAN_def qse_cmp_ntime_val)
qed

lemma fire_loop_stop:
  assumes "tmr_ok t" "ntime_near now" "\<not> (tmr_size t > 0 \<and> \<not> qse_cmp_ntime (te_when (tmr_event t ! 0)) now > 0)"
  shows "tmr_due now t = {#}"
proof -
  have "ntime_val now < ntime_val (te_when e)" if e: "e \<in> set (tmr_event t)" for e
  proof -
    have z: "tmr_size t > 0" using e by (cases "tmr_event t") auto
    then have "ntime_near (te_when (tmr_event t ! 0))" using assms(1) by (simp add: tmr_ok_def)
    then have "ntime_val now < ntime_val (te_when (tmr_event t ! 0))"
      using assms(2,3) z by (simp add: qse_cmp_ntime_val)
    then show ?thesis using tmr_root_least [OF assms(1) e] by simp
  qed
  then have "tmr_due now t = filter_mset (\<lambda>e. False) (mset (tmr_event t))"
    unfolding tmr_due_def by (intro filter_mset_cong) fastforce+
  then show ?thesis by simp
qed

lemma fire_loop_go:
  assumes t: "tmr_ok t" and now: "ntime_near now" and z: "tmr_size t > 0"
    and c: "\<not> qse_cmp_ntime (te_when (tmr_event t ! 0)) now > 0"
    and d: "t1 = fst (qse_tmr_delete t 0)"
  shows "tmr_ok t1" "tmr_due now t = add_mset (tmr_event t ! 0) (tmr_due now t1)"
proof -
  obtain log where d': "qse_tmr_delete t 0 = (t1, log)" using d by (cases "qse_tmr_delete t 0") auto
  note del = tmr_delete_ok [OF t z d']
  show "tmr_ok t1" by (rule del(1))
  have "ntime_near (te_when (tmr_event t ! 0))" using t z by (simp add: tmr_ok_def)
  then have "ntime_val (te_when (tmr_event t ! 0)) \<le> ntime_val now"
    using c now by (simp add: qse_cmp_ntime_val)
  then show "tmr_due now t = add_mset (tmr_event t ! 0) (tmr_due now t1)"
    unfolding tmr_due_def del(2) [symmetric] by simp
qed

lemma fire_loop_spec:
  assumes "tmr_ok t" "ntime_near now"
    and hd: "\<And>e t. tmr_ok t \<Longrightarrow> tmr_ok (handler now e t) \<and> tmr_due now (handler now e t) = tmr_due now t"
  shows "\<exists>t' fired. fire_loop handler now t = Some (t', fired) \<and> mset fired = tmr_due now t \<and>
     sorted (map (\<lambda>e. ntime_val (te_when e)) fired) \<and> tmr_due now t' = {#} \<and> tmr_ok t'"
  using assms(1)
proof (induction "size (tmr_due now t)" arbitrary: t rule: less_induct)
  case less
  show ?case
  proof (cases "tmr_size t > 0 \<and> \<not> qse_cmp_ntime (te_when (tmr_event t ! 0)) now > 0")
    case False
    then show ?thesis
      using fire_loop_stop [OF less.prems assms(2) False] less.prems
      by (auto simp: fire_loop.simps [of handler now t])
  next
    case True
    let ?e = "tmr_event t ! 0" let ?t1 = "fst (qse_tmr_delete t 0)"
    note go = fire_loop_go [OF less.prems assms(2) conjunct1 [OF True] conjunct2 [OF True] refl]
    note h = hd [OF go(1), of ?e]
    have "size (tmr_due now (handler now ?e ?t1)) < size (tmr_due now t)" using h go(2) by simp
    from less.hyps [OF this conjunct1 [OF h]] obtain t' fired where
      r: "fire_loop handler now (handler now ?e ?t1) = Some (t', fired)"
      and m: "mset fired = tmr_due now ?t1"
      and s: "sorted (map (\<lambda>e. ntime_val (te_when e)) fired)"
      and k: "tmr_due now t' = {#}" "tmr_ok t'"
      using h by auto
    have "ntime_val (te_when ?e) \<le> ntime_val (te_when e)" if "e \<in> set fired" for e
    proof (rule tmr_root_least [OF less.prems])
      have "e \<in># tmr_due now t" using that m go(2) by (metis set_mset_mset insert_iff set_mset_add_mset_insert)
      then show "e \<in> set (tmr_event t)" by (simp add: tmr_due_def)
    qed
    then show ?thesis
      using r m s k go(2) True by (auto simp: fire_loop.simps [of handler now t] Let_def)
  qed
qed

section \<open>Properties\<close>

text \<open>
  C3. In every state a timer of distinct events can reach by opening, inserting (with the array grown or the
  growth refused), updating and deleting, the array is a heap by due time within its capacity, and each owner that
  records the index returned to it and the indices its updater is told knows the index of its event.
\<close>

theorem tmr_run_heap_tracked:
  assumes "tmr_run t pos"
  shows "heap_on YOUNGER_THAN (tmr_event t) \<and> tmr_size t \<le> tmr_capa t \<and>
    (\<forall>j < tmr_size t. pos (tmr_event t ! j) = j)"
  using tmr_run_inv [OF assms] by (simp add: tmr_ok_def tmr_tracked_def)

definition demo_event :: "nat \<Rightarrow> int \<Rightarrow> qse_tmr_event" where
  "demo_event c s = \<lparr>te_ctx = c, te_ctx2 = 0, te_ctx3 = 0, te_when = Ntime s 0, te_handler = 0, te_updater = 0\<rparr>"

lemmas tmr_eval = qse_tmr_insert_def qse_tmr_delete_def qse_tmr_init_def sift_up_def sift_down_def own_move_def
  Let_def up_loop.simps down_loop.simps HEAP_PARENT_def HEAP_LEFT_def HEAP_RIGHT_def YOUNGER_THAN_def
  qse_cmp_ntime_def wrap_s_64 demo_event_def

lemma demo_near: "s \<in> {0..1000} \<Longrightarrow> ntime_near (te_when (demo_event c s))"
  by (simp add: demo_event_def ntime_near_def ntime_consts)

theorem tmr_run_heap_tracked_witness:
  "\<exists>t pos. tmr_run t pos \<and> tmr_event t = [demo_event 3 7, demo_event 1 20] \<and> pos (demo_event 3 7) = 0"
proof -
  let ?t0 = "\<lparr>tmr_capa = 2, tmr_event = []\<rparr>"
  let ?t1 = "\<lparr>tmr_capa = 2, tmr_event = [demo_event 1 20]\<rparr>"
  let ?t2 = "\<lparr>tmr_capa = 2, tmr_event = [demo_event 2 5, demo_event 1 20]\<rparr>"
  let ?t3 = "\<lparr>tmr_capa = 4, tmr_event = [demo_event 2 5, demo_event 1 20, demo_event 3 7]\<rparr>"
  let ?t4 = "\<lparr>tmr_capa = 4, tmr_event = [demo_event 3 7, demo_event 1 20]\<rparr>"
  have i0: "qse_tmr_init True 2 = Some ?t0" by (simp add: tmr_eval)
  have i1: "qse_tmr_insert True ?t0 (demo_event 1 20) = (?t1, 0, [])" by (simp add: tmr_eval)
  have i2: "qse_tmr_insert True ?t1 (demo_event 2 5) = (?t2, 0, [(0, 1, demo_event 1 20)])"
    by (simp add: tmr_eval)
  have i3: "qse_tmr_insert True ?t2 (demo_event 3 7) = (?t3, 2, [])" by (simp add: tmr_eval)
  have i4: "qse_tmr_delete ?t3 0 =
     (?t4, [(0, QSE_TMR_INVALID_INDEX, demo_event 2 5), (2, 0, demo_event 3 7)])"
    by (simp add: tmr_eval)
  have ne: "demo_event 2 5 \<noteq> demo_event 1 20" "demo_event 3 7 \<noteq> demo_event 1 20" "demo_event 3 7 \<noteq> demo_event 2 5"
    by (simp_all add: demo_event_def)
  obtain pos where r: "tmr_run ?t4 pos"
    using tmr_run.deleted [OF tmr_run.inserted [OF tmr_run.inserted [OF tmr_run.inserted [OF
      tmr_run.opened [OF i0] demo_near _ i1] demo_near _ i2] demo_near _ i3] _ i4] ne by auto
  from tmr_run_heap_tracked [OF this] have "pos (demo_event 3 7) = 0" by auto
  then show ?thesis using r by (intro exI [of _ ?t4] exI [of _ pos]) simp
qed


text \<open>
  C32. Insertion, update and deletion change the scheduled events by exactly one event: insertion
  adds it when there is room or the array can be grown and otherwise leaves the timer as it was and returns the invalid
  index; update replaces the event at the index; deletion removes it.
\<close>

theorem qse_tmr_contents:
  assumes "tmr_ok t" "ntime_near (te_when e)"
  shows "(case qse_tmr_insert r t e of (t', k, log) \<Rightarrow>
      if tmr_size t < tmr_capa t \<or> r
      then tmr_ok t' \<and> mset (tmr_event t') = add_mset e (mset (tmr_event t)) \<and> k \<le> tmr_size t
      else t' = t \<and> k = QSE_TMR_INVALID_INDEX \<and> log = []) \<and>
    (i < tmr_size t \<longrightarrow> (case qse_tmr_update t i e of (t', k, log) \<Rightarrow>
      tmr_ok t' \<and> mset (tmr_event t') = mset ((tmr_event t)[i := e]))) \<and>
    (i < tmr_size t \<longrightarrow> (case qse_tmr_delete t i of (t', log) \<Rightarrow>
      tmr_ok t' \<and> add_mset (tmr_event t ! i) (mset (tmr_event t')) = mset (tmr_event t)))"
  using tmr_insert_ok(1) [OF assms, of r] tmr_insert_ok(2,3) [OF assms, of r] tmr_update_ok [OF assms(1) _ assms(2)] tmr_delete_ok [OF assms(1)]
  by (auto split: prod.splits)

definition demo_tmr :: qse_tmr where
  "demo_tmr = \<lparr>tmr_capa = 3, tmr_event = [demo_event 2 5, demo_event 1 20, demo_event 3 7]\<rparr>"

lemma demo_tmr_ok: "tmr_ok demo_tmr"
proof -
  have "j = 0 \<or> j = 1 \<or> j = 2" if "j < 3" for j :: nat using that by auto
  then have "heap_on YOUNGER_THAN (tmr_event demo_tmr)"
    by (auto simp: heap_on_def demo_tmr_def numeral_3_eq_3 tmr_eval less_Suc_eq)
  then show ?thesis by (simp add: tmr_ok_def demo_tmr_def demo_near)
qed

theorem qse_tmr_contents_witness:
  "(case qse_tmr_insert False demo_tmr (demo_event 4 1) of (t', k, log) \<Rightarrow>
     t' = demo_tmr \<and> k = QSE_TMR_INVALID_INDEX \<and> log = []) \<and>
   (case qse_tmr_delete demo_tmr 1 of (t', log) \<Rightarrow>
     mset (tmr_event t') = {#demo_event 2 5, demo_event 3 7#})"
  using qse_tmr_contents [OF demo_tmr_ok demo_near, of 1 False 4 1]
  by (simp add: demo_tmr_def split: prod.splits)

text \<open>
  C14. Firing a timer at a given time, with handlers that keep the timer well formed and
  schedule nothing that is already due, comes to an end; it fires exactly the events that are due at that time, each once, in the order
  of their due times, reports how many, and leaves no event due.
\<close>

theorem qse_tmr_fire_due:
  assumes "tmr_ok t" "ntime_near now"
    and "\<And>e u. tmr_ok u \<Longrightarrow> tmr_ok (handler now e u) \<and> tmr_due now (handler now e u) = tmr_due now u"
  shows "\<exists>t' fired. qse_tmr_fire handler gettime t (Some now) = Some (Inr (t', fired, size (tmr_due now t))) \<and>
    mset fired = tmr_due now t \<and> sorted (map (\<lambda>e. ntime_val (te_when e)) fired) \<and>
    tmr_due now t' = {#} \<and> tmr_ok t'"
proof -
  obtain t' fired where f: "fire_loop handler now t = Some (t', fired)" "mset fired = tmr_due now t"
    and k: "sorted (map (\<lambda>e. ntime_val (te_when e)) fired)" "tmr_due now t' = {#}" "tmr_ok t'"
    using fire_loop_spec [of t now handler, OF assms] by blast
  have "length fired = size (tmr_due now t)" using f(2) by (metis size_mset)
  then show ?thesis using f k by (simp add: qse_tmr_fire_def tmr_now_def)
qed

definition demo_handler :: "qse_ntime \<Rightarrow> qse_tmr_event \<Rightarrow> qse_tmr \<Rightarrow> qse_tmr" where
  "demo_handler now e t = fst (qse_tmr_insert True t (demo_event 9 100))"

lemma demo_handler_ok:
  assumes "tmr_ok u"
  shows "tmr_ok (demo_handler (Ntime 10 0) e u) \<and>
    tmr_due (Ntime 10 0) (demo_handler (Ntime 10 0) e u) = tmr_due (Ntime 10 0) u"
proof -
  obtain t' k log where i: "qse_tmr_insert True u (demo_event 9 100) = (t', k, log)"
    by (cases "qse_tmr_insert True u (demo_event 9 100)") auto
  have n: "ntime_near (te_when (demo_event 9 100))" by (rule demo_near) simp
  have "\<not> ntime_val (te_when (demo_event 9 100)) \<le> ntime_val (Ntime 10 0)"
    by (simp add: demo_event_def ntime_val_def ntime_consts)
  then show ?thesis
    using tmr_insert_ok(1,2) [OF assms n i] by (simp add: demo_handler_def i tmr_due_def)
qed

theorem qse_tmr_fire_due_witness:
  "\<exists>t' fired. qse_tmr_fire demo_handler None demo_tmr (Some (Ntime 10 0)) = Some (Inr (t', fired, 2)) \<and>
     mset fired = {#demo_event 2 5, demo_event 3 7#} \<and> sorted (map (\<lambda>e. ntime_val (te_when e)) fired)"
proof -
  have n: "ntime_near (Ntime 10 0)" by (simp add: ntime_near_def ntime_consts)
  have d: "tmr_due (Ntime 10 0) demo_tmr = {#demo_event 2 5, demo_event 3 7#}"
    by (simp add: tmr_due_def demo_tmr_def demo_event_def ntime_val_def ntime_consts)
  show ?thesis
    using qse_tmr_fire_due [of demo_tmr "Ntime 10 0" demo_handler None, OF demo_tmr_ok n demo_handler_ok] d
    by (auto simp: numeral_2_eq_2)
qed

text \<open>
  The time-out a timer with events reports is the time from now to the earliest due time,
  or zero when that is already past; an empty timer and a failing clock are errors.
\<close>

theorem qse_tmr_gettmout_earliest:
  assumes "tmr_ok t" "tmr_event t \<noteq> []" "ntime_near now" "tmr_now gettime tm = Some now"
  shows "\<exists>d. qse_tmr_gettmout gettime t tm = Some d \<and>
    ntime_val d = max 0 (Min ((\<lambda>e. ntime_val (te_when e)) ` set (tmr_event t)) - ntime_val now)"
proof -
  let ?w = "te_when (tmr_event t ! 0)"
  have e0: "tmr_event t ! 0 \<in> set (tmr_event t)" using assms(2) by simp
  then have near: "ntime_near ?w" using assms(1) by (simp add: tmr_ok_def)
  have mn: "Min ((\<lambda>e. ntime_val (te_when e)) ` set (tmr_event t)) = ntime_val ?w"
    using e0 tmr_root_least [OF assms(1)] by (intro Min_eqI) auto
  have ok: "ntime_ok ?w" "ntime_ok now" "nt_sec ?w \<noteq> SEC_MIN"
    using near assms(3) by (auto simp: ntime_near_def ntime_ok_def ntime_consts)
  have fits: "clamp_val (ntime_val ?w - ntime_val now) = ntime_val ?w - ntime_val now"
    using near assms(3) by (auto simp: clamp_val_def ntime_near_def ntime_val_def ntime_consts)
  have s: "ntime_val (qse_sub_ntime ?w now) = ntime_val ?w - ntime_val now" "ntime_ok (qse_sub_ntime ?w now)"
    using qse_sub_ntime_saturates_aux [OF ok(1,2)] ok(3) fits by auto
  have "qse_is_neg_ntime (qse_sub_ntime ?w now) \<longleftrightarrow> ntime_val ?w - ntime_val now < 0"
    using s(2) unfolding s(1) [symmetric]
    by (auto simp: qse_is_neg_ntime_def ntime_ok_def ntime_val_def ntime_consts)
  then show ?thesis
    using assms(2,4) s(1) mn by (auto simp: qse_tmr_gettmout_def Let_def qse_clear_ntime_def ntime_val_def)
qed

theorem qse_tmr_gettmout_earliest_witness:
  "\<exists>d. qse_tmr_gettmout None demo_tmr (Some (Ntime 3 1)) = Some d \<and> ntime_val d = 1999999999"
proof -
  have n: "ntime_near (Ntime 3 1)" by (simp add: ntime_near_def ntime_consts)
  show ?thesis
    using qse_tmr_gettmout_earliest [OF demo_tmr_ok _ n, of None "Some (Ntime 3 1)"]
    by (simp add: demo_tmr_def tmr_now_def demo_event_def ntime_val_def ntime_consts)
qed

end
