(* ===== verification/Qse_Mem.thy ===== *)
theory Qse_Mem
  imports Qse_Prelude
begin

text \<open>
  The memory functions of \<open>src/lib/cmn/mem.c\<close> in the portable branch of their conditional compilation (the other branches are
  assembly and vector intrinsics): copying, moving, filling, comparing and searching memory, with the
  word-at-a-time loops the code uses on aligned addresses. Memory is a function from addresses to
  bytes; \<open>qse_size_t\<close> is 64 bits wide. The assertion of \<open>qse_memset\<close> that the words it writes are aligned fails only where the
  function overruns its block, and is left out.
\<close>

section \<open>Memory\<close>

type_synonym mem = "addr \<Rightarrow> byte"

definition mem_at :: "mem \<Rightarrow> addr \<Rightarrow> nat \<Rightarrow> byte list" where
  "mem_at m a n = map m [a..<a + n]"

definition store :: "mem \<Rightarrow> addr \<Rightarrow> byte \<Rightarrow> mem" where
  "store m a b = m(a := b)"

lemma store_apply: "store m a b x = (if x = a then b else m x)"
  by (simp add: store_def)

fun poke :: "mem \<Rightarrow> addr \<Rightarrow> byte list \<Rightarrow> mem" where
  "poke m a [] = m"
| "poke m a (b # bs) = poke (store m a b) (a + 1) bs"

text \<open>The object representation of a \<open>qse_size_t\<close>, least significant byte first.\<close>

definition word_bytes :: "64 word \<Rightarrow> byte list" where
  "word_bytes w = map (\<lambda>i. ucast (drop_bit (8 * i) w)) [0..<8]"

definition IS_UNALIGNED :: "addr \<Rightarrow> nat" where
  "IS_UNALIGNED ptr = ptr AND (8 - 1)"

definition IS_BOTH_ALIGNED :: "addr \<Rightarrow> addr \<Rightarrow> bool" where
  "IS_BOTH_ALIGNED ptr1 ptr2 \<longleftrightarrow> (ptr1 OR ptr2) AND (8 - 1) = 0"

section \<open>Copying and moving\<close>

fun copy_bytes :: "mem \<Rightarrow> addr \<Rightarrow> addr \<Rightarrow> nat \<Rightarrow> mem" where
  "copy_bytes m d s 0 = m"
| "copy_bytes m d s (Suc n) = copy_bytes (store m d (m s)) (d + 1) (s + 1) n"

fun copy_bytes_back :: "mem \<Rightarrow> addr \<Rightarrow> addr \<Rightarrow> nat \<Rightarrow> mem" where
  "copy_bytes_back m dse sre 0 = m"
| "copy_bytes_back m dse sre (Suc n) = copy_bytes_back (store m (dse - 1) (m (sre - 1))) (dse - 1) (sre - 1) n"

fun copy_words :: "mem \<Rightarrow> addr \<Rightarrow> addr \<Rightarrow> nat \<Rightarrow> mem \<times> addr \<times> addr \<times> nat" where
  "copy_words m du su n =
     (if n \<ge> 8 then copy_words (poke m du (mem_at m su 8)) (du + 8) (su + 8) (n - 8)
      else (m, du, su, n))"

declare copy_words.simps [simp del]

definition qse_memcpy :: "mem \<Rightarrow> addr \<Rightarrow> addr \<Rightarrow> nat \<Rightarrow> mem" where
  "qse_memcpy m dst src n =
     (if n < 8 then copy_bytes m dst src n
      else if n \<ge> 8 \<and> IS_BOTH_ALIGNED dst src
      then (let (m, d, s, n) = copy_words m dst src n in copy_bytes m d s n)
      else copy_bytes m dst src n)"

definition qse_memmove :: "mem \<Rightarrow> addr \<Rightarrow> addr \<Rightarrow> nat \<Rightarrow> mem" where
  "qse_memmove m dst src n =
     (let sre = src + n in
      if dst \<le> src \<or> dst \<ge> sre then copy_bytes m dst src n
      else copy_bytes_back m (dst + n) sre n)"

section \<open>Filling\<close>

text \<open>
  The loop over the unaligned head, \<open>do { *d++ = val; } while (n-- > 0 && ++rem < 8)\<close>:
  the byte is written before \<open>n\<close> is tested, and \<open>n\<close>, a \<open>qse_size_t\<close>, is decremented by the test even if
  it is zero.
\<close>

function (sequential) set_head :: "mem \<Rightarrow> addr \<Rightarrow> byte \<Rightarrow> 64 word \<Rightarrow> nat \<Rightarrow> mem \<times> addr \<times> 64 word" where
  "set_head m d val n rem =
     (let m = store m d val; d = d + 1 in
      if n > 0 then
        (if rem + 1 < 8 then set_head m d val (n - 1) (rem + 1) else (m, d, n - 1))
      else (m, d, n - 1))"
  by pat_completeness auto
termination by (relation "measure (\<lambda>(m, d, val, n, rem). 8 - rem)") auto

declare set_head.simps [simp del]

fun set_words :: "mem \<Rightarrow> addr \<Rightarrow> 64 word \<Rightarrow> nat \<Rightarrow> mem \<times> addr \<times> nat" where
  "set_words m u uv n =
     (if n \<ge> 8 then set_words (poke m u (word_bytes uv)) (u + 8) uv (n - 8) else (m, u, n))"

declare set_words.simps [simp del]

fun set_bytes :: "mem \<Rightarrow> addr \<Rightarrow> byte \<Rightarrow> nat \<Rightarrow> mem" where
  "set_bytes m d val 0 = m"
| "set_bytes m d val (Suc n) = set_bytes (store m d val) (d + 1) val n"

definition memset_word :: "byte \<Rightarrow> 64 word" where
  "memset_word val =
     (if val \<noteq> 0 then ((\<lambda>uv. push_bit 8 uv OR ucast val) ^^ 8) 0 else 0)"

definition qse_memset :: "mem \<Rightarrow> addr \<Rightarrow> byte \<Rightarrow> 64 word \<Rightarrow> mem" where
  "qse_memset m dst val n =
     (if n \<le> 0 then m
      else
        (let rem = IS_UNALIGNED dst;
             (m, d, n) = (if rem > 0 then set_head m dst val n rem else (m, dst, n));
             (m, d, n) = (if n \<ge> 8 then set_words m d (memset_word val) (unat n) else (m, d, unat n))
         in set_bytes m d val n))"

section \<open>Comparing and searching\<close>

fun cmp_words :: "mem \<Rightarrow> addr \<Rightarrow> addr \<Rightarrow> nat \<Rightarrow> addr \<times> addr \<times> nat" where
  "cmp_words m u1 u2 n =
     (if n \<ge> 8 \<and> mem_at m u1 8 = mem_at m u2 8 then cmp_words m (u1 + 8) (u2 + 8) (n - 8)
      else (u1, u2, n))"

declare cmp_words.simps [simp del]

fun cmp_bytes :: "mem \<Rightarrow> addr \<Rightarrow> addr \<Rightarrow> nat \<Rightarrow> int" where
  "cmp_bytes m b1 b2 0 = 0"
| "cmp_bytes m b1 b2 (Suc n) =
     (if m b1 \<noteq> m b2 then uint (m b1) - uint (m b2) else cmp_bytes m (b1 + 1) (b2 + 1) n)"

definition qse_memcmp :: "mem \<Rightarrow> addr \<Rightarrow> addr \<Rightarrow> nat \<Rightarrow> int" where
  "qse_memcmp m s1 s2 n =
     (if n \<ge> 8 \<and> IS_BOTH_ALIGNED s1 s2
      then (let (b1, b2, n) = cmp_words m s1 s2 n in cmp_bytes m b1 b2 n)
      else cmp_bytes m s1 s2 n)"

fun qse_membyte :: "mem \<Rightarrow> addr \<Rightarrow> byte \<Rightarrow> nat \<Rightarrow> addr option" where
  "qse_membyte m x val 0 = None"
| "qse_membyte m x val (Suc n) = (if m x = val then Some x else qse_membyte m (x + 1) val n)"

fun memrbyte_loop :: "mem \<Rightarrow> addr \<Rightarrow> byte \<Rightarrow> nat \<Rightarrow> addr option" where
  "memrbyte_loop m x val 0 = None"
| "memrbyte_loop m x val (Suc n) = (if m x = val then Some x else memrbyte_loop m (x - 1) val n)"

definition qse_memrbyte :: "mem \<Rightarrow> addr \<Rightarrow> byte \<Rightarrow> nat \<Rightarrow> addr option" where
  "qse_memrbyte m s val n = memrbyte_loop m (s + n - 1) val n"

fun memmem_loop :: "mem \<Rightarrow> addr \<Rightarrow> addr \<Rightarrow> nat \<Rightarrow> nat \<Rightarrow> addr option" where
  "memmem_loop m h nd nl 0 = None"
| "memmem_loop m h nd nl (Suc i) =
     (if qse_memcmp m h nd nl = 0 then Some h else memmem_loop m (h + 1) nd nl i)"

definition qse_memmem :: "mem \<Rightarrow> addr \<Rightarrow> nat \<Rightarrow> addr \<Rightarrow> nat \<Rightarrow> addr option" where
  "qse_memmem m hs hl nd nl = (if nl \<le> hl then memmem_loop m hs nd nl (hl - nl + 1) else None)"

fun memrmem_loop :: "mem \<Rightarrow> addr \<Rightarrow> addr \<Rightarrow> nat \<Rightarrow> nat \<Rightarrow> addr option" where
  "memrmem_loop m h nd nl 0 = None"
| "memrmem_loop m h nd nl (Suc i) =
     (if qse_memcmp m h nd nl = 0 then Some h else memrmem_loop m (h - 1) nd nl i)"

definition qse_memrmem :: "mem \<Rightarrow> addr \<Rightarrow> nat \<Rightarrow> addr \<Rightarrow> nat \<Rightarrow> addr option" where
  "qse_memrmem m hs hl nd nl =
     (if nl \<le> hl then
        if nl = 0 then Some (hs + hl - 1)
        else memrmem_loop m (hs + hl - nl) nd nl (hl - nl + 1)
      else None)"

section \<open>Reference definitions\<close>

definition moved :: "mem \<Rightarrow> addr \<Rightarrow> addr \<Rightarrow> nat \<Rightarrow> mem" where
  "moved m dst src n = (\<lambda>a. if dst \<le> a \<and> a < dst + n then m (src + (a - dst)) else m a)"

definition filled :: "mem \<Rightarrow> addr \<Rightarrow> byte \<Rightarrow> nat \<Rightarrow> mem" where
  "filled m dst val n = (\<lambda>a. if dst \<le> a \<and> a < dst + n then val else m a)"

fun bytes_cmp :: "byte list \<Rightarrow> byte list \<Rightarrow> int" where
  "bytes_cmp (x # xs) (y # ys) = (if x \<noteq> y then uint x - uint y else bytes_cmp xs ys)"
| "bytes_cmp _ _ = 0"

lemma poke_apply: "poke m a bs x = (if a \<le> x \<and> x < a + length bs then bs ! (x - a) else m x)"
proof (induction bs arbitrary: m a)
  case (Cons b bs)
  show ?case by (auto simp: Cons.IH store_apply nth_Cons' Suc_le_eq)
qed auto

lemma mem_at_0 [simp]: "mem_at m a 0 = []"
  by (simp add: mem_at_def)

lemma length_mem_at [simp]: "length (mem_at m a n) = n"
  by (simp add: mem_at_def)

lemma mem_at_nth [simp]: "i < n \<Longrightarrow> mem_at m a n ! i = m (a + i)"
  by (simp add: mem_at_def)

lemma mem_at_Suc: "mem_at m a (Suc n) = m a # mem_at m (Suc a) n"
proof -
  have "[a..<a + Suc n] = a # [Suc a..<Suc a + n]" by (subst upt_conv_Cons) simp_all
  then show ?thesis by (simp add: mem_at_def)
qed

lemma mem_at_add: "mem_at m a (k + n) = mem_at m a k @ mem_at m (a + k) n"
proof -
  have "[a..<a + (k + n)] = [a..<a + k] @ [a + k..<a + k + n]"
    using upt_add_eq_append [of a "a + k" n] by (simp add: add.assoc)
  then show ?thesis by (simp add: mem_at_def)
qed

lemma moved_0 [simp]: "moved m d s 0 = m"
  by (rule ext) (auto simp: moved_def)

lemma filled_0 [simp]: "filled m d v 0 = m"
  by (rule ext) (auto simp: filled_def)

lemma copy_bytes_moved: "d \<le> s \<or> s + n \<le> d \<Longrightarrow> copy_bytes m d s n = moved m d s n"
proof (induction n arbitrary: m d s)
  case (Suc n)
  then have "copy_bytes m d s (Suc n) = moved (store m d (m s)) (d + 1) (s + 1) n"
    using Suc.IH [of "d + 1" "s + 1"] by auto
  also have "\<dots> = moved m d s (Suc n)"
  proof
    fix a
    have "s + 1 + (a - (d + 1)) = s + (a - d) \<and> s + (a - d) \<noteq> d" if "d < a" "a < d + Suc n"
      using that Suc.prems by auto
    then show "moved (store m d (m s)) (d + 1) (s + 1) n a = moved m d s (Suc n) a"
      by (cases "a = d") (auto simp: moved_def store_apply Suc_le_eq)
  qed
  finally show ?case .
qed simp

lemma copy_bytes_back_moved: "s \<le> d \<Longrightarrow> copy_bytes_back m (d + n) (s + n) n = moved m d s n"
proof (induction n arbitrary: m)
  case (Suc n)
  let ?m = "store m (d + n) (m (s + n))"
  have "copy_bytes_back m (d + Suc n) (s + Suc n) (Suc n) = moved ?m d s n"
    using Suc by simp
  also have "\<dots> = moved m d s (Suc n)"
  proof
    fix a
    show "moved ?m d s n a = moved m d s (Suc n) a"
      using Suc.prems by (cases "a = d + n") (auto simp: moved_def store_apply)
  qed
  finally show ?case .
qed simp

lemma copy_words_moved:
  assumes "copy_words m d s n = (m', d', s', n')" "d \<le> s \<or> s + n \<le> d"
  shows "\<exists>k. n = k + n' \<and> d' = d + k \<and> s' = s + k \<and> m' = moved m d s k"
  using assms
proof (induction m d s n rule: copy_words.induct)
  case (1 m d s n)
  show ?case
  proof (cases "n \<ge> 8")
    case False
    then show ?thesis using "1.prems"(1) by (simp add: copy_words.simps [of m d s n])
  next
    case True
    let ?m = "poke m d (mem_at m s 8)"
    have c: "copy_words ?m (d + 8) (s + 8) (n - 8) = (m', d', s', n')"
      using "1.prems"(1) True by (simp add: copy_words.simps [of m d s n])
    obtain k where k: "n - 8 = k + n'" "d' = d + 8 + k" "s' = s + 8 + k" "m' = moved ?m (d + 8) (s + 8) k"
      using "1.IH" [OF True c] "1.prems"(2) True by auto
    have "moved ?m (d + 8) (s + 8) k = moved m d s (8 + k)"
    proof
      fix a
      have "s + 8 + (a - (d + 8)) = s + (a - d)" if "d + 8 \<le> a" using that by simp
      moreover have "\<not> (d \<le> s + (a - d) \<and> s + (a - d) < d + 8)" if "d + 8 \<le> a" "a < d + 8 + k"
        using "1.prems"(2) k(1) True that by linarith
      ultimately show "moved ?m (d + 8) (s + 8) k a = moved m d s (8 + k) a"
        by (auto simp: moved_def poke_apply)
    qed
    then show ?thesis using k True by (intro exI [of _ "8 + k"]) simp
  qed
qed

lemma moved_moved:
  assumes "d \<le> s \<or> s + (k + n) \<le> d"
  shows "moved (moved m d s k) (d + k) (s + k) n = moved m d s (k + n)"
proof
  fix a
  have "s + k + (a - (d + k)) = s + (a - d)" if "d + k \<le> a" using that by simp
  moreover have "\<not> (d \<le> s + (a - d) \<and> s + (a - d) < d + k)" if "d + k \<le> a" "a < d + k + n"
    using assms that by linarith
  ultimately show "moved (moved m d s k) (d + k) (s + k) n a = moved m d s (k + n) a"
    by (auto simp: moved_def)
qed

lemma qse_memcpy_moved:
  assumes "d \<le> s \<or> s + n \<le> d" shows "qse_memcpy m d s n = moved m d s n"
proof -
  obtain m' d' s' n' where w: "copy_words m d s n = (m', d', s', n')" by (metis prod_cases4)
  obtain k where k: "n = k + n'" "d' = d + k" "s' = s + k" "m' = moved m d s k"
    using copy_words_moved [OF w assms] by blast
  have "copy_bytes m' d' s' n' = moved m d s n"
    using assms k moved_moved [of d s k n' m] copy_bytes_moved [of d' s' n' m'] by auto
  then show ?thesis using assms by (simp add: qse_memcpy_def w copy_bytes_moved)
qed

lemma qse_memmove_moved: "qse_memmove m d s n = moved m d s n"
  by (auto simp: qse_memmove_def Let_def copy_bytes_moved copy_bytes_back_moved)

text \<open>
  A copy upwards over itself still delivers the bytes that lie below the destination, and changes nothing outside the destination.
\<close>

definition copied_up :: "mem \<Rightarrow> addr \<Rightarrow> addr \<Rightarrow> nat \<Rightarrow> mem \<Rightarrow> bool" where
  "copied_up m d s n m' \<longleftrightarrow> (\<forall>a. a < d \<or> d + n \<le> a \<longrightarrow> m' a = m a) \<and> (\<forall>i < n. s + i < d \<longrightarrow> m' (d + i) = m (s + i))"

lemma copied_up_trans:
  assumes "copied_up m d s k m1" "copied_up m1 (d + k) (s + k) n m2" "s < d"
  shows "copied_up m d s (k + n) m2"
  unfolding copied_up_def
proof (intro conjI allI impI)
  fix a assume "a < d \<or> d + (k + n) \<le> a"
  then have "m2 a = m1 a" "m1 a = m a" using assms(1,2) by (auto simp: copied_up_def)
  then show "m2 a = m a" by simp
next
  fix i assume i: "i < k + n" "s + i < d"
  show "m2 (d + i) = m (s + i)"
  proof (cases "i < k")
    case True
    then show ?thesis using assms(1,2) i by (simp add: copied_up_def)
  next
    case False
    then obtain j where j: "i = k + j" by (metis le_Suc_ex not_less)
    then have "m2 (d + k + j) = m1 (s + k + j)" using assms(2) i by (simp add: copied_up_def)
    then show ?thesis using assms(1) i j by (simp add: copied_up_def add.assoc)
  qed
qed

lemma copy_bytes_up: "s < d \<Longrightarrow> copied_up m d s n (copy_bytes m d s n)"
proof (induction n arbitrary: m d s)
  case 0
  then show ?case by (simp add: copied_up_def)
next
  case (Suc n)
  have "copied_up m d s 1 (store m d (m s))" using Suc.prems by (simp add: copied_up_def store_apply)
  from copied_up_trans [OF this, of n] show ?case using Suc by simp
qed

lemma copy_words_up:
  assumes "copy_words m d s n = (m', d', s', n')" "s < d"
  shows "\<exists>k. n = k + n' \<and> d' = d + k \<and> s' = s + k \<and> copied_up m d s k m'"
  using assms
proof (induction m d s n rule: copy_words.induct)
  case (1 m d s n)
  show ?case
  proof (cases "n \<ge> 8")
    case False
    then show ?thesis using "1.prems"(1) by (simp add: copy_words.simps [of m d s n] copied_up_def)
  next
    case True
    let ?m = "poke m d (mem_at m s 8)"
    have c: "copy_words ?m (d + 8) (s + 8) (n - 8) = (m', d', s', n')"
      using "1.prems"(1) True by (simp add: copy_words.simps [of m d s n])
    obtain k where k: "n - 8 = k + n'" "d' = d + 8 + k" "s' = s + 8 + k" "copied_up ?m (d + 8) (s + 8) k m'"
      using "1.IH" [OF True c] "1.prems"(2) by auto
    have "copied_up m d s 8 ?m" by (auto simp: copied_up_def poke_apply mem_at_def)
    from copied_up_trans [OF this k(4) "1.prems"(2)] show ?thesis using k(1-3) True by (intro exI [of _ "8 + k"]) simp
  qed
qed

lemma qse_memcpy_up:
  assumes "s < d"
  shows "copied_up m d s n (qse_memcpy m d s n)"
proof -
  obtain m' d' s' n' where w: "copy_words m d s n = (m', d', s', n')" by (metis prod_cases4)
  obtain k where k: "n = k + n'" "d' = d + k" "s' = s + k" "copied_up m d s k m'" using copy_words_up [OF w assms] by blast
  have "copied_up m d s (k + n') (copy_bytes m' d' s' n')"
    using copied_up_trans [OF k(4) _ assms] copy_bytes_up [of s' d' m' n'] k(2,3) assms by simp
  then have "copied_up m d s n (copy_bytes m' d' s' n')" using k(1) by simp
  then show ?thesis by (simp add: qse_memcpy_def w copy_bytes_up [OF assms])
qed

section \<open>Filling\<close>

lemma set_bytes_filled: "set_bytes m d v n = filled m d v n"
proof (induction n arbitrary: m d)
  case (Suc n)
  show ?case
  proof
    fix a
    show "set_bytes m d v (Suc n) a = filled m d v (Suc n) a"
      by (cases "a = d") (auto simp: Suc.IH filled_def store_apply Suc_le_eq)
  qed
qed simp


lemma filled_filled: "filled (filled m d v k) (d + k) v n = filled m d v (k + n)"
  by (rule ext) (auto simp: filled_def)

lemma splat_bits:
  fixes v :: byte
  shows "bit (((\<lambda>uv :: 64 word. push_bit 8 uv OR ucast v) ^^ k) 0) n \<longleftrightarrow> n < 8 * k \<and> n < 64 \<and> bit v (n mod 8)"
proof (induction k arbitrary: n)
  case (Suc k)
  have v: "bit v n \<Longrightarrow> n < 8" using bit_imp_le_length [of v n] by simp
  have "n mod 8 = (n - 8) mod 8" if "8 \<le> n" using that by (simp add: le_mod_geq)
  then show ?case
    using v by (cases "n < 8") (auto simp: bit_simps Suc.IH)
qed simp

lemma memset_word_bytes: "word_bytes (memset_word v) = replicate 8 v"
proof -
  have w: "bit (memset_word v) n \<longleftrightarrow> n < 64 \<and> bit v (n mod 8)" for n
    using splat_bits [of 8 v n] by (auto simp: memset_word_def)
  have "ucast (drop_bit (8 * i) (memset_word v)) = v" if "i < 8" for i
    using that by (intro bit_word_eqI) (simp add: bit_simps w)
  then show ?thesis by (intro nth_equalityI) (simp_all add: word_bytes_def)
qed

lemma set_words_filled:
  assumes "set_words m d (memset_word v) n = (m', d', n')"
  shows "\<exists>k. n = k + n' \<and> d' = d + k \<and> m' = filled m d v k"
  using assms
proof (induction n arbitrary: m d rule: less_induct)
  case (less n)
  show ?case
  proof (cases "n \<ge> 8")
    case False
    then show ?thesis using less.prems by (simp add: set_words.simps [of m d _ n])
  next
    case True
    let ?m = "poke m d (replicate 8 v)"
    have "set_words ?m (d + 8) (memset_word v) (n - 8) = (m', d', n')"
      using less.prems True by (simp add: set_words.simps [of m d _ n] memset_word_bytes)
    from less.IH [OF _ this] True obtain k
      where k: "n - 8 = k + n'" "d' = d + 8 + k" "m' = filled ?m (d + 8) v k" by auto
    have "?m = filled m d v 8" by (rule ext) (auto simp: poke_apply filled_def)
    then show ?thesis using k True filled_filled [of m d v 8 k] by (intro exI [of _ "8 + k"]) simp
  qed
qed

text \<open>The head loop with enough bytes to reach alignment, and with too few.\<close>

lemma set_head_filled:
  assumes "rem < 8" "8 - rem \<le> unat n" "set_head m d v n rem = (m', d', n')"
  shows "m' = filled m d v (8 - rem) \<and> d' = d + (8 - rem) \<and> unat n' = unat n - (8 - rem)"
  using assms
proof (induction "8 - rem" arbitrary: m d n rem)
  case (Suc k)
  have nz: "n \<noteq> 0" using Suc.prems(1,2) by auto
  then have n: "n > 0" "unat (n - 1) = unat n - 1"
    using unat_minus_one [OF nz] by (auto simp: word_gt_0)
  have f: "filled (store m d v) (d + 1) v j = filled m d v (Suc j)" for j
    by (rule ext) (auto simp: filled_def store_apply)
  show ?case
  proof (cases "rem + 1 < 8")
    case True
    then have "set_head (store m d v) (d + 1) v (n - 1) (rem + 1) = (m', d', n')"
      using Suc.prems(3) n(1) by (simp add: set_head.simps [of m d v n rem] Let_def)
    from Suc.hyps(1) [OF _ True _ this] Suc.hyps(2) Suc.prems(1,2) n(2)
    show ?thesis using f [of "8 - (rem + 1)"] Suc_diff_Suc [OF Suc.prems(1)] by auto
  next
    case False
    then have "rem = 7" using Suc.prems(1) by simp
    then show ?thesis
      using Suc.prems(3) n f [of 0] by (auto simp: set_head.simps [of m d v n 7] Let_def)
  qed
qed simp

lemma set_head_overrun:
  assumes "rem < 8" "unat n < 8 - rem" "set_head m d v n rem = (m', d', n')"
  shows "m' = filled m d v (unat n + 1) \<and> d' = d + (unat n + 1) \<and> n' = - 1"
  using assms
proof (induction "unat n" arbitrary: m d n rem)
  case 0
  then have "n = 0" using unat_eq_0 [of n] by simp
  then show ?case
    using 0(4) by (auto simp: set_head.simps [of m d v 0 rem] Let_def filled_def store_apply)
next
  case (Suc k)
  have nz: "n \<noteq> 0" using Suc.hyps(2) by auto
  then have n: "n > 0" "unat (n - 1) = k"
    using unat_minus_one [OF nz] Suc.hyps(2) by (auto simp: word_gt_0)
  have f: "filled (store m d v) (d + 1) v j = filled m d v (Suc j)" for j
    by (rule ext) (auto simp: filled_def store_apply)
  have r: "rem + 1 < 8" using Suc.prems Suc.hyps(2) by simp
  then have "set_head (store m d v) (d + 1) v (n - 1) (rem + 1) = (m', d', n')"
    using Suc.prems(3) n(1) by (simp add: set_head.simps [of m d v n rem] Let_def)
  from Suc.hyps(1) [OF n(2) [symmetric] r _ this] Suc.hyps(2) Suc.prems(2) n(2)
  show ?case using f [of "k + 1"] by auto
qed


lemma IS_UNALIGNED_mod: "IS_UNALIGNED a = a mod 8"
  using take_bit_eq_mask [of 3 a] take_bit_eq_mod [of 3 a] by (simp add: IS_UNALIGNED_def mask_eq_exp_minus_1)

lemma set_tail_filled:
  fixes n :: "64 word"
  shows "(case (if n \<ge> 8 then set_words m d (memset_word v) (unat n) else (m, d, unat n)) of
      (m', d', n') \<Rightarrow> set_bytes m' d' v n') = filled m d v (unat n)"
proof (cases "n \<ge> 8")
  case True
  obtain m' d' n' where w: "set_words m d (memset_word v) (unat n) = (m', d', n')" by (metis prod_cases3)
  then show ?thesis
    using True set_words_filled [OF w] filled_filled by (auto simp: set_bytes_filled)
qed (simp add: set_bytes_filled)

lemma qse_memset_spec:
  assumes "n > 0"
  shows "qse_memset m dst v n =
    (if dst mod 8 = 0 \<or> 8 - dst mod 8 \<le> unat n then filled m dst v (unat n)
     else filled m dst v (unat n + 2 ^ 64))"
proof (cases "dst mod 8 = 0")
  case True
  then show ?thesis
    using assms set_tail_filled [of v n m dst] by (auto simp: qse_memset_def IS_UNALIGNED_mod)
next
  case False
  obtain m' d' n' where h: "set_head m dst v n (dst mod 8) = (m', d', n')" by (metis prod_cases3)
  have r: "qse_memset m dst v n = filled m' d' v (unat n')"
    using assms False set_tail_filled [of v n' m' d'] by (auto simp: qse_memset_def IS_UNALIGNED_mod h)
  show ?thesis
  proof (cases "8 - dst mod 8 \<le> unat n")
    case True
    then show ?thesis
      using r set_head_filled [OF _ True h] filled_filled [of m dst v "8 - dst mod 8" "unat n'"] False by simp
  next
    case short: False
    have "unat (- 1 :: 64 word) = 2 ^ 64 - 1" by (simp add: unsigned_minus_1_eq_mask mask_eq_exp_minus_1)
    then show ?thesis
      using r set_head_overrun [OF _ _ h] filled_filled [of m dst v "unat n + 1" "unat n'"] False short
      by (simp add: add.commute)
  qed
qed

section \<open>Comparing and searching\<close>

lemma bytes_cmp_append:
  "length xs = length ys \<Longrightarrow> bytes_cmp (xs @ us) (ys @ vs) = (if xs = ys then bytes_cmp us vs else bytes_cmp xs ys)"
  by (induction xs ys rule: list_induct2) auto

lemma bytes_cmp_refl [simp]: "bytes_cmp xs xs = 0"
  by (induction xs) auto

lemma cmp_bytes_spec: "cmp_bytes m a b n = bytes_cmp (mem_at m a n) (mem_at m b n)"
  by (induction m a b n rule: cmp_bytes.induct) (simp_all add: mem_at_Suc)

lemma cmp_words_spec:
  assumes "cmp_words m a b n = (a', b', n')"
  shows "bytes_cmp (mem_at m a n) (mem_at m b n) = bytes_cmp (mem_at m a' n') (mem_at m b' n')"
  using assms
proof (induction m a b n rule: cmp_words.induct)
  case (1 m a b n)
  show ?case
  proof (cases "n \<ge> 8 \<and> mem_at m a 8 = mem_at m b 8")
    case True
    then have "cmp_words m (a + 8) (b + 8) (n - 8) = (a', b', n')"
      using "1.prems" by (simp add: cmp_words.simps [of m a b n])
    from "1.IH" [OF True this] True show ?thesis
      using mem_at_add [of m a 8 "n - 8"] mem_at_add [of m b 8 "n - 8"] by (simp add: bytes_cmp_append)
  next
    case False
    then show ?thesis using "1.prems" by (auto simp: cmp_words.simps [of m a b n])
  qed
qed

lemma qse_memcmp_spec: "qse_memcmp m a b n = bytes_cmp (mem_at m a n) (mem_at m b n)"
  by (auto simp: qse_memcmp_def cmp_bytes_spec cmp_words_spec split: prod.splits)

lemma bytes_cmp_0: "length xs = length ys \<Longrightarrow> bytes_cmp xs ys = 0 \<longleftrightarrow> xs = ys"
  by (induction xs ys rule: list_induct2) (auto simp: word_uint_eq_iff)

lemma qse_memcmp_0: "qse_memcmp m a b n = 0 \<longleftrightarrow> mem_at m a n = mem_at m b n"
  by (simp add: qse_memcmp_spec bytes_cmp_0)

lemma memmem_loop_spec:
  "(case memmem_loop m h nd nl i of
      Some a \<Rightarrow> h \<le> a \<and> a < h + i \<and> mem_at m a nl = mem_at m nd nl \<and>
        (\<forall>b. h \<le> b \<and> b < a \<longrightarrow> mem_at m b nl \<noteq> mem_at m nd nl)
    | None \<Rightarrow> (\<forall>b. h \<le> b \<and> b < h + i \<longrightarrow> mem_at m b nl \<noteq> mem_at m nd nl))"
proof (induction i arbitrary: h)
  case (Suc i)
  show ?case
  proof (cases "mem_at m h nl = mem_at m nd nl")
    case False
    then have "memmem_loop m h nd nl (Suc i) = memmem_loop m (h + 1) nd nl i" by (simp add: qse_memcmp_0)
    moreover have "b = h \<or> h + 1 \<le> b" if "h \<le> b" for b using that by auto
    ultimately show ?thesis using Suc.IH [of "h + 1"] False by (fastforce split: option.splits)
  qed (auto simp: qse_memcmp_0)
qed auto

lemma memrmem_loop_spec:
  "i \<le> h + 1 \<Longrightarrow> (case memrmem_loop m h nd nl i of
      Some a \<Rightarrow> a \<le> h \<and> h < a + i \<and> mem_at m a nl = mem_at m nd nl \<and>
        (\<forall>b. a < b \<and> b \<le> h \<longrightarrow> mem_at m b nl \<noteq> mem_at m nd nl)
    | None \<Rightarrow> (\<forall>b. b \<le> h \<and> h < b + i \<longrightarrow> mem_at m b nl \<noteq> mem_at m nd nl))"
proof (induction i arbitrary: h)
  case (Suc i)
  show ?case
  proof (cases "mem_at m h nl = mem_at m nd nl")
    case False
    then have e: "memrmem_loop m h nd nl (Suc i) = memrmem_loop m (h - 1) nd nl i" by (simp add: qse_memcmp_0)
    show ?thesis
    proof (cases h)
      case 0
      then have "i = 0" using Suc.prems by simp
      then show ?thesis using False 0 by (simp add: qse_memcmp_0)
    next
      case h: (Suc h')
      note ih = Suc.IH [of h'] Suc.prems h
      show ?thesis
      proof (cases "memrmem_loop m h' nd nl i")
        case None
        have "mem_at m b nl \<noteq> mem_at m nd nl" if "b \<le> h" "h < b + Suc i" for b
          using ih None False that by (cases "b = h") auto
        then show ?thesis using e h None by simp
      next
        case (Some a)
        then have a: "a \<le> h'" "h' < a + i" "mem_at m a nl = mem_at m nd nl"
          "\<And>b. a < b \<Longrightarrow> b \<le> h' \<Longrightarrow> mem_at m b nl \<noteq> mem_at m nd nl" using ih by auto
        have "mem_at m b nl \<noteq> mem_at m nd nl" if "a < b" "b \<le> h" for b
          using a(4) [of b] False that h by (cases "b = h") auto
        then show ?thesis using e h a Some by simp
      qed
    qed
  qed (auto simp: qse_memcmp_0)
qed auto


section \<open>Properties\<close>

text \<open>
  C22. \<open>qse_memmove\<close> moves the block whatever the overlap: afterwards the \<open>n\<close> bytes at the
  destination are the bytes that were at the source, and all other memory is unchanged. \<open>qse_memcpy\<close>, which
  copies eight bytes at a time between aligned addresses, gives the same memory when the destination does not begin inside the source
  block.
\<close>

theorem qse_memmove_memcpy_moved:
  "qse_memmove m dst src n = moved m dst src n \<and>
   (\<not> (src < dst \<and> dst < src + n) \<longrightarrow> qse_memcpy m dst src n = moved m dst src n)"
  using qse_memmove_moved qse_memcpy_moved by (auto simp: not_less)

theorem qse_memmove_memcpy_moved_witness:
  "qse_memmove (\<lambda>a. of_nat a) 18 16 4 20 = 18 \<and> qse_memcpy (\<lambda>a. of_nat a) 16 32 9 24 = 40"
proof -
  have "qse_memmove (\<lambda>a. of_nat a) 18 16 4 = moved (\<lambda>a. of_nat a) 18 16 4"
    "qse_memcpy (\<lambda>a. of_nat a) 16 32 9 = moved (\<lambda>a. of_nat a) 16 32 9"
    using qse_memmove_memcpy_moved [of "\<lambda>a. of_nat a" 18 16 4]
      qse_memmove_memcpy_moved [of "\<lambda>a. of_nat a" 16 32 9] by simp_all
  then show ?thesis by (simp add: moved_def)
qed

text \<open>
  C33. \<open>qse_memset\<close> fills exactly the \<open>n\<close> bytes at the destination when the destination is aligned or the block
  reaches the next aligned address. For every shorter block at an unaligned address the head loop
  runs past the end and wraps the counter, and the function fills \<open>n + 2 ^ 64\<close> bytes instead; a build with assertions
  stops in such a run where the assertion that the rest is aligned fails.
\<close>

theorem qse_memset_filled_or_overrun:
  assumes "n > 0"
  shows "qse_memset m dst val n =
    filled m dst val
      (if dst mod 8 = 0 \<or> 8 - dst mod 8 \<le> unat n then unat n else unat n + 2 ^ 64)"
  using qse_memset_spec [OF assms] by simp

theorem qse_memset_filled_or_overrun_witness:
  "qse_memset (\<lambda>a. 0) 5 7 20 24 = 7 \<and> qse_memset (\<lambda>a. 0) 5 7 20 25 = 0 \<and> qse_memset (\<lambda>a. 0) 5 7 1 1000 = 7"
  using qse_memset_filled_or_overrun [of 20 "\<lambda>a. 0" 5 7] qse_memset_filled_or_overrun [of 1 "\<lambda>a. 0" 5 7]
  by (simp add: filled_def)

text \<open>
  C34. \<open>qse_memcmp\<close>, with its word-wise skip of equal prefixes, returns the difference of the first pair of
  bytes that differ and zero for equal blocks; \<open>qse_memmem\<close> returns the first and \<open>qse_memrmem\<close> the last
  position in the haystack at which the needle occurs, and null exactly when it does not occur. For an empty needle \<open>qse_memrmem\<close> differs: it
  returns the address of the last byte of the haystack, not the one behind it at which the empty needle last occurs, and for an empty haystack, too, the address before it.
\<close>

theorem qse_memcmp_memmem_spec:
  "qse_memcmp m s1 s2 n = bytes_cmp (mem_at m s1 n) (mem_at m s2 n) \<and>
   (case qse_memmem m hs hl nd nl of
      Some a \<Rightarrow> hs \<le> a \<and> a + nl \<le> hs + hl \<and> mem_at m a nl = mem_at m nd nl \<and>
        (\<forall>b. hs \<le> b \<and> b < a \<longrightarrow> mem_at m b nl \<noteq> mem_at m nd nl)
    | None \<Rightarrow> (\<forall>b. hs \<le> b \<and> b + nl \<le> hs + hl \<longrightarrow> mem_at m b nl \<noteq> mem_at m nd nl)) \<and>
   (0 < nl \<longrightarrow> (case qse_memrmem m hs hl nd nl of
      Some a \<Rightarrow> hs \<le> a \<and> a + nl \<le> hs + hl \<and> mem_at m a nl = mem_at m nd nl \<and>
        (\<forall>b. a < b \<and> b + nl \<le> hs + hl \<longrightarrow> mem_at m b nl \<noteq> mem_at m nd nl)
    | None \<Rightarrow> (\<forall>b. hs \<le> b \<and> b + nl \<le> hs + hl \<longrightarrow> mem_at m b nl \<noteq> mem_at m nd nl))) \<and>
   (nl = 0 \<and> 0 < hs \<longrightarrow> qse_memrmem m hs hl nd nl = Some (hs + hl - 1))"
proof (intro conjI impI)
  show "qse_memrmem m hs hl nd nl = Some (hs + hl - 1)" if "nl = 0 \<and> 0 < hs" using that by (simp add: qse_memrmem_def)
next
  show "qse_memcmp m s1 s2 n = bytes_cmp (mem_at m s1 n) (mem_at m s2 n)" by (rule qse_memcmp_spec)
next
  show "case qse_memmem m hs hl nd nl of
      Some a \<Rightarrow> hs \<le> a \<and> a + nl \<le> hs + hl \<and> mem_at m a nl = mem_at m nd nl \<and>
        (\<forall>b. hs \<le> b \<and> b < a \<longrightarrow> mem_at m b nl \<noteq> mem_at m nd nl)
    | None \<Rightarrow> (\<forall>b. hs \<le> b \<and> b + nl \<le> hs + hl \<longrightarrow> mem_at m b nl \<noteq> mem_at m nd nl)"
    using memmem_loop_spec [where m = m and h = hs and nd = nd and nl = nl and i = "hl - nl + 1"]
    by (auto simp: qse_memmem_def split: option.splits if_splits)
next
  assume nl: "0 < nl"
  show "case qse_memrmem m hs hl nd nl of
      Some a \<Rightarrow> hs \<le> a \<and> a + nl \<le> hs + hl \<and> mem_at m a nl = mem_at m nd nl \<and>
        (\<forall>b. a < b \<and> b + nl \<le> hs + hl \<longrightarrow> mem_at m b nl \<noteq> mem_at m nd nl)
    | None \<Rightarrow> (\<forall>b. hs \<le> b \<and> b + nl \<le> hs + hl \<longrightarrow> mem_at m b nl \<noteq> mem_at m nd nl)"
  proof (cases "nl \<le> hl")
    case True
    then obtain k where k: "hl = k + nl" by (metis add.commute le_Suc_ex)
    show ?thesis
      using memrmem_loop_spec [where m = m and h = "hs + k" and nd = nd and nl = nl and i = "k + 1"] nl
      by (simp add: qse_memrmem_def k add.assoc [symmetric] del: memrmem_loop.simps split: option.splits)
  qed (auto simp: qse_memrmem_def)
qed

theorem qse_memcmp_memmem_spec_witness:
  "qse_memcmp (\<lambda>a. of_nat (a mod 10)) 1 21 5 = 0 \<and>
   qse_memmem (\<lambda>a. of_nat (a mod 10)) 100 15 3 2 = Some 103 \<and> qse_memrmem (\<lambda>a. of_nat (a mod 10)) 100 15 3 2 = Some 113 \<and>
   mem_at (\<lambda>a. of_nat (a mod 10)) 113 2 = mem_at (\<lambda>a. of_nat (a mod 10)) 3 2 \<and>
   qse_memrmem (\<lambda>a. of_nat (a mod 10)) 100 0 3 0 = Some 99"
proof -
  let ?m = "\<lambda>a. of_nat (a mod 10) :: byte"
  have f: "qse_memmem ?m 100 15 3 2 = Some 103" "qse_memrmem ?m 100 15 3 2 = Some 113"
    by code_simp+
  show ?thesis
    using qse_memcmp_memmem_spec [where m = ?m and ?s1.0 = 1 and ?s2.0 = 21 and n = 5 and hs = 100 and hl = 15 and nd = 3 and nl = 2, unfolded f]
      qse_memcmp_memmem_spec [where m = ?m and ?s1.0 = 1 and ?s2.0 = 21 and n = 5 and hs = 100 and hl = 0 and nd = 3 and nl = 0] f
    by (simp add: mem_at_def upt_rec)
qed

end
