(* ===== verification/Qse_Xptl.thy ===== *)
theory Qse_Xptl
  imports Qse_Mem Qse_Heap "HOL-Library.List_Lexorder"
begin

text \<open>
  The data items that the containers keep: \<open>qse_xptl_t\<close>, a pointer with a length in units of
  the container's scale, together with the bytes the pointer refers to; the three kinds of
  copiers that decide how an item enters a container; and the default comparator, which
  \<open>arr.c\<close>, \<open>htb.c\<close> and \<open>rbt.c\<close> each define in the same words.
\<close>

record qse_xptl =
  xp_ptr :: addr
  xp_len :: nat
  xp_data :: "byte list"

text \<open>
  A custom copier is the client's code: it returns the item it made, or \<open>None\<close> for a null pointer.
\<close>

datatype copier = COPIER_SIMPLE | COPIER_INLINE | COPIER_CUSTOM "qse_xptl \<Rightarrow> qse_xptl option"

definition TOB :: "nat \<Rightarrow> nat \<Rightarrow> nat" where
  "TOB scale len = len * scale"

definition xptl_wf :: "nat \<Rightarrow> qse_xptl \<Rightarrow> bool" where
  "xptl_wf scale x \<longleftrightarrow> length (xp_data x) = TOB scale (xp_len x)"

definition default_comparator :: "nat \<Rightarrow> qse_xptl \<Rightarrow> qse_xptl \<Rightarrow> int" where
  "default_comparator scale x y =
     (let mn = (if xp_len x < xp_len y then xp_len x else xp_len y);
          n = bytes_cmp (take (TOB scale mn) (xp_data x)) (take (TOB scale mn) (xp_data y))
      in if n = 0 \<and> xp_len x \<noteq> xp_len y then (if xp_len x > xp_len y then 1 else - 1) else n)"

section \<open>The default comparator is the lexicographic order\<close>

lemma bytes_cmp_take:
  "bytes_cmp (take (min (length xs) (length ys)) xs) (take (min (length xs) (length ys)) ys) = bytes_cmp xs ys"
  by (induction xs ys rule: bytes_cmp.induct) auto

lemma Nil_less_iff: "[] < xs \<longleftrightarrow> xs \<noteq> []" for xs :: "byte list"
  by (cases xs) auto

lemma bytes_cmp_lex:
  "xs < ys \<longleftrightarrow> bytes_cmp xs ys < 0 \<or> bytes_cmp xs ys = 0 \<and> length xs < length ys"
  by (induction xs ys rule: bytes_cmp.induct)
    (auto simp: word_less_def word_uint_eq_iff Nil_less_iff)

lemma bytes_cmp_swap: "bytes_cmp ys xs = - bytes_cmp xs ys"
  by (induction xs ys rule: bytes_cmp.induct) auto

lemma default_comparator_lex:
  assumes "xptl_wf scale x" "xptl_wf scale y" "0 < scale"
  shows "default_comparator scale x y < 0 \<longleftrightarrow> xp_data x < xp_data y"
    and "default_comparator scale x y > 0 \<longleftrightarrow> xp_data y < xp_data x"
    and "default_comparator scale x y = 0 \<longleftrightarrow> xp_data x = xp_data y"
proof -
  have l: "xp_len x < xp_len y \<longleftrightarrow> length (xp_data x) < length (xp_data y)"
    "xp_len x = xp_len y \<longleftrightarrow> length (xp_data x) = length (xp_data y)"
    using assms by (auto simp: xptl_wf_def TOB_def)
  have "TOB scale (if xp_len x < xp_len y then xp_len x else xp_len y)
      = min (length (xp_data x)) (length (xp_data y))"
    using assms by (auto simp: xptl_wf_def TOB_def min_def)
  then have n: "default_comparator scale x y =
     (let n = bytes_cmp (xp_data x) (xp_data y)
      in if n = 0 \<and> xp_len x \<noteq> xp_len y then (if xp_len x > xp_len y then 1 else - 1) else n)"
    by (simp add: default_comparator_def Let_def bytes_cmp_take)
  show a: "default_comparator scale x y < 0 \<longleftrightarrow> xp_data x < xp_data y"
    using l by (auto simp: n Let_def bytes_cmp_lex)
  show b: "default_comparator scale x y > 0 \<longleftrightarrow> xp_data y < xp_data x"
    using l bytes_cmp_swap [of "xp_data x" "xp_data y"] by (auto simp: n Let_def bytes_cmp_lex)
  show "default_comparator scale x y = 0 \<longleftrightarrow> xp_data x = xp_data y"
    using a b by (metis less_irrefl linorder_neqE)
qed

lemma default_comparator_le:
  assumes "xptl_wf scale x" "xptl_wf scale y" "0 < scale"
  shows "default_comparator scale x y \<le> 0 \<longleftrightarrow> xp_data x \<le> xp_data y"
  using default_comparator_lex(2) [OF assms] by (simp add: not_less [symmetric])

section \<open>What a container expects of its comparator\<close>

text \<open>
  A comparator orders the acceptable items like three-way comparison does: swapping the operands
  swaps the sign, and the strict and the weak order are transitive. The heap operations need the part of it that
  the locale \<open>heap_order\<close> asks for, both on items and on non-null slots.
\<close>

locale comper_order =
  fixes cmp :: "'a \<Rightarrow> 'a \<Rightarrow> int" and ok :: "'a \<Rightarrow> bool"
  assumes swap: "ok a \<Longrightarrow> ok b \<Longrightarrow> 0 < cmp a b \<longleftrightarrow> cmp b a < 0"
    and gt_trans: "ok a \<Longrightarrow> ok b \<Longrightarrow> ok c \<Longrightarrow> 0 < cmp a b \<Longrightarrow> 0 < cmp b c \<Longrightarrow> 0 < cmp a c"
    and le_trans: "ok a \<Longrightarrow> ok b \<Longrightarrow> ok c \<Longrightarrow> cmp a b \<le> 0 \<Longrightarrow> cmp b c \<le> 0 \<Longrightarrow> cmp a c \<le> 0"
begin

lemma eq_sym: "ok a \<Longrightarrow> ok b \<Longrightarrow> cmp a b = 0 \<Longrightarrow> cmp b a = 0"
  using swap [of a b] swap [of b a] by linarith

lemma eq_trans: "ok a \<Longrightarrow> ok b \<Longrightarrow> ok c \<Longrightarrow> cmp a b = 0 \<Longrightarrow> cmp b c = 0 \<Longrightarrow> cmp a c = 0"
  using le_trans [of a b c] le_trans [of c b a] eq_sym [of a b] eq_sym [of b c] swap [of a c] swap [of c a]
  by linarith

lemma eq_refl: "ok a \<Longrightarrow> cmp a a = 0"
  using swap [of a a] by linarith

end

sublocale comper_order \<subseteq> items: heap_order "\<lambda>a b. 0 < cmp a b" ok
proof unfold_locales
  fix a b c :: 'a
  assume ok: "ok a" "ok b"
  show "\<not> 0 < cmp b a" if "0 < cmp a b" using swap [OF ok] that by simp
  assume "ok c"
  note ok3 = ok this
  show "0 < cmp a c" if "0 < cmp a b" "0 < cmp b c" using gt_trans [OF ok3 that] .
  show "\<not> 0 < cmp a c" if "\<not> 0 < cmp a b" "\<not> 0 < cmp b c" using le_trans [OF ok3] that by simp
qed

sublocale comper_order \<subseteq> slots: heap_order "\<lambda>x y. 0 < cmp (the x) (the y)" "\<lambda>x. x \<noteq> None \<and> ok (the x)"
proof unfold_locales
  fix a b c :: "'a option"
  assume ok: "a \<noteq> None \<and> ok (the a)" "b \<noteq> None \<and> ok (the b)"
  then show "\<not> 0 < cmp (the b) (the a)" if "0 < cmp (the a) (the b)" using items.asym that by blast
  assume ok3: "c \<noteq> None \<and> ok (the c)"
  show "0 < cmp (the a) (the c)" if "0 < cmp (the a) (the b)" "0 < cmp (the b) (the c)"
    using ok ok3 by (intro items.trans [OF _ _ _ that]) simp_all
  show "\<not> 0 < cmp (the a) (the c)" if "\<not> 0 < cmp (the a) (the b)" "\<not> 0 < cmp (the b) (the c)"
    using ok ok3 by (intro items.neg_trans [OF _ _ _ that]) simp_all
qed

interpretation dfl_comper: comper_order "default_comparator scale" "\<lambda>x. 0 < scale \<and> xptl_wf scale x" for scale
proof unfold_locales
  fix a b c :: qse_xptl
  assume ok: "0 < scale \<and> xptl_wf scale a" "0 < scale \<and> xptl_wf scale b"
  then show "0 < default_comparator scale a b \<longleftrightarrow> default_comparator scale b a < 0"
    by (simp add: default_comparator_lex)
  assume ok3: "0 < scale \<and> xptl_wf scale c"
  show "0 < default_comparator scale a c"
    if "0 < default_comparator scale a b" "0 < default_comparator scale b c"
    using that ok ok3 less_trans [of "xp_data c" "xp_data b" "xp_data a"] by (simp add: default_comparator_lex)
  show "default_comparator scale a c \<le> 0"
    if "default_comparator scale a b \<le> 0" "default_comparator scale b c \<le> 0"
    using that ok ok3 order_trans [of "xp_data a" "xp_data b" "xp_data c"] by (simp add: default_comparator_le)
qed

end
