(* ===== verification/Qse_Arr.thy ===== *)
theory Qse_Arr
  imports Qse_Xptl Qse_Heap
begin

text \<open>
  The dynamic array (\<open>src/lib/cmn/arr.c\<close>). \<open>arr_slot\<close> is the C array of slot pointers with one
  element per unit of capacity; \<open>None\<close> is the null pointer, and the cells from \<open>arr_size\<close> on are not
  initialised. Every release of a slot (the call of the freeer, where one is set, and the return of the slot's memory) and
  every call of the keeper is returned as a log in the order of the calls. What the memory manager
  answers is an argument: the address of the new slot, and for which capacities it can provide the slot array. Positions and capacities are numbers:
  they stand for those whose slot array, of eight bytes a slot, fits in 64 bits.
\<close>

section \<open>State\<close>

record qse_arr =
  arr_copier :: copier
  arr_comper_fn :: "nat \<Rightarrow> qse_xptl \<Rightarrow> qse_xptl \<Rightarrow> int"
  arr_sizer :: "(nat \<Rightarrow> nat) option"
  arr_scale :: nat
  arr_heap_pos_offset :: nat
  arr_size :: nat
  arr_capa :: nat
  arr_slot :: "qse_xptl option list"

text \<open>A comparator is called with the array, of which the default comparator reads the scale.\<close>

abbreviation arr_comper :: "qse_arr \<Rightarrow> qse_xptl \<Rightarrow> qse_xptl \<Rightarrow> int" where
  "arr_comper arr \<equiv> arr_comper_fn arr (arr_scale arr)"

datatype arr_call = Released qse_xptl | Kept qse_xptl

definition QSE_ARR_NIL :: nat where
  [qse_defs]: "QSE_ARR_NIL = 2 ^ 64 - 1"

definition SLOT_SIZE :: nat where
  [qse_defs]: "SLOT_SIZE = 16"

text \<open>The pointer arithmetic \<open>n + 1\<close> of the inline copier skips the slot structure itself. The length in the slot is always the one that was passed in.\<close>

definition alloc_slot :: "addr option \<Rightarrow> qse_arr \<Rightarrow> qse_xptl \<Rightarrow> qse_xptl option" where
  "alloc_slot mm arr d =
     (case mm of
        None \<Rightarrow> None
      | Some n \<Rightarrow>
          (case arr_copier arr of
             COPIER_SIMPLE \<Rightarrow> Some d
           | COPIER_INLINE \<Rightarrow>
               Some (d\<lparr>xp_ptr := n + SLOT_SIZE, xp_data := take (TOB (arr_scale arr) (xp_len d)) (xp_data d)\<rparr>)
           | COPIER_CUSTOM f \<Rightarrow> map_option (\<lambda>s. s\<lparr>xp_len := xp_len d\<rparr>) (f d)))"

section \<open>Removal and capacity\<close>

text \<open>The loop of \<open>qse_arr_delete\<close>, \<open>qse_arr_uplete\<close> and \<open>qse_arr_clear\<close> that releases the slots of a range.\<close>

fun release_range :: "qse_xptl option list \<Rightarrow> nat \<Rightarrow> nat \<Rightarrow> qse_xptl option list \<times> arr_call list" where
  "release_range sl i 0 = (sl, [])"
| "release_range sl i (Suc n) =
     (case sl ! i of
        None \<Rightarrow> release_range sl (i + 1) n
      | Some c \<Rightarrow> (let (sl', log) = release_range (sl[i := None]) (i + 1) n in (sl', Released c # log)))"

fun close_gap :: "qse_xptl option list \<Rightarrow> nat \<Rightarrow> nat \<Rightarrow> nat \<Rightarrow> qse_xptl option list" where
  "close_gap sl i cnt 0 = sl"
| "close_gap sl i cnt (Suc n) = close_gap (sl[i - cnt := sl ! i]) (i + 1) cnt n"

definition qse_arr_delete :: "qse_arr \<Rightarrow> nat \<Rightarrow> nat \<Rightarrow> qse_arr \<times> nat \<times> arr_call list" where
  "qse_arr_delete arr index cnt =
     (if index \<ge> arr_size arr then (arr, 0, [])
      else
        (let cnt = (if cnt > arr_size arr - index then arr_size arr - index else cnt);
             (sl, log) = release_range (arr_slot arr) index cnt;
             sl = close_gap sl (index + cnt) cnt (arr_size arr - (index + cnt));
             sl = sl[arr_size arr - 1 := None]
         in (arr\<lparr>arr_slot := sl, arr_size := arr_size arr - cnt\<rparr>, cnt, log)))"

definition qse_arr_uplete :: "qse_arr \<Rightarrow> nat \<Rightarrow> nat \<Rightarrow> qse_arr \<times> nat \<times> arr_call list" where
  "qse_arr_uplete arr index cnt =
     (if index \<ge> arr_size arr then (arr, 0, [])
      else
        (let cnt = (if cnt > arr_size arr - index then arr_size arr - index else cnt);
             (sl, log) = release_range (arr_slot arr) index cnt
         in (arr\<lparr>arr_slot := sl\<rparr>, cnt, log)))"

definition qse_arr_clear :: "qse_arr \<Rightarrow> qse_arr \<times> arr_call list" where
  "qse_arr_clear arr =
     (let (sl, log) = release_range (arr_slot arr) 0 (arr_size arr)
      in (arr\<lparr>arr_slot := sl, arr_size := 0\<rparr>, log))"

text \<open>
  The reallocated array keeps its common prefix; the cells beyond it are filled with \<open>None\<close> here
  and are not read before they are written.
\<close>

definition resize_slots :: "qse_xptl option list \<Rightarrow> nat \<Rightarrow> qse_xptl option list" where
  "resize_slots sl capa = take capa sl @ replicate (capa - length sl) None"

definition qse_arr_setcapa :: "bool \<Rightarrow> qse_arr \<Rightarrow> nat \<Rightarrow> qse_arr \<times> bool \<times> arr_call list" where
  "qse_arr_setcapa mem_ok arr capa =
     (if capa = arr_capa arr then (arr, True, [])
      else
        (let (arr, log) =
           (if arr_size arr > capa
            then (let (a, n, log) = qse_arr_delete arr capa (arr_size arr - capa) in (a, log))
            else (arr, []))
         in if capa > 0 then
              if mem_ok then (arr\<lparr>arr_slot := resize_slots (arr_slot arr) capa, arr_capa := capa\<rparr>, True, log)
              else (arr, False, log)
            else
              (let (arr, log2) = (if arr_capa arr > 0 then qse_arr_clear arr else (arr, []))
               in (arr\<lparr>arr_slot := [], arr_capa := 0\<rparr>, True, log @ log2))))"

definition qse_arr_init :: "bool \<Rightarrow> nat \<Rightarrow> qse_arr option" where
  "qse_arr_init mem_ok capa =
     (let arr = \<lparr>arr_copier = COPIER_SIMPLE, arr_comper_fn = default_comparator, arr_sizer = None, arr_scale = 1,
                 arr_heap_pos_offset = QSE_ARR_NIL, arr_size = 0, arr_capa = 0, arr_slot = []\<rparr>;
          (arr, ok, log) = qse_arr_setcapa mem_ok arr capa
      in if ok then Some arr else None)"

definition qse_arr_setscale :: "qse_arr \<Rightarrow> int \<Rightarrow> qse_arr" where
  "qse_arr_setscale arr scale =
     (let scale = (if scale \<le> 0 then 1 else scale);
          scale = (if scale > 255 then 255 else scale)
      in arr\<lparr>arr_scale := nat scale\<rparr>)"

text \<open>The setters take \<open>None\<close> for a null pointer.\<close>

definition qse_arr_setcopier :: "qse_arr \<Rightarrow> copier option \<Rightarrow> qse_arr" where
  "qse_arr_setcopier arr copier =
     arr\<lparr>arr_copier := (case copier of None \<Rightarrow> COPIER_SIMPLE | Some c \<Rightarrow> c)\<rparr>"

definition qse_arr_setcomper :: "qse_arr \<Rightarrow> (nat \<Rightarrow> qse_xptl \<Rightarrow> qse_xptl \<Rightarrow> int) option \<Rightarrow> qse_arr" where
  "qse_arr_setcomper arr comper =
     arr\<lparr>arr_comper_fn := (case comper of None \<Rightarrow> default_comparator | Some c \<Rightarrow> c)\<rparr>"

definition qse_arr_setsizer :: "qse_arr \<Rightarrow> (nat \<Rightarrow> nat) option \<Rightarrow> qse_arr" where
  "qse_arr_setsizer arr sizer = arr\<lparr>arr_sizer := sizer\<rparr>"

definition qse_arr_setheapposoffset :: "qse_arr \<Rightarrow> nat \<Rightarrow> qse_arr" where
  "qse_arr_setheapposoffset arr offset = arr\<lparr>arr_heap_pos_offset := offset\<rparr>"

section \<open>Searching\<close>

fun search_loop :: "qse_arr \<Rightarrow> qse_xptl \<Rightarrow> nat \<Rightarrow> nat \<Rightarrow> nat" where
  "search_loop arr d i 0 = QSE_ARR_NIL"
| "search_loop arr d i (Suc n) =
     (case arr_slot arr ! i of
        None \<Rightarrow> search_loop arr d (i + 1) n
      | Some c \<Rightarrow> if arr_comper arr c d = 0 then i else search_loop arr d (i + 1) n)"

definition qse_arr_search :: "qse_arr \<Rightarrow> nat \<Rightarrow> qse_xptl \<Rightarrow> nat" where
  "qse_arr_search arr pos d = search_loop arr d pos (arr_size arr - pos)"

fun rsearch_loop :: "qse_arr \<Rightarrow> qse_xptl \<Rightarrow> nat \<Rightarrow> nat" where
  "rsearch_loop arr d 0 = QSE_ARR_NIL"
| "rsearch_loop arr d (Suc i) =
     (case arr_slot arr ! i of
        None \<Rightarrow> rsearch_loop arr d i
      | Some c \<Rightarrow> if arr_comper arr c d = 0 then i else rsearch_loop arr d i)"

definition qse_arr_rsearch :: "qse_arr \<Rightarrow> nat \<Rightarrow> qse_xptl \<Rightarrow> nat" where
  "qse_arr_rsearch arr pos d =
     (if arr_size arr > 0 then
        (let pos = (if pos \<ge> arr_size arr then arr_size arr - 1 else pos) in rsearch_loop arr d (pos + 1))
      else QSE_ARR_NIL)"

section \<open>Insertion and update\<close>

text \<open>
  The loop \<open>do { capa = arr->capa * 2; } while (capa <= bound)\<close>, which computes the same
  value again in every round: \<open>None\<close> is the loop that does not end.
\<close>

partial_function (option) double_capa :: "nat \<Rightarrow> nat \<Rightarrow> nat option" where
  "double_capa cur bound = (let capa = cur * 2 in if capa \<le> bound then double_capa cur bound else Some capa)"

definition insert_capa :: "qse_arr \<Rightarrow> nat \<Rightarrow> nat \<Rightarrow> nat option" where
  "insert_capa arr pos mincapa =
     (case arr_sizer arr of
        Some f \<Rightarrow> Some (f mincapa)
      | None \<Rightarrow>
          if arr_capa arr \<le> 0 then Some (if pos < 16 then 16 else pos + 1)
          else (let bound = (if pos \<ge> arr_size arr then pos else arr_size arr)
                in double_capa (arr_capa arr) bound))"

function (sequential) grow_retry ::
  "(nat \<Rightarrow> bool) \<Rightarrow> qse_arr \<Rightarrow> nat \<Rightarrow> nat \<Rightarrow> qse_arr \<times> bool \<times> arr_call list" where
  "grow_retry mem_ok arr capa mincapa =
     (let (arr', ok, log) = qse_arr_setcapa (mem_ok capa) arr capa in
      if ok then (arr', True, log)
      else if capa \<le> mincapa then (arr', False, log)
      else (let (arr'', ok2, log2) = grow_retry mem_ok arr' (capa - 1) mincapa in (arr'', ok2, log @ log2)))"
  by pat_completeness auto
termination by (relation "measure (\<lambda>(f, a, capa, mincapa). capa)") auto

declare grow_retry.simps [simp del]

fun fill_null :: "qse_xptl option list \<Rightarrow> nat \<Rightarrow> nat \<Rightarrow> qse_xptl option list" where
  "fill_null sl i 0 = sl"
| "fill_null sl i (Suc n) = fill_null (sl[i := None]) (i + 1) n"

fun open_gap :: "qse_xptl option list \<Rightarrow> nat \<Rightarrow> nat \<Rightarrow> qse_xptl option list" where
  "open_gap sl i 0 = sl"
| "open_gap sl i (Suc n) = open_gap (sl[i := sl ! (i - 1)]) (i - 1) n"

definition insert_place :: "qse_arr \<Rightarrow> nat \<Rightarrow> qse_xptl \<Rightarrow> qse_arr" where
  "insert_place arr pos slot =
     (let sl = fill_null (arr_slot arr) (arr_size arr) (pos - arr_size arr);
          sl = open_gap sl (arr_size arr) (arr_size arr - pos);
          sl = sl[pos := Some slot]
      in arr\<lparr>arr_slot := sl, arr_size := (if pos > arr_size arr then pos + 1 else arr_size arr + 1)\<rparr>)"

definition qse_arr_insert ::
  "addr option \<Rightarrow> (nat \<Rightarrow> bool) \<Rightarrow> qse_arr \<Rightarrow> nat \<Rightarrow> qse_xptl \<Rightarrow> (qse_arr \<times> nat \<times> arr_call list) option" where
  "qse_arr_insert mm mem_ok arr pos d =
     (case alloc_slot mm arr d of
        None \<Rightarrow> Some (arr, QSE_ARR_NIL, [])
      | Some slot \<Rightarrow>
          (let full = (\<lambda>a. pos \<ge> arr_capa a \<or> arr_size a \<ge> arr_capa a);
               mincapa = (if pos \<ge> arr_size arr then pos + 1 else arr_size arr + 1);
               grown =
                 (if full arr then
                    map_option (\<lambda>capa. grow_retry mem_ok arr capa mincapa) (insert_capa arr pos mincapa)
                  else Some (arr, True, []))
           in map_option (\<lambda>(arr, ok, log).
                if \<not> ok then (arr, QSE_ARR_NIL, log @ [Released slot])
                else if full arr then (arr, QSE_ARR_NIL, log @ [Released slot])
                else (insert_place arr pos slot, pos, log)) grown))"

definition qse_arr_update ::
  "addr option \<Rightarrow> qse_arr \<Rightarrow> nat \<Rightarrow> qse_xptl \<Rightarrow> qse_arr \<times> nat \<times> arr_call list" where
  "qse_arr_update mm arr pos d =
     (if pos \<ge> arr_size arr then (arr, QSE_ARR_NIL, [])
      else case arr_slot arr ! pos of
        None \<Rightarrow>
          (case alloc_slot mm arr d of
             None \<Rightarrow> (arr\<lparr>arr_slot := (arr_slot arr)[pos := None]\<rparr>, QSE_ARR_NIL, [])
           | Some slot \<Rightarrow> (arr\<lparr>arr_slot := (arr_slot arr)[pos := Some slot]\<rparr>, pos, []))
      | Some c \<Rightarrow>
          if xp_ptr d = xp_ptr c \<and> xp_len d = xp_len c then (arr, pos, [Kept d])
          else
            (case alloc_slot mm arr d of
               None \<Rightarrow> (arr, QSE_ARR_NIL, [])
             | Some slot \<Rightarrow> (arr\<lparr>arr_slot := (arr_slot arr)[pos := Some slot]\<rparr>, pos, [Released c])))"

definition qse_arr_upsert ::
  "addr option \<Rightarrow> (nat \<Rightarrow> bool) \<Rightarrow> qse_arr \<Rightarrow> nat \<Rightarrow> qse_xptl \<Rightarrow> (qse_arr \<times> nat \<times> arr_call list) option" where
  "qse_arr_upsert mm mem_ok arr pos d =
     (if pos < arr_size arr then Some (qse_arr_update mm arr pos d) else qse_arr_insert mm mem_ok arr pos d)"

definition qse_arr_pushstack ::
  "addr option \<Rightarrow> (nat \<Rightarrow> bool) \<Rightarrow> qse_arr \<Rightarrow> qse_xptl \<Rightarrow> (qse_arr \<times> nat \<times> arr_call list) option" where
  "qse_arr_pushstack mm mem_ok arr d = qse_arr_insert mm mem_ok arr (arr_size arr) d"

definition qse_arr_popstack :: "qse_arr \<Rightarrow> qse_arr \<times> arr_call list" where
  "qse_arr_popstack arr = (let (a, n, log) = qse_arr_delete arr (arr_size arr - 1) 1 in (a, log))"

section \<open>Walking\<close>

datatype arr_walk = ARR_WALK_STOP | ARR_WALK_FORWARD | ARR_WALK_BACKWARD

text \<open>
  The walker is the client's: it is called with its own state and the index, and does not change the array. The loop ends or not
  as the walker directs it. The list in the result holds the indices the walker was called with.
\<close>

partial_function (option) walk_loop ::
  "('s \<Rightarrow> nat \<Rightarrow> 's \<times> arr_walk) \<Rightarrow> qse_arr \<Rightarrow> arr_walk \<Rightarrow> nat \<Rightarrow> 's \<Rightarrow> ('s \<times> nat list) option" where
  "walk_loop walker arr w i s =
     (let (s, w, vis) =
        (case arr_slot arr ! i of
           None \<Rightarrow> (s, w, [])
         | Some c \<Rightarrow> (let (s', w') = walker s i in (s', w', [i])))
      in if w = ARR_WALK_STOP then Some (s, vis)
         else if w = ARR_WALK_FORWARD then
           (if i + 1 \<ge> arr_size arr then Some (s, vis)
            else Option.bind (walk_loop walker arr w (i + 1) s) (\<lambda>(s, v). Some (s, vis @ v)))
         else
           (if i \<le> 0 then Some (s, vis)
            else Option.bind (walk_loop walker arr w (i - 1) s) (\<lambda>(s, v). Some (s, vis @ v))))"

definition qse_arr_walk ::
  "('s \<Rightarrow> nat \<Rightarrow> 's \<times> arr_walk) \<Rightarrow> qse_arr \<Rightarrow> 's \<Rightarrow> ('s \<times> nat list) option" where
  "qse_arr_walk walker arr ctx =
     (if arr_size arr \<le> 0 then Some (ctx, []) else walk_loop walker arr ARR_WALK_FORWARD 0 ctx)"

definition qse_arr_rwalk ::
  "('s \<Rightarrow> nat \<Rightarrow> 's \<times> arr_walk) \<Rightarrow> qse_arr \<Rightarrow> 's \<Rightarrow> ('s \<times> nat list) option" where
  "qse_arr_rwalk walker arr ctx =
     (if arr_size arr \<le> 0 then Some (ctx, [])
      else walk_loop walker arr ARR_WALK_BACKWARD (arr_size arr - 1) ctx)"

section \<open>The array as a heap\<close>

text \<open>
  \<open>HEAP_UPDATE_POS\<close> stores the index of an item inside the item, at the offset the client has set; the
  stores are returned as a log, empty when no offset is set.
\<close>

type_synonym pos_log = "qse_xptl option move list"

definition HEAP_UPDATE_POS :: "qse_arr \<Rightarrow> pos_log \<Rightarrow> pos_log" where
  "HEAP_UPDATE_POS arr log = (if arr_heap_pos_offset arr \<noteq> QSE_ARR_NIL then log else [])"

definition arr_items :: "qse_arr \<Rightarrow> qse_xptl option list" where
  "arr_items arr = take (arr_size arr) (arr_slot arr)"

definition set_items :: "qse_arr \<Rightarrow> qse_xptl option list \<Rightarrow> qse_arr" where
  "set_items arr xs = arr\<lparr>arr_slot := xs @ drop (arr_size arr) (arr_slot arr)\<rparr>"

definition slot_above :: "qse_arr \<Rightarrow> qse_xptl option \<Rightarrow> qse_xptl option \<Rightarrow> bool" where
  "slot_above arr x y \<longleftrightarrow> arr_comper arr (the x) (the y) > 0"

definition arr_sift_up :: "qse_arr \<Rightarrow> nat \<Rightarrow> qse_arr \<times> nat \<times> pos_log" where
  "arr_sift_up arr index =
     (let tmp = arr_items arr ! index;
          (xs, k, log) = up_loop (slot_above arr) (arr_items arr) index tmp
      in (set_items arr xs, k,
          HEAP_UPDATE_POS arr (log @ (if k \<noteq> index then [(index, k, tmp)] else []))))"

definition arr_sift_down :: "qse_arr \<Rightarrow> nat \<Rightarrow> qse_arr \<times> nat \<times> pos_log" where
  "arr_sift_down arr index =
     (let tmp = arr_items arr ! index;
          (xs, k, log) = down_loop (slot_above arr) (arr_items arr) index tmp
      in (set_items arr xs, k,
          HEAP_UPDATE_POS arr (log @ (if index < arr_size arr div 2 then [(index, k, tmp)] else []))))"

definition qse_arr_pushheap ::
  "addr option \<Rightarrow> (nat \<Rightarrow> bool) \<Rightarrow> qse_arr \<Rightarrow> qse_xptl \<Rightarrow>
   (qse_arr \<times> nat \<times> arr_call list \<times> pos_log) option" where
  "qse_arr_pushheap mm mem_ok arr d =
     (let index = arr_size arr in
      map_option (\<lambda>(a, r, log).
        if r = QSE_ARR_NIL then (a, QSE_ARR_NIL, log, [])
        else
          (let plog = HEAP_UPDATE_POS a [(index, index, arr_slot a ! index)];
               (a, k, plog2) = arr_sift_up a index
           in (a, arr_size a, log, plog @ plog2)))
        (qse_arr_insert mm mem_ok arr index d))"

definition qse_arr_deleteheap :: "qse_arr \<Rightarrow> nat \<Rightarrow> qse_arr \<times> arr_call list \<times> pos_log" where
  "qse_arr_deleteheap arr index =
     (let tmp = arr_slot arr ! index;
          size = arr_size arr - 1;
          (a, plog) =
            (if size > 0 \<and> index \<noteq> size then
               (let lst = arr_slot arr ! size;
                    a = arr\<lparr>arr_slot := (arr_slot arr)[index := lst], arr_size := size\<rparr>;
                    plog = HEAP_UPDATE_POS arr [(size, index, lst)];
                    n = arr_comper arr (the lst) (the tmp);
                    (a, k, plog2) =
                      (if n > 0 then arr_sift_up a index
                       else if n < 0 then arr_sift_down a index else (a, index, []))
                in (a, plog @ plog2))
             else (arr\<lparr>arr_size := size\<rparr>, []))
      in (a\<lparr>arr_slot := (arr_slot a)[size := None]\<rparr>, [Released (the tmp)], plog))"

definition qse_arr_popheap :: "qse_arr \<Rightarrow> qse_arr \<times> arr_call list \<times> pos_log" where
  "qse_arr_popheap arr = qse_arr_deleteheap arr 0"

definition qse_arr_updateheap ::
  "addr option \<Rightarrow> qse_arr \<Rightarrow> nat \<Rightarrow> qse_xptl \<Rightarrow> qse_arr \<times> nat \<times> arr_call list \<times> pos_log" where
  "qse_arr_updateheap mm arr index d =
     (let tmp = arr_slot arr ! index;
          n = arr_comper arr d (the tmp)
      in if n \<noteq> 0 then
           (let (a, r, log) = qse_arr_update mm arr index d in
            if r = QSE_ARR_NIL then (a, QSE_ARR_NIL, log, [])
            else
              (let plog = HEAP_UPDATE_POS a [(index, index, arr_slot a ! index)];
                   (a, k, plog2) = (if n > 0 then arr_sift_up a index else arr_sift_down a index)
               in (a, index, log, plog @ plog2)))
         else (arr, index, [], []))"

section \<open>The loops over the slots\<close>

definition arr_ok :: "qse_arr \<Rightarrow> bool" where
  "arr_ok arr \<longleftrightarrow> length (arr_slot arr) = arr_capa arr \<and> arr_size arr \<le> arr_capa arr"

fun released :: "qse_xptl option list \<Rightarrow> arr_call list" where
  "released [] = []"
| "released (None # xs) = released xs"
| "released (Some c # xs) = Released c # released xs"

lemma released_append [simp]: "released (xs @ ys) = released xs @ released ys"
  by (induction xs rule: released.induct) auto

lemma released_None [simp]: "released (replicate n None) = []"
  by (induction n) auto

text \<open>Each loop is a rearrangement of the prefix before, the range, and the rest.\<close>

lemma release_range_split:
  "n = length ys \<Longrightarrow> i = length xs \<Longrightarrow>
   release_range (xs @ ys @ zs) i n = (xs @ replicate n None @ zs, released ys)"
proof (induction ys arbitrary: xs i n)
  case (Cons y ys)
  have r: "release_range (xs @ None # ys @ zs) (Suc (length xs)) (length ys) =
      (xs @ None # replicate (length ys) None @ zs, released ys)"
    using Cons.IH [of "length ys" "Suc (length xs)" "xs @ [None]"] by simp
  then show ?case using Cons.prems by (cases y) (simp_all add: nth_append list_update_append)
qed simp

lemma close_gap_split:
  "length zs = n \<Longrightarrow> 0 < length ys \<Longrightarrow> i = length xs + length ys \<Longrightarrow> c = length ys \<Longrightarrow>
   \<exists>ws. length ws = length ys \<and> close_gap (xs @ ys @ zs @ us) i c n = xs @ zs @ ws @ us"
proof (induction n arbitrary: xs ys zs i)
  case (Suc n)
  then obtain z zs' y ys' where zs: "zs = z # zs'" and ys: "ys = y # ys'"
    by (metis length_Suc_conv length_greater_0_conv neq_Nil_conv)
  have u: "(xs @ ys @ zs @ us)[i - c := (xs @ ys @ zs @ us) ! i] = (xs @ [z]) @ (ys' @ [z]) @ zs' @ us"
    using Suc.prems by (simp add: zs ys nth_append list_update_append)
  obtain ws where "length ws = length (ys' @ [z])"
    "close_gap ((xs @ [z]) @ (ys' @ [z]) @ zs' @ us) (i + 1) c n = (xs @ [z]) @ zs' @ ws @ us"
    using Suc.IH [of zs' "ys' @ [z]" "i + 1" "xs @ [z]"] Suc.prems by (auto simp: zs ys)
  then show ?case using u by (intro exI [of _ ws]) (simp add: zs ys)
qed auto

lemma fill_null_split:
  "n = length ys \<Longrightarrow> i = length xs \<Longrightarrow> fill_null (xs @ ys @ zs) i n = xs @ replicate n None @ zs"
proof (induction ys arbitrary: xs i n)
  case (Cons y ys)
  then show ?case
    using Cons.IH [of "length ys" "Suc (length xs)" "xs @ [None]"]
    by (simp add: list_update_append)
qed simp

lemma open_gap_split:
  "n = length ys \<Longrightarrow> i = length xs + length ys \<Longrightarrow>
   open_gap (xs @ ys @ z # zs) i n = xs @ hd (ys @ [z]) # ys @ zs"
proof (induction ys arbitrary: i n z zs rule: rev_induct)
  case (snoc y ys)
  have "(xs @ (ys @ [y]) @ z # zs)[i := (xs @ (ys @ [y]) @ z # zs) ! (i - 1)] = xs @ ys @ y # y # zs"
    using snoc.prems by (simp add: nth_append list_update_append)
  then show ?case
    using snoc.IH [of "length ys" "i - 1" y "y # zs"] snoc.prems by (cases ys) simp_all
qed simp

text \<open>An array whose items are \<open>xs\<close>, seen as a prefix, a range and a suffix of its slots.\<close>

lemma arr_split:
  assumes "arr_ok arr" "i + n \<le> arr_size arr"
  obtains xs ys zs us where "arr_slot arr = xs @ ys @ zs @ us" "length xs = i" "length ys = n"
    "length zs = arr_size arr - (i + n)" "length us = arr_capa arr - arr_size arr"
    "arr_items arr = xs @ ys @ zs"
proof -
  let ?s = "arr_slot arr"
  define xs where "xs = take i ?s"
  define ys where "ys = take n (drop i ?s)"
  define zs where "zs = take (arr_size arr - (i + n)) (drop (i + n) ?s)"
  define us where "us = drop (arr_size arr) ?s"
  have l: "length ?s = arr_capa arr" "arr_size arr \<le> arr_capa arr" using assms(1) by (auto simp: arr_ok_def)
  have "take (arr_size arr) ?s = take (i + n + (arr_size arr - (i + n))) ?s" using assms(2) by simp
  also have "\<dots> = take (i + n) ?s @ zs" by (simp only: take_add zs_def)
  also have "take (i + n) ?s = xs @ ys" by (simp add: take_add xs_def ys_def)
  finally have it: "take (arr_size arr) ?s = xs @ ys @ zs" by simp
  then have "?s = xs @ ys @ zs @ us" by (metis append.assoc append_take_drop_id us_def)
  then show ?thesis
    using l assms(2) it that by (auto simp: xs_def ys_def zs_def us_def arr_items_def)
qed

lemma arr_items_update [simp]:
  "arr_items (arr\<lparr>arr_slot := sl\<rparr>) = take (arr_size arr) sl"
  "arr_items (arr\<lparr>arr_slot := sl, arr_size := n\<rparr>) = take n sl"
  by (simp_all add: arr_items_def)

lemma length_arr_items: "arr_ok arr \<Longrightarrow> length (arr_items arr) = arr_size arr"
  by (auto simp: arr_ok_def arr_items_def)

lemma qse_arr_delete_items:
  assumes "arr_ok arr" "index < arr_size arr" "0 < cnt"
    and "qse_arr_delete arr index cnt = (arr', n, log)"
  shows "arr_ok arr'" "n = min cnt (arr_size arr - index)"
    and "arr_items arr' = take index (arr_items arr) @ drop (index + n) (arr_items arr)"
    and "log = released (take n (drop index (arr_items arr)))" "arr_capa arr' = arr_capa arr"
proof -
  define c where "c = min cnt (arr_size arr - index)"
  have c: "(if cnt > arr_size arr - index then arr_size arr - index else cnt) = c" "0 < c" "index + c \<le> arr_size arr"
    using assms(2,3) by (auto simp: c_def)
  obtain xs ys zs us where s: "arr_slot arr = xs @ ys @ zs @ us" "length xs = index" "length ys = c"
    "length zs = arr_size arr - (index + c)" "length us = arr_capa arr - arr_size arr"
    "arr_items arr = xs @ ys @ zs"
    by (rule arr_split [OF assms(1) c(3)])
  have r: "release_range (arr_slot arr) index c = (xs @ replicate c None @ zs @ us, released ys)"
    using release_range_split [of c ys index xs "zs @ us"] s by simp
  obtain ws where w: "length ws = c"
    "close_gap (xs @ replicate c None @ zs @ us) (index + c) c (arr_size arr - (index + c)) = xs @ zs @ ws @ us"
    using close_gap_split [OF s(4), of "replicate c None" "index + c" xs c us] c(2) s(2)
    by (metis length_replicate)
  have n: "n = c" and l: "log = released ys"
    and a: "arr' = arr\<lparr>arr_slot := (xs @ zs @ ws @ us)[arr_size arr - 1 := None], arr_size := arr_size arr - c\<rparr>"
    using assms(2,4) by (auto simp: qse_arr_delete_def Let_def c(1) r w(2))
  have t: "take (arr_size arr - c) ((xs @ zs @ ws @ us)[arr_size arr - 1 := None]) = xs @ zs"
    using s(2,4) c(2,3) by (simp add: take_update_swap list_update_beyond)
  show "arr_items arr' = take index (arr_items arr) @ drop (index + n) (arr_items arr)"
    using t s(2,3,6) n by (simp add: a)
  show "n = min cnt (arr_size arr - index)" using n by (simp add: c_def)
  show "log = released (take n (drop index (arr_items arr)))" using s n l by simp
  show "arr_ok arr'" "arr_capa arr' = arr_capa arr"
    using assms(1) s w(1) c by (auto simp: a arr_ok_def)
qed

text \<open>With a count of zero nothing is released, but the last slot is overwritten.\<close>

lemma qse_arr_delete_none:
  assumes "arr_ok arr" "index < arr_size arr"
  shows "qse_arr_delete arr index 0 = (arr\<lparr>arr_slot := (arr_slot arr)[arr_size arr - 1 := None]\<rparr>, 0, [])"
proof -
  have g: "close_gap sl i 0 n = sl" for sl i n by (induction n arbitrary: i sl) auto
  show ?thesis using assms by (simp add: qse_arr_delete_def g)
qed


lemma qse_arr_uplete_items:
  assumes "arr_ok arr" "index < arr_size arr" "qse_arr_uplete arr index cnt = (arr', n, log)"
  shows "arr_ok arr'" "n = min cnt (arr_size arr - index)"
    and "arr_items arr' = take index (arr_items arr) @ replicate n None @ drop (index + n) (arr_items arr)"
    and "log = released (take n (drop index (arr_items arr)))"
proof -
  define c where "c = min cnt (arr_size arr - index)"
  have c: "(if cnt > arr_size arr - index then arr_size arr - index else cnt) = c" "index + c \<le> arr_size arr"
    using assms(2) by (auto simp: c_def)
  obtain xs ys zs us where s: "arr_slot arr = xs @ ys @ zs @ us" "length xs = index" "length ys = c"
    "length zs = arr_size arr - (index + c)" "length us = arr_capa arr - arr_size arr"
    "arr_items arr = xs @ ys @ zs"
    by (rule arr_split [OF assms(1) c(2)])
  have "release_range (arr_slot arr) index c = (xs @ replicate c None @ zs @ us, released ys)"
    using release_range_split [of c ys index xs "zs @ us"] s by simp
  then have a: "n = c" "log = released ys" "arr' = arr\<lparr>arr_slot := xs @ replicate c None @ zs @ us\<rparr>"
    using assms(2,3) by (auto simp: qse_arr_uplete_def Let_def c(1))
  have t: "take (arr_size arr) (xs @ replicate c None @ zs @ us) = xs @ replicate c None @ zs"
    using s c by simp
  show "arr_items arr' = take index (arr_items arr) @ replicate n None @ drop (index + n) (arr_items arr)"
    using t s(2,3,6) a by simp
  show "n = min cnt (arr_size arr - index)" using a by (simp add: c_def)
  show "log = released (take n (drop index (arr_items arr)))" "arr_ok arr'"
    using assms(1) s a c by (auto simp: arr_ok_def)
qed

lemma qse_arr_clear_items:
  assumes "arr_ok arr" "qse_arr_clear arr = (arr', log)"
  shows "arr_ok arr'" "arr_items arr' = []" "arr_size arr' = 0" "log = released (arr_items arr)"
    "arr_capa arr' = arr_capa arr"
proof -
  have le: "0 + arr_size arr \<le> arr_size arr" by simp
  obtain xs ys zs us where s: "arr_slot arr = xs @ ys @ zs @ us" "length xs = 0" "length ys = arr_size arr"
    "length zs = arr_size arr - (0 + arr_size arr)" "length us = arr_capa arr - arr_size arr"
    "arr_items arr = xs @ ys @ zs"
    by (rule arr_split [OF assms(1) le])
  have "release_range (arr_slot arr) 0 (arr_size arr) = (replicate (arr_size arr) None @ us, released ys)"
    using release_range_split [of "arr_size arr" ys 0 "[]" us] s by simp
  then have a: "log = released ys" "arr' = arr\<lparr>arr_slot := replicate (arr_size arr) None @ us, arr_size := 0\<rparr>"
    using assms(2) by (auto simp: qse_arr_clear_def)
  show "arr_ok arr'" "arr_items arr' = []" "arr_size arr' = 0" "log = released (arr_items arr)"
    "arr_capa arr' = arr_capa arr"
    using assms(1) s a by (auto simp: arr_ok_def arr_items_def)
qed

section \<open>Growing and inserting\<close>

lemma setcapa_grow:
  assumes "arr_ok arr" "arr_size arr \<le> capa" "0 < capa" "qse_arr_setcapa ok arr capa = (arr', r, log)"
  shows "arr_ok arr'" "arr_items arr' = arr_items arr" "arr_size arr' = arr_size arr" "log = []"
    and "r \<longleftrightarrow> ok \<or> capa = arr_capa arr" "arr_capa arr' = (if r then capa else arr_capa arr)"
    and "\<not> r \<Longrightarrow> arr' = arr" "arr_sizer arr' = arr_sizer arr" "arr_comper arr' = arr_comper arr"
    "arr_heap_pos_offset arr' = arr_heap_pos_offset arr"
  using assms
  by (auto simp: qse_arr_setcapa_def arr_ok_def arr_items_def resize_slots_def split: if_splits)

lemma grow_retry_spec:
  assumes "arr_ok arr" "arr_size arr \<le> mincapa" "0 < mincapa" "mincapa \<le> capa"
    and "grow_retry f arr capa mincapa = (arr', r, log)"
  shows "arr_ok arr' \<and> arr_items arr' = arr_items arr \<and> arr_size arr' = arr_size arr \<and> log = [] \<and>
    (r \<longrightarrow> mincapa \<le> arr_capa arr' \<and> (f (arr_capa arr') \<or> arr_capa arr' = arr_capa arr)) \<and>
    (\<not> r \<longrightarrow> arr' = arr) \<and> (f mincapa \<longrightarrow> r) \<and>
    arr_comper arr' = arr_comper arr \<and> arr_heap_pos_offset arr' = arr_heap_pos_offset arr"
  using assms(4,5)
proof (induction capa arbitrary: log rule: less_induct)
  case (less capa)
  obtain a1 r1 l1 where s: "qse_arr_setcapa (f capa) arr capa = (a1, r1, l1)" by (metis prod_cases3)
  have "arr_size arr \<le> capa" "0 < capa" using assms(2,3) less.prems(1) by auto
  note sc = setcapa_grow [OF assms(1) this s]
  show ?case
  proof (cases "r1")
    case True
    then show ?thesis
      using less.prems sc s by (auto simp: grow_retry.simps [of f arr capa])
  next
    case False
    show ?thesis
    proof (cases "capa \<le> mincapa")
      case True
      then show ?thesis
        using less.prems(1) sc(4,5) sc(7) [OF False] False assms(1) grow_retry.simps [of f arr capa mincapa] less.prems(2) s
        by simp
    next
      case gt: False
      obtain a2 r2 l2 where g: "grow_retry f arr (capa - 1) mincapa = (a2, r2, l2)" by (metis prod_cases3)
      have "a1 = arr" using sc False by blast
      then have e: "arr' = a2" "r = r2" "log = l1 @ l2"
        using less.prems(2) s False gt g by (auto simp: grow_retry.simps [of f arr capa])
      have "capa - 1 < capa" "mincapa \<le> capa - 1" using gt by auto
      from less.IH [OF this(1) this(2)] g e sc(4) show ?thesis by auto
    qed
  qed
qed

lemma double_capa_return: "double_capa cur bound = Some c \<Longrightarrow> c = cur * 2 \<and> bound < cur * 2"
proof -
  assume a: "double_capa cur bound = Some c"
  show ?thesis by (rule double_capa.raw_induct [OF _ a]) (force simp: Let_def split: if_splits)
qed

lemma double_capa_iff: "double_capa cur bound = (if bound < cur * 2 then Some (cur * 2) else None)"
proof (cases "bound < cur * 2")
  case True
  then show ?thesis by (simp add: double_capa.simps [of cur bound])
next
  case False
  then show ?thesis using double_capa_return [of cur bound] by (cases "double_capa cur bound") auto
qed

lemma insert_place_items:
  assumes "arr_ok arr" "pos < arr_capa arr" "arr_size arr < arr_capa arr"
  shows "arr_ok (insert_place arr pos slot)"
    and "arr_items (insert_place arr pos slot) =
      (if pos \<le> arr_size arr then take pos (arr_items arr) @ Some slot # drop pos (arr_items arr)
       else arr_items arr @ replicate (pos - arr_size arr) None @ [Some slot])"
proof -
  have l: "length (arr_slot arr) = arr_capa arr" using assms(1) by (simp add: arr_ok_def)
  have "arr_ok (insert_place arr pos slot) \<and> arr_items (insert_place arr pos slot) =
      (if pos \<le> arr_size arr then take pos (arr_items arr) @ Some slot # drop pos (arr_items arr)
       else arr_items arr @ replicate (pos - arr_size arr) None @ [Some slot])"
  proof (cases "pos \<le> arr_size arr")
    case True
    then have le: "pos + (arr_size arr - pos) \<le> arr_size arr" by simp
    obtain xs ys zs us where s: "arr_slot arr = xs @ ys @ zs @ us" "length xs = pos"
      "length ys = arr_size arr - pos" "length zs = arr_size arr - (pos + (arr_size arr - pos))"
      "length us = arr_capa arr - arr_size arr" "arr_items arr = xs @ ys @ zs"
      by (rule arr_split [OF assms(1) le])
    then have zs: "zs = []" by simp
    obtain u us' where u: "us = u # us'" using s(5) assms(3) by (cases us) auto
    have "open_gap (arr_slot arr) (arr_size arr) (arr_size arr - pos) = xs @ hd (ys @ [u]) # ys @ us'"
      unfolding s(1) zs u using s(2,3) True by (simp add: open_gap_split)
    then have "insert_place arr pos slot =
        arr\<lparr>arr_slot := xs @ Some slot # ys @ us', arr_size := arr_size arr + 1\<rparr>"
      using True s(2) by (simp add: insert_place_def list_update_append)
    moreover have "take (arr_size arr + 1) (xs @ Some slot # ys @ us') = xs @ Some slot # ys"
      using True s(2,3) by (simp add: Suc_diff_le)
    moreover have "length (xs @ Some slot # ys @ us') = arr_capa arr" using True s(2,3,5) u assms by simp
    ultimately show ?thesis using True s(2,6) zs assms by (simp add: arr_ok_def)
  next
    case False
    define xs ys zs where "xs = arr_items arr" and "ys = take (pos - arr_size arr) (drop (arr_size arr) (arr_slot arr))"
      and "zs = drop pos (arr_slot arr)"
    have "arr_slot arr = xs @ drop (arr_size arr) (arr_slot arr)" by (simp add: xs_def arr_items_def)
    also have "drop (arr_size arr) (arr_slot arr) = ys @ zs"
      using False by (simp add: ys_def zs_def) (metis append_take_drop_id drop_drop le_add_diff_inverse2 nat_le_linear)
    finally have s: "arr_slot arr = xs @ ys @ zs" .
    have len: "length xs = arr_size arr" "length ys = pos - arr_size arr"
      using assms l False by (auto simp: xs_def ys_def arr_items_def)
    obtain z zs' where z: "zs = z # zs'" using l assms(2) by (cases zs) (auto simp: zs_def)
    have "fill_null (arr_slot arr) (arr_size arr) (pos - arr_size arr) = xs @ replicate (pos - arr_size arr) None @ zs"
      unfolding s using len by (simp add: fill_null_split)
    then have "insert_place arr pos slot =
        arr\<lparr>arr_slot := xs @ replicate (pos - arr_size arr) None @ Some slot # zs', arr_size := pos + 1\<rparr>"
      using False len z by (simp add: insert_place_def list_update_append)
    moreover have "length (xs @ replicate (pos - arr_size arr) None @ Some slot # zs') = arr_capa arr"
      using l s len z by simp
    moreover have "take (pos + 1) (xs @ replicate (pos - arr_size arr) None @ Some slot # zs') =
        xs @ replicate (pos - arr_size arr) None @ [Some slot]" using False len by simp
    ultimately show ?thesis using False assms(2) by (simp add: arr_ok_def xs_def)
  qed
  then show "arr_ok (insert_place arr pos slot)"
    and "arr_items (insert_place arr pos slot) =
      (if pos \<le> arr_size arr then take pos (arr_items arr) @ Some slot # drop pos (arr_items arr)
       else arr_items arr @ replicate (pos - arr_size arr) None @ [Some slot])" by auto
qed


section \<open>Searching and walking\<close>

definition slot_match :: "qse_arr \<Rightarrow> qse_xptl \<Rightarrow> nat \<Rightarrow> bool" where
  "slot_match arr d j \<longleftrightarrow> (\<exists>c. arr_slot arr ! j = Some c \<and> arr_comper arr c d = 0)"

lemma search_loop_step:
  "search_loop arr d i (Suc n) = (if slot_match arr d i then i else search_loop arr d (i + 1) n)"
  "rsearch_loop arr d (Suc n) = (if slot_match arr d n then n else rsearch_loop arr d n)"
  by (auto simp: slot_match_def split: option.splits)

declare search_loop.simps(2) [simp del] rsearch_loop.simps(2) [simp del]

lemma search_loop_spec:
  "(i \<le> search_loop arr d i n \<and> search_loop arr d i n < i + n \<and> slot_match arr d (search_loop arr d i n) \<and>
      (\<forall>j. i \<le> j \<and> j < search_loop arr d i n \<longrightarrow> \<not> slot_match arr d j)) \<or>
   (search_loop arr d i n = QSE_ARR_NIL \<and> (\<forall>j. i \<le> j \<and> j < i + n \<longrightarrow> \<not> slot_match arr d j))"
proof (induction n arbitrary: i)
  case (Suc n)
  show ?case
  proof (cases "slot_match arr d i")
    case False
    have "j = i \<or> i + 1 \<le> j" if "i \<le> j" for j using that by auto
    then show ?thesis using Suc.IH [of "i + 1"] False unfolding search_loop_step by auto
  qed (auto simp: search_loop_step)
qed auto

lemma rsearch_loop_spec:
  "(rsearch_loop arr d n < n \<and> slot_match arr d (rsearch_loop arr d n) \<and>
      (\<forall>j. rsearch_loop arr d n < j \<and> j < n \<longrightarrow> \<not> slot_match arr d j)) \<or>
   (rsearch_loop arr d n = QSE_ARR_NIL \<and> (\<forall>j < n. \<not> slot_match arr d j))"
  by (induction n) (auto simp: search_loop_step less_Suc_eq)

definition filled_from :: "qse_arr \<Rightarrow> nat \<Rightarrow> nat list" where
  "filled_from arr i = filter (\<lambda>j. arr_slot arr ! j \<noteq> None) [i..<arr_size arr]"

lemma walk_loop_forward:
  assumes "\<And>s i. snd (walker s i) = ARR_WALK_FORWARD" "i < arr_size arr"
  shows "walk_loop walker arr ARR_WALK_FORWARD i s =
    Some (fold (\<lambda>j s. fst (walker s j)) (filled_from arr i) s, filled_from arr i)"
  using assms(2)
proof (induction "arr_size arr - i" arbitrary: i s rule: less_induct)
  case less
  have f: "filled_from arr i = (if arr_slot arr ! i \<noteq> None then [i] else []) @ filled_from arr (i + 1)"
    using less.prems by (simp add: filled_from_def upt_conv_Cons)
  have w: "walker s i = (fst (walker s i), ARR_WALK_FORWARD)" for s
    using assms(1) by (metis prod.collapse)
  show ?case
  proof (cases "i + 1 < arr_size arr")
    case True
    have ih: "walk_loop walker arr ARR_WALK_FORWARD (i + 1) s =
      Some (fold (\<lambda>j s. fst (walker s j)) (filled_from arr (i + 1)) s, filled_from arr (i + 1))" for s
      using True less.prems by (intro less.hyps) auto
    show ?thesis
      using True ih w [of s] by (auto simp: walk_loop.simps [of walker arr _ i s] f split: option.splits prod.splits)
  next
    case False
    then have "filled_from arr (i + 1) = []" by (simp add: filled_from_def)
    then show ?thesis
      using False w [of s] by (auto simp: walk_loop.simps [of walker arr _ i s] f split: option.splits prod.splits)
  qed
qed

section \<open>Heap operations\<close>

lemma set_items_simps [simp]:
  assumes "length xs = arr_size arr"
  shows "arr_items (set_items arr xs) = xs"
  using assms by (simp add: set_items_def)

lemma set_items_fields [simp]:
  "arr_size (set_items arr xs) = arr_size arr" "arr_comper (set_items arr xs) = arr_comper arr"
  "arr_capa (set_items arr xs) = arr_capa arr"
  by (simp_all add: set_items_def)

lemma set_items_ok: "arr_ok arr \<Longrightarrow> length xs = arr_size arr \<Longrightarrow> arr_ok (set_items arr xs)"
  by (auto simp: arr_ok_def set_items_def)

definition arr_heap :: "qse_arr \<Rightarrow> bool" where
  "arr_heap arr \<longleftrightarrow> heap_on (slot_above arr) (arr_items arr)"

lemma slot_above_cong: "arr_comper a = arr_comper b \<Longrightarrow> slot_above a = slot_above b"
  by (simp add: slot_above_def fun_eq_iff)

lemma arr_sift_frame:
  assumes "arr_ok arr" "i < arr_size arr"
    and "arr_sift_up arr i = (arr', k, log) \<or> arr_sift_down arr i = (arr', k, log)"
  shows "arr_ok arr'" "mset (arr_items arr') = mset (arr_items arr)" "arr_size arr' = arr_size arr"
    "arr_comper arr' = arr_comper arr" "arr_capa arr' = arr_capa arr"
proof -
  let ?x = "arr_items arr ! i"
  have l: "length (arr_items arr) = arr_size arr" using assms(1) by (rule length_arr_items)
  obtain xs log' where loop: "up_loop (slot_above arr) (arr_items arr) i ?x = (xs, k, log') \<or>
      down_loop (slot_above arr) (arr_items arr) i ?x = (xs, k, log')" and a: "arr' = set_items arr xs"
    using assms(3) by (auto simp: arr_sift_up_def arr_sift_down_def Let_def split: prod.splits)
  have m: "mset xs = mset (arr_items arr)"
    using loop up_loop_mset [of i "arr_items arr" _ ?x] down_loop_mset [of i "arr_items arr" _ ?x] assms(2) l by auto
  then have "length xs = arr_size arr" using l mset_eq_length by metis
  then show "arr_ok arr'" "mset (arr_items arr') = mset (arr_items arr)" "arr_size arr' = arr_size arr"
    "arr_comper arr' = arr_comper arr" "arr_capa arr' = arr_capa arr"
    using a m set_items_ok [OF assms(1)] by auto
qed

lemma arr_sift_items:
  assumes "arr_ok arr" "i < arr_size arr"
  shows "arr_sift_up arr i = (arr', k, log) \<Longrightarrow>
      \<exists>l. up_loop (slot_above arr) (arr_items arr) i (arr_items arr ! i) = (arr_items arr', k, l)"
    and "arr_sift_down arr i = (arr', k, log) \<Longrightarrow>
      \<exists>l. down_loop (slot_above arr) (arr_items arr) i (arr_items arr ! i) = (arr_items arr', k, l)"
  using length_arr_items [OF assms(1)]
  by (auto simp: arr_sift_up_def arr_sift_down_def Let_def up_loop_length down_loop_length split: prod.splits)

section \<open>Insertion as a whole\<close>

definition arr_inserted :: "qse_xptl option list \<Rightarrow> nat \<Rightarrow> qse_xptl \<Rightarrow> qse_xptl option list" where
  "arr_inserted xs pos slot =
     (if pos \<le> length xs then take pos xs @ Some slot # drop pos xs
      else xs @ replicate (pos - length xs) None @ [Some slot])"

abbreviation arr_mincapa :: "qse_arr \<Rightarrow> nat \<Rightarrow> nat" where
  "arr_mincapa arr pos \<equiv> (if pos \<ge> arr_size arr then pos + 1 else arr_size arr + 1)"

lemma insert_capa_enough:
  assumes "arr_ok arr" "arr_sizer arr = None" "arr_capa arr = 0 \<or> pos < 2 * arr_capa arr"
  shows "\<exists>c. insert_capa arr pos m = Some c \<and> arr_mincapa arr pos \<le> c"
  using assms by (auto simp: insert_capa_def double_capa_iff arr_ok_def)

lemma insert_place_fields [simp]:
  "arr_comper (insert_place arr pos s) = arr_comper arr"
  "arr_heap_pos_offset (insert_place arr pos s) = arr_heap_pos_offset arr"
  by (simp_all add: insert_place_def Let_def)

lemma insert_fits:
  assumes "arr_ok arr" "pos < arr_capa arr" "arr_size arr < arr_capa arr"
  shows "arr_ok (insert_place arr pos slot) \<and>
    arr_items (insert_place arr pos slot) = arr_inserted (arr_items arr) pos slot"
  using insert_place_items [OF assms] length_arr_items [OF assms(1)] by (simp add: arr_inserted_def)

lemma qse_arr_insert_cases:
  assumes ok: "arr_ok arr" and "arr_sizer arr = None" "arr_capa arr = 0 \<or> pos < 2 * arr_capa arr"
    and s: "alloc_slot mm arr d = Some slot"
  shows "(\<exists>arr'. qse_arr_insert mm mem_ok arr pos d = Some (arr', pos, []) \<and> arr_ok arr' \<and>
        arr_items arr' = arr_inserted (arr_items arr) pos slot \<and> arr_comper arr' = arr_comper arr) \<or>
    (qse_arr_insert mm mem_ok arr pos d = Some (arr, QSE_ARR_NIL, [Released slot]) \<and>
      \<not> mem_ok (arr_mincapa arr pos) \<and> (pos \<ge> arr_capa arr \<or> arr_size arr \<ge> arr_capa arr))"
proof (cases "pos \<ge> arr_capa arr \<or> arr_size arr \<ge> arr_capa arr")
  case False
  then show ?thesis
    using insert_fits [OF ok] s by (simp add: qse_arr_insert_def not_le)
next
  case True
  let ?m = "arr_mincapa arr pos"
  obtain c where c: "insert_capa arr pos ?m = Some c" "?m \<le> c"
    using insert_capa_enough [OF assms(1-3)] by blast
  obtain a r log where g: "grow_retry mem_ok arr c ?m = (a, r, log)" by (metis prod_cases3)
  have m: "arr_size arr \<le> ?m" "0 < ?m" by auto
  note gs = grow_retry_spec [OF ok m c(2) g]
  have e: "qse_arr_insert mm mem_ok arr pos d =
      Some (if \<not> r then (a, QSE_ARR_NIL, log @ [Released slot])
            else if pos \<ge> arr_capa a \<or> arr_size a \<ge> arr_capa a then (a, QSE_ARR_NIL, log @ [Released slot])
            else (insert_place a pos slot, pos, log))"
    using True c(1) g s by (simp add: qse_arr_insert_def Let_def)
  show ?thesis
  proof (cases r)
    case rt: True
    then have "pos < arr_capa a" "arr_size a < arr_capa a" using gs by (auto split: if_splits)
    then show ?thesis using e rt gs insert_fits [of a pos slot] by auto
  next
    case False
    then show ?thesis using e gs True by auto
  qed
qed

lemma arr_inserted_end: "arr_inserted xs (length xs) slot = xs @ [Some slot]"
  by (simp add: arr_inserted_def)

section \<open>The heap operations\<close>

lemma arr_heap_cong: "arr_items a = arr_items b \<Longrightarrow> arr_comper a = arr_comper b \<Longrightarrow> arr_heap a = arr_heap b"
  using slot_above_cong [of a b] by (simp add: arr_heap_def)

lemma slot_above_update [simp]:
  "slot_above (arr\<lparr>arr_slot := sl\<rparr>) = slot_above arr" "slot_above (arr\<lparr>arr_size := n\<rparr>) = slot_above arr"
  by (simp_all add: slot_above_def fun_eq_iff)

lemma arr_ok_items_nth: "arr_ok arr \<Longrightarrow> i < arr_size arr \<Longrightarrow> arr_items arr ! i = arr_slot arr ! i"
  by (simp add: arr_items_def)

text \<open>A heap of acceptable items, with no null slot.\<close>

definition heap_good :: "(qse_xptl \<Rightarrow> bool) \<Rightarrow> qse_arr \<Rightarrow> bool" where
  "heap_good ok arr \<longleftrightarrow> arr_ok arr \<and> arr_heap arr \<and> (\<forall>x \<in> set (arr_items arr). x \<noteq> None \<and> ok (the x))"

locale arr_heap_order = comper_order cmp ok
  for cmp :: "qse_xptl \<Rightarrow> qse_xptl \<Rightarrow> int" and ok :: "qse_xptl \<Rightarrow> bool"
begin

lemma above_cmp: "arr_comper arr = cmp \<Longrightarrow> slot_above arr = (\<lambda>x y. 0 < cmp (the x) (the y))"
  by (simp add: slot_above_def fun_eq_iff)

lemma sift_good:
  assumes "arr_ok arr" "i < arr_size arr" "arr_comper arr = cmp"
    and "arr_sift_up arr i = (arr', k, log) \<or> arr_sift_down arr i = (arr', k, log)"
    and "\<forall>x \<in> set (arr_items arr). x \<noteq> None \<and> ok (the x)"
    and "heap_on (\<lambda>x y. 0 < cmp (the x) (the y)) (arr_items arr')"
  shows "heap_good ok arr'"
proof -
  note f = arr_sift_frame [OF assms(1,2,4)]
  have "set (arr_items arr') = set (arr_items arr)" using f(2) by (metis set_mset_mset)
  then show ?thesis using f assms(3,5,6) above_cmp [of arr'] by (simp add: heap_good_def arr_heap_def)
qed

lemma push_good:
  assumes g: "heap_good ok arr" "arr_comper arr = cmp" and ins: "arr_ok a" "arr_comper a = cmp" "arr_items a = arr_items arr @ [Some slot]"
    and slot: "ok slot" and up: "arr_sift_up a (arr_size arr) = (arr', k, log)"
  shows "heap_good ok arr'" "arr_comper arr' = cmp"
    "mset (arr_items arr') = add_mset (Some slot) (mset (arr_items arr))" "arr_size arr' = arr_size arr + 1"
proof -
  have l: "length (arr_items arr) = arr_size arr" "arr_size a = arr_size arr + 1"
    using g ins length_arr_items [of a] length_arr_items [of arr] by (auto simp: heap_good_def)
  then have lt: "arr_size arr < arr_size a" by simp
  obtain log' where "up_loop (slot_above a) (arr_items arr @ [Some slot]) (length (arr_items arr)) (Some slot) =
      (arr_items arr', k, log')"
    using arr_sift_items(1) [OF ins(1) lt up] ins(3) l by (auto simp: nth_append)
  then have "heap_on (\<lambda>x y. 0 < cmp (the x) (the y)) (arr_items arr')"
    using g slot slots.heap_push [of "arr_items arr" "Some slot"] above_cmp [of a] above_cmp [of arr] ins(2)
    by (auto simp: heap_good_def arr_heap_def)
  then show "heap_good ok arr'"
    using g ins slot by (intro sift_good [OF ins(1) lt ins(2) disjI1 [OF up]]) (auto simp: heap_good_def)
  show "arr_comper arr' = cmp" "mset (arr_items arr') = add_mset (Some slot) (mset (arr_items arr))" "arr_size arr' = arr_size arr + 1"
    using arr_sift_frame [OF ins(1) lt disjI1 [OF up]] ins l by auto
qed

lemma pushheap:
  assumes g: "heap_good ok arr" "arr_comper arr = cmp" "arr_sizer arr = None" and slot: "alloc_slot mm arr d = Some slot" "ok slot"
    and sz: "arr_size arr < QSE_ARR_NIL" and mem: "mem_ok (arr_size arr + 1)"
  shows "\<exists>arr' plog. qse_arr_pushheap mm mem_ok arr d = Some (arr', arr_size arr + 1, [], plog) \<and>
    heap_good ok arr' \<and> arr_comper arr' = cmp \<and> mset (arr_items arr') = add_mset (Some slot) (mset (arr_items arr))"
proof -
  have ok: "arr_ok arr" using g(1) by (simp add: heap_good_def)
  have "arr_capa arr = 0 \<or> arr_size arr < 2 * arr_capa arr" using ok by (auto simp: arr_ok_def)
  from qse_arr_insert_cases [OF ok g(3) this slot(1), of mem_ok] mem
  obtain a where i: "qse_arr_insert mm mem_ok arr (arr_size arr) d = Some (a, arr_size arr, [])" "arr_ok a"
    "arr_items a = arr_inserted (arr_items arr) (arr_size arr) slot" "arr_comper a = arr_comper arr" by auto
  then have it: "arr_items a = arr_items arr @ [Some slot]"
    using arr_inserted_end length_arr_items [OF ok] by metis
  obtain arr' k log where up: "arr_sift_up a (arr_size arr) = (arr', k, log)" by (metis prod_cases3)
  have "arr_comper a = cmp" using g(2) i(4) by simp
  note p = push_good [OF g(1,2) i(2) this it slot(2) up]
  then show ?thesis using i(1) up sz by (simp add: qse_arr_pushheap_def Let_def)
qed

lemma same_place:
  assumes "ok s" "ok d" "ok c" "cmp s d = 0"
  shows "0 < cmp s c \<longleftrightarrow> 0 < cmp d c"
  using le_trans [of s d c] le_trans [of d s c] eq_sym [OF assms(1,2,4)] assms by linarith

lemma updated_sift:
  assumes g: "heap_good ok arr" "arr_comper arr = cmp" "i < arr_size arr" "ok s"
    and a: "a = arr\<lparr>arr_slot := (arr_slot arr)[i := Some s]\<rparr>" and n: "0 < cmp s (the (arr_slot arr ! i)) \<longleftrightarrow> up"
    and r: "(if up then arr_sift_up a i else arr_sift_down a i) = (arr', k, log)"
  shows "heap_good ok arr'" "arr_comper arr' = cmp" "mset (arr_items arr') = mset ((arr_items arr)[i := Some s])"
    "arr_size arr' = arr_size arr"
proof -
  let ?abv = "\<lambda>x y. 0 < cmp (the x) (the y)" let ?xs = "arr_items arr"
  have ok: "arr_ok arr" and h: "heap_on ?abv ?xs" and it: "\<forall>x \<in> set ?xs. x \<noteq> None \<and> ok (the x)"
    using g above_cmp [of arr] by (auto simp: heap_good_def arr_heap_def)
  have l: "i < length ?xs" "?xs ! i = arr_slot arr ! i"
    using length_arr_items [OF ok] g(3) arr_ok_items_nth [OF ok g(3)] by auto
  have a': "arr_ok a" "arr_items a = ?xs[i := Some s]" "arr_size a = arr_size arr" "arr_comper a = cmp"
    using ok g(2) by (auto simp: a arr_ok_def take_update_swap arr_items_def)
  have i: "i < arr_size a" using g(3) a' by simp
  have s: "Some s \<noteq> None \<and> ok (the (Some s))" using g(4) by simp
  have r': "arr_sift_up a i = (arr', k, log) \<or> arr_sift_down a i = (arr', k, log)" using r by (auto split: if_splits)
  have "heap_on ?abv (arr_items arr')"
    using n r arr_sift_items [OF a'(1) i] a' l above_cmp [OF a'(4)]
      slots.heap_replace_up [OF h it s l(1)] slots.heap_replace_down [OF h it s l(1)]
    by (cases up) (fastforce split: if_splits)+
  then show "heap_good ok arr'"
    using ball_set_update [OF it s] a' by (intro sift_good [OF a'(1) i a'(4) r']) auto
  show "arr_comper arr' = cmp" "mset (arr_items arr') = mset ((arr_items arr)[i := Some s])"
    "arr_size arr' = arr_size arr"
    using arr_sift_frame [OF a'(1) i r'] a' by auto
qed

lemma updateheap:
  assumes g: "heap_good ok arr" "arr_comper arr = cmp" "i < arr_size arr" "arr_size arr < QSE_ARR_NIL"
    and c: "arr_slot arr ! i = Some c" and d: "ok d" "xp_ptr d = xp_ptr c \<Longrightarrow> xp_len d = xp_len c \<Longrightarrow> d = c"
    and s: "alloc_slot mm arr d = Some s" "ok s" "cmp s d = 0"
    and u: "qse_arr_updateheap mm arr i d = (arr', r, log, plog)"
  shows "heap_good ok arr'" "r = i"
    "cmp d c \<noteq> 0 \<Longrightarrow> log = [Released c] \<and> mset (arr_items arr') = mset ((arr_items arr)[i := Some s])"
    "cmp d c = 0 \<Longrightarrow> log = [] \<and> arr' = arr"
proof -
  have it: "arr_items arr ! i = Some c" "ok c"
    using g c arr_ok_items_nth [of arr i] length_arr_items [of arr] nth_mem [of i "arr_items arr"]
    by (auto simp: heap_good_def)
  have "heap_good ok arr' \<and> r = i \<and>
     (if cmp d c = 0 then log = [] \<and> arr' = arr
      else log = [Released c] \<and> mset (arr_items arr') = mset ((arr_items arr)[i := Some s]))"
  proof (cases "cmp d c = 0")
    case True
    then show ?thesis using u g c by (simp add: qse_arr_updateheap_def Let_def)
  next
    case False
    then have "\<not> (xp_ptr d = xp_ptr c \<and> xp_len d = xp_len c)" using d eq_refl by blast
    then have up: "qse_arr_update mm arr i d = (arr\<lparr>arr_slot := (arr_slot arr)[i := Some s]\<rparr>, i, [Released c])"
      using g(3) c s(1) by (auto simp: qse_arr_update_def)
    obtain k log' where sift: "(if 0 < cmp d c then arr_sift_up (arr\<lparr>arr_slot := (arr_slot arr)[i := Some s]\<rparr>) i
        else arr_sift_down (arr\<lparr>arr_slot := (arr_slot arr)[i := Some s]\<rparr>) i) = (arr', k, log')"
      and e: "r = i" "log = [Released c]"
      using u False c g(2,3,4) by (auto simp: qse_arr_updateheap_def Let_def up split: prod.splits if_splits)
    have "0 < cmp s (the (arr_slot arr ! i)) \<longleftrightarrow> 0 < cmp d c" using same_place [OF s(2) d(1) it(2) s(3)] c by simp
    from updated_sift [OF g(1-3) s(2) refl this sift] e False show ?thesis by simp
  qed
  then show "heap_good ok arr'" "r = i"
    "cmp d c \<noteq> 0 \<Longrightarrow> log = [Released c] \<and> mset (arr_items arr') = mset ((arr_items arr)[i := Some s])"
    "cmp d c = 0 \<Longrightarrow> log = [] \<and> arr' = arr" by auto
qed

lemma shrink_good:
  assumes "heap_good ok arr" "n \<le> arr_size arr"
  shows "heap_good ok (arr\<lparr>arr_size := n\<rparr>)" "arr_items (arr\<lparr>arr_size := n\<rparr>) = take n (arr_items arr)"
proof -
  show e: "arr_items (arr\<lparr>arr_size := n\<rparr>) = take n (arr_items arr)" using assms by (simp add: arr_items_def)
  show "heap_good ok (arr\<lparr>arr_size := n\<rparr>)"
    using assms heap_on_take [of "slot_above arr" "arr_items arr" n] in_set_takeD [of _ n "arr_items arr"]
    unfolding heap_good_def arr_heap_def e by (auto simp: arr_ok_def)
qed

lemma equal_good:
  assumes g: "heap_good ok arr" "arr_comper arr = cmp" "i < arr_size arr" "ok s" "cmp s (the (arr_slot arr ! i)) = 0"
  shows "heap_good ok (arr\<lparr>arr_slot := (arr_slot arr)[i := Some s]\<rparr>)"
    "arr_items (arr\<lparr>arr_slot := (arr_slot arr)[i := Some s]\<rparr>) = (arr_items arr)[i := Some s]"
proof -
  let ?abv = "\<lambda>x y. 0 < cmp (the x) (the y)" let ?xs = "arr_items arr"
  have ok: "arr_ok arr" and h: "heap_on ?abv ?xs" and it: "\<forall>x \<in> set ?xs. x \<noteq> None \<and> ok (the x)"
    using g above_cmp [of arr] by (auto simp: heap_good_def arr_heap_def)
  have l: "i < length ?xs" "?xs ! i = arr_slot arr ! i"
    using length_arr_items [OF ok] g(3) arr_ok_items_nth [OF ok g(3)] by auto
  have s: "Some s \<noteq> None \<and> ok (the (Some s))" using g(4) by simp
  show e: "arr_items (arr\<lparr>arr_slot := (arr_slot arr)[i := Some s]\<rparr>) = ?xs[i := Some s]"
    by (simp add: arr_items_def take_update_swap)
  have "ok (the (?xs ! i))" using it l(1) by simp
  then have "heap_on ?abv (?xs[i := Some s])"
    using g(4,5) l eq_sym [of s "the (?xs ! i)"] by (intro slots.heap_replace_same [OF h it s l(1)]) auto
  then show "heap_good ok (arr\<lparr>arr_slot := (arr_slot arr)[i := Some s]\<rparr>)"
    using ok ball_set_update [OF it s, of i] above_cmp [of arr] g(2)
    unfolding heap_good_def arr_heap_def e by (simp add: arr_ok_def)
qed

lemma null_last:
  assumes "heap_good ok a"
  shows "heap_good ok (a\<lparr>arr_slot := (arr_slot a)[arr_size a := None]\<rparr>)"
    "arr_items (a\<lparr>arr_slot := (arr_slot a)[arr_size a := None]\<rparr>) = arr_items a"
proof -
  show e: "arr_items (a\<lparr>arr_slot := (arr_slot a)[arr_size a := None]\<rparr>) = arr_items a"
    by (simp add: arr_items_def)
  show "heap_good ok (a\<lparr>arr_slot := (arr_slot a)[arr_size a := None]\<rparr>)"
    using assms unfolding heap_good_def arr_heap_def e by (simp add: arr_ok_def)
qed

lemma deleteheap:
  assumes g: "heap_good ok arr" "arr_comper arr = cmp" "i < arr_size arr"
    and d: "qse_arr_deleteheap arr i = (arr', log, plog)"
  shows "heap_good ok arr'" "log = [Released (the (arr_items arr ! i))]"
    "add_mset (arr_items arr ! i) (mset (arr_items arr')) = mset (arr_items arr)" "arr_comper arr' = cmp"
proof -
  define n where "n = arr_size arr - 1"
  let ?xs = "arr_items arr" let ?t = "arr\<lparr>arr_size := n\<rparr>" let ?l = "arr_slot arr ! n"
  have ok: "arr_ok arr" and it: "\<forall>x \<in> set ?xs. x \<noteq> None \<and> ok (the x)" using g(1) by (auto simp: heap_good_def)
  have len: "length ?xs = arr_size arr" "i < length ?xs" "n < arr_size arr" "n = length ?xs - 1"
    using length_arr_items [OF ok] g(3) by (auto simp: n_def)
  have nth: "?xs ! i = arr_slot arr ! i" "?xs ! n = ?l"
    using arr_ok_items_nth [OF ok] g(3) len(3) by auto
  then obtain s where s: "?l = Some s" "ok s" using it len nth_mem [of n ?xs] by auto
  note sh = shrink_good [OF g(1) less_imp_le [OF len(3)]]
  note tb = take_butlast_mset [OF len(2,4)]
  have "\<exists>a. arr' = a\<lparr>arr_slot := (arr_slot a)[arr_size a := None]\<rparr> \<and> heap_good ok a \<and> arr_comper a = cmp \<and>
      add_mset (?xs ! i) (mset (arr_items a)) = mset ?xs"
  proof (cases "i = n")
    case True
    then have "arr' = ?t\<lparr>arr_slot := (arr_slot ?t)[arr_size ?t := None]\<rparr>"
      using d by (auto simp: qse_arr_deleteheap_def Let_def n_def)
    then show ?thesis using sh tb(1) True g(2) by (intro exI [of _ ?t]) simp
  next
    case False
    let ?a = "arr\<lparr>arr_slot := (arr_slot arr)[i := Some s], arr_size := n\<rparr>" let ?c = "cmp s (the (arr_slot arr ! i))"
    have at: "?a = ?t\<lparr>arr_slot := (arr_slot ?t)[i := Some s]\<rparr>" "?c = cmp s (the (arr_slot ?t ! i))" by simp_all
    have i: "i < arr_size ?t" "arr_comper ?t = cmp" using False g(2,3) by (auto simp: n_def)
    have n: "arr_size arr - Suc 0 = n" "0 < n" using i by (auto simp: n_def)
    have ms: "add_mset (?xs ! i) (mset ((arr_items ?t)[i := Some s])) = mset ?xs"
      using tb(2) False nth(2) s(1) sh(2) by simp
    obtain b k l where r: "(if ?c > 0 then arr_sift_up ?a i else if ?c < 0 then arr_sift_down ?a i else (?a, i, [])) = (b, k, l)"
      by (metis prod_cases3)
    then have e: "arr' = b\<lparr>arr_slot := (arr_slot b)[n := None]\<rparr>"
      using d False i s(1) g(2) n by (auto simp: qse_arr_deleteheap_def Let_def split: prod.splits if_splits)
    have "heap_good ok b \<and> arr_comper b = cmp \<and> mset (arr_items b) = mset ((arr_items ?t)[i := Some s]) \<and> arr_size b = n"
    proof (cases "?c = 0")
      case True
      then have "b = ?a" using r by auto
      then show ?thesis using equal_good [OF sh(1) i(2,1) s(2) True [unfolded at(2)]] i unfolding at(1) by simp
    next
      case ne: False
      then have "(if 0 < ?c then arr_sift_up ?a i else arr_sift_down ?a i) = (b, k, l)" using r by auto
      from updated_sift [OF sh(1) i(2,1) s(2) at(1) _ this] show ?thesis by simp
    qed
    then show ?thesis using e ms by (intro exI [of _ b]) simp
  qed
  then show "heap_good ok arr'" "add_mset (arr_items arr ! i) (mset (arr_items arr')) = mset (arr_items arr)"
    "arr_comper arr' = cmp"
    using null_last by auto
  show "log = [Released (the (arr_items arr ! i))]"
    using d nth(1) by (auto simp: qse_arr_deleteheap_def Let_def split: prod.splits)
qed

lemma root_greatest:
  assumes "heap_good ok arr" "arr_comper arr = cmp" "x \<in> set (arr_items arr)"
  shows "cmp (the x) (the (arr_items arr ! 0)) \<le> 0"
  using assms slots.heap_root [of "arr_items arr"] above_cmp [of arr]
  by (auto simp: heap_good_def arr_heap_def in_set_conv_nth not_less)

end

interpretation dfl_arr: arr_heap_order "default_comparator scale" "\<lambda>x. 0 < scale \<and> xptl_wf scale x" for scale
  by unfold_locales


section \<open>Properties\<close>

text \<open>
  C28. Insertion with no sizer, at a position below twice the capacity: when the slot cannot be
  allocated the array is unchanged; otherwise the call returns, and either the item is at the position, later items have
  moved up and the cells between the old end and a position beyond it are null, or the memory manager refused to
  grow the array, the array is unchanged and the new slot is released.
\<close>

theorem qse_arr_insert_items:
  assumes "arr_ok arr" "arr_sizer arr = None" "arr_capa arr = 0 \<or> pos < 2 * arr_capa arr"
  shows "case alloc_slot mm arr d of
      None \<Rightarrow> qse_arr_insert mm mem_ok arr pos d = Some (arr, QSE_ARR_NIL, [])
    | Some slot \<Rightarrow>
        (\<exists>arr'. qse_arr_insert mm mem_ok arr pos d = Some (arr', pos, []) \<and> arr_ok arr' \<and>
           arr_items arr' = arr_inserted (arr_items arr) pos slot) \<or>
        (qse_arr_insert mm mem_ok arr pos d = Some (arr, QSE_ARR_NIL, [Released slot]) \<and>
           \<not> mem_ok (arr_mincapa arr pos) \<and> (pos \<ge> arr_capa arr \<or> arr_size arr \<ge> arr_capa arr))"
proof (cases "alloc_slot mm arr d")
  case None
  then show ?thesis by (simp add: qse_arr_insert_def)
next
  case (Some slot)
  show ?thesis using qse_arr_insert_cases [OF assms Some, of mem_ok] Some by auto
qed

definition demo_item :: "byte \<Rightarrow> qse_xptl" where
  "demo_item b = \<lparr>xp_ptr = 4096, xp_len = 1, xp_data = [b]\<rparr>"

definition demo_arr :: "qse_xptl option list \<Rightarrow> nat \<Rightarrow> qse_arr" where
  "demo_arr xs free = \<lparr>arr_copier = COPIER_SIMPLE, arr_comper_fn = default_comparator, arr_sizer = None, arr_scale = 1,
     arr_heap_pos_offset = QSE_ARR_NIL, arr_size = length xs, arr_capa = length xs + free,
     arr_slot = xs @ replicate free None\<rparr>"

lemma demo_arr_ok: "arr_ok (demo_arr xs n)" and demo_arr_items: "arr_items (demo_arr xs n) = xs"
  by (simp_all add: demo_arr_def arr_ok_def arr_items_def)

theorem qse_arr_insert_items_witness:
  "\<exists>arr'. qse_arr_insert (Some 64) (\<lambda>_. True) (demo_arr [Some (demo_item 7), Some (demo_item 9)] 0) 1 (demo_item 8) = Some (arr', 1, []) \<and>
     arr_items arr' = [Some (demo_item 7), Some (demo_item 8), Some (demo_item 9)]"
proof -
  let ?a = "demo_arr [Some (demo_item 7), Some (demo_item 9)] 0"
  have "arr_sizer ?a = None" "arr_capa ?a = 0 \<or> 1 < 2 * arr_capa ?a" "alloc_slot (Some 64) ?a (demo_item 8) = Some (demo_item 8)"
    by (simp_all add: demo_arr_def alloc_slot_def)
  with qse_arr_insert_items [OF demo_arr_ok this(1,2), where mm = "Some 64" and d = "demo_item 8" and mem_ok = "\<lambda>_. True"]
  show ?thesis by (auto simp: demo_arr_items arr_inserted_def)
qed

text \<open>
  An insertion at a position from twice the capacity on never returns: the doubling loop computes the
  same capacity again and again. This needs an array with some capacity, no sizer and a slot that could be allocated.
\<close>

theorem qse_arr_insert_far_never_returns:
  assumes "arr_ok arr" "arr_sizer arr = None" "0 < arr_capa arr" "2 * arr_capa arr \<le> pos"
    and "alloc_slot mm arr d = Some slot"
  shows "qse_arr_insert mm mem_ok arr pos d = None"
  using assms by (simp add: qse_arr_insert_def insert_capa_def double_capa_iff arr_ok_def Let_def)

theorem qse_arr_insert_far_never_returns_witness:
  "qse_arr_insert (Some 64) (\<lambda>_. True) (demo_arr [Some (demo_item 7)] 1) 4 (demo_item 8) = None"
  using qse_arr_insert_far_never_returns
      [where arr = "demo_arr [Some (demo_item 7)] 1" and pos = 4 and mm = "Some 64" and d = "demo_item 8"]
  by (simp add: demo_arr_ok, simp add: demo_arr_def alloc_slot_def)

text \<open>
  C35. Deletion of a positive number of items closes the gap and releases exactly the non-null items of the range, in
  order, each once; \<open>qse_arr_uplete\<close> releases the same items and leaves null cells; \<open>qse_arr_clear\<close> releases
  every item. No other item is released or lost.
\<close>

theorem qse_arr_removal_releases:
  assumes "arr_ok arr" "index < arr_size arr" "0 < cnt"
  shows "(case qse_arr_delete arr index cnt of (arr', n, log) \<Rightarrow>
      arr_ok arr' \<and> n = min cnt (arr_size arr - index) \<and>
      arr_items arr' = take index (arr_items arr) @ drop (index + n) (arr_items arr) \<and>
      log = released (take n (drop index (arr_items arr)))) \<and>
    (case qse_arr_uplete arr index cnt of (arr', n, log) \<Rightarrow>
      arr_ok arr' \<and> n = min cnt (arr_size arr - index) \<and>
      arr_items arr' = take index (arr_items arr) @ replicate n None @ drop (index + n) (arr_items arr) \<and>
      log = released (take n (drop index (arr_items arr)))) \<and>
    (case qse_arr_clear arr of (arr', log) \<Rightarrow>
      arr_ok arr' \<and> arr_items arr' = [] \<and> log = released (arr_items arr))"
proof (intro conjI)
  obtain a1 n1 l1 where d: "qse_arr_delete arr index cnt = (a1, n1, l1)" by (metis prod_cases3)
  obtain a2 n2 l2 where u: "qse_arr_uplete arr index cnt = (a2, n2, l2)" by (metis prod_cases3)
  obtain a3 l3 where c: "qse_arr_clear arr = (a3, l3)" by (metis surj_pair)
  show "case qse_arr_delete arr index cnt of (arr', n, log) \<Rightarrow>
      arr_ok arr' \<and> n = min cnt (arr_size arr - index) \<and>
      arr_items arr' = take index (arr_items arr) @ drop (index + n) (arr_items arr) \<and>
      log = released (take n (drop index (arr_items arr)))"
    using qse_arr_delete_items [OF assms d] by (simp add: d)
  show "case qse_arr_uplete arr index cnt of (arr', n, log) \<Rightarrow>
      arr_ok arr' \<and> n = min cnt (arr_size arr - index) \<and>
      arr_items arr' = take index (arr_items arr) @ replicate n None @ drop (index + n) (arr_items arr) \<and>
      log = released (take n (drop index (arr_items arr)))"
    using qse_arr_uplete_items [OF assms(1,2) u] by (simp add: u)
  show "case qse_arr_clear arr of (arr', log) \<Rightarrow>
      arr_ok arr' \<and> arr_items arr' = [] \<and> log = released (arr_items arr)"
    using qse_arr_clear_items [OF assms(1) c] by (simp add: c)
qed

theorem qse_arr_removal_releases_witness:
  "case qse_arr_delete (demo_arr [Some (demo_item 1), None, Some (demo_item 3), Some (demo_item 4)] 2) 1 2 of
     (arr', n, log) \<Rightarrow> arr_items arr' = [Some (demo_item 1), Some (demo_item 4)] \<and> log = [Released (demo_item 3)]"
  using qse_arr_removal_releases
      [of "demo_arr [Some (demo_item 1), None, Some (demo_item 3), Some (demo_item 4)] 2" 1 2]
  by (simp add: demo_arr_ok demo_arr_items) (simp add: demo_arr_def split: prod.splits)

text \<open>
  Deleting zero items at a valid index returns zero and releases nothing, yet overwrites the last slot with
  null: the last item is lost without being released.
\<close>

theorem qse_arr_delete_zero_loses_last:
  assumes "arr_ok arr" "index < arr_size arr"
  shows "case qse_arr_delete arr index 0 of (arr', n, log) \<Rightarrow>
    n = 0 \<and> log = [] \<and> arr_size arr' = arr_size arr \<and> arr_items arr' = butlast (arr_items arr) @ [None]"
proof -
  have l: "length (arr_items arr) = arr_size arr" using assms(1) by (rule length_arr_items)
  then have "(arr_items arr)[arr_size arr - 1 := None] = butlast (arr_items arr) @ [None]"
    using assms(2) by (cases "arr_items arr" rule: rev_cases) (auto simp: list_update_append)
  then show ?thesis
    using qse_arr_delete_none [OF assms] by (simp add: arr_items_def take_update_swap)
qed

theorem qse_arr_delete_zero_loses_last_witness:
  "case qse_arr_delete (demo_arr [Some (demo_item 1), Some (demo_item 2)] 0) 0 0 of
     (arr', n, log) \<Rightarrow> arr_items arr' = [Some (demo_item 1), None] \<and> log = []"
  using qse_arr_delete_zero_loses_last [of "demo_arr [Some (demo_item 1), Some (demo_item 2)] 0" 0]
  by (simp add: demo_arr_ok demo_arr_items) (simp add: demo_arr_def split: prod.splits)

text \<open>
  \<open>qse_arr_search\<close> returns the first index from the position on, and \<open>qse_arr_rsearch\<close> the last index
  up to the position, that holds an item the comparator calls equal; both skip null slots and
  return the nil index exactly when there is no such item.
\<close>

theorem qse_arr_search_rsearch:
  assumes "arr_size arr < QSE_ARR_NIL"
  shows "(let r = qse_arr_search arr pos d in
      if r = QSE_ARR_NIL then (\<forall>j. pos \<le> j \<and> j < arr_size arr \<longrightarrow> \<not> slot_match arr d j)
      else pos \<le> r \<and> r < arr_size arr \<and> slot_match arr d r \<and> (\<forall>j. pos \<le> j \<and> j < r \<longrightarrow> \<not> slot_match arr d j)) \<and>
    (let r = qse_arr_rsearch arr pos d in
      if r = QSE_ARR_NIL then (\<forall>j. j \<le> pos \<and> j < arr_size arr \<longrightarrow> \<not> slot_match arr d j)
      else r \<le> pos \<and> r < arr_size arr \<and> slot_match arr d r \<and>
        (\<forall>j. r < j \<and> j \<le> pos \<and> j < arr_size arr \<longrightarrow> \<not> slot_match arr d j))"
proof (intro conjI)
  show "let r = qse_arr_search arr pos d in
      if r = QSE_ARR_NIL then (\<forall>j. pos \<le> j \<and> j < arr_size arr \<longrightarrow> \<not> slot_match arr d j)
      else pos \<le> r \<and> r < arr_size arr \<and> slot_match arr d r \<and> (\<forall>j. pos \<le> j \<and> j < r \<longrightarrow> \<not> slot_match arr d j)"
    using search_loop_spec [of pos arr d "arr_size arr - pos"] assms
    by (auto simp: qse_arr_search_def Let_def)
  define p where "p = (if pos \<ge> arr_size arr then arr_size arr - 1 else pos)"
  have r: "qse_arr_rsearch arr pos d = rsearch_loop arr d (p + 1)" if "0 < arr_size arr"
    using that by (simp add: qse_arr_rsearch_def p_def Let_def)
  have p: "j < p + 1 \<longleftrightarrow> j \<le> pos \<and> j < arr_size arr" if "0 < arr_size arr" for j
    using that by (auto simp: p_def)
  show "let r = qse_arr_rsearch arr pos d in
      if r = QSE_ARR_NIL then (\<forall>j. j \<le> pos \<and> j < arr_size arr \<longrightarrow> \<not> slot_match arr d j)
      else r \<le> pos \<and> r < arr_size arr \<and> slot_match arr d r \<and>
        (\<forall>j. r < j \<and> j \<le> pos \<and> j < arr_size arr \<longrightarrow> \<not> slot_match arr d j)"
  proof (cases "0 < arr_size arr")
    case True
    then show ?thesis
      using rsearch_loop_spec [of arr d "p + 1"] r [OF True] p [OF True] assms unfolding Let_def by auto
  next
    case False
    then show ?thesis by (simp add: qse_arr_rsearch_def)
  qed
qed

theorem qse_arr_search_rsearch_witness:
  "qse_arr_search (demo_arr [None, Some (demo_item 1)] 0) 0 (demo_item 1) = 1"
proof -
  let ?a = "demo_arr [None, Some (demo_item 1)] 0" let ?r = "qse_arr_search ?a 0 (demo_item 1)"
  have m: "slot_match ?a (demo_item 1) 1" "\<not> slot_match ?a (demo_item 1) 0" "arr_size ?a = 2" "arr_size ?a < QSE_ARR_NIL"
    by (simp_all add: demo_arr_def slot_match_def demo_item_def default_comparator_def QSE_ARR_NIL_def)
  have "?r \<noteq> QSE_ARR_NIL" "?r < 2" "slot_match ?a (demo_item 1) ?r"
    using qse_arr_search_rsearch [OF m(4), of 0 "demo_item 1"] m(1,3) by (auto simp: Let_def split: if_splits)
  then show ?thesis using m(2) by (cases "?r = 0") (auto simp del: One_nat_def)
qed

text \<open>
  C4. With a comparator that orders the items, the heap operations keep the array a heap: pushing
  adds one item and returns the new size, deleting at an index removes and releases exactly that
  item, popping removes an item that no other item exceeds.
\<close>

theorem qse_arr_heap_operations:
  assumes "arr_heap_order (arr_comper arr) ok" "heap_good ok arr" "arr_sizer arr = None"
    and "alloc_slot mm arr d = Some slot" "ok slot" "arr_size arr < QSE_ARR_NIL" "mem_ok (arr_size arr + 1)"
  shows "(\<exists>arr' plog. qse_arr_pushheap mm mem_ok arr d = Some (arr', arr_size arr + 1, [], plog) \<and>
      heap_good ok arr' \<and> mset (arr_items arr') = add_mset (Some slot) (mset (arr_items arr))) \<and>
    (\<forall>i < arr_size arr. \<exists>arr' plog.
      qse_arr_deleteheap arr i = (arr', [Released (the (arr_items arr ! i))], plog) \<and> heap_good ok arr' \<and>
      add_mset (arr_items arr ! i) (mset (arr_items arr')) = mset (arr_items arr)) \<and>
    (0 < arr_size arr \<longrightarrow> (\<exists>arr' x plog. qse_arr_popheap arr = (arr', [Released x], plog) \<and>
      add_mset (Some x) (mset (arr_items arr')) = mset (arr_items arr) \<and>
      (\<forall>y \<in> set (arr_items arr). arr_comper arr (the y) x \<le> 0)))"
proof (intro conjI allI impI)
  note loc = assms(1)
  show "\<exists>arr' plog. qse_arr_pushheap mm mem_ok arr d = Some (arr', arr_size arr + 1, [], plog) \<and>
      heap_good ok arr' \<and> mset (arr_items arr') = add_mset (Some slot) (mset (arr_items arr))"
    using arr_heap_order.pushheap [where mem_ok = mem_ok and mm = mm and d = d, OF loc assms(2) refl assms(3-7)] by blast
  have del: "\<exists>arr' plog. qse_arr_deleteheap arr i = (arr', [Released (the (arr_items arr ! i))], plog) \<and> heap_good ok arr' \<and>
      add_mset (arr_items arr ! i) (mset (arr_items arr')) = mset (arr_items arr)" if "i < arr_size arr" for i
    using arr_heap_order.deleteheap [OF loc assms(2) refl that] by (metis prod_cases3)
  then show "\<exists>arr' plog. qse_arr_deleteheap arr i = (arr', [Released (the (arr_items arr ! i))], plog) \<and> heap_good ok arr' \<and>
      add_mset (arr_items arr ! i) (mset (arr_items arr')) = mset (arr_items arr)" if "i < arr_size arr" for i
    using that by blast
  assume z: "0 < arr_size arr"
  have "arr_items arr ! 0 \<in> set (arr_items arr)"
    using assms(2) z length_arr_items [of arr] by (intro nth_mem) (simp add: heap_good_def)
  then obtain x where x: "arr_items arr ! 0 = Some x" using assms(2) by (auto simp: heap_good_def)
  then show "\<exists>arr' x plog. qse_arr_popheap arr = (arr', [Released x], plog) \<and>
      add_mset (Some x) (mset (arr_items arr')) = mset (arr_items arr) \<and>
      (\<forall>y \<in> set (arr_items arr). arr_comper arr (the y) x \<le> 0)"
    using del [OF z] arr_heap_order.root_greatest [OF loc assms(2) refl] by (fastforce simp: qse_arr_popheap_def)
qed

theorem qse_arr_heap_operations_witness:
  "\<exists>arr' plog. qse_arr_pushheap (Some 64) (\<lambda>_. True) (demo_arr [Some (demo_item 5), Some (demo_item 3)] 0) (demo_item 9) =
     Some (arr', 3, [], plog) \<and> mset (arr_items arr') = {#Some (demo_item 9), Some (demo_item 5), Some (demo_item 3)#}"
proof -
  let ?a = "demo_arr [Some (demo_item 5), Some (demo_item 3)] 0"
  let ?ok = "\<lambda>x. 0 < (1::nat) \<and> xptl_wf 1 x"
  have c: "arr_comper ?a = default_comparator 1" "arr_sizer ?a = None" "arr_size ?a = 2"
    "alloc_slot (Some 64) ?a (demo_item 9) = Some (demo_item 9)" by (simp_all add: demo_arr_def alloc_slot_def)
  have w: "?ok (demo_item b)" for b by (simp add: demo_item_def xptl_wf_def TOB_def)
  have h: "heap_on (slot_above ?a) [Some (demo_item 5), Some (demo_item 3)]"
    unfolding slot_above_def c(1)
    by (auto simp: heap_on_def less_Suc_eq demo_item_def default_comparator_def TOB_def HEAP_PARENT_def)
  have g: "heap_good ?ok ?a" using h w by (simp add: heap_good_def demo_arr_ok arr_heap_def demo_arr_items)
  have s: "arr_size ?a < QSE_ARR_NIL" by (simp add: c(3) QSE_ARR_NIL_def)
  have o: "arr_heap_order (arr_comper ?a) ?ok" unfolding c(1) by unfold_locales
  show ?thesis
    using qse_arr_heap_operations [where mem_ok = "\<lambda>_. True", OF o g c(2,4) w s] by (auto simp: demo_arr_items c(3))
qed

end
