(* ===== verification/Qse_Pair.thy ===== *)
theory Qse_Pair
  imports Qse_Xptl
begin

text \<open>
  The key/value pairs of the two map implementations, \<open>src/lib/cmn/htb.c\<close> and \<open>src/lib/cmn/rbt.c\<close>, which allocate, free
  and change pairs in the same words up to the link fields: a pair is created with the copiers of the
  map's style, destroyed with its freeers, and its value is replaced in place or by a new pair. The calls of
  freeers and keepers are returned as a log. What the memory manager answers is an argument: \<open>None\<close>,
  or the address of the block and the memory in which it lies, which holds whatever was there before.
\<close>

record pair_style =
  ps_kcopier :: copier
  ps_vcopier :: copier
  ps_kfreeer :: bool
  ps_vfreeer :: bool
  ps_keeper :: bool

record qse_pair =
  pr_addr :: addr
  pr_key :: qse_xptl
  pr_val :: qse_xptl

datatype pair_call = Key_freed qse_xptl | Val_freed qse_xptl | Val_kept qse_xptl

type_synonym block = "(addr \<times> mem) option"

text \<open>\<open>QSE_ALIGNTO_POW2\<close> with the alignment of a pointer, eight bytes.\<close>

definition QSE_ALIGNTO_PTR :: "nat \<Rightarrow> nat" where
  "QSE_ALIGNTO_PTR num = (num + 8 - 1) div 8 * 8"

text \<open>The scale of an item, the bytes per unit of its length, is at least one and kept in a byte.\<close>

definition byte_scale :: "int \<Rightarrow> nat" where
  "byte_scale scale = nat ((if scale < 1 then 1 else scale) mod 256)"

lemma byte_scale_one [simp]: "byte_scale 1 = 1"
  by (simp add: byte_scale_def)

definition inline_copy :: "mem \<Rightarrow> addr \<Rightarrow> nat \<Rightarrow> qse_xptl \<Rightarrow> qse_xptl" where
  "inline_copy m p scale x =
     x\<lparr>xp_ptr := p,
       xp_data := (if xp_ptr x \<noteq> QSE_NULL then take (TOB scale (xp_len x)) (xp_data x)
                   else mem_at m p (TOB scale (xp_len x)))\<rparr>"

definition alloc_key :: "pair_style \<Rightarrow> nat \<Rightarrow> nat \<Rightarrow> addr \<times> mem \<Rightarrow> qse_xptl \<Rightarrow> qse_xptl option" where
  "alloc_key st psize kscale blk k =
     (case ps_kcopier st of
        COPIER_SIMPLE \<Rightarrow> Some k
      | COPIER_INLINE \<Rightarrow> Some (inline_copy (snd blk) (fst blk + psize) kscale k)
      | COPIER_CUSTOM f \<Rightarrow> map_option (\<lambda>x. x\<lparr>xp_len := xp_len k\<rparr>) (f k))"

text \<open>
  A custom value copier is followed by the test \<open>VPTR(n) != QSE_NULL\<close>, under which the code gives up
  and destroys the key; a null pointer is kept as the value.
\<close>

definition alloc_pair ::
  "pair_style \<Rightarrow> nat \<Rightarrow> nat \<Rightarrow> nat \<Rightarrow> block \<Rightarrow> qse_xptl \<Rightarrow> qse_xptl \<Rightarrow> qse_pair option \<times> pair_call list" where
  "alloc_pair st psize kscale vscale mm k v =
     (case mm of
        None \<Rightarrow> (None, [])
      | Some blk \<Rightarrow>
          (case alloc_key st psize kscale blk k of
             None \<Rightarrow> (None, [])
           | Some k' \<Rightarrow>
               (case ps_vcopier st of
                  COPIER_SIMPLE \<Rightarrow> (Some \<lparr>pr_addr = fst blk, pr_key = k', pr_val = v\<rparr>, [])
                | COPIER_INLINE \<Rightarrow>
                    (let p = fst blk + psize +
                       (if ps_kcopier st = COPIER_INLINE then QSE_ALIGNTO_PTR (TOB kscale (xp_len k)) else 0)
                     in (Some \<lparr>pr_addr = fst blk, pr_key = k', pr_val = inline_copy (snd blk) p vscale v\<rparr>, []))
                | COPIER_CUSTOM f \<Rightarrow>
                    (case f v of
                       Some nv \<Rightarrow> (None, if ps_kfreeer st then [Key_freed k'] else [])
                     | None \<Rightarrow>
                         (Some \<lparr>pr_addr = fst blk, pr_key = k',
                                pr_val = \<lparr>xp_ptr = QSE_NULL, xp_len = xp_len v, xp_data = []\<rparr>\<rparr>, [])))))"

definition free_pair :: "pair_style \<Rightarrow> qse_pair \<Rightarrow> pair_call list" where
  "free_pair st p =
     (if ps_kfreeer st then [Key_freed (pr_key p)] else []) @ (if ps_vfreeer st then [Val_freed (pr_val p)] else [])"

text \<open>
  When the new value is at the address of the old one and has its length, nothing is replaced: the memory is the same, and what it holds
  now are the bytes the caller passes.
\<close>

definition change_pair_val ::
  "pair_style \<Rightarrow> nat \<Rightarrow> nat \<Rightarrow> nat \<Rightarrow> block \<Rightarrow> qse_pair \<Rightarrow> qse_xptl \<Rightarrow> qse_pair option \<times> pair_call list" where
  "change_pair_val st psize kscale vscale mm pair v =
     (let old = pr_val pair;
          freed = (\<lambda>x. if ps_vfreeer st then [Val_freed x] else [])
      in if xp_ptr old = xp_ptr v \<and> xp_len old = xp_len v
         then (Some (pair\<lparr>pr_val := v\<rparr>), if ps_keeper st then [Val_kept v] else [])
         else case ps_vcopier st of
           COPIER_SIMPLE \<Rightarrow> (Some (pair\<lparr>pr_val := v\<rparr>), freed old)
         | COPIER_INLINE \<Rightarrow>
             if xp_len old = xp_len v then
               (let nv = (if xp_ptr v \<noteq> QSE_NULL
                          then old\<lparr>xp_data := take (TOB vscale (xp_len v)) (xp_data v)\<rparr> else old)
                in (Some (pair\<lparr>pr_val := nv\<rparr>), freed nv))
             else
               (case alloc_pair st psize kscale vscale mm (pr_key pair) v of
                  (None, log) \<Rightarrow> (None, log)
                | (Some p, log) \<Rightarrow> (Some p, log @ free_pair st pair))
         | COPIER_CUSTOM f \<Rightarrow>
             (case f v of
                None \<Rightarrow> (None, [])
              | Some nv \<Rightarrow> (Some (pair\<lparr>pr_val := nv\<lparr>xp_len := xp_len v\<rparr>\<rparr>), freed old)))"

text \<open>The four predefined styles: which of key and value are copied into the pair.\<close>

datatype style_kind = STYLE_DEFAULT | STYLE_INLINE_COPIERS | STYLE_INLINE_KEY_COPIER | STYLE_INLINE_VALUE_COPIER

definition get_style :: "style_kind \<Rightarrow> pair_style" where
  "get_style kind =
     (let inl = (\<lambda>b. if b then COPIER_INLINE else COPIER_SIMPLE)
      in \<lparr>ps_kcopier = inl (kind = STYLE_INLINE_COPIERS \<or> kind = STYLE_INLINE_KEY_COPIER),
          ps_vcopier = inl (kind = STYLE_INLINE_COPIERS \<or> kind = STYLE_INLINE_VALUE_COPIER),
          ps_kfreeer = False, ps_vfreeer = False, ps_keeper = False\<rparr>)"

datatype insert_opt = UPSERT | UPDATE | ENSERT | INSERT

section \<open>What a pair holds\<close>

definition item_ok :: "nat \<Rightarrow> qse_xptl \<Rightarrow> bool" where
  "item_ok scale x \<longleftrightarrow> 0 < scale \<and> xptl_wf scale x \<and> xp_ptr x \<noteq> QSE_NULL"

definition plain_style :: "pair_style \<Rightarrow> bool" where
  "plain_style st \<longleftrightarrow> ps_kcopier st \<in> {COPIER_SIMPLE, COPIER_INLINE} \<and> ps_vcopier st \<in> {COPIER_SIMPLE, COPIER_INLINE}"

definition pair_ok :: "nat \<Rightarrow> nat \<Rightarrow> qse_pair \<Rightarrow> bool" where
  "pair_ok kscale vscale p \<longleftrightarrow> pr_addr p \<noteq> QSE_NULL \<and> item_ok kscale (pr_key p) \<and> item_ok vscale (pr_val p)"

lemma plain_get_style: "plain_style (get_style kind)"
  by (simp add: plain_style_def get_style_def)

lemma inline_copy_ok:
  assumes "item_ok scale x" "p \<noteq> QSE_NULL"
  shows "item_ok scale (inline_copy m p scale x)" "xp_data (inline_copy m p scale x) = xp_data x"
    "xp_len (inline_copy m p scale x) = xp_len x"
  using assms by (auto simp: item_ok_def inline_copy_def xptl_wf_def)

lemma alloc_pair_plain:
  assumes "plain_style st" "item_ok kscale k" "item_ok vscale v" "mm = Some (n, m)" "n \<noteq> QSE_NULL"
  obtains p where "alloc_pair st psize kscale vscale mm k v = (Some p, [])" "pair_ok kscale vscale p"
    "xp_data (pr_key p) = xp_data k" "xp_len (pr_key p) = xp_len k" "xp_data (pr_val p) = xp_data v" "pr_addr p = n"
proof -
  have nz: "n + a \<noteq> QSE_NULL" for a using assms(5) by (simp add: QSE_NULL_def)
  have k: "\<exists>k'. alloc_key st psize kscale (n, m) k = Some k' \<and> item_ok kscale k' \<and> xp_data k' = xp_data k \<and> xp_len k' = xp_len k"
    using assms(1,2) inline_copy_ok [OF assms(2) nz] by (auto simp: alloc_key_def plain_style_def)
  then show ?thesis
    using assms that nz inline_copy_ok [OF assms(3)]
    by (auto simp: alloc_pair_def plain_style_def pair_ok_def Let_def add.assoc)
qed

lemma alloc_pair_None [simp]: "alloc_pair st psize kscale vscale None k v = (None, [])"
  by (simp add: alloc_pair_def)

lemma change_pair_val_plain:
  assumes st: "plain_style st" and p: "pair_ok kscale vscale p" and v: "item_ok vscale v"
    and c: "change_pair_val st psize kscale vscale mm p v = (r, log)"
    and mm: "case mm of None \<Rightarrow> True | Some (n, m) \<Rightarrow> n \<noteq> QSE_NULL"
  shows "case r of
      None \<Rightarrow> mm = None \<and> log = []
    | Some p' \<Rightarrow> pair_ok kscale vscale p' \<and>
        (case mm of None \<Rightarrow> pr_addr p' = pr_addr p | Some (n, m) \<Rightarrow> pr_addr p' \<in> {pr_addr p, n}) \<and> xp_data (pr_key p') = xp_data (pr_key p) \<and>
        xp_len (pr_key p') = xp_len (pr_key p) \<and> xp_data (pr_val p') = xp_data v"
proof -
  have pk: "item_ok kscale (pr_key p)" "pr_addr p \<noteq> QSE_NULL" "item_ok vscale (pr_val p)" using p by (auto simp: pair_ok_def)
  consider (kept) "xp_ptr (pr_val p) = xp_ptr v" "xp_len (pr_val p) = xp_len v"
    | (simple) "\<not> (xp_ptr (pr_val p) = xp_ptr v \<and> xp_len (pr_val p) = xp_len v)" "ps_vcopier st = COPIER_SIMPLE"
    | (place) "\<not> (xp_ptr (pr_val p) = xp_ptr v \<and> xp_len (pr_val p) = xp_len v)" "ps_vcopier st = COPIER_INLINE" "xp_len (pr_val p) = xp_len v"
    | (renew) "xp_len (pr_val p) \<noteq> xp_len v" "ps_vcopier st = COPIER_INLINE"
    using st by (auto simp: plain_style_def)
  then show ?thesis
  proof cases
    case kept
    then show ?thesis using c pk v by (auto simp: change_pair_val_def pair_ok_def split: option.splits)
  next
    case simple
    then show ?thesis using c pk v by (auto simp: change_pair_val_def Let_def pair_ok_def split: option.splits)
  next
    case place
    then show ?thesis using c pk v by (auto simp: change_pair_val_def Let_def pair_ok_def item_ok_def xptl_wf_def split: option.splits)
  next
    case renew
    show ?thesis
    proof (cases mm)
      case None
      then show ?thesis using renew c by (auto simp: change_pair_val_def Let_def)
    next
      case (Some blk)
      obtain n m where b: "mm = Some (n, m)" "n \<noteq> QSE_NULL" using Some mm by (cases blk) auto
      obtain q where "alloc_pair st psize kscale vscale mm (pr_key p) v = (Some q, [])" "pair_ok kscale vscale q"
        "xp_data (pr_key q) = xp_data (pr_key p)" "xp_len (pr_key q) = xp_len (pr_key p)" "xp_data (pr_val q) = xp_data v"
        "pr_addr q = n"
        using alloc_pair_plain [OF st pk(1) v b, of psize] by metis
      then show ?thesis using renew c b by (auto simp: change_pair_val_def Let_def)
    qed
  qed
qed

end
