(* ===== verification/Qse_Map.thy ===== *)
theory Qse_Map
  imports Qse_Pair
begin

text \<open>
  The interface \<open>src/include/qse/cmn/map.h\<close> gives to the hash table and the red-black tree alike. Its abstract state is a finite
  map from the bytes of a key to the bytes of a value. The locale \<open>qse_map\<close> states what an implementation promises for
  acceptable items and a memory manager that grants what is asked; inside it, whole sequences of calls are shown to
  behave like the abstract map. The two implementations interpret the locale.
\<close>

section \<open>The abstract map\<close>

type_synonym amap = "byte list \<rightharpoonup> byte list"

definition amap_insert :: "insert_opt \<Rightarrow> amap \<Rightarrow> byte list \<Rightarrow> byte list \<Rightarrow> amap \<times> byte list option" where
  "amap_insert opt a k v =
     (case a k of
        Some old \<Rightarrow>
          (case opt of
             UPSERT \<Rightarrow> (a(k \<mapsto> v), Some v)
           | UPDATE \<Rightarrow> (a(k \<mapsto> v), Some v)
           | ENSERT \<Rightarrow> (a, Some old)
           | INSERT \<Rightarrow> (a, None))
      | None \<Rightarrow> if opt = UPDATE then (a, None) else (a(k \<mapsto> v), Some v))"

definition amap_delete :: "amap \<Rightarrow> byte list \<Rightarrow> amap \<times> int" where
  "amap_delete a k = (if a k = None then (a, - 1) else (a(k := None), 0))"

datatype map_cmd = Ins insert_opt qse_xptl qse_xptl | Search qse_xptl | Del qse_xptl | Clear

datatype map_res = Value "byte list option" | Status int

fun amap_step :: "map_cmd \<Rightarrow> amap \<Rightarrow> amap \<times> map_res" where
  "amap_step (Ins opt k v) a = (let (a', r) = amap_insert opt a (xp_data k) (xp_data v) in (a', Value r))"
| "amap_step (Search k) a = (a, Value (a (xp_data k)))"
| "amap_step (Del k) a = (let (a', r) = amap_delete a (xp_data k) in (a', Status r))"
| "amap_step Clear a = (Map.empty, Status 0)"

fun amap_run :: "map_cmd list \<Rightarrow> amap \<Rightarrow> amap \<times> map_res list" where
  "amap_run [] a = (a, [])"
| "amap_run (c # cs) a = (let (a1, r) = amap_step c a; (a2, rs) = amap_run cs a1 in (a2, r # rs))"

fun cmd_ok :: "nat \<Rightarrow> nat \<Rightarrow> map_cmd \<Rightarrow> bool" where
  "cmd_ok ks vs (Ins opt k v) \<longleftrightarrow> item_ok ks k \<and> item_ok vs v"
| "cmd_ok ks vs (Search k) \<longleftrightarrow> item_ok ks k"
| "cmd_ok ks vs (Del k) \<longleftrightarrow> item_ok ks k"
| "cmd_ok ks vs Clear \<longleftrightarrow> True"

section \<open>Maps as lists of pairs\<close>

definition entry :: "qse_pair \<Rightarrow> byte list \<times> byte list" where
  "entry p = (xp_data (pr_key p), xp_data (pr_val p))"

definition pairs_view :: "qse_pair list \<Rightarrow> amap" where
  "pairs_view ps = map_of (map entry ps)"

definition keys_distinct :: "qse_pair list \<Rightarrow> bool" where
  "keys_distinct ps \<longleftrightarrow> distinct (map (\<lambda>p. xp_data (pr_key p)) ps)"

lemma keys_distinct_entry: "keys_distinct ps \<longleftrightarrow> distinct (map fst (map entry ps))"
  by (simp add: keys_distinct_def entry_def comp_def)

lemma keys_distinct_mset: "mset ps = mset qs \<Longrightarrow> keys_distinct ps = keys_distinct qs"
  unfolding keys_distinct_def by (intro mset_eq_imp_distinct_iff) (metis mset_map)

lemma pairs_view_mset:
  assumes "mset ps = mset qs" "keys_distinct ps"
  shows "pairs_view ps = pairs_view qs"
proof -
  have "keys_distinct qs" using assms keys_distinct_mset by blast
  moreover have "set (map entry ps) = set (map entry qs)" using assms(1) by (metis list.set_map set_mset_mset)
  ultimately show ?thesis
    using assms(2) map_of_inject_set unfolding pairs_view_def keys_distinct_entry by blast
qed

lemma keys_distinct_Cons: "keys_distinct (p # ps) \<longleftrightarrow> keys_distinct ps \<and> pairs_view ps (xp_data (pr_key p)) = None"
proof -
  have "pairs_view ps (xp_data (pr_key p)) = None \<longleftrightarrow> xp_data (pr_key p) \<notin> set (map (\<lambda>p. xp_data (pr_key p)) ps)"
    by (induction ps) (auto simp: pairs_view_def entry_def)
  then show ?thesis by (auto simp: keys_distinct_def)
qed

lemma pairs_view_Cons: "pairs_view (p # ps) = (pairs_view ps)(xp_data (pr_key p) \<mapsto> xp_data (pr_val p))"
  by (simp add: pairs_view_def entry_def)

lemma pairs_view_None: "pairs_view ps k = None \<longleftrightarrow> (\<forall>p \<in> set ps. xp_data (pr_key p) \<noteq> k)"
  by (induction ps) (auto simp: pairs_view_def entry_def)

lemma pairs_view_member:
  "keys_distinct ps \<Longrightarrow> p \<in> set ps \<Longrightarrow> pairs_view ps (xp_data (pr_key p)) = Some (xp_data (pr_val p))"
  using map_of_is_SomeI [of "map entry ps" "xp_data (pr_key p)" "xp_data (pr_val p)"]
  unfolding pairs_view_def keys_distinct_entry by (force simp: entry_def)

text \<open>The three changes a map makes to its pairs.\<close>

lemma pairs_view_add:
  assumes "mset ps' = add_mset p (mset ps)" "keys_distinct ps" "pairs_view ps (xp_data (pr_key p)) = None"
  shows "keys_distinct ps'" "pairs_view ps' = (pairs_view ps)(xp_data (pr_key p) \<mapsto> xp_data (pr_val p))"
proof -
  have d: "keys_distinct (p # ps)" using assms(2,3) keys_distinct_Cons by simp
  have m: "mset ps' = mset (p # ps)" using assms(1) by simp
  show "keys_distinct ps'" using d keys_distinct_mset [OF m] by simp
  show "pairs_view ps' = (pairs_view ps)(xp_data (pr_key p) \<mapsto> xp_data (pr_val p))"
    using pairs_view_mset [OF m [symmetric] d] pairs_view_Cons by simp
qed

lemma pairs_view_remove:
  assumes "add_mset p (mset ps') = mset ps" "keys_distinct ps"
  shows "keys_distinct ps'" "pairs_view ps' = (pairs_view ps)(xp_data (pr_key p) := None)"
proof -
  have m: "mset ps = mset (p # ps')" using assms(1) by simp
  then have d: "keys_distinct (p # ps')" using assms(2) keys_distinct_mset by blast
  then show "keys_distinct ps'" using keys_distinct_Cons by simp
  have "pairs_view ps = (pairs_view ps')(xp_data (pr_key p) \<mapsto> xp_data (pr_val p))"
    using pairs_view_mset [OF m assms(2)] pairs_view_Cons by simp
  moreover have "pairs_view ps' (xp_data (pr_key p)) = None" using d keys_distinct_Cons by simp
  ultimately show "pairs_view ps' = (pairs_view ps)(xp_data (pr_key p) := None)" by auto
qed

lemma pairs_view_replace:
  assumes "add_mset p (mset ps') = add_mset p' (mset ps)" "keys_distinct ps" "p \<in> set ps"
    "xp_data (pr_key p') = xp_data (pr_key p)"
  shows "keys_distinct ps'" "pairs_view ps' = (pairs_view ps)(xp_data (pr_key p) \<mapsto> xp_data (pr_val p'))"
proof -
  obtain qs where q: "mset ps = add_mset p (mset qs)"
    using assms(3) by (metis ex_mset insert_DiffM set_mset_mset)
  note rem = pairs_view_remove [OF q [symmetric] assms(2)]
  have "mset ps' = add_mset p' (mset qs)" using assms(1) q by (simp add: add_mset_commute)
  then show "keys_distinct ps'" "pairs_view ps' = (pairs_view ps)(xp_data (pr_key p) \<mapsto> xp_data (pr_val p'))"
    using pairs_view_add [of ps' p' qs] rem assms(4) by simp_all
qed

section \<open>Walking\<close>

text \<open>
  The walker is the client's, with a state of its own; \<open>True\<close> is the answer to go forward. A chain of pairs is visited in order until
  the walker stops.
\<close>

fun walk_chain :: "('s \<Rightarrow> qse_pair \<Rightarrow> 's \<times> bool) \<Rightarrow> qse_pair list \<Rightarrow> 's \<Rightarrow> 's \<times> bool" where
  "walk_chain walker [] s = (s, True)"
| "walk_chain walker (p # ps) s =
     (let (s', go) = walker s p in if go then walk_chain walker ps s' else (s', False))"

lemma walk_chain_append:
  "walk_chain w (ps @ qs) s = (let (s', go) = walk_chain w ps s in if go then walk_chain w qs s' else (s', False))"
  by (induction ps arbitrary: s) (auto split: prod.splits)

section \<open>The interface\<close>

text \<open>
  The operations of an implementation with state \<open>'m\<close>; \<open>'e\<close> is what the memory manager answers
  during an insertion. One call and the sequence of calls with their results.
\<close>

record ('e, 'm) map_ops =
  op_search :: "'m \<Rightarrow> qse_xptl \<Rightarrow> qse_pair option"
  op_insert :: "'e \<Rightarrow> 'm \<Rightarrow> qse_xptl \<Rightarrow> qse_xptl \<Rightarrow> insert_opt \<Rightarrow> 'm \<times> qse_pair option \<times> pair_call list"
  op_delete :: "'m \<Rightarrow> qse_xptl \<Rightarrow> 'm \<times> int \<times> pair_call list"
  op_clear :: "'m \<Rightarrow> 'm \<times> pair_call list"

fun map_step :: "('e, 'm) map_ops \<Rightarrow> 'e \<times> map_cmd \<Rightarrow> 'm \<Rightarrow> 'm \<times> map_res" where
  "map_step ops (e, Ins opt k v) m =
     (let (m', r, log) = op_insert ops e m k v opt in (m', Value (map_option (\<lambda>p. xp_data (pr_val p)) r)))"
| "map_step ops (e, Search k) m = (m, Value (map_option (\<lambda>p. xp_data (pr_val p)) (op_search ops m k)))"
| "map_step ops (e, Del k) m = (let (m', r, log) = op_delete ops m k in (m', Status r))"
| "map_step ops (e, Clear) m = (let (m', log) = op_clear ops m in (m', Status 0))"

fun map_run :: "('e, 'm) map_ops \<Rightarrow> ('e \<times> map_cmd) list \<Rightarrow> 'm \<Rightarrow> 'm \<times> map_res list" where
  "map_run ops [] m = (m, [])"
| "map_run ops (c # cs) m = (let (m1, r) = map_step ops c m; (m2, rs) = map_run ops cs m1 in (m2, r # rs))"

fun granted :: "('e, 'm) map_ops \<Rightarrow> ('e \<Rightarrow> 'm \<Rightarrow> bool) \<Rightarrow> ('e \<times> map_cmd) list \<Rightarrow> 'm \<Rightarrow> bool" where
  "granted ops grant [] m \<longleftrightarrow> True"
| "granted ops grant (c # cs) m \<longleftrightarrow> grant (fst c) m \<and> granted ops grant cs (fst (map_step ops c m))"

lemma granted_always: "\<forall>c \<in> set cs. \<forall>m. g (fst c) m \<Longrightarrow> granted ops g cs m"
  by (induction cs arbitrary: m) auto

text \<open>Concrete items with scale 1, and a short sequence of calls on them.\<close>

definition bytes_item :: "addr \<Rightarrow> byte list \<Rightarrow> qse_xptl" where
  "bytes_item a bs = \<lparr>xp_ptr = a, xp_len = length bs, xp_data = bs\<rparr>"

lemma bytes_item_ok [simp]: "item_ok (Suc 0) (bytes_item a bs) \<longleftrightarrow> a \<noteq> QSE_NULL"
  by (simp add: item_ok_def xptl_wf_def bytes_item_def TOB_def)

definition demo_cmds :: "map_cmd list" where
  "demo_cmds =
     (let k1 = bytes_item 10 [1, 2]; k2 = bytes_item 20 [3]
      in [Ins INSERT k1 k2, Ins UPSERT k2 k1, Ins UPSERT k1 k1, Search k1, Del k2, Search k2])"

locale qse_map =
  fixes inv :: "'m \<Rightarrow> bool" and view :: "'m \<Rightarrow> amap" and kscale :: "'m \<Rightarrow> nat" and vscale :: "'m \<Rightarrow> nat"
    and grant :: "'e \<Rightarrow> 'm \<Rightarrow> bool" and ops :: "('e, 'm) map_ops"
  assumes search_view: "inv m \<Longrightarrow> item_ok (kscale m) k \<Longrightarrow>
      map_option (\<lambda>p. xp_data (pr_val p)) (op_search ops m k) = view m (xp_data k)"
    and insert_view: "inv m \<Longrightarrow> grant e m \<Longrightarrow> item_ok (kscale m) k \<Longrightarrow> item_ok (vscale m) v \<Longrightarrow>
      op_insert ops e m k v opt = (m', r, log) \<Longrightarrow> inv m' \<and> kscale m' = kscale m \<and> vscale m' = vscale m \<and>
      amap_insert opt (view m) (xp_data k) (xp_data v) = (view m', map_option (\<lambda>p. xp_data (pr_val p)) r)"
    and delete_view: "inv m \<Longrightarrow> item_ok (kscale m) k \<Longrightarrow> op_delete ops m k = (m', st, log) \<Longrightarrow>
      inv m' \<and> kscale m' = kscale m \<and> vscale m' = vscale m \<and> amap_delete (view m) (xp_data k) = (view m', st)"
    and clear_view: "inv m \<Longrightarrow> op_clear ops m = (m', log) \<Longrightarrow>
      inv m' \<and> kscale m' = kscale m \<and> vscale m' = vscale m \<and> view m' = Map.empty"
begin

lemma step_refines:
  assumes "inv m" "grant (fst c) m" "cmd_ok (kscale m) (vscale m) (snd c)"
  defines "m' \<equiv> fst (map_step ops c m)"
  shows "inv m' \<and> kscale m' = kscale m \<and> vscale m' = vscale m \<and>
    amap_step (snd c) (view m) = (view m', snd (map_step ops c m))"
proof -
  obtain e cmd where c: "c = (e, cmd)" by (cases c)
  show ?thesis
  proof (cases cmd)
    case (Ins opt k v)
    obtain m' r log where i: "op_insert ops e m k v opt = (m', r, log)" by (metis prod_cases3)
    then show ?thesis using insert_view [OF assms(1) _ _ _ i] assms(1-3) by (simp add: m'_def c Ins)
  next
    case (Search k)
    then show ?thesis using search_view [OF assms(1)] assms(1-3) by (simp add: m'_def c)
  next
    case (Del k)
    obtain m' r log where d: "op_delete ops m k = (m', r, log)" by (metis prod_cases3)
    then show ?thesis using delete_view [OF assms(1) _ d] assms(1-3) by (simp add: m'_def c Del)
  next
    case Clear
    obtain m' log where d: "op_clear ops m = (m', log)" by (cases "op_clear ops m")
    then show ?thesis using clear_view [OF assms(1) d] by (simp add: m'_def c Clear)
  qed
qed

lemma run_refines:
  assumes "inv m" "granted ops grant cs m" "\<forall>c \<in> set cs. cmd_ok (kscale m) (vscale m) (snd c)"
  shows "inv (fst (map_run ops cs m)) \<and>
    amap_run (map snd cs) (view m) = (view (fst (map_run ops cs m)), snd (map_run ops cs m))"
  using assms
proof (induction cs arbitrary: m)
  case (Cons c cs)
  let ?m = "fst (map_step ops c m)"
  have st: "inv ?m" "kscale ?m = kscale m" "vscale ?m = vscale m" "amap_step (snd c) (view m) = (view ?m, snd (map_step ops c m))"
    using step_refines [of m c] Cons.prems by auto
  have "inv (fst (map_run ops cs ?m)) \<and>
      amap_run (map snd cs) (view ?m) = (view (fst (map_run ops cs ?m)), snd (map_run ops cs ?m))"
    using Cons.prems st by (intro Cons.IH) auto
  then show ?case using st(4) by (auto split: prod.splits)
qed simp

end

end
