(* ===== verification/Qse_Htb.thy ===== *)
theory Qse_Htb
  imports Qse_Map
begin

text \<open>
  The hash table (\<open>src/lib/cmn/htb.c\<close>): an array of buckets, each a chain of pairs linked through
  \<open>next\<close>. A chain is modelled as the list of its pairs in link order, a pair by its address and contents, so
  that relinking a chain is replacing, dropping or adding a list element. The style of the table is split into the part that
  concerns pairs (\<open>pair_style\<close>) and the comparator, sizer and hasher, which are fields.
\<close>

section \<open>State and default callbacks\<close>

record qse_htb =
  htb_style :: pair_style
  htb_comper :: "nat \<Rightarrow> qse_xptl \<Rightarrow> qse_xptl \<Rightarrow> int"
  htb_sizer :: "(nat \<Rightarrow> nat) option"
  htb_hasher :: "qse_xptl \<Rightarrow> nat"
  htb_kscale :: nat
  htb_vscale :: nat
  htb_factor :: nat
  htb_size :: nat
  htb_capa :: nat
  htb_threshold :: nat
  htb_bucket :: "qse_pair list list"

definition HTB_PAIR_SIZE :: nat where
  [qse_defs]: "HTB_PAIR_SIZE = 40"

text \<open>The FNV hash of the first \<open>klen\<close> bytes, in 64-bit arithmetic.\<close>

definition QSE_HASH_INIT :: "64 word" where
  [qse_defs]: "QSE_HASH_INIT = 0xCBF29CE484222325"

definition QSE_HASH_VALUE :: "64 word \<Rightarrow> byte \<Rightarrow> 64 word" where
  "QSE_HASH_VALUE hv v = (hv XOR ucast v) * 0x100000001B3"

definition qse_htb_dflhash :: "qse_xptl \<Rightarrow> nat" where
  "qse_htb_dflhash k = unat (foldl QSE_HASH_VALUE QSE_HASH_INIT (take (xp_len k) (xp_data k)))"

definition qse_htb_dflcomp :: "nat \<Rightarrow> qse_xptl \<Rightarrow> qse_xptl \<Rightarrow> int" where
  "qse_htb_dflcomp scale k1 k2 =
     (if xp_len k1 = xp_len k2
      then bytes_cmp (take (TOB scale (xp_len k1)) (xp_data k1)) (take (TOB scale (xp_len k1)) (xp_data k2))
      else 1)"

text \<open>
  The assertions of \<open>qse_htb_init\<close> ask for a load factor from 0 to 100 and for scales that fit a byte; a build without assertions adjusts the factor and cuts the scales to a byte.
\<close>

definition qse_htb_init :: "bool \<Rightarrow> nat \<Rightarrow> nat \<Rightarrow> int \<Rightarrow> int \<Rightarrow> qse_htb option" where
  "qse_htb_init mem_ok capa factor kscale vscale =
     (let capa = (if capa \<le> 0 then 1 else capa);
          factor = (if factor > 100 then 100 else factor);
          threshold = capa * factor div 100
      in if mem_ok then
           Some \<lparr>htb_style = get_style STYLE_DEFAULT, htb_comper = qse_htb_dflcomp, htb_sizer = None,
                 htb_hasher = qse_htb_dflhash,
                 htb_kscale = byte_scale kscale,
                 htb_vscale = byte_scale vscale,
                 htb_factor = factor, htb_size = 0, htb_capa = capa,
                 htb_threshold = (if capa > 0 \<and> threshold \<le> 0 then 1 else threshold),
                 htb_bucket = replicate capa []\<rparr>
         else None)"

type_synonym htb_style_t = "pair_style \<times> (nat \<Rightarrow> qse_xptl \<Rightarrow> qse_xptl \<Rightarrow> int) \<times> (nat \<Rightarrow> nat) option \<times> (qse_xptl \<Rightarrow> nat)"

definition qse_gethtbstyle :: "style_kind \<Rightarrow> htb_style_t" where
  "qse_gethtbstyle kind = (get_style kind, qse_htb_dflcomp, None, qse_htb_dflhash)"

definition qse_htb_setstyle :: "qse_htb \<Rightarrow> htb_style_t \<Rightarrow> qse_htb" where
  "qse_htb_setstyle htb style =
     (case style of (st, comper, sizer, hasher) \<Rightarrow>
        htb\<lparr>htb_style := st, htb_comper := comper, htb_sizer := sizer, htb_hasher := hasher\<rparr>)"

section \<open>Search\<close>

abbreviation htb_hc :: "qse_htb \<Rightarrow> qse_xptl \<Rightarrow> nat" where
  "htb_hc htb k \<equiv> htb_hasher htb k mod htb_capa htb"

definition key_eq :: "qse_htb \<Rightarrow> qse_pair \<Rightarrow> qse_xptl \<Rightarrow> bool" where
  "key_eq htb p k \<longleftrightarrow> htb_comper htb (htb_kscale htb) (pr_key p) k = 0"

text \<open>The position in a chain of the first pair with a matching key.\<close>

fun chain_find :: "qse_htb \<Rightarrow> qse_pair list \<Rightarrow> qse_xptl \<Rightarrow> nat option" where
  "chain_find htb [] k = None"
| "chain_find htb (p # ps) k = (if key_eq htb p k then Some 0 else map_option Suc (chain_find htb ps k))"

definition qse_htb_search :: "qse_htb \<Rightarrow> qse_xptl \<Rightarrow> qse_pair option" where
  "qse_htb_search htb k =
     (let chain = htb_bucket htb ! htb_hc htb k
      in map_option (\<lambda>i. chain ! i) (chain_find htb chain k))"

section \<open>Insertion\<close>

fun rehash_chain :: "(qse_xptl \<Rightarrow> nat) \<Rightarrow> nat \<Rightarrow> qse_pair list \<Rightarrow> qse_pair list list \<Rightarrow> qse_pair list list" where
  "rehash_chain hasher ncapa [] nb = nb"
| "rehash_chain hasher ncapa (p # ps) nb =
     (let hc = hasher (pr_key p) mod ncapa in rehash_chain hasher ncapa ps (nb[hc := p # nb ! hc]))"

fun rehash_all :: "(qse_xptl \<Rightarrow> nat) \<Rightarrow> nat \<Rightarrow> qse_pair list list \<Rightarrow> qse_pair list list \<Rightarrow> qse_pair list list" where
  "rehash_all hasher ncapa [] nb = nb"
| "rehash_all hasher ncapa (c # cs) nb = rehash_all hasher ncapa cs (rehash_chain hasher ncapa c nb)"

definition reorganize :: "bool \<Rightarrow> qse_htb \<Rightarrow> qse_htb \<times> int" where
  "reorganize mem_ok htb =
     (let same = (case htb_sizer htb of Some f \<Rightarrow> f (htb_capa htb + 1) = htb_capa htb | None \<Rightarrow> False);
          new_capa =
            (case htb_sizer htb of
               Some f \<Rightarrow> (if f (htb_capa htb + 1) \<le> 0 then 1 else f (htb_capa htb + 1))
             | None \<Rightarrow> (if htb_capa htb \<ge> 65536 then htb_capa htb + 65536 else htb_capa htb * 2))
      in if same then (htb, 0)
         else if \<not> mem_ok then (htb\<lparr>htb_threshold := 0\<rparr>, - 1)
         else (htb\<lparr>htb_bucket := rehash_all (htb_hasher htb) new_capa (htb_bucket htb) (replicate new_capa []),
                   htb_capa := new_capa, htb_threshold := new_capa * htb_factor htb div 100\<rparr>, 0))"

definition htb_grow :: "bool \<Rightarrow> qse_htb \<Rightarrow> qse_htb" where
  "htb_grow mem_ok htb =
     (if htb_threshold htb > 0 \<and> htb_size htb \<ge> htb_threshold htb then fst (reorganize mem_ok htb) else htb)"

definition add_front :: "qse_htb \<Rightarrow> nat \<Rightarrow> qse_pair \<Rightarrow> qse_htb" where
  "add_front htb hc p =
     htb\<lparr>htb_bucket := (htb_bucket htb)[hc := p # htb_bucket htb ! hc], htb_size := htb_size htb + 1\<rparr>"

definition htb_insert ::
  "block \<Rightarrow> bool \<Rightarrow> qse_htb \<Rightarrow> qse_xptl \<Rightarrow> qse_xptl \<Rightarrow> insert_opt \<Rightarrow>
   qse_htb \<times> qse_pair option \<times> pair_call list" where
  "htb_insert mm mem_ok htb k v opt =
     (let hc = htb_hc htb k; chain = htb_bucket htb ! hc in
      case chain_find htb chain k of
        Some i \<Rightarrow>
          (case opt of
             ENSERT \<Rightarrow> (htb, Some (chain ! i), [])
           | INSERT \<Rightarrow> (htb, None, [])
           | _ \<Rightarrow>
               (case change_pair_val (htb_style htb) HTB_PAIR_SIZE (htb_kscale htb) (htb_vscale htb) mm (chain ! i) v of
                  (None, log) \<Rightarrow> (htb, None, log)
                | (Some p, log) \<Rightarrow> (htb\<lparr>htb_bucket := (htb_bucket htb)[hc := chain[i := p]]\<rparr>, Some p, log)))
      | None \<Rightarrow>
          if opt = UPDATE then (htb, None, [])
          else
            (let htb = htb_grow mem_ok htb in
             case alloc_pair (htb_style htb) HTB_PAIR_SIZE (htb_kscale htb) (htb_vscale htb) mm k v of
               (None, log) \<Rightarrow> (htb, None, log)
             | (Some p, log) \<Rightarrow> (add_front htb (htb_hc htb k) p, Some p, log)))"

definition qse_htb_upsert where
  "qse_htb_upsert mm mem_ok htb k v = htb_insert mm mem_ok htb k v UPSERT"
definition qse_htb_ensert where
  "qse_htb_ensert mm mem_ok htb k v = htb_insert mm mem_ok htb k v ENSERT"
definition qse_htb_insert where
  "qse_htb_insert mm mem_ok htb k v = htb_insert mm mem_ok htb k v INSERT"
definition qse_htb_update where
  "qse_htb_update mm mem_ok htb k v = htb_insert mm mem_ok htb k v UPDATE"

text \<open>
  The callback of \<open>qse_htb_cbsert\<close> is the client's: it is given the existing pair or null and returns
  the pair to keep, or null.
\<close>

definition qse_htb_cbsert ::
  "bool \<Rightarrow> qse_htb \<Rightarrow> qse_xptl \<Rightarrow> (qse_pair option \<Rightarrow> qse_pair option) \<Rightarrow> qse_htb \<times> qse_pair option" where
  "qse_htb_cbsert mem_ok htb k cbserter =
     (let hc = htb_hc htb k; chain = htb_bucket htb ! hc in
      case chain_find htb chain k of
        Some i \<Rightarrow>
          (case cbserter (Some (chain ! i)) of
             None \<Rightarrow> (htb, None)
           | Some p \<Rightarrow> (htb\<lparr>htb_bucket := (htb_bucket htb)[hc := chain[i := p]]\<rparr>, Some p))
      | None \<Rightarrow>
          (let htb = htb_grow mem_ok htb in
           case cbserter None of
             None \<Rightarrow> (htb, None)
           | Some p \<Rightarrow> (add_front htb (htb_hc htb k) p, Some p)))"

section \<open>Deletion\<close>

definition qse_htb_delete :: "qse_htb \<Rightarrow> qse_xptl \<Rightarrow> qse_htb \<times> int \<times> pair_call list" where
  "qse_htb_delete htb k =
     (let hc = htb_hc htb k; chain = htb_bucket htb ! hc in
      case chain_find htb chain k of
        None \<Rightarrow> (htb, - 1, [])
      | Some i \<Rightarrow>
          (htb\<lparr>htb_bucket := (htb_bucket htb)[hc := take i chain @ drop (i + 1) chain],
               htb_size := htb_size htb - 1\<rparr>, 0, free_pair (htb_style htb) (chain ! i)))"

fun clear_chain :: "pair_style \<Rightarrow> qse_pair list \<Rightarrow> nat \<Rightarrow> nat \<times> pair_call list" where
  "clear_chain st [] sz = (sz, [])"
| "clear_chain st (p # ps) sz =
     (let (sz', log) = clear_chain st ps (sz - 1) in (sz', free_pair st p @ log))"

fun clear_buckets :: "pair_style \<Rightarrow> qse_pair list list \<Rightarrow> nat \<Rightarrow> qse_pair list list \<times> nat \<times> pair_call list" where
  "clear_buckets st [] sz = ([], sz, [])"
| "clear_buckets st (c # cs) sz =
     (let (sz1, log1) = clear_chain st c sz;
          (cs', sz2, log2) = clear_buckets st cs sz1
      in ([] # cs', sz2, log1 @ log2))"

definition qse_htb_clear :: "qse_htb \<Rightarrow> qse_htb \<times> pair_call list" where
  "qse_htb_clear htb =
     (let (b, sz, log) = clear_buckets (htb_style htb) (htb_bucket htb) (htb_size htb)
      in (htb\<lparr>htb_bucket := b, htb_size := sz\<rparr>, log))"

section \<open>Iteration\<close>

fun walk_buckets :: "('s \<Rightarrow> qse_pair \<Rightarrow> 's \<times> bool) \<Rightarrow> qse_pair list list \<Rightarrow> 's \<Rightarrow> 's" where
  "walk_buckets walker [] s = s"
| "walk_buckets walker (c # cs) s =
     (let (s', go) = walk_chain walker c s in if go then walk_buckets walker cs s' else s')"

definition qse_htb_walk :: "qse_htb \<Rightarrow> ('s \<Rightarrow> qse_pair \<Rightarrow> 's \<times> bool) \<Rightarrow> 's \<Rightarrow> 's" where
  "qse_htb_walk htb walker ctx = walk_buckets walker (htb_bucket htb) ctx"

text \<open>
  A position is a bucket number and an index in its chain. \<open>scan_buckets\<close> is the loop that looks
  for the next bucket that is not empty.
\<close>

function scan_buckets :: "qse_htb \<Rightarrow> nat \<Rightarrow> (qse_pair \<times> nat \<times> nat) option" where
  "scan_buckets htb i =
     (if i < htb_capa htb then
        (case htb_bucket htb ! i of
           [] \<Rightarrow> scan_buckets htb (i + 1)
         | p # ps \<Rightarrow> Some (p, i, 0))
      else None)"
  by pat_completeness auto
termination by (relation "measure (\<lambda>(htb, i). htb_capa htb - i)") auto

declare scan_buckets.simps [simp del]

definition qse_htb_getfirstpair :: "qse_htb \<Rightarrow> (qse_pair \<times> nat \<times> nat) option" where
  "qse_htb_getfirstpair htb = scan_buckets htb 0"

definition qse_htb_getnextpair :: "qse_htb \<Rightarrow> nat \<times> nat \<Rightarrow> (qse_pair \<times> nat \<times> nat) option" where
  "qse_htb_getnextpair htb pos =
     (case pos of (buckno, j) \<Rightarrow>
        if j + 1 < length (htb_bucket htb ! buckno)
        then Some (htb_bucket htb ! buckno ! (j + 1), buckno, j + 1)
        else scan_buckets htb (buckno + 1))"

section \<open>The invariant\<close>

definition hash_ok :: "nat \<Rightarrow> (qse_xptl \<Rightarrow> nat) \<Rightarrow> bool" where
  "hash_ok scale h \<longleftrightarrow> (\<forall>k k'. item_ok scale k \<longrightarrow> item_ok scale k' \<longrightarrow> xp_data k = xp_data k' \<longrightarrow> h k = h k')"

definition htb_pairs :: "qse_htb \<Rightarrow> qse_pair list" where
  "htb_pairs htb = concat (htb_bucket htb)"

definition placed :: "(qse_xptl \<Rightarrow> nat) \<Rightarrow> nat \<Rightarrow> qse_pair list list \<Rightarrow> bool" where
  "placed h capa b \<longleftrightarrow> length b = capa \<and> (\<forall>i < capa. \<forall>p \<in> set (b ! i). h (pr_key p) mod capa = i)"

definition htb_ok :: "qse_htb \<Rightarrow> bool" where
  "htb_ok htb \<longleftrightarrow> 0 < htb_capa htb \<and> plain_style (htb_style htb) \<and> htb_comper htb = qse_htb_dflcomp \<and>
     hash_ok (htb_kscale htb) (htb_hasher htb) \<and> placed (htb_hasher htb) (htb_capa htb) (htb_bucket htb) \<and>
     htb_size htb = length (htb_pairs htb) \<and>
     (\<forall>p \<in> set (htb_pairs htb). pair_ok (htb_kscale htb) (htb_vscale htb) p) \<and> keys_distinct (htb_pairs htb)"

definition htb_view :: "qse_htb \<Rightarrow> amap" where
  "htb_view htb = pairs_view (htb_pairs htb)"

lemma item_ok_len: "item_ok s k \<Longrightarrow> item_ok s k' \<Longrightarrow> xp_data k = xp_data k' \<Longrightarrow> xp_len k = xp_len k'"
  by (auto simp: item_ok_def xptl_wf_def TOB_def)

lemma dflcomp_eq:
  assumes "item_ok s k" "item_ok s k'" shows "qse_htb_dflcomp s k k' = 0 \<longleftrightarrow> xp_data k = xp_data k'"
proof -
  have l: "length (xp_data k) = TOB s (xp_len k)" "length (xp_data k') = TOB s (xp_len k')" "0 < s"
    using assms by (auto simp: item_ok_def xptl_wf_def)
  show ?thesis
  proof (cases "xp_len k = xp_len k'")
    case True
    then show ?thesis using l by (simp add: qse_htb_dflcomp_def bytes_cmp_0)
  next
    case False
    then have "length (xp_data k) \<noteq> length (xp_data k')" using l by (simp add: TOB_def)
    then show ?thesis using False by (auto simp: qse_htb_dflcomp_def)
  qed
qed

lemma dflhash_ok: "hash_ok s qse_htb_dflhash"
  unfolding hash_ok_def qse_htb_dflhash_def using item_ok_len by metis

lemma key_eq_data:
  assumes "htb_ok htb" "p \<in> set (htb_pairs htb)" "item_ok (htb_kscale htb) k"
  shows "key_eq htb p k \<longleftrightarrow> xp_data (pr_key p) = xp_data k"
  using assms dflcomp_eq [of "htb_kscale htb" "pr_key p" k] by (auto simp: key_eq_def htb_ok_def pair_ok_def)

lemma chain_find_Some: "chain_find htb ps k = Some i \<Longrightarrow> i < length ps \<and> key_eq htb (ps ! i) k"
  by (induction ps arbitrary: i) (auto split: if_splits)

lemma chain_find_None: "chain_find htb ps k = None \<Longrightarrow> p \<in> set ps \<Longrightarrow> \<not> key_eq htb p k"
  by (induction ps) (auto split: if_splits)

lemma hc_bound: "htb_ok htb \<Longrightarrow> htb_hc htb k < length (htb_bucket htb)"
  by (simp add: htb_ok_def placed_def)

lemma chain_pairs: "i < length b \<Longrightarrow> p \<in> set (b ! i) \<Longrightarrow> p \<in> set (concat b)"
  by (auto simp: in_set_conv_nth) (metis nth_mem)

lemma find_found:
  assumes ok: "htb_ok htb" and k: "item_ok (htb_kscale htb) k" and c: "chain = htb_bucket htb ! htb_hc htb k"
    and f: "chain_find htb chain k = Some i"
  shows "i < length chain" "chain ! i \<in> set (htb_pairs htb)" "xp_data (pr_key (chain ! i)) = xp_data k"
    "htb_view htb (xp_data k) = Some (xp_data (pr_val (chain ! i)))"
proof -
  note s = chain_find_Some [OF f]
  show l: "i < length chain" using s by simp
  show m: "chain ! i \<in> set (htb_pairs htb)"
    unfolding htb_pairs_def using l c by (intro chain_pairs [OF hc_bound [OF ok, of k]]) simp
  show d: "xp_data (pr_key (chain ! i)) = xp_data k" using key_eq_data [OF ok m k] s by simp
  have "keys_distinct (htb_pairs htb)" using ok by (simp add: htb_ok_def)
  from pairs_view_member [OF this m] d show "htb_view htb (xp_data k) = Some (xp_data (pr_val (chain ! i)))"
    by (simp add: htb_view_def)
qed

lemma find_missing:
  assumes ok: "htb_ok htb" and k: "item_ok (htb_kscale htb) k"
    and f: "chain_find htb (htb_bucket htb ! htb_hc htb k) k = None"
  shows "htb_view htb (xp_data k) = None"
  unfolding htb_view_def pairs_view_None
proof
  fix p assume p: "p \<in> set (htb_pairs htb)"
  show "xp_data (pr_key p) \<noteq> xp_data k"
  proof
    assume d: "xp_data (pr_key p) = xp_data k"
    obtain i where i: "i < length (htb_bucket htb)" "p \<in> set (htb_bucket htb ! i)"
      using p by (auto simp: htb_pairs_def in_set_conv_nth) (metis in_set_conv_nth)
    have "item_ok (htb_kscale htb) (pr_key p)" using ok p by (auto simp: htb_ok_def pair_ok_def)
    moreover have "hash_ok (htb_kscale htb) (htb_hasher htb)" using ok by (simp add: htb_ok_def)
    ultimately have "htb_hasher htb (pr_key p) = htb_hasher htb k" using k d unfolding hash_ok_def by blast
    moreover have "htb_hc htb (pr_key p) = i" using ok i by (auto simp: htb_ok_def placed_def)
    ultimately have "i = htb_hc htb k" by simp
    then have "\<not> key_eq htb p k" using chain_find_None [OF f] i by simp
    then show False using key_eq_data [OF ok p k] d by simp
  qed
qed

lemma qse_htb_search_view:
  assumes "htb_ok htb" "item_ok (htb_kscale htb) k"
  shows "map_option (\<lambda>p. xp_data (pr_val p)) (qse_htb_search htb k) = htb_view htb (xp_data k)"
  using find_found(4) [OF assms refl] find_missing [OF assms]
  by (cases "chain_find htb (htb_bucket htb ! htb_hc htb k) k") (auto simp: qse_htb_search_def Let_def)

section \<open>Reorganisation\<close>

lemma rehash_chain_spec:
  assumes "length nb = n" "0 < n"
  shows "length (rehash_chain h n ps nb) = n" "mset (concat (rehash_chain h n ps nb)) = mset ps + mset (concat nb)"
    "placed h n nb \<Longrightarrow> placed h n (rehash_chain h n ps nb)"
proof -
  have mc: "mset (concat (b[i := p # b ! i])) = add_mset p (mset (concat b))" if "i < length b" for b :: "qse_pair list list" and i p
    using that by (induction b arbitrary: i) (auto split: nat.splits)
  have "length (rehash_chain h n ps nb) = n \<and> mset (concat (rehash_chain h n ps nb)) = mset ps + mset (concat nb) \<and>
      (placed h n nb \<longrightarrow> placed h n (rehash_chain h n ps nb))"
    using assms
  proof (induction ps arbitrary: nb)
    case (Cons p ps)
    let ?hc = "h (pr_key p) mod n" let ?nb = "nb[?hc := p # nb ! ?hc]"
    have hc: "?hc < length nb" using Cons.prems by simp
    have "placed h n nb \<Longrightarrow> placed h n ?nb" using Cons.prems by (auto simp: placed_def nth_list_update)
    then show ?case using Cons.IH [of ?nb] Cons.prems mc [OF hc, of p] by (auto simp: Let_def)
  qed simp
  then show "length (rehash_chain h n ps nb) = n" "mset (concat (rehash_chain h n ps nb)) = mset ps + mset (concat nb)"
    "placed h n nb \<Longrightarrow> placed h n (rehash_chain h n ps nb)" by auto
qed

lemma rehash_all_spec:
  assumes "length nb = n" "0 < n" "placed h n nb"
  shows "placed h n (rehash_all h n cs nb)" "mset (concat (rehash_all h n cs nb)) = mset (concat cs) + mset (concat nb)"
proof -
  have "placed h n (rehash_all h n cs nb) \<and> mset (concat (rehash_all h n cs nb)) = mset (concat cs) + mset (concat nb)"
    using assms
  proof (induction cs arbitrary: nb)
    case (Cons c cs)
    then show ?case using Cons.IH [of "rehash_chain h n c nb"] rehash_chain_spec [of nb n h c] by simp
  qed simp
  then show "placed h n (rehash_all h n cs nb)" "mset (concat (rehash_all h n cs nb)) = mset (concat cs) + mset (concat nb)"
    by auto
qed

lemma htb_ok_pairs_cong:
  assumes "htb_ok htb" "mset (htb_pairs htb') = mset (htb_pairs htb)"
    and "0 < htb_capa htb'" "placed (htb_hasher htb') (htb_capa htb') (htb_bucket htb')"
    and "htb_style htb' = htb_style htb" "htb_comper htb' = htb_comper htb" "htb_hasher htb' = htb_hasher htb"
      "htb_kscale htb' = htb_kscale htb" "htb_vscale htb' = htb_vscale htb" "htb_size htb' = htb_size htb"
  shows "htb_ok htb'" "htb_view htb' = htb_view htb"
proof -
  have d: "keys_distinct (htb_pairs htb')" "htb_size htb' = length (htb_pairs htb')"
    "set (htb_pairs htb') = set (htb_pairs htb)"
    using assms(1,2,10) keys_distinct_mset [OF assms(2)] mset_eq_length [OF assms(2)] mset_eq_setD [OF assms(2)]
    by (auto simp: htb_ok_def)
  then show "htb_ok htb'" using assms by (simp add: htb_ok_def)
  show "htb_view htb' = htb_view htb" unfolding htb_view_def using assms(2) d(1) by (rule pairs_view_mset)
qed

lemma htb_grow_ok:
  assumes "htb_ok htb"
  shows "htb_ok (htb_grow m htb)" "htb_view (htb_grow m htb) = htb_view htb"
    "htb_kscale (htb_grow m htb) = htb_kscale htb" "htb_vscale (htb_grow m htb) = htb_vscale htb"
    "htb_style (htb_grow m htb) = htb_style htb"
proof -
  define nc where "nc = (case htb_sizer htb of
               Some f \<Rightarrow> (if f (htb_capa htb + 1) \<le> 0 then 1 else f (htb_capa htb + 1))
             | None \<Rightarrow> (if htb_capa htb \<ge> 65536 then htb_capa htb + 65536 else htb_capa htb * 2))"
  have cap: "0 < htb_capa htb" using assms by (simp add: htb_ok_def)
  then have nc: "0 < nc" by (auto simp: nc_def split: option.splits)
  let ?b = "rehash_all (htb_hasher htb) nc (htb_bucket htb) (replicate nc [])"
  let ?h = "htb\<lparr>htb_bucket := ?b, htb_capa := nc, htb_threshold := nc * htb_factor htb div 100\<rparr>"
  have "placed (htb_hasher htb) nc (replicate nc [])" by (simp add: placed_def)
  note ra = rehash_all_spec [OF _ nc this, of "htb_bucket htb"]
  have "concat (replicate nc []) = []" by simp
  then have m: "mset (htb_pairs ?h) = mset (htb_pairs htb)" using ra(2) by (simp add: htb_pairs_def)
  have new: "htb_ok ?h" "htb_view ?h = htb_view htb"
    using htb_ok_pairs_cong [OF assms m] nc ra(1) by simp_all
  have pl: "placed (htb_hasher htb) (htb_capa htb) (htb_bucket htb)" using assms by (simp add: htb_ok_def)
  have old: "htb_ok (htb\<lparr>htb_threshold := 0\<rparr>)" "htb_view (htb\<lparr>htb_threshold := 0\<rparr>) = htb_view htb"
    using htb_ok_pairs_cong [OF assms, of "htb\<lparr>htb_threshold := 0\<rparr>"] cap pl by (simp_all add: htb_pairs_def)
  have "htb_grow m htb \<in> {htb, ?h, htb\<lparr>htb_threshold := 0\<rparr>}"
    by (simp add: htb_grow_def reorganize_def Let_def nc_def)
  then show "htb_ok (htb_grow m htb)" "htb_view (htb_grow m htb) = htb_view htb"
    "htb_kscale (htb_grow m htb) = htb_kscale htb" "htb_vscale (htb_grow m htb) = htb_vscale htb"
    "htb_style (htb_grow m htb) = htb_style htb"
    using assms new old by auto
qed


section \<open>The operations refine the abstract map\<close>

lemma concat_update_mset:
  fixes b :: "qse_pair list list"
  assumes "i < length b"
  shows "mset (concat (b[i := c])) + mset (b ! i) = mset (concat b) + mset c"
  using assms by (induction b arbitrary: i) (auto split: nat.splits)

lemma htb_replace_ok:
  assumes ok: "htb_ok htb" and hc: "hc < htb_capa htb" and c: "chain = htb_bucket htb ! hc" and i: "i < length chain"
    and p: "pair_ok (htb_kscale htb) (htb_vscale htb) p" "xp_data (pr_key p) = xp_data (pr_key (chain ! i))"
  defines "htb' \<equiv> htb\<lparr>htb_bucket := (htb_bucket htb)[hc := chain[i := p]]\<rparr>"
  shows "htb_ok htb'" "htb_view htb' = (htb_view htb)(xp_data (pr_key p) \<mapsto> xp_data (pr_val p))"
proof -
  have l: "hc < length (htb_bucket htb)" using ok hc by (simp add: htb_ok_def placed_def)
  have mem: "chain ! i \<in> set (htb_pairs htb)" unfolding htb_pairs_def using l c i by (intro chain_pairs [OF l]) simp
  have ci: "add_mset (chain ! i) (mset (chain[i := p])) = add_mset p (mset chain)"
    using i nth_mem_mset [OF i] by (simp add: mset_update add_mset_commute [of p] insert_DiffM)
  have m: "add_mset (chain ! i) (mset (htb_pairs htb')) = add_mset p (mset (htb_pairs htb))"
    using concat_update_mset [OF l, of "chain[i := p]"] ci
    unfolding htb'_def htb_pairs_def c [symmetric] by (simp add: union_iff) (metis add_right_imp_eq union_mset_add_mset_left union_mset_add_mset_right)
  have kd: "keys_distinct (htb_pairs htb)" and len: "htb_size htb = length (htb_pairs htb)" using ok by (auto simp: htb_ok_def)
  note v = pairs_view_replace [OF m kd mem p(2)]
  show "htb_view htb' = (htb_view htb)(xp_data (pr_key p) \<mapsto> xp_data (pr_val p))" using v(2) p(2) by (simp add: htb_view_def)
  have s: "set (htb_pairs htb') \<subseteq> insert p (set (htb_pairs htb))" using m by (metis insert_iff set_mset_add_mset_insert set_mset_mset subsetI)
  have sz: "length (htb_pairs htb') = length (htb_pairs htb)" using m by (metis nat.inject size_add_mset size_mset)
  have k: "item_ok (htb_kscale htb) (pr_key p)" "item_ok (htb_kscale htb) (pr_key (chain ! i))"
    using p ok mem by (auto simp: htb_ok_def pair_ok_def)
  have "hash_ok (htb_kscale htb) (htb_hasher htb)" using ok by (simp add: htb_ok_def)
  then have "htb_hasher htb (pr_key p) = htb_hasher htb (pr_key (chain ! i))"
    using k p(2) unfolding hash_ok_def by blast
  moreover have "htb_hasher htb (pr_key (chain ! i)) mod htb_capa htb = hc"
    using ok hc i by (auto simp: htb_ok_def placed_def c)
  ultimately have hp: "htb_hasher htb (pr_key p) mod htb_capa htb = hc" by simp
  have pl: "length (htb_bucket htb) = htb_capa htb"
    "\<And>j q. j < htb_capa htb \<Longrightarrow> q \<in> set (htb_bucket htb ! j) \<Longrightarrow> htb_hasher htb (pr_key q) mod htb_capa htb = j"
    using ok by (auto simp: htb_ok_def placed_def)
  have "placed (htb_hasher htb) (htb_capa htb) (htb_bucket htb')"
    unfolding placed_def
  proof (intro conjI allI impI ballI)
    show "length (htb_bucket htb') = htb_capa htb" by (simp add: htb'_def pl)
    fix j q assume j: "j < htb_capa htb" and q: "q \<in> set (htb_bucket htb' ! j)"
    show "htb_hasher htb (pr_key q) mod htb_capa htb = j"
    proof (cases "j = hc")
      case True
      then have "q \<in> set (chain[i := p])" using q l by (simp add: htb'_def)
      then have "q = p \<or> q \<in> set chain" using set_update_subset_insert [of chain i p] by blast
      then show ?thesis using hp pl(2) [OF hc] True c by auto
    next
      case False
      then show ?thesis using q pl(2) [OF j] by (simp add: htb'_def)
    qed
  qed
  then show "htb_ok htb'" using ok v(1) s sz len p(1) by (auto simp: htb_ok_def htb'_def)
qed

lemma add_front_ok:
  assumes ok: "htb_ok htb" and p: "pair_ok (htb_kscale htb) (htb_vscale htb) p"
    and n: "htb_view htb (xp_data (pr_key p)) = None" and hc: "hc = htb_hc htb (pr_key p)"
  shows "htb_ok (add_front htb hc p)"
    "htb_view (add_front htb hc p) = (htb_view htb)(xp_data (pr_key p) \<mapsto> xp_data (pr_val p))"
proof -
  let ?h = "add_front htb hc p"
  have l: "hc < length (htb_bucket htb)" using hc_bound [OF ok] hc by simp
  have m: "mset (htb_pairs ?h) = add_mset p (mset (htb_pairs htb))"
    using concat_update_mset [OF l, of "p # htb_bucket htb ! hc"] by (simp add: add_front_def htb_pairs_def)
  have kd: "keys_distinct (htb_pairs htb)" using ok by (simp add: htb_ok_def)
  note v = pairs_view_add [OF m kd n [unfolded htb_view_def]]
  show "htb_view ?h = (htb_view htb)(xp_data (pr_key p) \<mapsto> xp_data (pr_val p))" using v(2) by (simp add: htb_view_def)
  have "length (htb_pairs ?h) = length (htb_pairs htb) + 1" using m by (metis Suc_eq_plus1 size_add_mset size_mset)
  moreover have "set (htb_pairs ?h) = insert p (set (htb_pairs htb))" using m by (metis set_mset_add_mset_insert set_mset_mset)
  moreover have "placed (htb_hasher htb) (htb_capa htb) (htb_bucket ?h)"
    using ok hc by (auto simp: htb_ok_def placed_def add_front_def nth_list_update)
  ultimately show "htb_ok ?h" using ok p v(1) by (auto simp: htb_ok_def add_front_def)
qed

definition block_ok :: "block \<Rightarrow> bool" where
  "block_ok mm \<longleftrightarrow> (case mm of None \<Rightarrow> True | Some (n, m) \<Rightarrow> n \<noteq> QSE_NULL)"

lemma htb_insert_view:
  assumes ok: "htb_ok htb" and k: "item_ok (htb_kscale htb) k" and v: "item_ok (htb_vscale htb) v" and mm: "block_ok mm"
    and i: "htb_insert mm mem_ok htb k v opt = (htb', r, log)"
  shows "htb_ok htb' \<and> htb_kscale htb' = htb_kscale htb \<and> htb_vscale htb' = htb_vscale htb \<and>
    ((mm = None \<and> r = None \<and> htb_view htb' = htb_view htb) \<or>
     amap_insert opt (htb_view htb) (xp_data k) (xp_data v) = (htb_view htb', map_option (\<lambda>p. xp_data (pr_val p)) r))"
proof -
  let ?hc = "htb_hc htb k" let ?chain = "htb_bucket htb ! htb_hc htb k"
  have hc: "?hc < htb_capa htb" and st: "plain_style (htb_style htb)" using ok by (auto simp: htb_ok_def)
  show ?thesis
  proof (cases "chain_find htb ?chain k")
    case (Some j)
    note f = find_found [OF ok k refl Some]
    have pk: "pair_ok (htb_kscale htb) (htb_vscale htb) (?chain ! j)" using ok f(2) by (simp add: htb_ok_def)
    obtain r' log' where c: "change_pair_val (htb_style htb) HTB_PAIR_SIZE (htb_kscale htb) (htb_vscale htb) mm (?chain ! j) v = (r', log')"
      by (metis surj_pair)
    note cp = change_pair_val_plain [OF st pk v c mm [unfolded block_ok_def]]
    have upd: ?thesis if o: "opt = UPSERT \<or> opt = UPDATE"
    proof (cases r')
      case None
      then show ?thesis using i o Some c cp ok by (auto simp: htb_insert_def Let_def)
    next
      case (Some p)
      then have p: "pair_ok (htb_kscale htb) (htb_vscale htb) p" "xp_data (pr_key p) = xp_data (pr_key (?chain ! j))"
        "xp_data (pr_val p) = xp_data v" using cp by auto
      note rp = htb_replace_ok [OF ok hc refl f(1) p(1,2)]
      have "htb' = htb\<lparr>htb_bucket := (htb_bucket htb)[?hc := ?chain[j := p]]\<rparr>" "r = Some p"
        using i o \<open>chain_find htb ?chain k = Some j\<close> c Some by (auto simp: htb_insert_def Let_def)
      then show ?thesis using o rp p(2,3) f(3,4) by (auto simp: amap_insert_def)
    qed
    show ?thesis
    proof (cases opt)
      case ENSERT
      then show ?thesis using i Some f ok by (auto simp: htb_insert_def Let_def amap_insert_def)
    next
      case INSERT
      then show ?thesis using i Some f ok by (auto simp: htb_insert_def Let_def amap_insert_def)
    qed (use upd in auto)
  next
    case None
    note miss = find_missing [OF ok k None]
    show ?thesis
    proof (cases "opt = UPDATE")
      case True
      then show ?thesis using i None miss ok by (auto simp: htb_insert_def Let_def amap_insert_def)
    next
      case False
      let ?g = "htb_grow mem_ok htb"
      note g = htb_grow_ok [OF ok, of mem_ok]
      obtain r' log' where a: "alloc_pair (htb_style ?g) HTB_PAIR_SIZE (htb_kscale ?g) (htb_vscale ?g) mm k v = (r', log')"
        by (metis surj_pair)
      show ?thesis
      proof (cases mm)
        case mmN: None
        then show ?thesis using i None False a g by (auto simp: htb_insert_def Let_def)
      next
        case (Some blk)
        obtain n m where b: "mm = Some (n, m)" "n \<noteq> QSE_NULL" using Some mm by (cases blk) (auto simp: block_ok_def)
        have pre: "plain_style (htb_style ?g)" "item_ok (htb_kscale ?g) k" "item_ok (htb_vscale ?g) v" using st k v g by auto
        obtain p where p: "r' = Some p" "pair_ok (htb_kscale ?g) (htb_vscale ?g) p"
          "xp_data (pr_key p) = xp_data k" "xp_len (pr_key p) = xp_len k" "xp_data (pr_val p) = xp_data v"
          using alloc_pair_plain [OF pre b, of HTB_PAIR_SIZE] a by (metis Pair_inject)
        have "hash_ok (htb_kscale ?g) (htb_hasher ?g)" using g(1) by (simp add: htb_ok_def)
        then have h: "htb_hasher ?g (pr_key p) = htb_hasher ?g k"
          using p(2,3) pre(2) unfolding hash_ok_def pair_ok_def by blast
        have "htb_view ?g (xp_data (pr_key p)) = None" using miss g(2) p(3) by simp
        note af = add_front_ok [OF g(1) p(2) this refl, unfolded h]
        have "htb' = add_front ?g (htb_hc ?g k) p" "r = Some p"
          using i None False a p(1) by (auto simp: htb_insert_def Let_def)
        then show ?thesis using af g p(3,5) miss False by (auto simp: amap_insert_def add_front_def)
      qed
    qed
  qed
qed

lemma qse_htb_delete_view:
  assumes ok: "htb_ok htb" and k: "item_ok (htb_kscale htb) k" and d: "qse_htb_delete htb k = (htb', st, log)"
  shows "htb_ok htb' \<and> htb_kscale htb' = htb_kscale htb \<and> htb_vscale htb' = htb_vscale htb \<and>
    amap_delete (htb_view htb) (xp_data k) = (htb_view htb', st)"
proof -
  let ?hc = "htb_hc htb k" let ?chain = "htb_bucket htb ! htb_hc htb k"
  show ?thesis
  proof (cases "chain_find htb ?chain k")
    case None
    then show ?thesis using d find_missing [OF ok k None] ok by (auto simp: qse_htb_delete_def Let_def amap_delete_def)
  next
    case (Some i)
    note f = find_found [OF ok k refl Some]
    let ?c = "take i ?chain @ drop (i + 1) ?chain"
    have h: "htb' = htb\<lparr>htb_bucket := (htb_bucket htb)[?hc := ?c], htb_size := htb_size htb - 1\<rparr>" "st = 0"
      using d Some by (auto simp: qse_htb_delete_def Let_def)
    have l: "?hc < length (htb_bucket htb)" using hc_bound [OF ok] .
    have ci: "mset ?chain = add_mset (?chain ! i) (mset ?c)"
      by (subst id_take_nth_drop [OF f(1)]) simp
    have m: "add_mset (?chain ! i) (mset (htb_pairs htb')) = mset (htb_pairs htb)"
      using concat_update_mset [OF l, of ?c] unfolding ci by (simp add: h htb_pairs_def)
    have kd: "keys_distinct (htb_pairs htb)" using ok by (simp add: htb_ok_def)
    note v = pairs_view_remove [OF m kd]
    have "set (htb_pairs htb') \<subseteq> set (htb_pairs htb)" using m by (metis insert_subset order_refl set_mset_add_mset_insert set_mset_mset)
    moreover have "length (htb_pairs htb) = length (htb_pairs htb') + 1" using m by (metis Suc_eq_plus1 size_add_mset size_mset)
    moreover have "set ?c \<subseteq> set ?chain" using ci by (metis insert_subset order_refl set_mset_add_mset_insert set_mset_mset)
    then have "placed (htb_hasher htb) (htb_capa htb) (htb_bucket htb')"
      using ok l by (auto simp: h htb_ok_def placed_def nth_list_update)
    ultimately have "htb_ok htb'" using ok v(1) by (auto simp: htb_ok_def h)
    then show ?thesis using v(2) f(3,4) h by (auto simp: amap_delete_def htb_view_def)
  qed
qed

lemma qse_htb_init_ok:
  assumes "qse_htb_init mem_ok capa factor ks vs = Some htb"
  shows "htb_ok htb" "htb_view htb = Map.empty" "htb_kscale htb = byte_scale ks" "htb_vscale htb = byte_scale vs"
proof -
  have b: "htb_pairs htb = []" "htb_bucket htb = replicate (htb_capa htb) []" "0 < htb_capa htb"
    using assms by (auto simp: qse_htb_init_def Let_def htb_pairs_def split: if_splits)
  have "placed (htb_hasher htb) (htb_capa htb) (htb_bucket htb)" by (simp add: placed_def b(2))
  then show "htb_ok htb" using assms b(1,3) plain_get_style dflhash_ok
    by (auto simp: htb_ok_def qse_htb_init_def Let_def keys_distinct_def split: if_splits)
  show "htb_view htb = Map.empty" by (simp add: htb_view_def b(1) pairs_view_def)
  show "htb_kscale htb = byte_scale ks" "htb_vscale htb = byte_scale vs"
    using assms by (auto simp: qse_htb_init_def Let_def split: if_splits)
qed

lemma clear_chain_spec: "clear_chain st ps sz = (sz - length ps, concat (map (free_pair st) ps))"
  by (induction ps arbitrary: sz) auto

lemma clear_buckets_spec:
  "clear_buckets st cs sz = (replicate (length cs) [], sz - length (concat cs), concat (map (free_pair st) (concat cs)))"
  by (induction cs arbitrary: sz) (auto simp: clear_chain_spec)

lemma qse_htb_clear_view:
  assumes ok: "htb_ok htb" and c: "qse_htb_clear htb = (htb', log)"
  shows "htb_ok htb'" "htb_kscale htb' = htb_kscale htb" "htb_vscale htb' = htb_vscale htb" "htb_view htb' = Map.empty"
    "log = concat (map (free_pair (htb_style htb)) (htb_pairs htb))"
proof -
  have h: "htb' = htb\<lparr>htb_bucket := replicate (length (htb_bucket htb)) [], htb_size := htb_size htb - length (htb_pairs htb)\<rparr>"
    and "log = concat (map (free_pair (htb_style htb)) (htb_pairs htb))"
    using c by (auto simp: qse_htb_clear_def clear_buckets_spec htb_pairs_def)
  then show "log = concat (map (free_pair (htb_style htb)) (htb_pairs htb))" by simp
  have p: "htb_pairs htb' = []" by (simp add: h htb_pairs_def)
  have "placed (htb_hasher htb) (htb_capa htb) (replicate (length (htb_bucket htb)) [])"
    using ok by (simp add: placed_def htb_ok_def)
  then show "htb_ok htb'" using ok p by (simp add: h htb_ok_def keys_distinct_def)
  show "htb_kscale htb' = htb_kscale htb" "htb_vscale htb' = htb_vscale htb" by (simp_all add: h)
  show "htb_view htb' = Map.empty" by (simp add: htb_view_def p pairs_view_def)
qed

text \<open>
  What an insertion is answered: the block for the pair, and whether the larger bucket array was granted.
  The map works as specified when the block is granted, whatever happens to the bucket array.
\<close>

type_synonym htb_answer = "block \<times> bool"

definition htb_grant :: "htb_answer \<Rightarrow> qse_htb \<Rightarrow> bool" where
  "htb_grant e htb \<longleftrightarrow> fst e \<noteq> None \<and> block_ok (fst e)"

definition htb_ops :: "(htb_answer, qse_htb) map_ops" where
  "htb_ops = \<lparr>op_search = qse_htb_search, op_insert = \<lambda>e. htb_insert (fst e) (snd e), op_delete = qse_htb_delete,
     op_clear = qse_htb_clear\<rparr>"

lemma htb_ops_simps [simp]:
  "op_search htb_ops = qse_htb_search" "op_insert htb_ops e = htb_insert (fst e) (snd e)"
  "op_delete htb_ops = qse_htb_delete" "op_clear htb_ops = qse_htb_clear"
  by (simp_all add: htb_ops_def)

interpretation htb_map: qse_map htb_ok htb_view htb_kscale htb_vscale htb_grant htb_ops
proof
  fix htb k assume "htb_ok htb" "item_ok (htb_kscale htb) k"
  then show "map_option (\<lambda>p. xp_data (pr_val p)) (op_search htb_ops htb k) = htb_view htb (xp_data k)"
    by (simp add: qse_htb_search_view)
next
  fix htb e k v opt htb' r log
  assume a: "htb_ok htb" "htb_grant e htb" "item_ok (htb_kscale htb) k" "item_ok (htb_vscale htb) v"
    "op_insert htb_ops e htb k v opt = (htb', r, log)"
  have b: "block_ok (fst e)" "fst e \<noteq> None" using a(2) by (auto simp: htb_grant_def)
  show "htb_ok htb' \<and> htb_kscale htb' = htb_kscale htb \<and> htb_vscale htb' = htb_vscale htb \<and>
      amap_insert opt (htb_view htb) (xp_data k) (xp_data v) = (htb_view htb', map_option (\<lambda>p. xp_data (pr_val p)) r)"
    using htb_insert_view [OF a(1,3,4) b(1) a(5) [simplified]] b(2) by blast
next
  fix htb k htb' st log
  assume "htb_ok htb" "item_ok (htb_kscale htb) k" "op_delete htb_ops htb k = (htb', st, log)"
  then show "htb_ok htb' \<and> htb_kscale htb' = htb_kscale htb \<and> htb_vscale htb' = htb_vscale htb \<and>
      amap_delete (htb_view htb) (xp_data k) = (htb_view htb', st)"
    by (auto dest: qse_htb_delete_view)
next
  fix htb htb' log
  assume "htb_ok htb" "op_clear htb_ops htb = (htb', log)"
  from qse_htb_clear_view [OF this [simplified]]
  show "htb_ok htb' \<and> htb_kscale htb' = htb_kscale htb \<and> htb_vscale htb' = htb_vscale htb \<and> htb_view htb' = Map.empty"
    by simp
qed

section \<open>Iteration\<close>

lemma walk_buckets_concat: "walk_buckets w cs s = fst (walk_chain w (concat cs) s)"
  by (induction cs arbitrary: s) (auto simp: walk_chain_append split: prod.splits)

text \<open>The pairs from a position on, and the iteration by \<open>qse_htb_getnextpair\<close> from there.\<close>

definition pairs_from :: "qse_htb \<Rightarrow> nat \<Rightarrow> nat \<Rightarrow> qse_pair list" where
  "pairs_from htb i j = drop j (htb_bucket htb ! i) @ concat (drop (i + 1) (htb_bucket htb))"

lemma scan_buckets_spec:
  assumes "length (htb_bucket htb) = htb_capa htb"
  shows "case scan_buckets htb i of
      None \<Rightarrow> concat (drop i (htb_bucket htb)) = []
    | Some (p, i', j) \<Rightarrow> i' < htb_capa htb \<and> j < length (htb_bucket htb ! i') \<and> p = htb_bucket htb ! i' ! j \<and>
        pairs_from htb i' j = concat (drop i (htb_bucket htb))"
  using assms
proof (induction htb i rule: scan_buckets.induct)
  case (1 htb i)
  show ?case
  proof (cases "i < htb_capa htb")
    case False
    then show ?thesis using 1(2) by (simp add: scan_buckets.simps)
  next
    case True
    then have d: "drop i (htb_bucket htb) = htb_bucket htb ! i # drop (i + 1) (htb_bucket htb)"
      using 1(2) by (simp add: Cons_nth_drop_Suc)
    show ?thesis
    proof (cases "htb_bucket htb ! i")
      case Nil
      then show ?thesis using 1 True d by (simp add: scan_buckets.simps [of htb i] split: option.splits prod.splits)
    next
      case (Cons p ps)
      then show ?thesis using True d by (simp add: scan_buckets.simps [of htb i] pairs_from_def)
    qed
  qed
qed

lemma getnextpair_spec:
  assumes l: "length (htb_bucket htb) = htb_capa htb" and i: "i < htb_capa htb" and j: "j < length (htb_bucket htb ! i)"
  shows "case qse_htb_getnextpair htb (i, j) of
      None \<Rightarrow> pairs_from htb i j = [htb_bucket htb ! i ! j]
    | Some (p, i', j') \<Rightarrow> i' < htb_capa htb \<and> j' < length (htb_bucket htb ! i') \<and> p = htb_bucket htb ! i' ! j' \<and>
        pairs_from htb i j = htb_bucket htb ! i ! j # pairs_from htb i' j'"
proof (cases "j + 1 < length (htb_bucket htb ! i)")
  case True
  have "drop j (htb_bucket htb ! i) = htb_bucket htb ! i ! j # drop (j + 1) (htb_bucket htb ! i)"
    using j by (simp add: Cons_nth_drop_Suc)
  then show ?thesis using True i by (simp add: qse_htb_getnextpair_def pairs_from_def)
next
  case False
  have "drop j (htb_bucket htb ! i) = htb_bucket htb ! i ! j # drop (j + 1) (htb_bucket htb ! i)"
    using j by (simp add: Cons_nth_drop_Suc)
  moreover have "drop (j + 1) (htb_bucket htb ! i) = []" using False by simp
  ultimately have "pairs_from htb i j = htb_bucket htb ! i ! j # concat (drop (i + 1) (htb_bucket htb))"
    by (simp add: pairs_from_def)
  then show ?thesis using False scan_buckets_spec [OF l, of "i + 1"]
    by (auto simp: qse_htb_getnextpair_def split: option.splits)
qed

text \<open>The loop a client writes: take the first pair, then the next one until there is none, at most \<open>n\<close> times.\<close>

fun iterate_pairs :: "qse_htb \<Rightarrow> nat \<Rightarrow> (qse_pair \<times> nat \<times> nat) option \<Rightarrow> qse_pair list \<times> bool" where
  "iterate_pairs htb n None = ([], True)"
| "iterate_pairs htb 0 (Some x) = ([], False)"
| "iterate_pairs htb (Suc n) (Some (p, pos)) =
     (let (ps, ended) = iterate_pairs htb n (qse_htb_getnextpair htb pos) in (p # ps, ended))"

lemma iterate_pairs_from:
  assumes "length (htb_bucket htb) = htb_capa htb" "i < htb_capa htb" "j < length (htb_bucket htb ! i)"
    "length (pairs_from htb i j) \<le> n"
  shows "iterate_pairs htb n (Some (htb_bucket htb ! i ! j, i, j)) = (pairs_from htb i j, True)"
  using assms
proof (induction n arbitrary: i j)
  case 0
  then show ?case by (simp add: pairs_from_def)
next
  case (Suc n)
  note g = getnextpair_spec [OF Suc.prems(1,2,3)]
  show ?case
  proof (cases "qse_htb_getnextpair htb (i, j)")
    case None
    then show ?thesis using g by simp
  next
    case (Some r)
    obtain p i' j' where r: "r = (p, i', j')" by (cases r)
    then show ?thesis using g Some Suc.IH [OF Suc.prems(1), of i' j'] Suc.prems(4) by simp
  qed
qed

lemma getfirst_iterates:
  assumes "length (htb_bucket htb) = htb_capa htb" "length (htb_pairs htb) \<le> n"
  shows "iterate_pairs htb n (qse_htb_getfirstpair htb) = (htb_pairs htb, True)"
proof (cases "scan_buckets htb 0")
  case None
  then show ?thesis using scan_buckets_spec [OF assms(1), of 0] by (simp add: qse_htb_getfirstpair_def htb_pairs_def)
next
  case (Some r)
  obtain p i' j' where r: "r = (p, i', j')" by (cases r)
  then show ?thesis using Some scan_buckets_spec [OF assms(1), of 0] iterate_pairs_from [OF assms(1), of i' j' n] assms(2)
    by (simp add: qse_htb_getfirstpair_def htb_pairs_def)
qed

section \<open>Properties of the hash table\<close>

lemma the_htb_init:
  assumes "qse_htb_init True c f 1 1 = Some h"
  shows "htb_ok h \<and> htb_kscale h = 1 \<and> htb_vscale h = 1 \<and> htb_view h = Map.empty"
  using qse_htb_init_ok [OF assms] by simp

text \<open>
  C2. The hash table is a map. From a new table, whatever its initial capacity and load factor, the results of any
  sequence of insertions (with each of the four options), searches, deletions and clearings are those of the abstract
  map on the bytes of keys and values, and the table reached is consistent and represents the abstract map reached:
  chaining, growth and rehashing, and a refused growth, are invisible.
\<close>

theorem qse_htb_runs_as_map:
  assumes "qse_htb_init mem_ok capa factor ks vs = Some htb" "granted htb_ops htb_grant cs htb"
    "\<forall>c \<in> set cs. cmd_ok (htb_kscale htb) (htb_vscale htb) (snd c)"
  shows "htb_ok (fst (map_run htb_ops cs htb)) \<and>
    amap_run (map snd cs) Map.empty = (htb_view (fst (map_run htb_ops cs htb)), snd (map_run htb_ops cs htb))"
  using htb_map.run_refines [OF qse_htb_init_ok(1) [OF assms(1)] assms(2,3)] qse_htb_init_ok(2) [OF assms(1)] by simp

theorem qse_htb_runs_as_map_witness:
  "snd (map_run htb_ops (map (Pair (Some (100, \<lambda>_. 0), True)) demo_cmds) (the (qse_htb_init True 1 70 1 1))) =
     [Value (Some [3]), Value (Some [1, 2]), Value (Some [1, 2]), Value (Some [1, 2]), Status 0, Value None]"
proof -
  let ?cs = "map (Pair (Some (100, \<lambda>_. 0), True)) demo_cmds :: (htb_answer \<times> map_cmd) list"
  obtain h where h: "qse_htb_init True 1 70 1 1 = Some h" by (simp add: qse_htb_init_def Let_def)
  have g: "granted htb_ops htb_grant ?cs h"
    by (rule granted_always) (simp add: demo_cmds_def Let_def htb_grant_def block_ok_def QSE_NULL_def)
  have "\<forall>c \<in> set ?cs. cmd_ok (htb_kscale h) (htb_vscale h) (snd c)"
    using the_htb_init [OF h] by (simp add: demo_cmds_def Let_def QSE_NULL_def)
  from qse_htb_runs_as_map [OF h g this] h show ?thesis
    by (simp add: demo_cmds_def Let_def amap_insert_def amap_delete_def bytes_item_def)
qed

text \<open>
  C36. A refused block never damages the hash table. When the memory manager refuses the block of an insertion, the
  table stays consistent; a new key is not inserted, a present key is not inserted again, and its value is either left as it
  was with a null result or replaced in place; nothing but that value changes.
\<close>

theorem htb_insert_refused:
  assumes "htb_ok htb" "item_ok (htb_kscale htb) k" "item_ok (htb_vscale htb) v"
    "htb_insert None mem_ok htb k v opt = (htb', r, log)"
  shows "htb_ok htb' \<and> (htb_view htb' = htb_view htb \<or>
      (htb_view htb (xp_data k) \<noteq> None \<and> (opt = UPSERT \<or> opt = UPDATE) \<and> htb_view htb' = (htb_view htb)(xp_data k \<mapsto> xp_data v))) \<and>
    (htb_view htb (xp_data k) = None \<longrightarrow> r = None \<and> log = [] \<and> htb_view htb' = htb_view htb)"
proof -
  have b: "block_ok None" by (simp add: block_ok_def)
  have c: "chain_find htb (htb_bucket htb ! htb_hc htb k) k = None" if "htb_view htb (xp_data k) = None"
    using that find_found(4) [OF assms(1,2) refl] by fastforce
  have "htb_view htb (xp_data k) = None \<longrightarrow> r = None \<and> log = [] \<and> htb_view htb' = htb_view htb"
    using assms(4) c htb_grow_ok(2) [OF assms(1)] by (auto simp: htb_insert_def Let_def split: if_splits)
  then show ?thesis using htb_insert_view [OF assms(1-3) b assms(4)]
    by (auto simp: amap_insert_def split: option.splits insert_opt.splits if_splits)
qed

theorem htb_insert_refused_witness:
  "case htb_insert None True (the (qse_htb_init True 4 70 1 1)) (bytes_item 10 [1]) (bytes_item 20 [2]) UPSERT of
     (htb', r, log) \<Rightarrow> r = None \<and> htb_view htb' (xp_data (bytes_item 10 [1])) = None"
proof -
  obtain h where h: "qse_htb_init True 4 70 1 1 = Some h" by (simp add: qse_htb_init_def Let_def)
  note hi = the_htb_init [OF h]
  obtain htb' r log where i: "htb_insert None True h (bytes_item 10 [1]) (bytes_item 20 [2]) UPSERT = (htb', r, log)"
    by (metis prod_cases3)
  from htb_insert_refused [OF _ _ _ i] hi i h show ?thesis by (simp add: QSE_NULL_def)
qed

text \<open>
  \<open>qse_htb_cbsert\<close> hands the callback the pair of the key or null, and if the callback returns a pair for that key,
  the table afterwards maps the key to the value of that pair and is otherwise unchanged; if it returns null, the
  table's contents are unchanged.
\<close>

theorem qse_htb_cbsert_view:
  assumes ok: "htb_ok htb" and k: "item_ok (htb_kscale htb) k" and c: "qse_htb_cbsert mem_ok htb k cb = (htb', r)"
    and cb: "\<And>p. cb (qse_htb_search htb k) = Some p \<Longrightarrow>
      pair_ok (htb_kscale htb) (htb_vscale htb) p \<and> xp_data (pr_key p) = xp_data k"
  shows "htb_ok htb' \<and> r = cb (qse_htb_search htb k) \<and>
    htb_view htb' = (case r of None \<Rightarrow> htb_view htb | Some p \<Rightarrow> (htb_view htb)(xp_data k \<mapsto> xp_data (pr_val p)))"
proof -
  let ?hc = "htb_hc htb k" let ?chain = "htb_bucket htb ! htb_hc htb k"
  have hc: "?hc < htb_capa htb" using ok by (auto simp: htb_ok_def)
  show ?thesis
  proof (cases "chain_find htb ?chain k")
    case (Some j)
    note f = find_found [OF ok k refl Some]
    have s: "qse_htb_search htb k = Some (?chain ! j)" using Some by (simp add: qse_htb_search_def Let_def)
    show ?thesis
    proof (cases "cb (Some (?chain ! j))")
      case None
      then show ?thesis using c Some s ok by (auto simp: qse_htb_cbsert_def Let_def)
    next
      case (Some p)
      have p: "pair_ok (htb_kscale htb) (htb_vscale htb) p" "xp_data (pr_key p) = xp_data (pr_key (?chain ! j))"
        using cb [unfolded s, OF Some] f(3) by auto
      have "htb' = htb\<lparr>htb_bucket := (htb_bucket htb)[?hc := ?chain[j := p]]\<rparr>" "r = Some p"
        using c Some \<open>chain_find htb ?chain k = Some j\<close> by (auto simp: qse_htb_cbsert_def Let_def)
      then show ?thesis using htb_replace_ok [OF ok hc refl f(1) p] Some s f(3) p(2) by auto
    qed
  next
    case None
    note miss = find_missing [OF ok k None]
    let ?g = "htb_grow mem_ok htb"
    note g = htb_grow_ok [OF ok, of mem_ok]
    have s: "qse_htb_search htb k = None" using None by (simp add: qse_htb_search_def Let_def)
    show ?thesis
    proof (cases "cb None")
      case N: None
      then show ?thesis using c None s g by (auto simp: qse_htb_cbsert_def Let_def)
    next
      case (Some p)
      have p: "pair_ok (htb_kscale ?g) (htb_vscale ?g) p" "xp_data (pr_key p) = xp_data k"
        using cb [unfolded s, OF Some] g by auto
      have ki: "item_ok (htb_kscale ?g) k" using k g(3) by simp
      have "hash_ok (htb_kscale ?g) (htb_hasher ?g)" using g(1) by (simp add: htb_ok_def)
      then have h: "htb_hasher ?g (pr_key p) = htb_hasher ?g k"
        using p ki unfolding hash_ok_def pair_ok_def by blast
      have "htb_view ?g (xp_data (pr_key p)) = None" using miss g(2) p(2) by simp
      note af = add_front_ok [OF g(1) p(1) this refl, unfolded h]
      have "htb' = add_front ?g (htb_hc ?g k) p" "r = Some p"
        using c None Some by (auto simp: qse_htb_cbsert_def Let_def)
      then show ?thesis using af p(2) s Some by (simp add: g(2))
    qed
  qed
qed

theorem qse_htb_cbsert_view_witness:
  "case qse_htb_cbsert True (the (qse_htb_init True 4 70 1 1)) (bytes_item 10 [1])
       (\<lambda>_. Some \<lparr>pr_addr = 5, pr_key = bytes_item 10 [1], pr_val = bytes_item 20 [7]\<rparr>) of
     (htb', r) \<Rightarrow> htb_view htb' [1] = Some [7]"
proof -
  let ?cb = "\<lambda>_ :: qse_pair option. Some \<lparr>pr_addr = 5, pr_key = bytes_item 10 [1], pr_val = bytes_item 20 [7]\<rparr>"
  obtain h where h: "qse_htb_init True 4 70 1 1 = Some h" by (simp add: qse_htb_init_def Let_def)
  note hi = the_htb_init [OF h]
  obtain htb' r where c: "qse_htb_cbsert True h (bytes_item 10 [1]) ?cb = (htb', r)" by (metis surj_pair)
  have "htb_ok htb' \<and> r = ?cb (qse_htb_search h (bytes_item 10 [1])) \<and>
    htb_view htb' = (case r of None \<Rightarrow> htb_view h | Some p \<Rightarrow> (htb_view h)(xp_data (bytes_item 10 [1]) \<mapsto> xp_data (pr_val p)))"
    using hi by (intro qse_htb_cbsert_view [OF _ _ c]) (auto simp: pair_ok_def QSE_NULL_def)
  then show ?thesis using h c by (simp add: bytes_item_def)
qed

text \<open>
  C37. Iteration covers the table. \<open>qse_htb_walk\<close> calls the walker on the pairs, bucket by bucket and in chain
  order, until it stops; the loop over \<open>qse_htb_getfirstpair\<close> and \<open>qse_htb_getnextpair\<close> yields the same pairs and
  ends; these pairs are those of the map, each key once, as many as the size says; and \<open>qse_htb_clear\<close> passes each of them to
  the freeers once.
\<close>

theorem qse_htb_iteration:
  assumes "htb_ok htb"
  shows "qse_htb_walk htb walker s = fst (walk_chain walker (htb_pairs htb) s) \<and>
    iterate_pairs htb (htb_size htb) (qse_htb_getfirstpair htb) = (htb_pairs htb, True) \<and>
    keys_distinct (htb_pairs htb) \<and> htb_view htb = map_of (map entry (htb_pairs htb)) \<and>
    card (dom (htb_view htb)) = htb_size htb \<and>
    snd (qse_htb_clear htb) = concat (map (free_pair (htb_style htb)) (htb_pairs htb))"
proof (intro conjI)
  have ok: "keys_distinct (htb_pairs htb)" "htb_size htb = length (htb_pairs htb)" "length (htb_bucket htb) = htb_capa htb"
    using assms by (auto simp: htb_ok_def placed_def)
  show "qse_htb_walk htb walker s = fst (walk_chain walker (htb_pairs htb) s)"
    by (simp add: qse_htb_walk_def walk_buckets_concat htb_pairs_def)
  show "iterate_pairs htb (htb_size htb) (qse_htb_getfirstpair htb) = (htb_pairs htb, True)"
    using ok(2) by (intro getfirst_iterates [OF ok(3)]) simp
  show "keys_distinct (htb_pairs htb)" using ok(1) .
  show v: "htb_view htb = map_of (map entry (htb_pairs htb))" by (simp add: htb_view_def pairs_view_def)
  have d: "distinct (map fst (map entry (htb_pairs htb)))" using ok(1) by (simp add: keys_distinct_entry)
  have "dom (htb_view htb) = set (map fst (map entry (htb_pairs htb)))" by (simp add: v dom_map_of_conv_image_fst image_image)
  then show "card (dom (htb_view htb)) = htb_size htb" using distinct_card [OF d] ok(2) by simp
  show "snd (qse_htb_clear htb) = concat (map (free_pair (htb_style htb)) (htb_pairs htb))"
    using qse_htb_clear_view(5) [OF assms] by (metis prod.collapse)
qed

theorem qse_htb_iteration_witness:
  "iterate_pairs (the (qse_htb_init True 4 70 1 1)) 0 (qse_htb_getfirstpair (the (qse_htb_init True 4 70 1 1))) = ([], True)"
proof -
  obtain h where h: "qse_htb_init True 4 70 1 1 = Some h" by (simp add: qse_htb_init_def Let_def)
  have "htb_ok h" "htb_size h = 0" "htb_pairs h = []"
    using the_htb_init [OF h] h by (auto simp: qse_htb_init_def Let_def htb_pairs_def)
  with qse_htb_iteration [of h "\<lambda>s p. (s, True)" "()"] h show ?thesis by simp
qed

text \<open>
  With a custom value copier no pair can be created from a copy: whenever the copier succeeds, inserting a
  new key fails, the copy is lost, and the key already copied goes to the key freeer; only when the copier fails does
  the insertion succeed, with a null value.
\<close>

theorem custom_value_copier_inverted:
  assumes "ps_vcopier (htb_style htb) = COPIER_CUSTOM f" "ps_kcopier (htb_style htb) = COPIER_SIMPLE" "qse_htb_search htb k = None"
    "opt \<noteq> UPDATE" "htb_insert (Some blk) mem_ok htb k v opt = (htb', r, log)"
  shows "(f v \<noteq> None \<longrightarrow> r = None \<and> htb' = htb_grow mem_ok htb \<and> log = (if ps_kfreeer (htb_style htb) then [Key_freed k] else [])) \<and>
    (f v = None \<longrightarrow> (\<exists>p. r = Some p \<and> xp_ptr (pr_val p) = QSE_NULL))"
proof -
  have c: "chain_find htb (htb_bucket htb ! htb_hc htb k) k = None" using assms(3) by (simp add: qse_htb_search_def Let_def)
  have "htb_style (htb_grow mem_ok htb) = htb_style htb" by (simp add: htb_grow_def reorganize_def Let_def)
  then show ?thesis using assms c
    by (cases "f v") (auto simp: htb_insert_def alloc_pair_def alloc_key_def Let_def)
qed

theorem custom_value_copier_inverted_witness:
  "fst (snd (htb_insert (Some (100, \<lambda>_. 0)) True
     ((the (qse_htb_init True 4 70 1 1))\<lparr>htb_style := (get_style STYLE_DEFAULT)\<lparr>ps_vcopier := COPIER_CUSTOM Some\<rparr>\<rparr>)
     (bytes_item 10 [1]) (bytes_item 20 [2]) INSERT)) = None"
proof -
  let ?h = "(the (qse_htb_init True 4 70 1 1))\<lparr>htb_style := (get_style STYLE_DEFAULT)\<lparr>ps_vcopier := COPIER_CUSTOM Some\<rparr>\<rparr>"
  have s: "qse_htb_search ?h (bytes_item 10 [1]) = None"
    by (simp add: qse_htb_search_def qse_htb_init_def Let_def)
  obtain htb' r log where i: "htb_insert (Some (100, \<lambda>_. 0)) True ?h (bytes_item 10 [1]) (bytes_item 20 [2]) INSERT = (htb', r, log)"
    by (metis prod_cases3)
  show ?thesis using custom_value_copier_inverted [where f = Some, OF _ _ s _ i] i by (simp add: get_style_def)
qed

end
