(* ===== verification/Qse_Rtree.thy ===== *)
theory Qse_Rtree
  imports Qse_Map
begin

text \<open>
  Coloured binary trees of pairs and their contexts: the shapes that the linked pairs of a red-black tree (\<open>src/lib/cmn/rbt.c\<close>)
  form. The two repair loops of the code are restated here as functions on a context, the path
  from a pair up to the root; the next theory shows that the loops on linked pairs compute them. What is proved
  here is about shapes only: the sequence of pairs is kept, no red pair gets a red child, and insertion keeps the
  black height.
\<close>

section \<open>Trees\<close>

datatype color = RED | BLACK
datatype side = LEFT | RIGHT

fun opp :: "side \<Rightarrow> side" where
  "opp LEFT = RIGHT"
| "opp RIGHT = LEFT"

lemma opp_opp [simp]: "opp (opp sd) = sd" by (cases sd) auto
lemma opp_neq [simp]: "opp sd \<noteq> sd" "sd \<noteq> opp sd" by (cases sd; simp)+
lemma opp_iff: "a \<noteq> b \<longleftrightarrow> a = opp b" for a b :: side by (cases a; cases b) auto

datatype rtree = Lf | Nd color rtree qse_pair rtree

fun inorder :: "rtree \<Rightarrow> qse_pair list" where
  "inorder Lf = []"
| "inorder (Nd c l p r) = inorder l @ p # inorder r"

fun color_of :: "rtree \<Rightarrow> color" where
  "color_of Lf = BLACK"
| "color_of (Nd c l p r) = c"

fun recolor :: "color \<Rightarrow> rtree \<Rightarrow> rtree" where
  "recolor c Lf = Lf"
| "recolor c (Nd c' l p r) = Nd c l p r"

fun subt :: "side \<Rightarrow> rtree \<Rightarrow> rtree" where
  "subt sd Lf = Lf"
| "subt sd (Nd c l p r) = (if sd = LEFT then l else r)"

fun root_pair :: "rtree \<Rightarrow> qse_pair" where
  "root_pair (Nd c l p r) = p"
| "root_pair Lf = undefined"

text \<open>\<open>mk sd c t p u\<close> is the tree with \<open>t\<close> on side \<open>sd\<close> of its root and \<open>u\<close> on the other.\<close>

definition mk :: "side \<Rightarrow> color \<Rightarrow> rtree \<Rightarrow> qse_pair \<Rightarrow> rtree \<Rightarrow> rtree" where
  "mk sd c t p u = (if sd = LEFT then Nd c t p u else Nd c u p t)"

lemma mk_simps [simp]:
  "color_of (mk sd c t p u) = c" "recolor c' (mk sd c t p u) = mk sd c' t p u" "subt sd (mk sd c t p u) = t"
  "subt (opp sd) (mk sd c t p u) = u" "root_pair (mk sd c t p u) = p" "mk sd c t p u \<noteq> Lf"
  by (cases sd; simp add: mk_def)+

lemma mk_opp: "mk (opp sd) c t p u = mk sd c u p t"
  by (cases sd) (auto simp: mk_def)

lemma mk_sub: "t \<noteq> Lf \<Longrightarrow> mk sd (color_of t) (subt sd t) (root_pair t) (subt (opp sd) t) = t"
  by (cases t; cases sd) (auto simp: mk_def)

lemma mk_exhaust: "t \<noteq> Lf \<Longrightarrow> \<exists>c a p b. t = mk sd c a p b"
  using mk_sub by metis

lemma color_RED_Nd: "color_of t = RED \<Longrightarrow> t \<noteq> Lf" by auto

lemma recolor_color [simp]: "recolor (color_of t) t = t" by (cases t) auto
lemma inorder_recolor [simp]: "inorder (recolor c t) = inorder t" by (cases t) auto
lemma recolor_Lf [simp]: "recolor c t = Lf \<longleftrightarrow> t = Lf" by (cases t) auto
lemma inorder_Nil [simp]: "inorder t = [] \<longleftrightarrow> t = Lf" by (cases t) auto

section \<open>Contexts\<close>

text \<open>A frame is a pair with the side on which the path continues downwards and the subtree on the other side.\<close>

type_synonym frame = "side \<times> color \<times> qse_pair \<times> rtree"

fun fill :: "frame list \<Rightarrow> rtree \<Rightarrow> rtree" where
  "fill [] t = t"
| "fill ((sd, c, p, u) # fs) t = fill fs (mk sd c t p u)"

fun bef :: "frame list \<Rightarrow> qse_pair list" where
  "bef [] = []"
| "bef ((sd, c, p, u) # fs) = bef fs @ (if sd = LEFT then [] else inorder u @ [p])"

fun aft :: "frame list \<Rightarrow> qse_pair list" where
  "aft [] = []"
| "aft ((sd, c, p, u) # fs) = (if sd = LEFT then p # inorder u else []) @ aft fs"

lemma inorder_mk: "inorder (mk sd c t p u) = (if sd = LEFT then inorder t @ p # inorder u else inorder u @ p # inorder t)"
  by (simp add: mk_def)

lemma inorder_fill: "inorder (fill fs t) = bef fs @ inorder t @ aft fs"
  by (induction fs t rule: fill.induct) (auto simp: inorder_mk)

lemma fill_append: "fill (fs @ gs) t = fill gs (fill fs t)"
  by (induction fs t rule: fill.induct) auto

lemma fill_Lf [simp]: "fill fs t = Lf \<longleftrightarrow> fs = [] \<and> t = Lf"
  by (induction fs t rule: fill.induct) auto

text \<open>Every pair of a tree sits under a context.\<close>

lemma focus:
  assumes "p \<in> set (inorder t)" obtains fs c l r where "t = fill fs (Nd c l p r)"
proof -
  have "\<exists>fs c l r. t = fill fs (Nd c l p r)" using assms
  proof (induction t)
    case (Nd c l q r)
    then consider "p \<in> set (inorder l)" | "p = q" | "p \<in> set (inorder r)" by auto
    then show ?case
    proof cases
      case 1
      then obtain fs c' l' r' where "l = fill fs (Nd c' l' p r')" using Nd by blast
      then have "Nd c l q r = fill (fs @ [(LEFT, c, q, r)]) (Nd c' l' p r')" by (simp add: fill_append mk_def)
      then show ?thesis by blast
    next
      case 2
      then have "Nd c l q r = fill [] (Nd c l p r)" by simp
      then show ?thesis by blast
    next
      case 3
      then obtain fs c' l' r' where "r = fill fs (Nd c' l' p r')" using Nd by blast
      then have "Nd c l q r = fill (fs @ [(RIGHT, c, q, l)]) (Nd c' l' p r')" by (simp add: fill_append mk_def)
      then show ?thesis by blast
    qed
  qed simp
  then show ?thesis using that by blast
qed

section \<open>The colour and height invariants\<close>

fun no_rr :: "rtree \<Rightarrow> bool" where
  "no_rr Lf \<longleftrightarrow> True"
| "no_rr (Nd c l p r) \<longleftrightarrow> no_rr l \<and> no_rr r \<and> (c = RED \<longrightarrow> color_of l = BLACK \<and> color_of r = BLACK)"

fun bh :: "rtree \<Rightarrow> nat" where
  "bh Lf = 0"
| "bh (Nd c l p r) = bh l + (if c = BLACK then 1 else 0)"

fun bal :: "rtree \<Rightarrow> bool" where
  "bal Lf \<longleftrightarrow> True"
| "bal (Nd c l p r) \<longleftrightarrow> bal l \<and> bal r \<and> bh l = bh r"

definition top_color :: "frame list \<Rightarrow> color" where
  "top_color fs = (case fs of [] \<Rightarrow> BLACK | (sd, c, p, u) # gs \<Rightarrow> c)"

fun nrr_ctx :: "frame list \<Rightarrow> bool" where
  "nrr_ctx [] \<longleftrightarrow> True"
| "nrr_ctx ((sd, c, p, u) # fs) \<longleftrightarrow> no_rr u \<and> (c = RED \<longrightarrow> color_of u = BLACK \<and> fs \<noteq> [] \<and> top_color fs = BLACK) \<and> nrr_ctx fs"

fun bal_ctx :: "nat \<Rightarrow> frame list \<Rightarrow> bool" where
  "bal_ctx n [] \<longleftrightarrow> True"
| "bal_ctx n ((sd, c, p, u) # fs) \<longleftrightarrow> bal u \<and> bh u = n \<and> bal_ctx (n + (if c = BLACK then 1 else 0)) fs"

lemma no_rr_mk [simp]:
  "no_rr (mk sd c t p u) \<longleftrightarrow> no_rr t \<and> no_rr u \<and> (c = RED \<longrightarrow> color_of t = BLACK \<and> color_of u = BLACK)"
  by (auto simp: mk_def)

lemma bal_mk [simp]: "bal (mk sd c t p u) \<longleftrightarrow> bal t \<and> bal u \<and> bh t = bh u"
  by (auto simp: mk_def)

lemma bh_mk [simp]: "bh t = bh u \<Longrightarrow> bh (mk sd c t p u) = bh t + (if c = BLACK then 1 else 0)"
  by (auto simp: mk_def)

lemma no_rr_recolor: "no_rr t \<Longrightarrow> no_rr (recolor BLACK t)" by (cases t) auto
lemma bal_recolor [simp]: "bal (recolor c t) = bal t" by (cases t) auto

lemma top_color_simps [simp]: "top_color [] = BLACK" "top_color ((sd, c, p, u) # fs) = c"
  by (simp_all add: top_color_def)

lemma bal_fill: "bal (fill fs t) \<longleftrightarrow> bal t \<and> bal_ctx (bh t) fs"
  by (induction fs t rule: fill.induct) auto

lemma color_cases: "c \<noteq> RED \<longleftrightarrow> c = BLACK" "c \<noteq> BLACK \<longleftrightarrow> c = RED" by (cases c; simp)+

text \<open>A tree with a black root and no red pair under a red pair, seen at a context.\<close>

lemma no_rr_fill:
  "no_rr (fill fs t) \<and> color_of (fill fs t) = BLACK \<longleftrightarrow>
   no_rr t \<and> nrr_ctx fs \<and> (top_color fs = RED \<or> fs = [] \<longrightarrow> color_of t = BLACK)"
proof (induction fs t rule: fill.induct)
  case (2 sd c p u fs t)
  then show ?case by (cases c) (auto simp: color_cases)
qed auto

section \<open>The repair after an insertion\<close>

text \<open>
  The loop of \<open>adjust\<close>, for a red pair with the subtree \<open>t\<close> under the context: it stops at the root or under a black parent,
  moves two levels up while the uncle is red, and otherwise ends with one or two rotations.
\<close>

fun fix_insert :: "frame list \<Rightarrow> rtree \<Rightarrow> rtree" where
  "fix_insert ((sd1, RED, p1, u1) # (sd2, c2, p2, u2) # fs) t =
     (if color_of u2 = RED then fix_insert fs (mk sd2 RED (mk sd1 BLACK t p1 u1) p2 (recolor BLACK u2))
      else if sd1 = sd2 then fill fs (mk sd2 BLACK t p1 (mk sd2 RED u1 p2 u2))
      else fill fs (mk sd2 BLACK (mk sd2 RED u1 p1 (subt sd2 t)) (root_pair t) (mk sd2 RED (subt sd1 t) p2 u2)))"
| "fix_insert fs t = fill fs t"

lemma inorder_subt: "t \<noteq> Lf \<Longrightarrow> inorder (subt LEFT t) @ root_pair t # inorder (subt RIGHT t) = inorder t"
  by (cases t) auto

lemma fix_insert_inorder: "t \<noteq> Lf \<Longrightarrow> inorder (fix_insert fs t) = inorder (fill fs t)"
proof (induction fs t rule: fix_insert.induct)
  case (1 sd1 p1 u1 sd2 c2 p2 u2 fs t)
  note s = inorder_subt [OF 1(2), symmetric]
  show ?case
  proof (cases "color_of u2 = RED")
    case True
    then show ?thesis using 1(1) by (simp add: inorder_fill inorder_mk)
  next
    case False
    then show ?thesis using s by (cases sd1; cases sd2) (auto simp: inorder_fill inorder_mk)
  qed
qed auto

lemma fix_insert_no_rr:
  assumes "no_rr t" "color_of t = RED" "nrr_ctx fs"
  shows "no_rr (recolor BLACK (fix_insert fs t))"
  using assms
proof (induction fs t rule: fix_insert.induct [case_names deep empty black single])
  case (deep sd1 p1 u1 sd2 c2 p2 u2 fs t)
  have c2: "c2 = BLACK" and u: "no_rr u1" "no_rr u2" "color_of u1 = BLACK" "nrr_ctx fs" using deep(4) by auto
  show ?case
  proof (cases "color_of u2 = RED")
    case True
    have "no_rr (mk sd2 RED (mk sd1 BLACK t p1 u1) p2 (recolor BLACK u2))"
      using deep(2) u no_rr_recolor [of u2] by (cases u2) auto
    then show ?thesis using deep(1) True u(4) by simp
  next
    case False
    obtain a q b where t: "t = mk sd2 RED a q b" using mk_exhaust [OF color_RED_Nd [OF deep(3)]] deep(3) by (metis mk_simps(1))
    have sub: "subt sd1 t = b" if "sd1 \<noteq> sd2" using that t by (simp add: opp_iff [of sd1 sd2])
    have r: "no_rr (recolor BLACK (fill fs (mk sd2 BLACK x q' y)))" if "no_rr x" "no_rr y" for x q' y
      using no_rr_fill [of fs "mk sd2 BLACK x q' y"] that u(4) by (intro no_rr_recolor) auto
    show ?thesis using False deep(2) u t sub by (auto intro!: r simp: color_cases)
  qed
next
  case (empty t)
  then show ?case by (simp add: no_rr_recolor)
next
  case (black sd pu fs t)
  then show ?case using no_rr_fill [of "(sd, BLACK, pu) # fs" t] by (cases pu) (simp add: no_rr_recolor)
qed auto

lemma fix_insert_bal:
  assumes "bal t" "bal_ctx (bh t) fs" "color_of t = RED" "nrr_ctx fs"
  shows "bal (fix_insert fs t)"
  using assms
proof (induction fs t rule: fix_insert.induct)
  case (1 sd1 p1 u1 sd2 c2 p2 u2 fs t)
  have c2: "c2 = BLACK" using 1(5) by simp
  have b: "bal u1" "bal u2" "bh u1 = bh t" "bh u2 = bh t" "bal_ctx (bh t + 1) fs" using 1(3) c2 by auto
  show ?case
  proof (cases "color_of u2 = RED")
    case True
    have "bh (recolor BLACK u2) = bh t + 1" using True b(4) by (cases u2) auto
    then show ?thesis using 1(1,2,5) True b by simp
  next
    case False
    obtain a q d where t: "t = mk sd2 RED a q d" using mk_exhaust [OF color_RED_Nd [OF 1(4)]] 1(4) by (metis mk_simps(1))
    have sub: "subt sd1 t = d" if "sd1 \<noteq> sd2" using that t by (simp add: opp_iff [of sd1 sd2])
    have ad: "bal a" "bal d" "bh a = bh d" using 1(2) t by auto
    then have "bh t = bh a" using t by simp
    then show ?thesis using False 1(2) b ad t sub by (auto simp: bal_fill)
  qed
qed (auto simp: bal_fill)

section \<open>The repair after a deletion\<close>

text \<open>
  The loop of \<open>adjust_for_delete\<close>. \<open>rebalance\<close> is its last branch: at least one child of the sibling \<open>w\<close> is red.
  Under a red sibling the parent becomes red, so that the loop ends after one more round.
\<close>

definition both_black :: "rtree \<Rightarrow> bool" where
  "both_black w \<longleftrightarrow> color_of (subt LEFT w) = BLACK \<and> color_of (subt RIGHT w) = BLACK"

definition rebalance :: "side \<Rightarrow> color \<Rightarrow> rtree \<Rightarrow> qse_pair \<Rightarrow> rtree \<Rightarrow> rtree" where
  "rebalance sd c x p w =
     (let n = subt sd w; f = subt (opp sd) w in
      if color_of f = BLACK
      then mk sd c (mk sd BLACK x p (subt sd n)) (root_pair n) (mk sd BLACK (subt (opp sd) n) (root_pair w) f)
      else mk sd c (mk sd BLACK x p n) (root_pair w) (recolor BLACK f))"

fun fix_delete :: "frame list \<Rightarrow> rtree \<Rightarrow> rtree" where
  "fix_delete [] x = recolor BLACK x"
| "fix_delete ((sd, c, p, u) # fs) x =
     (if color_of x = RED then fill ((sd, c, p, u) # fs) (recolor BLACK x)
      else if color_of u = RED then
        (let w = subt sd u; fs' = (sd, BLACK, root_pair u, subt (opp sd) u) # fs in
         if both_black w then fill fs' (mk sd BLACK x p (recolor RED w))
         else recolor BLACK (fill fs' (rebalance sd RED x p w)))
      else if both_black u then fix_delete fs (mk sd c x p (recolor RED u))
      else recolor BLACK (fill fs (rebalance sd c x p u)))"

lemma both_black_side: "both_black w \<longleftrightarrow> color_of (subt sd w) = BLACK \<and> color_of (subt (opp sd) w) = BLACK"
  by (cases sd) (auto simp: both_black_def)

text \<open>What \<open>rebalance\<close> takes apart, by cases on which child of the sibling is red.\<close>

lemma not_both_black:
  assumes "\<not> both_black w"
  obtains (far) cw n q f where "w = mk sd cw n q f" "color_of f = RED"
  | (near) cw n1 z n2 q f where "w = mk sd cw (mk sd RED n1 z n2) q f" "color_of f = BLACK"
proof -
  have "w \<noteq> Lf" using assms by (auto simp: both_black_def)
  then obtain cw n q f where w: "w = mk sd cw n q f" using mk_exhaust by metis
  show ?thesis
  proof (cases "color_of f = RED")
    case True
    then show ?thesis using far w by blast
  next
    case False
    then have n: "color_of n = RED" using assms by (simp add: w both_black_side [of _ sd] color_cases)
    then obtain n1 z n2 where "n = mk sd RED n1 z n2" using mk_exhaust [OF color_RED_Nd] by (metis mk_simps(1))
    then show ?thesis using near w False by (auto simp: color_cases)
  qed
qed

lemma rebalance_far: "w = mk sd cw n q f \<Longrightarrow> color_of f = RED \<Longrightarrow> rebalance sd c x p w = mk sd c (mk sd BLACK x p n) q (recolor BLACK f)"
  by (simp add: rebalance_def)

lemma rebalance_near:
  "w = mk sd cw (mk sd RED n1 z n2) q f \<Longrightarrow> color_of f = BLACK \<Longrightarrow>
   rebalance sd c x p w = mk sd c (mk sd BLACK x p n1) z (mk sd BLACK n2 q f)"
  by (simp add: rebalance_def)

lemma rebalance_inorder: "\<not> both_black w \<Longrightarrow> inorder (rebalance sd c x p w) = inorder (mk sd c x p w)"
  by (erule not_both_black [where sd = sd]) (auto simp: rebalance_far rebalance_near inorder_mk)

lemma rebalance_color: "color_of (rebalance sd c x p w) = c"
  by (simp add: rebalance_def Let_def)

lemma rebalance_no_rr:
  assumes "\<not> both_black w" "no_rr x" "no_rr w" shows "no_rr (rebalance sd c x p w)"
  using assms(1)
proof (rule not_both_black [where sd = sd])
  fix cw n q f assume w: "w = mk sd cw n q f" and f: "color_of f = RED"
  show ?thesis unfolding rebalance_far [OF w f] using assms(2,3) w f by (cases f) (auto simp: no_rr_recolor)
next
  fix cw n1 z n2 q f assume w: "w = mk sd cw (mk sd RED n1 z n2) q f" and f: "color_of f = BLACK"
  show ?thesis unfolding rebalance_near [OF w f] using assms(2,3) w by auto
qed

lemma fix_delete_inorder: "inorder (fix_delete fs x) = inorder (fill fs x)"
proof (induction fs x rule: fix_delete.induct)
  case (2 sd c p u fs x)
  consider (red) "color_of x = RED" | (sib) "color_of x = BLACK" "color_of u = RED"
    | (black) "color_of x = BLACK" "color_of u = BLACK" by (metis color_cases(1))
  then show ?case
  proof cases
    case red
    then show ?thesis by (simp add: inorder_fill inorder_mk)
  next
    case sib
    obtain a z b where u: "u = mk sd RED a z b" using mk_exhaust [OF color_RED_Nd [OF sib(2)]] sib(2) by (metis mk_simps(1))
    show ?thesis using sib u by (auto simp: inorder_fill rebalance_inorder inorder_mk Let_def)
  next
    case black
    then show ?thesis using 2 by (auto simp: inorder_fill rebalance_inorder inorder_mk)
  qed
qed simp

lemma fix_delete_no_rr:
  assumes "no_rr (recolor BLACK x)" "nrr_ctx fs"
  shows "no_rr (fix_delete fs x) \<and> color_of (fix_delete fs x) = BLACK"
  using assms
proof (induction fs x rule: fix_delete.induct)
  case (1 x)
  then show ?case by (cases x) auto
next
  case (2 sd c p u fs x)
  have u: "no_rr u" "nrr_ctx fs" "c = RED \<Longrightarrow> color_of u = BLACK \<and> fs \<noteq> [] \<and> top_color fs = BLACK" using 2(3) by auto
  have f: "no_rr (fill gs t) \<and> color_of (fill gs t) = BLACK"
    if "no_rr t" "nrr_ctx gs" "color_of t = BLACK" for gs t using no_rr_fill [of gs t] that by simp
  have fr: "no_rr (recolor BLACK (fill gs t)) \<and> color_of (recolor BLACK (fill gs t)) = BLACK"
    if "no_rr t" "nrr_ctx gs" "color_of t = RED \<longrightarrow> gs = [] \<or> top_color gs = BLACK" for gs t
  proof (cases "gs = []")
    case True
    then show ?thesis using that(1) by (cases t) (auto simp: no_rr_recolor)
  next
    case False
    then have "no_rr (fill gs t) \<and> color_of (fill gs t) = BLACK"
      using that no_rr_fill [of gs t] by (auto simp: color_cases)
    then show ?thesis by (cases "fill gs t") (auto simp: no_rr_recolor)
  qed
  consider (red) "color_of x = RED" | (sib) "color_of x = BLACK" "color_of u = RED"
    | (black) "color_of x = BLACK" "color_of u = BLACK" by (metis color_cases(1))
  then show ?case
  proof cases
    case red
    have "color_of (recolor BLACK x) = BLACK" by (cases x) auto
    then show ?thesis using red f [OF 2(2,3)] by (simp add: red)
  next
    case sib
    have x: "no_rr x" using 2(2) sib(1) by (cases x) auto
    obtain a z b where uu: "u = mk sd RED a z b" using mk_exhaust [OF color_RED_Nd [OF sib(2)]] sib(2) by (metis mk_simps(1))
    let ?fs = "(sd, BLACK, z, b) # fs"
    have ctx: "nrr_ctx ?fs" using u uu by auto
    show ?thesis
    proof (cases "both_black a")
      case True
      have "no_rr (recolor RED a)" using u uu True by (cases a) (auto simp: both_black_def)
      then show ?thesis using sib uu True x f [OF _ ctx, of "mk sd BLACK x p (recolor RED a)"] by simp
    next
      case False
      then show ?thesis using sib uu x u fr [OF _ ctx, of "rebalance sd RED x p a"] rebalance_no_rr [OF False x] by simp
    qed
  next
    case black
    have x: "no_rr x" using 2(2) black(1) by (cases x) auto
    show ?thesis
    proof (cases "both_black u")
      case True
      have "no_rr (recolor RED u)" using u True by (cases u) (auto simp: both_black_def)
      then show ?thesis using black True x 2(1) u by simp
    next
      case False
      then show ?thesis using black x u fr [of "rebalance sd c x p u" fs] rebalance_no_rr [OF False x]
        by (simp add: rebalance_color)
    qed
  qed
qed

section \<open>Searching, inserting and deleting on shapes\<close>

text \<open>The way down for a key: the context passed and the subtree found, a leaf or one whose root has the key.\<close>

fun descend :: "(qse_pair \<Rightarrow> int) \<Rightarrow> rtree \<Rightarrow> frame list \<Rightarrow> frame list \<times> rtree" where
  "descend cmp Lf fs = (fs, Lf)"
| "descend cmp (Nd c l p r) fs =
     (if cmp p = 0 then (fs, Nd c l p r)
      else if cmp p > 0 then descend cmp r ((RIGHT, c, p, l) # fs)
      else descend cmp l ((LEFT, c, p, r) # fs))"

fun down_left :: "rtree \<Rightarrow> frame list \<Rightarrow> frame list \<times> rtree" where
  "down_left Lf fs = (fs, Lf)"
| "down_left (Nd c l p r) fs = (if l = Lf then (fs, Nd c l p r) else down_left l ((LEFT, c, p, r) # fs))"

fun replace_pair :: "qse_pair \<Rightarrow> qse_pair \<Rightarrow> rtree \<Rightarrow> rtree" where
  "replace_pair p q Lf = Lf"
| "replace_pair p q (Nd c l x r) = Nd c (replace_pair p q l) (if x = p then q else x) (replace_pair p q r)"

definition unlink :: "frame list \<Rightarrow> color \<Rightarrow> rtree \<Rightarrow> rtree" where
  "unlink fs c x = (if c = BLACK \<and> x \<noteq> Lf then fix_delete fs x else fill fs x)"

fun del_tree :: "frame list \<Rightarrow> rtree \<Rightarrow> rtree" where
  "del_tree fs Lf = fill fs Lf"
| "del_tree fs (Nd c l p r) =
     (if l = Lf \<or> r = Lf then unlink fs c (if l = Lf then r else l)
      else case down_left r ((RIGHT, c, p, l) # fs) of
        (gs, y) \<Rightarrow> replace_pair p (root_pair y) (unlink gs (color_of y) (subt RIGHT y)))"

definition key_less :: "qse_pair \<Rightarrow> qse_pair \<Rightarrow> bool" where
  "key_less p q \<longleftrightarrow> xp_data (pr_key p) < xp_data (pr_key q)"

definition bst :: "rtree \<Rightarrow> bool" where
  "bst t \<longleftrightarrow> sorted_wrt key_less (inorder t)"

lemma descend_fill: "descend cmp t fs = (gs, u) \<Longrightarrow> fill gs u = fill fs t"
  by (induction cmp t fs rule: descend.induct) (auto simp: mk_def split: if_splits)

lemma descend_found: "descend cmp t fs = (gs, Nd c l p r) \<Longrightarrow> cmp p = 0"
  by (induction cmp t fs rule: descend.induct) (auto split: if_splits)

text \<open>For a comparison that agrees with the order of the tree, a leaf is found between the smaller and the greater pairs.\<close>

lemma descend_missing:
  assumes "descend cmp t fs = (gs, Lf)" "\<forall>p \<in> set (bef fs). cmp p > 0" "\<forall>p \<in> set (aft fs). cmp p < 0"
    "\<And>p q. p \<in> set (inorder t) \<Longrightarrow> q \<in> set (inorder t) \<Longrightarrow> key_less p q \<Longrightarrow> (cmp q > 0 \<longrightarrow> cmp p > 0) \<and> (cmp p < 0 \<longrightarrow> cmp q < 0)"
    "bst t"
  shows "(\<forall>p \<in> set (bef gs). cmp p > 0) \<and> (\<forall>p \<in> set (aft gs). cmp p < 0)"
  using assms
proof (induction t arbitrary: fs)
  case (Nd c l p r)
  have o: "bst l" "bst r" "\<And>q. q \<in> set (inorder l) \<Longrightarrow> key_less q p" "\<And>q. q \<in> set (inorder r) \<Longrightarrow> key_less p q"
    using Nd.prems(5) by (auto simp: bst_def sorted_wrt_append)
  have n0: "cmp p \<noteq> 0" using Nd.prems(1) by (auto split: if_splits)
  show ?case
  proof (cases "cmp p > 0")
    case True
    then have "\<forall>q \<in> set (bef ((RIGHT, c, p, l) # fs)). cmp q > 0" using Nd.prems(2,4) o(3) by auto
    moreover have "\<forall>q \<in> set (aft ((RIGHT, c, p, l) # fs)). cmp q < 0" using Nd.prems(3) by simp
    moreover have "descend cmp r ((RIGHT, c, p, l) # fs) = (gs, Lf)" using Nd.prems(1) n0 True by simp
    ultimately show ?thesis by (intro Nd.IH(2) [of "(RIGHT, c, p, l) # fs"] Nd.prems(4) o(2)) simp_all
  next
    case False
    then have "cmp p < 0" using n0 by simp
    then have "\<forall>q \<in> set (aft ((LEFT, c, p, r) # fs)). cmp q < 0" using Nd.prems(3,4) o(4) by auto
    moreover have "\<forall>q \<in> set (bef ((LEFT, c, p, r) # fs)). cmp q > 0" using Nd.prems(2) by simp
    moreover have "descend cmp l ((LEFT, c, p, r) # fs) = (gs, Lf)" using Nd.prems(1) n0 False by simp
    ultimately show ?thesis by (intro Nd.IH(1) [of "(LEFT, c, p, r) # fs"] Nd.prems(4) o(1)) simp_all
  qed
qed simp

lemma down_left_fill: "down_left t fs = (gs, u) \<Longrightarrow> fill gs u = fill fs t"
  by (induction t fs rule: down_left.induct) (auto simp: mk_def split: if_splits)

lemma down_left_root: "t \<noteq> Lf \<Longrightarrow> down_left t fs = (gs, u) \<Longrightarrow> u \<noteq> Lf \<and> subt LEFT u = Lf"
  by (induction t fs rule: down_left.induct) (auto split: if_splits)

lemma down_left_bef: "down_left t fs = (gs, u) \<Longrightarrow> bef gs = bef fs"
  by (induction t fs rule: down_left.induct) (auto split: if_splits)

lemma inorder_replace: "inorder (replace_pair p q t) = map (\<lambda>x. if x = p then q else x) (inorder t)"
  by (induction t) auto

lemma color_replace [simp]: "color_of (replace_pair p q t) = color_of t"
  by (cases t) auto

lemma no_rr_replace [simp]: "no_rr (replace_pair p q t) = no_rr t"
  by (induction t) auto

lemma map_replace_id: "p \<notin> set xs \<Longrightarrow> map (\<lambda>x. if x = p then q else x) xs = xs"
  by (induction xs) auto

lemma inorder_unlink: "inorder (unlink fs c x) = inorder (fill fs x)"
  by (simp add: unlink_def fix_delete_inorder)

lemma del_tree_inorder:
  assumes "distinct (inorder (fill fs (Nd c l p r)))"
  shows "inorder (del_tree fs (Nd c l p r)) = bef fs @ inorder l @ inorder r @ aft fs"
proof (cases "l = Lf \<or> r = Lf")
  case True
  then show ?thesis by (auto simp: inorder_unlink inorder_fill)
next
  case False
  obtain gs y where d: "down_left r ((RIGHT, c, p, l) # fs) = (gs, y)" by (metis surj_pair)
  note yr = down_left_root [OF _ d] down_left_fill [OF d] down_left_bef [OF d]
  have iy: "inorder y = root_pair y # inorder (subt RIGHT y)" using yr(1) False inorder_subt [of y] by auto
  have f: "inorder (fill gs y) = bef fs @ inorder l @ p # inorder r @ aft fs" using yr(2) by (simp add: inorder_fill mk_def)
  have b: "bef gs = bef fs @ inorder l @ [p]" using yr(3) by simp
  have e: "inorder y @ aft gs = inorder r @ aft fs" using f b by (simp add: inorder_fill)
  have di: "distinct (bef fs @ inorder l @ p # inorder y @ aft gs)" using assms e by (simp add: inorder_fill)
  have "inorder (del_tree fs (Nd c l p r)) =
      map (\<lambda>x. if x = p then root_pair y else x) (bef fs @ inorder l @ p # inorder (subt RIGHT y) @ aft gs)"
    using False d b by (simp add: inorder_replace inorder_unlink inorder_fill)
  also have "\<dots> = bef fs @ inorder l @ inorder y @ aft gs"
    using di iy by (simp add: map_replace_id)
  finally show ?thesis using e by simp
qed

lemma unlink_no_rr:
  assumes "no_rr (fill fs (mk sd c x p Lf)) \<and> color_of (fill fs (mk sd c x p Lf)) = BLACK"
  shows "no_rr (unlink fs c x) \<and> color_of (unlink fs c x) = BLACK"
proof -
  have n: "no_rr x" "nrr_ctx fs" "c = RED \<Longrightarrow> color_of x = BLACK \<and> fs \<noteq> []"
    using assms no_rr_fill [of fs "mk sd c x p Lf"] by auto
  show ?thesis
  proof (cases "c = BLACK \<and> x \<noteq> Lf")
    case True
    then show ?thesis using fix_delete_no_rr [OF no_rr_recolor [OF n(1)] n(2)] by (simp add: unlink_def)
  next
    case False
    then have "color_of x = BLACK" using n(3) by (cases c) auto
    then show ?thesis using n no_rr_fill [of fs x] False by (auto simp: unlink_def)
  qed
qed

lemma del_tree_no_rr:
  assumes "no_rr (fill fs (Nd c l p r)) \<and> color_of (fill fs (Nd c l p r)) = BLACK"
  shows "no_rr (del_tree fs (Nd c l p r)) \<and> color_of (del_tree fs (Nd c l p r)) = BLACK"
proof (cases "l = Lf \<or> r = Lf")
  case True
  then consider "l = Lf" | "r = Lf" "l \<noteq> Lf" by blast
  then show ?thesis
  proof cases
    case 1
    then show ?thesis using unlink_no_rr [of fs RIGHT c r p] assms by (simp add: mk_def)
  next
    case 2
    then show ?thesis using unlink_no_rr [of fs LEFT c l p] assms by (simp add: mk_def)
  qed
next
  case False
  obtain gs y where d: "down_left r ((RIGHT, c, p, l) # fs) = (gs, y)" by (metis surj_pair)
  have f: "fill gs y = fill fs (Nd c l p r)" using down_left_fill [OF d] by (simp add: mk_def)
  have "y = mk RIGHT (color_of y) (subt RIGHT y) (root_pair y) Lf"
    using down_left_root [OF _ d] False mk_sub [of y RIGHT] by simp
  then have "no_rr (unlink gs (color_of y) (subt RIGHT y)) \<and> color_of (unlink gs (color_of y) (subt RIGHT y)) = BLACK"
    using unlink_no_rr [of gs RIGHT "color_of y" "subt RIGHT y" "root_pair y"] assms f by simp
  then show ?thesis using False d by simp
qed

end
