(* ===== verification/Qse_Rbt.thy ===== *)
theory Qse_Rbt
  imports Qse_Rtree "HOL-Library.Monad_Syntax"
begin

text \<open>
  The red-black tree (\<open>src/lib/cmn/rbt.c\<close>) on linked pairs. The heap of the tree maps the address of a pair to
  its fields; the nil pair that is part of the tree object is at the address \<open>XNIL\<close>. Loops are partial functions whose value is \<open>None\<close> if they
  do not end. A pair that the operations return is given by its address and contents, as for the hash table.
\<close>

section \<open>State\<close>

record rnode =
  rn_key :: qse_xptl
  rn_val :: qse_xptl
  rn_color :: color
  rn_parent :: addr
  rn_child :: "side \<Rightarrow> addr"

record qse_rbt =
  rbt_style :: pair_style
  rbt_comper :: "nat \<Rightarrow> qse_xptl \<Rightarrow> qse_xptl \<Rightarrow> int"
  rbt_kscale :: nat
  rbt_vscale :: nat
  rbt_size :: nat
  rbt_root :: addr
  rbt_heap :: "addr \<Rightarrow> rnode"

definition XNIL :: addr where
  "XNIL = 1"

definition RBT_PAIR_SIZE :: nat where
  [qse_defs]: "RBT_PAIR_SIZE = 64"

abbreviation IS_NIL :: "addr \<Rightarrow> bool" where
  "IS_NIL x \<equiv> x = XNIL"

definition upd :: "addr \<Rightarrow> (rnode \<Rightarrow> rnode) \<Rightarrow> qse_rbt \<Rightarrow> qse_rbt" where
  "upd a f s = s\<lparr>rbt_heap := (rbt_heap s)(a := f (rbt_heap s a))\<rparr>"

definition set_color :: "addr \<Rightarrow> color \<Rightarrow> qse_rbt \<Rightarrow> qse_rbt" where
  "set_color a c = upd a (\<lambda>n. n\<lparr>rn_color := c\<rparr>)"

definition set_parent :: "addr \<Rightarrow> addr \<Rightarrow> qse_rbt \<Rightarrow> qse_rbt" where
  "set_parent a b = upd a (\<lambda>n. n\<lparr>rn_parent := b\<rparr>)"

definition set_child :: "addr \<Rightarrow> side \<Rightarrow> addr \<Rightarrow> qse_rbt \<Rightarrow> qse_rbt" where
  "set_child a sd b = upd a (\<lambda>n. n\<lparr>rn_child := (rn_child n)(sd := b)\<rparr>)"

abbreviation color_at :: "qse_rbt \<Rightarrow> addr \<Rightarrow> color" where
  "color_at s a \<equiv> rn_color (rbt_heap s a)"
abbreviation parent_at :: "qse_rbt \<Rightarrow> addr \<Rightarrow> addr" where
  "parent_at s a \<equiv> rn_parent (rbt_heap s a)"
abbreviation child_at :: "qse_rbt \<Rightarrow> addr \<Rightarrow> side \<Rightarrow> addr" where
  "child_at s a sd \<equiv> rn_child (rbt_heap s a) sd"
abbreviation pair_at :: "qse_rbt \<Rightarrow> addr \<Rightarrow> qse_pair" where
  "pair_at s a \<equiv> \<lparr>pr_addr = a, pr_key = rn_key (rbt_heap s a), pr_val = rn_val (rbt_heap s a)\<rparr>"

definition qse_rbt_dflcomp :: "nat \<Rightarrow> qse_xptl \<Rightarrow> qse_xptl \<Rightarrow> int" where
  "qse_rbt_dflcomp scale k1 k2 =
     (let mn = (if xp_len k1 < xp_len k2 then xp_len k1 else xp_len k2);
          nn = (if xp_len k1 < xp_len k2 then - 1 else if xp_len k1 = xp_len k2 then 0 else 1);
          n = bytes_cmp (take (TOB scale mn) (xp_data k1)) (take (TOB scale mn) (xp_data k2))
      in if n = 0 then nn else n)"

text \<open>A zeroed object: null pointers, and red for the colour, which is the enumerator 0.\<close>

definition zero_node :: rnode where
  "zero_node = (let z = \<lparr>xp_ptr = QSE_NULL, xp_len = 0, xp_data = []\<rparr>
     in \<lparr>rn_key = z, rn_val = z, rn_color = RED, rn_parent = QSE_NULL, rn_child = (\<lambda>_. QSE_NULL)\<rparr>)"

definition qse_rbt_init :: "(addr \<Rightarrow> rnode) \<Rightarrow> int \<Rightarrow> int \<Rightarrow> qse_rbt" where
  "qse_rbt_init heap kscale vscale =
     \<lparr>rbt_style = get_style STYLE_DEFAULT, rbt_comper = qse_rbt_dflcomp,
      rbt_kscale = byte_scale kscale, rbt_vscale = byte_scale vscale,
      rbt_size = 0, rbt_root = XNIL,
      rbt_heap = heap(XNIL := zero_node\<lparr>rn_color := BLACK, rn_child := (\<lambda>_. XNIL)\<rparr>)\<rparr>"

definition qse_getrbtstyle :: "style_kind \<Rightarrow> pair_style \<times> (nat \<Rightarrow> qse_xptl \<Rightarrow> qse_xptl \<Rightarrow> int)" where
  "qse_getrbtstyle kind = (get_style kind, qse_rbt_dflcomp)"

definition qse_rbt_setstyle :: "qse_rbt \<Rightarrow> pair_style \<times> (nat \<Rightarrow> qse_xptl \<Rightarrow> qse_xptl \<Rightarrow> int) \<Rightarrow> qse_rbt" where
  "qse_rbt_setstyle s style = s\<lparr>rbt_style := fst style, rbt_comper := snd style\<rparr>"

section \<open>Search and rotation\<close>

partial_function (option) search_loop :: "qse_rbt \<Rightarrow> qse_xptl \<Rightarrow> addr \<Rightarrow> addr option" where
  "search_loop s k pair =
     (if IS_NIL pair then Some QSE_NULL
      else
        (let n = rbt_comper s (rbt_kscale s) k (rn_key (rbt_heap s pair)) in
         if n = 0 then Some pair
         else if n > 0 then search_loop s k (child_at s pair RIGHT)
         else search_loop s k (child_at s pair LEFT)))"

definition qse_rbt_search :: "qse_rbt \<Rightarrow> qse_xptl \<Rightarrow> addr option" where
  "qse_rbt_search s k = search_loop s k (rbt_root s)"

text \<open>Putting \<open>new\<close> where \<open>old\<close> was, under its parent or as the root.\<close>

definition relink :: "qse_rbt \<Rightarrow> addr \<Rightarrow> addr \<Rightarrow> addr \<Rightarrow> qse_rbt" where
  "relink s par old new =
     (if par \<noteq> QSE_NULL then
        (if child_at s par LEFT = old then set_child par LEFT new s else set_child par RIGHT new s)
      else s\<lparr>rbt_root := new\<rparr>)"

definition rotate_pair :: "qse_rbt \<Rightarrow> addr \<Rightarrow> bool \<Rightarrow> qse_rbt" where
  "rotate_pair s pivot leftwise =
     (let cid1 = (if leftwise then RIGHT else LEFT); cid2 = (if leftwise then LEFT else RIGHT);
          par = parent_at s pivot;
          z = child_at s pivot cid1;
          c = child_at s z cid2;
          s = set_parent z par s;
          s = relink s par pivot z;
          s = set_child z cid2 pivot s;
          s = (if \<not> IS_NIL pivot then set_parent pivot z s else s);
          s = set_child pivot cid1 c s
      in if \<not> IS_NIL c then set_parent c pivot s else s)"

section \<open>Insertion\<close>

partial_function (option) adjust :: "qse_rbt \<Rightarrow> addr \<Rightarrow> qse_rbt option" where
  "adjust s pair =
     (if pair = rbt_root s then Some s
      else
        (let x_par = parent_at s pair in
         if color_at s x_par = BLACK then Some s
         else
           (let is_left = (x_par = child_at s (parent_at s x_par) LEFT);
                tmp = child_at s (parent_at s x_par) (if is_left then RIGHT else LEFT);
                tmp2 = child_at s x_par (if is_left then RIGHT else LEFT);
                leftwise = is_left
            in if color_at s tmp = RED then
                 (let s = set_color x_par BLACK s;
                      s = set_color tmp BLACK s;
                      s = set_color (parent_at s x_par) RED s
                  in adjust s (parent_at s x_par))
               else
                 (let (s, pair, x_par) =
                        (if pair = tmp2 then
                           (let s = rotate_pair s x_par leftwise in (s, x_par, parent_at s x_par))
                         else (s, pair, x_par));
                      s = set_color x_par BLACK s;
                      s = set_color (parent_at s x_par) RED s;
                      s = rotate_pair s (parent_at s x_par) (\<not> leftwise)
                  in adjust s pair))))"

text \<open>
  A new block for a pair is filled by \<open>qse_rbt_allocpair\<close>, which leaves it red, without a parent and with nil children.
\<close>

definition qse_rbt_allocpair :: "qse_rbt \<Rightarrow> block \<Rightarrow> qse_xptl \<Rightarrow> qse_xptl \<Rightarrow> qse_rbt \<times> qse_pair option \<times> pair_call list" where
  "qse_rbt_allocpair s mm k v =
     (case alloc_pair (rbt_style s) RBT_PAIR_SIZE (rbt_kscale s) (rbt_vscale s) mm k v of
        (None, log) \<Rightarrow> (s, None, log)
      | (Some p, log) \<Rightarrow>
          (upd (pr_addr p) (\<lambda>_. \<lparr>rn_key = pr_key p, rn_val = pr_val p, rn_color = RED, rn_parent = QSE_NULL, rn_child = (\<lambda>_. XNIL)\<rparr>) s,
           Some p, log))"

text \<open>
  The replacement \<open>new\<close> of the pair whose fields are \<open>old\<close> takes over its colour and links.
\<close>

definition take_over :: "qse_rbt \<Rightarrow> addr \<Rightarrow> rnode \<Rightarrow> addr \<Rightarrow> qse_rbt" where
  "take_over s pair old p =
     (let s = set_color p (rn_color old) s;
          s = set_child p LEFT (rn_child old LEFT) s;
          s = set_child p RIGHT (rn_child old RIGHT) s;
          s = set_parent p (rn_parent old) s;
          s = (if rn_parent old \<noteq> QSE_NULL then relink s (rn_parent old) pair p else s);
          s = (if \<not> IS_NIL (rn_child old LEFT) then set_parent (rn_child old LEFT) p s else s);
          s = (if \<not> IS_NIL (rn_child old RIGHT) then set_parent (rn_child old RIGHT) p s else s)
      in if pair = rbt_root s then s\<lparr>rbt_root := p\<rparr> else s)"

definition rbt_change_pair_val :: "block \<Rightarrow> qse_rbt \<Rightarrow> addr \<Rightarrow> qse_xptl \<Rightarrow> qse_rbt \<times> qse_pair option \<times> pair_call list" where
  "rbt_change_pair_val mm s pair v =
     (case change_pair_val (rbt_style s) RBT_PAIR_SIZE (rbt_kscale s) (rbt_vscale s) mm (pair_at s pair) v of
        (None, log) \<Rightarrow> (s, None, log)
      | (Some p, log) \<Rightarrow>
          if ps_vcopier (rbt_style s) = COPIER_INLINE \<and> xp_len (rn_val (rbt_heap s pair)) \<noteq> xp_len v then
            (take_over (upd (pr_addr p) (\<lambda>_. \<lparr>rn_key = pr_key p, rn_val = pr_val p, rn_color = RED, rn_parent = QSE_NULL, rn_child = (\<lambda>_. XNIL)\<rparr>) s)
               pair (rbt_heap s pair) (pr_addr p), Some p, log)
          else (upd pair (\<lambda>n. n\<lparr>rn_val := pr_val p\<rparr>) s, Some p, log))"

text \<open>The way down of \<open>insert\<close> and \<open>qse_rbt_cbsert\<close>: the pair with the key, if any, and the last pair passed.\<close>

partial_function (option) insert_loop :: "qse_rbt \<Rightarrow> qse_xptl \<Rightarrow> addr \<Rightarrow> addr \<Rightarrow> (addr \<times> addr) option" where
  "insert_loop s k x_cur x_par =
     (if IS_NIL x_cur then Some (x_cur, x_par)
      else
        (let n = rbt_comper s (rbt_kscale s) k (rn_key (rbt_heap s x_cur)) in
         if n = 0 then Some (x_cur, x_par)
         else if n > 0 then insert_loop s k (child_at s x_cur RIGHT) x_cur
         else insert_loop s k (child_at s x_cur LEFT) x_cur))"

definition attach :: "qse_rbt \<Rightarrow> qse_xptl \<Rightarrow> addr \<Rightarrow> addr \<Rightarrow> qse_rbt option" where
  "attach s k x_par x_new =
     do {
       s \<leftarrow> (if x_par = QSE_NULL then Some (s\<lparr>rbt_root := x_new\<rparr>)
             else
               (let n = rbt_comper s (rbt_kscale s) k (rn_key (rbt_heap s x_par));
                    s = (if n > 0 then set_child x_par RIGHT x_new s else set_child x_par LEFT x_new s);
                    s = set_parent x_new x_par s
                in adjust s x_new));
       let s = set_color (rbt_root s) BLACK s;
       Some (s\<lparr>rbt_size := rbt_size s + 1\<rparr>)
     }"

definition rbt_insert ::
  "block \<Rightarrow> qse_rbt \<Rightarrow> qse_xptl \<Rightarrow> qse_xptl \<Rightarrow> insert_opt \<Rightarrow> (qse_rbt \<times> qse_pair option \<times> pair_call list) option" where
  "rbt_insert mm s k v opt =
     do {
       (x_cur, x_par) \<leftarrow> insert_loop s k (rbt_root s) QSE_NULL;
       if \<not> IS_NIL x_cur then
         (case opt of
            ENSERT \<Rightarrow> Some (s, Some (pair_at s x_cur), [])
          | INSERT \<Rightarrow> Some (s, None, [])
          | _ \<Rightarrow> Some (rbt_change_pair_val mm s x_cur v))
       else if opt = UPDATE then Some (s, None, [])
       else
         (case qse_rbt_allocpair s mm k v of
            (s, None, log) \<Rightarrow> Some (s, None, log)
          | (s, Some p, log) \<Rightarrow> do { s \<leftarrow> attach s k x_par (pr_addr p); Some (s, Some (pair_at s (pr_addr p)), log) })
     }"

definition qse_rbt_upsert where
  "qse_rbt_upsert mm s k v = rbt_insert mm s k v UPSERT"
definition qse_rbt_ensert where
  "qse_rbt_ensert mm s k v = rbt_insert mm s k v ENSERT"
definition qse_rbt_insert where
  "qse_rbt_insert mm s k v = rbt_insert mm s k v INSERT"
definition qse_rbt_update where
  "qse_rbt_update mm s k v = rbt_insert mm s k v UPDATE"

text \<open>
  The callback of \<open>qse_rbt_cbsert\<close> is the client's: it is given the tree and the address of the pair with the key, or null, and returns
  the tree's memory with the address of the pair to keep, or null.
\<close>

definition qse_rbt_cbsert ::
  "qse_rbt \<Rightarrow> qse_xptl \<Rightarrow> (qse_rbt \<Rightarrow> addr \<Rightarrow> qse_rbt \<times> addr) \<Rightarrow> (qse_rbt \<times> addr) option" where
  "qse_rbt_cbsert s k cbserter =
     do {
       (x_cur, x_par) \<leftarrow> insert_loop s k (rbt_root s) QSE_NULL;
       if \<not> IS_NIL x_cur then
         (let tmp = rbt_heap s x_cur; (s, x_new) = cbserter s x_cur in
          if x_new = QSE_NULL then Some (s, QSE_NULL)
          else if x_new \<noteq> x_cur then Some (take_over s x_cur tmp x_new, x_new)
          else Some (s, x_new))
       else
         (let (s, x_new) = cbserter s QSE_NULL in
          if x_new = QSE_NULL then Some (s, QSE_NULL)
          else do { s \<leftarrow> attach s k x_par x_new; Some (s, x_new) })
     }"

section \<open>Deletion\<close>

text \<open>
  One round of \<open>adjust_for_delete\<close> for a pair on side \<open>sd\<close> of its parent (the two halves of the loop body mirror each other), and
  the part of it that follows once the sibling \<open>tmp\<close> is black.
\<close>

definition delete_tail :: "qse_rbt \<Rightarrow> addr \<Rightarrow> addr \<Rightarrow> side \<Rightarrow> qse_rbt \<times> addr \<times> addr" where
  "delete_tail s par tmp sd =
     (if color_at s (child_at s tmp LEFT) = BLACK \<and> color_at s (child_at s tmp RIGHT) = BLACK then
        (let s = (if \<not> IS_NIL tmp then set_color tmp RED s else s)
         in (s, par, parent_at s par))
      else
        (let (s, tmp) =
               (if color_at s (child_at s tmp (opp sd)) = BLACK then
                  (let s = (if \<not> IS_NIL (child_at s tmp sd) then set_color (child_at s tmp sd) BLACK s else s);
                       s = set_color tmp RED s;
                       s = rotate_pair s tmp (sd \<noteq> LEFT)
                   in (s, child_at s par (opp sd)))
                else (s, tmp));
             s = set_color tmp (color_at s par) s;
             s = (if \<not> IS_NIL par then set_color par BLACK s else s);
             s = (if color_at s (child_at s tmp (opp sd)) = RED then set_color (child_at s tmp (opp sd)) BLACK s else s);
             s = rotate_pair s par (sd = LEFT)
         in (s, rbt_root s, par)))"

definition delete_round :: "qse_rbt \<Rightarrow> addr \<Rightarrow> side \<Rightarrow> qse_rbt \<times> addr \<times> addr" where
  "delete_round s par sd =
     (let tmp = child_at s par (opp sd) in
      if color_at s tmp = RED then
        (let s = set_color tmp BLACK s;
             s = set_color par RED s;
             s = rotate_pair s par (sd = LEFT)
         in delete_tail s par (child_at s par (opp sd)) sd)
      else delete_tail s par tmp sd)"

partial_function (option) adjust_for_delete :: "qse_rbt \<Rightarrow> addr \<Rightarrow> addr \<Rightarrow> qse_rbt option" where
  "adjust_for_delete s pair par =
     (if pair \<noteq> rbt_root s \<and> color_at s pair = BLACK then
        (let (s, pair, par) = delete_round s par (if pair = child_at s par LEFT then LEFT else RIGHT)
         in adjust_for_delete s pair par)
      else Some (set_color pair BLACK s))"

partial_function (option) leftmost_loop :: "qse_rbt \<Rightarrow> addr \<Rightarrow> addr option" where
  "leftmost_loop s y = (if IS_NIL (child_at s y LEFT) then Some y else leftmost_loop s (child_at s y LEFT))"

text \<open>The pair \<open>y\<close> with the only child \<open>x\<close> leaves the tree, which is repaired if \<open>y\<close> was black and \<open>x\<close> is not nil.\<close>

definition take_out :: "qse_rbt \<Rightarrow> addr \<Rightarrow> addr \<Rightarrow> addr \<Rightarrow> qse_rbt option" where
  "take_out s y x par =
     (let s = (if \<not> IS_NIL x then set_parent x par s else s);
          s = relink s par y x
      in if color_at s y = BLACK \<and> \<not> IS_NIL x then adjust_for_delete s x par else Some s)"

text \<open>The successor \<open>y\<close>, already unlinked, takes the place of the pair to be deleted.\<close>

definition swap_in :: "qse_rbt \<Rightarrow> addr \<Rightarrow> addr \<Rightarrow> qse_rbt" where
  "swap_in s pair y =
     (let pp = parent_at s pair;
          s = (if pp \<noteq> QSE_NULL then
                 (let s = (if child_at s pp LEFT = pair then set_child pp LEFT y s else s)
                  in if child_at s pp RIGHT = pair then set_child pp RIGHT y s else s)
               else s\<lparr>rbt_root := y\<rparr>);
          s = set_parent y (parent_at s pair) s;
          s = set_child y LEFT (child_at s pair LEFT) s;
          s = set_child y RIGHT (child_at s pair RIGHT) s;
          s = set_color y (color_at s pair) s;
          s = (if parent_at s (child_at s pair LEFT) = pair then set_parent (child_at s pair LEFT) y s else s)
      in if parent_at s (child_at s pair RIGHT) = pair then set_parent (child_at s pair RIGHT) y s else s)"

definition delete_pair :: "qse_rbt \<Rightarrow> addr \<Rightarrow> (qse_rbt \<times> pair_call list) option" where
  "delete_pair s pair =
     do {
       y \<leftarrow> (if IS_NIL (child_at s pair LEFT) \<or> IS_NIL (child_at s pair RIGHT) then Some pair
             else leftmost_loop s (child_at s pair RIGHT));
       let x = (if IS_NIL (child_at s y LEFT) then child_at s y RIGHT else child_at s y LEFT);
       let par = parent_at s y;
       s \<leftarrow> take_out s y x par;
       let log = free_pair (rbt_style s) (pair_at s pair);
       let s = (if y = pair then s else swap_in s pair y);
       Some (s\<lparr>rbt_size := rbt_size s - 1\<rparr>, log)
     }"

definition qse_rbt_delete :: "qse_rbt \<Rightarrow> qse_xptl \<Rightarrow> (qse_rbt \<times> int \<times> pair_call list) option" where
  "qse_rbt_delete s k =
     do {
       pair \<leftarrow> qse_rbt_search s k;
       if pair = QSE_NULL then Some (s, - 1, [])
       else do { (s, log) \<leftarrow> delete_pair s pair; Some (s, 0, log) }
     }"

partial_function (option) clear_loop :: "qse_rbt \<Rightarrow> pair_call list \<Rightarrow> (qse_rbt \<times> pair_call list) option" where
  "clear_loop s log =
     (if IS_NIL (rbt_root s) then Some (s, log)
      else do { (s, log1) \<leftarrow> delete_pair s (rbt_root s); clear_loop s (log @ log1) })"

definition qse_rbt_clear :: "qse_rbt \<Rightarrow> (qse_rbt \<times> pair_call list) option" where
  "qse_rbt_clear s = clear_loop s []"

section \<open>Walking\<close>

partial_function (option) rbt_walk_loop ::
  "qse_rbt \<Rightarrow> ('w \<Rightarrow> qse_pair \<Rightarrow> 'w \<times> bool) \<Rightarrow> side \<Rightarrow> side \<Rightarrow> addr \<Rightarrow> addr \<Rightarrow> 'w \<Rightarrow> 'w option" where
  "rbt_walk_loop s walker l r x_cur prev w =
     (if x_cur = QSE_NULL \<or> IS_NIL x_cur then Some w
      else if prev = parent_at s x_cur \<and> \<not> IS_NIL (child_at s x_cur l) then
        rbt_walk_loop s walker l r (child_at s x_cur l) x_cur w
      else if prev = parent_at s x_cur \<or> prev = child_at s x_cur l then
        (let (w, go) = walker w (pair_at s x_cur) in
         if \<not> go then Some w
         else if \<not> IS_NIL (child_at s x_cur r) then rbt_walk_loop s walker l r (child_at s x_cur r) x_cur w
         else rbt_walk_loop s walker l r (parent_at s x_cur) x_cur w)
      else rbt_walk_loop s walker l r (parent_at s x_cur) x_cur w)"

definition rbt_walk :: "qse_rbt \<Rightarrow> ('w \<Rightarrow> qse_pair \<Rightarrow> 'w \<times> bool) \<Rightarrow> 'w \<Rightarrow> side \<Rightarrow> side \<Rightarrow> 'w option" where
  "rbt_walk s walker ctx l r = rbt_walk_loop s walker l r (rbt_root s) (parent_at s (rbt_root s)) ctx"

definition qse_rbt_walk where
  "qse_rbt_walk s walker ctx = rbt_walk s walker ctx LEFT RIGHT"
definition qse_rbt_rwalk where
  "qse_rbt_rwalk s walker ctx = rbt_walk s walker ctx RIGHT LEFT"

end
