(* ===== verification/Qse_Rbt_Repr.thy ===== *)
theory Qse_Rbt_Repr
  imports Qse_Rbt
begin

text \<open>
  When the linked pairs of a red-black tree form a given shape, and what each loop of \<open>src/lib/cmn/rbt.c\<close> does to the shape: rotation,
  the repair after insertion and the repair after deletion compute the functions on contexts of
  \<open>Qse_Rtree\<close>, and end.
\<close>

section \<open>Linked pairs that form a shape\<close>

fun addr_of :: "rtree \<Rightarrow> addr" where
  "addr_of Lf = XNIL"
| "addr_of (Nd c l p r) = pr_addr p"

definition addrs :: "rtree \<Rightarrow> addr list" where
  "addrs t = map pr_addr (inorder t)"

definition node_at :: "(addr \<Rightarrow> rnode) \<Rightarrow> qse_pair \<Rightarrow> color \<Rightarrow> addr \<Rightarrow> side \<Rightarrow> addr \<Rightarrow> addr \<Rightarrow> bool" where
  "node_at h p c par sd a b \<longleftrightarrow>
     rn_key (h (pr_addr p)) = pr_key p \<and> rn_val (h (pr_addr p)) = pr_val p \<and> rn_color (h (pr_addr p)) = c \<and>
     rn_parent (h (pr_addr p)) = par \<and> rn_child (h (pr_addr p)) sd = a \<and> rn_child (h (pr_addr p)) (opp sd) = b"

fun tree_at :: "(addr \<Rightarrow> rnode) \<Rightarrow> addr \<Rightarrow> rtree \<Rightarrow> bool" where
  "tree_at h par Lf \<longleftrightarrow> True"
| "tree_at h par (Nd c l p r) \<longleftrightarrow>
     node_at h p c par LEFT (addr_of l) (addr_of r) \<and> tree_at h (pr_addr p) l \<and> tree_at h (pr_addr p) r"

fun par_of :: "frame list \<Rightarrow> addr" where
  "par_of [] = QSE_NULL"
| "par_of ((sd, c, p, u) # fs) = pr_addr p"

fun ctx_at :: "(addr \<Rightarrow> rnode) \<Rightarrow> frame list \<Rightarrow> addr \<Rightarrow> bool" where
  "ctx_at h [] a \<longleftrightarrow> True"
| "ctx_at h ((sd, c, p, u) # fs) a \<longleftrightarrow>
     node_at h p c (par_of fs) sd a (addr_of u) \<and> tree_at h (pr_addr p) u \<and> ctx_at h fs (pr_addr p)"

fun root_addr :: "frame list \<Rightarrow> addr \<Rightarrow> addr" where
  "root_addr [] a = a"
| "root_addr ((sd, c, p, u) # fs) a = root_addr fs (pr_addr p)"

fun ctx_addrs :: "frame list \<Rightarrow> addr list" where
  "ctx_addrs [] = []"
| "ctx_addrs ((sd, c, p, u) # fs) = pr_addr p # addrs u @ ctx_addrs fs"

definition nil_ok :: "qse_rbt \<Rightarrow> bool" where
  "nil_ok s \<longleftrightarrow> color_at s XNIL = BLACK \<and> parent_at s XNIL = QSE_NULL \<and> (\<forall>sd. child_at s XNIL sd = XNIL)"

definition fresh :: "addr list \<Rightarrow> bool" where
  "fresh as \<longleftrightarrow> distinct as \<and> QSE_NULL \<notin> set as \<and> XNIL \<notin> set as"

definition repr :: "qse_rbt \<Rightarrow> rtree \<Rightarrow> bool" where
  "repr s t \<longleftrightarrow> rbt_root s = addr_of t \<and> tree_at (rbt_heap s) QSE_NULL t \<and> fresh (addrs t) \<and> nil_ok s"

text \<open>The same, split at a context.\<close>

definition at_ctx :: "qse_rbt \<Rightarrow> frame list \<Rightarrow> rtree \<Rightarrow> bool" where
  "at_ctx s fs t \<longleftrightarrow> rbt_root s = root_addr fs (addr_of t) \<and> ctx_at (rbt_heap s) fs (addr_of t) \<and>
     tree_at (rbt_heap s) (par_of fs) t \<and> fresh (addrs t @ ctx_addrs fs) \<and> nil_ok s"

lemma addr_of_mk [simp]: "addr_of (mk sd c t p u) = pr_addr p"
  by (simp add: mk_def)

lemma node_at_opp: "node_at h p c par (opp sd) a b \<longleftrightarrow> node_at h p c par sd b a"
  by (auto simp: node_at_def)

lemma tree_at_mk [simp]:
  "tree_at h par (mk sd c t p u) \<longleftrightarrow>
     node_at h p c par sd (addr_of t) (addr_of u) \<and> tree_at h (pr_addr p) t \<and> tree_at h (pr_addr p) u"
  using node_at_opp [of h p c par LEFT] by (cases sd) (auto simp: mk_def)

lemma addrs_simps [simp]: "addrs Lf = []" "addrs (Nd c l p r) = addrs l @ pr_addr p # addrs r"
  by (simp_all add: addrs_def)

lemma set_addrs_mk [simp]: "set (addrs (mk sd c t p u)) = insert (pr_addr p) (set (addrs t) \<union> set (addrs u))"
  by (auto simp: mk_def)

lemma distinct_addrs_mk:
  "distinct (addrs (mk sd c t p u) @ as) \<longleftrightarrow> distinct (pr_addr p # addrs t @ addrs u @ as)"
  by (auto simp: mk_def)

lemma fresh_mk [simp]: "fresh (addrs (mk sd c t p u) @ as) \<longleftrightarrow> fresh (pr_addr p # addrs t @ addrs u @ as)"
  unfolding fresh_def distinct_addrs_mk by auto

lemma fresh_mset: "mset as = mset bs \<Longrightarrow> fresh as = fresh bs"
  unfolding fresh_def using mset_eq_imp_distinct_iff mset_eq_setD by metis

lemma mset_addrs_mk [simp]: "mset (addrs (mk sd c t p u)) = add_mset (pr_addr p) (mset (addrs t) + mset (addrs u))"
  by (simp add: mk_def)

lemma mset_addrs_recolor [simp]: "addrs (recolor c t) = addrs t"
  by (simp add: addrs_def)

lemma addr_of_recolor [simp]: "addr_of (recolor c t) = addr_of t"
  by (cases t) auto

lemma root_addr_fill: "addr_of (fill fs t) = root_addr fs (addr_of t)"
  by (induction fs t rule: fill.induct) auto

lemma tree_at_fill: "tree_at h QSE_NULL (fill fs t) \<longleftrightarrow> ctx_at h fs (addr_of t) \<and> tree_at h (par_of fs) t"
  by (induction fs t rule: fill.induct) auto

lemma mset_addrs_fill: "mset (addrs (fill fs t)) = mset (addrs t @ ctx_addrs fs)"
  by (induction fs t rule: fill.induct) (auto simp: add_ac)

lemma repr_fill: "repr s (fill fs t) \<longleftrightarrow> at_ctx s fs t"
  unfolding repr_def at_ctx_def root_addr_fill tree_at_fill fresh_mset [OF mset_addrs_fill] by blast

section \<open>Locality\<close>

lemma tree_at_cong: "(\<And>a. a \<in> set (addrs t) \<Longrightarrow> h a = h' a) \<Longrightarrow> tree_at h par t = tree_at h' par t"
  by (induction t arbitrary: par) (auto simp: node_at_def)

lemma ctx_at_cong: "(\<And>a. a \<in> set (ctx_addrs fs) \<Longrightarrow> h a = h' a) \<Longrightarrow> ctx_at h fs a = ctx_at h' fs a"
proof (induction h fs a rule: ctx_at.induct)
  case (2 h sd c p u fs a)
  have "tree_at h (pr_addr p) u = tree_at h' (pr_addr p) u" using 2(2) by (intro tree_at_cong) simp
  then show ?case using 2 by (auto simp: node_at_def)
qed simp

lemma addr_of_in: "t \<noteq> Lf \<Longrightarrow> addr_of t \<in> set (addrs t)"
  by (cases t) auto

lemma addr_of_nil: "XNIL \<notin> set (addrs t) \<Longrightarrow> addr_of t = XNIL \<longleftrightarrow> t = Lf"
  by (cases t) auto

lemma par_of_in: "fs \<noteq> [] \<Longrightarrow> par_of fs \<in> set (ctx_addrs fs)"
  by (cases fs rule: par_of.cases) auto

lemma upd_simps [simp]:
  "rbt_heap (upd a f s) b = (if b = a then f (rbt_heap s a) else rbt_heap s b)"
  "rbt_root (upd a f s) = rbt_root s" "rbt_size (upd a f s) = rbt_size s" "rbt_style (upd a f s) = rbt_style s"
  "rbt_comper (upd a f s) = rbt_comper s" "rbt_kscale (upd a f s) = rbt_kscale s" "rbt_vscale (upd a f s) = rbt_vscale s"
  by (simp_all add: upd_def)

lemma set_parent_tree:
  assumes "tree_at h par t" "distinct (addrs t)" "h' = (\<lambda>b. if b = addr_of t then (h b)\<lparr>rn_parent := par'\<rparr> else h b)"
  shows "tree_at h' par' t"
proof (cases t)
  case (Nd c l p r)
  have "tree_at h (pr_addr p) l = tree_at h' (pr_addr p) l" "tree_at h (pr_addr p) r = tree_at h' (pr_addr p) r"
    using assms(2) unfolding assms(3) by (intro tree_at_cong; auto simp: Nd)+
  then show ?thesis using assms(1) by (simp add: Nd node_at_def assms(3))
qed simp

lemma recolor_tree:
  assumes "tree_at h par t" "distinct (addrs t)" "h' = (\<lambda>b. if b = addr_of t then (h b)\<lparr>rn_color := c\<rparr> else h b)"
  shows "tree_at h' par (recolor c t)"
proof (cases t)
  case (Nd c l p r)
  have "tree_at h (pr_addr p) l = tree_at h' (pr_addr p) l" "tree_at h (pr_addr p) r = tree_at h' (pr_addr p) r"
    using assms(2) unfolding assms(3) by (intro tree_at_cong; auto simp: Nd)+
  then show ?thesis using assms(1) by (simp add: Nd node_at_def assms(3))
qed simp

text \<open>The fields other than the heap and the root, which the loops leave alone.\<close>

definition same_frame :: "qse_rbt \<Rightarrow> qse_rbt \<Rightarrow> bool" where
  "same_frame s s' \<longleftrightarrow> rbt_style s' = rbt_style s \<and> rbt_comper s' = rbt_comper s \<and> rbt_kscale s' = rbt_kscale s \<and>
     rbt_vscale s' = rbt_vscale s \<and> rbt_size s' = rbt_size s"

lemma same_frame_refl [simp]: "same_frame s s" by (simp add: same_frame_def)
lemma same_frame_trans: "same_frame s s' \<Longrightarrow> same_frame s' s'' \<Longrightarrow> same_frame s s''" by (simp add: same_frame_def)
lemma same_frame_upd [simp]: "same_frame s (upd a f s') \<longleftrightarrow> same_frame s s'" by (simp add: same_frame_def)
lemma same_frame_root [simp]: "same_frame s (s'\<lparr>rbt_root := a\<rparr>) \<longleftrightarrow> same_frame s s'" by (simp add: same_frame_def)

lemmas set_defs = set_color_def set_parent_def set_child_def

section \<open>Relinking and rotating\<close>

text \<open>Under a context, the parent's link to the pair in the hole is moved to another pair; nothing else changes.\<close>

lemma relink_ctx:
  assumes "ctx_at (rbt_heap s) fs old" "rbt_root s = root_addr fs old" "fresh (ctx_addrs fs)" "old \<notin> set (ctx_addrs fs)" "old \<noteq> XNIL"
  shows "ctx_at (rbt_heap (relink s (par_of fs) old new)) fs new" "rbt_root (relink s (par_of fs) old new) = root_addr fs new"
    "\<And>a. a \<noteq> par_of fs \<or> fs = [] \<Longrightarrow> rbt_heap (relink s (par_of fs) old new) a = rbt_heap s a"
    "same_frame s (relink s (par_of fs) old new)"
proof -
  show f: "rbt_heap (relink s (par_of fs) old new) a = rbt_heap s a" if "a \<noteq> par_of fs \<or> fs = []" for a
    using that by (auto simp: relink_def set_defs)
  show "same_frame s (relink s (par_of fs) old new)" by (simp add: relink_def set_defs)
  have "ctx_at (rbt_heap (relink s (par_of fs) old new)) fs new \<and> rbt_root (relink s (par_of fs) old new) = root_addr fs new"
  proof (cases fs rule: par_of.cases)
    case (2 sd c p u gs)
    have n0: "pr_addr p \<noteq> QSE_NULL" using assms(3) by (auto simp: 2 fresh_def)
    have l: "child_at s (pr_addr p) LEFT = old \<longleftrightarrow> sd = LEFT"
    proof (cases sd)
      case RIGHT
      have "addr_of u \<noteq> old" using assms(4,5) addr_of_in [of u] by (cases "u = Lf") (auto simp: 2)
      then show ?thesis using assms(1) by (auto simp: 2 RIGHT node_at_def)
    qed (use assms(1) in \<open>auto simp: 2 node_at_def\<close>)
    have sd: "(if sd = LEFT then set_child (pr_addr p) LEFT new s else set_child (pr_addr p) RIGHT new s) = set_child (pr_addr p) sd new s"
      by (cases sd) auto
    have r: "relink s (par_of fs) old new = set_child (pr_addr p) sd new s"
      using n0 l sd by (simp add: relink_def 2)
    have t: "tree_at (rbt_heap (set_child (pr_addr p) sd new s)) (pr_addr p) u = tree_at (rbt_heap s) (pr_addr p) u"
      "ctx_at (rbt_heap (set_child (pr_addr p) sd new s)) gs (pr_addr p) = ctx_at (rbt_heap s) gs (pr_addr p)"
      using assms(3) by (auto intro!: tree_at_cong ctx_at_cong simp: 2 fresh_def set_child_def)
    show ?thesis using assms(1,2) t unfolding r by (simp add: 2) (simp add: set_child_def node_at_def)
  qed (use assms in \<open>simp add: relink_def\<close>)
  then show "ctx_at (rbt_heap (relink s (par_of fs) old new)) fs new" "rbt_root (relink s (par_of fs) old new) = root_addr fs new"
    by auto
qed

lemma rotate_at:
  assumes a: "at_ctx s fs (mk sd c x p (mk sd cz c1 q c2))"
  shows "at_ctx (rotate_pair s (pr_addr p) (sd = LEFT)) fs (mk sd cz (mk sd c x p c1) q c2) \<and>
    same_frame s (rotate_pair s (pr_addr p) (sd = LEFT))"
proof -
  define P where "P = pr_addr p" define Q where "Q = pr_addr q" define C where "C = addr_of c1" define R where "R = par_of fs"
  let ?h = "rbt_heap s"
  have fr: "fresh (P # addrs x @ Q # addrs c1 @ addrs c2 @ ctx_addrs fs)"
    using a fresh_mset [of "addrs (mk sd c x p (mk sd cz c1 q c2)) @ ctx_addrs fs" "P # addrs x @ Q # addrs c1 @ addrs c2 @ ctx_addrs fs"]
    by (simp add: at_ctx_def P_def Q_def)
  have h: "node_at ?h p c R sd (addr_of x) Q" "node_at ?h q cz P sd C (addr_of c2)" "tree_at ?h P x" "tree_at ?h Q c1" "tree_at ?h Q c2"
    "ctx_at ?h fs P" "rbt_root s = root_addr fs P" "nil_ok s"
    using a by (auto simp: at_ctx_def P_def Q_def C_def R_def)
  have ne: "P \<noteq> XNIL" "Q \<noteq> XNIL" "P \<noteq> Q" "P \<noteq> QSE_NULL" "Q \<noteq> QSE_NULL" "P \<notin> set (ctx_addrs fs)" "Q \<notin> set (ctx_addrs fs)"
    "P \<notin> set (addrs x @ addrs c1 @ addrs c2)" "Q \<notin> set (addrs x @ addrs c1 @ addrs c2)" "distinct (addrs c1)"
    using fr by (auto simp: fresh_def)
  have C: "C = XNIL \<longleftrightarrow> c1 = Lf" "C \<in> set (addrs c1) \<or> C = XNIL" using fr addr_of_nil [of c1] addr_of_in [of c1] by (auto simp: fresh_def C_def)
  then have Cn: "C \<notin> set (ctx_addrs fs)" "C \<noteq> P" "C \<noteq> Q" "C \<notin> set (addrs x)" "C \<notin> set (addrs c2)" using fr ne by (auto simp: fresh_def)
  define s1 where "s1 = set_parent Q R s"
  have "ctx_at (rbt_heap s1) fs P = ctx_at ?h fs P" using ne(7) by (intro ctx_at_cong) (auto simp: s1_def set_parent_def)
  then have c1: "ctx_at (rbt_heap s1) fs P" using h(6) by simp
  have fs: "fresh (ctx_addrs fs)" using fr by (auto simp: fresh_def)
  have rt: "rbt_root s1 = root_addr fs P" using h(7) by (simp add: s1_def set_parent_def)
  note rl = relink_ctx [OF c1 rt fs ne(6,1), where new = Q]
  define s2 where "s2 = relink s1 R P Q"
  have h2: "rbt_heap s2 b = rbt_heap s1 b" if "b \<notin> set (ctx_addrs fs)" for b
    using rl(3) [of b] that par_of_in [of fs] by (auto simp: s2_def R_def)
  define s6 where "s6 = rotate_pair s P (sd = LEFT)"
  have cid: "(if sd = LEFT then RIGHT else LEFT) = opp sd" "(if sd = LEFT then LEFT else RIGHT) = sd" by (cases sd; simp)+
  have z: "child_at s P (opp sd) = Q" "child_at s Q sd = C" "parent_at s P = R" using h(1,2) by (auto simp: node_at_def P_def Q_def)
  have s6: "s6 = (let s5 = set_child P (opp sd) C (set_parent P Q (set_child Q sd P s2)) in if C \<noteq> XNIL then set_parent C P s5 else s5)"
    unfolding s6_def rotate_pair_def cid z Let_def s2_def s1_def using ne(1) by simp
  have h6: "rbt_heap s6 b =
     (if b = P then (rbt_heap s2 P)\<lparr>rn_parent := Q, rn_child := (rn_child (rbt_heap s2 P))(opp sd := C)\<rparr>
      else if b = Q then (rbt_heap s2 Q)\<lparr>rn_child := (rn_child (rbt_heap s2 Q))(sd := P)\<rparr>
      else if b = C \<and> C \<noteq> XNIL then (rbt_heap s2 C)\<lparr>rn_parent := P\<rparr> else rbt_heap s2 b)" for b
    using ne(3) Cn by (auto simp: s6 set_defs Let_def)
  have o: "rbt_heap s6 b = ?h b" if "b \<notin> set (ctx_addrs fs)" "b \<noteq> P" "b \<noteq> Q" "b \<noteq> C \<or> C = XNIL" for b
    using that h2 [of b] by (auto simp: h6 s1_def set_parent_def)
  have PQ: "rbt_heap s2 P = ?h P" "rbt_heap s2 Q = (?h Q)\<lparr>rn_parent := R\<rparr>"
    using h2 [of P] h2 [of Q] ne by (auto simp: s1_def set_parent_def)
  have np: "node_at (rbt_heap s6) p c Q sd (addr_of x) C" "node_at (rbt_heap s6) q cz R sd P (addr_of c2)"
    using h(1,2) ne(3) unfolding node_at_def P_def [symmetric] Q_def [symmetric] h6 PQ by auto
  have same: "rbt_heap s6 b = ?h b" if b: "b \<in> set (addrs x) \<or> b \<in> set (addrs c2)" for b
  proof -
    have "b \<notin> set (ctx_addrs fs)" "b \<noteq> P" "b \<noteq> Q" using b fr by (auto simp: fresh_def)
    then show ?thesis using o [of b] Cn(4,5) b by blast
  qed
  have tx: "tree_at (rbt_heap s6) P x" "tree_at (rbt_heap s6) Q c2"
    using h(3) tree_at_cong [of x "rbt_heap s6" ?h P] h(5) tree_at_cong [of c2 "rbt_heap s6" ?h Q] same by blast+
  have "tree_at (rbt_heap s6) P c1"
  proof (cases "c1 = Lf")
    case False
    let ?g = "\<lambda>b. if b = C then (?h b)\<lparr>rn_parent := P\<rparr> else ?h b"
    have g: "tree_at ?g P c1" using set_parent_tree [OF h(4) ne(10), of ?g P] by (simp add: C_def)
    have "?g b = rbt_heap s6 b" if b: "b \<in> set (addrs c1)" for b
    proof -
      have "b \<notin> set (ctx_addrs fs)" "b \<noteq> P" "b \<noteq> Q" using b fr by (auto simp: fresh_def)
      then show ?thesis using o [of b] h2 [of C] Cn C False by (auto simp: h6 s1_def set_parent_def)
    qed
    then show ?thesis using g tree_at_cong [of c1 ?g "rbt_heap s6" P] by blast
  qed simp
  moreover have "ctx_at (rbt_heap s6) fs Q"
    using rl(1) ctx_at_cong [of fs "rbt_heap s2" "rbt_heap s6" Q] h6 ne(6,7) Cn(1) unfolding s2_def R_def by metis
  moreover have "rbt_root s6 = root_addr fs Q" using rl(2) by (simp add: s6 Let_def set_defs s2_def R_def)
  moreover have "XNIL \<notin> set (ctx_addrs fs)" using fr by (auto simp: fresh_def)
  then have "nil_ok s6" using h(8) o [of XNIL] ne(1,2) unfolding nil_ok_def by metis
  moreover have "fresh (addrs (mk sd cz (mk sd c x p c1) q c2) @ ctx_addrs fs)"
    using fr fresh_mset [of "addrs (mk sd cz (mk sd c x p c1) q c2) @ ctx_addrs fs" "P # addrs x @ Q # addrs c1 @ addrs c2 @ ctx_addrs fs"]
    by (simp add: P_def Q_def)
  moreover have "same_frame s s6" using rl(4) by (simp add: s6 Let_def set_defs s2_def s1_def R_def same_frame_def)
  ultimately show ?thesis using np tx unfolding at_ctx_def s6_def [symmetric] P_def [symmetric]
    by (simp add: P_def Q_def R_def C_def)
qed

lemma rotate_at_opp:
  assumes "at_ctx s fs (mk sd c (mk sd cz c1 q c2) p x)"
  shows "at_ctx (rotate_pair s (pr_addr p) (sd \<noteq> LEFT)) fs (mk sd cz c1 q (mk sd c c2 p x)) \<and>
    same_frame s (rotate_pair s (pr_addr p) (sd \<noteq> LEFT))"
proof -
  have "(opp sd = LEFT) = (sd \<noteq> LEFT)" by (cases sd) auto
  then show ?thesis using rotate_at [of s fs "opp sd" c x p cz c2 q c1, unfolded mk_opp] assms by simp
qed

text \<open>Recolouring the pair in the hole.\<close>

lemma set_color_at:
  assumes "at_ctx s fs t" "t \<noteq> Lf"
  shows "at_ctx (set_color (addr_of t) c s) fs (recolor c t)" "same_frame s (set_color (addr_of t) c s)"
proof -
  let ?h = "rbt_heap s" let ?h' = "rbt_heap (set_color (addr_of t) c s)"
  have i: "addr_of t \<in> set (addrs t)" using addr_of_in assms(2) by simp
  have t: "tree_at ?h' (par_of fs) (recolor c t)"
    using assms(1) by (intro recolor_tree [of ?h]) (auto simp: at_ctx_def fresh_def set_color_def)
  have "ctx_at ?h' fs (addr_of t) = ctx_at ?h fs (addr_of t)"
    using i assms(1) by (intro ctx_at_cong) (auto simp: at_ctx_def fresh_def set_color_def)
  moreover have "addr_of t \<noteq> XNIL" using i assms(1) by (auto simp: at_ctx_def fresh_def)
  ultimately show "at_ctx (set_color (addr_of t) c s) fs (recolor c t)"
    using assms(1) t unfolding at_ctx_def nil_ok_def by (simp add: set_color_def)
  show "same_frame s (set_color (addr_of t) c s)" by (simp add: set_color_def)
qed

section \<open>Moving the focus and reading fields\<close>

lemma at_ctx_step: "at_ctx s ((sd, c, p, u) # fs) t \<longleftrightarrow> at_ctx s fs (mk sd c t p u)"
  using repr_fill [of s "(sd, c, p, u) # fs" t] repr_fill [of s fs "mk sd c t p u"] by simp

lemma at_ctx_other: "at_ctx s ((opp sd, c, p, t) # fs) u \<longleftrightarrow> at_ctx s fs (mk sd c t p u)"
  by (simp add: at_ctx_step mk_opp)

lemma at_ctx_color: "at_ctx s fs t \<Longrightarrow> color_at s (addr_of t) = color_of t"
  by (cases t) (auto simp: at_ctx_def nil_ok_def node_at_def)

lemma at_ctx_parent: "at_ctx s fs t \<Longrightarrow> t \<noteq> Lf \<Longrightarrow> parent_at s (addr_of t) = par_of fs"
  by (cases t) (auto simp: at_ctx_def node_at_def)

lemma at_ctx_child: "at_ctx s fs t \<Longrightarrow> child_at s (addr_of t) sd = addr_of (subt sd t)"
  by (cases t; cases sd) (auto simp: at_ctx_def nil_ok_def node_at_def)

lemma at_ctx_nil: "at_ctx s fs t \<Longrightarrow> addr_of t = XNIL \<longleftrightarrow> t = Lf"
  by (cases t) (auto simp: at_ctx_def fresh_def)

lemma at_ctx_nonnull: "at_ctx s fs t \<Longrightarrow> addr_of t \<noteq> QSE_NULL"
  by (cases t) (auto simp: at_ctx_def fresh_def XNIL_def QSE_NULL_def)

lemma at_ctx_sub: "at_ctx s fs t \<Longrightarrow> t \<noteq> Lf \<Longrightarrow> at_ctx s ((sd, color_of t, root_pair t, subt (opp sd) t) # fs) (subt sd t)"
  by (simp add: at_ctx_step mk_sub)

lemma root_addr_in: "fs \<noteq> [] \<Longrightarrow> root_addr fs a \<in> set (ctx_addrs fs)"
proof (induction fs a rule: root_addr.induct)
  case (2 sd c p u fs a)
  then show ?case by (cases "fs = []") auto
qed simp

lemma at_ctx_root: "at_ctx s fs t \<Longrightarrow> t \<noteq> Lf \<Longrightarrow> addr_of t = rbt_root s \<longleftrightarrow> fs = []"
  using addr_of_in [of t] root_addr_in [of fs "addr_of t"] by (cases "fs = []") (auto simp: at_ctx_def fresh_def)

lemma at_ctx_siblings: "at_ctx s fs (mk sd c t p u) \<Longrightarrow> t \<noteq> Lf \<Longrightarrow> addr_of t \<noteq> addr_of u"
proof -
  assume a: "at_ctx s fs (mk sd c t p u)" and t: "t \<noteq> Lf"
  have "fresh (pr_addr p # addrs t @ addrs u @ ctx_addrs fs)" using a by (simp add: at_ctx_def)
  then show "addr_of t \<noteq> addr_of u" using addr_of_in [OF t] addr_of_in [of u] by (cases "u = Lf") (auto simp: fresh_def)
qed

lemmas at_ctx_reads = at_ctx_color at_ctx_parent at_ctx_child at_ctx_nil

text \<open>Recolouring one of the children of the pair in the hole.\<close>

lemma set_color_child:
  assumes "at_ctx s fs (mk sd c t p u)" "t \<noteq> Lf"
  shows "at_ctx (set_color (addr_of t) c' s) fs (mk sd c (recolor c' t) p u)" "same_frame s (set_color (addr_of t) c' s)"
  using set_color_at [of s "(sd, c, p, u) # fs" t c'] assms by (simp_all add: at_ctx_step)

lemma set_color_other:
  assumes "at_ctx s fs (mk sd c t p u)" "u \<noteq> Lf"
  shows "at_ctx (set_color (addr_of u) c' s) fs (mk sd c t p (recolor c' u))" "same_frame s (set_color (addr_of u) c' s)"
  using set_color_at [of s "(opp sd, c, p, t) # fs" u c'] assms by (simp_all add: at_ctx_step mk_opp)

section \<open>The repair after an insertion\<close>

text \<open>The three kinds of rounds of \<open>adjust\<close>.\<close>

lemma adjust_stop:
  assumes "at_ctx s fs t" "t \<noteq> Lf" "fs = [] \<or> top_color fs = BLACK"
  shows "adjust s (addr_of t) = Some s"
proof (cases "fs = []")
  case True
  then show ?thesis using at_ctx_root [OF assms(1,2)] by (subst adjust.simps) simp
next
  case False
  then obtain sd p u gs where f: "fs = (sd, BLACK, p, u) # gs" using assms(3) by (cases fs rule: par_of.cases) auto
  have "color_at s (pr_addr p) = BLACK" using at_ctx_color [of s gs "mk sd BLACK t p u"] assms(1) by (simp add: f at_ctx_step)
  then show ?thesis using at_ctx_parent [OF assms(1,2)] by (subst adjust.simps) (simp add: f)
qed

text \<open>What a round reads when the parent is red.\<close>

lemma adjust_reads:
  assumes a: "at_ctx s ((sd1, RED, p1, u1) # (sd2, c2, p2, u2) # fs) t" and t: "t \<noteq> Lf"
  shows "addr_of t \<noteq> rbt_root s" "parent_at s (addr_of t) = pr_addr p1" "color_at s (pr_addr p1) = RED"
    "parent_at s (pr_addr p1) = pr_addr p2" "pr_addr p1 = child_at s (pr_addr p2) LEFT \<longleftrightarrow> sd2 = LEFT"
    "child_at s (pr_addr p2) (opp sd2) = addr_of u2" "color_at s (addr_of u2) = color_of u2"
    "addr_of t = child_at s (pr_addr p1) (opp sd2) \<longleftrightarrow> sd1 \<noteq> sd2"
proof -
  let ?P = "mk sd1 RED t p1 u1" let ?G = "mk sd2 c2 ?P p2 u2"
  have P: "at_ctx s ((sd2, c2, p2, u2) # fs) ?P" and G: "at_ctx s fs ?G" using a by (simp_all add: at_ctx_step)
  show "addr_of t \<noteq> rbt_root s" using at_ctx_root [OF a t] by simp
  show "parent_at s (addr_of t) = pr_addr p1" using at_ctx_parent [OF a t] by simp
  show "color_at s (pr_addr p1) = RED" using at_ctx_color [OF P] by simp
  show "parent_at s (pr_addr p1) = pr_addr p2" using at_ctx_parent [OF P] by simp
  show u2: "child_at s (pr_addr p2) (opp sd2) = addr_of u2" using at_ctx_child [OF G, of "opp sd2"] by simp
  have p1: "child_at s (pr_addr p2) sd2 = pr_addr p1" using at_ctx_child [OF G, of sd2] by simp
  have "pr_addr p1 \<noteq> addr_of u2" using at_ctx_siblings [OF G] by simp
  then show "pr_addr p1 = child_at s (pr_addr p2) LEFT \<longleftrightarrow> sd2 = LEFT" using p1 u2 by (cases sd2) auto
  show "color_at s (addr_of u2) = color_of u2" using at_ctx_color [of s "(opp sd2, c2, p2, ?P) # fs" u2] G by (simp add: at_ctx_other)
  have "child_at s (pr_addr p1) sd1 = addr_of t" "child_at s (pr_addr p1) (opp sd1) = addr_of u1"
    using at_ctx_child [OF P, of sd1] at_ctx_child [OF P, of "opp sd1"] by simp_all
  then show "addr_of t = child_at s (pr_addr p1) (opp sd2) \<longleftrightarrow> sd1 \<noteq> sd2"
    using at_ctx_siblings [OF P t] by (cases sd1; cases sd2) auto
qed

lemma adjust_red_uncle:
  assumes a: "at_ctx s ((sd1, RED, p1, u1) # (sd2, c2, p2, u2) # fs) t" and t: "t \<noteq> Lf" and u: "color_of u2 = RED"
  defines "t' \<equiv> mk sd2 RED (mk sd1 BLACK t p1 u1) p2 (recolor BLACK u2)"
  shows "\<exists>s'. adjust s (addr_of t) = adjust s' (addr_of t') \<and> at_ctx s' fs t' \<and> same_frame s s'"
proof -
  note r = adjust_reads [OF a t]
  let ?s1 = "set_color (pr_addr p1) BLACK s" let ?s2 = "set_color (addr_of u2) BLACK ?s1" let ?s3 = "set_color (pr_addr p2) RED ?s2"
  have G: "at_ctx s fs (mk sd2 c2 (mk sd1 RED t p1 u1) p2 u2)" using a by (simp add: at_ctx_step)
  have 1: "at_ctx ?s1 fs (mk sd2 c2 (mk sd1 BLACK t p1 u1) p2 u2)" using set_color_child(1) [OF G, of BLACK] by simp
  have 2: "at_ctx ?s2 fs (mk sd2 c2 (mk sd1 BLACK t p1 u1) p2 (recolor BLACK u2))"
    using set_color_other(1) [OF 1, of BLACK] color_RED_Nd [OF u] by simp
  have 3: "at_ctx ?s3 fs t'" using set_color_at(1) [OF 2, of RED] by (simp add: t'_def)
  have par: "parent_at ?s2 (pr_addr p1) = pr_addr p2" "parent_at ?s3 (pr_addr p1) = pr_addr p2"
    using at_ctx_parent [of _ "(sd2, _, p2, recolor BLACK u2) # fs" "mk sd1 BLACK t p1 u1"] 2 3 by (simp_all add: at_ctx_step t'_def)
  have sd: "(if sd2 = LEFT then RIGHT else LEFT) = opp sd2" by (cases sd2) auto
  have "adjust s (addr_of t) = adjust ?s3 (pr_addr p2)"
    using r u par sd by (subst adjust.simps) (simp add: Let_def)
  then show ?thesis using 3 by (intro exI [of _ ?s3]) (simp add: t'_def set_color_def)
qed

lemma adjust_rotate_outer:
  assumes a: "at_ctx s ((sd, RED, p1, u1) # (sd, c2, p2, u2) # fs) t" and t: "t \<noteq> Lf" and u: "color_of u2 = BLACK"
  shows "\<exists>s'. adjust s (addr_of t) = Some s' \<and> at_ctx s' fs (mk sd BLACK t p1 (mk sd RED u1 p2 u2)) \<and> same_frame s s'"
proof -
  note r = adjust_reads [OF a t]
  let ?s1 = "set_color (pr_addr p1) BLACK s" let ?s2 = "set_color (pr_addr p2) RED ?s1"
  let ?s3 = "rotate_pair ?s2 (pr_addr p2) (sd \<noteq> LEFT)"
  have G: "at_ctx s fs (mk sd c2 (mk sd RED t p1 u1) p2 u2)" using a by (simp add: at_ctx_step)
  have 1: "at_ctx ?s1 fs (mk sd c2 (mk sd BLACK t p1 u1) p2 u2)" using set_color_child(1) [OF G, of BLACK] by simp
  have 2: "at_ctx ?s2 fs (mk sd RED (mk sd BLACK t p1 u1) p2 u2)" using set_color_at(1) [OF 1, of RED] by simp
  have 3: "at_ctx ?s3 fs (mk sd BLACK t p1 (mk sd RED u1 p2 u2))" "same_frame ?s2 ?s3" using rotate_at_opp [OF 2] by auto
  have par: "parent_at ?s1 (pr_addr p1) = pr_addr p2" "parent_at ?s2 (pr_addr p1) = pr_addr p2"
    using at_ctx_parent [of _ "(sd, _, p2, u2) # fs" "mk sd BLACK t p1 u1"] 1 2 by (simp_all add: at_ctx_step)
  have sd: "(if sd = LEFT then RIGHT else LEFT) = opp sd" by (cases sd) auto
  have "adjust s (addr_of t) = adjust ?s3 (addr_of t)"
    using r u par sd by (subst adjust.simps) (simp add: Let_def)
  also have "\<dots> = Some ?s3" using adjust_stop [of ?s3 "(sd, BLACK, p1, mk sd RED u1 p2 u2) # fs" t] 3(1) t by (simp add: at_ctx_step)
  finally show ?thesis using 3 by (intro exI [of _ ?s3]) (simp add: same_frame_def set_color_def)
qed

lemma adjust_rotate_inner:
  assumes a: "at_ctx s ((opp sd, RED, p1, u1) # (sd, c2, p2, u2) # fs) t" and t: "t = mk sd RED a q b" and u: "color_of u2 = BLACK"
  shows "\<exists>s'. adjust s (addr_of t) = Some s' \<and> at_ctx s' fs (mk sd BLACK (mk sd RED u1 p1 a) q (mk sd RED b p2 u2)) \<and> same_frame s s'"
proof -
  have tL: "t \<noteq> Lf" by (simp add: t)
  note r = adjust_reads [OF a tL]
  let ?s0 = "rotate_pair s (pr_addr p1) (sd = LEFT)"
  let ?s1 = "set_color (pr_addr q) BLACK ?s0" let ?s2 = "set_color (pr_addr p2) RED ?s1"
  let ?s3 = "rotate_pair ?s2 (pr_addr p2) (sd \<noteq> LEFT)"
  let ?X = "mk sd RED u1 p1 a"
  have "at_ctx s ((sd, c2, p2, u2) # fs) (mk sd RED u1 p1 t)" using a by (simp add: at_ctx_step mk_opp)
  then have 0: "at_ctx ?s0 ((sd, c2, p2, u2) # fs) (mk sd RED ?X q b)" "same_frame s ?s0" using rotate_at [of s] by (auto simp: t)
  have 1: "at_ctx ?s1 fs (mk sd c2 (mk sd BLACK ?X q b) p2 u2)"
    using set_color_at(1) [OF 0(1), of BLACK] by (simp add: at_ctx_step)
  have 2: "at_ctx ?s2 fs (mk sd RED (mk sd BLACK ?X q b) p2 u2)" using set_color_at(1) [OF 1, of RED] by simp
  have 3: "at_ctx ?s3 fs (mk sd BLACK ?X q (mk sd RED b p2 u2))" "same_frame ?s2 ?s3" using rotate_at_opp [OF 2] by auto
  have par: "parent_at ?s1 (pr_addr q) = pr_addr p2" "parent_at ?s2 (pr_addr q) = pr_addr p2"
    using at_ctx_parent [of _ "(sd, _, p2, u2) # fs" "mk sd BLACK ?X q b"] 1 2 by (simp_all add: at_ctx_step)
  have q: "parent_at ?s0 (pr_addr p1) = pr_addr q"
    using at_ctx_parent [of ?s0 "(sd, RED, q, b) # (sd, c2, p2, u2) # fs" ?X] 0(1) by (simp add: at_ctx_step)
  have sd: "(if sd = LEFT then RIGHT else LEFT) = opp sd" by (cases sd) auto
  have "adjust s (addr_of t) = adjust ?s3 (pr_addr p1)"
    using r u par sd q by (subst adjust.simps) (simp add: Let_def)
  also have "\<dots> = Some ?s3"
    using adjust_stop [of ?s3 "(sd, BLACK, q, mk sd RED b p2 u2) # fs" ?X] 3(1) by (simp add: at_ctx_step)
  finally show ?thesis using 3 0(2) by (intro exI [of _ ?s3]) (simp add: same_frame_def set_color_def)
qed

text \<open>The loop computes the function on contexts, and ends.\<close>

lemma adjust_at:
  assumes "at_ctx s fs t" "color_of t = RED" "nrr_ctx fs"
  shows "\<exists>s'. adjust s (addr_of t) = Some s' \<and> repr s' (fix_insert fs t) \<and> same_frame s s'"
  using assms
proof (induction fs t arbitrary: s rule: fix_insert.induct [case_names deep empty black single])
  case (deep sd1 p1 u1 sd2 c2 p2 u2 fs t)
  have t: "t \<noteq> Lf" using color_RED_Nd [OF deep(3)] .
  show ?case
  proof (cases "color_of u2 = RED")
    case True
    let ?t = "mk sd2 RED (mk sd1 BLACK t p1 u1) p2 (recolor BLACK u2)"
    obtain s1 where s1: "adjust s (addr_of t) = adjust s1 (addr_of ?t)" "at_ctx s1 fs ?t" "same_frame s s1"
      using adjust_red_uncle [OF deep(2) t True] by blast
    have "nrr_ctx fs" using deep(4) by simp
    from deep(1) [OF True s1(2) _ this] obtain s2 where "adjust s1 (addr_of ?t) = Some s2" "repr s2 (fix_insert fs ?t)" "same_frame s1 s2"
      by auto
    then show ?thesis using s1 True same_frame_trans [of s s1 s2] by auto
  next
    case False
    then have u: "color_of u2 = BLACK" by (simp add: color_cases)
    show ?thesis
    proof (cases "sd1 = sd2")
      case True
      then show ?thesis using adjust_rotate_outer [of s sd2 p1 u1 c2 p2 u2 fs t] deep(2) t u by (auto simp: repr_fill)
    next
      case False
      then have sd: "sd1 = opp sd2" using opp_iff by blast
      obtain a q b where tt: "t = mk sd2 RED a q b" using mk_exhaust [OF t] deep(3) by (metis mk_simps(1))
      show ?thesis using adjust_rotate_inner [OF deep(2) [unfolded sd] tt u] False u tt sd by (auto simp: repr_fill)
    qed
  qed
next
  case (empty t)
  then show ?case using adjust_stop [OF empty(1) color_RED_Nd] repr_fill [of s "[]" t] by auto
next
  case (black sd pu fs t)
  have "top_color ((sd, BLACK, pu) # fs) = BLACK" by (cases pu) simp
  then show ?case using adjust_stop [OF black(1) color_RED_Nd] black by (auto simp: repr_fill)
next
  case (single f t)
  obtain sd c p u where f: "f = (sd, c, p, u)" by (cases f)
  then have "c = BLACK" using single(3) by (cases c) auto
  then show ?case using adjust_stop [OF single(1) color_RED_Nd] single(1,2) repr_fill [of s "[f]" t] by (auto simp: f)
qed

section \<open>The repair after a deletion\<close>

lemma delete_tail_black:
  assumes a: "at_ctx s gs (mk sd c x p w)" and b: "both_black w"
  shows "\<exists>s'. delete_tail s (pr_addr p) (addr_of w) sd = (s', pr_addr p, par_of gs) \<and>
    at_ctx s' gs (mk sd c x p (recolor RED w)) \<and> same_frame s s'"
proof -
  have w: "at_ctx s ((opp sd, c, p, x) # gs) w" using a by (simp add: at_ctx_other)
  have cc: "color_at s (child_at s (addr_of w) d) = color_of (subt d w)" for d
  proof (cases "w = Lf")
    case True
    then show ?thesis using w at_ctx_child [OF w, of d] at_ctx_color [OF w] by simp
  next
    case False
    then show ?thesis using at_ctx_child [OF w, of d] at_ctx_color [OF at_ctx_sub [OF w False, of d]] by simp
  qed
  let ?s = "if \<not> IS_NIL (addr_of w) then set_color (addr_of w) RED s else s"
  have s: "at_ctx ?s gs (mk sd c x p (recolor RED w))" "same_frame s ?s"
    using a set_color_other [OF a, of RED] at_ctx_nil [OF w] by (cases "w = Lf"; simp)+
  have "parent_at ?s (pr_addr p) = par_of gs" using at_ctx_parent [OF s(1)] by simp
  then have "delete_tail s (pr_addr p) (addr_of w) sd = (?s, pr_addr p, par_of gs)"
    using b unfolding delete_tail_def cc both_black_def by (simp add: Let_def)
  then show ?thesis using s by blast
qed

lemma delete_tail_far:
  assumes a: "at_ctx s gs (mk sd c x p w)" and w: "w = mk sd cw n q f" "color_of f = RED"
  defines "s1 \<equiv> set_color (pr_addr q) (color_at s (pr_addr p)) s"
  defines "s2 \<equiv> set_color (pr_addr p) BLACK s1"
  defines "s3 \<equiv> set_color (addr_of f) BLACK s2"
  shows "color_at s2 (addr_of f) = RED \<and> child_at s2 (pr_addr q) (opp sd) = addr_of f \<and>
    at_ctx (rotate_pair s3 (pr_addr p) (sd = LEFT)) gs (mk sd c (mk sd BLACK x p n) q (recolor BLACK f)) \<and>
    same_frame s (rotate_pair s3 (pr_addr p) (sd = LEFT))"
proof -
  have f: "f \<noteq> Lf" using color_RED_Nd [OF w(2)] .
  have c: "color_at s (pr_addr p) = c" using at_ctx_color [OF a] by simp
  have 1: "at_ctx s1 gs (mk sd c x p (mk sd c n q f))" "same_frame s s1" using set_color_other [OF a, of c] c by (simp_all add: s1_def w)
  have 2: "at_ctx s2 gs (mk sd BLACK x p (mk sd c n q f))" "same_frame s1 s2" using set_color_at [OF 1(1), of BLACK] by (simp_all add: s2_def)
  have q: "at_ctx s2 ((opp sd, BLACK, p, x) # gs) (mk sd c n q f)" using 2(1) by (simp add: at_ctx_other)
  have 3: "at_ctx s3 ((opp sd, BLACK, p, x) # gs) (mk sd c n q (recolor BLACK f))" "same_frame s2 s3"
    using set_color_other [OF q f, of BLACK] by (simp_all add: s3_def)
  have "at_ctx s2 ((opp sd, c, q, n) # (opp sd, BLACK, p, x) # gs) f" using q by (simp only: at_ctx_other)
  then have "color_at s2 (addr_of f) = RED" using at_ctx_color w(2) by metis
  moreover have "child_at s2 (pr_addr q) (opp sd) = addr_of f" using at_ctx_child [OF q, of "opp sd"] by simp
  moreover have "at_ctx s3 gs (mk sd BLACK x p (mk sd c n q (recolor BLACK f)))" using 3(1) by (simp only: at_ctx_other)
  note rotate_at [OF this]
  ultimately show ?thesis using 1(2) 2(2) 3(2) by (auto simp: same_frame_def)
qed

lemma delete_tail_red:
  assumes a: "at_ctx s gs (mk sd c x p w)" and b: "\<not> both_black w"
  shows "\<exists>s'. delete_tail s (pr_addr p) (addr_of w) sd = (s', rbt_root s', pr_addr p) \<and>
    at_ctx s' gs (rebalance sd c x p w) \<and> same_frame s s'"
proof -
  have wc: "at_ctx s ((opp sd, c, p, x) # gs) w" using a by (simp add: at_ctx_other)
  have wL: "w \<noteq> Lf" using b by (auto simp: both_black_def)
  have ch: "child_at s (addr_of w) d = addr_of (subt d w)" for d using at_ctx_child [OF wc] .
  have cc: "color_at s (addr_of (subt d w)) = color_of (subt d w)" for d using at_ctx_color [OF at_ctx_sub [OF wc wL, of d]] .
  have nb: "\<not> (color_at s (child_at s (addr_of w) LEFT) = BLACK \<and> color_at s (child_at s (addr_of w) RIGHT) = BLACK)"
    using b unfolding ch cc both_black_def .
  have P: "pr_addr p \<noteq> XNIL" using at_ctx_nil [OF a] by simp
  from b show ?thesis
  proof (cases rule: not_both_black [where sd = sd, case_names far near])
    case (far cw n q f)
    note t = delete_tail_far [OF a far]
    let ?s = "rotate_pair (set_color (addr_of f) BLACK (set_color (pr_addr p) BLACK (set_color (pr_addr q) (color_at s (pr_addr p)) s))) (pr_addr p) (sd = LEFT)"
    have "delete_tail s (pr_addr p) (addr_of w) sd = (?s, rbt_root ?s, pr_addr p)"
      unfolding delete_tail_def if_not_P [OF nb] unfolding ch cc using far t P by (simp add: Let_def)
    then show ?thesis using t by (intro exI [of _ ?s]) (simp add: rebalance_far [OF far])
  next
    case (near cw n1 z n2 q f)
    let ?N = "mk sd RED n1 z n2"
    let ?s1 = "set_color (pr_addr z) BLACK s" let ?s2 = "set_color (pr_addr q) RED ?s1"
    let ?s3 = "rotate_pair ?s2 (pr_addr q) (sd \<noteq> LEFT)"
    have 0: "at_ctx s ((opp sd, c, p, x) # gs) (mk sd cw ?N q f)" using wc near(1) by simp
    have 1: "at_ctx ?s1 ((opp sd, c, p, x) # gs) (mk sd cw (mk sd BLACK n1 z n2) q f)" using set_color_child(1) [OF 0, of BLACK] by simp
    have 2: "at_ctx ?s2 ((opp sd, c, p, x) # gs) (mk sd RED (mk sd BLACK n1 z n2) q f)" using set_color_at(1) [OF 1, of RED] by simp
    let ?W = "mk sd BLACK n1 z (mk sd RED n2 q f)"
    have 3: "at_ctx ?s3 ((opp sd, c, p, x) # gs) ?W" "same_frame ?s2 ?s3" using rotate_at_opp [OF 2] by auto
    then have a3: "at_ctx ?s3 gs (mk sd c x p ?W)" by (simp only: at_ctx_other)
    have tmp: "child_at ?s3 (pr_addr p) (opp sd) = pr_addr z" using at_ctx_child [OF a3, of "opp sd"] by simp
    note t = delete_tail_far [OF a3 refl]
    let ?s = "rotate_pair (set_color (pr_addr q) BLACK (set_color (pr_addr p) BLACK (set_color (pr_addr z) (color_at ?s3 (pr_addr p)) ?s3))) (pr_addr p) (sd = LEFT)"
    have zn: "pr_addr z \<noteq> XNIL" using at_ctx_nil [OF at_ctx_sub [OF 0, of sd]] by simp
    have "delete_tail s (pr_addr p) (addr_of w) sd = (?s, rbt_root ?s, pr_addr p)"
      unfolding delete_tail_def if_not_P [OF nb] unfolding ch cc using near t P zn tmp by (simp add: Let_def)
    then show ?thesis using t 3(2)
      by (intro exI [of _ ?s]) (simp add: rebalance_near [OF near] same_frame_def set_color_def)
  qed
qed

lemma set_root_color:
  assumes "repr s t" "t \<noteq> Lf" shows "repr (set_color (rbt_root s) c s) (recolor c t)" "same_frame s (set_color (rbt_root s) c s)"
proof -
  have r: "repr s' t' = at_ctx s' [] t'" for s' t' using repr_fill [of s' "[]" t'] by simp
  have "rbt_root s = addr_of t" using assms(1) by (simp add: repr_def)
  then show "repr (set_color (rbt_root s) c s) (recolor c t)" "same_frame s (set_color (rbt_root s) c s)"
    using set_color_at [of s "[]" t c] assms unfolding r by simp_all
qed

lemma afd_stop_red:
  assumes "at_ctx s fs x" "color_of x = RED"
  shows "\<exists>s'. adjust_for_delete s (addr_of x) par = Some s' \<and> repr s' (fill fs (recolor BLACK x)) \<and> same_frame s s'"
  using set_color_at [OF assms(1) color_RED_Nd [OF assms(2)], of BLACK] at_ctx_color [OF assms(1)] assms(2)
  by (subst adjust_for_delete.simps) (simp add: repr_fill)

lemma afd_stop_root:
  assumes "repr s t" "t \<noteq> Lf"
  shows "\<exists>s'. adjust_for_delete s (rbt_root s) par = Some s' \<and> repr s' (recolor BLACK t) \<and> same_frame s s'"
  using set_root_color [OF assms, of BLACK] by (subst adjust_for_delete.simps) simp

text \<open>The side on which the code finds the pair, and one round from there.\<close>

lemma afd_round:
  assumes a: "at_ctx s ((sd, c, p, u) # fs) x" and x: "x \<noteq> Lf" "color_of x = BLACK"
  shows "adjust_for_delete s (addr_of x) (pr_addr p) =
    (case delete_round s (pr_addr p) sd of (s', pair, par) \<Rightarrow> adjust_for_delete s' pair par)"
proof -
  have G: "at_ctx s fs (mk sd c x p u)" using a by (simp add: at_ctx_step)
  have c: "child_at s (pr_addr p) sd = addr_of x" "child_at s (pr_addr p) (opp sd) = addr_of u"
    using at_ctx_child [OF G, of sd] at_ctx_child [OF G, of "opp sd"] by simp_all
  have "(if addr_of x = child_at s (pr_addr p) LEFT then LEFT else RIGHT) = sd"
    using c at_ctx_siblings [OF G x(1)] by (cases sd) auto
  moreover have "addr_of x \<noteq> rbt_root s" "color_at s (addr_of x) = BLACK"
    using at_ctx_root [OF a x(1)] at_ctx_color [OF a] x(2) by simp_all
  ultimately show ?thesis by (subst adjust_for_delete.simps) (simp split: prod.splits)
qed

lemma afd_red_sibling:
  assumes a: "at_ctx s fs (mk sd c x p u)" and u: "u = mk sd RED a z b"
  defines "s' \<equiv> rotate_pair (set_color (pr_addr p) RED (set_color (pr_addr z) BLACK s)) (pr_addr p) (sd = LEFT)"
  shows "at_ctx s' ((sd, BLACK, z, b) # fs) (mk sd RED x p a)" "same_frame s s'"
    "delete_round s (pr_addr p) sd = delete_tail s' (pr_addr p) (addr_of a) sd"
proof -
  let ?s1 = "set_color (pr_addr z) BLACK s" let ?s2 = "set_color (pr_addr p) RED ?s1"
  have 1: "at_ctx ?s1 fs (mk sd c x p (mk sd BLACK a z b))" using set_color_other(1) [OF a, of BLACK] by (simp add: u)
  have 2: "at_ctx ?s2 fs (mk sd RED x p (mk sd BLACK a z b))" using set_color_at(1) [OF 1, of RED] by simp
  have 3: "at_ctx s' fs (mk sd BLACK (mk sd RED x p a) z b)" "same_frame ?s2 s'" using rotate_at [OF 2] by (auto simp: s'_def)
  show at: "at_ctx s' ((sd, BLACK, z, b) # fs) (mk sd RED x p a)" using 3(1) by (simp add: at_ctx_step)
  show "same_frame s s'" using 3(2) by (simp add: same_frame_def set_color_def)
  have "child_at s (pr_addr p) (opp sd) = pr_addr z" using at_ctx_child [OF a, of "opp sd"] by (simp add: u)
  moreover have "color_at s (pr_addr z) = RED" using at_ctx_color [of s "(opp sd, c, p, x) # fs" u] a by (simp add: at_ctx_other u)
  moreover have "child_at s' (pr_addr p) (opp sd) = addr_of a" using at_ctx_child [OF at, of "opp sd"] by simp
  ultimately show "delete_round s (pr_addr p) sd = delete_tail s' (pr_addr p) (addr_of a) sd"
    by (simp add: delete_round_def Let_def s'_def)
qed

lemma afd_at:
  assumes "at_ctx s fs x" "x \<noteq> Lf"
  shows "\<exists>s'. adjust_for_delete s (addr_of x) (par_of fs) = Some s' \<and> repr s' (fix_delete fs x) \<and> same_frame s s'"
  using assms
proof (induction fs x arbitrary: s rule: fix_delete.induct)
  case (1 x)
  have r: "repr s x" using 1(1) repr_fill [of s "[]" x] by simp
  then have "addr_of x = rbt_root s" by (simp add: repr_def)
  then show ?case using afd_stop_root [OF r 1(2)] by simp
next
  case (2 sd c p u fs x)
  have G: "at_ctx s fs (mk sd c x p u)" using 2(2) by (simp add: at_ctx_step)
  have done_root: "\<exists>s''. adjust_for_delete s' (rbt_root s') par = Some s'' \<and> repr s'' (recolor BLACK (fill gs t)) \<and> same_frame s s''"
    if "at_ctx s' gs t" "t \<noteq> Lf" "same_frame s s'" for s' gs t par
  proof -
    have "repr s' (fill gs t)" "fill gs t \<noteq> Lf" using that by (simp_all add: repr_fill)
    from afd_stop_root [OF this, of par] show ?thesis using same_frame_trans [OF that(3)] by blast
  qed
  consider (red) "color_of x = RED" | (sib) "color_of x = BLACK" "color_of u = RED"
    | (black) "color_of x = BLACK" "color_of u = BLACK" by (metis color_cases(1))
  then show ?case
  proof cases
    case red
    then show ?thesis using afd_stop_red [OF 2(2) red] by simp
  next
    case sib
    note rd = afd_round [OF 2(2,3) sib(1)]
    obtain a z b where u: "u = mk sd RED a z b" using mk_exhaust [OF color_RED_Nd [OF sib(2)]] sib(2) by (metis mk_simps(1))
    note rs = afd_red_sibling [OF G u]
    show ?thesis
    proof (cases "both_black a")
      case True
      obtain s1 where s1: "delete_round s (pr_addr p) sd = (s1, pr_addr p, pr_addr z)"
        "at_ctx s1 ((sd, BLACK, z, b) # fs) (mk sd RED x p (recolor RED a))" "same_frame s s1"
        using delete_tail_black [OF rs(1) True] same_frame_trans [OF rs(2)] unfolding rs(3) by auto
      obtain s2 where s2: "adjust_for_delete s1 (pr_addr p) (pr_addr z) = Some s2"
        "repr s2 (fill ((sd, BLACK, z, b) # fs) (mk sd BLACK x p (recolor RED a)))" "same_frame s1 s2"
        using afd_stop_red [OF s1(2), of "pr_addr z"] by auto
      have "fix_delete ((sd, c, p, u) # fs) x = fill ((sd, BLACK, z, b) # fs) (mk sd BLACK x p (recolor RED a))"
        using sib u True by simp
      then show ?thesis using s2 s1(1) rd same_frame_trans [OF s1(3)] by simp
    next
      case False
      obtain s1 where s1: "delete_round s (pr_addr p) sd = (s1, rbt_root s1, pr_addr p)"
        "at_ctx s1 ((sd, BLACK, z, b) # fs) (rebalance sd RED x p a)" "same_frame s s1"
        using delete_tail_red [OF rs(1) False] same_frame_trans [OF rs(2)] unfolding rs(3) by blast
      have "rebalance sd RED x p a \<noteq> Lf" by (simp add: rebalance_def Let_def)
      from done_root [OF s1(2) this s1(3), of "pr_addr p"] show ?thesis using s1(1) rd sib u False by simp
    qed
  next
    case black
    note rd = afd_round [OF 2(2,3) black(1)]
    have tail: "delete_round s (pr_addr p) sd = delete_tail s (pr_addr p) (addr_of u) sd"
      using at_ctx_child [OF G, of "opp sd"] at_ctx_color [of s "(opp sd, c, p, x) # fs" u] G black(2)
      by (simp add: delete_round_def at_ctx_other Let_def)
    show ?thesis
    proof (cases "both_black u")
      case True
      obtain s1 where s1: "delete_round s (pr_addr p) sd = (s1, pr_addr p, par_of fs)"
        "at_ctx s1 fs (mk sd c x p (recolor RED u))" "same_frame s s1"
        using delete_tail_black [OF G True] tail by metis
      from 2(1) [OF _ _ True s1(2)] black obtain s2 where
        "adjust_for_delete s1 (pr_addr p) (par_of fs) = Some s2" "repr s2 (fix_delete fs (mk sd c x p (recolor RED u)))" "same_frame s1 s2"
        by auto
      then show ?thesis using s1(1) rd black True same_frame_trans [OF s1(3)] by auto
    next
      case False
      obtain s1 where s1: "delete_round s (pr_addr p) sd = (s1, rbt_root s1, pr_addr p)"
        "at_ctx s1 fs (rebalance sd c x p u)" "same_frame s s1"
        using delete_tail_red [OF G False] tail by metis
      have "rebalance sd c x p u \<noteq> Lf" by (simp add: rebalance_def Let_def)
      from done_root [OF s1(2) this s1(3), of "pr_addr p"] show ?thesis using s1(1) rd black False by simp
    qed
  qed
qed

section \<open>The ways down\<close>

abbreviation key_cmp :: "qse_rbt \<Rightarrow> qse_xptl \<Rightarrow> qse_pair \<Rightarrow> int" where
  "key_cmp s k p \<equiv> rbt_comper s (rbt_kscale s) k (pr_key p)"

lemma at_ctx_pair:
  assumes "at_ctx s fs (Nd c l p r)"
  shows "rn_key (rbt_heap s (pr_addr p)) = pr_key p" "rn_val (rbt_heap s (pr_addr p)) = pr_val p" "pair_at s (pr_addr p) = p"
  using assms by (auto simp: at_ctx_def node_at_def)

lemma search_loop_at:
  assumes "at_ctx s fs t" "descend (key_cmp s k) t fs = (gs, u)"
  shows "search_loop s k (addr_of t) = Some (if u = Lf then QSE_NULL else addr_of u)"
  using assms
proof (induction t arbitrary: fs)
  case Lf
  then show ?case by (subst search_loop.simps) simp
next
  case (Nd c l p r)
  have n: "pr_addr p \<noteq> XNIL" using at_ctx_nil [OF Nd.prems(1)] by simp
  note rd = at_ctx_pair [OF Nd.prems(1)] at_ctx_child [OF Nd.prems(1), of LEFT] at_ctx_child [OF Nd.prems(1), of RIGHT]
  have sub: "at_ctx s ((LEFT, c, p, r) # fs) l" "at_ctx s ((RIGHT, c, p, l) # fs) r"
    using Nd.prems(1) by (simp_all add: at_ctx_step mk_def)
  show ?case using Nd.IH(1) [OF sub(1)] Nd.IH(2) [OF sub(2)] Nd.prems(2) n rd
    by (subst search_loop.simps) (auto simp: Let_def)
qed

lemma insert_loop_at:
  assumes "at_ctx s fs t" "descend (key_cmp s k) t fs = (gs, u)"
  shows "insert_loop s k (addr_of t) (par_of fs) = Some (addr_of u, par_of gs)"
  using assms
proof (induction t arbitrary: fs)
  case Lf
  then show ?case by (subst insert_loop.simps) auto
next
  case (Nd c l p r)
  have n: "pr_addr p \<noteq> XNIL" using at_ctx_nil [OF Nd.prems(1)] by simp
  note rd = at_ctx_pair [OF Nd.prems(1)] at_ctx_child [OF Nd.prems(1), of LEFT] at_ctx_child [OF Nd.prems(1), of RIGHT]
  have sub: "at_ctx s ((LEFT, c, p, r) # fs) l" "at_ctx s ((RIGHT, c, p, l) # fs) r"
    using Nd.prems(1) by (simp_all add: at_ctx_step mk_def)
  show ?case using Nd.IH(1) [OF sub(1)] Nd.IH(2) [OF sub(2)] Nd.prems(2) n rd
    by (subst insert_loop.simps) (auto simp: Let_def split: if_splits)
qed

lemma leftmost_loop_at:
  assumes "at_ctx s fs t" "t \<noteq> Lf" "down_left t fs = (gs, u)"
  shows "leftmost_loop s (addr_of t) = Some (addr_of u)"
  using assms
proof (induction t arbitrary: fs)
  case (Nd c l p r)
  note rd = at_ctx_child [OF Nd.prems(1), of LEFT]
  have sub: "at_ctx s ((LEFT, c, p, r) # fs) l" using Nd.prems(1) by (simp add: at_ctx_step mk_def)
  show ?case
  proof (cases "l = Lf")
    case True
    then show ?thesis using Nd.prems(3) rd by (subst leftmost_loop.simps) auto
  next
    case False
    then show ?thesis using Nd.IH(1) [OF sub False] Nd.prems(3) rd at_ctx_nil [OF sub] by (subst leftmost_loop.simps) auto
  qed
qed simp

section \<open>Keys and values are left alone\<close>

definition same_items :: "qse_rbt \<Rightarrow> qse_rbt \<Rightarrow> bool" where
  "same_items s s' \<longleftrightarrow>
     (\<forall>a. rn_key (rbt_heap s' a) = rn_key (rbt_heap s a) \<and> rn_val (rbt_heap s' a) = rn_val (rbt_heap s a))"

lemma same_items_refl [simp]: "same_items s s" by (simp add: same_items_def)
lemma same_items_trans: "same_items s s' \<Longrightarrow> same_items s' s'' \<Longrightarrow> same_items s s''" by (simp add: same_items_def)
lemma same_items_sets [simp]:
  "same_items s (set_color a c s') \<longleftrightarrow> same_items s s'" "same_items s (set_parent a b s') \<longleftrightarrow> same_items s s'"
  "same_items s (set_child a sd b s') \<longleftrightarrow> same_items s s'" "same_items s (s'\<lparr>rbt_root := a\<rparr>) \<longleftrightarrow> same_items s s'"
  by (auto simp: same_items_def set_defs)
lemma same_items_relink [simp]: "same_items s (relink s' par old new) \<longleftrightarrow> same_items s s'"
  by (simp add: relink_def)
lemma same_items_rotate [simp]: "same_items s (rotate_pair s' a b) \<longleftrightarrow> same_items s s'"
  by (simp add: rotate_pair_def Let_def)

lemma same_items_delete_tail: "delete_tail s par tmp sd = (s', a, b) \<Longrightarrow> same_items s s'"
  by (auto simp: delete_tail_def Let_def split: if_splits)

lemma same_items_delete_round:
  assumes "delete_round s par sd = (s', a, b)" shows "same_items s s'"
proof (cases "color_at s (child_at s par (opp sd)) = RED")
  case True
  let ?s = "rotate_pair (set_color par RED (set_color (child_at s par (opp sd)) BLACK s)) par (sd = LEFT)"
  have "same_items ?s s'" using assms True by (intro same_items_delete_tail) (simp add: delete_round_def Let_def)
  moreover have "same_items s ?s" by simp
  ultimately show ?thesis by (rule same_items_trans [rotated])
next
  case False
  then show ?thesis using assms by (intro same_items_delete_tail) (simp add: delete_round_def Let_def)
qed

lemma same_items_afd: "adjust_for_delete s pair par = Some s' \<Longrightarrow> same_items s s'"
proof (induction rule: adjust_for_delete.raw_induct [rotated, consumes 1])
  case (1 afd s pair par s')
  show ?case
  proof (cases "pair \<noteq> rbt_root s \<and> color_at s pair = BLACK")
    case True
    obtain s1 a b where r: "delete_round s par (if pair = child_at s par LEFT then LEFT else RIGHT) = (s1, a, b)" by (metis prod_cases3)
    then show ?thesis using True 1(1) [of s1 a b s'] 1(2) same_items_delete_round [OF r] same_items_trans by (auto simp: Let_def)
  next
    case False
    then show ?thesis using 1(2) by auto
  qed
qed

section \<open>Taking a pair out\<close>

lemma unlink_at:
  assumes a: "at_ctx s gs (mk sd c x y Lf)"
  defines "s' \<equiv> relink (if addr_of x \<noteq> XNIL then set_parent (addr_of x) (par_of gs) s else s) (par_of gs) (pr_addr y) (addr_of x)"
  shows "at_ctx s' gs x" "same_frame s s'" "same_items s s'" "rbt_heap s' (pr_addr y) = rbt_heap s (pr_addr y)"
proof -
  define Y where "Y = pr_addr y" define X where "X = addr_of x"
  let ?s1 = "if X \<noteq> XNIL then set_parent X (par_of gs) s else s"
  have fr: "fresh (Y # addrs x @ ctx_addrs gs)" using a by (simp add: at_ctx_def Y_def)
  have h: "tree_at (rbt_heap s) Y x" "ctx_at (rbt_heap s) gs Y" "rbt_root s = root_addr gs Y" "nil_ok s"
    using a by (auto simp: at_ctx_def Y_def)
  have X: "X = XNIL \<longleftrightarrow> x = Lf" "X \<in> set (addrs x) \<or> X = XNIL" using fr addr_of_nil [of x] addr_of_in [of x] by (auto simp: fresh_def X_def)
  have ne: "Y \<notin> set (ctx_addrs gs)" "Y \<noteq> XNIL" "fresh (ctx_addrs gs)" "X \<notin> set (ctx_addrs gs)" "X \<noteq> Y" "XNIL \<notin> set (ctx_addrs gs)" "distinct (addrs x)"
    using fr X(2) by (auto simp: fresh_def)
  have "ctx_at (rbt_heap ?s1) gs Y = ctx_at (rbt_heap s) gs Y" using ne(4) by (intro ctx_at_cong) (auto simp: set_parent_def)
  then have c1: "ctx_at (rbt_heap ?s1) gs Y" and rt: "rbt_root ?s1 = root_addr gs Y" using h by (auto simp: set_parent_def)
  have s': "s' = relink ?s1 (par_of gs) Y X" by (simp add: s'_def Y_def X_def)
  note rl = relink_ctx [OF c1 rt ne(3,1,2), where new = X, folded s']
  have hp: "rbt_heap s' b = (if b = X \<and> X \<noteq> XNIL then (rbt_heap s b)\<lparr>rn_parent := par_of gs\<rparr> else rbt_heap s b)"
    if "b \<notin> set (ctx_addrs gs)" for b
  proof -
    have "b \<noteq> par_of gs \<or> gs = []" using that par_of_in [of gs] by auto
    from rl(3) [OF this] show ?thesis by (simp add: set_parent_def)
  qed
  have "tree_at (rbt_heap s') (par_of gs) x"
  proof (cases "x = Lf")
    case False
    let ?g = "\<lambda>b. if b = X then (rbt_heap s b)\<lparr>rn_parent := par_of gs\<rparr> else rbt_heap s b"
    have "tree_at ?g (par_of gs) x" using set_parent_tree [OF h(1) ne(7), of ?g "par_of gs"] by (simp add: X_def)
    moreover have "?g b = rbt_heap s' b" if "b \<in> set (addrs x)" for b
    proof -
      have "b \<notin> set (ctx_addrs gs)" using that fr by (auto simp: fresh_def)
      then show ?thesis using hp False X(1) by simp
    qed
    ultimately show ?thesis using tree_at_cong [of x ?g "rbt_heap s'" "par_of gs"] by blast
  qed simp
  moreover have "nil_ok s'" using hp [OF ne(6)] h(4) by (auto simp: nil_ok_def)
  moreover have "fresh (addrs x @ ctx_addrs gs)" using fr by (auto simp: fresh_def)
  ultimately show "at_ctx s' gs x" using rl(1,2) by (simp add: at_ctx_def X_def)
  show "same_frame s s'" using rl(4) by (auto simp: same_frame_def set_parent_def)
  show "same_items s s'" by (simp add: s')
  show "rbt_heap s' (pr_addr y) = rbt_heap s (pr_addr y)" using hp [OF ne(1)] ne(5) by (simp add: Y_def)
qed

text \<open>Putting another pair in the place of one.\<close>

lemma transplant_at:
  assumes a: "at_ctx s fs (Nd c l p r)" and y: "pr_addr y \<notin> set (addrs (Nd c l p r) @ ctx_addrs fs)" "pr_addr y \<noteq> QSE_NULL" "pr_addr y \<noteq> XNIL"
    and ctx: "ctx_at (rbt_heap s') fs (pr_addr y)" "rbt_root s' = root_addr fs (pr_addr y)"
    and node: "node_at (rbt_heap s') y c (par_of fs) LEFT (addr_of l) (addr_of r)"
    and oth: "\<And>b. b \<in> set (addrs l) \<or> b \<in> set (addrs r) \<or> b = XNIL \<Longrightarrow> rbt_heap s' b =
        (if b \<noteq> XNIL \<and> (b = addr_of l \<or> b = addr_of r) then (rbt_heap s b)\<lparr>rn_parent := pr_addr y\<rparr> else rbt_heap s b)"
  shows "at_ctx s' fs (Nd c l y r)"
proof -
  have fr: "fresh (addrs (Nd c l p r) @ ctx_addrs fs)" and h: "tree_at (rbt_heap s) (pr_addr p) l" "tree_at (rbt_heap s) (pr_addr p) r" "nil_ok s"
    using a by (auto simp: at_ctx_def)
  have sub: "tree_at (rbt_heap s') (pr_addr y) t"
    if t: "tree_at (rbt_heap s) (pr_addr p) t" and o: "\<And>b. b \<in> set (addrs t) \<Longrightarrow> rbt_heap s' b =
        (if b = addr_of t then (rbt_heap s b)\<lparr>rn_parent := pr_addr y\<rparr> else rbt_heap s b)" and d: "distinct (addrs t)" for t
  proof -
    let ?g = "\<lambda>b. if b = addr_of t then (rbt_heap s b)\<lparr>rn_parent := pr_addr y\<rparr> else rbt_heap s b"
    have "tree_at ?g (pr_addr y) t" using set_parent_tree [OF t d] by blast
    then show ?thesis using tree_at_cong [of t ?g "rbt_heap s'" "pr_addr y"] o by simp
  qed
  have dj: "addr_of r \<notin> set (addrs l)" "addr_of l \<notin> set (addrs r)" "XNIL \<notin> set (addrs l)" "XNIL \<notin> set (addrs r)"
    using fr addr_of_in [of l] addr_of_in [of r] by (cases l; cases r; auto simp: fresh_def)+
  have "tree_at (rbt_heap s') (pr_addr y) l" using fr dj by (intro sub [OF h(1)]) (auto simp: oth fresh_def)
  moreover have "tree_at (rbt_heap s') (pr_addr y) r" using fr dj by (intro sub [OF h(2)]) (auto simp: oth fresh_def)
  moreover have "fresh (addrs (Nd c l y r) @ ctx_addrs fs)" using fr y by (auto simp: fresh_def)
  moreover have "nil_ok s'" using h(3) oth [of XNIL] by (simp add: nil_ok_def)
  ultimately show ?thesis using ctx node by (simp add: at_ctx_def)
qed

lemma at_ctx_facts:
  assumes "at_ctx s fs (Nd c l p r)"
  shows "rn_color (rbt_heap s (pr_addr p)) = c" "parent_at s (pr_addr p) = par_of fs"
    "child_at s (pr_addr p) LEFT = addr_of l" "child_at s (pr_addr p) RIGHT = addr_of r"
    "pr_addr p \<notin> set (ctx_addrs fs)" "pr_addr p \<notin> set (addrs l)" "pr_addr p \<notin> set (addrs r)"
    "pr_addr p \<noteq> XNIL" "pr_addr p \<noteq> QSE_NULL" "addr_of l \<noteq> pr_addr p" "addr_of r \<noteq> pr_addr p"
    "addr_of l \<notin> set (ctx_addrs fs)" "addr_of r \<notin> set (ctx_addrs fs)" "fresh (ctx_addrs fs)"
    "ctx_at (rbt_heap s) fs (pr_addr p)" "rbt_root s = root_addr fs (pr_addr p)"
    "l \<noteq> Lf \<Longrightarrow> parent_at s (addr_of l) = pr_addr p" "r \<noteq> Lf \<Longrightarrow> parent_at s (addr_of r) = pr_addr p"
    "addr_of l = XNIL \<longleftrightarrow> l = Lf" "addr_of r = XNIL \<longleftrightarrow> r = Lf" "l \<noteq> Lf \<Longrightarrow> addr_of l \<noteq> addr_of r"
proof -
  have fr: "fresh (addrs l @ pr_addr p # addrs r @ ctx_addrs fs)" using assms by (simp add: at_ctx_def)
  show "rn_color (rbt_heap s (pr_addr p)) = c" "parent_at s (pr_addr p) = par_of fs"
    "child_at s (pr_addr p) LEFT = addr_of l" "child_at s (pr_addr p) RIGHT = addr_of r"
    "ctx_at (rbt_heap s) fs (pr_addr p)" "rbt_root s = root_addr fs (pr_addr p)"
    using assms by (auto simp: at_ctx_def node_at_def)
  show "pr_addr p \<notin> set (ctx_addrs fs)" "pr_addr p \<notin> set (addrs l)" "pr_addr p \<notin> set (addrs r)"
    "pr_addr p \<noteq> XNIL" "pr_addr p \<noteq> QSE_NULL" "fresh (ctx_addrs fs)" using fr by (auto simp: fresh_def)
  show "addr_of l = XNIL \<longleftrightarrow> l = Lf" "addr_of r = XNIL \<longleftrightarrow> r = Lf" using fr addr_of_nil [of l] addr_of_nil [of r] by (auto simp: fresh_def)
  show "addr_of l \<noteq> pr_addr p" "addr_of r \<noteq> pr_addr p" "addr_of l \<notin> set (ctx_addrs fs)" "addr_of r \<notin> set (ctx_addrs fs)"
    "l \<noteq> Lf \<Longrightarrow> addr_of l \<noteq> addr_of r"
    using fr by (cases l; cases r; auto simp: fresh_def)+
  show "l \<noteq> Lf \<Longrightarrow> parent_at s (addr_of l) = pr_addr p" "r \<noteq> Lf \<Longrightarrow> parent_at s (addr_of r) = pr_addr p"
    using assms by (cases l; cases r; auto simp: at_ctx_def node_at_def)+
qed

lemma relink_alt:
  assumes "at_ctx s fs (Nd c l p r)" "y \<noteq> pr_addr p"
  shows "(if par_of fs \<noteq> QSE_NULL then
            (let s = (if child_at s (par_of fs) LEFT = pr_addr p then set_child (par_of fs) LEFT y s else s)
             in if child_at s (par_of fs) RIGHT = pr_addr p then set_child (par_of fs) RIGHT y s else s)
          else s\<lparr>rbt_root := y\<rparr>) = relink s (par_of fs) (pr_addr p) y"
proof (cases fs rule: par_of.cases)
  case (2 sd c' q u gs)
  have G: "at_ctx s gs (mk sd c' (Nd c l p r) q u)" using assms(1) by (simp add: 2 at_ctx_step)
  have "child_at s (pr_addr q) sd = pr_addr p" "child_at s (pr_addr q) (opp sd) \<noteq> pr_addr p"
    using at_ctx_child [OF G, of sd] at_ctx_child [OF G, of "opp sd"] at_ctx_siblings [OF G] by simp_all
  then show ?thesis using assms(2) by (cases sd) (auto simp: 2 relink_def set_child_def Let_def)
qed (simp add: relink_def)

text \<open>Both ways in which the code substitutes a pair for another.\<close>

lemma swap_in_at:
  assumes a: "at_ctx s fs (Nd c l p r)" and y: "pr_addr y \<notin> set (addrs (Nd c l p r) @ ctx_addrs fs)" "pr_addr y \<noteq> QSE_NULL" "pr_addr y \<noteq> XNIL"
    and i: "rn_key (rbt_heap s (pr_addr y)) = pr_key y" "rn_val (rbt_heap s (pr_addr y)) = pr_val y"
  shows "at_ctx (swap_in s (pr_addr p) (pr_addr y)) fs (Nd c l y r)" "same_frame s (swap_in s (pr_addr p) (pr_addr y))"
proof -
  define P where "P = pr_addr p" define Y where "Y = pr_addr y" define L where "L = addr_of l" define R where "R = addr_of r"
  note fc = at_ctx_facts [OF a, folded P_def L_def R_def]
  have Y: "Y \<noteq> P" "Y \<notin> set (ctx_addrs fs)" "Y \<notin> set (addrs l)" "Y \<notin> set (addrs r)" "Y \<noteq> QSE_NULL" "Y \<noteq> XNIL" "Y \<noteq> L" "Y \<noteq> R"
    using y addr_of_in [of l] addr_of_in [of r] by (cases l; cases r; auto simp: P_def Y_def L_def R_def)+
  define s1 where "s1 = relink s (par_of fs) P Y"
  note rl = relink_ctx [OF fc(15,16,14,5,8), where new = Y, folded s1_def]
  have h1: "rbt_heap s1 b = rbt_heap s b" if "b \<notin> set (ctx_addrs fs)" for b
    using rl(3) that par_of_in [of fs] by metis
  note hP = h1 [OF fc(5)] note hY = h1 [OF Y(2)] note hL = h1 [OF fc(12)] note hR = h1 [OF fc(13)]
  define s2 where "s2 = set_color Y c (set_child Y RIGHT R (set_child Y LEFT L (set_parent Y (par_of fs) s1)))"
  have h2: "rbt_heap s2 b = (if b = Y then (rbt_heap s Y)\<lparr>rn_color := c, rn_parent := par_of fs, rn_child := (rn_child (rbt_heap s Y))(LEFT := L, RIGHT := R)\<rparr>
      else rbt_heap s1 b)" for b
    using hY by (simp add: s2_def set_defs)
  define s3 where "s3 = (if L \<noteq> XNIL then set_parent L Y s2 else s2)"
  define s4 where "s4 = (if R \<noteq> XNIL then set_parent R Y s3 else s3)"
  have nil: "parent_at s XNIL = QSE_NULL" "XNIL \<notin> set (ctx_addrs fs)" using a fc(14) by (auto simp: at_ctx_def nil_ok_def fresh_def)
  have nil1: "rbt_heap s1 XNIL = rbt_heap s XNIL" using h1 nil(2) .
  have pl: "parent_at s2 L = P \<longleftrightarrow> L \<noteq> XNIL" using h2 [of L] hL Y(7) fc(17,19) nil nil1 fc(9) by (cases "L = XNIL") auto
  have pr: "parent_at s3 R = P \<longleftrightarrow> R \<noteq> XNIL"
    using h2 [of R] hR Y(8) fc(18,20,21,19) nil nil1 fc(9) by (cases "R = XNIL") (auto simp: s3_def set_parent_def)
  have cP: "child_at s2 P LEFT = L" "child_at s2 P RIGHT = R" "child_at s3 P RIGHT = R"
    using h2 [of P] hP fc(3,4,10) Y(1) by (auto simp: s3_def set_parent_def)
  have atP: "rbt_heap (set_parent Y v z) P = rbt_heap z P" "rbt_heap (set_child Y sd v z) P = rbt_heap z P" for v z sd
    using Y(1) by (simp_all add: set_defs)
  have step1: "swap_in s P Y =
     (let s = s2; s = (if parent_at s (child_at s P LEFT) = P then set_parent (child_at s P LEFT) Y s else s)
      in if parent_at s (child_at s P RIGHT) = P then set_parent (child_at s P RIGHT) Y s else s)"
    unfolding swap_in_def fc(2) Let_def [of "par_of fs"] relink_alt [OF a, of Y, folded P_def, OF Y(1)] s1_def [symmetric]
    unfolding Let_def atP hP fc(1-4) s2_def by (rule refl)
  have sw: "swap_in s P Y = s4"
    unfolding step1 Let_def cP pl s3_def [symmetric] using pr cP(3) by (simp add: s4_def)
  have h4: "rbt_heap s4 b = (if b \<noteq> XNIL \<and> (b = L \<or> b = R) then (rbt_heap s2 b)\<lparr>rn_parent := Y\<rparr> else rbt_heap s2 b)" for b
    by (auto simp: s4_def s3_def set_parent_def)
  have s4: "rbt_root s4 = root_addr fs Y" "same_frame s s4" using rl(2,4) by (auto simp: s4_def s3_def s2_def set_defs same_frame_def)
  have "ctx_at (rbt_heap s4) fs Y = ctx_at (rbt_heap s1) fs Y"
    by (rule ctx_at_cong) (use fc(12,13) Y(2) h2 in \<open>auto simp: h4\<close>)
  then have c4: "ctx_at (rbt_heap s4) fs Y" using rl(1) by simp
  have nd: "node_at (rbt_heap s4) y c (par_of fs) LEFT L R"
    using Y(7,8) i h2 [of Y] by (simp add: node_at_def Y_def [symmetric] h4)
  have ot: "rbt_heap s4 b = (if b \<noteq> XNIL \<and> (b = L \<or> b = R) then (rbt_heap s b)\<lparr>rn_parent := Y\<rparr> else rbt_heap s b)"
    if "b \<in> set (addrs l) \<or> b \<in> set (addrs r) \<or> b = XNIL" for b
  proof -
    have fr: "fresh (addrs l @ pr_addr p # addrs r @ ctx_addrs fs)" using a by (simp add: at_ctx_def)
    then have "b \<notin> set (ctx_addrs fs)" "b \<noteq> Y" using that Y by (auto simp: fresh_def)
    then show ?thesis using h1 [of b] h2 [of b] by (auto simp: h4)
  qed
  show "at_ctx (swap_in s (pr_addr p) (pr_addr y)) fs (Nd c l y r)"
    using transplant_at [OF a y c4 [unfolded Y_def] s4(1) [unfolded Y_def] nd [unfolded L_def R_def] ot [unfolded L_def R_def Y_def]] sw
    by (simp add: P_def Y_def)
  show "same_frame s (swap_in s (pr_addr p) (pr_addr y))" using s4(2) sw by (simp add: P_def Y_def)
qed

lemma take_over_at:
  assumes a: "at_ctx s fs (Nd c l p r)" and y: "pr_addr y \<notin> set (addrs (Nd c l p r) @ ctx_addrs fs)" "pr_addr y \<noteq> QSE_NULL" "pr_addr y \<noteq> XNIL"
    and i: "rn_key (rbt_heap s (pr_addr y)) = pr_key y" "rn_val (rbt_heap s (pr_addr y)) = pr_val y"
  shows "at_ctx (take_over s (pr_addr p) (rbt_heap s (pr_addr p)) (pr_addr y)) fs (Nd c l y r)"
    "same_frame s (take_over s (pr_addr p) (rbt_heap s (pr_addr p)) (pr_addr y))"
proof -
  define P where "P = pr_addr p" define Y where "Y = pr_addr y" define L where "L = addr_of l" define R where "R = addr_of r"
  note fc = at_ctx_facts [OF a, folded P_def L_def R_def]
  have Y: "Y \<noteq> P" "Y \<notin> set (ctx_addrs fs)" "Y \<notin> set (addrs l)" "Y \<notin> set (addrs r)" "Y \<noteq> QSE_NULL" "Y \<noteq> XNIL" "Y \<noteq> L" "Y \<noteq> R"
    using y addr_of_in [of l] addr_of_in [of r] by (cases l; cases r; auto simp: P_def Y_def L_def R_def)+
  define s1 where "s1 = set_parent Y (par_of fs) (set_child Y RIGHT R (set_child Y LEFT L (set_color Y c s)))"
  have h1: "rbt_heap s1 b = (if b = Y then (rbt_heap s Y)\<lparr>rn_color := c, rn_parent := par_of fs, rn_child := (rn_child (rbt_heap s Y))(LEFT := L, RIGHT := R)\<rparr>
      else rbt_heap s b)" for b by (simp add: s1_def set_defs)
  have "ctx_at (rbt_heap s1) fs P = ctx_at (rbt_heap s) fs P" by (rule ctx_at_cong) (use Y(2) h1 in auto)
  then have c1: "ctx_at (rbt_heap s1) fs P" and rt: "rbt_root s1 = root_addr fs P" using fc(15,16) by (simp_all add: s1_def set_defs)
  define s2 where "s2 = relink s1 (par_of fs) P Y"
  note rl = relink_ctx [OF c1 rt fc(14,5,8), where new = Y, folded s2_def]
  have h2: "rbt_heap s2 b = rbt_heap s1 b" if "b \<notin> set (ctx_addrs fs)" for b
    using rl(3) that par_of_in [of fs] by metis
  define s3 where "s3 = (if L \<noteq> XNIL then set_parent L Y s2 else s2)"
  define s4 where "s4 = (if R \<noteq> XNIL then set_parent R Y s3 else s3)"
  have n0: "par_of fs = QSE_NULL \<longleftrightarrow> fs = []" using fc(14) par_of_in [of fs] by (cases "fs = []") (auto simp: fresh_def)
  have to: "take_over s P (rbt_heap s P) Y = s4"
  proof (cases "fs = []")
    case True
    then show ?thesis using fc(1-4) rt n0
      by (auto simp: take_over_def s4_def s3_def s2_def s1_def relink_def Let_def set_defs upd_def)
  next
    case False
    then have r: "P \<noteq> rbt_root s2" using rl(2) fc(5) root_addr_in [of fs Y] by auto
    have "rbt_root (set_parent a b z) = rbt_root z" for a b z by (simp add: set_parent_def)
    then show ?thesis unfolding take_over_def fc(1-4) s1_def [symmetric] Let_def
      using False n0 r by (simp add: s2_def [symmetric] s3_def s4_def s1_def [symmetric])
  qed
  have h4: "rbt_heap s4 b = (if b \<noteq> XNIL \<and> (b = L \<or> b = R) then (rbt_heap s2 b)\<lparr>rn_parent := Y\<rparr> else rbt_heap s2 b)" for b
    by (auto simp: s4_def s3_def set_parent_def)
  have s4: "rbt_root s4 = root_addr fs Y" "same_frame s s4" using rl(2,4) by (auto simp: s4_def s3_def s1_def set_defs same_frame_def)
  have "ctx_at (rbt_heap s4) fs Y = ctx_at (rbt_heap s2) fs Y"
    by (rule ctx_at_cong) (use fc(12,13) in \<open>auto simp: h4\<close>)
  then have c4: "ctx_at (rbt_heap s4) fs Y" using rl(1) by simp
  have nd: "node_at (rbt_heap s4) y c (par_of fs) LEFT L R"
    using Y(7,8) i h1 [of Y] h2 [OF Y(2)] by (simp add: node_at_def Y_def [symmetric] h4)
  have ot: "rbt_heap s4 b = (if b \<noteq> XNIL \<and> (b = L \<or> b = R) then (rbt_heap s b)\<lparr>rn_parent := Y\<rparr> else rbt_heap s b)"
    if "b \<in> set (addrs l) \<or> b \<in> set (addrs r) \<or> b = XNIL" for b
  proof -
    have fr: "fresh (addrs l @ pr_addr p # addrs r @ ctx_addrs fs)" using a by (simp add: at_ctx_def)
    then have "b \<notin> set (ctx_addrs fs)" "b \<noteq> Y" using that Y by (auto simp: fresh_def)
    then show ?thesis using h1 [of b] h2 [of b] by (auto simp: h4)
  qed
  show "at_ctx (take_over s (pr_addr p) (rbt_heap s (pr_addr p)) (pr_addr y)) fs (Nd c l y r)"
    using transplant_at [OF a y c4 [unfolded Y_def] s4(1) [unfolded Y_def] nd [unfolded L_def R_def] ot [unfolded L_def R_def Y_def]] to
    by (simp add: P_def Y_def)
  show "same_frame s (take_over s (pr_addr p) (rbt_heap s (pr_addr p)) (pr_addr y))" using s4(2) to by (simp add: P_def Y_def)
qed

section \<open>Deleting a pair\<close>

lemma replace_pair_id: "p \<notin> set (inorder t) \<Longrightarrow> replace_pair p q t = t"
  by (induction t) auto

lemma replace_pair_mk: "replace_pair p q (mk sd c t x u) = mk sd c (replace_pair p q t) (if x = p then q else x) (replace_pair p q u)"
  by (simp add: mk_def)

lemma replace_fill:
  "distinct (inorder (fill fs (Nd c l p r))) \<Longrightarrow> replace_pair p q (fill fs (Nd c l p r)) = fill fs (Nd c l q r)"
proof -
  assume d: "distinct (inorder (fill fs (Nd c l p r)))"
  have ctx: "replace_pair p q (fill gs t) = fill gs (replace_pair p q t)" if "p \<notin> set (bef gs @ aft gs)" for gs t
    using that
  proof (induction gs t rule: fill.induct)
    case (2 sd c x u gs t)
    then show ?case by (auto simp: replace_pair_mk replace_pair_id split: if_splits)
  qed simp
  show ?thesis using d ctx [of fs "Nd c l p r"] by (auto simp: inorder_fill replace_pair_id)
qed

lemma fresh_distinct: "fresh (addrs t) \<Longrightarrow> distinct (inorder t)"
  by (simp add: fresh_def addrs_def distinct_map)

lemma mset_addrs_inorder: "mset (inorder t) = mset (inorder u) \<Longrightarrow> fresh (addrs t) = fresh (addrs u)"
  unfolding addrs_def by (intro fresh_mset) (metis mset_map)

text \<open>Unlinking \<open>y\<close>, which has at most one child, with the repair if it was black.\<close>

lemma unlink_repair:
  assumes a: "at_ctx s gs (mk sd c x y Lf)"
  shows "\<exists>s'. take_out s (pr_addr y) (addr_of x) (par_of gs) = Some s' \<and>
    repr s' (unlink gs c x) \<and> same_frame s s' \<and> same_items s s'"
proof -
  define s1 where "s1 = relink (if addr_of x \<noteq> XNIL then set_parent (addr_of x) (par_of gs) s else s) (par_of gs) (pr_addr y) (addr_of x)"
  note u = unlink_at [OF a, folded s1_def]
  have c: "color_at s1 (pr_addr y) = c" using at_ctx_color [OF a] u(4) by simp
  have x: "addr_of x = XNIL \<longleftrightarrow> x = Lf" using at_ctx_nil [OF u(1)] .
  have t: "take_out s (pr_addr y) (addr_of x) (par_of gs) =
      (if c = BLACK \<and> x \<noteq> Lf then adjust_for_delete s1 (addr_of x) (par_of gs) else Some s1)"
    unfolding take_out_def Let_def s1_def [symmetric] using c x by simp
  show ?thesis
  proof (cases "c = BLACK \<and> x \<noteq> Lf")
    case True
    then obtain s' where s': "adjust_for_delete s1 (addr_of x) (par_of gs) = Some s'" "repr s' (fix_delete gs x)" "same_frame s1 s'"
      using afd_at [OF u(1)] by blast
    then show ?thesis using True same_frame_trans [OF u(2)] same_items_trans [OF u(3)] same_items_afd by (auto simp: unlink_def t)
  next
    case False
    then show ?thesis using u by (auto simp: unlink_def repr_fill t)
  qed
qed

lemma unlink_inorder_split:
  assumes "repr s (unlink gs c x)" "p \<in> set (bef gs)"
  obtains fs c' l r where "unlink gs c x = fill fs (Nd c' l p r)" "at_ctx s fs (Nd c' l p r)"
proof -
  have "p \<in> set (inorder (unlink gs c x))" using assms(2) by (simp add: inorder_unlink inorder_fill)
  then obtain fs c' l r where f: "unlink gs c x = fill fs (Nd c' l p r)" by (rule focus)
  then show ?thesis using that assms(1) by (simp add: repr_fill)
qed

lemma delete_pair_eq:
  assumes "(if IS_NIL (child_at s pair LEFT) \<or> IS_NIL (child_at s pair RIGHT) then Some pair else leftmost_loop s (child_at s pair RIGHT)) = Some y"
    and "take_out s y (if IS_NIL (child_at s y LEFT) then child_at s y RIGHT else child_at s y LEFT) (parent_at s y) = Some s1"
    and "(if y = pair then s1 else swap_in s1 pair y) = s2"
  shows "delete_pair s pair = Some (s2\<lparr>rbt_size := rbt_size s2 - 1\<rparr>, free_pair (rbt_style s1) (pair_at s1 pair))"
  unfolding delete_pair_def Let_def assms(1) by (simp only: Option.bind.bind_lunit assms(2,3))

lemma delete_pair_at:
  assumes a: "at_ctx s fs (Nd c l p r)"
  shows "\<exists>s'. delete_pair s (pr_addr p) = Some (s', free_pair (rbt_style s) p) \<and> repr s' (del_tree fs (Nd c l p r)) \<and>
    same_frame (s\<lparr>rbt_size := rbt_size s - 1\<rparr>) s'"
proof -
  note fc = at_ctx_facts [OF a] note pa = at_ctx_pair [OF a]
  have fin: "repr (s'\<lparr>rbt_size := n\<rparr>) t = repr s' t" for s' n t by (simp add: repr_def nil_ok_def)
  have log: "free_pair (rbt_style s') (pair_at s' (pr_addr p)) = free_pair (rbt_style s) p" if "same_frame s s'" "same_items s s'" for s'
    using that pa by (simp add: same_frame_def same_items_def free_pair_def)
  show ?thesis
  proof (cases "l = Lf \<or> r = Lf")
    case True
    define x where "x = (if l = Lf then r else l)"
    obtain sd where sd: "Nd c l p r = mk sd c x p Lf"
      using True that [of RIGHT] that [of LEFT] by (cases "l = Lf") (auto simp: mk_def x_def)
    obtain s' where s': "take_out s (pr_addr p) (addr_of x) (par_of fs) = Some s'"
      "repr s' (unlink fs c x)" "same_frame s s'" "same_items s s'"
      using unlink_repair [of s fs sd c x p] a unfolding sd by blast
    have "child_at s (pr_addr p) LEFT = XNIL \<or> child_at s (pr_addr p) RIGHT = XNIL" using True fc(3,4,19,20) by auto
    moreover have "(if IS_NIL (child_at s (pr_addr p) LEFT) then child_at s (pr_addr p) RIGHT else child_at s (pr_addr p) LEFT) = addr_of x"
      using fc(3,4,19) by (simp add: x_def)
    ultimately have "delete_pair s (pr_addr p) = Some (s'\<lparr>rbt_size := rbt_size s' - 1\<rparr>, free_pair (rbt_style s') (pair_at s' (pr_addr p)))"
      using s'(1) fc(2) by (intro delete_pair_eq [where y = "pr_addr p"]) simp_all
    then have "delete_pair s (pr_addr p) = Some (s'\<lparr>rbt_size := rbt_size s' - 1\<rparr>, free_pair (rbt_style s) p)"
      using log [OF s'(3,4)] by simp
    then show ?thesis using s' True fin by (auto simp: x_def same_frame_def)
  next
    case False
    obtain gs y where d: "down_left r ((RIGHT, c, p, l) # fs) = (gs, y)" by (metis surj_pair)
    have ar: "at_ctx s ((RIGHT, c, p, l) # fs) r" using a by (simp add: at_ctx_step mk_def)
    note dr = down_left_root [OF _ d]
    have ym: "y = mk RIGHT (color_of y) (subt RIGHT y) (root_pair y) Lf" using dr False mk_sub [of y RIGHT] by simp
    define Y where "Y = root_pair y" define x where "x = subt RIGHT y"
    have "fill gs y = fill fs (Nd c l p r)" using down_left_fill [OF d] by (simp add: mk_def)
    then have ay: "at_ctx s gs y" using a repr_fill [of s gs y] repr_fill [of s fs "Nd c l p r"] by simp
    then have ay': "at_ctx s gs (mk RIGHT (color_of y) x Y Lf)" using ym by (simp add: Y_def x_def)
    obtain s1 where s1: "take_out s (pr_addr Y) (addr_of x) (par_of gs) = Some s1"
      "repr s1 (unlink gs (color_of y) x)" "same_frame s s1" "same_items s s1"
      using unlink_repair [OF ay'] by blast
    have bg: "p \<in> set (bef gs)" using down_left_bef [OF d] by simp
    obtain fs' c' l' r' where f: "unlink gs (color_of y) x = fill fs' (Nd c' l' p r')" "at_ctx s1 fs' (Nd c' l' p r')"
      using unlink_inorder_split [OF s1(2) bg] .
    have iY: "rn_key (rbt_heap s1 (pr_addr Y)) = pr_key Y" "rn_val (rbt_heap s1 (pr_addr Y)) = pr_val Y"
      using s1(4) ay' by (auto simp: same_items_def at_ctx_def node_at_def)
    have fy: "fresh (pr_addr Y # addrs x @ ctx_addrs gs)" using ay' by (simp add: at_ctx_def)
    have "mset (addrs (fill fs' (Nd c' l' p r'))) = mset (addrs (fill gs x))"
      using f(1) inorder_unlink [of gs "color_of y" x] by (simp add: addrs_def)
    then have "mset (addrs (Nd c' l' p r') @ ctx_addrs fs') = mset (addrs x @ ctx_addrs gs)" unfolding mset_addrs_fill .
    then have "set (addrs (Nd c' l' p r') @ ctx_addrs fs') = set (addrs x @ ctx_addrs gs)" by (rule mset_eq_setD)
    then have Yn: "pr_addr Y \<notin> set (addrs (Nd c' l' p r') @ ctx_addrs fs')" "pr_addr Y \<noteq> QSE_NULL" "pr_addr Y \<noteq> XNIL"
      using fy by (auto simp: fresh_def)
    note sw = swap_in_at [OF f(2) Yn iY]
    define s2 where "s2 = swap_in s1 (pr_addr p) (pr_addr Y)"
    have "fresh (addrs (unlink gs (color_of y) x))" using s1(2) by (simp add: repr_def)
    from replace_fill [OF fresh_distinct [OF this [unfolded f(1)]], of Y]
    have "repr s2 (replace_pair p Y (unlink gs (color_of y) x))" using sw(1) f(1) by (simp add: s2_def repr_fill)
    moreover have "del_tree fs (Nd c l p r) = replace_pair p Y (unlink gs (color_of y) x)" using False d by (simp add: Y_def x_def)
    moreover have "leftmost_loop s (addr_of r) = Some (pr_addr Y)" using leftmost_loop_at [OF ar _ d] False ym by (metis addr_of_mk Y_def)
    moreover have "pr_addr Y \<noteq> pr_addr p" using Yn(1) by simp
    moreover have "child_at s (pr_addr Y) LEFT = XNIL" "child_at s (pr_addr Y) RIGHT = addr_of x" "parent_at s (pr_addr Y) = par_of gs"
      using at_ctx_child [OF ay', of LEFT] at_ctx_child [OF ay', of RIGHT] at_ctx_parent [OF ay'] by (simp_all add: mk_def)
    moreover from calculation(3-7) have "delete_pair s (pr_addr p) = Some (s2\<lparr>rbt_size := rbt_size s2 - 1\<rparr>, free_pair (rbt_style s1) (pair_at s1 (pr_addr p)))"
      using False fc(3,4,19,20) s1(1) by (intro delete_pair_eq [where y = "pr_addr Y"]) (simp_all add: s2_def)
    then have "delete_pair s (pr_addr p) = Some (s2\<lparr>rbt_size := rbt_size s2 - 1\<rparr>, free_pair (rbt_style s) p)"
      using log [OF s1(3,4)] by simp
    moreover have "same_frame s s2" using same_frame_trans [OF s1(3) sw(2)] by (simp add: s2_def)
    ultimately show ?thesis using fin by (simp add: same_frame_def)
  qed
qed

end
