(* ===== verification/Qse_Rbt_Map.thy ===== *)
theory Qse_Rbt_Map
  imports Qse_Rbt_Repr
begin

text \<open>
  The red-black tree as a map: its invariant (the linked pairs form a search tree with a black root in which no red pair has a red child),
  what every operation of \<open>src/lib/cmn/rbt.c\<close> does to the map it represents, and the walk. Every
  loop is shown to end.
\<close>

section \<open>The invariant and the map represented\<close>

partial_function (option) read_tree :: "qse_rbt \<Rightarrow> addr \<Rightarrow> rtree option" where
  "read_tree s a =
     (if IS_NIL a then Some Lf
      else do {
        l \<leftarrow> read_tree s (child_at s a LEFT);
        r \<leftarrow> read_tree s (child_at s a RIGHT);
        Some (Nd (color_at s a) l (pair_at s a) r)
      })"

definition rbt_shape :: "qse_rbt \<Rightarrow> rtree" where
  "rbt_shape s = the (read_tree s (rbt_root s))"

definition rbt_view :: "qse_rbt \<Rightarrow> amap" where
  "rbt_view s = pairs_view (inorder (rbt_shape s))"

definition rbt_is :: "qse_rbt \<Rightarrow> rtree \<Rightarrow> bool" where
  "rbt_is s t \<longleftrightarrow> repr s t \<and> bst t \<and> no_rr t \<and> color_of t = BLACK \<and> rbt_size s = length (inorder t) \<and>
     (\<forall>p \<in> set (inorder t). pair_ok (rbt_kscale s) (rbt_vscale s) p) \<and>
     plain_style (rbt_style s) \<and> rbt_comper s = qse_rbt_dflcomp"

definition rbt_ok :: "qse_rbt \<Rightarrow> bool" where
  "rbt_ok s \<longleftrightarrow> (\<exists>t. rbt_is s t)"

lemma read_tree_at: "at_ctx s fs t \<Longrightarrow> read_tree s (addr_of t) = Some t"
proof (induction t arbitrary: fs)
  case Lf
  show ?case by (subst read_tree.simps) simp
next
  case (Nd c l p r)
  note fc = at_ctx_facts [OF Nd.prems] at_ctx_pair [OF Nd.prems]
  have "at_ctx s ((LEFT, c, p, r) # fs) l" "at_ctx s ((RIGHT, c, p, l) # fs) r"
    using Nd.prems by (simp_all add: at_ctx_step mk_def)
  then show ?case using Nd.IH fc by (subst read_tree.simps) simp
qed

lemma repr_shape: "repr s t \<Longrightarrow> rbt_shape s = t"
  using read_tree_at [of s "[]" t] repr_fill [of s "[]" t] by (simp add: rbt_shape_def repr_def)

lemma rbt_is_shape: "rbt_is s t \<Longrightarrow> rbt_shape s = t" "rbt_is s t \<Longrightarrow> rbt_view s = pairs_view (inorder t)"
  by (auto simp: rbt_is_def repr_shape rbt_view_def)

lemma rbt_ok_shape: "rbt_ok s \<longleftrightarrow> rbt_is s (rbt_shape s)"
  using rbt_is_shape by (auto simp: rbt_ok_def)

section \<open>The order of the keys\<close>

lemma dflcomp_default: "qse_rbt_dflcomp = default_comparator"
  by (intro ext) (auto simp: qse_rbt_dflcomp_def default_comparator_def Let_def)

lemma key_cmp_data:
  assumes "rbt_is s t" "item_ok (rbt_kscale s) k" "p \<in> set (inorder t)"
  shows "key_cmp s k p = 0 \<longleftrightarrow> xp_data (pr_key p) = xp_data k" "key_cmp s k p > 0 \<longleftrightarrow> xp_data (pr_key p) < xp_data k"
    "key_cmp s k p < 0 \<longleftrightarrow> xp_data k < xp_data (pr_key p)"
  using assms default_comparator_lex [of "rbt_kscale s" k "pr_key p"]
  by (auto simp: rbt_is_def pair_ok_def item_ok_def dflcomp_default)

lemma bst_keys_distinct: "bst t \<Longrightarrow> keys_distinct (inorder t)"
proof -
  assume "bst t"
  have "key_less = (\<lambda>p q. xp_data (pr_key p) < xp_data (pr_key q))" by (intro ext) (simp add: key_less_def)
  with \<open>bst t\<close> have "sorted_wrt (<) (map (\<lambda>p. xp_data (pr_key p)) (inorder t))"
    by (simp add: bst_def sorted_wrt_map)
  then show ?thesis by (simp add: keys_distinct_def strict_sorted_iff)
qed

lemma descend_view:
  assumes t: "rbt_is s t" and k: "item_ok (rbt_kscale s) k" and d: "descend (key_cmp s k) t [] = (gs, u)"
  shows "fill gs u = t" "at_ctx s gs u"
    "u = Nd c l p r \<Longrightarrow> p \<in> set (inorder t) \<and> xp_data (pr_key p) = xp_data k \<and> rbt_view s (xp_data k) = Some (xp_data (pr_val p))"
    "u = Lf \<Longrightarrow> rbt_view s (xp_data k) = None \<and> (\<forall>p \<in> set (bef gs). xp_data (pr_key p) < xp_data k) \<and>
       (\<forall>p \<in> set (aft gs). xp_data k < xp_data (pr_key p))"
proof -
  show f: "fill gs u = t" using descend_fill [OF d] by simp
  then show "at_ctx s gs u" using t repr_fill [of s gs u] by (simp add: rbt_is_def)
  have b: "bst t" using t by (simp add: rbt_is_def)
  note kd = bst_keys_distinct [OF b]
  show "p \<in> set (inorder t) \<and> xp_data (pr_key p) = xp_data k \<and> rbt_view s (xp_data k) = Some (xp_data (pr_val p))" if u: "u = Nd c l p r"
  proof -
    have p: "p \<in> set (inorder t)" using f [symmetric] u by (simp add: inorder_fill)
    have e: "xp_data (pr_key p) = xp_data k" using key_cmp_data(1) [OF t k p] descend_found [OF d [unfolded u]] by simp
    show ?thesis using p e pairs_view_member [OF kd p] rbt_is_shape(2) [OF t] by simp
  qed
  show "rbt_view s (xp_data k) = None \<and> (\<forall>p \<in> set (bef gs). xp_data (pr_key p) < xp_data k) \<and>
       (\<forall>p \<in> set (aft gs). xp_data k < xp_data (pr_key p))" if u: "u = Lf"
  proof -
    have i: "inorder t = bef gs @ aft gs" using f [symmetric] u by (simp add: inorder_fill)
    have mono: "(key_cmp s k q > 0 \<longrightarrow> key_cmp s k p > 0) \<and> (key_cmp s k p < 0 \<longrightarrow> key_cmp s k q < 0)"
      if "p \<in> set (inorder t)" "q \<in> set (inorder t)" "key_less p q" for p q
      unfolding key_cmp_data(2,3) [OF t k that(1)] key_cmp_data(2,3) [OF t k that(2)]
      using that(3) unfolding key_less_def by (auto dest: less_trans)
    have m: "(\<forall>p \<in> set (bef gs). key_cmp s k p > 0) \<and> (\<forall>p \<in> set (aft gs). key_cmp s k p < 0)"
      using mono b by (intro descend_missing [OF d [unfolded u]]) simp_all
    then have o: "(\<forall>p \<in> set (bef gs). xp_data (pr_key p) < xp_data k) \<and> (\<forall>p \<in> set (aft gs). xp_data k < xp_data (pr_key p))"
      using key_cmp_data(2,3) [OF t k] i by auto
    then have "pairs_view (inorder t) (xp_data k) = None" unfolding pairs_view_None i by auto
    then show ?thesis using o rbt_is_shape(2) [OF t] by simp
  qed
qed

text \<open>The side of the last pair passed tells how the key compares with it.\<close>

lemma descend_top:
  assumes "descend cmp t fs = (gs, u)" "fs = [] \<or> (\<exists>sd c p v fs'. fs = (sd, c, p, v) # fs' \<and> cmp p \<noteq> 0 \<and> (cmp p > 0 \<longleftrightarrow> sd = RIGHT))"
  shows "gs = [] \<or> (\<exists>sd c p v gs'. gs = (sd, c, p, v) # gs' \<and> cmp p \<noteq> 0 \<and> (cmp p > 0 \<longleftrightarrow> sd = RIGHT))"
  using assms
proof (induction t arbitrary: fs)
  case (Nd c l p r)
  consider "cmp p = 0" | "cmp p > 0" | "cmp p < 0" by linarith
  then show ?case
  proof cases
    case 1
    then show ?thesis using Nd.prems by simp
  next
    case 2
    then show ?thesis using Nd.IH(2) [of "(RIGHT, c, p, l) # fs"] Nd.prems by simp
  next
    case 3
    then show ?thesis using Nd.IH(1) [of "(LEFT, c, p, r) # fs"] Nd.prems by simp
  qed
qed auto

section \<open>Search\<close>

definition found :: "qse_rbt \<Rightarrow> addr option \<Rightarrow> qse_pair option" where
  "found s r = (case r of None \<Rightarrow> None | Some a \<Rightarrow> if a = QSE_NULL then None else Some (pair_at s a))"

lemma qse_rbt_search_view:
  assumes ok: "rbt_ok s" and k: "item_ok (rbt_kscale s) k"
  shows "qse_rbt_search s k \<noteq> None \<and> map_option (\<lambda>p. xp_data (pr_val p)) (found s (qse_rbt_search s k)) = rbt_view s (xp_data k)"
proof -
  obtain t where t: "rbt_is s t" using ok by (auto simp: rbt_ok_def)
  obtain gs u where d: "descend (key_cmp s k) t [] = (gs, u)" by (metis surj_pair)
  note v = descend_view [OF t k d]
  have r: "rbt_root s = addr_of t" "at_ctx s [] t" using t repr_fill [of s "[]" t] by (auto simp: rbt_is_def repr_def)
  have sl: "qse_rbt_search s k = Some (if u = Lf then QSE_NULL else addr_of u)"
    using search_loop_at [OF r(2) d] r(1) by (simp add: qse_rbt_search_def)
  show ?thesis
  proof (cases u)
    case Lf
    then show ?thesis using sl v(4) by (simp add: found_def)
  next
    case (Nd c l p r)
    have "at_ctx s gs (Nd c l p r)" using v(2) Nd by simp
    note at_ctx_pair [OF this] at_ctx_nonnull [OF this]
    then show ?thesis using sl v(3) [OF Nd] by (simp add: found_def Nd)
  qed
qed

section \<open>Insertion\<close>

lemma at_ctx_upd_fresh:
  assumes "at_ctx s fs t" "a \<notin> set (addrs t @ ctx_addrs fs)" "a \<noteq> XNIL"
  shows "at_ctx (upd a f s) fs t"
proof -
  have "ctx_at (rbt_heap (upd a f s)) fs (addr_of t) = ctx_at (rbt_heap s) fs (addr_of t)"
    using assms(2) by (intro ctx_at_cong) auto
  moreover have "tree_at (rbt_heap (upd a f s)) (par_of fs) t = tree_at (rbt_heap s) (par_of fs) t"
    using assms(2) by (intro tree_at_cong) auto
  ultimately show ?thesis using assms(1,3) by (auto simp: at_ctx_def nil_ok_def)
qed

text \<open>A new pair is hung under the leaf that the way down reached.\<close>

definition new_node :: "qse_rbt \<Rightarrow> qse_pair \<Rightarrow> bool" where
  "new_node s y \<longleftrightarrow> rbt_heap s (pr_addr y) =
     \<lparr>rn_key = pr_key y, rn_val = pr_val y, rn_color = RED, rn_parent = QSE_NULL, rn_child = (\<lambda>_. XNIL)\<rparr>"

lemma hang_at:
  assumes a: "at_ctx s ((sd, c, q, u) # gs) Lf" and y: "pr_addr y \<notin> set (ctx_addrs ((sd, c, q, u) # gs))" "pr_addr y \<noteq> QSE_NULL" "pr_addr y \<noteq> XNIL"
    and n: "new_node s y"
  shows "at_ctx (set_parent (pr_addr y) (pr_addr q) (set_child (pr_addr q) sd (pr_addr y) s)) ((sd, c, q, u) # gs) (Nd RED Lf y Lf)"
    (is "at_ctx ?s _ _")
proof -
  define Q where "Q = pr_addr q" define Y where "Y = pr_addr y"
  have h: "node_at (rbt_heap s) q c (par_of gs) sd XNIL (addr_of u)" "tree_at (rbt_heap s) Q u" "ctx_at (rbt_heap s) gs Q"
    "rbt_root s = root_addr gs Q" "nil_ok s" "fresh (Q # addrs u @ ctx_addrs gs)" using a by (auto simp: at_ctx_def Q_def)
  have ne: "Y \<noteq> Q" "Y \<notin> set (addrs u)" "Y \<notin> set (ctx_addrs gs)" "Q \<notin> set (addrs u)" "Q \<notin> set (ctx_addrs gs)" "Q \<noteq> XNIL"
    using y(1) h(6) by (auto simp: Q_def Y_def fresh_def)
  have hs: "rbt_heap ?s b = (if b = Y then (rbt_heap s Y)\<lparr>rn_parent := Q\<rparr>
      else if b = Q then (rbt_heap s Q)\<lparr>rn_child := (rn_child (rbt_heap s Q))(sd := Y)\<rparr> else rbt_heap s b)" for b
    using ne(1) by (simp add: set_defs Q_def Y_def)
  have o: "rbt_heap ?s b = rbt_heap s b" if "b \<noteq> Y" "b \<noteq> Q" for b using that by (simp add: hs)
  have "tree_at (rbt_heap ?s) Q u" using h(2) tree_at_cong [of u "rbt_heap ?s" "rbt_heap s" Q] o ne by metis
  moreover have "ctx_at (rbt_heap ?s) gs Q" using h(3) ctx_at_cong [of gs "rbt_heap ?s" "rbt_heap s" Q] o ne by metis
  moreover have "node_at (rbt_heap ?s) q c (par_of gs) sd Y (addr_of u)"
    using h(1) hs [of Q] ne(1) by (auto simp: node_at_def Q_def)
  moreover have "node_at (rbt_heap ?s) y RED Q LEFT XNIL XNIL"
    using n hs [of Y] by (simp add: node_at_def new_node_def Y_def)
  moreover have "nil_ok ?s" using h(5) o [of XNIL] y(3) ne(6) by (auto simp: nil_ok_def Y_def)
  moreover have "rbt_root ?s = root_addr gs Q" using h(4) by (simp add: set_defs)
  moreover have "fresh (addrs (Nd RED Lf y Lf) @ ctx_addrs ((sd, c, q, u) # gs))"
    using h(6) y ne by (auto simp: fresh_def Q_def Y_def)
  ultimately show ?thesis by (simp add: at_ctx_def Q_def Y_def)
qed

lemma attach_at:
  assumes a: "at_ctx s gs Lf" and y: "pr_addr y \<notin> set (ctx_addrs gs)" "pr_addr y \<noteq> QSE_NULL" "pr_addr y \<noteq> XNIL"
    and n: "new_node s y" and rr: "nrr_ctx gs"
    and top: "gs = [] \<or> (\<exists>sd c p v gs'. gs = (sd, c, p, v) # gs' \<and> key_cmp s k p \<noteq> 0 \<and> (key_cmp s k p > 0 \<longleftrightarrow> sd = RIGHT))"
  shows "\<exists>s'. attach s k (par_of gs) (pr_addr y) = Some s' \<and> repr s' (recolor BLACK (fix_insert gs (Nd RED Lf y Lf))) \<and>
    same_frame (s\<lparr>rbt_size := rbt_size s + 1\<rparr>) s'"
proof -
  have fin: "repr (s'\<lparr>rbt_size := m\<rparr>) t = repr s' t" for s' m t by (simp add: repr_def nil_ok_def)
  show ?thesis
  proof (cases gs rule: par_of.cases)
    case 1
    let ?s = "s\<lparr>rbt_root := pr_addr y\<rparr>"
    have r: "repr ?s (Nd RED Lf y Lf)" using a n y by (auto simp: repr_def at_ctx_def node_at_def new_node_def nil_ok_def fresh_def)
    then show ?thesis using set_root_color [OF r, of BLACK] fin
      by (auto simp: 1 attach_def same_frame_def)
  next
    case (2 sd c q u hs)
    have cmp: "key_cmp s k q \<noteq> 0" "key_cmp s k q > 0 \<longleftrightarrow> sd = RIGHT" using top 2 by auto
    have aq: "at_ctx s hs (mk sd c Lf q u)" using a by (simp add: 2 at_ctx_step)
    have q: "rn_key (rbt_heap s (pr_addr q)) = pr_key q" "pr_addr q \<noteq> QSE_NULL"
      using a at_ctx_nonnull [OF aq] by (auto simp: 2 at_ctx_def node_at_def)
    let ?s = "set_parent (pr_addr y) (pr_addr q) (set_child (pr_addr q) sd (pr_addr y) s)"
    have at: "at_ctx ?s gs (Nd RED Lf y Lf)" using hang_at [OF a [unfolded 2] y(1) [unfolded 2] y(2,3) n] by (simp add: 2)
    from adjust_at [OF this _ rr] obtain s1 where s1: "adjust ?s (pr_addr y) = Some s1" "repr s1 (fix_insert gs (Nd RED Lf y Lf))" "same_frame ?s s1"
      by auto
    have "inorder (fix_insert gs (Nd RED Lf y Lf)) \<noteq> []" using fix_insert_inorder [of "Nd RED Lf y Lf" gs] by (simp add: inorder_fill)
    then have nL: "fix_insert gs (Nd RED Lf y Lf) \<noteq> Lf" by auto
    note rc = set_root_color [OF s1(2) nL, of BLACK]
    have sd: "(if key_cmp s k q > 0 then set_child (pr_addr q) RIGHT (pr_addr y) s else set_child (pr_addr q) LEFT (pr_addr y) s) = set_child (pr_addr q) sd (pr_addr y) s"
      using cmp by (cases sd) auto
    have "attach s k (par_of gs) (pr_addr y) =
        (let s = set_color (rbt_root s1) BLACK s1 in Some (s\<lparr>rbt_size := rbt_size s + 1\<rparr>))"
      using q s1(1) sd by (simp add: attach_def 2 Let_def)
    then show ?thesis using rc s1(3) fin by (auto simp: same_frame_def set_defs Let_def)
  qed
qed

text \<open>The invariant and the map after a new pair has been put between its neighbours.\<close>

lemma bst_insert:
  assumes "bst (fill gs Lf)" "\<forall>p \<in> set (bef gs). key_less p y" "\<forall>p \<in> set (aft gs). key_less y p" "inorder t' = bef gs @ y # aft gs"
  shows "bst t'"
  using assms by (auto simp: bst_def inorder_fill sorted_wrt_append)

lemma rbt_is_add:
  assumes t: "rbt_is s t" and f: "fill gs Lf = t" and o: "\<forall>p \<in> set (bef gs). key_less p y" "\<forall>p \<in> set (aft gs). key_less y p"
    and y: "pair_ok (rbt_kscale s) (rbt_vscale s) y"
    and r: "repr s' (recolor BLACK (fix_insert gs (Nd RED Lf y Lf)))" "same_frame (s\<lparr>rbt_size := rbt_size s + 1\<rparr>) s'"
  shows "rbt_is s' (recolor BLACK (fix_insert gs (Nd RED Lf y Lf)))"
    "rbt_view s' = (rbt_view s)(xp_data (pr_key y) \<mapsto> xp_data (pr_val y))"
    "bal (rbt_shape s) \<Longrightarrow> bal (rbt_shape s')"
proof -
  let ?t = "recolor BLACK (fix_insert gs (Nd RED Lf y Lf))"
  have i: "inorder ?t = bef gs @ y # aft gs" "inorder t = bef gs @ aft gs"
    using fix_insert_inorder [of "Nd RED Lf y Lf" gs] f by (auto simp: inorder_fill)
  have b: "bst ?t" using bst_insert [OF _ o i(1)] t f by (simp add: rbt_is_def)
  have rr: "nrr_ctx gs" using t no_rr_fill [of gs Lf] f by (simp add: rbt_is_def)
  have n: "no_rr ?t" using fix_insert_no_rr [OF _ _ rr, of "Nd RED Lf y Lf"] by simp
  have c: "color_of ?t = BLACK" by (cases "fix_insert gs (Nd RED Lf y Lf)") auto
  show ri: "rbt_is s' ?t" using t b n c r y i by (auto simp: rbt_is_def same_frame_def)
  show "bal (rbt_shape s')" if "bal (rbt_shape s)"
    using that fix_insert_bal [of "Nd RED Lf y Lf" gs] rr bal_fill [of gs Lf] f rbt_is_shape(1) [OF t] rbt_is_shape(1) [OF ri] by auto
  have nn: "pairs_view (inorder t) (xp_data (pr_key y)) = None"
    unfolding pairs_view_None i(2) using o by (auto simp: key_less_def)
  have "mset (inorder ?t) = add_mset y (mset (inorder t))" using i by simp
  from pairs_view_add(2) [OF this _ nn] bst_keys_distinct [of t] t
  show "rbt_view s' = (rbt_view s)(xp_data (pr_key y) \<mapsto> xp_data (pr_val y))"
    using rbt_is_shape(2) [OF t] rbt_is_shape(2) [OF ri] by (simp add: rbt_is_def)
qed

lemma set_val_at:
  assumes a: "at_ctx s fs (Nd c l p r)"
  shows "at_ctx (upd (pr_addr p) (\<lambda>n. n\<lparr>rn_val := v\<rparr>) s) fs (Nd c l (p\<lparr>pr_val := v\<rparr>) r)" (is "at_ctx ?s _ _")
proof -
  note fc = at_ctx_facts [OF a]
  have "ctx_at (rbt_heap ?s) fs (pr_addr p) = ctx_at (rbt_heap s) fs (pr_addr p)" by (rule ctx_at_cong) (use fc(5) in auto)
  moreover have "tree_at (rbt_heap ?s) (pr_addr p) l = tree_at (rbt_heap s) (pr_addr p) l" by (rule tree_at_cong) (use fc(6) in auto)
  moreover have "tree_at (rbt_heap ?s) (pr_addr p) r = tree_at (rbt_heap s) (pr_addr p) r" by (rule tree_at_cong) (use fc(7) in auto)
  ultimately show ?thesis using a fc(8) by (auto simp: at_ctx_def node_at_def nil_ok_def)
qed

lemma sorted_replace:
  assumes "bst (fill gs (Nd c l p r))" "xp_data (pr_key p') = xp_data (pr_key p)" shows "bst (fill gs (Nd c l p' r))"
proof -
  have "key_less q p' = key_less q p" "key_less p' q = key_less p q" for q using assms(2) by (simp_all add: key_less_def)
  then show ?thesis using assms(1) by (auto simp: bst_def inorder_fill sorted_wrt_append)
qed

lemma rbt_is_replace:
  assumes t: "rbt_is s (fill gs (Nd c l p r))" and a: "at_ctx s' gs (Nd c l p' r)" "same_frame s s'"
    and k: "xp_data (pr_key p') = xp_data (pr_key p)" and p: "pair_ok (rbt_kscale s) (rbt_vscale s) p'"
  shows "rbt_is s' (fill gs (Nd c l p' r))" "rbt_view s' = (rbt_view s)(xp_data (pr_key p) \<mapsto> xp_data (pr_val p'))"
    "bal (rbt_shape s) \<Longrightarrow> bal (rbt_shape s')"
proof -
  have nr: "no_rr (fill gs (Nd c l p' r)) \<and> color_of (fill gs (Nd c l p' r)) = BLACK"
    using t no_rr_fill [of gs "Nd c l p r"] no_rr_fill [of gs "Nd c l p' r"] by (simp add: rbt_is_def)
  show i: "rbt_is s' (fill gs (Nd c l p' r))"
    using t a nr p sorted_replace [OF _ k] by (auto simp: rbt_is_def repr_fill inorder_fill same_frame_def)
  show "bal (rbt_shape s')" if "bal (rbt_shape s)"
    using that rbt_is_shape(1) [OF t] rbt_is_shape(1) [OF i] by (cases c) (auto simp: bal_fill)
  have m: "add_mset p (mset (inorder (fill gs (Nd c l p' r)))) = add_mset p' (mset (inorder (fill gs (Nd c l p r))))"
    by (simp add: inorder_fill)
  have kd: "keys_distinct (inorder (fill gs (Nd c l p r)))" using t by (intro bst_keys_distinct) (simp add: rbt_is_def)
  have "p \<in> set (inorder (fill gs (Nd c l p r)))" by (simp add: inorder_fill)
  from pairs_view_replace(2) [OF m kd this k]
  show "rbt_view s' = (rbt_view s)(xp_data (pr_key p) \<mapsto> xp_data (pr_val p'))"
    using rbt_is_shape(2) [OF t] rbt_is_shape(2) [OF i] by simp
qed

text \<open>A block for a new pair that the memory manager may answer: outside the tree.\<close>

definition rbt_block_ok :: "block \<Rightarrow> qse_rbt \<Rightarrow> bool" where
  "rbt_block_ok mm s \<longleftrightarrow> (case mm of None \<Rightarrow> True | Some (n, m) \<Rightarrow> n \<noteq> QSE_NULL \<and> n \<noteq> XNIL \<and> n \<notin> set (addrs (rbt_shape s)))"

lemma rbt_change_view:
  assumes t: "rbt_is s (fill gs (Nd c l p r))" and v: "item_ok (rbt_vscale s) v" and mm: "rbt_block_ok mm s"
    and ch: "rbt_change_pair_val mm s (pr_addr p) v = (s', res, log)"
  shows "rbt_ok s' \<and> same_frame s s' \<and> (bal (rbt_shape s) \<longrightarrow> bal (rbt_shape s')) \<and>
    ((mm = None \<and> res = None \<and> rbt_view s' = rbt_view s) \<or>
     (\<exists>p'. res = Some p' \<and> xp_data (pr_val p') = xp_data v \<and> rbt_view s' = (rbt_view s)(xp_data (pr_key p) \<mapsto> xp_data v)))"
proof -
  have a: "at_ctx s gs (Nd c l p r)" using t by (simp add: rbt_is_def repr_fill)
  note pa = at_ctx_pair [OF a]
  have st: "plain_style (rbt_style s)" and pk: "pair_ok (rbt_kscale s) (rbt_vscale s) p" using t by (auto simp: rbt_is_def inorder_fill)
  obtain q log' where c: "change_pair_val (rbt_style s) RBT_PAIR_SIZE (rbt_kscale s) (rbt_vscale s) mm p v = (q, log')" by (metis surj_pair)
  have mm': "case mm of None \<Rightarrow> True | Some (n, m) \<Rightarrow> n \<noteq> QSE_NULL" using mm by (auto simp: rbt_block_ok_def split: option.splits)
  note cp = change_pair_val_plain [OF st pk v c mm']
  note ch' = ch [unfolded rbt_change_pair_val_def pa(3) c, unfolded pa(2)]
  show ?thesis
  proof (cases q)
    case None
    then show ?thesis using cp ch' t by (auto simp: rbt_ok_def)
  next
    case (Some p')
    have p': "pair_ok (rbt_kscale s) (rbt_vscale s) p'" "xp_data (pr_key p') = xp_data (pr_key p)" "xp_data (pr_val p') = xp_data v"
      using cp Some by auto
    show ?thesis
    proof (cases "ps_vcopier (rbt_style s) = COPIER_INLINE \<and> xp_len (pr_val p) \<noteq> xp_len v")
      case True
      obtain n m where b: "mm = Some (n, m)" "n \<noteq> QSE_NULL"
      proof (cases mm)
        case None
        then show ?thesis using True c Some by (simp add: change_pair_val_def Let_def)
      qed (use mm' that in auto)
      obtain q' where q': "alloc_pair (rbt_style s) RBT_PAIR_SIZE (rbt_kscale s) (rbt_vscale s) mm (pr_key p) v = (Some q', [])" "pr_addr q' = n"
        using alloc_pair_plain [OF st _ v b, of "rbt_kscale s" "pr_key p" RBT_PAIR_SIZE] pk by (auto simp: pair_ok_def)
      then have pn: "pr_addr p' = n" using True c Some by (auto simp: change_pair_val_def Let_def)
      have sh: "rbt_shape s = fill gs (Nd c l p r)" using rbt_is_shape(1) [OF t] .
      have fy: "pr_addr p' \<notin> set (addrs (Nd c l p r) @ ctx_addrs gs)" "pr_addr p' \<noteq> QSE_NULL" "pr_addr p' \<noteq> XNIL"
        using mm pn b sh mset_eq_setD [OF mset_addrs_fill [of gs "Nd c l p r"]] by (auto simp: rbt_block_ok_def)
      let ?nd = "\<lparr>rn_key = pr_key p', rn_val = pr_val p', rn_color = RED, rn_parent = QSE_NULL, rn_child = (\<lambda>_. XNIL)\<rparr>"
      let ?s1 = "upd (pr_addr p') (\<lambda>_. ?nd) s"
      have a1: "at_ctx ?s1 gs (Nd c l p r)" using at_ctx_upd_fresh [OF a fy(1,3)] .
      have ne: "pr_addr p \<noteq> pr_addr p'" using fy(1) by auto
      note tk = take_over_at [OF a1 fy]
      have s': "s' = take_over ?s1 (pr_addr p) (rbt_heap ?s1 (pr_addr p)) (pr_addr p')" "res = Some p'"
        using ch' Some True ne by auto
      have "at_ctx s' gs (Nd c l p' r)" "same_frame s s'" using tk s' by (simp_all add: same_frame_def)
      from rbt_is_replace [OF t this p'(2,1)] show ?thesis using p'(3) s'(2) \<open>same_frame s s'\<close> by (auto simp: rbt_ok_def)
    next
      case False
      have pp: "p' = p\<lparr>pr_val := pr_val p'\<rparr>"
        using c Some False st by (auto simp: change_pair_val_def Let_def plain_style_def split: if_splits)
      have s': "s' = upd (pr_addr p) (\<lambda>n. n\<lparr>rn_val := pr_val p'\<rparr>) s" "res = Some p'"
        using ch' Some False by auto
      have "at_ctx s' gs (Nd c l p' r)" "same_frame s s'" using set_val_at [OF a, of "pr_val p'"] pp s' by (simp_all add: same_frame_def)
      from rbt_is_replace [OF t this p'(2,1)] show ?thesis using p'(3) s'(2) \<open>same_frame s s'\<close> by (auto simp: rbt_ok_def)
    qed
  qed
qed

lemma rbt_insert_view:
  assumes ok: "rbt_ok s" and k: "item_ok (rbt_kscale s) k" and v: "item_ok (rbt_vscale s) v" and mm: "rbt_block_ok mm s"
  shows "\<exists>s' r log. rbt_insert mm s k v opt = Some (s', r, log) \<and> rbt_ok s' \<and>
    rbt_kscale s' = rbt_kscale s \<and> rbt_vscale s' = rbt_vscale s \<and> (bal (rbt_shape s) \<longrightarrow> bal (rbt_shape s')) \<and>
    ((mm = None \<and> r = None \<and> rbt_view s' = rbt_view s) \<or>
     amap_insert opt (rbt_view s) (xp_data k) (xp_data v) = (rbt_view s', map_option (\<lambda>p. xp_data (pr_val p)) r))"
proof -
  obtain t where t: "rbt_is s t" using ok by (auto simp: rbt_ok_def)
  obtain gs u where d: "descend (key_cmp s k) t [] = (gs, u)" by (metis surj_pair)
  note dv = descend_view [OF t k d]
  have rt: "rbt_root s = addr_of t" "at_ctx s [] t" using t repr_fill [of s "[]" t] by (auto simp: rbt_is_def repr_def)
  have il: "insert_loop s k (rbt_root s) QSE_NULL = Some (addr_of u, par_of gs)"
    using insert_loop_at [OF rt(2) d] rt(1) by simp
  show ?thesis
  proof (cases u)
    case (Nd c l p r)
    have a: "at_ctx s gs (Nd c l p r)" using dv(2) Nd by simp
    have tt: "rbt_is s (fill gs (Nd c l p r))" using t dv(1) Nd by simp
    note f = dv(3) [OF Nd]
    have nn: "pr_addr p \<noteq> XNIL" using at_ctx_nil [OF a] by simp
    obtain s1 r1 log1 where ch: "rbt_change_pair_val mm s (pr_addr p) v = (s1, r1, log1)" by (metis prod_cases3)
    note cv = rbt_change_view [OF tt v mm ch]
    have upd: ?thesis if o: "opt = UPSERT \<or> opt = UPDATE"
    proof -
      have "rbt_insert mm s k v opt = Some (s1, r1, log1)" using il o ch nn Nd by (auto simp: rbt_insert_def)
      then show ?thesis using cv o f by (auto simp: same_frame_def amap_insert_def)
    qed
    show ?thesis
    proof (cases opt)
      case ENSERT
      then have "rbt_insert mm s k v opt = Some (s, Some p, [])" using il nn Nd at_ctx_pair(3) [OF a] by (simp add: rbt_insert_def)
      then show ?thesis using f ok ENSERT by (simp add: amap_insert_def)
    next
      case INSERT
      then have "rbt_insert mm s k v opt = Some (s, None, [])" using il nn Nd by (simp add: rbt_insert_def)
      then show ?thesis using f ok INSERT by (simp add: amap_insert_def)
    qed (use upd in auto)
  next
    case Lf
    note miss = dv(4) [OF Lf]
    show ?thesis
    proof (cases "opt = UPDATE")
      case True
      then have "rbt_insert mm s k v opt = Some (s, None, [])" using il Lf by (simp add: rbt_insert_def)
      then show ?thesis using miss ok True by (simp add: amap_insert_def)
    next
      case False
      show ?thesis
      proof (cases mm)
        case None
        then have "rbt_insert mm s k v opt = Some (s, None, [])" using il Lf False by (simp add: rbt_insert_def qse_rbt_allocpair_def)
        then show ?thesis using None ok by simp
      next
        case (Some blk)
        obtain n m where b: "mm = Some (n, m)" "n \<noteq> QSE_NULL" using Some mm by (cases blk) (auto simp: rbt_block_ok_def)
        have st: "plain_style (rbt_style s)" using t by (simp add: rbt_is_def)
        obtain y where y: "alloc_pair (rbt_style s) RBT_PAIR_SIZE (rbt_kscale s) (rbt_vscale s) mm k v = (Some y, [])"
          "pair_ok (rbt_kscale s) (rbt_vscale s) y" "xp_data (pr_key y) = xp_data k" "xp_data (pr_val y) = xp_data v" "pr_addr y = n"
          using alloc_pair_plain [OF st k v b, of RBT_PAIR_SIZE] by metis
        let ?nd = "\<lparr>rn_key = pr_key y, rn_val = pr_val y, rn_color = RED, rn_parent = QSE_NULL, rn_child = (\<lambda>_. XNIL)\<rparr>"
        let ?s1 = "upd (pr_addr y) (\<lambda>_. ?nd) s"
        have ap: "qse_rbt_allocpair s mm k v = (?s1, Some y, [])" using y(1) by (simp add: qse_rbt_allocpair_def)
        have fy: "pr_addr y \<notin> set (ctx_addrs gs)" "pr_addr y \<noteq> QSE_NULL" "pr_addr y \<noteq> XNIL"
          using mm b y(5) rbt_is_shape(1) [OF t] dv(1) [symmetric] Lf mset_eq_setD [OF mset_addrs_fill [of gs Lf]] by (auto simp: rbt_block_ok_def)
        have a1: "at_ctx ?s1 gs Lf" using at_ctx_upd_fresh [of s gs Lf "pr_addr y"] dv(2) Lf fy by simp
        have nn: "new_node ?s1 y" by (simp add: new_node_def)
        have fl: "fill gs Lf = t" using dv(1) Lf by simp
        have rr: "nrr_ctx gs" using t no_rr_fill [of gs Lf] fl by (simp add: rbt_is_def)
        have top: "gs = [] \<or> (\<exists>sd c p v gs'. gs = (sd, c, p, v) # gs' \<and> key_cmp ?s1 k p \<noteq> 0 \<and> (key_cmp ?s1 k p > 0 \<longleftrightarrow> sd = RIGHT))"
          using descend_top [OF d] by simp
        obtain s2 where s2: "attach ?s1 k (par_of gs) (pr_addr y) = Some s2"
          "repr s2 (recolor BLACK (fix_insert gs (Nd RED Lf y Lf)))" "same_frame (?s1\<lparr>rbt_size := rbt_size ?s1 + 1\<rparr>) s2"
          using attach_at [OF a1 fy nn rr top] by blast
        have o: "\<forall>p \<in> set (bef gs). key_less p y" "\<forall>p \<in> set (aft gs). key_less y p" using miss y(3) by (auto simp: key_less_def)
        have sf: "same_frame (s\<lparr>rbt_size := rbt_size s + 1\<rparr>) s2" using s2(3) by (simp add: same_frame_def)
        note ad = rbt_is_add [OF t fl o y(2) s2(2) sf]
        have "y \<in> set (inorder (recolor BLACK (fix_insert gs (Nd RED Lf y Lf))))" by (simp add: fix_insert_inorder inorder_fill)
        then obtain fs' c' l' r' where "recolor BLACK (fix_insert gs (Nd RED Lf y Lf)) = fill fs' (Nd c' l' y r')" by (rule focus)
        then have "at_ctx s2 fs' (Nd c' l' y r')" using s2(2) by (simp add: repr_fill)
        then have py: "pair_at s2 (pr_addr y) = y" by (rule at_ctx_pair(3))
        have "rbt_insert mm s k v opt = Some (s2, Some y, [])"
          using il Lf False s2(1) unfolding rbt_insert_def by (simp add: ap) (simp add: py)
        then show ?thesis using ad y(3,4) miss False sf by (auto simp: amap_insert_def same_frame_def rbt_ok_def)
      qed
    qed
  qed
qed

section \<open>Deletion\<close>

lemma rbt_is_delete:
  assumes t: "rbt_is s (fill fs (Nd c l p r))"
  shows "\<exists>s'. delete_pair s (pr_addr p) = Some (s', free_pair (rbt_style s) p) \<and> rbt_is s' (del_tree fs (Nd c l p r)) \<and>
    same_frame (s\<lparr>rbt_size := rbt_size s - 1\<rparr>) s' \<and> rbt_view s' = (rbt_view s)(xp_data (pr_key p) := None) \<and>
    inorder (rbt_shape s') = bef fs @ inorder l @ inorder r @ aft fs"
proof -
  have a: "at_ctx s fs (Nd c l p r)" using t by (simp add: rbt_is_def repr_fill)
  obtain s' where s': "delete_pair s (pr_addr p) = Some (s', free_pair (rbt_style s) p)" "repr s' (del_tree fs (Nd c l p r))"
    "same_frame (s\<lparr>rbt_size := rbt_size s - 1\<rparr>) s'" using delete_pair_at [OF a] by blast
  have fr: "fresh (addrs (fill fs (Nd c l p r)))" using t by (simp add: rbt_is_def repr_def)
  note i = del_tree_inorder [OF fresh_distinct [OF fr]]
  have b: "bst (del_tree fs (Nd c l p r))" using t unfolding rbt_is_def bst_def i inorder_fill by (auto simp: sorted_wrt_append)
  have n: "no_rr (del_tree fs (Nd c l p r)) \<and> color_of (del_tree fs (Nd c l p r)) = BLACK"
    using t by (intro del_tree_no_rr) (simp add: rbt_is_def)
  have ri: "rbt_is s' (del_tree fs (Nd c l p r))"
    using t s' b n unfolding rbt_is_def i by (auto simp: inorder_fill same_frame_def)
  have m: "add_mset p (mset (inorder (del_tree fs (Nd c l p r)))) = mset (inorder (fill fs (Nd c l p r)))" unfolding i by (simp add: inorder_fill)
  have kd: "keys_distinct (inorder (fill fs (Nd c l p r)))" using t by (intro bst_keys_distinct) (simp add: rbt_is_def)
  from pairs_view_remove(2) [OF m kd] show ?thesis
    using s' ri rbt_is_shape [OF t] rbt_is_shape [OF ri] i by auto
qed

lemma qse_rbt_delete_view:
  assumes ok: "rbt_ok s" and k: "item_ok (rbt_kscale s) k"
  shows "\<exists>s' st log. qse_rbt_delete s k = Some (s', st, log) \<and> rbt_ok s' \<and> rbt_kscale s' = rbt_kscale s \<and> rbt_vscale s' = rbt_vscale s \<and>
    amap_delete (rbt_view s) (xp_data k) = (rbt_view s', st) \<and>
    (case found s (qse_rbt_search s k) of None \<Rightarrow> s' = s \<and> log = [] | Some p \<Rightarrow> log = free_pair (rbt_style s) p)"
proof -
  obtain t where t: "rbt_is s t" using ok by (auto simp: rbt_ok_def)
  obtain gs u where d: "descend (key_cmp s k) t [] = (gs, u)" by (metis surj_pair)
  note dv = descend_view [OF t k d]
  have rt: "rbt_root s = addr_of t" "at_ctx s [] t" using t repr_fill [of s "[]" t] by (auto simp: rbt_is_def repr_def)
  have sl: "qse_rbt_search s k = Some (if u = Lf then QSE_NULL else addr_of u)"
    using search_loop_at [OF rt(2) d] rt(1) by (simp add: qse_rbt_search_def)
  show ?thesis
  proof (cases u)
    case Lf
    then show ?thesis using sl dv(4) [OF Lf] ok by (auto simp: qse_rbt_delete_def amap_delete_def found_def)
  next
    case (Nd c l p r)
    have a: "at_ctx s gs (Nd c l p r)" and tt: "rbt_is s (fill gs (Nd c l p r))" using dv(1,2) t Nd by auto
    obtain s' where s': "delete_pair s (pr_addr p) = Some (s', free_pair (rbt_style s) p)" "rbt_is s' (del_tree gs (Nd c l p r))"
      "same_frame (s\<lparr>rbt_size := rbt_size s - 1\<rparr>) s'" "rbt_view s' = (rbt_view s)(xp_data (pr_key p) := None)"
      using rbt_is_delete [OF tt] by blast
    have "qse_rbt_delete s k = Some (s', 0, free_pair (rbt_style s) p)" "found s (qse_rbt_search s k) = Some p"
      using sl Nd s'(1) at_ctx_nonnull [OF a] at_ctx_pair(3) [OF a] by (simp_all add: qse_rbt_delete_def found_def)
    moreover have "rbt_ok s'" using s'(2) by (auto simp: rbt_ok_def)
    ultimately show ?thesis using s'(3,4) dv(3) [OF Nd] by (auto simp: amap_delete_def same_frame_def)
  qed
qed

text \<open>Clearing deletes the root until none is left; the pairs are released, each once.\<close>

lemma clear_loop_at:
  assumes "rbt_is s t"
  shows "\<exists>s' ps. clear_loop s log = Some (s', log @ concat (map (free_pair (rbt_style s)) ps)) \<and> mset ps = mset (inorder t) \<and>
    rbt_is s' Lf \<and> same_frame (s\<lparr>rbt_size := 0\<rparr>) s'"
  using assms
proof (induction "length (inorder t)" arbitrary: s t log)
  case 0
  then have t: "t = Lf" by simp
  then have "rbt_root s = XNIL" "rbt_size s = 0" using 0 by (auto simp: rbt_is_def repr_def)
  then show ?case using 0 t by (subst clear_loop.simps) (auto simp: same_frame_def)
next
  case (Suc n)
  obtain c l p r where t: "t = Nd c l p r" using Suc(2) by (cases t) auto
  have ti: "rbt_is s (fill [] (Nd c l p r))" using Suc(3) t by simp
  obtain s1 where s1: "delete_pair s (pr_addr p) = Some (s1, free_pair (rbt_style s) p)" "rbt_is s1 (del_tree [] (Nd c l p r))"
    "same_frame (s\<lparr>rbt_size := rbt_size s - 1\<rparr>) s1" "inorder (rbt_shape s1) = inorder l @ inorder r"
    using rbt_is_delete [OF ti] by auto
  let ?t = "del_tree [] (Nd c l p r)"
  have i: "inorder ?t = inorder l @ inorder r" using s1(4) rbt_is_shape(1) [OF s1(2)] by simp
  have rt: "rbt_root s = pr_addr p" "pr_addr p \<noteq> XNIL" using Suc(3) t by (auto simp: rbt_is_def repr_def fresh_def)
  have "n = length (inorder ?t)" using Suc(2) t i by simp
  from Suc(1) [OF this s1(2), of "log @ free_pair (rbt_style s) p"] obtain s2 ps where s2:
    "clear_loop s1 (log @ free_pair (rbt_style s) p) = Some (s2, (log @ free_pair (rbt_style s) p) @ concat (map (free_pair (rbt_style s1)) ps))"
    "mset ps = mset (inorder ?t)" "rbt_is s2 Lf" "same_frame (s1\<lparr>rbt_size := 0\<rparr>) s2" by blast
  have st: "rbt_style s1 = rbt_style s" using s1(3) by (simp add: same_frame_def)
  have "clear_loop s log = Some (s2, log @ concat (map (free_pair (rbt_style s)) (p # ps)))"
    using rt s1(1) s2(1) st by (subst clear_loop.simps) simp
  moreover have "mset (p # ps) = mset (inorder t)" using s2(2) i t by simp
  moreover have "same_frame (s\<lparr>rbt_size := 0\<rparr>) s2" using s1(3) s2(4) by (simp add: same_frame_def)
  ultimately show ?case using s2(3) by blast
qed

section \<open>The map interface\<close>

definition rbt_ops :: "(block, qse_rbt) map_ops" where
  "rbt_ops = \<lparr>op_search = \<lambda>s k. found s (qse_rbt_search s k), op_insert = \<lambda>e s k v opt. the (rbt_insert e s k v opt),
     op_delete = \<lambda>s k. the (qse_rbt_delete s k), op_clear = \<lambda>s. the (qse_rbt_clear s)\<rparr>"

definition rbt_grant :: "block \<Rightarrow> qse_rbt \<Rightarrow> bool" where
  "rbt_grant e s \<longleftrightarrow> e \<noteq> None \<and> rbt_block_ok e s"

lemma qse_rbt_clear_view:
  assumes "rbt_ok s"
  shows "\<exists>s' ps. qse_rbt_clear s = Some (s', concat (map (free_pair (rbt_style s)) ps)) \<and> mset ps = mset (inorder (rbt_shape s)) \<and>
    rbt_ok s' \<and> rbt_kscale s' = rbt_kscale s \<and> rbt_vscale s' = rbt_vscale s \<and> rbt_view s' = Map.empty"
proof -
  have t: "rbt_is s (rbt_shape s)" using assms rbt_ok_shape by blast
  obtain s' ps where s': "clear_loop s [] = Some (s', concat (map (free_pair (rbt_style s)) ps))" "mset ps = mset (inorder (rbt_shape s))"
    "rbt_is s' Lf" "same_frame (s\<lparr>rbt_size := 0\<rparr>) s'" using clear_loop_at [OF t, of "[]"] by auto
  then show ?thesis using rbt_is_shape(2) [OF s'(3)] by (auto simp: qse_rbt_clear_def rbt_ok_def same_frame_def pairs_view_def)
qed

interpretation rbt_map: qse_map rbt_ok rbt_view rbt_kscale rbt_vscale rbt_grant rbt_ops
proof
  fix s k assume "rbt_ok s" "item_ok (rbt_kscale s) k"
  then show "map_option (\<lambda>p. xp_data (pr_val p)) (op_search rbt_ops s k) = rbt_view s (xp_data k)"
    using qse_rbt_search_view [of s k] by (simp add: rbt_ops_def)
next
  fix s e k v opt s' r log
  assume a: "rbt_ok s" "rbt_grant e s" "item_ok (rbt_kscale s) k" "item_ok (rbt_vscale s) v" "op_insert rbt_ops e s k v opt = (s', r, log)"
  have "rbt_block_ok e s" "e \<noteq> None" using a(2) by (auto simp: rbt_grant_def)
  then show "rbt_ok s' \<and> rbt_kscale s' = rbt_kscale s \<and> rbt_vscale s' = rbt_vscale s \<and>
      amap_insert opt (rbt_view s) (xp_data k) (xp_data v) = (rbt_view s', map_option (\<lambda>p. xp_data (pr_val p)) r)"
    using rbt_insert_view [OF a(1,3,4), of e opt] a(5) by (auto simp: rbt_ops_def)
next
  fix s k s' st log
  assume a: "rbt_ok s" "item_ok (rbt_kscale s) k" "op_delete rbt_ops s k = (s', st, log)"
  then show "rbt_ok s' \<and> rbt_kscale s' = rbt_kscale s \<and> rbt_vscale s' = rbt_vscale s \<and> amap_delete (rbt_view s) (xp_data k) = (rbt_view s', st)"
    using qse_rbt_delete_view [OF a(1,2)] by (auto simp: rbt_ops_def)
next
  fix s s' log assume a: "rbt_ok s" "op_clear rbt_ops s = (s', log)"
  then show "rbt_ok s' \<and> rbt_kscale s' = rbt_kscale s \<and> rbt_vscale s' = rbt_vscale s \<and> rbt_view s' = Map.empty"
    using qse_rbt_clear_view [OF a(1)] by (auto simp: rbt_ops_def)
qed

lemma qse_rbt_init_ok:
  "rbt_is (qse_rbt_init h ks vs) Lf" "rbt_view (qse_rbt_init h ks vs) = Map.empty"
  "rbt_kscale (qse_rbt_init h ks vs) = byte_scale ks" "rbt_vscale (qse_rbt_init h ks vs) = byte_scale vs"
proof -
  show i: "rbt_is (qse_rbt_init h ks vs) Lf"
    by (simp add: rbt_is_def repr_def qse_rbt_init_def fresh_def nil_ok_def bst_def plain_get_style zero_node_def Let_def)
  show "rbt_view (qse_rbt_init h ks vs) = Map.empty" using rbt_is_shape(2) [OF i] by (simp add: pairs_view_def)
  show "rbt_kscale (qse_rbt_init h ks vs) = byte_scale ks" "rbt_vscale (qse_rbt_init h ks vs) = byte_scale vs"
    by (auto simp: qse_rbt_init_def)
qed

section \<open>Walking\<close>

definition visit :: "side \<Rightarrow> rtree \<Rightarrow> qse_pair list" where
  "visit l t = (if l = LEFT then inorder t else rev (inorder t))"

lemma visit_simps [simp]: "visit l Lf = []" "visit l (mk l c a p b) = visit l a @ p # visit l b"
  by (simp_all add: visit_def inorder_mk)

lemma par_of_fresh: "at_ctx s fs t \<Longrightarrow> a \<in> set (addrs t) \<Longrightarrow> a \<noteq> par_of fs"
  using par_of_in [of fs] by (cases "fs = []") (auto simp: at_ctx_def fresh_def)

lemma walk_at:
  assumes "at_ctx s fs t" "t \<noteq> Lf"
  shows "rbt_walk_loop s w l (opp l) (addr_of t) (par_of fs) st =
    (let (st', go) = walk_chain w (visit l t) st in if go then rbt_walk_loop s w l (opp l) (par_of fs) (addr_of t) st' else Some st')"
  using assms
proof (induction "length (inorder t)" arbitrary: t fs st rule: less_induct)
  case less
  obtain c a p b where t: "t = mk l c a p b" using mk_exhaust [OF less(3)] by metis
  define P where "P = pr_addr p" define F where "F = par_of fs"
  have at: "at_ctx s fs (mk l c a p b)" using less(2) t by simp
  have al: "at_ctx s ((l, c, p, b) # fs) a" and ab: "at_ctx s ((opp l, c, p, a) # fs) b"
    using at by (simp_all add: at_ctx_step mk_opp)
  have P: "P \<noteq> QSE_NULL" "P \<noteq> XNIL" using at_ctx_nonnull [OF at] at_ctx_nil [OF at] by (simp_all add: P_def)
  have rd: "child_at s P l = addr_of a" "child_at s P (opp l) = addr_of b" "parent_at s P = F"
    using at_ctx_child [OF at, of l] at_ctx_child [OF at, of "opp l"] at_ctx_parent [OF at] by (simp_all add: P_def F_def)
  have "at_ctx s fs (Nd c a p b) \<or> at_ctx s fs (Nd c b p a)" using at by (simp add: mk_def split: if_splits)
  then have pr: "pair_at s P = p" using at_ctx_pair(3) unfolding P_def by blast
  have na: "addr_of a = XNIL \<longleftrightarrow> a = Lf" "addr_of b = XNIL \<longleftrightarrow> b = Lf" using at_ctx_nil [OF al] at_ctx_nil [OF ab] by simp_all
  have up: "addr_of a \<noteq> F" if "a \<noteq> Lf" using par_of_fresh [OF at, of "addr_of a"] addr_of_in [OF that] by (simp add: F_def)
  have up2: "addr_of b \<noteq> F" "addr_of b \<noteq> addr_of a" if "b \<noteq> Lf"
    using par_of_fresh [OF at, of "addr_of b"] addr_of_in [OF that] at_ctx_siblings [of s fs "opp l" c b p a] at that by (simp_all add: F_def mk_opp)
  have sz: "length (inorder a) < length (inorder t)" "length (inorder b) < length (inorder t)" by (auto simp: t inorder_mk)
  have tP: "addr_of t = P" "visit l t = visit l a @ p # visit l b" by (simp_all add: t P_def)
  let ?L = "rbt_walk_loop s w l (opp l)"
  have aft_node: "(let (st', go) = w st p in if \<not> go then Some st' else if \<not> IS_NIL (addr_of b) then ?L (addr_of b) P st' else ?L F P st') =
      (let (st', go) = walk_chain w (p # visit l b) st in if go then ?L F P st' else Some st')" for st
  proof (cases "b = Lf")
    case True
    then show ?thesis by (auto split: prod.splits)
  next
    case False
    have "?L (addr_of b) P st' = (let (st2, go) = walk_chain w (visit l b) st' in if go then ?L P (addr_of b) st2 else Some st2)" for st'
      using less(1) [OF sz(2) ab False, of st'] unfolding par_of.simps P_def .
    moreover have "?L P (addr_of b) st2 = ?L F P st2" for st2
      using P up2 [OF False] rd by (subst rbt_walk_loop.simps) (simp add: eq_commute)
    ultimately show ?thesis using False na(2) by (auto split: prod.splits)
  qed
  show ?case
  proof (cases "a = Lf")
    case True
    have "?L P F st = (let (st', go) = w st p in if \<not> go then Some st' else if \<not> IS_NIL (addr_of b) then ?L (addr_of b) P st' else ?L F P st')"
      using P rd pr True by (subst rbt_walk_loop.simps) (simp split: prod.splits)
    then show ?thesis unfolding tP F_def [symmetric] aft_node using True by simp
  next
    case False
    have "?L P F st = ?L (addr_of a) P st" using P rd False na(1) by (subst rbt_walk_loop.simps) simp
    also have "\<dots> = (let (st', go) = walk_chain w (visit l a) st in if go then ?L P (addr_of a) st' else Some st')"
      using less(1) [OF sz(1) al False, of st] unfolding par_of.simps P_def .
    finally have 1: "?L P F st = (let (st', go) = walk_chain w (visit l a) st in if go then ?L P (addr_of a) st' else Some st')" .
    have 2: "?L P (addr_of a) st' = (let (st', go) = w st' p in if \<not> go then Some st' else if \<not> IS_NIL (addr_of b) then ?L (addr_of b) P st' else ?L F P st')" for st'
      using P rd pr up [OF False] by (subst rbt_walk_loop.simps) (simp split: prod.splits)
    have "?L P F st = (let (st', go) = walk_chain w (visit l a @ p # visit l b) st in if go then ?L F P st' else Some st')"
      unfolding 1 2 aft_node walk_chain_append by (auto split: prod.splits)
    then show ?thesis unfolding tP F_def [symmetric] .
  qed
qed

lemma rbt_walk_at:
  assumes "rbt_ok s"
  shows "rbt_walk s w st l (opp l) = Some (fst (walk_chain w (visit l (rbt_shape s)) st))"
proof -
  have r: "repr s (rbt_shape s)" using assms by (simp add: rbt_ok_shape rbt_is_def)
  then have a: "at_ctx s [] (rbt_shape s)" "rbt_root s = addr_of (rbt_shape s)" using repr_fill [of s "[]" "rbt_shape s"] by (simp_all add: repr_def)
  have z: "rbt_walk_loop s w l (opp l) QSE_NULL x st' = Some st'" for x st' by (subst rbt_walk_loop.simps) simp
  show ?thesis
  proof (cases "rbt_shape s = Lf")
    case True
    then show ?thesis using a by (simp add: rbt_walk_def) (subst rbt_walk_loop.simps, simp)
  next
    case False
    then show ?thesis using walk_at [OF a(1) False, of w l st] at_ctx_parent [OF a(1) False] a(2) z
      by (auto simp: rbt_walk_def split: prod.splits)
  qed
qed

section \<open>Heights\<close>

fun height :: "rtree \<Rightarrow> nat" where
  "height Lf = 0"
| "height (Nd c l p r) = Suc (max (height l) (height r))"

lemma height_bh: "no_rr t \<Longrightarrow> bal t \<Longrightarrow> height t \<le> 2 * bh t + (if color_of t = RED then 1 else 0)"
  by (induction t) (auto simp: color_cases split: if_splits)

lemma bh_size: "bal t \<Longrightarrow> 2 ^ bh t \<le> length (inorder t) + 1"
proof (induction t)
  case (Nd c l p r)
  then have "2 ^ bh l \<le> length (inorder l) + 1" "2 ^ bh l \<le> length (inorder r) + 1" by auto
  then show ?case by (cases c) auto
qed simp

lemma height_size:
  assumes "no_rr t" "bal t" "color_of t = BLACK" shows "2 ^ height t \<le> (length (inorder t) + 1)\<^sup>2"
proof -
  have "(2 :: nat) ^ height t \<le> 2 ^ (2 * bh t)" using height_bh [OF assms(1,2)] assms(3) by (intro power_increasing) auto
  also have "\<dots> = (2 ^ bh t)\<^sup>2" by (simp add: power_mult power2_eq_square power_mult_distrib power_add [symmetric] mult_2)
  also have "\<dots> \<le> (length (inorder t) + 1)\<^sup>2" using bh_size [OF assms(2)] by (intro power_mono) auto
  finally show ?thesis .
qed

section \<open>Properties of the red-black tree\<close>

text \<open>
  C1. The red-black tree is a map. From a new tree, the results of any sequence of insertions (with each of the
  four options), searches, deletions and clearings are those of the abstract map on the bytes of keys and values, and the tree
  reached is consistent and represents the abstract map reached: its linked pairs form a search tree with a black root
  in which no red pair has a red child. The memory manager is taken to answer with blocks outside the tree.
\<close>

theorem qse_rbt_runs_as_map:
  assumes "granted rbt_ops rbt_grant cs (qse_rbt_init h ks vs)"
    "\<forall>c \<in> set cs. cmd_ok (byte_scale ks) (byte_scale vs) (snd c)"
  shows "rbt_ok (fst (map_run rbt_ops cs (qse_rbt_init h ks vs))) \<and>
    amap_run (map snd cs) Map.empty =
      (rbt_view (fst (map_run rbt_ops cs (qse_rbt_init h ks vs))), snd (map_run rbt_ops cs (qse_rbt_init h ks vs)))"
proof -
  have ok: "rbt_ok (qse_rbt_init h ks vs)" using qse_rbt_init_ok(1) by (auto simp: rbt_ok_def)
  show ?thesis using rbt_map.run_refines [OF ok assms(1)] assms(2) by (simp add: qse_rbt_init_ok(2-4))
qed

lemma shape_init: "rbt_shape (qse_rbt_init h ks vs) = Lf"
  using rbt_is_shape(1) [OF qse_rbt_init_ok(1)] .

theorem qse_rbt_runs_as_map_witness:
  "snd (map_run rbt_ops [(Some (100, \<lambda>_. 0), Ins INSERT (bytes_item 10 [1]) (bytes_item 20 [2])), (Some (200, \<lambda>_. 0), Search (bytes_item 10 [1]))]
     (qse_rbt_init (\<lambda>_. zero_node) 1 1)) = [Value (Some [2]), Value (Some [2])]"
proof -
  let ?s = "qse_rbt_init (\<lambda>_. zero_node) 1 1"
  let ?c1 = "(Some (100, \<lambda>_. 0), Ins INSERT (bytes_item 10 [1]) (bytes_item 20 [2])) :: block \<times> map_cmd"
  let ?c2 = "(Some (200, \<lambda>_. 0), Search (bytes_item 10 [1])) :: block \<times> map_cmd"
  have "rbt_grant (fst ?c1) ?s" by (simp add: rbt_grant_def rbt_block_ok_def shape_init QSE_NULL_def XNIL_def)
  moreover have "addrs (rbt_shape (fst (map_step rbt_ops ?c1 ?s))) = [100]"
    by (simp add: rbt_ops_def rbt_insert_def qse_rbt_init_def insert_loop.simps XNIL_def QSE_NULL_def qse_rbt_allocpair_def
        alloc_pair_def alloc_key_def get_style_def attach_def upd_def set_color_def Let_def rbt_shape_def read_tree.simps addrs_def)
  then have "rbt_grant (fst ?c2) (fst (map_step rbt_ops ?c1 ?s))" by (simp add: rbt_grant_def rbt_block_ok_def QSE_NULL_def XNIL_def)
  ultimately have g: "granted rbt_ops rbt_grant [?c1, ?c2] ?s" by simp
  have "\<forall>c \<in> set [?c1, ?c2]. cmd_ok (byte_scale 1) (byte_scale 1) (snd c)" by (simp add: QSE_NULL_def)
  from qse_rbt_runs_as_map [OF g this] show ?thesis by (simp add: amap_insert_def bytes_item_def)
qed

text \<open>
  C38. No operation on a consistent tree runs forever: search, insertion, deletion, clearing and both walks
  return, whatever the memory manager answers with blocks outside the tree, and after a failed insertion the tree is consistent and
  unchanged as a map.
\<close>

theorem qse_rbt_operations_return:
  assumes "rbt_ok s" "item_ok (rbt_kscale s) k" "item_ok (rbt_vscale s) v" "rbt_block_ok mm s"
  shows "qse_rbt_search s k \<noteq> None \<and> qse_rbt_delete s k \<noteq> None \<and> qse_rbt_clear s \<noteq> None \<and>
    qse_rbt_walk s walker ctx \<noteq> None \<and> qse_rbt_rwalk s walker ctx \<noteq> None \<and>
    (\<exists>s' r log. rbt_insert mm s k v opt = Some (s', r, log) \<and> rbt_ok s' \<and>
       (rbt_view s (xp_data k) = None \<and> r = None \<longrightarrow> rbt_view s' = rbt_view s))"
proof -
  obtain s' r log where i: "rbt_insert mm s k v opt = Some (s', r, log)" "rbt_ok s'"
    "(mm = None \<and> r = None \<and> rbt_view s' = rbt_view s) \<or>
     amap_insert opt (rbt_view s) (xp_data k) (xp_data v) = (rbt_view s', map_option (\<lambda>p. xp_data (pr_val p)) r)"
    using rbt_insert_view [OF assms, of opt] by blast
  then have "rbt_view s (xp_data k) = None \<and> r = None \<longrightarrow> rbt_view s' = rbt_view s"
    by (auto simp: amap_insert_def split: if_splits)
  then show ?thesis using i qse_rbt_search_view [OF assms(1,2)] qse_rbt_delete_view [OF assms(1,2)] qse_rbt_clear_view [OF assms(1)]
      rbt_walk_at [OF assms(1), of walker ctx LEFT] rbt_walk_at [OF assms(1), of walker ctx RIGHT]
    by (auto simp: qse_rbt_walk_def qse_rbt_rwalk_def)
qed

theorem qse_rbt_operations_return_witness:
  "qse_rbt_delete (qse_rbt_init (\<lambda>_. zero_node) 1 1) (bytes_item 10 [1]) \<noteq> None"
proof -
  let ?s = "qse_rbt_init (\<lambda>_. zero_node) 1 1"
  have ok: "rbt_ok ?s" using qse_rbt_init_ok(1) by (auto simp: rbt_ok_def)
  have i: "item_ok (rbt_kscale ?s) (bytes_item 10 [1])" "item_ok (rbt_vscale ?s) (bytes_item 20 [2])" "rbt_block_ok None ?s"
    by (simp_all add: qse_rbt_init_ok(3,4) QSE_NULL_def rbt_block_ok_def)
  show ?thesis using qse_rbt_operations_return [OF ok i, of "\<lambda>n p. (n :: nat, True)" 0 INSERT] by simp
qed

text \<open>
  C25. Insertion keeps a balanced tree balanced: if every path from the root to a leaf passes equally many
  black pairs, this holds after an insertion too, so that the height stays within twice the logarithm of the size.
\<close>

theorem rbt_insert_balanced:
  assumes "rbt_ok s" "bal (rbt_shape s)" "item_ok (rbt_kscale s) k" "item_ok (rbt_vscale s) v" "rbt_block_ok mm s"
  shows "\<exists>s' r log. rbt_insert mm s k v opt = Some (s', r, log) \<and> bal (rbt_shape s') \<and> no_rr (rbt_shape s') \<and>
    color_of (rbt_shape s') = BLACK \<and> 2 ^ height (rbt_shape s') \<le> (rbt_size s' + 1)\<^sup>2"
proof -
  obtain s' r log where i: "rbt_insert mm s k v opt = Some (s', r, log)" "rbt_ok s'" "bal (rbt_shape s')"
    using rbt_insert_view [OF assms(1,3,4,5), of opt] assms(2) by blast
  have t: "no_rr (rbt_shape s')" "color_of (rbt_shape s') = BLACK" "rbt_size s' = length (inorder (rbt_shape s'))"
    using i(2) by (auto simp: rbt_ok_shape rbt_is_def)
  then show ?thesis using i height_size [OF t(1) i(3) t(2)] by auto
qed

theorem rbt_insert_balanced_witness:
  "\<exists>s' r log. rbt_insert (Some (100, \<lambda>_. 0)) (qse_rbt_init (\<lambda>_. zero_node) 1 1) (bytes_item 10 [1]) (bytes_item 20 [2]) UPSERT = Some (s', r, log) \<and>
     bal (rbt_shape s')"
proof -
  let ?s = "qse_rbt_init (\<lambda>_. zero_node) 1 1"
  have "rbt_ok ?s" "bal (rbt_shape ?s)" using qse_rbt_init_ok(1) by (auto simp: rbt_ok_def shape_init)
  moreover have "item_ok (rbt_kscale ?s) (bytes_item 10 [1])" "item_ok (rbt_vscale ?s) (bytes_item 20 [2])" "rbt_block_ok (Some (100, \<lambda>_. 0)) ?s"
    by (simp_all add: qse_rbt_init_ok(3,4) QSE_NULL_def rbt_block_ok_def shape_init XNIL_def)
  ultimately show ?thesis using rbt_insert_balanced [of ?s] by blast
qed

text \<open>
  Deleting a black pair without children unbalances a balanced tree: the repair is only called when
  the pair that moves up is not nil, so that one side of the tree is left with fewer black pairs than the other.
\<close>

theorem qse_rbt_delete_unbalances:
  assumes "rbt_ok s" "bal (rbt_shape s)" "rbt_shape s = fill gs (Nd BLACK Lf p Lf)" "gs \<noteq> []"
  shows "\<exists>s'. delete_pair s (pr_addr p) = Some (s', free_pair (rbt_style s) p) \<and> rbt_ok s' \<and> \<not> bal (rbt_shape s')"
proof -
  have t: "rbt_is s (fill gs (Nd BLACK Lf p Lf))" using assms(1,3) by (simp add: rbt_ok_shape)
  obtain s' where s': "delete_pair s (pr_addr p) = Some (s', free_pair (rbt_style s) p)" "rbt_is s' (del_tree gs (Nd BLACK Lf p Lf))"
    using rbt_is_delete [OF t] by blast
  have "rbt_shape s' = fill gs Lf" using rbt_is_shape(1) [OF s'(2)] by (simp add: unlink_def)
  moreover have "bal_ctx 1 gs" using assms(2,3) by (simp add: bal_fill)
  then have "\<not> bal_ctx 0 gs" using assms(4) by (cases gs rule: par_of.cases) auto
  ultimately show ?thesis using s' by (auto simp: bal_fill rbt_ok_def)
qed

definition three_black :: qse_rbt where
  "three_black = (let nd = (\<lambda>b par l r. \<lparr>rn_key = bytes_item 10 [b], rn_val = bytes_item 20 [b], rn_color = BLACK, rn_parent = par,
       rn_child = (\<lambda>sd. if sd = LEFT then l else r)\<rparr>); s = qse_rbt_init (\<lambda>_. zero_node) 1 1
     in s\<lparr>rbt_size := 3, rbt_root := 200,
          rbt_heap := (rbt_heap s)(100 := nd 1 200 XNIL XNIL, 200 := nd 2 QSE_NULL 100 300, 300 := nd 3 200 XNIL XNIL)\<rparr>)"

definition three_pair :: "addr \<Rightarrow> byte \<Rightarrow> qse_pair" where
  "three_pair a b = \<lparr>pr_addr = a, pr_key = bytes_item 10 [b], pr_val = bytes_item 20 [b]\<rparr>"

lemma three_black_is:
  "rbt_is three_black (Nd BLACK (Nd BLACK Lf (three_pair 100 1) Lf) (three_pair 200 2) (Nd BLACK Lf (three_pair 300 3) Lf))"
  by (simp add: rbt_is_def repr_def three_black_def three_pair_def Let_def qse_rbt_init_def fresh_def nil_ok_def node_at_def XNIL_def QSE_NULL_def
      bst_def key_less_def bytes_item_def pair_ok_def item_ok_def xptl_wf_def TOB_def plain_get_style zero_node_def)

theorem qse_rbt_delete_unbalances_witness:
  "\<exists>s'. delete_pair three_black 100 = Some (s', []) \<and> \<not> bal (rbt_shape s')"
proof -
  let ?gs = "[(LEFT, BLACK, three_pair 200 2, Nd BLACK Lf (three_pair 300 3) Lf)]"
  have sh: "rbt_shape three_black = fill ?gs (Nd BLACK Lf (three_pair 100 1) Lf)" using rbt_is_shape(1) [OF three_black_is] by (simp add: mk_def)
  have ok: "rbt_ok three_black" using three_black_is by (auto simp: rbt_ok_def)
  have "bal (rbt_shape three_black)" unfolding sh by (simp add: mk_def)
  from qse_rbt_delete_unbalances [OF ok this sh] show ?thesis
    by (auto simp: three_pair_def free_pair_def three_black_def Let_def qse_rbt_init_def get_style_def)
qed

text \<open>
  C39. \<open>qse_rbt_walk\<close> calls the walker on the pairs in strictly ascending order of their keys until it stops, and
  \<open>qse_rbt_rwalk\<close> in descending order; the pairs are those of the map, as many as the size says.
\<close>

theorem qse_rbt_walk_sorted:
  assumes "rbt_ok s"
  shows "\<exists>ps. qse_rbt_walk s walker ctx = Some (fst (walk_chain walker ps ctx)) \<and>
    qse_rbt_rwalk s walker ctx = Some (fst (walk_chain walker (rev ps) ctx)) \<and>
    sorted_wrt (\<lambda>p q. xp_data (pr_key p) < xp_data (pr_key q)) ps \<and> length ps = rbt_size s \<and>
    rbt_view s = map_of (map entry ps)"
proof -
  have t: "rbt_is s (rbt_shape s)" using assms rbt_ok_shape by blast
  have "key_less = (\<lambda>p q. xp_data (pr_key p) < xp_data (pr_key q))" by (intro ext) (simp add: key_less_def)
  then have "sorted_wrt (\<lambda>p q. xp_data (pr_key p) < xp_data (pr_key q)) (inorder (rbt_shape s))"
    using t by (simp add: rbt_is_def bst_def)
  then show ?thesis using t rbt_walk_at [OF assms, of walker ctx LEFT] rbt_walk_at [OF assms, of walker ctx RIGHT]
    by (intro exI [of _ "inorder (rbt_shape s)"])
      (simp add: qse_rbt_walk_def qse_rbt_rwalk_def visit_def rbt_is_def rbt_view_def pairs_view_def)
qed

theorem qse_rbt_walk_sorted_witness:
  "\<exists>ps. qse_rbt_walk three_black (\<lambda>n p. (n + 1, True)) 0 = Some (fst (walk_chain (\<lambda>n p. (n + (1 :: nat), True)) ps 0)) \<and> length ps = 3"
proof -
  have ok: "rbt_ok three_black" using three_black_is by (auto simp: rbt_ok_def)
  have "rbt_size three_black = 3" by (simp add: three_black_def Let_def)
  then show ?thesis using qse_rbt_walk_sorted [OF ok, of "\<lambda>n p. (n + (1 :: nat), True)" 0] by auto
qed

end
