(* ===== verification/Qse_Base64.thy ===== *)
theory Qse_Base64
  imports Qse_Prelude
begin

text \<open>
  Base64 (\<open>src/lib/cmn/alg-base64.c\<close>). Input and output are byte sequences; the output is what has been written to the buffer so far, \<open>idx\<close> its
  length, and the loops, which advance over the input by groups, recurse on what is left of it.
\<close>

definition ENC :: "byte \<Rightarrow> byte" where
  "ENC x = (if x < 26 then 65 + x else if x < 52 then 97 + (x - 26) else if x < 62 then 48 + (x - 52) else if x = 62 then 43 else 47)"

definition DEC :: "byte \<Rightarrow> byte" where
  "DEC x = (if x \<ge> 65 \<and> x \<le> 90 then x - 65 else if x \<ge> 97 \<and> x \<le> 122 then x - 97 + 26
     else if x \<ge> 48 \<and> x \<le> 57 then x - 48 + 52 else if x = 43 then 62 else 63)"

text \<open>Three bytes are cut into four values of six bits, and joined again.\<close>

definition sextet1 :: "byte \<Rightarrow> byte" where
  "sextet1 b1 = drop_bit 2 b1"
definition sextet2 :: "byte \<Rightarrow> byte \<Rightarrow> byte" where
  "sextet2 b1 b2 = push_bit 4 (b1 AND 0x03) OR drop_bit 4 b2"
definition sextet3 :: "byte \<Rightarrow> byte \<Rightarrow> byte" where
  "sextet3 b2 b3 = push_bit 2 (b2 AND 0x0F) OR drop_bit 6 b3"
definition sextet4 :: "byte \<Rightarrow> byte" where
  "sextet4 b3 = b3 AND 0x3F"

definition octet1 :: "byte \<Rightarrow> byte \<Rightarrow> byte" where
  "octet1 b1 b2 = push_bit 2 b1 OR drop_bit 4 b2"
definition octet2 :: "byte \<Rightarrow> byte \<Rightarrow> byte" where
  "octet2 b2 b3 = push_bit 4 (b2 AND 0x0F) OR drop_bit 2 b3"
definition octet3 :: "byte \<Rightarrow> byte \<Rightarrow> byte" where
  "octet3 b3 b4 = push_bit 6 (b3 AND 0x03) OR b4"

definition enc_group :: "byte list \<Rightarrow> byte list" where
  "enc_group ib =
     (let b1 = ib ! 0;
          b2 = (if 1 < length ib then ib ! 1 else 0);
          b3 = (if 2 < length ib then ib ! 2 else 0);
          c1 = sextet1 b1; c2 = sextet2 b1 b2; c3 = sextet3 b2 b3; c4 = sextet4 b3
      in [ENC c1, ENC c2, if 1 < length ib then ENC c3 else 61, if 2 < length ib then ENC c4 else 61])"

function enbase64_loop :: "byte list \<Rightarrow> nat \<Rightarrow> byte list \<Rightarrow> nat \<Rightarrow> byte list \<times> nat" where
  "enbase64_loop ib osz out idx2 =
     (if ib = [] then (out, idx2)
      else enbase64_loop (drop 3 ib) osz (if length out + 3 < osz then out @ enc_group ib else out) (idx2 + 4))"
  by pat_completeness auto
termination by (relation "measure (\<lambda>(ib, osz, out, idx2). length ib)") auto

definition qse_enbase64 :: "byte list \<Rightarrow> nat \<Rightarrow> byte list \<times> nat" where
  "qse_enbase64 ib osz = enbase64_loop ib osz [] 0"

definition put :: "nat \<Rightarrow> byte \<Rightarrow> byte list \<Rightarrow> byte list" where
  "put osz b out = (if length out < osz then out @ [b] else out)"

function debase64_loop :: "byte list \<Rightarrow> nat \<Rightarrow> byte list \<Rightarrow> nat \<Rightarrow> byte list \<times> nat" where
  "debase64_loop inb osz out idx2 =
     (if inb = [] then (out, idx2)
      else
        (let c1 = inb ! 0;
             c2 = (if 1 < length inb then inb ! 1 else 65);
             c3 = (if 2 < length inb then inb ! 2 else 65);
             c4 = (if 3 < length inb then inb ! 3 else 65);
             b1 = DEC c1; b2 = DEC c2; b3 = DEC c3; b4 = DEC c4;
             out = put osz (octet1 b1 b2) out; idx2 = idx2 + 1;
             (out, idx2) = (if c3 \<noteq> 61 then (put osz (octet2 b2 b3) out, idx2 + 1) else (out, idx2));
             (out, idx2) = (if c4 \<noteq> 61 then (put osz (octet3 b3 b4) out, idx2 + 1) else (out, idx2))
         in debase64_loop (drop 4 inb) osz out idx2))"
  by pat_completeness auto
termination by (relation "measure (\<lambda>(ib, osz, out, idx2). length ib)") auto

definition qse_debase64 :: "byte list \<Rightarrow> nat \<Rightarrow> byte list \<times> nat" where
  "qse_debase64 inb osz = debase64_loop inb osz [] 0"

declare enbase64_loop.simps [simp del] debase64_loop.simps [simp del]

section \<open>One group\<close>

lemma DEC_ENC_all: "\<forall>n < 64. DEC (ENC (of_nat n)) = of_nat n \<and> ENC (of_nat n) \<noteq> 61"
proof -
  have "list_all (\<lambda>n. DEC (ENC (of_nat n)) = of_nat n \<and> ENC (of_nat n) \<noteq> 61) [0..<64]"
    by code_simp
  then show ?thesis by (simp add: list_all_iff)
qed

lemma DEC_ENC:
  assumes "x < 64" shows "DEC (ENC x) = x" "ENC x \<noteq> 61"
proof -
  have "unat x < 64" using assms by (simp add: word_less_nat_alt)
  then show "DEC (ENC x) = x" "ENC x \<noteq> 61" using DEC_ENC_all [rule_format, of "unat x"] by simp_all
qed

lemma small_sextet: "sextet1 b1 < 64" "sextet2 b1 b2 < 64" "sextet3 b2 b3 < 64" "sextet4 b3 < 64"
proof -
  have lt: "x < 64" if "take_bit 6 x = x" for x :: byte
  proof -
    have "unat x = unat x mod 64" using arg_cong [OF that, of unat] by (simp add: take_bit_eq_mod unat_mod)
    then have "unat x < 64" by (metis mod_less_divisor zero_less_numeral)
    then show ?thesis by (simp add: word_less_nat_alt)
  qed
  show "sextet1 b1 < 64" "sextet2 b1 b2 < 64" "sextet3 b2 b3 < 64" "sextet4 b3 < 64"
    by (rule lt; rule byte_eqI; auto simp: sextet1_def sextet2_def sextet3_def sextet4_def lt8 bit_simps dest: bit_imp_le_length)+
qed

lemma sextets_join:
  "octet1 (sextet1 b1) (sextet2 b1 b2) = b1" "octet2 (sextet2 b1 b2) (sextet3 b2 b3) = b2" "octet3 (sextet3 b2 b3) (sextet4 b3) = b3"
  by (rule byte_eqI; auto simp: sextet1_def sextet2_def sextet3_def sextet4_def octet1_def octet2_def octet3_def lt8 bit_simps;
      simp add: numeral_2_eq_2 numeral_3_eq_3)+

section \<open>Round trip and bounds\<close>

lemma enc_group_length: "length (enc_group ib) = 4"
  by (simp add: enc_group_def Let_def)

text \<open>The encoded text without a limit of space.\<close>

function enc_text :: "byte list \<Rightarrow> byte list" where
  "enc_text ib = (if ib = [] then [] else enc_group ib @ enc_text (drop 3 ib))"
  by pat_completeness auto
termination by (relation "measure length") auto

declare enc_text.simps [simp del]

lemma enc_text_simps [simp]: "enc_text [] = []" "enc_text (b # bs) = enc_group (b # bs) @ enc_text (drop 2 bs)"
  by (simp_all add: enc_text.simps [of "[]"] enc_text.simps [of "b # bs"])

lemma enc_text_length: "length (enc_text ib) = 4 * ((length ib + 2) div 3)"
proof (induction ib rule: enc_text.induct)
  case (1 ib)
  then show ?case by (cases ib) (auto simp: enc_group_length div_if [of _ 3] split: if_splits)
qed

lemma enbase64_loop_spec:
  "enbase64_loop ib osz out idx2 =
     (out @ take (4 * ((osz - length out) div 4)) (enc_text ib), idx2 + length (enc_text ib))"
proof (induction ib osz out idx2 rule: enbase64_loop.induct)
  case (1 ib osz out idx2)
  show ?case
  proof (cases ib)
    case (Cons b bs)
    show ?thesis
    proof (cases "length out + 3 < osz")
      case True
      then have "(osz - length out) div 4 = Suc ((osz - (length out + 4)) div 4)" by (simp add: div_if [of "osz - length out" 4])
      then show ?thesis using 1 Cons True by (subst enbase64_loop.simps) (simp add: enc_group_length)
    next
      case False
      then have "(osz - length out) div 4 = 0" by simp
      then show ?thesis using 1 Cons False by (subst enbase64_loop.simps) (simp add: enc_group_length)
    qed
  qed (simp add: enbase64_loop.simps)
qed

text \<open>The bytes a text decodes to, without a limit of space.\<close>

lemma debase64_enc_group:
  assumes "ib \<noteq> []"
  shows "debase64_loop (enc_group ib @ rest) osz out idx2 =
    debase64_loop rest osz (fold (put osz) (take 3 ib) out) (idx2 + length (take 3 ib))"
proof -
  have l: "length (enc_group ib) = 4" by (rule enc_group_length)
  obtain b1 bs where ib: "ib = b1 # bs" using assms by (cases ib) auto
  consider "bs = []" | b2 where "bs = [b2]" | b2 b3 cs where "bs = b2 # b3 # cs" by (metis list.exhaust)
  then show ?thesis
  proof cases
    case 1
    then show ?thesis
      by (subst debase64_loop.simps) (simp add: ib enc_group_def Let_def DEC_ENC small_sextet sextets_join)
  next
    case 2
    then show ?thesis
      by (subst debase64_loop.simps) (simp add: ib enc_group_def Let_def DEC_ENC small_sextet sextets_join)
  next
    case 3
    then show ?thesis
      by (subst debase64_loop.simps) (simp add: ib enc_group_def Let_def DEC_ENC small_sextet sextets_join numeral_3_eq_3)
  qed
qed

lemma fold_put: "fold (put osz) bs out = out @ take (osz - length out) bs"
  by (induction bs arbitrary: out) (auto simp: put_def take_Cons' not_less)

lemma debase64_enc_text:
  "debase64_loop (enc_text bs) osz out idx2 = (out @ take (osz - length out) bs, idx2 + length bs)"
proof (induction bs arbitrary: out idx2 rule: enc_text.induct)
  case (1 bs)
  show ?case
  proof (cases "bs = []")
    case True
    then show ?thesis by (simp add: debase64_loop.simps)
  next
    case False
    have "enc_text bs = enc_group bs @ enc_text (drop 3 bs)" using False by (subst enc_text.simps) simp
    then have "debase64_loop (enc_text bs) osz out idx2 =
        debase64_loop (enc_text (drop 3 bs)) osz (fold (put osz) (take 3 bs) out) (idx2 + length (take 3 bs))"
      using debase64_enc_group [OF False] by simp
    also have "\<dots> = (fold (put osz) (drop 3 bs) (fold (put osz) (take 3 bs) out), idx2 + length (take 3 bs) + length (drop 3 bs))"
      using 1 [OF False, of "fold (put osz) (take 3 bs) out"] by (simp only: fold_put)
    also have "fold (put osz) (drop 3 bs) (fold (put osz) (take 3 bs) out) = fold (put osz) bs out"
      using fold_append [of "put osz" "take 3 bs" "drop 3 bs"] by (simp only: append_take_drop_id comp_apply)
    also have "idx2 + length (take 3 bs) + length (drop 3 bs) = idx2 + length bs" by simp
    finally show ?thesis by (simp add: fold_put)
  qed
qed

text \<open>
  C26. Base64 round trip within the given space. Encoding reports the full length, four characters for every three bytes
  or part of them, whatever space it has, writes whole groups only and never more than fits; decoding the encoded text with any
  space gives back a prefix of the bytes that fills it and reports how many bytes there are, so that with enough space the bytes come back.
\<close>

theorem qse_base64_roundtrip:
  "snd (qse_enbase64 bs osz) = 4 * ((length bs + 2) div 3) \<and>
   length (fst (qse_enbase64 bs osz)) \<le> osz \<and>
   (\<exists>text. length text = 4 * ((length bs + 2) div 3) \<and>
      fst (qse_enbase64 bs osz) = take (4 * (osz div 4)) text \<and>
      (\<forall>dsz. qse_debase64 text dsz = (take dsz bs, length bs)))"
proof (intro conjI)
  have e: "qse_enbase64 bs osz = (take (4 * (osz div 4)) (enc_text bs), length (enc_text bs))"
    by (simp add: qse_enbase64_def enbase64_loop_spec)
  show "snd (qse_enbase64 bs osz) = 4 * ((length bs + 2) div 3)" by (simp add: e enc_text_length)
  show "length (fst (qse_enbase64 bs osz)) \<le> osz" by (simp add: e)
  show "\<exists>text. length text = 4 * ((length bs + 2) div 3) \<and> fst (qse_enbase64 bs osz) = take (4 * (osz div 4)) text \<and>
      (\<forall>dsz. qse_debase64 text dsz = (take dsz bs, length bs))"
    by (intro exI [of _ "enc_text bs"]) (simp add: e enc_text_length qse_debase64_def debase64_enc_text)
qed

end
