(* ===== verification/Qse_Utf8.thy ===== *)
theory Qse_Utf8
  imports Qse_Prelude
begin

text \<open>
  UTF-8 (\<open>src/lib/cmn/utf8.c\<close>) with the table of RFC 3629. A wide character is a 32-bit word; a buffer is the list of its bytes. What the
  code writes through a pointer is returned, \<open>None\<close> when nothing is written.
\<close>

record utf8_slot =
  u_lower :: "32 word"
  u_upper :: "32 word"
  u_fbyte :: byte
  u_mask :: byte
  u_fmask :: byte
  u_length :: nat

definition utf8_table :: "utf8_slot list" where
  "utf8_table =
     [\<lparr>u_lower = 0x00000000, u_upper = 0x0000007F, u_fbyte = 0x00, u_mask = 0x80, u_fmask = 0x7F, u_length = 1\<rparr>,
      \<lparr>u_lower = 0x00000080, u_upper = 0x000007FF, u_fbyte = 0xC0, u_mask = 0xE0, u_fmask = 0x1F, u_length = 2\<rparr>,
      \<lparr>u_lower = 0x00000800, u_upper = 0x0000FFFF, u_fbyte = 0xE0, u_mask = 0xF0, u_fmask = 0x0F, u_length = 3\<rparr>,
      \<lparr>u_lower = 0x00010000, u_upper = 0x0010FFFF, u_fbyte = 0xF0, u_mask = 0xF8, u_fmask = 0x07, u_length = 4\<rparr>]"

fun find_slot :: "(utf8_slot \<Rightarrow> bool) \<Rightarrow> utf8_slot list \<Rightarrow> utf8_slot option" where
  "find_slot test [] = None"
| "find_slot test (cur # rest) = (if test cur then Some cur else find_slot test rest)"

definition get_utf8_slot :: "32 word \<Rightarrow> utf8_slot option" where
  "get_utf8_slot uc = find_slot (\<lambda>cur. uc \<ge> u_lower cur \<and> uc \<le> u_upper cur) utf8_table"

text \<open>The loop that writes the trailing bytes from the last one down, with what is left of the character.\<close>

fun put_trailing :: "nat \<Rightarrow> 32 word \<Rightarrow> byte list \<Rightarrow> 32 word \<times> byte list" where
  "put_trailing index uc tail =
     (if index > 1 then put_trailing (index - 1) (drop_bit 6 uc) (ucast ((uc AND 0x3F) OR 0x80) # tail) else (uc, tail))"

declare put_trailing.simps [simp del]

definition qse_uctoutf8 :: "32 word \<Rightarrow> bool \<Rightarrow> nat \<Rightarrow> byte list option \<times> nat" where
  "qse_uctoutf8 uc utf8 sz =
     (case get_utf8_slot uc of
        None \<Rightarrow> (None, 0)
      | Some cur \<Rightarrow>
          (if utf8 \<and> u_length cur \<le> sz
           then (let (uc, tail) = put_trailing (u_length cur) uc [] in Some (ucast (uc OR ucast (u_fbyte cur)) # tail))
           else None,
           u_length cur))"

text \<open>The loop over the trailing bytes: \<open>None\<close> is the return of zero for a byte that is not a trailing one.\<close>

function get_trailing :: "byte list \<Rightarrow> nat \<Rightarrow> nat \<Rightarrow> 32 word \<Rightarrow> 32 word option" where
  "get_trailing utf8 i len w =
     (if i < len then
        (if utf8 ! i AND 0xC0 \<noteq> 0x80 then None
         else get_trailing utf8 (i + 1) len (push_bit 6 w OR ucast (utf8 ! i AND 0x3F)))
      else Some w)"
  by pat_completeness auto
termination by (relation "measure (\<lambda>(utf8, i, len, w). len - i)") auto

declare get_trailing.simps [simp del]

definition qse_utf8touc :: "byte list \<Rightarrow> bool \<Rightarrow> 32 word option \<times> nat" where
  "qse_utf8touc utf8 uc =
     (case find_slot (\<lambda>cur. utf8 ! 0 AND u_mask cur = u_fbyte cur) utf8_table of
        None \<Rightarrow> (None, 0)
      | Some cur \<Rightarrow>
          if length utf8 \<ge> u_length cur then
            (case get_trailing utf8 1 (u_length cur) (ucast (utf8 ! 0 AND u_fmask cur)) of
               None \<Rightarrow> (None, 0)
             | Some w \<Rightarrow> (if uc then Some w else None, u_length cur))
          else (None, u_length cur))"

definition qse_utf8len :: "byte list \<Rightarrow> nat" where
  "qse_utf8len utf8 = snd (qse_utf8touc utf8 False)"

definition QSE_UTF8LEN_MAX :: nat where
  "QSE_UTF8LEN_MAX = 6"

section \<open>Bits\<close>

lemma bit_small: "unat uc < 2 ^ k \<Longrightarrow> bit uc n \<Longrightarrow> n < k" for uc :: "32 word"
proof (rule ccontr)
  assume uc: "unat uc < 2 ^ k" and b: "bit uc n" and n: "\<not> n < k"
  have "\<not> bit (unat uc) n" using n uc by (metis bit_take_bit_iff take_bit_nat_eq_self)
  then show False using b by (simp add: bit_unsigned_iff)
qed

lemma trailing_byte:
  fixes uc :: "32 word"
  shows "ucast ((uc AND 0x3F) OR 0x80) AND (0xC0 :: byte) = 0x80"
    "ucast (ucast ((uc AND 0x3F) OR 0x80) AND (0x3F :: byte)) = uc AND 0x3F"
  by (rule byte_eqI; auto simp: lt8 bit_simps) (rule word32_eqI; auto simp: lt32 bit_simps)

text \<open>The first byte for what is left of the character, by the number of bytes.\<close>

lemma first_byte_2:
  assumes "unat uc < 2 ^ 5"
  defines "b \<equiv> ucast (uc OR 0xC0) :: byte"
  shows "b AND 0x80 \<noteq> 0" "b AND 0xE0 = 0xC0" "ucast (b AND 0x1F) = (uc :: 32 word)"
proof -
  have n: "bit uc n \<Longrightarrow> n < 5" for n using bit_small [OF assms(1)] .
  have "bit (b AND 0x80) 7" by (simp add: b_def bit_simps)
  then show "b AND 0x80 \<noteq> 0" by (metis bit_0_eq bot_apply bot_bool_def)
  show "b AND 0xE0 = 0xC0" by (rule byte_eqI; auto simp: b_def lt8 bit_simps dest: n)
  show "ucast (b AND 0x1F) = uc" by (rule word32_eqI; auto simp: b_def lt32 bit_simps dest: n)
qed

lemma first_byte_3:
  assumes "unat uc < 2 ^ 4"
  defines "b \<equiv> ucast (uc OR 0xE0) :: byte"
  shows "b AND 0x80 \<noteq> 0" "b AND 0xE0 \<noteq> 0xC0" "b AND 0xF0 = 0xE0" "ucast (b AND 0x0F) = (uc :: 32 word)"
proof -
  have n: "bit uc n \<Longrightarrow> n < 4" for n using bit_small [OF assms(1)] .
  have "bit (b AND 0x80) 7" "bit (b AND 0xE0) 5" by (simp_all add: b_def bit_simps)
  moreover have "\<not> bit (0xC0 :: byte) 5" by (simp add: bit_simps)
  ultimately show "b AND 0x80 \<noteq> 0" "b AND 0xE0 \<noteq> 0xC0" by (auto simp del: bit_and_iff)
  show "b AND 0xF0 = 0xE0" by (rule byte_eqI; auto simp: b_def lt8 bit_simps dest: n)
  show "ucast (b AND 0x0F) = uc" by (rule word32_eqI; auto simp: b_def lt32 bit_simps dest: n)
qed

lemma first_byte_4:
  assumes "unat uc < 2 ^ 3"
  defines "b \<equiv> ucast (uc OR 0xF0) :: byte"
  shows "b AND 0x80 \<noteq> 0" "b AND 0xE0 \<noteq> 0xC0" "b AND 0xF0 \<noteq> 0xE0" "b AND 0xF8 = 0xF0" "ucast (b AND 0x07) = (uc :: 32 word)"
proof -
  have n: "bit uc n \<Longrightarrow> n < 3" for n using bit_small [OF assms(1)] .
  have "bit (b AND 0x80) 7" "bit (b AND 0xE0) 5" "bit (b AND 0xF0) 4" by (simp_all add: b_def bit_simps)
  moreover have "\<not> bit (0xC0 :: byte) 5" "\<not> bit (0xE0 :: byte) 4" by (simp_all add: bit_simps)
  ultimately show "b AND 0x80 \<noteq> 0" "b AND 0xE0 \<noteq> 0xC0" "b AND 0xF0 \<noteq> 0xE0" by (auto simp del: bit_and_iff)
  show "b AND 0xF8 = 0xF0" by (rule byte_eqI; auto simp: b_def lt8 bit_simps dest: n)
  show "ucast (b AND 0x07) = uc" by (rule word32_eqI; auto simp: b_def lt32 bit_simps dest: n)
qed

lemma first_byte_1:
  assumes "unat uc < 2 ^ 7"
  defines "b \<equiv> ucast (uc OR 0) :: byte"
  shows "b AND 0x80 = 0" "ucast (b AND 0x7F) = (uc :: 32 word)"
proof -
  have n: "bit uc n \<Longrightarrow> n < 7" for n using bit_small [OF assms(1)] .
  show "b AND 0x80 = 0" by (rule byte_eqI; auto simp: b_def lt8 bit_simps dest: n)
  show "ucast (b AND 0x7F) = uc" by (rule word32_eqI; auto simp: b_def lt32 bit_simps dest: n)
qed

text \<open>Six bits at a time are put back.\<close>

lemma rejoin: "push_bit 6 (drop_bit 6 w) OR (w AND 0x3F) = w" for w :: "32 word"
  by (rule word32_eqI; auto simp: lt32 bit_simps)

lemma rejoin_three: "(push_bit 12 (drop_bit 12 w) OR push_bit 6 (drop_bit 6 w) AND 4032) OR w AND 0x3F = w" for w :: "32 word"
  by (rule word32_eqI; auto simp: lt32 bit_simps)

lemma rejoin_four: "((push_bit 18 (drop_bit 18 w) OR push_bit 12 (drop_bit 12 w) AND 258048) OR push_bit 6 (drop_bit 6 w) AND 4032) OR w AND 0x3F = w"
  for w :: "32 word"
  by (rule word32_eqI; auto simp: lt32 bit_simps)

section \<open>Round trip\<close>

text \<open>A character with its slot, as the range it lies in.\<close>

lemma slot_cases:
  fixes uc :: "32 word"
  assumes "uc \<le> 0x10FFFF"
  obtains (one) "unat uc < 2 ^ 7" "uc \<le> 0x7F"
  | (two) "unat (drop_bit 6 uc) < 2 ^ 5" "\<not> uc \<le> 0x7F" "0x80 \<le> uc" "uc \<le> 0x7FF"
  | (three) "unat (drop_bit 6 (drop_bit 6 uc)) < 2 ^ 4" "\<not> uc \<le> 0x7FF" "0x800 \<le> uc" "uc \<le> 0xFFFF"
  | (four) "unat (drop_bit 6 (drop_bit 6 (drop_bit 6 uc))) < 2 ^ 3" "\<not> uc \<le> 0xFFFF" "0x10000 \<le> uc" "uc \<le> 0x10FFFF"
proof -
  have u: "unat uc \<le> 0x10FFFF" using assms by (simp add: word_le_nat_alt)
  have d: "unat (drop_bit n w) = unat w div 2 ^ n" for n and w :: "32 word" by (subst unat_drop_bit_eq) (rule drop_bit_eq_div)
  consider "unat uc \<le> 0x7F" | "\<not> unat uc \<le> 0x7F" "unat uc \<le> 0x7FF" | "\<not> unat uc \<le> 0x7FF" "unat uc \<le> 0xFFFF" | "\<not> unat uc \<le> 0xFFFF"
    by linarith
  then show ?thesis
  proof cases
    case 1
    then show ?thesis by (intro one) (simp_all add: word_le_nat_alt)
  next
    case 2
    then show ?thesis by (intro two) (simp_all add: word_le_nat_alt d)
  next
    case 3
    then show ?thesis by (intro three) (simp_all add: word_le_nat_alt d)
  next
    case 4
    then show ?thesis using u by (intro four) (simp_all add: word_le_nat_alt d)
  qed
qed

lemma le_7F: "uc \<le> 0x7F \<Longrightarrow> uc \<le> 0x7FF" "uc \<le> 0x7FF \<Longrightarrow> uc \<le> 0xFFFF" for uc :: "32 word"
  by (simp_all add: word_le_nat_alt)

lemma uctoutf8_utf8touc:
  assumes "uc \<le> 0x10FFFF"
  shows "\<exists>bs. (\<forall>sz. qse_uctoutf8 uc True sz = (if length bs \<le> sz then Some bs else None, length bs)) \<and>
    length bs \<in> {1, 2, 3, 4} \<and> (\<forall>rest. qse_utf8touc (bs @ rest) True = (Some uc, length bs)) \<and>
    (\<forall>n. 0 < n \<longrightarrow> n < length bs \<longrightarrow> qse_utf8touc (take n bs) True = (None, length bs))"
  using assms
proof (cases rule: slot_cases [case_names one two three four])
  case one
  note fb = first_byte_1 [OF one(1)]
  have "get_utf8_slot uc = Some (utf8_table ! 0)" using one(2) by (simp add: get_utf8_slot_def utf8_table_def)
  then show ?thesis using fb
    by (intro exI [of _ "[ucast (uc OR 0)]"]) (simp add: qse_uctoutf8_def qse_utf8touc_def put_trailing.simps get_trailing.simps utf8_table_def)
next
  case two
  note fb = first_byte_2 [OF two(1)]
  let ?b = "ucast (drop_bit 6 uc OR 0xC0) :: byte" let ?t = "ucast ((uc AND 0x3F) OR 0x80) :: byte"
  have sl: "get_utf8_slot uc = Some (utf8_table ! 1)" using two(2,3,4) by (auto simp: get_utf8_slot_def utf8_table_def)
  have e: "qse_uctoutf8 uc True sz = (if 2 \<le> sz then Some [?b, ?t] else None, 2)" for sz
    using sl by (simp add: qse_uctoutf8_def utf8_table_def put_trailing.simps)
  have d: "qse_utf8touc (?b # ?t # rest) True = (Some uc, 2)" for rest
    using fb trailing_byte [of uc] rejoin [of uc] by (simp add: qse_utf8touc_def utf8_table_def get_trailing.simps)
  have p: "qse_utf8touc [?b] True = (None, 2)" using fb by (simp add: qse_utf8touc_def utf8_table_def)
  have "qse_utf8touc (take n [?b, ?t]) True = (None, 2)" if "0 < n" "n < 2" for n
    using that p by (cases n) auto
  then show ?thesis using e d by (intro exI [of _ "[?b, ?t]"]) simp
next
  case three
  note fb = first_byte_3 [OF three(1)]
  let ?b = "ucast (drop_bit 6 (drop_bit 6 uc) OR 0xE0) :: byte"
  let ?t = "\<lambda>uc :: 32 word. ucast ((uc AND 0x3F) OR 0x80) :: byte"
  let ?bs = "[?b, ?t (drop_bit 6 uc), ?t uc]"
  have sl: "get_utf8_slot uc = Some (utf8_table ! 2)" using three(2,3,4) le_7F [of uc] by (auto simp: get_utf8_slot_def utf8_table_def)
  have e: "qse_uctoutf8 uc True sz = (if 3 \<le> sz then Some ?bs else None, 3)" for sz
    using sl by (simp add: qse_uctoutf8_def utf8_table_def put_trailing.simps)
  have d: "qse_utf8touc (?bs @ rest) True = (Some uc, 3)" for rest
    using fb trailing_byte rejoin rejoin_three rejoin_four by (simp add: qse_utf8touc_def utf8_table_def get_trailing.simps)
  have p: "qse_utf8touc (?b # xs) True = (None, 3)" if "length xs < 2" for xs using fb that by (simp add: qse_utf8touc_def utf8_table_def)
  have "qse_utf8touc (take n ?bs) True = (None, 3)" if "0 < n" "n < 3" for n
    using that p [of "take (n - 1) [?t (drop_bit 6 uc), ?t uc]"] by (cases n) auto
  then show ?thesis using e d by (intro exI [of _ ?bs]) simp
next
  case four
  note fb = first_byte_4 [OF four(1)]
  let ?b = "ucast (drop_bit 6 (drop_bit 6 (drop_bit 6 uc)) OR 0xF0) :: byte"
  let ?t = "\<lambda>uc :: 32 word. ucast ((uc AND 0x3F) OR 0x80) :: byte"
  let ?bs = "[?b, ?t (drop_bit 6 (drop_bit 6 uc)), ?t (drop_bit 6 uc), ?t uc]"
  have sl: "get_utf8_slot uc = Some (utf8_table ! 3)" using four(2,3,4) le_7F [of uc] by (auto simp: get_utf8_slot_def utf8_table_def)
  have e: "qse_uctoutf8 uc True sz = (if 4 \<le> sz then Some ?bs else None, 4)" for sz
    using sl by (simp add: qse_uctoutf8_def utf8_table_def put_trailing.simps)
  have d: "qse_utf8touc (?bs @ rest) True = (Some uc, 4)" for rest
    using fb trailing_byte rejoin rejoin_three rejoin_four by (simp add: qse_utf8touc_def utf8_table_def get_trailing.simps)
  have p: "qse_utf8touc (?b # xs) True = (None, 4)" if "length xs < 3" for xs using fb that by (simp add: qse_utf8touc_def utf8_table_def)
  have "qse_utf8touc (take n ?bs) True = (None, 4)" if "0 < n" "n < 4" for n
    using that p [of "take (n - 1) [?t (drop_bit 6 (drop_bit 6 uc)), ?t (drop_bit 6 uc), ?t uc]"] by (cases n) auto
  then show ?thesis using e d by (intro exI [of _ ?bs]) simp
qed

text \<open>C27. A character up to 10FFFF is written as one to four bytes; a buffer that is too short is left alone and the number of bytes is
  still returned; the bytes are read back as that character, whatever follows them; a cut-off sequence is reported with the number of bytes it needs and
  no character.\<close>

theorem qse_utf8_roundtrip:
  assumes "uc \<le> 0x10FFFF"
  shows "\<exists>bs. length bs \<in> {1, 2, 3, 4} \<and>
    (\<forall>sz. qse_uctoutf8 uc True sz = (if length bs \<le> sz then Some bs else None, length bs)) \<and>
    (\<forall>rest. qse_utf8touc (bs @ rest) True = (Some uc, length bs)) \<and>
    (\<forall>n. 0 < n \<longrightarrow> n < length bs \<longrightarrow> qse_utf8touc (take n bs) True = (None, length bs))"
  using uctoutf8_utf8touc [OF assms] by blast

lemma qse_utf8_roundtrip_witness: "(0x20AC :: 32 word) \<le> 0x10FFFF \<and> (\<exists>bs. qse_uctoutf8 0x20AC True (length bs) = (Some bs, length bs) \<and>
    qse_utf8touc bs True = (Some 0x20AC, length bs))"
proof -
  have r: "(0x20AC :: 32 word) \<le> 0x10FFFF" by simp
  obtain bs where b: "\<forall>sz. qse_uctoutf8 0x20AC True sz = (if length bs \<le> sz then Some bs else None, length bs)"
    and d: "\<forall>rest. qse_utf8touc (bs @ rest) True = (Some 0x20AC, length bs)"
    using qse_utf8_roundtrip [OF r] by blast
  have "qse_uctoutf8 0x20AC True (length bs) = (Some bs, length bs)" using b by simp
  moreover have "qse_utf8touc bs True = (Some 0x20AC, length bs)" using d [rule_format, of "[]"] by simp
  ultimately show ?thesis using r by blast
qed

text \<open>Characters above 10FFFF are refused by the encoder, but the decoder does not compare what it read with the range of the slot: an overlong form and a
  value above 10FFFF are both accepted.\<close>

lemma uctoutf8_illegal:
  assumes "0x10FFFF < uc"
  shows "qse_uctoutf8 uc utf8 sz = (None, 0)"
proof -
  have "\<not> uc \<le> n" if "n \<le> 0x10FFFF" for n using assms that by auto
  then show ?thesis by (simp add: qse_uctoutf8_def get_utf8_slot_def utf8_table_def)
qed

lemma utf8touc_overlong: "qse_utf8touc [0xC0, 0x80] True = (Some 0, 2)" "qse_utf8touc [0xF7, 0xBF, 0xBF, 0xBF] True = (Some 0x1FFFFF, 4)"
  by (simp_all add: qse_utf8touc_def utf8_table_def get_trailing.simps)

end
