(* ===== verification/Qse_Xma.thy ===== *)
theory Qse_Xma
  imports Qse_Mem
begin

text \<open>
  The zone allocator (\<open>src/lib/cmn/xma.c\<close>, \<open>src/include/qse/cmn/xma.h\<close>) of a 64-bit debug build, which keeps statistics. The headers
  of the blocks are a function of their address; \<open>xma_mem\<close> holds the bytes of the users. A free block keeps its links in bytes that a
  user no longer owns, so the two do not interfere for blocks in use. The sizes fit in the 63-bit field of the header because the zone
  does, and are natural numbers; the sz of a request is a \<open>qse_size_t\<close> and is rounded with wrap-around. An operation gives \<open>None\<close> where the walk along a free list
  does not end, and where one of the assertions in \<open>qse_xma_alloc\<close> fails, which stops a debug build. The other assertions of the file always hold in a consistent zone:
  that a block without predecessor heads its chain and that a block knows the size of the one before it are lemmas, the rest are the sums of the dump.
\<close>

section \<open>State\<close>

record qse_xma_blk =
  b_prev_size :: nat
  b_free :: bool
  b_size :: nat
  b_free_prev :: addr
  b_free_next :: addr

record qse_xma_stat =
  st_total :: nat
  st_alloc :: nat
  st_avail :: nat
  st_nused :: nat
  st_nfree :: nat

record qse_xma =
  xma_start :: addr
  xma_end :: addr
  xma_internal :: bool
  xma_xfree :: "addr list"
  xma_bdec :: nat
  xma_stat :: qse_xma_stat
  xma_blk :: "addr \<Rightarrow> qse_xma_blk"
  xma_mem :: mem

definition XMA_ALIGN :: nat where [simp]: "XMA_ALIGN = 16"
definition MBLKHDRSIZE :: nat where [simp]: "MBLKHDRSIZE = 16"
definition MINALLOCSIZE :: nat where [simp]: "MINALLOCSIZE = 16"
definition FBLKMINSIZE :: nat where [simp]: "FBLKMINSIZE = 32"
definition FIXED :: nat where [simp]: "FIXED = 32"
definition XFIMAX :: nat where [simp]: "XFIMAX = 95"

definition QSE_ALIGNTO_POW2 :: "nat \<Rightarrow> nat \<Rightarrow> nat" where
  "QSE_ALIGNTO_POW2 num align = unat ((of_nat num + of_nat align - 1 :: 64 word) AND NOT (of_nat align - 1))"

abbreviation size_at :: "qse_xma \<Rightarrow> addr \<Rightarrow> nat" where "size_at x a \<equiv> b_size (xma_blk x a)"
abbreviation free_at :: "qse_xma \<Rightarrow> addr \<Rightarrow> bool" where "free_at x a \<equiv> b_free (xma_blk x a)"
abbreviation prev_at :: "qse_xma \<Rightarrow> addr \<Rightarrow> nat" where "prev_at x a \<equiv> b_prev_size (xma_blk x a)"
abbreviation fprev_at :: "qse_xma \<Rightarrow> addr \<Rightarrow> addr" where "fprev_at x a \<equiv> b_free_prev (xma_blk x a)"
abbreviation fnext_at :: "qse_xma \<Rightarrow> addr \<Rightarrow> addr" where "fnext_at x a \<equiv> b_free_next (xma_blk x a)"

definition upd_blk :: "addr \<Rightarrow> (qse_xma_blk \<Rightarrow> qse_xma_blk) \<Rightarrow> qse_xma \<Rightarrow> qse_xma" where
  "upd_blk a f x = x\<lparr>xma_blk := (xma_blk x)(a := f (xma_blk x a))\<rparr>"
definition set_size :: "addr \<Rightarrow> nat \<Rightarrow> qse_xma \<Rightarrow> qse_xma" where
  "set_size a v = upd_blk a (\<lambda>b. b\<lparr>b_size := v\<rparr>)"
definition set_free :: "addr \<Rightarrow> bool \<Rightarrow> qse_xma \<Rightarrow> qse_xma" where
  "set_free a v = upd_blk a (\<lambda>b. b\<lparr>b_free := v\<rparr>)"
definition set_prev :: "addr \<Rightarrow> nat \<Rightarrow> qse_xma \<Rightarrow> qse_xma" where
  "set_prev a v = upd_blk a (\<lambda>b. b\<lparr>b_prev_size := v\<rparr>)"
definition set_fprev :: "addr \<Rightarrow> addr \<Rightarrow> qse_xma \<Rightarrow> qse_xma" where
  "set_fprev a v = upd_blk a (\<lambda>b. b\<lparr>b_free_prev := v\<rparr>)"
definition set_fnext :: "addr \<Rightarrow> addr \<Rightarrow> qse_xma \<Rightarrow> qse_xma" where
  "set_fnext a v = upd_blk a (\<lambda>b. b\<lparr>b_free_next := v\<rparr>)"
definition set_xfree :: "nat \<Rightarrow> addr \<Rightarrow> qse_xma \<Rightarrow> qse_xma" where
  "set_xfree i v x = x\<lparr>xma_xfree := (xma_xfree x)[i := v]\<rparr>"
definition upd_stat :: "(qse_xma_stat \<Rightarrow> qse_xma_stat) \<Rightarrow> qse_xma \<Rightarrow> qse_xma" where
  "upd_stat f x = x\<lparr>xma_stat := f (xma_stat x)\<rparr>"

definition next_mblk :: "qse_xma \<Rightarrow> addr \<Rightarrow> addr" where
  "next_mblk x b = b + MBLKHDRSIZE + size_at x b"
definition prev_mblk :: "qse_xma \<Rightarrow> addr \<Rightarrow> addr" where
  "prev_mblk x b = b - (MBLKHDRSIZE + prev_at x b)"
definition SYS_TO_USR :: "addr \<Rightarrow> addr" where
  "SYS_TO_USR b = b + MBLKHDRSIZE"
definition USR_TO_SYS :: "addr \<Rightarrow> addr" where
  "USR_TO_SYS b = b - MBLKHDRSIZE"

section \<open>Free lists\<close>

definition log_step :: "nat \<Rightarrow> nat \<times> 64 word \<Rightarrow> nat \<times> 64 word" where
  "log_step k xn = (if snd xn AND push_bit (64 - k) (NOT 0) = 0 then (fst xn - k, push_bit k (snd xn)) else xn)"

definition szlog2 :: "64 word \<Rightarrow> nat" where
  "szlog2 n = fst (log_step 1 (log_step 2 (log_step 4 (log_step 8 (log_step 16 (log_step 32 (64 - 1, n)))))))"

definition getxfi :: "qse_xma \<Rightarrow> nat \<Rightarrow> nat" where
  "getxfi x sz =
     (let xfi = (sz div XMA_ALIGN + (2 ^ 64 - 1)) mod 2 ^ 64;
          xfi = (if xfi \<ge> FIXED then (szlog2 (of_nat sz) + (2 ^ 64 - xma_bdec x) + FIXED) mod 2 ^ 64 else xfi)
      in if xfi > XFIMAX then XFIMAX else xfi)"

definition attach_to_freelist :: "qse_xma \<Rightarrow> addr \<Rightarrow> qse_xma" where
  "attach_to_freelist x b =
     (let xfi = getxfi x (size_at x b); h = xma_xfree x ! xfi;
          x = set_fprev b QSE_NULL x;
          x = set_fnext b h x;
          x = (if h \<noteq> QSE_NULL then set_fprev h b x else x)
      in set_xfree xfi b x)"

definition detach_from_freelist :: "qse_xma \<Rightarrow> addr \<Rightarrow> qse_xma" where
  "detach_from_freelist x b =
     (let p = fprev_at x b; n = fnext_at x b;
          x = (if p \<noteq> QSE_NULL then set_fnext p n x else set_xfree (getxfi x (size_at x b)) n x)
      in if n \<noteq> QSE_NULL then set_fprev n p x else x)"

text \<open>The block \<open>b\<close> is shortened to \<open>sz\<close> bytes and the \<open>rem\<close> bytes after it become a free block.\<close>

definition split_block :: "qse_xma \<Rightarrow> addr \<Rightarrow> nat \<Rightarrow> nat \<Rightarrow> qse_xma" where
  "split_block x b sz rem =
     (let x = set_size b sz x;
          y = next_mblk x b;
          x = set_free y True x;
          x = set_size y (rem - MBLKHDRSIZE) x;
          x = set_prev y (size_at x b) x;
          x = attach_to_freelist x y;
          z = next_mblk x y
      in if z < xma_end x then set_prev z (size_at x y) x else x)"

partial_function (option) find_fit :: "qse_xma \<Rightarrow> addr \<Rightarrow> nat \<Rightarrow> addr option" where
  "find_fit x cand sz =
     (if cand = QSE_NULL then Some QSE_NULL
      else if size_at x cand \<ge> sz then Some cand
      else find_fit x (fnext_at x cand) sz)"

definition take_cand :: "qse_xma \<Rightarrow> addr \<Rightarrow> nat \<Rightarrow> qse_xma" where
  "take_cand x cand sz =
     (let x = detach_from_freelist x cand;
          rem = size_at x cand - sz;
          x = (if rem \<ge> FBLKMINSIZE
               then upd_stat (\<lambda>s. s\<lparr>st_avail := st_avail s - MBLKHDRSIZE\<rparr>) (split_block x cand sz rem)
               else upd_stat (\<lambda>s. s\<lparr>st_nfree := st_nfree s - 1\<rparr>) x);
          x = set_free cand False x
      in upd_stat (\<lambda>s. s\<lparr>st_nused := st_nused s + 1, st_alloc := st_alloc s + size_at x cand,
           st_avail := st_avail s - size_at x cand\<rparr>) x)"

definition alloc_from_freelist :: "qse_xma \<Rightarrow> nat \<Rightarrow> nat \<Rightarrow> (qse_xma \<times> addr) option" where
  "alloc_from_freelist x xfi sz =
     map_option (\<lambda>cand. if cand = QSE_NULL then (x, QSE_NULL) else (take_cand x cand sz, cand))
       (find_fit x (xma_xfree x ! xfi) sz)"

section \<open>Operations\<close>

definition qse_xma_init :: "addr option \<Rightarrow> (addr \<Rightarrow> qse_xma_blk) \<Rightarrow> mem \<Rightarrow> addr \<Rightarrow> nat \<Rightarrow> qse_xma option" where
  "qse_xma_init mm blk m zoneptr zonesize =
     (let internal = (zoneptr = QSE_NULL);
          zonesize' = (if internal then max (QSE_ALIGNTO_POW2 zonesize XMA_ALIGN) FBLKMINSIZE else zonesize);
          zone = (if internal then mm else if zonesize < FBLKMINSIZE then None else Some zoneptr)
      in case zone of
           None \<Rightarrow> None
         | Some first \<Rightarrow>
             (let x = \<lparr>xma_start = first, xma_end = first + zonesize', xma_internal = internal, xma_xfree = replicate (XFIMAX + 1) QSE_NULL,
                    xma_bdec = szlog2 (of_nat (FIXED * XMA_ALIGN)),
                    xma_stat = \<lparr>st_total = zonesize', st_alloc = 0, st_avail = zonesize' - MBLKHDRSIZE, st_nused = 0, st_nfree = 1\<rparr>,
                    xma_blk = blk(first := \<lparr>b_prev_size = 0, b_free = True, b_size = zonesize' - MBLKHDRSIZE,
                      b_free_prev = QSE_NULL, b_free_next = QSE_NULL\<rparr>), xma_mem = m\<rparr>
              in Some (set_xfree (getxfi x (size_at x first)) first x)))"

text \<open>What is given back to the outer memory manager is listed.\<close>

definition qse_xma_fini :: "qse_xma \<Rightarrow> qse_xma \<times> addr list" where
  "qse_xma_fini x = (x\<lparr>xma_start := QSE_NULL, xma_end := QSE_NULL\<rparr>, if xma_internal x then [xma_start x] else [])"

text \<open>
  Opening allocates the object with its extension through the outer memory manager (\<open>obj\<close>), initialises it and clears the extension; when
  the initialisation fails the object is given back. The object takes 848 bytes: four fields, the chains, \<open>bdec\<close> and the statistics.
\<close>

definition XMA_OBJSIZE :: nat where "XMA_OBJSIZE = 4 * 8 + (XFIMAX + 1) * 8 + 8 + 5 * 8"

definition qse_xma_open ::
  "addr option \<Rightarrow> addr option \<Rightarrow> (addr \<Rightarrow> qse_xma_blk) \<Rightarrow> mem \<Rightarrow> nat \<Rightarrow> addr \<Rightarrow> nat \<Rightarrow> (addr \<times> qse_xma) option \<times> addr list" where
  "qse_xma_open obj mm blk m xtnsize zoneptr zonesize =
     (case obj of
        None \<Rightarrow> (None, [])
      | Some a \<Rightarrow>
          (case qse_xma_init mm blk m zoneptr zonesize of
             None \<Rightarrow> (None, [a])
           | Some x \<Rightarrow> (Some (a, x\<lparr>xma_mem := qse_memset (xma_mem x) (a + XMA_OBJSIZE) 0 (of_nat xtnsize)\<rparr>), [])))"

definition qse_xma_close :: "addr \<times> qse_xma \<Rightarrow> addr list" where
  "qse_xma_close ax = snd (qse_xma_fini (snd ax)) @ [fst ax]"

text \<open>The loop over the large chains that are left.\<close>

function try_chains :: "qse_xma \<Rightarrow> nat \<Rightarrow> nat \<Rightarrow> (qse_xma \<times> addr) option" where
  "try_chains x xfi sz =
     (if xfi < XFIMAX - 1 then
        (case alloc_from_freelist x xfi sz of
           None \<Rightarrow> None
         | Some (x', cand) \<Rightarrow> if cand \<noteq> QSE_NULL then Some (x', cand) else try_chains x' (xfi + 1) sz)
      else Some (x, QSE_NULL))"
  by pat_completeness auto
termination by (relation "measure (\<lambda>(x, xfi, sz). XFIMAX - xfi)") auto

declare try_chains.simps [simp del]

definition round_request :: "nat \<Rightarrow> nat" where
  "round_request sz = QSE_ALIGNTO_POW2 (if sz < MINALLOCSIZE then MINALLOCSIZE else sz) XMA_ALIGN"

definition take_fixed :: "qse_xma \<Rightarrow> addr \<Rightarrow> qse_xma" where
  "take_fixed x cand =
     (let x = set_free cand False (detach_from_freelist x cand)
      in upd_stat (\<lambda>s. s\<lparr>st_nfree := st_nfree s - 1, st_nused := st_nused s + 1, st_alloc := st_alloc s + size_at x cand,
           st_avail := st_avail s - size_at x cand\<rparr>) x)"

text \<open>The two assertions on the head of the chain, \<open>cand->free != 0\<close> and \<open>cand->size == size\<close>.\<close>

definition find_cand :: "qse_xma \<Rightarrow> nat \<Rightarrow> nat \<Rightarrow> (qse_xma \<times> addr) option" where
  "find_cand x xfi sz =
     (if xfi < FIXED \<and> xma_xfree x ! xfi \<noteq> QSE_NULL then
        (let cand = xma_xfree x ! xfi in
         if free_at x cand \<and> size_at x cand = sz then Some (take_fixed x cand, cand) else None)
      else if xfi = XFIMAX then alloc_from_freelist x XFIMAX sz
      else
        (case (if xfi \<ge> FIXED then alloc_from_freelist x xfi sz else Some (x, QSE_NULL)) of
           None \<Rightarrow> None
         | Some (x, cand) \<Rightarrow>
             if cand \<noteq> QSE_NULL then Some (x, cand)
             else
               (case alloc_from_freelist x XFIMAX sz of
                  None \<Rightarrow> None
                | Some (x, cand) \<Rightarrow>
                    if cand \<noteq> QSE_NULL then Some (x, cand)
                    else try_chains x ((if xfi \<ge> FIXED then xfi else FIXED - 1) + 1) sz)))"

text \<open>The rounded size is asserted to be at least \<open>ALIGN\<close>.\<close>

definition qse_xma_alloc :: "qse_xma \<Rightarrow> nat \<Rightarrow> (qse_xma \<times> addr) option" where
  "qse_xma_alloc x sz =
     map_option (\<lambda>(x, cand). (x, if cand = QSE_NULL then QSE_NULL else SYS_TO_USR cand))
       (let sz = round_request sz in if sz \<ge> XMA_ALIGN then find_cand x (getxfi x sz) sz else None)"

definition realloc_grow :: "qse_xma \<Rightarrow> addr \<Rightarrow> nat \<Rightarrow> qse_xma option" where
  "realloc_grow x blk sz =
     (let req = sz - size_at x blk; n = next_mblk x blk in
      if n \<ge> xma_end x \<or> \<not> free_at x n \<or> req > size_at x n then None
      else
        (let x = detach_from_freelist x n;
             rem = (MBLKHDRSIZE + size_at x n) - req
         in if rem \<ge> FBLKMINSIZE then
              Some (upd_stat (\<lambda>s. s\<lparr>st_alloc := st_alloc s + req, st_avail := st_avail s - req\<rparr>)
                (split_block x blk (size_at x blk + req) rem))
            else
              (let nsize = size_at x n;
                   x = set_size blk (size_at x blk + (MBLKHDRSIZE + nsize)) x;
                   z = next_mblk x blk;
                   x = (if z < xma_end x then set_prev z (size_at x blk) x else x)
               in Some (upd_stat (\<lambda>s. s\<lparr>st_nfree := st_nfree s - 1, st_alloc := st_alloc s + (MBLKHDRSIZE + nsize),
                    st_avail := st_avail s - nsize\<rparr>) x))))"

definition realloc_shrink :: "qse_xma \<Rightarrow> addr \<Rightarrow> nat \<Rightarrow> qse_xma" where
  "realloc_shrink x blk sz =
     (let rem = size_at x blk - sz in
      if rem \<ge> FBLKMINSIZE then
        (let n = next_mblk x blk in
         if n < xma_end x \<and> free_at x n then
           (let nsize = size_at x n; x = detach_from_freelist x n in
            upd_stat (\<lambda>s. s\<lparr>st_alloc := st_alloc s - rem, st_avail := st_avail s + rem\<rparr>)
              (split_block x blk sz (rem + nsize + MBLKHDRSIZE)))
         else
           (let x = set_size blk sz x;
                y = next_mblk x blk;
                x = set_free y True x;
                x = set_size y (rem - MBLKHDRSIZE) x;
                x = set_prev y (size_at x blk) x;
                x = attach_to_freelist x y;
                x = set_prev n (size_at x y) x
            in upd_stat (\<lambda>s. s\<lparr>st_nfree := st_nfree s + 1, st_alloc := st_alloc s - rem, st_avail := st_avail s + size_at x y\<rparr>) x))
      else x)"

definition realloc_merge :: "qse_xma \<Rightarrow> addr \<Rightarrow> nat \<Rightarrow> qse_xma option" where
  "realloc_merge x b sz =
     (let blk = USR_TO_SYS b; sz = round_request sz in
      if sz > size_at x blk then realloc_grow x blk sz
      else if sz < size_at x blk then Some (realloc_shrink x blk sz)
      else Some x)"

definition qse_xma_calloc :: "qse_xma \<Rightarrow> nat \<Rightarrow> (qse_xma \<times> addr) option" where
  "qse_xma_calloc x sz =
     map_option (\<lambda>(x, ptr). (if ptr \<noteq> QSE_NULL then x\<lparr>xma_mem := qse_memset (xma_mem x) ptr 0 (of_nat sz)\<rparr> else x, ptr)) (qse_xma_alloc x sz)"

definition qse_xma_free :: "qse_xma \<Rightarrow> addr \<Rightarrow> qse_xma" where
  "qse_xma_free x b =
     (let blk = USR_TO_SYS b; org_blk_size = size_at x blk;
          x = upd_stat (\<lambda>s. s\<lparr>st_nused := st_nused s - 1, st_alloc := st_alloc s - org_blk_size\<rparr>) x;
          xb = prev_mblk x blk; y = next_mblk x blk
      in if (xb \<ge> xma_start x \<and> free_at x xb) \<and> (y < xma_end x \<and> free_at x y) then
           (let ns = MBLKHDRSIZE + org_blk_size + MBLKHDRSIZE;
                bs = ns + size_at x y;
                x = detach_from_freelist x xb;
                x = detach_from_freelist x y;
                x = set_size xb (size_at x xb + bs) x;
                x = attach_to_freelist x xb;
                z = next_mblk x xb;
                x = (if z < xma_end x then set_prev z (size_at x xb) x else x)
            in upd_stat (\<lambda>s. s\<lparr>st_nfree := st_nfree s - 1, st_avail := st_avail s + ns\<rparr>) x)
         else if y < xma_end x \<and> free_at x y then
           (let z = next_mblk x y;
                x = detach_from_freelist x y;
                x = set_free blk True x;
                x = set_size blk (size_at x blk + (MBLKHDRSIZE + size_at x y)) x;
                x = (if z < xma_end x then set_prev z (size_at x blk) x else x);
                x = attach_to_freelist x blk
            in upd_stat (\<lambda>s. s\<lparr>st_avail := st_avail s + (org_blk_size + MBLKHDRSIZE)\<rparr>) x)
         else if xb \<ge> xma_start x \<and> free_at x xb then
           (let x = detach_from_freelist x xb;
                x = set_size xb (size_at x xb + (MBLKHDRSIZE + org_blk_size)) x;
                x = (if y < xma_end x then set_prev y (size_at x xb) x else x);
                x = attach_to_freelist x xb
            in upd_stat (\<lambda>s. s\<lparr>st_avail := st_avail s + (MBLKHDRSIZE + org_blk_size)\<rparr>) x)
         else
           upd_stat (\<lambda>s. s\<lparr>st_nfree := st_nfree s + 1, st_avail := st_avail s + org_blk_size\<rparr>)
             (attach_to_freelist (set_free blk True x) blk))"

definition qse_xma_realloc :: "qse_xma \<Rightarrow> addr \<Rightarrow> nat \<Rightarrow> (qse_xma \<times> addr) option" where
  "qse_xma_realloc x b sz =
     (if b = QSE_NULL then qse_xma_alloc x sz
      else
        (case realloc_merge x b sz of
           Some x \<Rightarrow> Some (x, b)
         | None \<Rightarrow>
             map_option (\<lambda>(x, n).
               if n \<noteq> QSE_NULL then (qse_xma_free (x\<lparr>xma_mem := qse_memcpy (xma_mem x) n b sz\<rparr>) b, n) else (x, n))
               (qse_xma_alloc x sz)))"

text \<open>The walk of \<open>qse_xma_dump\<close> and \<open>DBG_VERIFY\<close> from block to block: the lines printed and the two sums.\<close>

partial_function (option) dump_loop :: "qse_xma \<Rightarrow> addr \<Rightarrow> nat \<Rightarrow> nat \<Rightarrow> ((nat \<times> bool \<times> addr) list \<times> nat \<times> nat) option" where
  "dump_loop x tmp fsum asum =
     (if tmp < xma_end x then
        Option.bind
          (dump_loop x (next_mblk x tmp)
             (if free_at x tmp then fsum + size_at x tmp else fsum) (if free_at x tmp then asum else asum + size_at x tmp))
          (\<lambda>(ls, fs, as). Some ((size_at x tmp, free_at x tmp, tmp) # ls, fs, as))
      else Some ([], fsum, asum))"

definition qse_xma_dump :: "qse_xma \<Rightarrow> ((nat \<times> bool \<times> addr) list \<times> nat \<times> nat) option" where
  "qse_xma_dump x = dump_loop x (xma_start x) 0 0"

section \<open>Rounding and chain numbers\<close>

lemma unat_less_64: "unat w < 2 ^ 64" for w :: "64 word"
proof -
  have "unat w < 2 ^ LENGTH(64)" by (rule unsigned_less)
  then show ?thesis by simp
qed

lemma unat_push_bit: "unat w * 2 ^ k < 2 ^ 64 \<Longrightarrow> unat (push_bit k w) = unat w * 2 ^ k" for w :: "64 word"
  by (subst unsigned_push_bit_eq) (simp add: push_bit_eq_mult take_bit_nat_eq_self_iff)

lemma and_not_mask_nat: "unat (w AND NOT (mask n)) = unat w div 2 ^ n * 2 ^ n" for w :: "64 word"
proof -
  have "w AND NOT (mask n) = push_bit n (drop_bit n w)"
    by (rule bit_word_eqI) (auto simp: bit_simps)
  moreover have d: "unat (drop_bit n w) = unat w div 2 ^ n" by (subst unat_drop_bit_eq) (rule drop_bit_eq_div)
  moreover have "unat w div 2 ^ n * 2 ^ n < 2 ^ 64"
    using unat_less_64 by (rule order.strict_trans1 [OF div_times_less_eq_dividend])
  ultimately show ?thesis using unat_push_bit [of "drop_bit n w" n] by (simp only: d)
qed

lemma QSE_ALIGNTO_POW2_16: "n < 2 ^ 64 \<Longrightarrow> QSE_ALIGNTO_POW2 n XMA_ALIGN = (n + 15) mod 2 ^ 64 div 16 * 16"
proof -
  have m: "of_nat XMA_ALIGN - 1 = (mask 4 :: 64 word)" by (simp add: mask_eq_exp_minus_1)
  have e: "(of_nat n + of_nat XMA_ALIGN - 1 :: 64 word) = of_nat (n + 15)" by simp
  show ?thesis unfolding QSE_ALIGNTO_POW2_def m and_not_mask_nat e unat_of_nat by simp
qed

lemma round_request_eq: "sz < 2 ^ 64 \<Longrightarrow> round_request sz = (max sz 16 + 15) mod 2 ^ 64 div 16 * 16"
  using QSE_ALIGNTO_POW2_16 [of 16] QSE_ALIGNTO_POW2_16 [of sz] by (auto simp: round_request_def max_def)

lemma round_request_small:
  assumes "sz < 2 ^ 64 - 15"
  shows "sz \<le> round_request sz" "16 \<le> round_request sz" "round_request sz mod 16 = 0" "round_request sz \<le> max sz 16 + 15"
    "round_request sz < 2 ^ 64"
proof -
  let ?m = "max sz 16 + 15"
  have r: "round_request sz = ?m div 16 * 16" using assms by (subst round_request_eq) auto
  have "?m < 2 ^ 64" using assms by simp
  moreover have "?m div 16 * 16 + ?m mod 16 = ?m" "?m mod 16 < 16" by simp_all
  ultimately show "sz \<le> round_request sz" "16 \<le> round_request sz" "round_request sz \<le> ?m" "round_request sz < 2 ^ 64"
    unfolding r using assms by linarith+
  show "round_request sz mod 16 = 0" unfolding r by simp
qed

text \<open>The binary search for the highest bit.\<close>

lemma high_bits_zero: "k \<le> 64 \<Longrightarrow> w AND push_bit (64 - k) (NOT 0) = 0 \<longleftrightarrow> unat w < 2 ^ (64 - k)" for w :: "64 word"
proof -
  assume k: "k \<le> 64"
  have "w AND push_bit (64 - k) (NOT 0) = 0 \<longleftrightarrow> (\<forall>i. 64 - k \<le> i \<longrightarrow> i < 64 \<longrightarrow> \<not> bit w i)"
    unfolding bit_eq_iff by (auto simp: bit_simps) (meson leI)
  also have "\<dots> \<longleftrightarrow> take_bit (64 - k) w = w" unfolding bit_eq_iff by (auto simp: bit_simps) (meson leI)
  also have "\<dots> \<longleftrightarrow> unat w < 2 ^ (64 - k)"
    by (metis take_bit_nat_eq_self_iff unsigned_take_bit_eq unsigned_word_eqI)
  finally show ?thesis .
qed

definition log_inv :: "nat \<Rightarrow> nat \<Rightarrow> nat \<times> 64 word \<Rightarrow> bool" where
  "log_inv n0 k xn \<longleftrightarrow> fst xn \<le> 63 \<and> unat (snd xn) = n0 * 2 ^ (63 - fst xn) \<and> 2 ^ (64 - k) \<le> unat (snd xn) \<and> k \<le> fst xn + 1"

lemma log_step_inv:
  assumes "log_inv n0 (2 * k) xn" "0 < k" "k \<le> 32"
  shows "log_inv n0 k (log_step k xn)"
proof (cases "unat (snd xn) < 2 ^ (64 - k)")
  case False
  then show ?thesis using assms high_bits_zero [of k "snd xn"] by (auto simp: log_inv_def log_step_def)
next
  case True
  have i: "fst xn \<le> 63" "unat (snd xn) = n0 * 2 ^ (63 - fst xn)" "2 ^ (64 - 2 * k) \<le> unat (snd xn)" "2 * k \<le> fst xn + 1"
    using assms(1) by (auto simp: log_inv_def)
  have p: "(2::nat) ^ (64 - k) * 2 ^ k = 2 ^ 64" using assms(3) by (simp flip: power_add)
  have "unat (snd xn) * 2 ^ k < 2 ^ (64 - k) * 2 ^ k" using True by simp
  then have "unat (push_bit k (snd xn)) = unat (snd xn) * 2 ^ k"
    unfolding p by (rule unat_push_bit)
  moreover have "63 - (fst xn - k) = (63 - fst xn) + k" "fst xn - k \<le> 63" "k \<le> fst xn - k + 1" using i(1,4) assms(2) by simp_all
  moreover have "(2::nat) ^ (64 - k) = 2 ^ (64 - 2 * k) * 2 ^ k" using assms(2,3) by (simp flip: power_add)
  moreover have "log_step k xn = (fst xn - k, push_bit k (snd xn))"
    using high_bits_zero [of k "snd xn"] True assms(3) by (simp add: log_step_def)
  ultimately show ?thesis using i(2,3) by (simp add: log_inv_def power_add del: push_bit_of_1)
qed

lemma szlog2_bounds:
  assumes "n \<noteq> 0"
  shows "2 ^ szlog2 n \<le> unat n" "unat n < 2 ^ (szlog2 n + 1)" "szlog2 n \<le> 63"
proof -
  let ?r = "log_step 1 (log_step 2 (log_step 4 (log_step 8 (log_step 16 (log_step 32 (64 - 1, n))))))"
  have "0 < unat n" using assms by (simp add: unat_gt_0)
  then have "log_inv (unat n) 64 (64 - 1, n)" by (simp add: log_inv_def)
  then have "log_inv (unat n) 32 (log_step 32 (64 - 1, n))" using log_step_inv [of _ 32] by simp
  then have "log_inv (unat n) 16 (log_step 16 (log_step 32 (64 - 1, n)))" using log_step_inv [of _ 16] by simp
  then have "log_inv (unat n) 8 (log_step 8 (log_step 16 (log_step 32 (64 - 1, n))))" using log_step_inv [of _ 8] by simp
  then have "log_inv (unat n) 4 (log_step 4 (log_step 8 (log_step 16 (log_step 32 (64 - 1, n)))))" using log_step_inv [of _ 4] by simp
  then have "log_inv (unat n) 2 (log_step 2 (log_step 4 (log_step 8 (log_step 16 (log_step 32 (64 - 1, n))))))" using log_step_inv [of _ 2] by simp
  then have "log_inv (unat n) 1 ?r" using log_step_inv [of _ 1] by simp
  then have f: "fst ?r \<le> 63" and u: "unat (snd ?r) = unat n * 2 ^ (63 - fst ?r)" and g: "2 ^ 63 \<le> unat (snd ?r)" by (simp_all add: log_inv_def)
  have p: "(2::nat) ^ 63 = 2 ^ fst ?r * 2 ^ (63 - fst ?r)" using f by (simp flip: power_add)
  have "2 ^ fst ?r * 2 ^ (63 - fst ?r) \<le> unat n * 2 ^ (63 - fst ?r)" using g unfolding u p .
  then show "2 ^ szlog2 n \<le> unat n" unfolding szlog2_def by simp
  have "unat (snd ?r) < 2 * 2 ^ 63" using unat_less_64 [of "snd ?r"] by simp
  then have "unat n * 2 ^ (63 - fst ?r) < 2 * 2 ^ 63" unfolding u .
  then have "unat n * 2 ^ (63 - fst ?r) < 2 ^ (fst ?r + 1) * 2 ^ (63 - fst ?r)" unfolding p by simp
  then show "unat n < 2 ^ (szlog2 n + 1)" unfolding szlog2_def by simp
  show "szlog2 n \<le> 63" using f unfolding szlog2_def .
qed

lemma szlog2_mono:
  assumes "unat m \<le> unat n" "m \<noteq> 0"
  shows "szlog2 m \<le> szlog2 n"
proof -
  have "n \<noteq> 0" using assms by (metis le_zero_eq unat_0_iff)
  then have "(2::nat) ^ szlog2 m < 2 ^ (szlog2 n + 1)" using szlog2_bounds [of m] szlog2_bounds [of n] assms by linarith
  then have "szlog2 m < szlog2 n + 1" by (rule power_less_imp_less_exp [rotated]) simp
  then show ?thesis by simp
qed

lemma szlog2_512: "szlog2 512 = 9"
proof -
  have "(512 :: 64 word) \<noteq> 0" by simp
  note b = szlog2_bounds [OF this]
  have "(2::nat) ^ 9 < 2 ^ (szlog2 512 + 1)" "(2::nat) ^ szlog2 512 < 2 ^ 10" using b by simp_all
  then have "9 < szlog2 512 + 1" "szlog2 512 < 10" using power_less_imp_less_exp [of "2::nat" 9 "szlog2 512 + 1"]
      power_less_imp_less_exp [of "2::nat" "szlog2 512" 10] by linarith+
  then show ?thesis by simp
qed

text \<open>The chain of a size, as soon as the precomputed decrement is in place.\<close>

lemma getxfi_eq:
  assumes "xma_bdec x = 9" "16 \<le> sz" "sz < 2 ^ 64"
  shows "getxfi x sz = (if sz < 528 then sz div 16 - 1 else szlog2 (of_nat sz) + 23)"
proof -
  obtain q where q: "sz div 16 = q + 1" using assms(2) by (metis add.commute div_greater_zero_iff less_eqE One_nat_def Suc_leI zero_less_numeral)
  have "q < 2 ^ 64" using assms(3) q by linarith
  then have d: "(sz div 16 + (2 ^ 64 - 1)) mod 2 ^ 64 = sz div 16 - 1" unfolding q by simp
  have l: "(szlog2 (of_nat sz) + (2 ^ 64 - 9) + 32) mod 2 ^ 64 = szlog2 (of_nat sz) + 23" "szlog2 (of_nat sz) \<le> 63" if "528 \<le> sz"
  proof -
    have "unat (of_nat sz :: 64 word) = sz" using assms(3) by (simp add: unat_of_nat)
    then have "(of_nat sz :: 64 word) \<noteq> 0" using that by (metis le_zero_eq unat_0_iff numeral_neq_zero zero_neq_numeral)
    from szlog2_bounds(3) [OF this] show s: "szlog2 (of_nat sz) \<le> 63" .
    have "szlog2 (of_nat sz) + (2 ^ 64 - 9) + 32 = (szlog2 (of_nat sz) + 23) + 2 ^ 64" by simp
    moreover have "szlog2 (of_nat sz) + 23 < 2 ^ 64" using s by simp
    ultimately show "(szlog2 (of_nat sz) + (2 ^ 64 - 9) + 32) mod 2 ^ 64 = szlog2 (of_nat sz) + 23"
      by (metis mod_add_self2 mod_less)
  qed
  show ?thesis
  proof (cases "sz < 528")
    case True
    then have "sz div 16 < 33" by simp
    then show ?thesis using True unfolding getxfi_def XMA_ALIGN_def d assms(1) by (simp add: Let_def)
  next
    case False
    then have "\<not> sz div 16 - 1 < 32" by simp
    then show ?thesis using False l unfolding getxfi_def XMA_ALIGN_def d assms(1) by simp
  qed
qed

lemma getxfi_le: "getxfi x sz \<le> 95"
  by (simp add: getxfi_def Let_def)

lemma getxfi_large:
  assumes "xma_bdec x = 9" "528 \<le> sz" "sz < 2 ^ 64"
  shows "32 \<le> getxfi x sz" "getxfi x sz \<le> 86" "of_nat sz \<noteq> (0 :: 64 word)"
proof -
  have u: "unat (of_nat sz :: 64 word) = sz" using assms(3) by (simp add: unat_of_nat)
  then show z: "(of_nat sz :: 64 word) \<noteq> 0" using assms(2) by (metis le_zero_eq unat_0_iff numeral_neq_zero zero_neq_numeral)
  have "unat (512 :: 64 word) \<le> unat (of_nat sz :: 64 word)" using u assms(2) by simp
  then have "9 \<le> szlog2 (of_nat sz)" using szlog2_mono [of 512 "of_nat sz"] szlog2_512 by simp
  then show "32 \<le> getxfi x sz" "getxfi x sz \<le> 86" using szlog2_bounds(3) [OF z] getxfi_eq [OF assms(1) _ assms(3)] assms(2) by simp_all
qed

lemma getxfi_mono:
  assumes "xma_bdec x = 9" "16 \<le> sz" "sz \<le> sz'" "sz' < 2 ^ 64"
  shows "getxfi x sz \<le> getxfi x sz'"
proof -
  have s: "sz < 2 ^ 64" using assms by linarith
  consider "sz' < 528" | "sz < 528" "528 \<le> sz'" | "528 \<le> sz" by linarith
  then show ?thesis
  proof cases
    case 1
    then show ?thesis using assms s by (simp add: getxfi_eq div_le_mono)
  next
    case 2
    then have "sz div 16 < 33" by simp
    then show ?thesis using 2 getxfi_large(1) [of x sz'] getxfi_eq [of x sz] assms s by simp
  next
    case 3
    have "unat (of_nat sz :: 64 word) \<le> unat (of_nat sz' :: 64 word)" using assms s by (simp add: unat_of_nat)
    then have "szlog2 (of_nat sz) \<le> szlog2 (of_nat sz')" using szlog2_mono getxfi_large(3) [OF assms(1) 3 s] by blast
    then show ?thesis using 3 assms s by (simp add: getxfi_eq)
  qed
qed

lemma getxfi_cong: "xma_bdec x = xma_bdec y \<Longrightarrow> getxfi x = getxfi y"
  by (intro ext) (simp only: getxfi_def)

end
