(* ===== verification/Qse_Xma_Lists.thy ===== *)
theory Qse_Xma_Lists
  imports Qse_Xma
begin

text \<open>
  The free lists of the zone allocator: the doubly linked list of each chain, and what attaching, detaching and searching do to the set of free blocks.
\<close>

section \<open>Fields after an assignment\<close>

lemmas setters = upd_blk_def set_size_def set_free_def set_prev_def set_fprev_def set_fnext_def set_xfree_def upd_stat_def

lemma set_size_get [simp]:
  "size_at (set_size a v x) b = (if b = a then v else size_at x b)" "free_at (set_size a v x) b = free_at x b"
  "prev_at (set_size a v x) b = prev_at x b" "fprev_at (set_size a v x) b = fprev_at x b" "fnext_at (set_size a v x) b = fnext_at x b"
  by (simp_all add: setters)

lemma set_free_get [simp]:
  "size_at (set_free a v x) b = size_at x b" "free_at (set_free a w x) b = (if b = a then w else free_at x b)"
  "prev_at (set_free a v x) b = prev_at x b" "fprev_at (set_free a v x) b = fprev_at x b" "fnext_at (set_free a v x) b = fnext_at x b"
  by (simp_all add: setters)

lemma set_prev_get [simp]:
  "size_at (set_prev a v x) b = size_at x b" "free_at (set_prev a v x) b = free_at x b"
  "prev_at (set_prev a v x) b = (if b = a then v else prev_at x b)" "fprev_at (set_prev a v x) b = fprev_at x b"
  "fnext_at (set_prev a v x) b = fnext_at x b"
  by (simp_all add: setters)

lemma set_fprev_get [simp]:
  "size_at (set_fprev a v x) b = size_at x b" "free_at (set_fprev a v x) b = free_at x b"
  "prev_at (set_fprev a v x) b = prev_at x b" "fprev_at (set_fprev a v x) b = (if b = a then v else fprev_at x b)"
  "fnext_at (set_fprev a v x) b = fnext_at x b"
  by (simp_all add: setters)

lemma set_fnext_get [simp]:
  "size_at (set_fnext a v x) b = size_at x b" "free_at (set_fnext a v x) b = free_at x b"
  "prev_at (set_fnext a v x) b = prev_at x b" "fprev_at (set_fnext a v x) b = fprev_at x b"
  "fnext_at (set_fnext a v x) b = (if b = a then v else fnext_at x b)"
  by (simp_all add: setters)

lemma set_xfree_get [simp]: "xma_blk (set_xfree i v x) = xma_blk x" "xma_blk (upd_stat f x) = xma_blk x"
  "xma_xfree (set_xfree i v x) = (xma_xfree x)[i := v]"
  by (simp_all add: setters)

lemma same_xfree [simp]: "xma_xfree (set_size a v x) = xma_xfree x" "xma_xfree (set_free a w x) = xma_xfree x"
  "xma_xfree (set_prev a v x) = xma_xfree x" "xma_xfree (set_fprev a v x) = xma_xfree x" "xma_xfree (set_fnext a v x) = xma_xfree x"
  "xma_xfree (upd_stat f x) = xma_xfree x"
  by (simp_all add: setters)

lemma same_bdec [simp]: "xma_bdec (set_size a v x) = xma_bdec x" "xma_bdec (set_free a w x) = xma_bdec x"
  "xma_bdec (set_prev a v x) = xma_bdec x" "xma_bdec (set_fprev a v x) = xma_bdec x" "xma_bdec (set_fnext a v x) = xma_bdec x"
  "xma_bdec (set_xfree i v x) = xma_bdec x" "xma_bdec (upd_stat f x) = xma_bdec x"
  by (simp_all add: setters)

lemma same_stat [simp]: "xma_stat (set_size a v x) = xma_stat x" "xma_stat (set_free a w x) = xma_stat x"
  "xma_stat (set_prev a v x) = xma_stat x" "xma_stat (set_fprev a v x) = xma_stat x" "xma_stat (set_fnext a v x) = xma_stat x"
  "xma_stat (set_xfree i v x) = xma_stat x" "xma_stat (upd_stat f x) = f (xma_stat x)"
  by (simp_all add: setters)

lemma same_end [simp]: "xma_end (set_size a v x) = xma_end x" "xma_end (set_free a w x) = xma_end x"
  "xma_end (set_prev a v x) = xma_end x" "xma_end (set_fprev a v x) = xma_end x" "xma_end (set_fnext a v x) = xma_end x"
  "xma_end (set_xfree i v x) = xma_end x" "xma_end (upd_stat f x) = xma_end x" "xma_start (set_size a v x) = xma_start x"
  "xma_start (set_free a w x) = xma_start x" "xma_start (set_prev a v x) = xma_start x" "xma_start (set_fprev a v x) = xma_start x"
  "xma_start (set_fnext a v x) = xma_start x" "xma_start (set_xfree i v x) = xma_start x" "xma_start (upd_stat f x) = xma_start x"
  by (simp_all add: setters)

definition frame :: "qse_xma \<Rightarrow> addr \<times> addr \<times> bool \<times> nat \<times> mem" where
  "frame x = (xma_start x, xma_end x, xma_internal x, xma_bdec x, xma_mem x)"

lemma same_frame [simp]: "frame (set_size a v x) = frame x" "frame (set_free a w x) = frame x"
  "frame (set_prev a v x) = frame x" "frame (set_fprev a v x) = frame x" "frame (set_fnext a v x) = frame x"
  "frame (set_xfree i v x) = frame x" "frame (upd_stat f x) = frame x"
  by (simp_all add: setters frame_def)

lemma frame_eqD: "frame x = frame y \<Longrightarrow> xma_start x = xma_start y \<and> xma_end x = xma_end y \<and> xma_internal x = xma_internal y \<and>
    xma_bdec x = xma_bdec y \<and> xma_mem x = xma_mem y"
  by (simp add: frame_def)

section \<open>Doubly linked lists\<close>

text \<open>The links from \<open>h\<close>, whose predecessor is \<open>p\<close>, along \<open>ls\<close> to \<open>m\<close>, whose predecessor is \<open>q\<close>.\<close>

fun dls :: "qse_xma \<Rightarrow> addr \<Rightarrow> addr \<Rightarrow> addr list \<Rightarrow> addr \<Rightarrow> addr \<Rightarrow> bool" where
  "dls x h p [] m q \<longleftrightarrow> h = m \<and> p = q"
| "dls x h p (b # bs) m q \<longleftrightarrow> h = b \<and> b \<noteq> QSE_NULL \<and> fprev_at x b = p \<and> dls x (fnext_at x b) b bs m q"

lemma dls_append: "dls x h p (as @ bs) m q \<longleftrightarrow> (\<exists>h' p'. dls x h p as h' p' \<and> dls x h' p' bs m q)"
  by (induction as arbitrary: h p) auto

lemma dls_cong:
  "\<forall>b \<in> set ls. fprev_at x b = fprev_at y b \<and> fnext_at x b = fnext_at y b \<Longrightarrow> dls x h p ls m q = dls y h p ls m q"
  by (induction ls arbitrary: h p) auto

lemma dls_null: "dls x h p ls m q \<Longrightarrow> QSE_NULL \<notin> set ls"
  by (induction ls arbitrary: h p) auto

lemma dls_last: "dls x h p ls m q \<Longrightarrow> ls \<noteq> [] \<Longrightarrow> q = last ls \<and> fnext_at x q = m"
  by (induction ls arbitrary: h p) (auto split: if_splits)

lemma dls_head: "dls x h p ls QSE_NULL q \<Longrightarrow> h = (if ls = [] then QSE_NULL else hd ls)"
  by (cases ls) auto

text \<open>The links after a block has been taken out of the middle of its list.\<close>

lemma dls_remove:
  assumes d: "dls x h QSE_NULL (pre @ b # post) QSE_NULL q" and "distinct (pre @ b # post)"
    and xn: "\<And>a. fnext_at x' a = (if pre \<noteq> [] \<and> a = last pre then fnext_at x b else fnext_at x a)"
    and xp: "\<And>a. fprev_at x' a = (if post \<noteq> [] \<and> a = hd post then fprev_at x b else fprev_at x a)"
  shows "\<exists>q'. dls x' (if pre = [] then fnext_at x b else h) QSE_NULL (pre @ post) QSE_NULL q'"
    "fprev_at x b = (if pre = [] then QSE_NULL else last pre)" "fnext_at x b = (if post = [] then QSE_NULL else hd post)"
    "pre = [] \<Longrightarrow> h = b"
proof -
  obtain p where dp: "dls x h QSE_NULL pre b p" and fb: "fprev_at x b = p" and ds: "dls x (fnext_at x b) b post QSE_NULL q"
    using d by (auto simp: dls_append)
  show fp: "fprev_at x b = (if pre = [] then QSE_NULL else last pre)" using dp fb dls_last [OF dp] by (cases pre) auto
  show fn: "fnext_at x b = (if post = [] then QSE_NULL else hd post)" using dls_head [OF ds] .
  show "pre = [] \<Longrightarrow> h = b" using dp by simp
  have post: "\<exists>q'. dls x' (fnext_at x b) p post QSE_NULL q'"
  proof (cases post)
    case Nil
    then show ?thesis using fn by simp
  next
    case (Cons c cs)
    then have "last pre \<notin> set post" if "pre \<noteq> []" using assms(2) that last_in_set by fastforce
    then have e: "fnext_at x' a = fnext_at x a" if "a \<in> set post" for a using that xn by auto
    have "dls x (fnext_at x c) c cs QSE_NULL q" using ds Cons by simp
    then have "dls x' (fnext_at x c) c cs QSE_NULL q"
      using assms(2) Cons e xp by (subst dls_cong [where y = x]) auto
    moreover have "fprev_at x' c = p" "fnext_at x b = c" "c \<noteq> QSE_NULL" using xp Cons fb ds by auto
    ultimately show ?thesis using Cons e by auto
  qed
  show "\<exists>q'. dls x' (if pre = [] then fnext_at x b else h) QSE_NULL (pre @ post) QSE_NULL q'"
  proof (cases pre rule: rev_cases)
    case Nil
    then show ?thesis using post dp by simp
  next
    case (snoc as a)
    have pp: "hd post \<notin> set pre" if "post \<noteq> []" using assms(2) that hd_in_set by fastforce
    have n: "fnext_at x' c = fnext_at x c" if "c \<in> set as" for c using that xn snoc assms(2) by auto
    have p': "fprev_at x' c = fprev_at x c" if "c \<in> set pre" for c using that xp pp by auto
    obtain p0 where "dls x h QSE_NULL as a p0" "fprev_at x a = p0" "a \<noteq> QSE_NULL" using dp snoc by (auto simp: dls_append)
    moreover from this have "dls x' h QSE_NULL as a p0" using n p' snoc by (subst dls_cong [where y = x]) auto
    moreover have "fnext_at x' a = fnext_at x b" "p = a" using xn snoc fp fb by auto
    ultimately have "dls x' h QSE_NULL pre (fnext_at x b) p" using snoc p' by (auto simp: dls_append)
    then show ?thesis using post snoc by (auto simp: dls_append)
  qed
qed

section \<open>The free lists\<close>

definition lists :: "qse_xma \<Rightarrow> (nat \<Rightarrow> addr list) \<Rightarrow> bool" where
  "lists x fl \<longleftrightarrow> length (xma_xfree x) = 96 \<and>
     (\<forall>i < 96. distinct (fl i) \<and> (\<exists>q. dls x (xma_xfree x ! i) QSE_NULL (fl i) QSE_NULL q) \<and> (\<forall>b \<in> set (fl i). getxfi x (size_at x b) = i))"

definition listed :: "qse_xma \<Rightarrow> addr set \<Rightarrow> bool" where
  "listed x F \<longleftrightarrow> (\<exists>fl. lists x fl \<and> F = (\<Union>i < 96. set (fl i)))"

lemma listsD:
  assumes "lists x fl" "i < 96"
  shows "distinct (fl i)" "\<exists>q. dls x (xma_xfree x ! i) QSE_NULL (fl i) QSE_NULL q" "\<forall>b \<in> set (fl i). getxfi x (size_at x b) = i"
  using assms unfolding lists_def by blast+

lemma lists_disjoint: "lists x fl \<Longrightarrow> i < 96 \<Longrightarrow> j < 96 \<Longrightarrow> j \<noteq> i \<Longrightarrow> c \<in> set (fl j) \<Longrightarrow> c \<notin> set (fl i)"
  using listsD(3) [of x fl i] listsD(3) [of x fl j] by auto

lemma UN_upd: "i < n \<Longrightarrow> (\<Union>j < n. set ((fl(i := l)) j)) = set l \<union> (\<Union>j \<in> {..<n} - {i}. set (fl j))" for n :: nat
  by (auto split: if_splits)

lemma listed_null: "listed x F \<Longrightarrow> QSE_NULL \<notin> F"
  by (auto simp: listed_def lists_def dest: dls_null)

lemma listed_length: "listed x F \<Longrightarrow> length (xma_xfree x) = 96"
  by (auto simp: listed_def lists_def)

lemma listed_cong:
  assumes "listed x F" "xma_xfree y = xma_xfree x" "xma_bdec y = xma_bdec x"
    "\<And>b. b \<in> F \<Longrightarrow> size_at y b = size_at x b \<and> fprev_at y b = fprev_at x b \<and> fnext_at y b = fnext_at x b"
  shows "listed y F"
proof -
  obtain fl where l: "lists x fl" and F: "F = (\<Union>i < 96. set (fl i))" using assms(1) by (auto simp: listed_def)
  have "dls y h p (fl i) m q = dls x h p (fl i) m q" if "i < 96" for i h p m q
    using assms(4) that F by (intro dls_cong) blast
  moreover have "size_at y b = size_at x b" if "i < 96" "b \<in> set (fl i)" for i b using assms(4) that F by blast
  ultimately have "lists y fl" using l assms(2) getxfi_cong [OF assms(3)] by (simp add: lists_def)
  then show ?thesis using F by (auto simp: listed_def)
qed

lemma listed_set_size: "listed x F \<Longrightarrow> a \<notin> F \<Longrightarrow> listed (set_size a v x) F"
  by (erule listed_cong) auto
lemma listed_set_free: "listed x F \<Longrightarrow> listed (set_free a w x) F"
  by (erule listed_cong) auto
lemma listed_set_prev: "listed x F \<Longrightarrow> listed (set_prev a v x) F"
  by (erule listed_cong) auto
lemma listed_upd_stat: "listed x F \<Longrightarrow> listed (upd_stat f x) F"
  by (erule listed_cong) auto

lemmas listed_intros = listed_set_size listed_set_free listed_set_prev listed_upd_stat

lemma find_fit_dls:
  assumes "dls x h p ls QSE_NULL q"
  shows "\<exists>c. find_fit x h sz = Some c \<and> (c = QSE_NULL \<longrightarrow> (\<forall>b \<in> set ls. size_at x b < sz)) \<and>
    (c \<noteq> QSE_NULL \<longrightarrow> c \<in> set ls \<and> sz \<le> size_at x c)"
  using assms
proof (induction ls arbitrary: h p)
  case Nil
  then show ?case by (subst find_fit.simps) simp
next
  case (Cons b bs)
  then have "h = b" "b \<noteq> QSE_NULL" by auto
  then show ?case using Cons.IH [of "fnext_at x b" b] Cons.prems by (subst find_fit.simps) auto
qed

lemma find_fit_listed:
  assumes "listed x F" "i < 96"
  shows "\<exists>c. find_fit x (xma_xfree x ! i) sz = Some c \<and> (c = QSE_NULL \<longrightarrow> (\<forall>b \<in> F. getxfi x (size_at x b) = i \<longrightarrow> size_at x b < sz)) \<and>
    (c \<noteq> QSE_NULL \<longrightarrow> c \<in> F \<and> sz \<le> size_at x c)"
proof -
  obtain fl where l: "lists x fl" and F: "F = (\<Union>i < 96. set (fl i))" using assms(1) by (auto simp: listed_def)
  obtain q where q: "dls x (xma_xfree x ! i) QSE_NULL (fl i) QSE_NULL q" using l assms(2) by (auto simp: lists_def)
  have "b \<in> set (fl i)" if "b \<in> F" "getxfi x (size_at x b) = i" for b using that listsD(3) [OF l] F by auto
  then show ?thesis using find_fit_dls [OF q, of sz] F assms(2) by blast
qed

lemma listed_head:
  assumes "listed x F" "i < 96"
  shows "xma_xfree x ! i = QSE_NULL \<Longrightarrow> \<forall>b \<in> F. getxfi x (size_at x b) \<noteq> i"
    "xma_xfree x ! i \<noteq> QSE_NULL \<Longrightarrow> xma_xfree x ! i \<in> F \<and> getxfi x (size_at x (xma_xfree x ! i)) = i"
proof -
  obtain fl where l: "lists x fl" and F: "F = (\<Union>i < 96. set (fl i))" using assms(1) by (auto simp: listed_def)
  obtain q where q: "dls x (xma_xfree x ! i) QSE_NULL (fl i) QSE_NULL q" using l assms(2) by (auto simp: lists_def)
  note h = dls_head [OF q]
  have m: "b \<in> set (fl i)" if "b \<in> F" "getxfi x (size_at x b) = i" for b using that listsD(3) [OF l] F by auto
  show "xma_xfree x ! i = QSE_NULL \<Longrightarrow> \<forall>b \<in> F. getxfi x (size_at x b) \<noteq> i"
    using h m dls_null [OF q] by (metis hd_in_set empty_iff empty_set)
  assume "xma_xfree x ! i \<noteq> QSE_NULL"
  then have "xma_xfree x ! i \<in> set (fl i)" using h by (metis hd_in_set)
  then show "xma_xfree x ! i \<in> F \<and> getxfi x (size_at x (xma_xfree x ! i)) = i" using l F assms(2) by (auto simp: lists_def)
qed

text \<open>Taking a block out of its list and putting one in front of its list; headers other than the links stay.\<close>

lemma detach_same:
  "size_at (detach_from_freelist x b) a = size_at x a" "free_at (detach_from_freelist x b) a = free_at x a"
  "prev_at (detach_from_freelist x b) a = prev_at x a" "xma_stat (detach_from_freelist x b) = xma_stat x"
  "frame (detach_from_freelist x b) = frame x" "xma_bdec (detach_from_freelist x b) = xma_bdec x"
  "xma_end (detach_from_freelist x b) = xma_end x" "xma_start (detach_from_freelist x b) = xma_start x"
  by (auto simp: detach_from_freelist_def Let_def)

lemma attach_same:
  "size_at (attach_to_freelist x b) a = size_at x a" "free_at (attach_to_freelist x b) a = free_at x a"
  "prev_at (attach_to_freelist x b) a = prev_at x a" "xma_stat (attach_to_freelist x b) = xma_stat x"
  "frame (attach_to_freelist x b) = frame x" "xma_bdec (attach_to_freelist x b) = xma_bdec x"
  "xma_end (attach_to_freelist x b) = xma_end x" "xma_start (attach_to_freelist x b) = xma_start x"
  by (auto simp: attach_to_freelist_def Let_def)

text \<open>A listed block without predecessor is the head of its chain.\<close>

lemma listed_first:
  assumes "listed x F" "b \<in> F" "fprev_at x b = QSE_NULL"
  shows "xma_xfree x ! getxfi x (size_at x b) = b"
proof -
  obtain fl where l: "lists x fl" and F: "F = (\<Union>i < 96. set (fl i))" using assms(1) by (auto simp: listed_def)
  obtain i where i: "i < 96" "b \<in> set (fl i)" using assms(2) F by auto
  then obtain pre post where s: "fl i = pre @ b # post" by (meson split_list)
  have xi: "getxfi x (size_at x b) = i" using listsD(3) [OF l i(1)] i(2) by blast
  obtain q where q: "dls x (xma_xfree x ! i) QSE_NULL (pre @ b # post) QSE_NULL q" using listsD(2) [OF l i(1)] s by auto
  show ?thesis using q assms(3) dls_null [OF q] unfolding xi by (cases pre rule: rev_cases) (auto simp: dls_append [of _ _ _ "_ @ [_]"] dls_append)
qed

lemma listed_detach:
  assumes "listed x F" "b \<in> F"
  shows "listed (detach_from_freelist x b) (F - {b})"
proof -
  let ?x = "detach_from_freelist x b" and ?p = "fprev_at x b" and ?n = "fnext_at x b"
  obtain fl where l: "lists x fl" and F: "F = (\<Union>i < 96. set (fl i))" using assms(1) by (auto simp: listed_def)
  obtain i where i: "i < 96" "b \<in> set (fl i)" using assms(2) F by auto
  then obtain pre post where s: "fl i = pre @ b # post" by (meson split_list)
  have xi: "getxfi x (size_at x b) = i" "distinct (fl i)" using listsD(1,3) [OF l i(1)] i(2) by blast+
  then have dist: "distinct (pre @ b # post)" using s by simp
  obtain q where q: "dls x (xma_xfree x ! i) QSE_NULL (pre @ b # post) QSE_NULL q" using listsD(2) [OF l i(1)] s by auto
  note rem = dls_remove [OF q dist]
  have pn: "?p = (if pre = [] then QSE_NULL else last pre)" "?n = (if post = [] then QSE_NULL else hd post)"
    using rem(2,3) [of "x\<lparr>xma_blk := \<lambda>a. (xma_blk x a)\<lparr>b_free_next := if pre \<noteq> [] \<and> a = last pre then ?n else fnext_at x a,
      b_free_prev := if post \<noteq> [] \<and> a = hd post then ?p else fprev_at x a\<rparr>\<rparr>"] by simp_all
  have nn: "QSE_NULL \<notin> set (pre @ b # post)" using dls_null [OF q] .
  then have ln: "pre \<noteq> [] \<Longrightarrow> last pre \<noteq> QSE_NULL" "post \<noteq> [] \<Longrightarrow> hd post \<noteq> QSE_NULL"
    using last_in_set hd_in_set by fastforce+
  have xn: "fnext_at ?x a = (if pre \<noteq> [] \<and> a = last pre then ?n else fnext_at x a)" for a
    using pn ln by (auto simp: detach_from_freelist_def Let_def)
  have xp: "fprev_at ?x a = (if post \<noteq> [] \<and> a = hd post then ?p else fprev_at x a)" for a
    using pn ln by (auto simp: detach_from_freelist_def Let_def)
  have len: "length (xma_xfree x) = 96" using l by (simp add: lists_def)
  have hd_i: "xma_xfree ?x ! i = (if pre = [] then ?n else xma_xfree x ! i)"
    using pn ln xi len i by (auto simp: detach_from_freelist_def Let_def)
  have hd_j: "xma_xfree ?x ! j = xma_xfree x ! j" "length (xma_xfree ?x) = 96" if "j \<noteq> i" for j
    using xi that len by (auto simp: detach_from_freelist_def Let_def)
  have other: "dls ?x h p (fl j) m q' = dls x h p (fl j) m q'" if "j < 96" "j \<noteq> i" for j h p m q'
  proof (rule dls_cong, rule ballI)
    fix c assume "c \<in> set (fl j)"
    then have "c \<notin> set (fl i)" using lists_disjoint [OF l i(1)] that by blast
    then have "pre \<noteq> [] \<Longrightarrow> c \<noteq> last pre" "post \<noteq> [] \<Longrightarrow> c \<noteq> hd post" using s last_in_set hd_in_set by fastforce+
    then show "fprev_at ?x c = fprev_at x c \<and> fnext_at ?x c = fnext_at x c" using xn [of c] xp [of c] by auto
  qed
  have g: "getxfi ?x = getxfi x" by (rule getxfi_cong) (rule detach_same)
  have "lists ?x (fl(i := pre @ post))"
    unfolding lists_def
  proof (intro conjI allI impI)
    show "length (xma_xfree ?x) = 96" using hd_j(2) [of "Suc i"] by simp
    fix j assume j: "j < (96::nat)"
    note lj = listsD [OF l j]
    show "distinct ((fl(i := pre @ post)) j)" using lj(1) dist by simp
    show "\<exists>q. dls ?x (xma_xfree ?x ! j) QSE_NULL ((fl(i := pre @ post)) j) QSE_NULL q"
      using lj(2) other [OF j] hd_j(1) rem(1) [OF xn xp] hd_i by (cases "j = i") simp_all
    show "\<forall>c \<in> set ((fl(i := pre @ post)) j). getxfi ?x (size_at ?x c) = j"
      unfolding g detach_same using lj(3) s by auto
  qed
  moreover have "F - {b} = (\<Union>j < 96. set ((fl(i := pre @ post)) j))"
  proof -
    have "b \<notin> set (fl j)" if "j < 96" "j \<noteq> i" for j using lists_disjoint [OF l that(1) i(1)] that(2) i(2) by blast
    moreover have "set (fl i) = insert b (set (pre @ post))" "b \<notin> set (pre @ post)" using s dist by auto
    ultimately show ?thesis unfolding UN_upd [OF i(1)] using F UN_upd [OF i(1), of fl "fl i"] by auto
  qed
  ultimately show ?thesis unfolding listed_def by blast
qed

lemma listed_attach:
  assumes "listed x F" "b \<notin> F" "b \<noteq> QSE_NULL"
  shows "listed (attach_to_freelist x b) (insert b F)"
proof -
  let ?x = "attach_to_freelist x b" and ?i = "getxfi x (size_at x b)"
  let ?h = "xma_xfree x ! ?i"
  obtain fl where l: "lists x fl" and F: "F = (\<Union>i < 96. set (fl i))" using assms(1) by (auto simp: listed_def)
  have i: "?i < 96" using getxfi_le [of x "size_at x b"] by simp
  obtain q where q: "dls x ?h QSE_NULL (fl ?i) QSE_NULL q" using l i by (auto simp: lists_def)
  have len: "length (xma_xfree x) = 96" using l by (simp add: lists_def)
  have bn: "b \<notin> set (fl j)" if "j < 96" for j using assms(2) F that by blast
  have hb: "?h \<noteq> b" using dls_head [OF q] bn [OF i] assms(3) hd_in_set by metis
  have xn: "fnext_at ?x a = (if a = b then ?h else fnext_at x a)" for a by (auto simp: attach_to_freelist_def Let_def)
  have xp: "fprev_at ?x a = (if a = b then QSE_NULL else if ?h \<noteq> QSE_NULL \<and> a = ?h then b else fprev_at x a)" for a
    using hb by (auto simp: attach_to_freelist_def Let_def)
  have xf: "xma_xfree ?x = (xma_xfree x)[?i := b]" by (auto simp: attach_to_freelist_def Let_def)
  have di: "\<exists>q. dls ?x b QSE_NULL (b # fl ?i) QSE_NULL q"
  proof (cases "fl ?i")
    case Nil
    then show ?thesis using xn xp assms(3) q by auto
  next
    case (Cons c cs)
    then have c: "?h = c" "c \<noteq> QSE_NULL" "dls x (fnext_at x c) c cs QSE_NULL q" using q by auto
    have "c \<notin> set cs" "b \<notin> set cs" using listsD(1) [OF l i] Cons bn [OF i] by simp_all
    then have "dls ?x (fnext_at x c) c cs QSE_NULL q" using c xn xp by (subst dls_cong [where y = x]) auto
    then show ?thesis using Cons c xn xp assms(3) hb by auto
  qed
  have other: "dls ?x h p (fl j) m q' = dls x h p (fl j) m q'" if "j < 96" "j \<noteq> ?i" for j h p m q'
  proof (rule dls_cong, rule ballI)
    fix c assume c: "c \<in> set (fl j)"
    then have "c \<notin> set (fl ?i)" using lists_disjoint [OF l i] that by blast
    then have "?h \<noteq> QSE_NULL \<Longrightarrow> c \<noteq> ?h" using dls_head [OF q] hd_in_set by metis
    then show "fprev_at ?x c = fprev_at x c \<and> fnext_at ?x c = fnext_at x c" using xn xp c bn [OF that(1)] by auto
  qed
  have g: "getxfi ?x = getxfi x" by (intro getxfi_cong) (simp add: attach_same)
  have "lists ?x (fl(?i := b # fl ?i))"
    unfolding lists_def
  proof (intro conjI allI impI)
    show "length (xma_xfree ?x) = 96" using xf len by simp
    fix j assume j: "j < (96::nat)"
    note lj = listsD [OF l j]
    show "distinct ((fl(?i := b # fl ?i)) j)" using lj(1) bn [OF i] by auto
    show "\<exists>q. dls ?x (xma_xfree ?x ! j) QSE_NULL ((fl(?i := b # fl ?i)) j) QSE_NULL q"
      using lj(2) other [OF j] di i unfolding xf by (cases "j = ?i") (simp_all add: len)
    show "\<forall>c \<in> set ((fl(?i := b # fl ?i)) j). getxfi ?x (size_at ?x c) = j"
      unfolding g attach_same using lj(3) by simp
  qed
  moreover have "insert b F = (\<Union>j < 96. set ((fl(?i := b # fl ?i)) j))" 
    unfolding UN_upd [OF i] using F UN_upd [OF i, of fl "fl ?i"] by simp
  ultimately show ?thesis unfolding listed_def by blast
qed

end
