(* ===== verification/Qse_Xma_Zone.thy ===== *)
theory Qse_Xma_Zone
  imports Qse_Prelude
begin

text \<open>
  The blocks of a zone, apart from their free lists: a set \<open>B\<close> of block addresses with a size \<open>sz\<close> and the size \<open>pv\<close> of the block before it
  tiles the zone from \<open>s\<close> to \<open>e\<close>. Every block has a header of 16 bytes. Splitting a block and joining two neighbours keep the tiling.
\<close>

definition nxt :: "(nat \<Rightarrow> nat) \<Rightarrow> nat \<Rightarrow> nat" where
  "nxt sz b = b + 16 + sz b"

definition tiling :: "nat \<Rightarrow> nat \<Rightarrow> (nat \<Rightarrow> nat) \<Rightarrow> (nat \<Rightarrow> nat) \<Rightarrow> nat set \<Rightarrow> bool" where
  "tiling s e sz pv B \<longleftrightarrow> finite B \<and> s \<in> B \<and> 0 < s \<and> pv s = 0 \<and>
     (\<forall>b \<in> B. s \<le> b \<and> 16 \<le> sz b \<and> b mod 16 = s mod 16 \<and> nxt sz b \<le> e \<and> (nxt sz b = e \<or> nxt sz b \<in> B)) \<and>
     (\<forall>b \<in> B. \<forall>c \<in> B. b < c \<longrightarrow> nxt sz b \<le> c) \<and>
     (\<forall>b \<in> B. nxt sz b \<in> B \<longrightarrow> pv (nxt sz b) = sz b)"

lemma tilingI:
  assumes "finite B" "s \<in> B" "0 < s" "pv s = 0"
    "\<And>b. b \<in> B \<Longrightarrow> s \<le> b" "\<And>b. b \<in> B \<Longrightarrow> 16 \<le> sz b" "\<And>b. b \<in> B \<Longrightarrow> b mod 16 = s mod 16" "\<And>b. b \<in> B \<Longrightarrow> nxt sz b \<le> e"
    "\<And>b. b \<in> B \<Longrightarrow> nxt sz b = e \<or> nxt sz b \<in> B" "\<And>b c. b \<in> B \<Longrightarrow> c \<in> B \<Longrightarrow> b < c \<Longrightarrow> nxt sz b \<le> c"
    "\<And>b. b \<in> B \<Longrightarrow> nxt sz b \<in> B \<Longrightarrow> pv (nxt sz b) = sz b"
  shows "tiling s e sz pv B"
  unfolding tiling_def using assms by blast

lemma tilingD:
  assumes "tiling s e sz pv B"
  shows "finite B" "s \<in> B" "0 < s" "pv s = 0"
    "b \<in> B \<Longrightarrow> s \<le> b" "b \<in> B \<Longrightarrow> 16 \<le> sz b" "b \<in> B \<Longrightarrow> b mod 16 = s mod 16" "b \<in> B \<Longrightarrow> nxt sz b \<le> e"
    "b \<in> B \<Longrightarrow> nxt sz b = e \<or> nxt sz b \<in> B" "b \<in> B \<Longrightarrow> c \<in> B \<Longrightarrow> b < c \<Longrightarrow> nxt sz b \<le> c"
    "b \<in> B \<Longrightarrow> nxt sz b \<in> B \<Longrightarrow> pv (nxt sz b) = sz b"
  using assms unfolding tiling_def by blast+

lemma tiling_end: "tiling s e sz pv B \<Longrightarrow> b \<in> B \<Longrightarrow> b < e"
  using tilingD(8) [of s e sz pv B b] by (simp add: nxt_def)

lemma tiling_next: "tiling s e sz pv B \<Longrightarrow> b \<in> B \<Longrightarrow> nxt sz b < e \<longleftrightarrow> nxt sz b \<in> B"
  using tilingD(9) [of s e sz pv B b] tiling_end [of s e sz pv B "nxt sz b"] by auto

lemma tiling_cong:
  assumes "tiling s e sz pv B" "\<And>a. a \<in> B \<Longrightarrow> sz' a = sz a \<and> pv' a = pv a"
  shows "tiling s e sz' pv' B"
proof -
  have n: "nxt sz' a = nxt sz a" if "a \<in> B" for a using assms(2) that by (simp add: nxt_def)
  have p: "pv' (nxt sz a) = pv (nxt sz a)" if "nxt sz a \<in> B" for a using assms(2) that by blast
  note t = assms(1)
  show ?thesis
  proof (rule tilingI)
    show "finite B" "s \<in> B" "0 < s" using tilingD(1-3) [OF t] .
    show "pv' s = 0" using assms(2) tilingD(2,4) [OF t] by simp
    fix a assume a: "a \<in> B"
    show "s \<le> a" "a mod 16 = s mod 16" using tilingD(5,7) [OF t a] .
    show "16 \<le> sz' a" using assms(2) [OF a] tilingD(6) [OF t a] by simp
    show "nxt sz' a \<le> e" "nxt sz' a = e \<or> nxt sz' a \<in> B" unfolding n [OF a] using tilingD(8,9) [OF t a] .
    show "pv' (nxt sz' a) = sz' a" if "nxt sz' a \<in> B"
      using p tilingD(11) [OF t a] that assms(2) [OF a] unfolding n [OF a] by simp
    fix c assume "c \<in> B" "a < c"
    then show "nxt sz' a \<le> c" unfolding n [OF a] by (rule tilingD(10) [OF t a])
  qed
qed

text \<open>Two blocks do not overlap.\<close>

lemma tiling_disjoint: "tiling s e sz pv B \<Longrightarrow> b \<in> B \<Longrightarrow> c \<in> B \<Longrightarrow> b \<noteq> c \<Longrightarrow> nxt sz b \<le> c \<or> nxt sz c \<le> b"
  using tilingD(10) [of s e sz pv B b c] tilingD(10) [of s e sz pv B c b] by (meson linorder_neqE_nat)

text \<open>Every block but the first has one before it, and knows its size.\<close>

lemma tiling_pred:
  assumes t: "tiling s e sz pv B" and b: "b \<in> B" "b \<noteq> s"
  shows "\<exists>c \<in> B. nxt sz c = b \<and> pv b = sz c"
proof -
  let ?L = "{c \<in> B. c < b}"
  define c where "c = Max ?L"
  have "finite ?L" "s \<in> ?L" using tilingD(1,2) [OF t] tilingD(5) [OF t b(1)] b(2) by auto
  then have c: "c \<in> B" "c < b" and m: "\<And>a. a \<in> B \<Longrightarrow> a < b \<Longrightarrow> a \<le> c" using Max_in [of ?L] Max_ge [of ?L] unfolding c_def by blast+
  have le: "nxt sz c \<le> b" using tilingD(10) [OF t c(1) b(1) c(2)] .
  moreover have "nxt sz c \<in> B" using tiling_next [OF t c(1)] le tiling_end [OF t b(1)] by simp
  moreover have "c < nxt sz c" by (simp add: nxt_def)
  ultimately have "nxt sz c = b" using m [of "nxt sz c"] by fastforce
  then show ?thesis using c(1) tilingD(11) [OF t c(1)] b(1) by auto
qed

lemma tiling_first: "tiling s e sz pv B \<Longrightarrow> b \<in> B \<Longrightarrow> nxt sz b \<noteq> s"
  using tilingD(5) [of s e sz pv B b] by (simp add: nxt_def)

lemma tiling_split:
  assumes t: "tiling s e sz pv B" and b: "b \<in> B" and n: "n mod 16 = 0" "16 \<le> n" "n + 32 \<le> sz b"
    and y: "y = b + 16 + n" and sz': "sz' b = n" "sz' y = sz b - n - 16" "\<And>a. a \<in> B \<Longrightarrow> a \<noteq> b \<Longrightarrow> sz' a = sz a"
    and pv': "pv' y = n" "\<And>a. a \<in> B \<Longrightarrow> pv' a = (if a = nxt sz b then sz b - n - 16 else pv a)"
  shows "y \<notin> B" "tiling s e sz' pv' (insert y B)"
proof -
  have lty: "b < y" "y < nxt sz b" using y n by (simp_all add: nxt_def)
  then show yB: "y \<notin> B" using tilingD(10) [OF t b, of y] by auto
  have ny: "nxt sz' y = nxt sz b" using y n sz' by (simp add: nxt_def)
  have nb: "nxt sz' b = y" using y sz' by (simp add: nxt_def)
  have na: "nxt sz' a = nxt sz a" if "a \<in> B" "a \<noteq> b" for a using sz' that by (simp add: nxt_def)
  have dj: "nxt sz a \<le> b \<or> nxt sz b \<le> a" if "a \<in> B" "a \<noteq> b" for a using tiling_disjoint [OF t that(1) b that(2)] .
  have up: "a < nxt sz a" for a by (simp add: nxt_def)
  show "tiling s e sz' pv' (insert y B)"
  proof (rule tilingI)
    show "finite (insert y B)" "s \<in> insert y B" "0 < s" using tilingD(1-3) [OF t] by auto
    show "pv' s = 0" using pv'(2) [of s] tilingD(2,4) [OF t] tiling_first [OF t b] by auto
    fix a assume a: "a \<in> insert y B"
    show "s \<le> a" using a tilingD(5) [OF t] b lty(1) by fastforce
    show "16 \<le> sz' a" using a tilingD(6) [OF t] sz' n yB by (cases "a = y"; cases "a = b") auto
    show "a mod 16 = s mod 16" using a tilingD(7) [OF t] y n(1) b by (metis insert_iff mod_add_self2 mod_add_left_eq mod_add_right_eq add_0_right)
    show le: "nxt sz' a \<le> e"
      using a ny nb na tilingD(8) [OF t] b lty(2) by (cases "a = y"; cases "a = b") fastforce+
    show "nxt sz' a = e \<or> nxt sz' a \<in> insert y B"
      using a ny nb na tilingD(9) [OF t] b by (metis insert_iff)
    show "pv' (nxt sz' a) = sz' a" if i: "nxt sz' a \<in> insert y B"
    proof -
      consider "a = y" | "a = b" | "a \<in> B" "a \<noteq> b" "a \<noteq> y" using a by auto
      then show ?thesis
      proof cases
        case 1
        then have "nxt sz b \<in> B" using i ny lty(2) by auto
        then show ?thesis using 1 ny pv'(2) sz' by simp
      next
        case 2
        then show ?thesis using nb pv'(1) sz' by simp
      next
        case 3
        have "nxt sz a \<noteq> nxt sz b" "nxt sz a \<noteq> y" using dj [OF 3(1,2)] up [of a] lty by auto
        moreover from this have "nxt sz a \<in> B" using i na 3 by auto
        ultimately show ?thesis using pv'(2) na 3 tilingD(11) [OF t 3(1)] sz' by auto
      qed
    qed
    fix c assume c: "c \<in> insert y B" and lt: "a < c"
    show "nxt sz' a \<le> c"
    proof -
      consider "a = y" "c \<in> B" | "a = b" "c = y" | "a = b" "c \<in> B" | "a \<in> B" "a \<noteq> b" "c = y" | "a \<in> B" "a \<noteq> b" "c \<in> B" using a c lt by auto
      then show ?thesis
      proof cases
        case 1
        then have "b < c" using lt lty(1) by simp
        then show ?thesis using 1 ny tilingD(10) [OF t b, of c] by simp
      next
        case 2
        then show ?thesis using nb by simp
      next
        case 3
        then show ?thesis using nb tilingD(10) [OF t b, of c] lt lty(2) by simp
      next
        case 4
        then show ?thesis using na [OF 4(1,2)] dj [OF 4(1,2)] lt lty by simp
      next
        case 5
        then show ?thesis using na tilingD(10) [OF t 5(1,3) lt] by simp
      qed
    qed
  qed
qed

lemma tiling_join:
  assumes t: "tiling s e sz pv B" and b: "b \<in> B" and y: "y = nxt sz b" "y \<in> B"
    and sz': "sz' b = sz b + 16 + sz y" "\<And>a. a \<in> B \<Longrightarrow> a \<noteq> b \<Longrightarrow> a \<noteq> y \<Longrightarrow> sz' a = sz a"
    and pv': "\<And>a. a \<in> B \<Longrightarrow> a \<noteq> y \<Longrightarrow> pv' a = (if a = nxt sz y then sz' b else pv a)"
  shows "tiling s e sz' pv' (B - {y})"
proof -
  have nb: "nxt sz' b = nxt sz y" using y(1) sz' by (simp add: nxt_def)
  have na: "nxt sz' a = nxt sz a" if "a \<in> B" "a \<noteq> b" "a \<noteq> y" for a using sz' that by (simp add: nxt_def)
  have up: "a < nxt sz a" for a by (simp add: nxt_def)
  have bl: "b \<noteq> y" "b < y" using y up [of b] by simp_all
  have sy: "s \<noteq> y" using tilingD(5) [OF t b] bl by simp
  show ?thesis
  proof (rule tilingI)
    show "finite (B - {y})" "s \<in> B - {y}" "0 < s" using tilingD(1-3) [OF t] sy by auto
    show "pv' s = 0" using pv' [of s] tilingD(2,4) [OF t] tiling_first [OF t y(2)] sy by auto
    fix a assume a: "a \<in> B - {y}"
    show "s \<le> a" "a mod 16 = s mod 16" using a tilingD(5,7) [OF t] by auto
    show "16 \<le> sz' a" using a tilingD(6) [OF t] sz' by (cases "a = b") auto
    show "nxt sz' a \<le> e" using a nb na tilingD(8) [OF t] y(2) by (cases "a = b") auto
    have ny: "nxt sz a \<noteq> y" if "a \<noteq> b" using tiling_disjoint [OF t _ b that] a y(1) up [of b] up [of a] by auto
    show "nxt sz' a = e \<or> nxt sz' a \<in> B - {y}"
      using a nb na tilingD(9) [OF t] y(2) ny up [of y] by (cases "a = b") auto
    show "pv' (nxt sz' a) = sz' a" if i: "nxt sz' a \<in> B - {y}"
    proof (cases "a = b")
      case True
      then show ?thesis using nb pv' [of "nxt sz y"] i by auto
    next
      case False
      have "nxt sz a \<noteq> nxt sz y" using tiling_disjoint [OF t _ y(2), of a] a up [of a] up [of y] by auto
      then show ?thesis using False a i na sz' pv' [of "nxt sz a"] tilingD(11) [OF t, of a] ny by auto
    qed
    fix c assume c: "c \<in> B - {y}" and lt: "a < c"
    show "nxt sz' a \<le> c"
    proof (cases "a = b")
      case True
      then have "y \<le> c" using tilingD(10) [OF t b, of c] c lt y(1) by simp
      then show ?thesis using True nb tilingD(10) [OF t y(2), of c] c by simp
    next
      case False
      then show ?thesis using na a tilingD(10) [OF t, of a c] c lt by simp
    qed
  qed
qed

text \<open>The zone consists of the headers and the bodies of the blocks.\<close>

lemma tiling_total:
  assumes t: "tiling s e sz pv B"
  shows "e - s = sum sz B + 16 * card B"
proof -
  have "{s..<e} = (\<Union>b \<in> B. {b..<nxt sz b})"
  proof (intro equalityI subsetI)
    fix a assume a: "a \<in> {s..<e}"
    let ?L = "{b \<in> B. b \<le> a}"
    have "finite ?L" "?L \<noteq> {}" using tilingD(1,2) [OF t] a by auto
    then have m: "Max ?L \<in> B" "Max ?L \<le> a" and g: "\<And>b. b \<in> B \<Longrightarrow> b \<le> a \<Longrightarrow> b \<le> Max ?L"
      using Max_in [of ?L] Max_ge [of ?L] by blast+
    have "a < nxt sz (Max ?L)"
    proof (rule ccontr)
      assume "\<not> a < nxt sz (Max ?L)"
      then have le: "nxt sz (Max ?L) \<le> a" by simp
      then have "nxt sz (Max ?L) \<in> B" using tiling_next [OF t m(1)] a by simp
      from g [OF this le] show False by (simp add: nxt_def)
    qed
    then show "a \<in> (\<Union>b \<in> B. {b..<nxt sz b})" using m by auto
  next
    fix a assume "a \<in> (\<Union>b \<in> B. {b..<nxt sz b})"
    then show "a \<in> {s..<e}" using tilingD(5,8) [OF t] by fastforce
  qed
  moreover have "card (\<Union>b \<in> B. {b..<nxt sz b}) = (\<Sum>b \<in> B. card {b..<nxt sz b})"
    using tilingD(1) [OF t] tiling_disjoint [OF t] by (intro card_UN_disjoint) fastforce+
  moreover have "(\<Sum>b \<in> B. card {b..<nxt sz b}) = sum sz B + 16 * card B"
    by (simp add: nxt_def sum.distrib)
  ultimately show ?thesis by (metis card_atLeastLessThan)
qed

section \<open>What the statistics count\<close>

definition usum :: "(nat \<Rightarrow> nat) \<Rightarrow> (nat \<Rightarrow> bool) \<Rightarrow> nat set \<Rightarrow> nat" where
  "usum sz fr B = sum sz {b \<in> B. \<not> fr b}"
definition fsum :: "(nat \<Rightarrow> nat) \<Rightarrow> (nat \<Rightarrow> bool) \<Rightarrow> nat set \<Rightarrow> nat" where
  "fsum sz fr B = sum sz {b \<in> B. fr b}"
definition ucnt :: "(nat \<Rightarrow> bool) \<Rightarrow> nat set \<Rightarrow> nat" where
  "ucnt fr B = card {b \<in> B. \<not> fr b}"
definition fcnt :: "(nat \<Rightarrow> bool) \<Rightarrow> nat set \<Rightarrow> nat" where
  "fcnt fr B = card {b \<in> B. fr b}"

lemmas count_defs = usum_def fsum_def ucnt_def fcnt_def

lemma count_cong:
  assumes "\<And>b. b \<in> B \<Longrightarrow> sz' b = sz b \<and> fr' b = fr b"
  shows "usum sz' fr' B = usum sz fr B" "fsum sz' fr' B = fsum sz fr B" "ucnt fr' B = ucnt fr B" "fcnt fr' B = fcnt fr B"
proof -
  have s: "{b \<in> B. \<not> fr' b} = {b \<in> B. \<not> fr b}" "{b \<in> B. fr' b} = {b \<in> B. fr b}" using assms by auto
  show "usum sz' fr' B = usum sz fr B" "fsum sz' fr' B = fsum sz fr B" unfolding usum_def fsum_def s using assms by (auto intro: sum.cong)
  show "ucnt fr' B = ucnt fr B" "fcnt fr' B = fcnt fr B" unfolding ucnt_def fcnt_def s by auto
qed

lemma total_counts:
  assumes "finite B"
  shows "sum sz B + 16 * card B = usum sz fr B + fsum sz fr B + 16 * (ucnt fr B + fcnt fr B)"
proof -
  have B: "B = {b \<in> B. \<not> fr b} \<union> {b \<in> B. fr b}" by auto
  have d: "{b \<in> B. \<not> fr b} \<inter> {b \<in> B. fr b} = {}" by auto
  have "sum sz B = usum sz fr B + fsum sz fr B" "card B = ucnt fr B + fcnt fr B"
    unfolding count_defs using assms by (subst B, subst sum.union_disjoint [OF _ _ d] card_Un_disjoint [OF _ _ d]; simp)+
  then show ?thesis by simp
qed

text \<open>Blocks as one set with a weight: what adding, removing and resizing a block does to a sum and a number.\<close>

lemma counts_insert:
  assumes "finite B" "b \<notin> B"
  shows "usum sz fr (insert b B) = (if fr b then 0 else sz b) + usum sz fr B" "fsum sz fr (insert b B) = (if fr b then sz b else 0) + fsum sz fr B"
    "ucnt fr (insert b B) = (if fr b then 0 else 1) + ucnt fr B" "fcnt fr (insert b B) = (if fr b then 1 else 0) + fcnt fr B"
proof -
  have s: "{c \<in> insert b B. \<not> fr c} = (if fr b then {c \<in> B. \<not> fr c} else insert b {c \<in> B. \<not> fr c})"
    "{c \<in> insert b B. fr c} = (if fr b then insert b {c \<in> B. fr c} else {c \<in> B. fr c})" by auto
  show "usum sz fr (insert b B) = (if fr b then 0 else sz b) + usum sz fr B" "fsum sz fr (insert b B) = (if fr b then sz b else 0) + fsum sz fr B"
    "ucnt fr (insert b B) = (if fr b then 0 else 1) + ucnt fr B" "fcnt fr (insert b B) = (if fr b then 1 else 0) + fcnt fr B"
    unfolding count_defs s using assms by auto
qed

lemma counts_remove:
  assumes "finite B" "b \<in> B"
  shows "usum sz fr B = (if fr b then 0 else sz b) + usum sz fr (B - {b})" "fsum sz fr B = (if fr b then sz b else 0) + fsum sz fr (B - {b})"
    "ucnt fr B = (if fr b then 0 else 1) + ucnt fr (B - {b})" "fcnt fr B = (if fr b then 1 else 0) + fcnt fr (B - {b})"
  using counts_insert [of "B - {b}" b] assms by (simp_all add: insert_absorb)

section \<open>Neighbours\<close>

definition coalesced :: "(nat \<Rightarrow> nat) \<Rightarrow> (nat \<Rightarrow> bool) \<Rightarrow> nat set \<Rightarrow> bool" where
  "coalesced sz fr B \<longleftrightarrow> (\<forall>b \<in> B. nxt sz b \<in> B \<longrightarrow> \<not> (fr b \<and> fr (nxt sz b)))"

text \<open>If all blocks of a coalesced zone are free there is only one.\<close>

lemma coalesced_all_free:
  assumes t: "tiling s e sz pv B" and c: "coalesced sz fr B" and f: "\<And>b. b \<in> B \<Longrightarrow> fr b"
  shows "B = {s}" "nxt sz s = e"
proof -
  have n: "nxt sz b \<notin> B" if "b \<in> B" for b using c f that by (auto simp: coalesced_def)
  show e: "nxt sz s = e" using tilingD(9) [OF t tilingD(2) [OF t]] n [OF tilingD(2) [OF t]] by simp
  have "b = s" if "b \<in> B" for b
  proof (rule ccontr)
    assume "b \<noteq> s"
    then have "nxt sz s \<le> b" using tilingD(10) [OF t tilingD(2) [OF t] that] tilingD(5) [OF t that] by simp
    then show False using e tiling_end [OF t that] by simp
  qed
  then show "B = {s}" using tilingD(2) [OF t] by blast
qed

end
