(* ===== verification/Qse_Xma_Inv.thy ===== *)
theory Qse_Xma_Inv
  imports Qse_Xma_Lists Qse_Xma_Zone
begin

text \<open>
  The invariant of the zone allocator: the blocks tile the zone, no two neighbours are free, the free lists hold exactly the free blocks and the
  statistics are what \<open>DBG_VERIFY\<close> asserts. Allocation, release and the in-place part of reallocation keep it, and change the
  blocks in use by exactly the one they are asked about.
\<close>

definition stats_ok :: "qse_xma \<Rightarrow> addr set \<Rightarrow> bool" where
  "stats_ok x B \<longleftrightarrow> xma_stat x = \<lparr>st_total = xma_end x - xma_start x, st_alloc = usum (size_at x) (free_at x) B,
     st_avail = fsum (size_at x) (free_at x) B, st_nused = ucnt (free_at x) B, st_nfree = fcnt (free_at x) B\<rparr>"

definition xma_inv :: "qse_xma \<Rightarrow> addr set \<Rightarrow> bool" where
  "xma_inv x B \<longleftrightarrow> xma_bdec x = 9 \<and> xma_end x < 2 ^ 63 \<and> tiling (xma_start x) (xma_end x) (size_at x) (prev_at x) B \<and>
     coalesced (size_at x) (free_at x) B \<and> listed x {b \<in> B. free_at x b} \<and> stats_ok x B"

text \<open>The blocks in use, as the address the user has and the number of bytes that are his.\<close>

definition in_use :: "qse_xma \<Rightarrow> addr set \<Rightarrow> addr \<rightharpoonup> nat" where
  "in_use x B p = (if 16 \<le> p \<and> p - 16 \<in> B \<and> \<not> free_at x (p - 16) then Some (size_at x (p - 16)) else None)"

lemma xma_invD:
  assumes "xma_inv x B"
  shows "xma_bdec x = 9" "xma_end x < 2 ^ 63" "tiling (xma_start x) (xma_end x) (size_at x) (prev_at x) B"
    "coalesced (size_at x) (free_at x) B" "listed x {b \<in> B. free_at x b}" "stats_ok x B"
  using assms by (simp_all add: xma_inv_def)

lemma next_mblk_nxt: "next_mblk x b = nxt (size_at x) b"
  by (simp add: next_mblk_def nxt_def)

lemma tiling_nxt_inj: "tiling s e sz pv B \<Longrightarrow> a \<in> B \<Longrightarrow> b \<in> B \<Longrightarrow> nxt sz a = nxt sz b \<Longrightarrow> a = b"
  using tiling_disjoint [of s e sz pv B a b] by (fastforce simp: nxt_def)

lemma xma_size_bound:
  assumes "xma_inv x B" "b \<in> B"
  shows "16 \<le> size_at x b" "size_at x b < 2 ^ 64" "b \<noteq> QSE_NULL" "b < xma_end x"
  using tilingD(3,5,6,8) [OF xma_invD(3) [OF assms(1)]] assms(2) xma_invD(2) [OF assms(1)]
    tiling_end [OF xma_invD(3) [OF assms(1)] assms(2)]
  by (fastforce simp: nxt_def QSE_NULL_def)+

section \<open>Splitting\<close>

lemma split_block_get:
  assumes "y = b + 16 + n" "w = rem - 16" "z = y + 16 + w"
  shows "size_at (split_block x b n rem) a = (if a = y then w else if a = b then n else size_at x a)"
    "free_at (split_block x b n rem) a = (a = y \<or> free_at x a)"
    "prev_at (split_block x b n rem) a = (if z < xma_end x \<and> a = z then w else if a = y then n else prev_at x a)"
    "xma_stat (split_block x b n rem) = xma_stat x" "frame (split_block x b n rem) = frame x"
  using assms
  by (auto simp: split_block_def Let_def next_mblk_def attach_same)

lemma listed_split_block:
  assumes "listed x F" "b \<notin> F" "b + 16 + n \<notin> F"
  shows "listed (split_block x b n rem) (insert (b + 16 + n) F)"
proof -
  have "listed (attach_to_freelist (set_prev (b + 16 + n) v (set_size (b + 16 + n) w (set_free (b + 16 + n) True (set_size b n x)))) (b + 16 + n))
      (insert (b + 16 + n) F)" for v w
    using assms by (intro listed_attach listed_intros) (auto simp: QSE_NULL_def)
  then show ?thesis by (auto simp: split_block_def Let_def next_mblk_def intro: listed_intros)
qed

section \<open>Allocation\<close>

text \<open>What an allocation of the block \<open>c\<close> promises.\<close>

definition allocated :: "qse_xma \<Rightarrow> addr set \<Rightarrow> nat \<Rightarrow> qse_xma \<Rightarrow> addr \<Rightarrow> bool" where
  "allocated x B n x' c \<longleftrightarrow> (\<exists>B'. xma_inv x' B' \<and> c \<in> B' \<and> n \<le> size_at x' c \<and> in_use x B (c + 16) = None \<and>
     in_use x' B' = (in_use x B)(c + 16 \<mapsto> size_at x' c) \<and> frame x' = frame x)"

lemma take_whole:
  assumes inv: "xma_inv x B" and c: "c \<in> B" "free_at x c" and n: "n \<le> size_at x c"
    and h: "\<And>a. size_at x' a = size_at x a" "\<And>a. free_at x' a = (a \<noteq> c \<and> free_at x a)" "\<And>a. prev_at x' a = prev_at x a"
    and f: "frame x' = frame x" and l: "listed x' ({b \<in> B. free_at x b} - {c})"
    and st: "xma_stat x' = (xma_stat x)\<lparr>st_alloc := st_alloc (xma_stat x) + size_at x c, st_avail := st_avail (xma_stat x) - size_at x c,
      st_nused := st_nused (xma_stat x) + 1, st_nfree := st_nfree (xma_stat x) - 1\<rparr>"
  shows "allocated x B n x' c"
proof -
  note i = xma_invD [OF inv]
  have fr: "xma_start x' = xma_start x" "xma_end x' = xma_end x" "xma_bdec x' = xma_bdec x" using frame_eqD [OF f] by auto
  have B: "finite B" using tilingD(1) [OF i(3)] .
  have eq: "usum (size_at x') (free_at x') (B - {c}) = usum (size_at x) (free_at x) (B - {c})"
    "fsum (size_at x') (free_at x') (B - {c}) = fsum (size_at x) (free_at x) (B - {c})"
    "ucnt (free_at x') (B - {c}) = ucnt (free_at x) (B - {c})" "fcnt (free_at x') (B - {c}) = fcnt (free_at x) (B - {c})"
    using h by (intro count_cong; simp)+
  have "stats_ok x' B"
    using i(6) unfolding stats_ok_def st fr
      counts_remove [OF B c(1)] eq
    by (simp add: h c(2))
  moreover have "coalesced (size_at x') (free_at x') B" using i(4) by (simp add: coalesced_def h nxt_def)
  moreover have "tiling (xma_start x') (xma_end x') (size_at x') (prev_at x') B" unfolding fr using i(3) by (rule tiling_cong) (simp add: h)
  moreover have "{b \<in> B. free_at x b} - {c} = {b \<in> B. free_at x' b}" using h by auto
  ultimately have "xma_inv x' B" using i(1,2) l by (simp add: xma_inv_def fr)
  moreover have "in_use x' B = (in_use x B)(c + 16 \<mapsto> size_at x' c)" using c by (auto simp: in_use_def h fun_eq_iff)
  ultimately show ?thesis using c n f by (auto simp: allocated_def h in_use_def)
qed

lemma take_split:
  assumes inv: "xma_inv x B" and c: "c \<in> B" "free_at x c" and n: "n mod 16 = 0" "16 \<le> n" "n + 32 \<le> size_at x c"
    and y: "y = c + 16 + n" and w: "w = size_at x c - n - 16" and z: "z = nxt (size_at x) c"
    and h: "\<And>a. size_at x' a = (if a = y then w else if a = c then n else size_at x a)"
      "\<And>a. free_at x' a = (a \<noteq> c \<and> (a = y \<or> free_at x a))"
      "\<And>a. prev_at x' a = (if z < xma_end x \<and> a = z then w else if a = y then n else prev_at x a)"
    and f: "frame x' = frame x" and l: "listed x' (insert y ({b \<in> B. free_at x b} - {c}))"
    and st: "xma_stat x' = (xma_stat x)\<lparr>st_alloc := st_alloc (xma_stat x) + n, st_avail := st_avail (xma_stat x) - 16 - n,
      st_nused := st_nused (xma_stat x) + 1\<rparr>"
  shows "allocated x B n x' c"
proof -
  note i = xma_invD [OF inv]
  have fr: "xma_start x' = xma_start x" "xma_end x' = xma_end x" "xma_bdec x' = xma_bdec x" using frame_eqD [OF f] by auto
  have B: "finite B" using tilingD(1) [OF i(3)] .
  have yc: "y \<noteq> c" using y by simp
  have ze: "z < xma_end x \<or> z \<notin> B" using tiling_next [OF i(3) c(1)] z by blast
  have yz: "y \<noteq> z" using y z n by (simp add: nxt_def)
  have yB: "y \<notin> B" using tilingD(10) [OF i(3) c(1), of y] y n by (auto simp: nxt_def)
  have s: "y \<notin> B" "tiling (xma_start x) (xma_end x) (size_at x') (prev_at x') (insert y B)"
  proof (rule yB, rule tiling_split(2) [OF i(3) c(1) n y])
    show "size_at x' c = n" "size_at x' y = size_at x c - n - 16" "prev_at x' y = n" using h yc yz w by simp_all
    show "size_at x' a = size_at x a" if "a \<in> B" "a \<noteq> c" for a using that h yB by auto
    show "prev_at x' a = (if a = nxt (size_at x) c then size_at x c - n - 16 else prev_at x a)" if "a \<in> B" for a
      using that ze yB unfolding h w z by auto
  qed
  let ?B = "insert y B" and ?D = "B - {c}"
  have eq: "usum (size_at x') (free_at x') ?D = usum (size_at x) (free_at x) ?D"
    "fsum (size_at x') (free_at x') ?D = fsum (size_at x) (free_at x) ?D"
    "ucnt (free_at x') ?D = ucnt (free_at x) ?D" "fcnt (free_at x') ?D = fcnt (free_at x) ?D"
    using h s(1) by (intro count_cong; auto)+
  have "stats_ok x' ?B"
    using i(6) n(3) unfolding stats_ok_def st fr counts_insert [OF B s(1)] counts_remove [OF B c(1)] eq
    by (simp add: h c(2) yc yc [symmetric] w add.commute)
  moreover have "coalesced (size_at x') (free_at x') ?B"
    unfolding coalesced_def
  proof (intro ballI impI notI)
    fix a assume a: "a \<in> ?B" "nxt (size_at x') a \<in> ?B" "free_at x' a \<and> free_at x' (nxt (size_at x') a)"
    have nc: "nxt (size_at x') c = y" using y yc by (simp add: nxt_def h)
    have ac: "a \<noteq> c" using a(3) h by simp
    show False
    proof (cases "a = y")
      case True
      have "nxt (size_at x') y = z" using y z w n yc by (simp add: nxt_def h)
      then have "z \<in> B" "free_at x z" using a True yz h by auto
      then show False using i(4) c z by (auto simp: coalesced_def)
    next
      case False
      then have e: "nxt (size_at x') a = nxt (size_at x) a" using ac by (simp add: nxt_def h)
      have "nxt (size_at x') a \<noteq> y" using tiling_nxt_inj [OF s(2), of a c] a(1) ac nc c(1) by auto
      then show False using False a i(4) unfolding e by (auto simp: coalesced_def h)
    qed
  qed
  moreover have "insert y ({b \<in> B. free_at x b} - {c}) = {b \<in> ?B. free_at x' b}" using h yc s(1) by auto
  ultimately have "xma_inv x' ?B" using i(1,2) l s(2) by (simp add: xma_inv_def fr)
  moreover have "in_use x' ?B = (in_use x B)(c + 16 \<mapsto> size_at x' c)"
    using c s(1) yc by (auto simp: in_use_def h fun_eq_iff)
  ultimately show ?thesis using c f yc unfolding allocated_def
    by (intro exI [of _ ?B]) (auto simp: h in_use_def)
qed

lemma take_cand_allocated:
  assumes inv: "xma_inv x B" and c: "c \<in> B" "free_at x c" and n: "n mod 16 = 0" "16 \<le> n" "n \<le> size_at x c"
  shows "allocated x B n (take_cand x c n) c"
proof (cases "size_at x c - n \<ge> 32")
  case True
  have l: "listed (detach_from_freelist x c) ({b \<in> B. free_at x b} - {c})" using listed_detach [OF xma_invD(5) [OF inv], of c] c by simp
  have "tiling (xma_start x) (xma_end x) (size_at x) (prev_at x) B" using xma_invD(3) [OF inv] .
  then have yB: "c + 16 + n \<notin> B" using tilingD(10) [of _ _ _ _ _ c "c + 16 + n"] c(1) n True by (fastforce simp: nxt_def)
  have e: "frame (detach_from_freelist x c) = frame x" using detach_same(5) .
  show ?thesis
  proof (rule take_split [OF inv c n(1,2) _ refl refl refl])
    show "listed (take_cand x c n) (insert (c + 16 + n) ({b \<in> B. free_at x b} - {c}))"
      using True listed_split_block [OF l, of c n] yB by (auto simp: take_cand_def Let_def detach_same intro!: listed_intros)
  qed (use True n in \<open>auto simp: take_cand_def Let_def detach_same split_block_get [OF refl refl refl] frame_eqD [OF e] nxt_def\<close>)
next
  case False
  have l: "listed (detach_from_freelist x c) ({b \<in> B. free_at x b} - {c})" using listed_detach [OF xma_invD(5) [OF inv], of c] c by simp
  show ?thesis
  proof (rule take_whole [OF inv c n(3)])
    show "listed (take_cand x c n) ({b \<in> B. free_at x b} - {c})"
      using False l by (auto simp: take_cand_def Let_def detach_same intro!: listed_intros)
  qed (use False in \<open>auto simp: take_cand_def Let_def detach_same\<close>)
qed

lemma take_fixed_allocated:
  assumes inv: "xma_inv x B" and c: "c \<in> B" "free_at x c" and n: "n \<le> size_at x c"
  shows "allocated x B n (take_fixed x c) c"
proof (rule take_whole [OF inv c n])
  show "listed (take_fixed x c) ({b \<in> B. free_at x b} - {c})"
    using listed_detach [OF xma_invD(5) [OF inv], of c] c by (auto simp: take_fixed_def Let_def intro!: listed_intros)
qed (auto simp: take_fixed_def Let_def detach_same)

text \<open>The search: it returns, takes a block that fits, or leaves everything as it was when no block of the chains it looks at fits.\<close>

lemma alloc_from_freelist_spec:
  assumes inv: "xma_inv x B" and n: "n mod 16 = 0" "16 \<le> n" and i: "i < 96"
  shows "\<exists>x' c. alloc_from_freelist x i n = Some (x', c) \<and>
    (c = QSE_NULL \<longrightarrow> x' = x \<and> (\<forall>b \<in> B. free_at x b \<longrightarrow> getxfi x (size_at x b) = i \<longrightarrow> size_at x b < n)) \<and>
    (c \<noteq> QSE_NULL \<longrightarrow> allocated x B n x' c)"
proof -
  obtain c where c: "find_fit x (xma_xfree x ! i) n = Some c"
    "c = QSE_NULL \<longrightarrow> (\<forall>b \<in> {b \<in> B. free_at x b}. getxfi x (size_at x b) = i \<longrightarrow> size_at x b < n)"
    "c \<noteq> QSE_NULL \<longrightarrow> c \<in> {b \<in> B. free_at x b} \<and> n \<le> size_at x c"
    using find_fit_listed [OF xma_invD(5) [OF inv] i, of n] by blast
  then show ?thesis using take_cand_allocated [OF inv _ _ n, of c] by (cases "c = QSE_NULL") (simp_all add: alloc_from_freelist_def)
qed

text \<open>No free block in any of the chains from \<open>i\<close> to 93 has \<open>n\<close> bytes.\<close>

definition none_from :: "qse_xma \<Rightarrow> addr set \<Rightarrow> nat \<Rightarrow> nat \<Rightarrow> bool" where
  "none_from x B i n \<longleftrightarrow> (\<forall>b \<in> B. free_at x b \<longrightarrow> i \<le> getxfi x (size_at x b) \<longrightarrow> getxfi x (size_at x b) < 94 \<longrightarrow> size_at x b < n)"

lemma try_chains_spec:
  assumes inv: "xma_inv x B" and n: "n mod 16 = 0" "16 \<le> n"
  shows "\<exists>x' c. try_chains x i n = Some (x', c) \<and> (c = QSE_NULL \<longrightarrow> x' = x \<and> none_from x B i n) \<and> (c \<noteq> QSE_NULL \<longrightarrow> allocated x B n x' c)"
proof (induction "94 - i" arbitrary: i)
  case 0
  then show ?case by (subst try_chains.simps) (auto simp: none_from_def)
next
  case (Suc k)
  then have i: "i < 94" by simp
  then obtain x' c where a: "alloc_from_freelist x i n = Some (x', c)"
    "c = QSE_NULL \<longrightarrow> x' = x \<and> (\<forall>b \<in> B. free_at x b \<longrightarrow> getxfi x (size_at x b) = i \<longrightarrow> size_at x b < n)"
    "c \<noteq> QSE_NULL \<longrightarrow> allocated x B n x' c"
    using alloc_from_freelist_spec [OF inv n, of i] by auto
  show ?case
  proof (cases "c = QSE_NULL")
    case False
    then show ?thesis using a i by (subst try_chains.simps) simp
  next
    case True
    have e: "try_chains x i n = try_chains x (i + 1) n" using a(1,2) True i by (subst try_chains.simps) simp
    have "none_from x B i n" if "none_from x B (i + 1) n" using that a(2) True unfolding none_from_def
      by (metis Suc_eq_plus1 Suc_leI le_neq_implies_less)
    moreover have "k = 94 - (i + 1)" using Suc(2) by simp
    ultimately show ?thesis unfolding e using Suc(1) [of "i + 1"] by blast
  qed
qed

text \<open>In a zone whose size is a multiple of sixteen every block has such a size, and the small chains hold blocks of a single size.\<close>

definition zone_even :: "qse_xma \<Rightarrow> bool" where
  "zone_even x \<longleftrightarrow> (xma_end x - xma_start x) mod 16 = 0"

lemma zone_even_sizes:
  assumes inv: "xma_inv x B" and ev: "zone_even x" and b: "b \<in> B"
  shows "size_at x b mod 16 = 0"
proof -
  note t = xma_invD(3) [OF inv]
  have "xma_start x < xma_end x" using tiling_end [OF t tilingD(2) [OF t]] .
  then have "xma_end x mod 16 = xma_start x mod 16" using ev unfolding zone_even_def by (simp add: mod_eq_dvd_iff_nat dvd_eq_mod_eq_0)
  then have "nxt (size_at x) b mod 16 = b mod 16" using tilingD(7,9) [OF t b] tilingD(7) [OF t, of "nxt (size_at x) b"] by auto
  then have "16 dvd nxt (size_at x) b - b" by (subst mod_eq_dvd_iff_nat [symmetric]) (simp_all add: nxt_def)
  then show ?thesis by (simp add: nxt_def dvd_eq_mod_eq_0)
qed

lemma small_chain_fits:
  assumes inv: "xma_inv x B" and n: "n mod 16 = 0" "16 \<le> n" "n < 2 ^ 64" "getxfi x n < 32" and b: "b \<in> B" "getxfi x (size_at x b) = getxfi x n"
  shows "n = size_at x b div 16 * 16"
proof -
  note bd = xma_invD(1) [OF inv] and sb = xma_size_bound(1,2) [OF inv b(1)]
  have small: "n < 528" "size_at x b < 528" using getxfi_large(1) [OF bd] n b(2) sb by (metis leI not_less)+
  then have "size_at x b div 16 - 1 = n div 16 - 1" using getxfi_eq [OF bd] n sb b(2) by simp
  moreover have "1 \<le> n div 16" "1 \<le> size_at x b div 16" using n sb by simp_all
  ultimately have "n div 16 = size_at x b div 16" by linarith
  moreover have "n = n div 16 * 16" using n(1) by auto
  ultimately show ?thesis by metis
qed

text \<open>Where an allocation of a rounded size looks: its own chain, and for the rest the large chains only.\<close>

definition searched :: "qse_xma \<Rightarrow> nat \<Rightarrow> nat \<Rightarrow> bool" where
  "searched x n k \<longleftrightarrow> getxfi x n \<le> getxfi x k \<and> (getxfi x k = getxfi x n \<or> 32 \<le> getxfi x k)"

lemma find_cand_spec:
  assumes inv: "xma_inv x B" and n: "n mod 16 = 0" "16 \<le> n" "n < 2 ^ 64"
  shows "case find_cand x (getxfi x n) n of
      None \<Rightarrow> \<not> zone_even x
    | Some (x', c) \<Rightarrow>
        (c = QSE_NULL \<longrightarrow> x' = x \<and> (\<forall>b \<in> B. free_at x b \<longrightarrow> searched x n (size_at x b) \<longrightarrow> size_at x b < n)) \<and>
        (c \<noteq> QSE_NULL \<longrightarrow> allocated x B n x' c)"
proof -
  let ?i = "getxfi x n"
  note bd = xma_invD(1) [OF inv]
  have lt: "getxfi x k \<le> 86" if "16 \<le> k" "k < 2 ^ 64" for k
    using getxfi_large(2) [OF bd _ that(2)] getxfi_eq [OF bd that] by (cases "k < 528") auto
  then have i: "?i < 94" "?i \<noteq> XFIMAX" using n by fastforce+
  have sb: "getxfi x (size_at x b) < 94" if "b \<in> B" for b using lt [OF xma_size_bound(1,2) [OF inv that]] by simp
  note l = xma_invD(5) [OF inv]
  have max: "alloc_from_freelist x XFIMAX n = Some (x, QSE_NULL)"
  proof -
    have "xma_xfree x ! 95 = QSE_NULL" using listed_head(2) [OF l, of 95] sb [of "xma_xfree x ! 95"] by fastforce
    then show ?thesis by (simp add: alloc_from_freelist_def find_fit.simps)
  qed
  consider "?i < 32" "xma_xfree x ! ?i \<noteq> QSE_NULL" | "?i < 32" "xma_xfree x ! ?i = QSE_NULL" | "32 \<le> ?i" by linarith
  then show ?thesis
  proof cases
    case 1
    let ?c = "xma_xfree x ! ?i"
    have c: "?c \<in> B" "free_at x ?c" "getxfi x (size_at x ?c) = ?i" using listed_head(2) [OF l _ 1(2)] 1(1) by auto
    note fit = small_chain_fits [OF inv n 1(1) c(1,3)]
    show ?thesis
    proof (cases "size_at x ?c = n")
      case True
      then show ?thesis using 1 c(2) take_fixed_allocated [OF inv c(1,2), of n] by (simp add: find_cand_def Let_def)
    next
      case False
      then have "size_at x ?c mod 16 \<noteq> 0" using fit by (metis add.right_neutral mult_div_mod_eq mult.commute)
      then have "\<not> zone_even x" using zone_even_sizes [OF inv _ c(1)] by auto
      then show ?thesis using 1 False by (simp add: find_cand_def Let_def)
    qed
  next
    case 2
    have no: "getxfi x (size_at x b) \<noteq> ?i" if "b \<in> B" "free_at x b" for b using listed_head(1) [OF l _ 2(2)] 2(1) that by auto
    have e: "find_cand x ?i n = try_chains x 32 n" using 2 i max by (simp add: find_cand_def)
    have "\<forall>b \<in> B. free_at x b \<longrightarrow> searched x n (size_at x b) \<longrightarrow> size_at x b < n" if "none_from x B 32 n"
      using that no sb by (auto simp: none_from_def searched_def)
    then show ?thesis unfolding e using try_chains_spec [OF inv n(1,2), of 32] by (auto split: option.split)
  next
    case 3
    obtain x' c where a: "alloc_from_freelist x ?i n = Some (x', c)"
      "c = QSE_NULL \<longrightarrow> x' = x \<and> (\<forall>b \<in> B. free_at x b \<longrightarrow> getxfi x (size_at x b) = ?i \<longrightarrow> size_at x b < n)"
      "c \<noteq> QSE_NULL \<longrightarrow> allocated x B n x' c"
      using alloc_from_freelist_spec [OF inv n(1,2), of ?i] i(1) by auto
    show ?thesis
    proof (cases "c = QSE_NULL")
      case False
      then show ?thesis using a(1,3) 3 i by (simp add: find_cand_def)
    next
      case True
      have e: "find_cand x ?i n = try_chains x (?i + 1) n" using a(1,2) True 3 i max by (simp add: find_cand_def)
      have "\<forall>b \<in> B. free_at x b \<longrightarrow> searched x n (size_at x b) \<longrightarrow> size_at x b < n" if "none_from x B (?i + 1) n"
        using that a(2) True sb unfolding none_from_def searched_def by (metis Suc_eq_plus1 Suc_leI le_neq_implies_less)
      then show ?thesis unfolding e using try_chains_spec [OF inv n(1,2), of "?i + 1"] by (auto split: option.split)
    qed
  qed
qed

text \<open>
  An allocation that stops at an assertion does so in an uneven zone. One that returns a block has \<open>allocated\<close> it, and when it is refused nothing has changed and no free
  block that was looked at fits.
\<close>

lemma qse_xma_alloc_spec:
  assumes inv: "xma_inv x B" and sz: "sz < 2 ^ 64 - 15"
  shows "case qse_xma_alloc x sz of
      None \<Rightarrow> \<not> zone_even x
    | Some (x', p) \<Rightarrow>
        (p = QSE_NULL \<longrightarrow> x' = x \<and> (\<forall>b \<in> B. free_at x b \<longrightarrow> searched x (round_request sz) (size_at x b) \<longrightarrow> size_at x b < round_request sz)) \<and>
        (p \<noteq> QSE_NULL \<longrightarrow> (\<exists>c. p = c + 16 \<and> allocated x B (round_request sz) x' c))"
proof -
  note r = round_request_small [OF sz]
  have a: "qse_xma_alloc x sz = map_option (\<lambda>(x, cand). (x, if cand = QSE_NULL then QSE_NULL else SYS_TO_USR cand)) (find_cand x (getxfi x (round_request sz)) (round_request sz))"
    using r(2) by (simp add: qse_xma_alloc_def Let_def)
  show ?thesis
  proof (cases "find_cand x (getxfi x (round_request sz)) (round_request sz)")
    case None
    then show ?thesis using find_cand_spec [OF inv r(3,2,5)] a by simp
  next
    case (Some y)
    obtain x' c where y: "y = (x', c)" by (cases y)
    show ?thesis using find_cand_spec [OF inv r(3,2,5)] unfolding a Some y
      by (cases "c = QSE_NULL") (auto simp: SYS_TO_USR_def QSE_NULL_def)
  qed
qed

text \<open>The assertions in the other operations hold in a consistent zone.\<close>

lemma detach_assertion:
  assumes inv: "xma_inv x B" and b: "b \<in> B" "free_at x b" "fprev_at x b = QSE_NULL"
  shows "xma_xfree x ! getxfi x (size_at x b) = b"
  using listed_first [OF xma_invD(5) [OF inv], of b] b by simp

lemma merge_assertion:
  assumes inv: "xma_inv x B" and b: "b \<in> B" and n: "next_mblk x b < xma_end x"
  shows "prev_at x (next_mblk x b) = size_at x b"
  using tilingD(11) [OF xma_invD(3) [OF inv] b] tiling_next [OF xma_invD(3) [OF inv] b] n by (simp add: next_mblk_nxt)

section \<open>Release\<close>

definition released :: "qse_xma \<Rightarrow> addr set \<Rightarrow> qse_xma \<Rightarrow> addr \<Rightarrow> bool" where
  "released x B x' b \<longleftrightarrow> (\<exists>B'. xma_inv x' B' \<and> in_use x' B' = (in_use x B)(b + 16 := None) \<and> frame x' = frame x)"

lemma coalesced_merge:
  assumes t: "tiling s e sz' pv' B'" and "B' \<subseteq> B" "m \<in> B'" "coalesced sz fr B"
    and same: "\<And>a. a \<in> B' \<Longrightarrow> a \<noteq> m \<Longrightarrow> sz' a = sz a \<and> fr' a = fr a"
    and nx: "nxt sz' m \<in> B' \<Longrightarrow> \<not> fr (nxt sz' m)" and pr: "\<And>a. a \<in> B' \<Longrightarrow> nxt sz a = m \<Longrightarrow> \<not> fr a"
  shows "coalesced sz' fr' B'"
  unfolding coalesced_def
proof (intro ballI impI notI)
  fix a assume a: "a \<in> B'" "nxt sz' a \<in> B'" "fr' a \<and> fr' (nxt sz' a)"
  show False
  proof (cases "a = m")
    case True
    have "nxt sz' m \<noteq> m" by (simp add: nxt_def)
    then show False using a True nx same by auto
  next
    case False
    then have e: "nxt sz' a = nxt sz a" "fr a" using same a by (auto simp: nxt_def)
    show False
    proof (cases "nxt sz a = m")
      case True
      then show False using pr a(1) e(2) by auto
    next
      case False
      then have "fr (nxt sz a)" using a same e by auto
      then show False using assms(2,4) a(1,2) e by (auto simp: coalesced_def)
    qed
  qed
qed

text \<open>The block \<open>m\<close> takes over the block that is released and perhaps its neighbours.\<close>

lemma releasedI:
  assumes inv: "xma_inv x B" and b: "b \<in> B" "\<not> free_at x b" and B': "B' \<subseteq> B" "m \<in> B'"
    and gone: "\<And>a. a \<in> B \<Longrightarrow> a \<notin> B' \<Longrightarrow> a = b \<or> free_at x a" and m: "m = b \<or> b \<notin> B' \<and> free_at x m" "free_at x' m"
    and same: "\<And>a. a \<in> B' \<Longrightarrow> a \<noteq> m \<Longrightarrow> size_at x' a = size_at x a \<and> free_at x' a = free_at x a"
    and f: "frame x' = frame x" and t: "tiling (xma_start x) (xma_end x) (size_at x') (prev_at x') B'"
    and nx: "nxt (size_at x') m \<in> B' \<Longrightarrow> \<not> free_at x (nxt (size_at x') m)" and pr: "\<And>a. a \<in> B' \<Longrightarrow> nxt (size_at x) a = m \<Longrightarrow> \<not> free_at x a"
    and l: "listed x' (insert m {a \<in> B'. free_at x a})" and st: "stats_ok x' B'"
  shows "released x B x' b"
proof -
  note i = xma_invD [OF inv]
  have fr: "xma_start x' = xma_start x" "xma_end x' = xma_end x" "xma_bdec x' = xma_bdec x" using frame_eqD [OF f] by auto
  have "insert m {a \<in> B'. free_at x a} = {a \<in> B'. free_at x' a}" using same m B'(2) by auto
  moreover have "coalesced (size_at x') (free_at x') B'" by (rule coalesced_merge [OF t B' i(4) same nx pr])
  ultimately have "xma_inv x' B'" using i(1,2) l st t by (simp add: xma_inv_def fr)
  moreover have "in_use x' B' q = ((in_use x B)(b + 16 := None)) q" for q
  proof (cases "16 \<le> q")
    case False
    then show ?thesis by (simp add: in_use_def)
  next
    case True
    then obtain a where q: "q = a + 16" by (metis le_add_diff_inverse2)
    have "(a \<in> B' \<and> \<not> free_at x' a) = (a \<noteq> b \<and> a \<in> B \<and> \<not> free_at x a)"
      using same [of a] gone [of a] m B' b by (cases "a = m"; cases "a \<in> B'") blast+
    moreover have "size_at x' a = size_at x a" if "a \<in> B'" "\<not> free_at x' a" using same [of a] that m(2) by auto
    ultimately show ?thesis unfolding in_use_def q by auto
  qed
  ultimately show ?thesis using f unfolding released_def by blast
qed

text \<open>The neighbours of a block.\<close>

lemma prev_mblk_pred:
  assumes inv: "xma_inv x B" and b: "b \<in> B"
  shows "xma_start x \<le> prev_mblk x b \<Longrightarrow> prev_mblk x b \<in> B \<and> nxt (size_at x) (prev_mblk x b) = b"
    "a \<in> B \<Longrightarrow> nxt (size_at x) a = b \<Longrightarrow> a = prev_mblk x b \<and> xma_start x \<le> prev_mblk x b"
proof -
  note t = xma_invD(3) [OF inv]
  have *: "a = prev_mblk x b \<and> xma_start x \<le> prev_mblk x b" if a: "a \<in> B" "nxt (size_at x) a = b" for a
  proof -
    have "prev_at x b = size_at x a" using tilingD(11) [OF t a(1)] a(2) b by simp
    moreover have "b = a + 16 + size_at x a" using a(2) by (simp add: nxt_def)
    ultimately have "prev_mblk x b = a" by (simp add: prev_mblk_def)
    then show ?thesis using tilingD(5) [OF t a(1)] by simp
  qed
  then show "a \<in> B \<Longrightarrow> nxt (size_at x) a = b \<Longrightarrow> a = prev_mblk x b \<and> xma_start x \<le> prev_mblk x b" .
  assume le: "xma_start x \<le> prev_mblk x b"
  have "b \<noteq> xma_start x"
  proof
    assume "b = xma_start x"
    then have "prev_mblk x b < xma_start x" using tilingD(3,4) [OF t] by (simp add: prev_mblk_def)
    then show False using le by simp
  qed
  then obtain c where c: "c \<in> B" "nxt (size_at x) c = b" using tiling_pred [OF t b] by blast
  then have "c = prev_mblk x b" using * [OF c] by blast
  then show "prev_mblk x b \<in> B \<and> nxt (size_at x) (prev_mblk x b) = b" using c by simp
qed

lemma stats_release_join:
  assumes B: "finite B" "m \<in> B" "g \<in> B" "g \<noteq> m" "free_at x m \<noteq> free_at x g" and ok: "stats_ok x B"
    and h: "size_at x' m = size_at x m + 16 + size_at x g" "free_at x' m"
      "\<And>a. a \<in> B \<Longrightarrow> a \<noteq> m \<Longrightarrow> a \<noteq> g \<Longrightarrow> size_at x' a = size_at x a \<and> free_at x' a = free_at x a"
    and f: "frame x' = frame x" and org: "org = (if free_at x m then size_at x g else size_at x m)"
    and st: "xma_stat x' = (xma_stat x)\<lparr>st_alloc := st_alloc (xma_stat x) - org, st_avail := st_avail (xma_stat x) + (org + 16),
      st_nused := st_nused (xma_stat x) - 1\<rparr>"
  shows "stats_ok x' (B - {g})"
proof -
  have fr: "xma_start x' = xma_start x" "xma_end x' = xma_end x" using frame_eqD [OF f] by auto
  have m: "finite (B - {g})" "m \<in> B - {g}" using B by auto
  have eq: "usum (size_at x') (free_at x') (B - {g} - {m}) = usum (size_at x) (free_at x) (B - {g} - {m})"
    "fsum (size_at x') (free_at x') (B - {g} - {m}) = fsum (size_at x) (free_at x) (B - {g} - {m})"
    "ucnt (free_at x') (B - {g} - {m}) = ucnt (free_at x) (B - {g} - {m})" "fcnt (free_at x') (B - {g} - {m}) = fcnt (free_at x) (B - {g} - {m})"
    using h(3) by (intro count_cong; simp)+
  show ?thesis
    using ok B(5) unfolding stats_ok_def st fr counts_remove [OF m] counts_remove [OF B(1,3)] eq
    by (cases "free_at x m") (simp_all add: h(1,2) org)
qed

text \<open>The four cases of \<open>qse_xma_free\<close>, each by what it does to the headers.\<close>

lemma free_alone:
  assumes inv: "xma_inv x B" and b: "b \<in> B" "\<not> free_at x b"
    and y: "nxt (size_at x) b \<in> B \<Longrightarrow> \<not> free_at x (nxt (size_at x) b)" and p: "xma_start x \<le> prev_mblk x b \<Longrightarrow> \<not> free_at x (prev_mblk x b)"
    and h: "\<And>a. size_at x' a = size_at x a" "\<And>a. free_at x' a = (a = b \<or> free_at x a)" "\<And>a. prev_at x' a = prev_at x a"
    and f: "frame x' = frame x" and l: "listed x' (insert b {a \<in> B. free_at x a})"
    and st: "xma_stat x' = (xma_stat x)\<lparr>st_alloc := st_alloc (xma_stat x) - size_at x b, st_avail := st_avail (xma_stat x) + size_at x b,
      st_nused := st_nused (xma_stat x) - 1, st_nfree := st_nfree (xma_stat x) + 1\<rparr>"
  shows "released x B x' b"
proof (rule releasedI [OF inv b _ _ _ _ _ _ f])
  note i = xma_invD [OF inv]
  have fr: "xma_start x' = xma_start x" "xma_end x' = xma_end x" using frame_eqD [OF f] by auto
  have n: "nxt (size_at x') b = nxt (size_at x) b" by (simp add: nxt_def h)
  show "tiling (xma_start x) (xma_end x) (size_at x') (prev_at x') B" using i(3) by (rule tiling_cong) (simp add: h)
  show "nxt (size_at x') b \<in> B \<Longrightarrow> \<not> free_at x (nxt (size_at x') b)" using y unfolding n .
  show "\<not> free_at x a" if "a \<in> B" "nxt (size_at x) a = b" for a using prev_mblk_pred(2) [OF inv b(1) that] p by simp
  have B: "finite B" using tilingD(1) [OF i(3)] .
  have eq: "usum (size_at x') (free_at x') (B - {b}) = usum (size_at x) (free_at x) (B - {b})"
    "fsum (size_at x') (free_at x') (B - {b}) = fsum (size_at x) (free_at x) (B - {b})"
    "ucnt (free_at x') (B - {b}) = ucnt (free_at x) (B - {b})" "fcnt (free_at x') (B - {b}) = fcnt (free_at x) (B - {b})"
    using h by (intro count_cong; simp)+
  show "stats_ok x' B"
    using i(6) unfolding stats_ok_def st fr counts_remove [OF B b(1)] eq by (simp add: h b(2))
qed (use b l h in auto)

lemma free_with_next:
  assumes inv: "xma_inv x B" and b: "b \<in> B" "\<not> free_at x b"
    and y: "y = nxt (size_at x) b" "y \<in> B" "free_at x y" and p: "xma_start x \<le> prev_mblk x b \<Longrightarrow> \<not> free_at x (prev_mblk x b)"
    and z: "z = nxt (size_at x) y" and w: "w = size_at x b + 16 + size_at x y"
    and h: "\<And>a. size_at x' a = (if a = b then w else size_at x a)" "\<And>a. free_at x' a = (a = b \<or> free_at x a)"
      "\<And>a. prev_at x' a = (if z < xma_end x \<and> a = z then w else prev_at x a)"
    and f: "frame x' = frame x" and l: "listed x' (insert b ({a \<in> B. free_at x a} - {y}))"
    and st: "xma_stat x' = (xma_stat x)\<lparr>st_alloc := st_alloc (xma_stat x) - size_at x b, st_avail := st_avail (xma_stat x) + (size_at x b + 16),
      st_nused := st_nused (xma_stat x) - 1\<rparr>"
  shows "released x B x' b"
proof (rule releasedI [OF inv b _ _ _ _ _ _ f])
  note i = xma_invD [OF inv]
  have yb: "y \<noteq> b" using y(1) by (simp add: nxt_def)
  have ze: "z < xma_end x \<or> z \<notin> B" using tiling_next [OF i(3) y(2)] z by blast
  show t: "tiling (xma_start x) (xma_end x) (size_at x') (prev_at x') (B - {y})"
  proof (rule tiling_join [OF i(3) b(1) y(1,2)])
    show "prev_at x' a = (if a = nxt (size_at x) y then size_at x' b else prev_at x a)" if "a \<in> B" "a \<noteq> y" for a
      using that ze unfolding h w z by auto
  qed (use h w in auto)
  have n: "nxt (size_at x') b = z" using w z y(1) by (simp add: nxt_def h)
  show "\<not> free_at x (nxt (size_at x') b)" if "nxt (size_at x') b \<in> B - {y}"
    using that i(4) y(2,3) z unfolding n by (auto simp: coalesced_def)
  show "\<not> free_at x a" if "a \<in> B - {y}" "nxt (size_at x) a = b" for a using prev_mblk_pred(2) [OF inv b(1), of a] that p by simp
  show "stats_ok x' (B - {y})"
    by (rule stats_release_join [OF tilingD(1) [OF i(3)] b(1) y(2) yb _ i(6) _ _ _ f _ st]) (use b(2) y(3) h w in auto)
  have "{a \<in> B - {y}. free_at x a} = {a \<in> B. free_at x a} - {y}" by auto
  then show "listed x' (insert b {a \<in> B - {y}. free_at x a})" using l by simp
qed (use b y h in \<open>auto simp: nxt_def\<close>)

lemma free_with_prev:
  assumes inv: "xma_inv x B" and b: "b \<in> B" "\<not> free_at x b"
    and y: "nxt (size_at x) b \<in> B \<Longrightarrow> \<not> free_at x (nxt (size_at x) b)"
    and p: "m = prev_mblk x b" "xma_start x \<le> m" "free_at x m"
    and z: "z = nxt (size_at x) b" and w: "w = size_at x m + 16 + size_at x b"
    and h: "\<And>a. size_at x' a = (if a = m then w else size_at x a)" "\<And>a. free_at x' a = free_at x a"
      "\<And>a. prev_at x' a = (if z < xma_end x \<and> a = z then w else prev_at x a)"
    and f: "frame x' = frame x" and l: "listed x' {a \<in> B. free_at x a}"
    and st: "xma_stat x' = (xma_stat x)\<lparr>st_alloc := st_alloc (xma_stat x) - size_at x b, st_avail := st_avail (xma_stat x) + (size_at x b + 16),
      st_nused := st_nused (xma_stat x) - 1\<rparr>"
  shows "released x B x' b"
proof -
  note i = xma_invD [OF inv]
  have m: "m \<in> B" "nxt (size_at x) m = b" using prev_mblk_pred(1) [OF inv b(1)] p by auto
  have bm: "b \<noteq> m" using m(2) by (auto simp: nxt_def)
  have ze: "z < xma_end x \<or> z \<notin> B" using tiling_next [OF i(3) b(1)] z by blast
  have t: "tiling (xma_start x) (xma_end x) (size_at x') (prev_at x') (B - {b})"
  proof (rule tiling_join [OF i(3) m(1) m(2) [symmetric] b(1)])
    show "prev_at x' a = (if a = nxt (size_at x) b then size_at x' m else prev_at x a)" if "a \<in> B" "a \<noteq> b" for a
      using that ze unfolding h w z by auto
  qed (use h w in auto)
  have n: "nxt (size_at x') m = z" using w z m(2) by (auto simp: nxt_def h)
  show ?thesis
  proof (rule releasedI [OF inv b _ _ _ _ _ _ f t])
    show "\<not> free_at x (nxt (size_at x') m)" if "nxt (size_at x') m \<in> B - {b}" using that y z unfolding n by auto
    show "\<not> free_at x a" if "a \<in> B - {b}" "nxt (size_at x) a = m" for a using i(4) p(3) m(1) that by (auto simp: coalesced_def)
    show "stats_ok x' (B - {b})"
      by (rule stats_release_join [OF tilingD(1) [OF i(3)] m(1) b(1) bm _ i(6) _ _ _ f _ st]) (use b(2) p(3) h w in auto)
    have "insert m {a \<in> B - {b}. free_at x a} = {a \<in> B. free_at x a}" using m p(3) b bm by auto
    then show "listed x' (insert m {a \<in> B - {b}. free_at x a})" using l by simp
  qed (use b m p(3) bm h in auto)
qed

lemma free_with_both:
  assumes inv: "xma_inv x B" and b: "b \<in> B" "\<not> free_at x b"
    and y: "y = nxt (size_at x) b" "y \<in> B" "free_at x y" and p: "m = prev_mblk x b" "xma_start x \<le> m" "free_at x m"
    and z: "z = nxt (size_at x) y" and w: "w = size_at x m + (16 + size_at x b + 16 + size_at x y)"
    and h: "\<And>a. size_at x' a = (if a = m then w else size_at x a)" "\<And>a. free_at x' a = free_at x a"
      "\<And>a. prev_at x' a = (if z < xma_end x \<and> a = z then w else prev_at x a)"
    and f: "frame x' = frame x" and l: "listed x' ({a \<in> B. free_at x a} - {y})"
    and st: "xma_stat x' = (xma_stat x)\<lparr>st_alloc := st_alloc (xma_stat x) - size_at x b,
      st_avail := st_avail (xma_stat x) + (16 + size_at x b + 16), st_nused := st_nused (xma_stat x) - 1, st_nfree := st_nfree (xma_stat x) - 1\<rparr>"
  shows "released x B x' b"
proof -
  note i = xma_invD [OF inv]
  have fr: "xma_start x' = xma_start x" "xma_end x' = xma_end x" using frame_eqD [OF f] by auto
  have m: "m \<in> B" "nxt (size_at x) m = b" using prev_mblk_pred(1) [OF inv b(1)] p by auto
  have bm: "b \<noteq> m" "y \<noteq> b" "y \<noteq> m" "m < b" "b < y" using m(2) y(1) by (auto simp: nxt_def)
  have ze: "z < xma_end x \<or> z \<notin> B" using tiling_next [OF i(3) y(2)] z by blast
  let ?sz = "(size_at x)(m := size_at x m + 16 + size_at x b)" and ?B = "B - {b}"
  let ?pv = "\<lambda>a. if a = y then size_at x m + 16 + size_at x b else prev_at x a"
  have t1: "tiling (xma_start x) (xma_end x) ?sz ?pv ?B"
    by (rule tiling_join [OF i(3) m(1) m(2) [symmetric] b(1)]) (auto simp: y(1))
  have y': "y = nxt ?sz m" "y \<in> ?B" using y m(2) bm by (auto simp: nxt_def)
  have t: "tiling (xma_start x) (xma_end x) (size_at x') (prev_at x') (?B - {y})"
  proof (rule tiling_join [OF t1 _ y'])
    have zy: "nxt ?sz y = z" using z bm by (simp add: nxt_def)
    show "prev_at x' a = (if a = nxt ?sz y then size_at x' m else ?pv a)" if "a \<in> ?B" "a \<noteq> y" for a
      using that ze unfolding h zy by auto
  qed (use h w m bm in auto)
  have n: "nxt (size_at x') m = z" using w z y(1) m(2) by (auto simp: nxt_def h)
  show ?thesis
  proof (rule releasedI [OF inv b _ _ _ _ _ _ f t])
    show "\<not> free_at x (nxt (size_at x') m)" if "nxt (size_at x') m \<in> ?B - {y}"
      using that i(4) y(2,3) z unfolding n by (auto simp: coalesced_def)
    show "\<not> free_at x a" if "a \<in> ?B - {y}" "nxt (size_at x) a = m" for a using i(4) p(3) m(1) that by (auto simp: coalesced_def)
    have B: "finite B" "finite ?B" "finite (?B - {y})" "y \<in> ?B" "m \<in> ?B - {y}" using tilingD(1) [OF i(3)] y(2) m(1) bm by auto
    have eq: "usum (size_at x') (free_at x') (?B - {y} - {m}) = usum (size_at x) (free_at x) (?B - {y} - {m})"
      "fsum (size_at x') (free_at x') (?B - {y} - {m}) = fsum (size_at x) (free_at x) (?B - {y} - {m})"
      "ucnt (free_at x') (?B - {y} - {m}) = ucnt (free_at x) (?B - {y} - {m})"
      "fcnt (free_at x') (?B - {y} - {m}) = fcnt (free_at x) (?B - {y} - {m})"
      using h by (intro count_cong; simp)+
    show "stats_ok x' (?B - {y})"
      using i(6) unfolding stats_ok_def st fr counts_remove [OF B(3,5)] counts_remove [OF B(1) b(1)] counts_remove [OF B(2,4)] eq
      by (simp add: h p(3) b(2) y(3) w)
    have "insert m {a \<in> ?B - {y}. free_at x a} = {a \<in> B. free_at x a} - {y}" using m p(3) b bm by auto
    then show "listed x' (insert m {a \<in> ?B - {y}. free_at x a})" using l by simp
  qed (use b m y(3) p(3) bm h in auto)
qed

lemma stat_update_same: "xma_inv x B \<Longrightarrow> listed (upd_stat g x) {b \<in> B. free_at x b}"
  by (intro listed_intros) (rule xma_invD(5))

lemma prev_mblk_upd_stat [simp]: "prev_mblk (upd_stat g x) b = prev_mblk x b" "next_mblk (upd_stat g x) b = nxt (size_at x) b"
  by (simp_all add: prev_mblk_def next_mblk_def nxt_def)

lemma qse_xma_free_released:
  assumes inv: "xma_inv x B" and u: "in_use x B p = Some n"
  shows "released x B (qse_xma_free x p) (p - 16)"
proof -
  define b where "b = p - 16"
  have b: "b \<in> B" "\<not> free_at x b" using u by (auto simp: in_use_def b_def split: if_splits)
  note i = xma_invD [OF inv]
  define x0 where "x0 = upd_stat (\<lambda>s. s\<lparr>st_nused := st_nused s - 1, st_alloc := st_alloc s - size_at x b\<rparr>) x"
  let ?m = "prev_mblk x b" and ?y = "nxt (size_at x) b" and ?F = "{a \<in> B. free_at x a}"
  have x0: "size_at x0 a = size_at x a" "free_at x0 a = free_at x a" "prev_at x0 a = prev_at x a" "xma_end x0 = xma_end x" "xma_start x0 = xma_start x"
    "prev_mblk x0 a = prev_mblk x a" "next_mblk x0 a = nxt (size_at x) a" "frame x0 = frame x" "xma_stat x0 = (xma_stat x)\<lparr>st_alloc := st_alloc (xma_stat x) - size_at x b, st_nused := st_nused (xma_stat x) - 1\<rparr>" for a
    by (simp_all add: x0_def)
  have l0: "listed x0 ?F" unfolding x0_def using stat_update_same [OF inv] .
  have ey: "?y < xma_end x \<longleftrightarrow> ?y \<in> B" using tiling_next [OF i(3) b(1)] .
  have nz: "b \<noteq> QSE_NULL" "?m \<in> B \<Longrightarrow> ?m \<noteq> QSE_NULL" using xma_size_bound(3) [OF inv] b(1) by auto
  have m: "xma_start x \<le> ?m \<Longrightarrow> ?m \<in> B" "xma_start x \<le> ?m \<Longrightarrow> nxt (size_at x) ?m = b" using prev_mblk_pred(1) [OF inv b(1)] by auto
  have yb: "?y \<noteq> b" "?m \<noteq> b \<or> \<not> free_at x ?m" using b(2) by (auto simp: nxt_def)
  have my: "xma_start x \<le> ?m \<Longrightarrow> ?m < ?y" using m(2) by (fastforce simp: nxt_def)
  consider (both) "xma_start x \<le> ?m" "free_at x ?m" "?y \<in> B" "free_at x ?y" | (nxt) "\<not> (xma_start x \<le> ?m \<and> free_at x ?m)" "?y \<in> B" "free_at x ?y"
    | (prv) "xma_start x \<le> ?m" "free_at x ?m" "\<not> (?y \<in> B \<and> free_at x ?y)" | (alone) "\<not> (xma_start x \<le> ?m \<and> free_at x ?m)" "\<not> (?y \<in> B \<and> free_at x ?y)" by blast
  then have "released x B (qse_xma_free x p) b"
  proof cases
    case alone
    have q: "qse_xma_free x p = upd_stat (\<lambda>s. s\<lparr>st_nfree := st_nfree s + 1, st_avail := st_avail s + size_at x b\<rparr>)
        (attach_to_freelist (set_free b True x0) b)"
      using alone ey unfolding qse_xma_free_def Let_def USR_TO_SYS_def MBLKHDRSIZE_def b_def [symmetric] x0_def by auto
    show ?thesis unfolding q
    proof (rule free_alone [OF inv b])
      show "listed (upd_stat (\<lambda>s. s\<lparr>st_nfree := st_nfree s + 1, st_avail := st_avail s + size_at x b\<rparr>)
          (attach_to_freelist (set_free b True x0) b)) (insert b ?F)"
        using b nz l0 by (intro listed_intros listed_attach) auto
    qed (use alone in \<open>auto simp: attach_same x0\<close>)
  next
    case nxt
    have y: "?y \<in> ?F" "?y < xma_end x" using nxt ey by auto
    define x1 where "x1 = set_size b (size_at x b + (16 + size_at x ?y)) (set_free b True (detach_from_freelist x0 ?y))"
    define x2 where "x2 = (if next_mblk x ?y < xma_end x then set_prev (next_mblk x ?y) (size_at x1 b) x1 else x1)"
    have q: "qse_xma_free x p = upd_stat (\<lambda>s. s\<lparr>st_avail := st_avail s + (size_at x b + 16)\<rparr>) (attach_to_freelist x2 b)"
      using nxt y yb(1) unfolding qse_xma_free_def Let_def USR_TO_SYS_def MBLKHDRSIZE_def b_def [symmetric] x0_def [symmetric] x2_def x1_def
      by (auto simp: x0 detach_same next_mblk_nxt)
    have "listed x1 (?F - {?y})" unfolding x1_def using listed_detach [OF l0 y(1)] b(2) by (intro listed_intros) auto
    then have l2: "listed x2 (?F - {?y})" unfolding x2_def by (auto intro: listed_intros)
    show ?thesis unfolding q
    proof (rule free_with_next [OF inv b refl])
      show "listed (upd_stat (\<lambda>s. s\<lparr>st_avail := st_avail s + (size_at x b + 16)\<rparr>) (attach_to_freelist x2 b)) (insert b (?F - {?y}))"
        using b(2) nz l2 by (intro listed_intros listed_attach) auto
    qed (use nxt in \<open>auto simp: attach_same x0 x2_def x1_def detach_same next_mblk_nxt\<close>)
  next
    case prv
    have mF: "?m \<in> ?F" using prv m by simp
    define x1 where "x1 = set_size ?m (size_at x ?m + (16 + size_at x b)) (detach_from_freelist x0 ?m)"
    define x2 where "x2 = (if ?y < xma_end x then set_prev ?y (size_at x1 ?m) x1 else x1)"
    have q: "qse_xma_free x p = upd_stat (\<lambda>s. s\<lparr>st_avail := st_avail s + (16 + size_at x b)\<rparr>) (attach_to_freelist x2 ?m)"
      using prv ey unfolding qse_xma_free_def Let_def USR_TO_SYS_def MBLKHDRSIZE_def b_def [symmetric] x0_def [symmetric] x2_def x1_def
      by (auto simp: x0 detach_same next_mblk_nxt)
    have "listed x1 (?F - {?m})" unfolding x1_def using listed_detach [OF l0 mF] by (intro listed_intros) auto
    then have l2: "listed x2 (?F - {?m})" unfolding x2_def by (auto intro: listed_intros)
    show ?thesis unfolding q
    proof (rule free_with_prev [OF inv b _ refl])
      have "insert ?m (?F - {?m}) = ?F" using mF by auto
      then show "listed (upd_stat (\<lambda>s. s\<lparr>st_avail := st_avail s + (16 + size_at x b)\<rparr>) (attach_to_freelist x2 ?m)) ?F"
        using nz(2) mF listed_attach [OF l2, of ?m] by (intro listed_intros) auto
    qed (use prv in \<open>auto simp: attach_same x0 x2_def x1_def detach_same next_mblk_nxt\<close>)
  next
    case both
    have mF: "?m \<in> ?F" "?y \<in> ?F" "?y < xma_end x" "?m \<noteq> ?y" using both m ey my by auto
    define x1 where "x1 = set_size ?m (size_at x ?m + (16 + size_at x b + 16 + size_at x ?y)) (detach_from_freelist (detach_from_freelist x0 ?m) ?y)"
    define x2 where "x2 = attach_to_freelist x1 ?m"
    define x3 where "x3 = (if next_mblk x2 ?m < xma_end x then set_prev (next_mblk x2 ?m) (size_at x2 ?m) x2 else x2)"
    have q: "qse_xma_free x p = upd_stat (\<lambda>s. s\<lparr>st_nfree := st_nfree s - 1, st_avail := st_avail s + (16 + size_at x b + 16)\<rparr>) x3"
      using both mF unfolding qse_xma_free_def Let_def USR_TO_SYS_def MBLKHDRSIZE_def b_def [symmetric] x0_def [symmetric] x3_def x2_def x1_def
      by (auto simp: x0 detach_same attach_same next_mblk_nxt)
    have "listed x1 (?F - {?m} - {?y})" unfolding x1_def using listed_detach [OF listed_detach [OF l0 mF(1)], of ?y] mF by (intro listed_intros) auto
    then have "listed x2 (insert ?m (?F - {?m} - {?y}))" unfolding x2_def using nz(2) mF by (intro listed_attach) auto
    moreover have "insert ?m (?F - {?m} - {?y}) = ?F - {?y}" using mF by auto
    ultimately have l3: "listed x3 (?F - {?y})" unfolding x3_def by (auto intro: listed_intros)
    have nm: "next_mblk x2 ?m = nxt (size_at x) ?y"
      using m(2) [OF both(1)] by (auto simp: x2_def x1_def next_mblk_nxt nxt_def attach_same detach_same x0)
    show ?thesis unfolding q
    proof (rule free_with_both [OF inv b refl _ _ refl])
      show "listed (upd_stat (\<lambda>s. s\<lparr>st_nfree := st_nfree s - 1, st_avail := st_avail s + (16 + size_at x b + 16)\<rparr>) x3) (?F - {?y})"
        using l3 by (intro listed_intros)
    qed (use both in \<open>auto simp: attach_same x0 x3_def nm, auto simp: x2_def x1_def attach_same detach_same x0\<close>)
  qed
  then show ?thesis unfolding b_def .
qed

section \<open>Resizing in place\<close>

definition resized :: "qse_xma \<Rightarrow> addr set \<Rightarrow> nat \<Rightarrow> qse_xma \<Rightarrow> addr \<Rightarrow> bool" where
  "resized x B n x' b \<longleftrightarrow> (\<exists>B'. xma_inv x' B' \<and> b \<in> B' \<and> n \<le> size_at x' b \<and> in_use x' B' = (in_use x B)(b + 16 \<mapsto> size_at x' b) \<and> frame x' = frame x)"

text \<open>A block in use whose neighbour above is taken away, and perhaps replaced by the free block \<open>y\<close>.\<close>

lemma resizedI:
  assumes inv: "xma_inv x B" and b: "b \<in> B'" "\<not> free_at x b" "\<not> free_at x' b" and n: "n \<le> size_at x' b"
    and B': "B' \<subseteq> B \<union> Y" "B - G \<subseteq> B'" and G: "\<And>a. a \<in> G \<Longrightarrow> free_at x a" and Y: "Y \<inter> (B - G) = {}" "\<And>a. a \<in> Y \<Longrightarrow> a \<in> B' \<and> free_at x' a"
    and YG: "B' \<inter> G \<subseteq> Y"
    and same: "\<And>a. a \<in> B' \<Longrightarrow> a \<notin> Y \<Longrightarrow> a \<noteq> b \<Longrightarrow> size_at x' a = size_at x a \<and> free_at x' a = free_at x a"
    and f: "frame x' = frame x" and t: "tiling (xma_start x) (xma_end x) (size_at x') (prev_at x') B'"
    and above: "\<And>y. y \<in> Y \<Longrightarrow> nxt (size_at x') y \<in> B' \<Longrightarrow> \<not> free_at x' (nxt (size_at x') y)"
    and below: "\<And>y. y \<in> Y \<Longrightarrow> nxt (size_at x') b = y"
    and l: "listed x' {a \<in> B'. free_at x' a}" and st: "stats_ok x' B'"
  shows "resized x B n x' b"
proof -
  note i = xma_invD [OF inv]
  have fr: "xma_start x' = xma_start x" "xma_end x' = xma_end x" "xma_bdec x' = xma_bdec x" using frame_eqD [OF f] by auto
  have co: "coalesced (size_at x') (free_at x') B'"
    unfolding coalesced_def
  proof (intro ballI impI notI)
    fix a assume a: "a \<in> B'" "nxt (size_at x') a \<in> B'" "free_at x' a \<and> free_at x' (nxt (size_at x') a)"
    have ab: "a \<noteq> b" using a(3) b(3) by blast
    have aY: "a \<notin> Y" using above a by blast
    have nY: "nxt (size_at x') a \<notin> Y" using below [of "nxt (size_at x') a"] tiling_nxt_inj [OF t a(1) b(1)] ab by auto
    have nb: "nxt (size_at x') a \<noteq> b" using a(3) b(3) by auto
    have e: "nxt (size_at x') a = nxt (size_at x) a" using same [OF a(1) aY ab] by (simp add: nxt_def)
    have "free_at x a" "free_at x (nxt (size_at x) a)" using same [OF a(1) aY ab] same [OF a(2) nY nb] a(3) e by auto
    moreover have "a \<in> B" "nxt (size_at x) a \<in> B" using a(1,2) aY nY B'(1) e by auto
    ultimately show False using i(4) by (auto simp: coalesced_def)
  qed
  have "xma_inv x' B'" using i(1,2) l st t co by (simp add: xma_inv_def fr)
  moreover have "in_use x' B' q = ((in_use x B)(b + 16 \<mapsto> size_at x' b)) q" for q
  proof (cases "16 \<le> q")
    case False
    then show ?thesis by (simp add: in_use_def)
  next
    case True
    then obtain a where q: "q = a + 16" by (metis le_add_diff_inverse2)
    have "(a \<in> B' \<and> \<not> free_at x' a) = (a = b \<or> a \<in> B \<and> \<not> free_at x a)"
      using same [of a] G [of a] Y b B' YG by (cases "a = b"; cases "a \<in> Y"; cases "a \<in> B'") blast+
    moreover have "size_at x' a = size_at x a" if "a \<in> B'" "\<not> free_at x' a" "a \<noteq> b" using same [of a] that Y(2) by auto
    ultimately show ?thesis unfolding in_use_def q by auto
  qed
  ultimately show ?thesis using f n b(1) unfolding resized_def by blast
qed

lemma resize_split_next:
  assumes inv: "xma_inv x B" and b: "b \<in> B" "\<not> free_at x b" and m: "m = nxt (size_at x) b" "m \<in> B" "free_at x m"
    and n: "n mod 16 = 0" "16 \<le> n" "n + 32 \<le> size_at x b + 16 + size_at x m"
    and y: "y = b + 16 + n" and w: "w = size_at x b + 16 + size_at x m - n - 16" and z: "z = nxt (size_at x) m"
    and h: "\<And>a. size_at x' a = (if a = y then w else if a = b then n else size_at x a)" "\<And>a. free_at x' a = (a = y \<or> free_at x a)"
      "\<And>a. prev_at x' a = (if z < xma_end x \<and> a = z then w else if a = y then n else prev_at x a)"
    and f: "frame x' = frame x" and l: "listed x' (insert y ({a \<in> B. free_at x a} - {m}))"
    and st: "xma_stat x' = (xma_stat x)\<lparr>st_alloc := st_alloc (xma_stat x) + n - size_at x b, st_avail := st_avail (xma_stat x) + size_at x b - n\<rparr>"
  shows "resized x B n x' b"
proof -
  note i = xma_invD [OF inv]
  have fr: "xma_start x' = xma_start x" "xma_end x' = xma_end x" using frame_eqD [OF f] by auto
  have bm: "m \<noteq> b" "y \<noteq> b" using m(1) y by (auto simp: nxt_def)
  have ze: "z < xma_end x \<or> z \<notin> B" using tiling_next [OF i(3) m(2)] z by blast
  let ?sz = "(size_at x)(b := size_at x b + 16 + size_at x m)" and ?B = "B - {m}"
  let ?pv = "\<lambda>a. if a = z then size_at x b + 16 + size_at x m else prev_at x a"
  have t1: "tiling (xma_start x) (xma_end x) ?sz ?pv ?B"
    by (rule tiling_join [OF i(3) b(1) m(1,2)]) (use z in auto)
  have nz: "nxt ?sz b = z" using z m(1) by (simp add: nxt_def)
  have yz: "y \<noteq> z" "b < y" "y < z" using y z m(1) n(3) by (auto simp: nxt_def)
  have yB: "y \<notin> ?B" using tilingD(10) [OF t1, of b y] b(1) bm yz unfolding nz by auto
  have t: "tiling (xma_start x) (xma_end x) (size_at x') (prev_at x') (insert y ?B)"
  proof (rule tiling_split(2) [OF t1 _ n(1,2) _ y])
    show "size_at x' a = ?sz a" if "a \<in> ?B" "a \<noteq> b" for a using that h yB by auto
    show "prev_at x' a = (if a = nxt ?sz b then ?sz b - n - 16 else ?pv a)" if "a \<in> ?B" for a
      using that ze yB yz unfolding h nz w by auto
  qed (use h w n b bm yz in auto)
  have ny: "nxt (size_at x') y = z" using w z y m(1) n(3) by (simp add: nxt_def h)
  have zf: "\<not> free_at x z" if "z \<in> B" using i(4) m(2,3) z that by (auto simp: coalesced_def)
  show ?thesis
  proof (rule resizedI [OF inv, where Y = "{y}" and G = "{m}"])
    show "\<not> free_at x' (nxt (size_at x') a)" if "a \<in> {y}" "nxt (size_at x') a \<in> insert y ?B" for a
      using that zf yz ny h by auto
    show "nxt (size_at x') b = a" if "a \<in> {y}" for a using that y bm by (simp add: nxt_def h)
    have B: "finite B" "finite ?B" "b \<in> ?B" using tilingD(1) [OF i(3)] b(1) bm by auto
    have eq: "usum (size_at x') (free_at x') (?B - {b}) = usum (size_at x) (free_at x) (?B - {b})"
      "fsum (size_at x') (free_at x') (?B - {b}) = fsum (size_at x) (free_at x) (?B - {b})"
      "ucnt (free_at x') (?B - {b}) = ucnt (free_at x) (?B - {b})" "fcnt (free_at x') (?B - {b}) = fcnt (free_at x) (?B - {b})"
      using h yB by (intro count_cong; auto)+
    show "stats_ok x' (insert y ?B)"
      using i(6) n(3) unfolding stats_ok_def st fr counts_insert [OF B(2) yB] counts_remove [OF B(2,3)] counts_remove [OF B(1) m(2)] eq
      by (simp add: h m(3) b(2) bm bm(2) [symmetric] w)
    have "{a \<in> insert y ?B. free_at x' a} = insert y ({a \<in> B. free_at x a} - {m})" using h by auto
    then show "listed x' {a \<in> insert y ?B. free_at x' a}" using l by simp
  qed (use b bm h t f m yB in auto)
qed

lemma resize_whole_next:
  assumes inv: "xma_inv x B" and b: "b \<in> B" "\<not> free_at x b" and m: "m = nxt (size_at x) b" "m \<in> B" "free_at x m"
    and w: "w = size_at x b + 16 + size_at x m" and n: "n \<le> w" and z: "z = nxt (size_at x) m"
    and h: "\<And>a. size_at x' a = (if a = b then w else size_at x a)" "\<And>a. free_at x' a = free_at x a"
      "\<And>a. prev_at x' a = (if z < xma_end x \<and> a = z then w else prev_at x a)"
    and f: "frame x' = frame x" and l: "listed x' ({a \<in> B. free_at x a} - {m})"
    and st: "xma_stat x' = (xma_stat x)\<lparr>st_alloc := st_alloc (xma_stat x) + (16 + size_at x m), st_avail := st_avail (xma_stat x) - size_at x m,
      st_nfree := st_nfree (xma_stat x) - 1\<rparr>"
  shows "resized x B n x' b"
proof -
  note i = xma_invD [OF inv]
  have fr: "xma_start x' = xma_start x" "xma_end x' = xma_end x" using frame_eqD [OF f] by auto
  have bm: "m \<noteq> b" using m(1) by (auto simp: nxt_def)
  have ze: "z < xma_end x \<or> z \<notin> B" using tiling_next [OF i(3) m(2)] z by blast
  let ?B = "B - {m}"
  have t: "tiling (xma_start x) (xma_end x) (size_at x') (prev_at x') ?B"
  proof (rule tiling_join [OF i(3) b(1) m(1,2)])
    show "prev_at x' a = (if a = nxt (size_at x) m then size_at x' b else prev_at x a)" if "a \<in> B" "a \<noteq> m" for a
      using that ze unfolding h z by auto
  qed (use h w in auto)
  show ?thesis
  proof (rule resizedI [OF inv, where Y = "{}" and G = "{m}"])
    have B: "finite B" "finite ?B" "b \<in> ?B" using tilingD(1) [OF i(3)] b(1) bm by auto
    have eq: "usum (size_at x') (free_at x') (?B - {b}) = usum (size_at x) (free_at x) (?B - {b})"
      "fsum (size_at x') (free_at x') (?B - {b}) = fsum (size_at x) (free_at x) (?B - {b})"
      "ucnt (free_at x') (?B - {b}) = ucnt (free_at x) (?B - {b})" "fcnt (free_at x') (?B - {b}) = fcnt (free_at x) (?B - {b})"
      using h by (intro count_cong; auto)+
    show "stats_ok x' ?B"
      using i(6) unfolding stats_ok_def st fr counts_remove [OF B(2,3)] counts_remove [OF B(1) m(2)] eq
      by (simp add: h m(3) b(2) w)
    have "{a \<in> ?B. free_at x' a} = {a \<in> B. free_at x a} - {m}" using h by auto
    then show "listed x' {a \<in> ?B. free_at x' a}" using l by simp
  qed (use b bm h t f m n in auto)
qed

lemma resize_split_alone:
  assumes inv: "xma_inv x B" and b: "b \<in> B" "\<not> free_at x b" and m: "z = nxt (size_at x) b" "z \<in> B \<Longrightarrow> \<not> free_at x z"
    and n: "n mod 16 = 0" "16 \<le> n" "n + 32 \<le> size_at x b" and y: "y = b + 16 + n" and w: "w = size_at x b - n - 16"
    and h: "\<And>a. size_at x' a = (if a = y then w else if a = b then n else size_at x a)" "\<And>a. free_at x' a = (a = y \<or> free_at x a)"
      "\<And>a. prev_at x' a = (if a = z then w else if a = y then n else prev_at x a)"
    and f: "frame x' = frame x" and l: "listed x' (insert y {a \<in> B. free_at x a})"
    and st: "xma_stat x' = (xma_stat x)\<lparr>st_alloc := st_alloc (xma_stat x) - (size_at x b - n), st_avail := st_avail (xma_stat x) + w,
      st_nfree := st_nfree (xma_stat x) + 1\<rparr>"
  shows "resized x B n x' b"
proof -
  note i = xma_invD [OF inv]
  have fr: "xma_start x' = xma_start x" "xma_end x' = xma_end x" using frame_eqD [OF f] by auto
  have yz: "y \<noteq> z" "b < y" "y < z" "y \<noteq> b" using y m(1) n(3) by (auto simp: nxt_def)
  have yB: "y \<notin> B" using tilingD(10) [OF i(3), of b y] b(1) yz m(1) by auto
  have t: "tiling (xma_start x) (xma_end x) (size_at x') (prev_at x') (insert y B)"
  proof (rule tiling_split(2) [OF i(3) b(1) n y])
    show "size_at x' a = size_at x a" if "a \<in> B" "a \<noteq> b" for a using that h yB by auto
    show "prev_at x' a = (if a = nxt (size_at x) b then size_at x b - n - 16 else prev_at x a)" if "a \<in> B" for a
      using that yB yz unfolding h m(1) w by auto
  qed (use h w yz in auto)
  have ny: "nxt (size_at x') y = z" using w y m(1) n(3) by (simp add: nxt_def h)
  show ?thesis
  proof (rule resizedI [OF inv, where Y = "{y}" and G = "{}"])
    show "\<not> free_at x' (nxt (size_at x') a)" if "a \<in> {y}" "nxt (size_at x') a \<in> insert y B" for a
      using that m(2) yz ny h by auto
    show "nxt (size_at x') b = a" if "a \<in> {y}" for a using that y yz by (simp add: nxt_def h)
    have B: "finite B" using tilingD(1) [OF i(3)] .
    have eq: "usum (size_at x') (free_at x') (B - {b}) = usum (size_at x) (free_at x) (B - {b})"
      "fsum (size_at x') (free_at x') (B - {b}) = fsum (size_at x) (free_at x) (B - {b})"
      "ucnt (free_at x') (B - {b}) = ucnt (free_at x) (B - {b})" "fcnt (free_at x') (B - {b}) = fcnt (free_at x) (B - {b})"
      using h yB by (intro count_cong; auto)+
    show "stats_ok x' (insert y B)"
      using i(6) n(3) unfolding stats_ok_def st fr counts_insert [OF B yB] counts_remove [OF B b(1)] eq
      by (simp add: h b(2) yz(4) yz(4) [symmetric] w)
    have "{a \<in> insert y B. free_at x' a} = insert y {a \<in> B. free_at x a}" using h by auto
    then show "listed x' {a \<in> insert y B. free_at x' a}" using l by simp
  qed (use b yz h t f yB in auto)
qed

lemma in_useD:
  assumes "xma_inv x B" "in_use x B p = Some k"
  shows "p - 16 \<in> B" "\<not> free_at x (p - 16)" "k = size_at x (p - 16)" "p = p - 16 + 16"
  using assms(2) by (auto simp: in_use_def split: if_splits)

lemma realloc_grow_resized:
  assumes inv: "xma_inv x B" and b: "b \<in> B" "\<not> free_at x b" and n: "n mod 16 = 0" "16 \<le> n" "size_at x b < n"
    and r: "realloc_grow x b n = Some x'"
  shows "resized x B n x' b"
proof -
  note i = xma_invD [OF inv]
  let ?m = "nxt (size_at x) b" and ?F = "{a \<in> B. free_at x a}"
  define x1 where "x1 = detach_from_freelist x ?m"
  have d: "size_at x1 a = size_at x a" "free_at x1 a = free_at x a" "prev_at x1 a = prev_at x a" "xma_stat x1 = xma_stat x" "frame x1 = frame x"
    "xma_end x1 = xma_end x" for a by (simp_all add: x1_def detach_same)
  have m: "?m < xma_end x" "free_at x ?m" "n - size_at x b \<le> size_at x ?m"
    using r by (auto simp: realloc_grow_def Let_def next_mblk_nxt split: if_splits)
  then have mB: "?m \<in> B" using tiling_next [OF i(3) b(1)] by simp
  have l1: "listed x1 (?F - {?m})" unfolding x1_def using listed_detach [OF i(5), of ?m] mB m(2) by simp
  have bm: "?m \<noteq> b" by (simp add: nxt_def)
  let ?rem = "16 + size_at x ?m - (n - size_at x b)"
  show ?thesis
  proof (cases "32 \<le> ?rem")
    case True
    have x': "x' = upd_stat (\<lambda>s. s\<lparr>st_alloc := st_alloc s + (n - size_at x b), st_avail := st_avail s - (n - size_at x b)\<rparr>) (split_block x1 b n ?rem)"
      using r True m n(3) by (simp add: realloc_grow_def Let_def next_mblk_nxt d x1_def [symmetric])
    have "b + 16 + n \<notin> B"
      using tilingD(10) [OF i(3) mB, of "b + 16 + n"] n(3) True m(3) by (auto simp: nxt_def)
    then have "listed x' (insert (b + 16 + n) (?F - {?m}))" unfolding x' using l1 b by (intro listed_intros listed_split_block) auto
    moreover have "st_avail (xma_stat x) - (n - size_at x b) = st_avail (xma_stat x) + size_at x b - n" using n(3) by simp
    ultimately show ?thesis
      by (intro resize_split_next [OF inv b refl mB m(2) n(1,2) _ refl refl refl])
        (use True m(3) n(3) in \<open>auto simp: x' split_block_get [OF refl refl refl] d nxt_def\<close>)
  next
    case False
    define x2 where "x2 = set_size b (size_at x b + (16 + size_at x ?m)) x1"
    define x3 where "x3 = (if next_mblk x2 b < xma_end x then set_prev (next_mblk x2 b) (size_at x2 b) x2 else x2)"
    have x': "x' = upd_stat (\<lambda>s. s\<lparr>st_nfree := st_nfree s - 1, st_alloc := st_alloc s + (16 + size_at x ?m), st_avail := st_avail s - size_at x ?m\<rparr>) x3"
      using r False m n(3) by (auto simp: realloc_grow_def Let_def next_mblk_nxt d x1_def [symmetric] x2_def x3_def)
    have "listed x2 (?F - {?m})" unfolding x2_def using l1 b by (intro listed_intros) auto
    then have "listed x' (?F - {?m})" unfolding x' x3_def by (auto intro!: listed_intros)
    moreover have "next_mblk x2 b = nxt (size_at x) ?m" by (simp add: x2_def next_mblk_nxt nxt_def)
    ultimately show ?thesis
      by (intro resize_whole_next [OF inv b refl mB m(2) refl _ refl])
        (use m(3) in \<open>auto simp: x' x3_def x2_def d\<close>)
  qed
qed

lemma realloc_shrink_resized:
  assumes inv: "xma_inv x B" and b: "b \<in> B" "\<not> free_at x b" and n: "n mod 16 = 0" "16 \<le> n" "n < size_at x b"
  shows "resized x B n (realloc_shrink x b n) b"
proof -
  note i = xma_invD [OF inv]
  let ?m = "nxt (size_at x) b" and ?F = "{a \<in> B. free_at x a}" and ?x = "realloc_shrink x b n"
  have ey: "?m < xma_end x \<longleftrightarrow> ?m \<in> B" using tiling_next [OF i(3) b(1)] .
  consider "size_at x b - n < 32" | "32 \<le> size_at x b - n" "?m \<in> B" "free_at x ?m" | "32 \<le> size_at x b - n" "\<not> (?m \<in> B \<and> free_at x ?m)" by linarith
  then show ?thesis
  proof cases
    case 1
    then have "?x = x" by (simp add: realloc_shrink_def Let_def)
    moreover have "in_use x B = (in_use x B)(b + 16 \<mapsto> size_at x b)" using b by (auto simp: in_use_def fun_eq_iff)
    ultimately show ?thesis using inv b(1) n(3) unfolding resized_def by auto
  next
    case 2
    define x1 where "x1 = detach_from_freelist x ?m"
    have d: "size_at x1 a = size_at x a" "free_at x1 a = free_at x a" "prev_at x1 a = prev_at x a" "xma_stat x1 = xma_stat x" "frame x1 = frame x"
      "xma_end x1 = xma_end x" for a by (simp_all add: x1_def detach_same)
    have l1: "listed x1 (?F - {?m})" unfolding x1_def using listed_detach [OF i(5), of ?m] 2 by simp
    let ?rem = "size_at x b - n + size_at x ?m + 16"
    have x': "?x = upd_stat (\<lambda>s. s\<lparr>st_alloc := st_alloc s - (size_at x b - n), st_avail := st_avail s + (size_at x b - n)\<rparr>) (split_block x1 b n ?rem)"
      using 2 ey by (simp add: realloc_shrink_def Let_def next_mblk_nxt x1_def [symmetric])
    have "b + 16 + n \<notin> B" using tilingD(10) [OF i(3) b(1), of "b + 16 + n"] n(3) by (auto simp: nxt_def)
    then have "listed ?x (insert (b + 16 + n) (?F - {?m}))" unfolding x' using l1 b by (intro listed_intros listed_split_block) auto
    moreover have "st_avail (xma_stat x) + (size_at x b - n) = st_avail (xma_stat x) + size_at x b - n"
      "st_alloc (xma_stat x) - (size_at x b - n) = st_alloc (xma_stat x) + n - size_at x b" using n(3) by simp_all
    ultimately show ?thesis
      by (intro resize_split_next [OF inv b refl 2(2,3) n(1,2) _ refl refl refl])
        (use 2(1) n(3) in \<open>auto simp: x' split_block_get [OF refl refl refl] d nxt_def\<close>)
  next
    case 3
    let ?y = "b + 16 + n"
    define x1 where "x1 = set_prev ?y n (set_size ?y (size_at x b - n - 16) (set_free ?y True (set_size b n x)))"
    have x': "?x = upd_stat (\<lambda>s. s\<lparr>st_nfree := st_nfree s + 1, st_alloc := st_alloc s - (size_at x b - n), st_avail := st_avail s + (size_at x b - n - 16)\<rparr>)
        (set_prev ?m (size_at x b - n - 16) (attach_to_freelist x1 ?y))"
      using 3 ey by (auto simp: realloc_shrink_def Let_def next_mblk_nxt nxt_def x1_def attach_same)
    have "?y \<notin> B" using tilingD(10) [OF i(3) b(1), of ?y] n(3) by (auto simp: nxt_def)
    moreover from this have "listed x1 ?F" unfolding x1_def using b i(5) by (intro listed_intros) auto
    ultimately have "listed ?x (insert ?y ?F)" unfolding x' by (intro listed_intros listed_attach) (auto simp: QSE_NULL_def)
    then show ?thesis
      by (intro resize_split_alone [OF inv b refl _ n(1,2) _ refl refl])
        (use 3 n(3) in \<open>auto simp: x' x1_def attach_same\<close>)
  qed
qed

text \<open>The in-place part of reallocation either keeps or resizes the block, or refuses and changes nothing.\<close>

lemma realloc_merge_resized:
  assumes inv: "xma_inv x B" and u: "in_use x B p = Some k" and sz: "sz < 2 ^ 64 - 15" and r: "realloc_merge x p sz = Some x'"
  shows "resized x B (round_request sz) x' (p - 16)"
proof -
  note b = in_useD [OF inv u] and n = round_request_small [OF sz]
  have same: "in_use x B = (in_use x B)(p \<mapsto> size_at x (p - 16))" using u b(3) by auto
  consider "size_at x (p - 16) < round_request sz" | "round_request sz < size_at x (p - 16)" | "round_request sz = size_at x (p - 16)" by linarith
  then show ?thesis
  proof cases
    case 1
    then show ?thesis using r realloc_grow_resized [OF inv b(1,2) n(3,2)] by (simp add: realloc_merge_def Let_def USR_TO_SYS_def)
  next
    case 2
    then show ?thesis using r realloc_shrink_resized [OF inv b(1,2) n(3,2)] by (simp add: realloc_merge_def Let_def USR_TO_SYS_def)
  next
    case 3
    then have "x' = x" using r by (simp add: realloc_merge_def Let_def USR_TO_SYS_def)
    then show ?thesis using 3 inv b same unfolding resized_def by auto
  qed
qed

end
