(* ===== verification/Qse_Alloc.thy ===== *)
theory Qse_Alloc
  imports Qse_Prelude
begin

text \<open>
  The interface of a memory allocator, which a \<open>qse_mmgr_t\<close> (\<open>src/include/qse/types.h\<close>) gives to the rest of the library: allocate, reallocate, free.
  Its abstract state maps the address of every block in use to the number of bytes that belong to it. The locales state what an allocator
  promises for a single call; inside them, whole sequences of calls are shown to follow the abstract specification.
\<close>

section \<open>The abstract specification\<close>

type_synonym blocks = "addr \<rightharpoonup> nat"

definition apart :: "blocks \<Rightarrow> bool" where
  "apart m \<longleftrightarrow> (\<forall>p q k l. m p = Some k \<longrightarrow> m q = Some l \<longrightarrow> p \<noteq> q \<longrightarrow> p + k \<le> q \<or> q + l \<le> p)"

datatype mm_cmd = Alloc nat | Realloc addr nat | Free addr

text \<open>A request is refused with the null pointer and no change, or served with a block of at least the size asked for at a new address.\<close>

inductive heap_step :: "mm_cmd \<Rightarrow> blocks \<Rightarrow> addr \<Rightarrow> blocks \<Rightarrow> bool" where
  refused: "heap_step (Alloc n) m QSE_NULL m"
| served: "p \<noteq> QSE_NULL \<Longrightarrow> m p = None \<Longrightarrow> n \<le> k \<Longrightarrow> heap_step (Alloc n) m p (m(p \<mapsto> k))"
| kept: "heap_step (Realloc p n) m QSE_NULL m"
| moved: "p = QSE_NULL \<or> m p \<noteq> None \<Longrightarrow> q \<noteq> QSE_NULL \<Longrightarrow> q = p \<or> m q = None \<Longrightarrow> n \<le> k \<Longrightarrow> heap_step (Realloc p n) m q (m(p := None, q \<mapsto> k))"
| released: "m p \<noteq> None \<Longrightarrow> heap_step (Free p) m QSE_NULL (m(p := None))"

inductive heap_run :: "mm_cmd list \<Rightarrow> blocks \<Rightarrow> addr list \<Rightarrow> blocks \<Rightarrow> bool" where
  stop: "heap_run [] m [] m"
| step: "heap_step c m r m' \<Longrightarrow> heap_run cs m' rs m'' \<Longrightarrow> heap_run (c # cs) m (r # rs) m''"

inductive_cases heap_stepE: "heap_step c m r m'"
inductive_simps heap_step_Alloc: "heap_step (Alloc n) m r m'"

section \<open>Allocators\<close>

text \<open>\<open>'e\<close> is what the outer memory manager answers during a call.\<close>

record ('e, 's) mm_ops =
  op_alloc :: "'e \<Rightarrow> 's \<Rightarrow> nat \<Rightarrow> ('s \<times> addr) option"
  op_realloc :: "'e \<Rightarrow> 's \<Rightarrow> addr \<Rightarrow> nat \<Rightarrow> ('s \<times> addr) option"
  op_free :: "'s \<Rightarrow> addr \<Rightarrow> 's"

fun mm_step :: "('e, 's) mm_ops \<Rightarrow> 'e \<times> mm_cmd \<Rightarrow> 's \<Rightarrow> ('s \<times> addr) option" where
  "mm_step ops (e, Alloc n) s = op_alloc ops e s n"
| "mm_step ops (e, Realloc p n) s = op_realloc ops e s p n"
| "mm_step ops (e, Free p) s = Some (op_free ops s p, QSE_NULL)"

fun mm_run :: "('e, 's) mm_ops \<Rightarrow> ('e \<times> mm_cmd) list \<Rightarrow> 's \<Rightarrow> ('s \<times> addr list) option" where
  "mm_run ops [] s = Some (s, [])"
| "mm_run ops (c # cs) s =
     (case mm_step ops c s of
        None \<Rightarrow> None
      | Some (s1, r) \<Rightarrow> map_option (\<lambda>(s2, rs). (s2, r # rs)) (mm_run ops cs s1))"

text \<open>A client that frees and reallocates only what it has, and an outer memory manager that answers as it should.\<close>

fun cmd_fit :: "('e \<Rightarrow> 's \<Rightarrow> nat \<Rightarrow> bool) \<Rightarrow> ('s \<Rightarrow> blocks) \<Rightarrow> 'e \<times> mm_cmd \<Rightarrow> 's \<Rightarrow> bool" where
  "cmd_fit grant live (e, Alloc n) s \<longleftrightarrow> grant e s n"
| "cmd_fit grant live (e, Realloc p n) s \<longleftrightarrow> grant e s n \<and> (p = QSE_NULL \<or> live s p \<noteq> None)"
| "cmd_fit grant live (e, Free p) s \<longleftrightarrow> live s p \<noteq> None"

fun proper :: "('e, 's) mm_ops \<Rightarrow> ('e \<Rightarrow> 's \<Rightarrow> nat \<Rightarrow> bool) \<Rightarrow> ('s \<Rightarrow> blocks) \<Rightarrow> ('e \<times> mm_cmd) list \<Rightarrow> 's \<Rightarrow> bool" where
  "proper ops grant live [] s \<longleftrightarrow> True"
| "proper ops grant live (c # cs) s \<longleftrightarrow> cmd_fit grant live c s \<and>
     (case mm_step ops c s of None \<Rightarrow> True | Some (s', r) \<Rightarrow> proper ops grant live cs s')"

locale block_source =
  fixes ok :: "'s \<Rightarrow> bool" and live :: "'s \<Rightarrow> blocks" and grant :: "'e \<Rightarrow> 's \<Rightarrow> nat \<Rightarrow> bool" and ops :: "('e, 's) mm_ops"
  assumes live_apart: "ok s \<Longrightarrow> apart (live s)"
    and live_null: "ok s \<Longrightarrow> live s QSE_NULL = None"
    and alloc_step: "ok s \<Longrightarrow> grant e s n \<Longrightarrow> \<exists>s' p. op_alloc ops e s n = Some (s', p) \<and> ok s' \<and> heap_step (Alloc n) (live s) p (live s')"
begin

lemma allocs_refine:
  assumes "ok s" "\<forall>c \<in> set cs. \<exists>n. snd c = Alloc n" "proper ops grant live cs s"
  shows "\<exists>s' rs. mm_run ops cs s = Some (s', rs) \<and> ok s' \<and> apart (live s') \<and> heap_run (map snd cs) (live s) rs (live s')"
  using assms
proof (induction cs arbitrary: s)
  case Nil
  then show ?case using live_apart by (auto intro: heap_run.stop)
next
  case (Cons c cs)
  then obtain e n where c: "c = (e, Alloc n)" by (metis list.set_intros(1) prod.collapse)
  then obtain s1 p where st: "op_alloc ops e s n = Some (s1, p)" "ok s1" "heap_step (Alloc n) (live s) p (live s1)"
    using alloc_step [of s e n] Cons.prems by auto
  then have "\<exists>s' rs. mm_run ops cs s1 = Some (s', rs) \<and> ok s' \<and> apart (live s') \<and> heap_run (map snd cs) (live s1) rs (live s')"
    using Cons.prems c by (intro Cons.IH) auto
  then show ?case using st c heap_run.step [OF st(3)] by auto
qed

end

locale allocator = block_source +
  assumes realloc_step: "ok s \<Longrightarrow> grant e s n \<Longrightarrow> p = QSE_NULL \<or> live s p \<noteq> None \<Longrightarrow>
      \<exists>s' q. op_realloc ops e s p n = Some (s', q) \<and> ok s' \<and> heap_step (Realloc p n) (live s) q (live s')"
    and free_step: "ok s \<Longrightarrow> live s p \<noteq> None \<Longrightarrow> ok (op_free ops s p) \<and> live (op_free ops s p) = (live s)(p := None)"
begin

lemma step_refines:
  assumes "ok s" "cmd_fit grant live c s"
  shows "\<exists>s' r. mm_step ops c s = Some (s', r) \<and> ok s' \<and> heap_step (snd c) (live s) r (live s')"
proof -
  obtain e cmd where c: "c = (e, cmd)" by (cases c)
  show ?thesis
  proof (cases cmd)
    case (Alloc n)
    then show ?thesis using alloc_step [OF assms(1)] assms(2) c by simp
  next
    case (Realloc p n)
    then show ?thesis using realloc_step [OF assms(1)] assms(2) c by simp
  next
    case (Free p)
    then have l: "live s p \<noteq> None" using assms(2) c by simp
    then show ?thesis using free_step [OF assms(1) l] heap_step.released [of "live s" p] c Free by simp
  qed
qed

lemma run_refines:
  assumes "ok s" "proper ops grant live cs s"
  shows "\<exists>s' rs. mm_run ops cs s = Some (s', rs) \<and> ok s' \<and> apart (live s') \<and> heap_run (map snd cs) (live s) rs (live s')"
  using assms
proof (induction cs arbitrary: s)
  case Nil
  then show ?case using live_apart by (auto intro: heap_run.stop)
next
  case (Cons c cs)
  then obtain s1 r where st: "mm_step ops c s = Some (s1, r)" "ok s1" "heap_step (snd c) (live s) r (live s1)"
    using step_refines [of s c] by auto
  then have "\<exists>s' rs. mm_run ops cs s1 = Some (s', rs) \<and> ok s' \<and> apart (live s') \<and> heap_run (map snd cs) (live s1) rs (live s')"
    using Cons.prems by (intro Cons.IH) auto
  then show ?case using st heap_run.step [OF st(3)] by auto
qed

end

section \<open>Allocators that may stop\<close>

text \<open>An allocator that may stop the program at a failed check promises the same for the calls that return.\<close>

locale partial_allocator =
  fixes ok :: "'s \<Rightarrow> bool" and live :: "'s \<Rightarrow> blocks" and grant :: "'e \<Rightarrow> 's \<Rightarrow> nat \<Rightarrow> bool" and ops :: "('e, 's) mm_ops"
  assumes part_apart: "ok s \<Longrightarrow> apart (live s)"
    and part_alloc: "ok s \<Longrightarrow> grant e s n \<Longrightarrow> op_alloc ops e s n = Some (s', p) \<Longrightarrow> ok s' \<and> heap_step (Alloc n) (live s) p (live s')"
    and part_realloc: "ok s \<Longrightarrow> grant e s n \<Longrightarrow> p = QSE_NULL \<or> live s p \<noteq> None \<Longrightarrow> op_realloc ops e s p n = Some (s', q) \<Longrightarrow>
      ok s' \<and> heap_step (Realloc p n) (live s) q (live s')"
    and part_free: "ok s \<Longrightarrow> live s p \<noteq> None \<Longrightarrow> ok (op_free ops s p) \<and> live (op_free ops s p) = (live s)(p := None)"
begin

lemma step_follows:
  assumes "ok s" "cmd_fit grant live c s" "mm_step ops c s = Some (s', r)"
  shows "ok s' \<and> heap_step (snd c) (live s) r (live s')"
proof -
  obtain e cmd where c: "c = (e, cmd)" by (cases c)
  show ?thesis
  proof (cases cmd)
    case (Alloc n)
    then show ?thesis using part_alloc [OF assms(1)] assms(2,3) c by simp
  next
    case (Realloc p n)
    then have "grant e s n" "p = QSE_NULL \<or> live s p \<noteq> None" "op_realloc ops e s p n = Some (s', r)" using assms(2,3) c by simp_all
    from part_realloc [OF assms(1) this] show ?thesis using c Realloc by simp
  next
    case (Free p)
    then have l: "live s p \<noteq> None" using assms(2) c by simp
    then show ?thesis using part_free [OF assms(1) l] heap_step.released [of "live s" p] assms(3) c Free by auto
  qed
qed

lemma run_follows:
  assumes "ok s" "proper ops grant live cs s" "mm_run ops cs s = Some (s', rs)"
  shows "ok s' \<and> apart (live s') \<and> heap_run (map snd cs) (live s) rs (live s')"
  using assms
proof (induction cs arbitrary: s rs)
  case Nil
  then show ?case using part_apart by (auto intro: heap_run.stop)
next
  case (Cons c cs)
  obtain s1 r rs1 where st: "mm_step ops c s = Some (s1, r)" "mm_run ops cs s1 = Some (s', rs1)" "rs = r # rs1"
    using Cons.prems(3) by (auto split: option.split_asm)
  have f: "ok s1" "heap_step (snd c) (live s) r (live s1)" using step_follows [OF Cons.prems(1) _ st(1)] Cons.prems(2) by auto
  have "proper ops grant live cs s1" using Cons.prems(2) st(1) by simp
  from Cons.IH [OF f(1) this st(2)] show ?case using f(2) st(3) by (auto intro: heap_run.step)
qed

end

sublocale allocator \<subseteq> parts: partial_allocator ok live grant ops
proof unfold_locales
  show "apart (live s)" if "ok s" for s using live_apart [OF that] .
  show "ok s' \<and> heap_step (Alloc n) (live s) p (live s')" if "ok s" "grant e s n" "op_alloc ops e s n = Some (s', p)" for s e n s' p
    using alloc_step [OF that(1,2)] that(3) by auto
  show "ok s' \<and> heap_step (Realloc p n) (live s) q (live s')"
    if "ok s" "grant e s n" "p = QSE_NULL \<or> live s p \<noteq> None" "op_realloc ops e s p n = Some (s', q)" for s e n p s' q
    using realloc_step [OF that(1-3)] that(4) by auto
  show "ok (op_free ops s p) \<and> live (op_free ops s p) = (live s)(p := None)" if "ok s" "live s p \<noteq> None" for s p
    using free_step [OF that] .
qed

end
