(* ===== verification/Qse_Xma_Spec.thy ===== *)
theory Qse_Xma_Spec
  imports Qse_Xma_Inv Qse_Alloc
begin

text \<open>
  The zone allocator as an allocator: the blocks in use are read off the walk over the zone that \<open>qse_xma_dump\<close> makes, a new zone is one free
  block, and every sequence of calls follows the abstract specification. The theorems about reallocation of the bytes, about the sizes the
  rounding cannot represent and about the write behind the zone are here as well.
\<close>

section \<open>The walk over the zone\<close>

lemma dump_loop_blocks:
  assumes inv: "xma_inv x B" and a: "a \<in> B \<or> a = xma_end x"
  shows "dump_loop x a f u = Some (map (\<lambda>b. (size_at x b, free_at x b, b)) (sorted_list_of_set {b \<in> B. a \<le> b}),
    f + fsum (size_at x) (free_at x) {b \<in> B. a \<le> b}, u + usum (size_at x) (free_at x) {b \<in> B. a \<le> b})"
  using a
proof (induction "xma_end x - a" arbitrary: a f u rule: less_induct)
  case less
  note t = xma_invD(3) [OF inv]
  show ?case
  proof (cases "a = xma_end x")
    case True
    have "b < xma_end x" if "b \<in> B" for b using tiling_end [OF t that] .
    then have e: "{b \<in> B. a \<le> b} = {}" using True by fastforce
    show ?thesis unfolding e using True by (subst dump_loop.simps) (simp add: count_defs)
  next
    case False
    then have aB: "a \<in> B" using less.prems by simp
    have lt: "a < xma_end x" "a < nxt (size_at x) a" using tiling_end [OF t aB] by (simp_all add: nxt_def)
    let ?L = "{b \<in> B. nxt (size_at x) a \<le> b}"
    have s: "{b \<in> B. a \<le> b} = insert a ?L" "a \<notin> ?L" "finite ?L" "\<forall>b \<in> ?L. a < b"
      using tilingD(10) [OF t aB] aB lt(2) tilingD(1) [OF t] by (auto simp: le_less)
    have sl: "sorted_list_of_set (insert a ?L) = a # sorted_list_of_set ?L"
      using s by (intro sorted_list_of_set_unique [THEN iffD1]) auto
    have "xma_end x - nxt (size_at x) a < xma_end x - a" using lt by simp
    moreover have "nxt (size_at x) a \<in> B \<or> nxt (size_at x) a = xma_end x" using tilingD(9) [OF t aB] by blast
    ultimately show ?thesis
      unfolding s(1) sl counts_insert [OF s(3,2)] using lt(1)
      by (subst dump_loop.simps) (simp add: next_mblk_nxt less.hyps)
  qed
qed

lemma qse_xma_dump_blocks:
  assumes "xma_inv x B"
  shows "qse_xma_dump x = Some (map (\<lambda>b. (size_at x b, free_at x b, b)) (sorted_list_of_set B), st_avail (xma_stat x), st_alloc (xma_stat x))"
proof -
  note t = xma_invD(3) [OF assms]
  have "{b \<in> B. xma_start x \<le> b} = B" using tilingD(5) [OF t] by auto
  then show ?thesis
    using dump_loop_blocks [OF assms, of "xma_start x" 0 0] tilingD(2) [OF t] xma_invD(6) [OF assms]
    by (simp add: qse_xma_dump_def stats_ok_def)
qed

definition xma_blocks :: "qse_xma \<Rightarrow> addr set" where
  "xma_blocks x = (case qse_xma_dump x of Some (ls, fs, as) \<Rightarrow> set (map (snd \<circ> snd) ls) | None \<Rightarrow> {})"

definition xma_live :: "qse_xma \<Rightarrow> addr \<rightharpoonup> nat" where
  "xma_live x = in_use x (xma_blocks x)"

definition xma_ok :: "qse_xma \<Rightarrow> bool" where
  "xma_ok x \<longleftrightarrow> xma_inv x (xma_blocks x)"

lemma xma_blocks_eq: "xma_inv x B \<Longrightarrow> xma_blocks x = B"
  using tilingD(1) [OF xma_invD(3), of x B] by (simp add: xma_blocks_def qse_xma_dump_blocks comp_def image_image)

lemma xma_inv_ok: "xma_inv x B \<Longrightarrow> xma_ok x \<and> xma_live x = in_use x B"
  by (simp add: xma_ok_def xma_live_def xma_blocks_eq)

section \<open>A new zone\<close>

lemma qse_xma_init_ok:
  assumes "qse_xma_init mm blk m zoneptr zonesize = Some x" and "mm \<noteq> Some QSE_NULL" and "xma_end x < 2 ^ 63"
  shows "xma_inv x {xma_start x}" "xma_live x = Map.empty" "free_at x (xma_start x)"
proof -
  define zs where "zs = (if zoneptr = QSE_NULL then max (QSE_ALIGNTO_POW2 zonesize XMA_ALIGN) FBLKMINSIZE else zonesize)"
  obtain first where first: "first \<noteq> QSE_NULL" "32 \<le> zs" and e: "(let x = \<lparr>xma_start = first, xma_end = first + zs, xma_internal = (zoneptr = QSE_NULL),
      xma_xfree = replicate (XFIMAX + 1) QSE_NULL, xma_bdec = szlog2 (of_nat (FIXED * XMA_ALIGN)),
      xma_stat = \<lparr>st_total = zs, st_alloc = 0, st_avail = zs - MBLKHDRSIZE, st_nused = 0, st_nfree = 1\<rparr>,
      xma_blk = blk(first := \<lparr>b_prev_size = 0, b_free = True, b_size = zs - MBLKHDRSIZE, b_free_prev = QSE_NULL, b_free_next = QSE_NULL\<rparr>), xma_mem = m\<rparr>
    in set_xfree (getxfi x (size_at x first)) first x) = x"
    using assms(1,2) unfolding qse_xma_init_def zs_def [symmetric] Let_def
    by (auto simp: zs_def split: if_splits option.splits)
  define x0 where "x0 = \<lparr>xma_start = first, xma_end = first + zs, xma_internal = (zoneptr = QSE_NULL),
      xma_xfree = replicate (XFIMAX + 1) QSE_NULL, xma_bdec = szlog2 (of_nat (FIXED * XMA_ALIGN)),
      xma_stat = \<lparr>st_total = zs, st_alloc = 0, st_avail = zs - MBLKHDRSIZE, st_nused = 0, st_nfree = 1\<rparr>,
      xma_blk = blk(first := \<lparr>b_prev_size = 0, b_free = True, b_size = zs - MBLKHDRSIZE, b_free_prev = QSE_NULL, b_free_next = QSE_NULL\<rparr>), xma_mem = m\<rparr>"
  let ?i = "getxfi x0 (zs - 16)"
  have x: "x = set_xfree ?i first x0" using e unfolding Let_def x0_def [symmetric] by (simp add: x0_def)
  have f: "size_at x first = zs - 16" "free_at x first" "prev_at x first = 0" "fprev_at x first = QSE_NULL" "fnext_at x first = QSE_NULL"
    "xma_start x = first" "xma_end x = first + zs" "xma_bdec x = 9" "xma_xfree x = (replicate 96 QSE_NULL)[?i := first]"
    "xma_stat x = \<lparr>st_total = zs, st_alloc = 0, st_avail = zs - 16, st_nused = 0, st_nfree = 1\<rparr>"
    by (simp_all add: x x0_def szlog2_512)
  have g: "getxfi x = getxfi x0" by (rule getxfi_cong) (simp add: x)
  have i: "?i < 96" using getxfi_le [of x0 "zs - 16"] by simp
  have "lists x ((\<lambda>j. [])(?i := [first]))" using i f(4,5) first(1) by (auto simp: lists_def f(1,9) g)
  moreover have "(\<Union>j < 96. set (((\<lambda>j. [])(?i := [first])) j)) = {first}" unfolding UN_upd [OF i] by simp
  ultimately have l: "listed x {first}" unfolding listed_def by metis
  have t: "tiling first (first + zs) (size_at x) (prev_at x) {first}"
    using first by (intro tilingI) (auto simp: f nxt_def QSE_NULL_def)
  have s: "{b \<in> {first}. free_at x b} = {first}" "{b \<in> {first}. \<not> free_at x b} = {}" using f(2) by auto
  have "stats_ok x {first}" unfolding stats_ok_def count_defs s by (simp add: f)
  moreover have "coalesced (size_at x) (free_at x) {first}" by (simp add: coalesced_def nxt_def)
  ultimately show inv: "xma_inv x {xma_start x}" using l t assms(3) s(1) by (simp add: xma_inv_def f)
  have "in_use x {xma_start x} = Map.empty" using f(2,6) by (auto simp: in_use_def)
  then show "xma_live x = Map.empty" using xma_inv_ok [OF inv] by simp
  show "free_at x (xma_start x)" using f by simp
qed

lemma init_size:
  assumes "qse_xma_init mm blk m zoneptr zonesize = Some x"
  shows "xma_end x - xma_start x = (if zoneptr = QSE_NULL then max (QSE_ALIGNTO_POW2 zonesize XMA_ALIGN) FBLKMINSIZE else zonesize)"
    "zoneptr \<noteq> QSE_NULL \<Longrightarrow> 32 \<le> zonesize"
  using assms by (auto simp: qse_xma_init_def Let_def set_xfree_def split: if_splits option.splits)

lemma init_even: "qse_xma_init mm blk m zoneptr zonesize = Some x \<Longrightarrow> zoneptr = QSE_NULL \<or> zonesize mod 16 = 0 \<Longrightarrow> zone_even x"
proof -
  assume i: "qse_xma_init mm blk m zoneptr zonesize = Some x" and z: "zoneptr = QSE_NULL \<or> zonesize mod 16 = 0"
  have mask: "of_nat XMA_ALIGN - 1 = (mask 4 :: 64 word)" by (simp add: mask_eq_exp_minus_1)
  have "QSE_ALIGNTO_POW2 zonesize XMA_ALIGN mod 16 = 0" unfolding QSE_ALIGNTO_POW2_def mask and_not_mask_nat by simp
  then have "max (QSE_ALIGNTO_POW2 zonesize XMA_ALIGN) FBLKMINSIZE mod 16 = 0" by (simp add: max_def)
  then show ?thesis using init_size(1) [OF i] z unfolding zone_even_def by auto
qed

section \<open>The interface\<close>

definition xma_ops :: "(unit, qse_xma) mm_ops" where
  "xma_ops = \<lparr>op_alloc = \<lambda>_. qse_xma_alloc, op_realloc = \<lambda>_. qse_xma_realloc, op_free = qse_xma_free\<rparr>"

text \<open>Sizes whose rounding does not wrap around.\<close>

definition xma_grant :: "unit \<Rightarrow> qse_xma \<Rightarrow> nat \<Rightarrow> bool" where
  "xma_grant e x n \<longleftrightarrow> n < 2 ^ 64 - 15"

lemma xma_mem_only:
  assumes "xma_inv x B"
  shows "xma_inv (x\<lparr>xma_mem := m\<rparr>) B" "in_use (x\<lparr>xma_mem := m\<rparr>) B = in_use x B"
proof -
  have "listed (x\<lparr>xma_mem := m\<rparr>) {b \<in> B. free_at x b}" using xma_invD(5) [OF assms] by (rule listed_cong) simp_all
  then show "xma_inv (x\<lparr>xma_mem := m\<rparr>) B" using assms by (simp add: xma_inv_def stats_ok_def)
  show "in_use (x\<lparr>xma_mem := m\<rparr>) B = in_use x B" by (simp add: in_use_def fun_eq_iff)
qed

text \<open>A call that returns; in an even zone every call does.\<close>

lemma xma_alloc_step:
  assumes ok: "xma_ok x" and n: "n < 2 ^ 64 - 15" and r: "qse_xma_alloc x n = Some (x', p)"
  shows "xma_ok x' \<and> heap_step (Alloc n) (xma_live x) p (xma_live x') \<and> (p = QSE_NULL \<longrightarrow> x' = x) \<and> frame x' = frame x"
proof -
  have inv: "xma_inv x (xma_blocks x)" using ok by (simp add: xma_ok_def)
  have a: "p = QSE_NULL \<longrightarrow> x' = x"
    "p \<noteq> QSE_NULL \<longrightarrow> (\<exists>c. p = c + 16 \<and> allocated x (xma_blocks x) (round_request n) x' c)"
    using qse_xma_alloc_spec [OF inv n] r by auto
  show ?thesis
  proof (cases "p = QSE_NULL")
    case True
    then show ?thesis using a ok by (auto intro: heap_step.refused)
  next
    case False
    then obtain c B' where c: "p = c + 16" "xma_inv x' B'" "round_request n \<le> size_at x' c" "in_use x (xma_blocks x) p = None"
      "in_use x' B' = (in_use x (xma_blocks x))(p \<mapsto> size_at x' c)" "frame x' = frame x" using a(2) by (auto simp: allocated_def)
    have "n \<le> size_at x' c" using round_request_small(1) [OF n] c(3) by simp
    from heap_step.served [OF False, of "xma_live x", OF _ this]
    show ?thesis using c False xma_inv_ok [OF c(2)] by (auto simp: xma_live_def)
  qed
qed

lemma xma_alloc_returns: "xma_ok x \<Longrightarrow> zone_even x \<Longrightarrow> n < 2 ^ 64 - 15 \<Longrightarrow> \<exists>x' p. qse_xma_alloc x n = Some (x', p)"
  using qse_xma_alloc_spec [of x "xma_blocks x" n] by (cases "qse_xma_alloc x n") (auto simp: xma_ok_def)

lemma xma_free_step:
  assumes ok: "xma_ok x" and p: "xma_live x p \<noteq> None"
  shows "xma_ok (qse_xma_free x p)" "xma_live (qse_xma_free x p) = (xma_live x)(p := None)" "frame (qse_xma_free x p) = frame x"
proof -
  have inv: "xma_inv x (xma_blocks x)" using ok by (simp add: xma_ok_def)
  obtain k where k: "in_use x (xma_blocks x) p = Some k" using p by (auto simp: xma_live_def)
  obtain B' where B: "xma_inv (qse_xma_free x p) B'" "in_use (qse_xma_free x p) B' = (in_use x (xma_blocks x))(p - 16 + 16 := None)"
    "frame (qse_xma_free x p) = frame x"
    using qse_xma_free_released [OF inv k] by (auto simp: released_def)
  then show "xma_ok (qse_xma_free x p)" "xma_live (qse_xma_free x p) = (xma_live x)(p := None)" "frame (qse_xma_free x p) = frame x"
    using xma_inv_ok [OF B(1)] in_useD(4) [OF inv k] by (simp_all add: xma_live_def)
qed

lemma xma_apart:
  assumes "xma_ok x"
  shows "apart (xma_live x)"
  unfolding apart_def
proof (intro allI impI)
  fix p q k l assume pq: "xma_live x p = Some k" "xma_live x q = Some l" "p \<noteq> q"
  have inv: "xma_inv x (xma_blocks x)" using assms by (simp add: xma_ok_def)
  note u = in_useD [OF inv pq(1) [unfolded xma_live_def]] and v = in_useD [OF inv pq(2) [unfolded xma_live_def]]
  have "p - 16 \<noteq> q - 16" using pq(3) u(4) v(4) by auto
  from tiling_disjoint [OF xma_invD(3) [OF inv] u(1) v(1) this] show "p + k \<le> q \<or> q + l \<le> p"
    using u(3,4) v(3,4) by (auto simp: nxt_def)
qed

lemma xma_live_null: "xma_live x QSE_NULL = None"
  by (simp add: xma_live_def in_use_def QSE_NULL_def)

text \<open>Reallocation: in place, or by moving; the bytes of the block and those of every other block are kept.\<close>

lemma xma_realloc_step:
  assumes ok: "xma_ok x" and n: "n < 2 ^ 64 - 15" and p: "p = QSE_NULL \<or> xma_live x p \<noteq> None" and r: "qse_xma_realloc x p n = Some (x', q)"
  shows "xma_ok x' \<and> heap_step (Realloc p n) (xma_live x) q (xma_live x') \<and>
    (q = QSE_NULL \<longrightarrow> x' = x) \<and> (q = p \<or> p = QSE_NULL \<longrightarrow> xma_mem x' = xma_mem x) \<and>
    (q \<noteq> p \<and> q \<noteq> QSE_NULL \<and> p \<noteq> QSE_NULL \<longrightarrow> xma_mem x' = qse_memcpy (xma_mem x) q p n \<and>
      (\<forall>k. xma_live x p = Some k \<longrightarrow> p + k \<le> q \<or> q + n \<le> p)) \<and> xma_start x' = xma_start x \<and> xma_end x' = xma_end x"
proof (cases "p = QSE_NULL")
  case True
  have r': "qse_xma_alloc x n = Some (x', q)" using r True by (simp add: qse_xma_realloc_def)
  have a: "xma_ok x'" "heap_step (Alloc n) (xma_live x) q (xma_live x')"
    "q = QSE_NULL \<longrightarrow> x' = x" "frame x' = frame x" using xma_alloc_step [OF ok n r'] by blast+
  have l: "(xma_live x)(QSE_NULL := None) = xma_live x" using xma_live_null by auto
  have "heap_step (Realloc QSE_NULL n) (xma_live x) q (xma_live x')"
    using a(2) heap_step.kept [of QSE_NULL n "xma_live x"] heap_step.moved [of QSE_NULL "xma_live x" q n] l unfolding heap_step_Alloc by auto
  then show ?thesis using a True frame_eqD [OF a(4)] by auto
next
  case False
  have inv: "xma_inv x (xma_blocks x)" using ok by (simp add: xma_ok_def)
  obtain k where k: "in_use x (xma_blocks x) p = Some k" using p False by (auto simp: xma_live_def)
  have lp: "xma_live x p \<noteq> None" using p False by simp
  show ?thesis
  proof (cases "realloc_merge x p n")
    case (Some x1)
    then have e: "x1 = x'" "q = p" using r False by (simp_all add: qse_xma_realloc_def)
    obtain B' where B: "xma_inv x' B'" "round_request n \<le> size_at x' (p - 16)" "frame x' = frame x"
      "in_use x' B' = (in_use x (xma_blocks x))(p - 16 + 16 \<mapsto> size_at x' (p - 16))"
      using realloc_merge_resized [OF inv k n Some] e by (auto simp: resized_def)
    have "n \<le> size_at x' (p - 16)" using round_request_small(1) [OF n] B(2) by simp
    moreover have "xma_live x' = (xma_live x)(p := None, p \<mapsto> size_at x' (p - 16))"
      using xma_inv_ok [OF B(1)] B(4) in_useD(4) [OF inv k] by (simp add: xma_live_def)
    ultimately have "heap_step (Realloc p n) (xma_live x) p (xma_live x')" using heap_step.moved [of p "xma_live x" p n] lp False by auto
    then show ?thesis using e False xma_inv_ok [OF B(1)] frame_eqD [OF B(3)] by auto
  next
    case None
    obtain x1 where r1: "qse_xma_alloc x n = Some (x1, q)"
      and e: "x' = (if q \<noteq> QSE_NULL then qse_xma_free (x1\<lparr>xma_mem := qse_memcpy (xma_mem x1) q p n\<rparr>) p else x1)"
      using r None False by (auto simp: qse_xma_realloc_def split: if_splits)
    have a: "xma_ok x1" "heap_step (Alloc n) (xma_live x) q (xma_live x1)"
      "q = QSE_NULL \<longrightarrow> x1 = x" "frame x1 = frame x" using xma_alloc_step [OF ok n r1] by blast+
    show ?thesis
    proof (cases "q = QSE_NULL")
      case True
      then show ?thesis using a e False ok by (auto intro: heap_step.kept)
    next
      case q: False
      define x2 where "x2 = x1\<lparr>xma_mem := qse_memcpy (xma_mem x1) q p n\<rparr>"
      have e': "x' = qse_xma_free x2 p" using e q by (simp add: x2_def)
      obtain l where l: "xma_live x q = None" "n \<le> l" "xma_live x1 = (xma_live x)(q \<mapsto> l)" using a(2) q by (auto simp: heap_step_Alloc)
      have qp: "q \<noteq> p" using l(1) lp by auto
      have inv1: "xma_inv x1 (xma_blocks x1)" using a(1) by (simp add: xma_ok_def)
      have ok2: "xma_ok x2" "xma_live x2 = (xma_live x)(q \<mapsto> l)"
        using xma_inv_ok [OF xma_mem_only(1) [OF inv1]] xma_mem_only(2) [OF inv1] l(3) unfolding x2_def by (simp_all add: xma_live_def)
      have "xma_live x2 p \<noteq> None" using ok2(2) lp qp by simp
      note f = xma_free_step [OF ok2(1) this, folded e']
      have fm: "xma_mem x' = qse_memcpy (xma_mem x1) q p n" "xma_start x' = xma_start x1" "xma_end x' = xma_end x1"
        using frame_eqD [OF f(3)] by (simp_all add: x2_def)
      have "xma_live x' = (xma_live x)(p := None, q \<mapsto> l)" using f(2) ok2(2) qp by (simp add: fun_upd_twist)
      moreover have "heap_step (Realloc p n) (xma_live x) q ((xma_live x)(p := None, q \<mapsto> l))"
        using heap_step.moved [of p "xma_live x" q n l] lp q l by auto
      moreover have "xma_mem x1 = xma_mem x" "xma_start x1 = xma_start x" "xma_end x1 = xma_end x" using frame_eqD [OF a(4)] by auto
      moreover have "p + k \<le> q \<or> q + n \<le> p" if "xma_live x p = Some k" for k
      proof -
        have "xma_live x1 p = Some k" "xma_live x1 q = Some l" using l(3) that qp by simp_all
        then have "p + k \<le> q \<or> q + l \<le> p" using xma_apart [OF a(1)] qp unfolding apart_def by blast
        then show ?thesis using l(2) by linarith
      qed
      ultimately show ?thesis using f(1) fm False q qp by simp
    qed
  qed
qed

lemma xma_realloc_returns: "xma_ok x \<Longrightarrow> zone_even x \<Longrightarrow> n < 2 ^ 64 - 15 \<Longrightarrow> \<exists>x' q. qse_xma_realloc x p n = Some (x', q)"
proof -
  assume "xma_ok x" "zone_even x" "n < 2 ^ 64 - 15"
  from xma_alloc_returns [OF this] obtain x' q where "qse_xma_alloc x n = Some (x', q)" by blast
  then show ?thesis by (cases "realloc_merge x p n") (simp_all add: qse_xma_realloc_def)
qed

text \<open>In an even zone every call returns and does what an allocator promises; in any zone the calls that return do.\<close>

interpretation xma_part: partial_allocator xma_ok xma_live xma_grant xma_ops
proof
  show "apart (xma_live x)" if "xma_ok x" for x using xma_apart [OF that] .
  show "xma_ok x' \<and> heap_step (Alloc n) (xma_live x) p (xma_live x')"
    if "xma_ok x" "xma_grant e x n" "op_alloc xma_ops e x n = Some (x', p)" for x e n x' p
    using xma_alloc_step [of x n x' p] that by (auto simp: xma_ops_def xma_grant_def)
  show "xma_ok x' \<and> heap_step (Realloc p n) (xma_live x) q (xma_live x')"
    if "xma_ok x" "xma_grant e x n" "p = QSE_NULL \<or> xma_live x p \<noteq> None" "op_realloc xma_ops e x p n = Some (x', q)" for x e n p x' q
    using xma_realloc_step [of x n p x' q] that by (auto simp: xma_ops_def xma_grant_def)
  show "xma_ok (op_free xma_ops x p) \<and> xma_live (op_free xma_ops x p) = (xma_live x)(p := None)" if "xma_ok x" "xma_live x p \<noteq> None" for x p
    using xma_free_step [of x p] that by (simp add: xma_ops_def)
qed

lemma zone_even_cong: "xma_start x' = xma_start x \<Longrightarrow> xma_end x' = xma_end x \<Longrightarrow> zone_even x' = zone_even x"
  by (simp add: zone_even_def)

interpretation xma_heap: allocator "\<lambda>x. xma_ok x \<and> zone_even x" xma_live xma_grant xma_ops
proof
  fix x assume ok: "xma_ok x \<and> zone_even x"
  then show "apart (xma_live x)" by (simp add: xma_apart)
  show "xma_live x QSE_NULL = None" by (rule xma_live_null)
  show "\<exists>x' p. op_alloc xma_ops e x n = Some (x', p) \<and> (xma_ok x' \<and> zone_even x') \<and> heap_step (Alloc n) (xma_live x) p (xma_live x')" if g: "xma_grant e x n" for e n
  proof -
    obtain x' p where r: "qse_xma_alloc x n = Some (x', p)" using xma_alloc_returns [of x n] ok g unfolding xma_grant_def by blast
    then show ?thesis using xma_alloc_step [OF _ _ r] ok g zone_even_cong [of x' x] frame_eqD [of x' x] by (auto simp: xma_ops_def xma_grant_def)
  qed
  show "\<exists>x' q. op_realloc xma_ops e x p n = Some (x', q) \<and> (xma_ok x' \<and> zone_even x') \<and> heap_step (Realloc p n) (xma_live x) q (xma_live x')"
    if g: "xma_grant e x n" "p = QSE_NULL \<or> xma_live x p \<noteq> None" for e n p
  proof -
    obtain x' q where r: "qse_xma_realloc x p n = Some (x', q)" using xma_realloc_returns [of x n p] ok g(1) unfolding xma_grant_def by blast
    then show ?thesis using xma_realloc_step [OF _ _ g(2) r] ok g zone_even_cong [of x' x] by (auto simp: xma_ops_def xma_grant_def)
  qed
  show "(xma_ok (op_free xma_ops x p) \<and> zone_even (op_free xma_ops x p)) \<and> xma_live (op_free xma_ops x p) = (xma_live x)(p := None)" if "xma_live x p \<noteq> None" for p
    using xma_free_step [of x p] that ok zone_even_cong [of "qse_xma_free x p" x] frame_eqD [of "qse_xma_free x p" x] by (auto simp: xma_ops_def)
qed

lemma xma_run_zone:
  assumes "xma_ok x" "proper xma_ops xma_grant xma_live cs x" "mm_run xma_ops cs x = Some (x', rs)"
  shows "xma_start x' = xma_start x \<and> xma_end x' = xma_end x"
  using assms
proof (induction cs arbitrary: x rs)
  case (Cons c cs)
  obtain e cmd where c: "c = (e, cmd)" by (cases c)
  obtain x1 r rs1 where st: "mm_step xma_ops c x = Some (x1, r)" "mm_run xma_ops cs x1 = Some (x', rs1)"
    using Cons.prems(3) by (auto split: option.split_asm)
  have ok1: "xma_ok x1" using xma_part.step_follows [OF Cons.prems(1) _ st(1)] Cons.prems(2) by simp
  have "xma_start x1 = xma_start x \<and> xma_end x1 = xma_end x"
  proof (cases cmd)
    case (Alloc n)
    then show ?thesis using xma_alloc_step [OF Cons.prems(1), of n x1 r] st(1) Cons.prems(2) c by (auto simp: xma_ops_def xma_grant_def dest: frame_eqD)
  next
    case (Realloc p n)
    then show ?thesis using xma_realloc_step [OF Cons.prems(1), of n p x1 r] st(1) Cons.prems(2) c by (auto simp: xma_ops_def xma_grant_def)
  next
    case (Free p)
    then show ?thesis using xma_free_step(3) [OF Cons.prems(1), of p] st(1) Cons.prems(2) c by (auto simp: xma_ops_def dest: frame_eqD)
  qed
  moreover have "proper xma_ops xma_grant xma_live cs x1" using Cons.prems(2) st(1) by simp
  ultimately show ?case using Cons.IH [OF ok1 _ st(2)] by metis
qed simp

lemma xma_live_zone:
  assumes "xma_ok x" "xma_live x p = Some k"
  shows "xma_start x + 16 \<le> p" "p + k \<le> xma_end x" "p mod 16 = xma_start x mod 16"
proof -
  have inv: "xma_inv x (xma_blocks x)" using assms(1) by (simp add: xma_ok_def)
  note u = in_useD [OF inv assms(2) [unfolded xma_live_def]] and t = xma_invD(3) [OF inv]
  show "xma_start x + 16 \<le> p" using tilingD(5) [OF t u(1)] u(4) by linarith
  show "p + k \<le> xma_end x" using tilingD(8) [OF t u(1)] u(3,4) by (simp add: nxt_def)
  show "p mod 16 = xma_start x mod 16" using tilingD(7) [OF t u(1)] u(4) by (metis mod_add_self2)
qed

section \<open>Searching on a zone that is known\<close>

lemma alloc_from_empty: "xma_xfree x ! i = QSE_NULL \<Longrightarrow> alloc_from_freelist x i n = Some (x, QSE_NULL)"
  by (simp add: alloc_from_freelist_def find_fit.simps)

lemma try_chains_skip:
  assumes "\<And>j. i \<le> j \<Longrightarrow> j < k \<Longrightarrow> xma_xfree x ! j = QSE_NULL" "i \<le> k" "k \<le> 94"
  shows "try_chains x i n = try_chains x k n"
  using assms
proof (induction "k - i" arbitrary: i)
  case 0
  then show ?case by simp
next
  case (Suc d)
  then have "xma_xfree x ! i = QSE_NULL" "i < 94" by simp_all
  then have "try_chains x i n = try_chains x (i + 1) n" by (subst try_chains.simps) (simp add: alloc_from_empty)
  also have "\<dots> = try_chains x k n" using Suc(2-) by (intro Suc(1)) auto
  finally show ?case .
qed

text \<open>The free lists of a new zone.\<close>

lemma init_xfree:
  assumes "qse_xma_init mm blk m zoneptr zonesize = Some x" "mm \<noteq> Some QSE_NULL" "xma_end x < 2 ^ 63"
  shows "xma_xfree x ! getxfi x (size_at x (xma_start x)) = xma_start x" "xma_start x \<noteq> QSE_NULL" "xma_bdec x = 9"
    "size_at x (xma_start x) = xma_end x - xma_start x - 16" "16 \<le> size_at x (xma_start x)"
    "i < 96 \<Longrightarrow> i \<noteq> getxfi x (size_at x (xma_start x)) \<Longrightarrow> xma_xfree x ! i = QSE_NULL"
proof -
  note inv = qse_xma_init_ok(1,3) [OF assms]
  note i = xma_invD [OF inv(1)]
  have l: "listed x {xma_start x}" using i(5) inv(2) by (simp add: Collect_conv_if)
  let ?i = "getxfi x (size_at x (xma_start x))"
  have lt: "?i < 96" using getxfi_le [of x "size_at x (xma_start x)"] by simp
  have "xma_xfree x ! ?i \<noteq> QSE_NULL" using listed_head(1) [OF l lt] by auto
  then show "xma_xfree x ! ?i = xma_start x" using listed_head(2) [OF l lt] by simp
  show "xma_start x \<noteq> QSE_NULL" "16 \<le> size_at x (xma_start x)" using xma_size_bound(3,1) [OF inv(1), of "xma_start x"] by simp_all
  show "xma_bdec x = 9" using i(1) .
  have "nxt (size_at x) (xma_start x) = xma_end x" using tilingD(9) [OF i(3), of "xma_start x"] by (simp add: nxt_def)
  then show "size_at x (xma_start x) = xma_end x - xma_start x - 16" by (simp add: nxt_def)
  show "xma_xfree x ! i = QSE_NULL" if "i < 96" "i \<noteq> ?i"
  proof (rule ccontr)
    assume "xma_xfree x ! i \<noteq> QSE_NULL"
    from listed_head(2) [OF l that(1) this] show False using that(2) by auto
  qed
qed

text \<open>From a large enough zone the first request is cut off its start, whatever chain it belongs to.\<close>

lemma init_alloc:
  assumes pos: "16 \<le> round_request n" and ini: "qse_xma_init mm blk m zoneptr zonesize = Some x" "mm \<noteq> Some QSE_NULL" "xma_end x < 2 ^ 63"
    and big: "528 \<le> size_at x (xma_start x)" and n: "round_request n \<le> size_at x (xma_start x)" "getxfi x (round_request n) \<le> getxfi x (size_at x (xma_start x))"
  shows "qse_xma_alloc x n = Some (take_cand x (xma_start x) (round_request n), xma_start x + 16)"
proof -
  let ?c = "xma_start x" and ?n = "round_request n"
  let ?k = "getxfi x (size_at x ?c)" and ?i = "getxfi x ?n"
  note f = init_xfree [OF ini]
  have s: "size_at x ?c < 2 ^ 64" using f(4) ini(3) by simp
  have k: "32 \<le> ?k" "?k \<le> 86" using getxfi_large(1,2) [OF f(3) big s] by simp_all
  have got: "alloc_from_freelist x ?k ?n = Some (take_cand x ?c ?n, ?c)"
    using f(1,2) n(1) by (simp add: alloc_from_freelist_def find_fit.simps)
  then have tk: "try_chains x ?k ?n = Some (take_cand x ?c ?n, ?c)" using k f(2) by (subst try_chains.simps) simp
  have e: "xma_xfree x ! j = QSE_NULL" if "j < ?k" for j using f(6) [of j] that k by simp
  have m: "alloc_from_freelist x XFIMAX ?n = Some (x, QSE_NULL)" using f(6) [of 95] k by (simp add: alloc_from_empty)
  have "find_cand x ?i ?n = Some (take_cand x ?c ?n, ?c)"
  proof (cases "?i = ?k")
    case True
    then show ?thesis using got k f(2) by (simp add: find_cand_def)
  next
    case False
    then have lt: "?i < ?k" using n(2) by simp
    have "find_cand x ?i ?n = try_chains x ((if 32 \<le> ?i then ?i else 31) + 1) ?n"
      using e [OF lt] lt k m by (simp add: find_cand_def alloc_from_empty)
    also have "\<dots> = try_chains x ?k ?n" using e lt k by (intro try_chains_skip) auto
    finally show ?thesis using tk by simp
  qed
  then show ?thesis using f(2) pos by (simp add: qse_xma_alloc_def Let_def SYS_TO_USR_def)
qed

text \<open>A zone of 1024 bytes at address 4096.\<close>

definition demo_zone :: qse_xma where
  "demo_zone = the (qse_xma_init None (\<lambda>_. \<lparr>b_prev_size = 0, b_free = False, b_size = 0, b_free_prev = 0, b_free_next = 0\<rparr>) (\<lambda>_. 0) 4096 1024)"

lemma demo_zone_init:
  "qse_xma_init None (\<lambda>_. \<lparr>b_prev_size = 0, b_free = False, b_size = 0, b_free_prev = 0, b_free_next = 0\<rparr>) (\<lambda>_. 0) 4096 1024 = Some demo_zone"
  "xma_start demo_zone = 4096" "xma_end demo_zone = 5120"
  by (simp_all add: demo_zone_def qse_xma_init_def Let_def QSE_NULL_def set_xfree_def)

lemma demo_zone_facts: "size_at demo_zone 4096 = 1008" "xma_bdec demo_zone = 9" "xma_ok demo_zone" "xma_live demo_zone = Map.empty"
  using init_xfree(3,4) [OF demo_zone_init(1)] qse_xma_init_ok(1,2) [OF demo_zone_init(1)] xma_inv_ok demo_zone_init(2,3) by auto

lemma demo_alloc:
  assumes "round_request n \<le> 1008" "16 \<le> round_request n"
  shows "qse_xma_alloc demo_zone n = Some (take_cand demo_zone 4096 (round_request n), 4112)"
proof -
  have "getxfi demo_zone (round_request n) \<le> getxfi demo_zone 1008" using assms by (intro getxfi_mono demo_zone_facts) simp_all
  then show ?thesis using init_alloc [OF assms(2) demo_zone_init(1)] assms(1) demo_zone_init(2,3) demo_zone_facts(1) by simp
qed

lemma demo_alloc_live:
  assumes "n < 2 ^ 64 - 15" "round_request n \<le> 1008" and x: "x = take_cand demo_zone 4096 (round_request n)"
  shows "xma_ok x" "\<exists>k. xma_live x = [4112 \<mapsto> k]" "xma_start x = 4096" "xma_end x = 5120"
proof -
  have a: "qse_xma_alloc demo_zone n = Some (x, 4112)" using demo_alloc [OF assms(2)] round_request_small(2) [OF assms(1)] x by simp
  then have "xma_ok x" "heap_step (Alloc n) Map.empty 4112 (xma_live x)" "frame x = frame demo_zone"
    using xma_alloc_step [OF demo_zone_facts(3) assms(1) a] demo_zone_facts(4) by auto
  moreover from frame_eqD [OF this(3)] have "xma_start x = 4096" "xma_end x = 5120" using demo_zone_init(2,3) by auto
  ultimately show "xma_ok x" "\<exists>k. xma_live x = [4112 \<mapsto> k]" "xma_start x = 4096" "xma_end x = 5120"
    by (auto simp: heap_step_Alloc QSE_NULL_def)
qed

lemma round_request_100: "round_request 100 = 112" "round_request 1008 = 1008"
  by (simp_all add: round_request_eq)

section \<open>Properties\<close>

text \<open>
  C6. The zone allocator implements the abstract heap. From a new zone, take any sequence of allocations, reallocations and releases by
  a client that only hands in blocks it owns. If the zone is internal, or an external one whose size is a multiple of sixteen, the sequence returns; in another external zone it may stop
  at an assertion of the debug build. If it returns, in any zone, its results are those of the abstract specification: a request is refused without any change or
  served with a block of at least the requested size that was not in use. All blocks in use lie inside the zone behind their headers, are aligned
  like the zone and do not overlap, and the walk of \<open>qse_xma_dump\<close> finds the sums that the statistics hold, which with the headers add up to the zone.
\<close>

theorem qse_xma_runs_as_heap:
  assumes "qse_xma_init mm blk m zoneptr zonesize = Some x" "mm \<noteq> Some QSE_NULL" "xma_end x < 2 ^ 63"
    "proper xma_ops xma_grant xma_live cs x"
  shows "(zoneptr = QSE_NULL \<or> zonesize mod 16 = 0 \<longrightarrow> (\<exists>x' rs. mm_run xma_ops cs x = Some (x', rs))) \<and>
    (\<forall>x' rs. mm_run xma_ops cs x = Some (x', rs) \<longrightarrow>
      heap_run (map snd cs) Map.empty rs (xma_live x') \<and> apart (xma_live x') \<and>
      (\<forall>p k. xma_live x' p = Some k \<longrightarrow> xma_start x + 16 \<le> p \<and> p + k \<le> xma_end x \<and> p mod 16 = xma_start x mod 16) \<and>
      (\<exists>ls. qse_xma_dump x' = Some (ls, st_avail (xma_stat x'), st_alloc (xma_stat x'))) \<and>
      xma_end x - xma_start x = st_alloc (xma_stat x') + st_avail (xma_stat x') + 16 * (st_nused (xma_stat x') + st_nfree (xma_stat x')))"
proof (intro conjI impI allI)
  have ok: "xma_ok x" using xma_inv_ok [OF qse_xma_init_ok(1) [OF assms(1-3)]] by simp
  show "\<exists>x' rs. mm_run xma_ops cs x = Some (x', rs)" if "zoneptr = QSE_NULL \<or> zonesize mod 16 = 0"
    using xma_heap.run_refines [OF _ assms(4)] ok init_even [OF assms(1) that] by blast
  fix x' rs assume r: "mm_run xma_ops cs x = Some (x', rs)"
  note f = xma_part.run_follows [OF ok assms(4) r]
  then have inv: "xma_inv x' (xma_blocks x')" by (simp add: xma_ok_def)
  note z = xma_run_zone [OF ok assms(4) r]
  show "heap_run (map snd cs) Map.empty rs (xma_live x')" "apart (xma_live x')" using f qse_xma_init_ok(2) [OF assms(1-3)] by auto
  show "xma_start x + 16 \<le> p" "p + k \<le> xma_end x" "p mod 16 = xma_start x mod 16" if "xma_live x' p = Some k" for p k
    using xma_live_zone [OF _ that] f z by auto
  show "\<exists>ls. qse_xma_dump x' = Some (ls, st_avail (xma_stat x'), st_alloc (xma_stat x'))" using qse_xma_dump_blocks [OF inv] by blast
  show "xma_end x - xma_start x = st_alloc (xma_stat x') + st_avail (xma_stat x') + 16 * (st_nused (xma_stat x') + st_nfree (xma_stat x'))"
    using tiling_total [OF xma_invD(3) [OF inv]] total_counts [OF tilingD(1) [OF xma_invD(3) [OF inv]], of "size_at x'" "free_at x'"]
      xma_invD(6) [OF inv] z by (simp add: stats_ok_def)
qed

theorem qse_xma_runs_as_heap_witness:
  "\<exists>x' rs. mm_run xma_ops [((), Alloc 100), ((), Alloc 300), ((), Realloc QSE_NULL 20)] demo_zone = Some (x', rs) \<and> apart (xma_live x')"
  using qse_xma_runs_as_heap [OF demo_zone_init(1), of "[((), Alloc 100), ((), Alloc 300), ((), Realloc QSE_NULL 20)]"]
  by (fastforce simp: demo_zone_init(3) xma_grant_def split: option.splits)

text \<open>
  In an external zone whose size is not a multiple of sixteen a block can have a size that no request is rounded to. The chain it is in is that of a smaller size, and the
  assertion \<open>cand->size == size\<close> fails for a request of that size: a debug build stops.
\<close>

theorem qse_xma_uneven_stops:
  assumes "qse_xma_init mm blk m zoneptr zonesize = Some x" "mm \<noteq> Some QSE_NULL" "xma_end x < 2 ^ 63" "zoneptr \<noteq> QSE_NULL" "zonesize < 544" "zonesize mod 16 \<noteq> 0"
  shows "qse_xma_alloc x ((zonesize - 16) div 16 * 16) = None"
proof -
  note f = init_xfree [OF assms(1-3)]
  let ?s = "size_at x (xma_start x)" and ?n = "(zonesize - 16) div 16 * 16"
  have z: "xma_end x - xma_start x = zonesize" "32 \<le> zonesize" using init_size [OF assms(1)] assms(4) by auto
  then have s: "?s = zonesize - 16" using f(4) by simp
  have k: "16 \<le> ?s" "?s < 528" "?s mod 16 \<noteq> 0" using z(2) assms(5,6) mod_add_self2 [of "zonesize - 16" 16] unfolding s by auto
  have d: "1 \<le> ?s div 16" "?s div 16 < 33" using k(1,2) by (simp_all add: div_greater_zero_iff Suc_le_eq)
  then have m: "16 \<le> ?n" "?n < 528" "?s div 16 - 1 < 32" unfolding s by linarith+
  have ne: "?n \<noteq> ?s" using k(3) unfolding s by (metis mod_mult_self2_is_0)
  have r: "round_request ?n = ?n" using m by (subst round_request_eq) auto
  have "getxfi x ?n = getxfi x ?s" "getxfi x ?s < 32" using m k getxfi_eq [OF f(3), of ?n] getxfi_eq [OF f(3), of ?s] by (auto simp: s)
  then show ?thesis using f(1,2) m(1) ne by (simp add: qse_xma_alloc_def find_cand_def r Let_def)
qed

theorem qse_xma_uneven_stops_witness:
  "\<exists>x. qse_xma_init None (\<lambda>_. \<lparr>b_prev_size = 0, b_free = False, b_size = 0, b_free_prev = 0, b_free_next = 0\<rparr>) (\<lambda>_. 0) 4096 40 = Some x \<and> qse_xma_alloc x 16 = None"
  using qse_xma_uneven_stops [of None _ _ 4096 40] by (auto simp: qse_xma_init_def Let_def QSE_NULL_def set_xfree_def)

text \<open>
  C16. Releasing everything restores the zone. Whatever was allocated, resized and released before, when no block is in use
  any more the zone is again one free block that spans it: released blocks are merged with their free neighbours, and nothing is lost.
\<close>

theorem qse_xma_release_restores:
  assumes "qse_xma_init mm blk m zoneptr zonesize = Some x" "mm \<noteq> Some QSE_NULL" "xma_end x < 2 ^ 63"
    "proper xma_ops xma_grant xma_live cs x" "mm_run xma_ops cs x = Some (x', rs)" "xma_live x' = Map.empty"
  shows "qse_xma_dump x' = Some ([(xma_end x - xma_start x - 16, True, xma_start x)], xma_end x - xma_start x - 16, 0) \<and> xma_stat x' = xma_stat x"
proof -
  note ini = qse_xma_init_ok [OF assms(1-3)]
  have ok: "xma_ok x" using xma_inv_ok [OF ini(1)] by simp
  have ok': "xma_ok x'" using xma_part.run_follows [OF ok assms(4,5)] by blast
  then have inv: "xma_inv x' (xma_blocks x')" by (simp add: xma_ok_def)
  note z = xma_run_zone [OF ok assms(4,5)]
  have free: "free_at x' b" if "b \<in> xma_blocks x'" for b
  proof (rule ccontr)
    assume "\<not> free_at x' b"
    then have "xma_live x' (b + 16) = Some (size_at x' b)" using that by (simp add: xma_live_def in_use_def)
    then show False using assms(6) by simp
  qed
  have all: "xma_blocks x' = {xma_start x}" "nxt (size_at x') (xma_start x) = xma_end x"
    using coalesced_all_free [OF xma_invD(3,4) [OF inv] free] z by auto
  have sz: "size_at x' (xma_start x) = xma_end x - xma_start x - 16" "size_at x (xma_start x) = xma_end x - xma_start x - 16"
    using all(2) init_xfree(4) [OF assms(1-3)] by (auto simp: nxt_def)
  have f: "free_at x' (xma_start x)" "free_at x (xma_start x)" using free all(1) ini(3) by auto
  have s: "{b \<in> {xma_start x}. free_at y b} = {xma_start x}" "{b \<in> {xma_start x}. \<not> free_at y b} = {}" if "free_at y (xma_start x)" for y using that by auto
  have "xma_stat x' = xma_stat x"
    using xma_invD(6) [OF inv] xma_invD(6) [OF ini(1)] z sz unfolding stats_ok_def all(1) count_defs s [OF f(1)] s [OF f(2)] by simp
  moreover have "st_avail (xma_stat x) = xma_end x - xma_start x - 16" "st_alloc (xma_stat x) = 0"
    using xma_invD(6) [OF ini(1)] sz unfolding stats_ok_def count_defs s [OF f(2)] by simp_all
  ultimately show ?thesis using qse_xma_dump_blocks [OF inv] by (simp add: all(1) sz f)
qed

theorem qse_xma_release_restores_witness:
  "\<exists>x'. mm_run xma_ops [((), Alloc 100), ((), Free 4112)] demo_zone = Some (x', [4112, QSE_NULL]) \<and> qse_xma_dump x' = Some ([(1008, True, 4096)], 1008, 0)"
proof -
  let ?x = "take_cand demo_zone 4096 112"
  have a: "qse_xma_alloc demo_zone 100 = Some (?x, 4112)" using demo_alloc [of 100] by (simp add: round_request_100)
  obtain k where k: "xma_ok ?x" "xma_live ?x = [4112 \<mapsto> k]" using demo_alloc_live [of 100 ?x] by (auto simp: round_request_100)
  have p: "proper xma_ops xma_grant xma_live [((), Alloc 100), ((), Free 4112)] demo_zone" using a k by (simp add: xma_ops_def xma_grant_def)
  have r: "mm_run xma_ops [((), Alloc 100), ((), Free 4112)] demo_zone = Some (qse_xma_free ?x 4112, [4112, QSE_NULL])" using a by (simp add: xma_ops_def)
  have l: "xma_live (qse_xma_free ?x 4112) = Map.empty" using xma_free_step(2) [OF k(1), of 4112] k(2) by simp
  from qse_xma_release_restores [OF demo_zone_init(1) _ _ p r l] r show ?thesis by (simp add: demo_zone_init(2,3))
qed



text \<open>
  C29. Reallocation keeps the bytes. When \<open>qse_xma_realloc\<close> returns a block, in place or elsewhere, its first bytes are those of the old block as
  far as both reach, although the copy reads as many bytes as were requested and may overlap itself; the bytes of every other block in use stay as they were.
\<close>

theorem qse_xma_realloc_bytes:
  assumes "xma_ok x" "n < 2 ^ 64 - 15" "xma_live x p = Some k" "qse_xma_realloc x p n = Some (x', q)" "q \<noteq> QSE_NULL"
  shows "(\<forall>i < min k n. xma_mem x' (q + i) = xma_mem x (p + i)) \<and>
    (\<forall>r l i. r \<noteq> p \<longrightarrow> xma_live x r = Some l \<longrightarrow> i < l \<longrightarrow> xma_mem x' (r + i) = xma_mem x (r + i))"
proof -
  have pn: "p \<noteq> QSE_NULL" using assms(3) xma_live_null by auto
  have r: "heap_step (Realloc p n) (xma_live x) q (xma_live x')" "q = p \<longrightarrow> xma_mem x' = xma_mem x" "xma_ok x'"
    "q \<noteq> p \<longrightarrow> xma_mem x' = qse_memcpy (xma_mem x) q p n \<and> (p + k \<le> q \<or> q + n \<le> p)"
    using xma_realloc_step [OF assms(1,2) _ assms(4)] assms(3,5) pn by auto
  obtain l where l: "n \<le> l" "xma_live x' = (xma_live x)(p := None, q \<mapsto> l)" "q = p \<or> xma_live x q = None"
    using r(1) assms(5) by (auto elim: heap_stepE)
  show ?thesis
  proof (cases "q = p")
    case True
    then show ?thesis using r(2) by simp
  next
    case False
    have out: "xma_mem x' a = xma_mem x a" if "a < q \<or> q + n \<le> a" for a
      using r(4) False that qse_memcpy_up [of p q "xma_mem x" n] qse_memcpy_moved [of q p n "xma_mem x"]
      by (cases "p < q") (auto simp: copied_up_def moved_def)
    have "xma_mem x' (q + i) = xma_mem x (p + i)" if "i < min k n" for i
      using r(4) False that qse_memcpy_up [of p q "xma_mem x" n] qse_memcpy_moved [of q p n "xma_mem x"]
      by (cases "p < q") (auto simp: copied_up_def moved_def)
    moreover have "xma_mem x' (s + i) = xma_mem x (s + i)" if "s \<noteq> p" "xma_live x s = Some j" "i < j" for s j i
    proof -
      have "s \<noteq> q" using l(3) False that(2) by auto
      then have "xma_live x' s = Some j" "xma_live x' q = Some l" using l(2) that by simp_all
      then have "s + j \<le> q \<or> q + l \<le> s" using xma_apart [OF r(3)] \<open>s \<noteq> q\<close> unfolding apart_def by blast
      then show ?thesis using that(3) l(1) by (intro out) linarith
    qed
    ultimately show ?thesis by blast
  qed
qed

lemma realloc_fits:
  assumes "round_request n \<le> size_at x (p - 16)" "p \<noteq> QSE_NULL"
  shows "qse_xma_realloc x p n = Some (if round_request n < size_at x (p - 16) then realloc_shrink x (p - 16) (round_request n) else x, p)"
  using assms by (simp add: qse_xma_realloc_def realloc_merge_def Let_def USR_TO_SYS_def)

lemma demo_block:
  assumes "n < 2 ^ 64 - 15" "round_request n \<le> 1008" and x: "x = take_cand demo_zone 4096 (round_request n)"
  shows "\<exists>k. xma_live x = [4112 \<mapsto> k] \<and> size_at x 4096 = k \<and> round_request n \<le> k"
proof -
  note d = demo_alloc_live [OF assms]
  obtain k where k: "xma_live x = [4112 \<mapsto> k]" using d(2) by blast
  have inv: "xma_inv x (xma_blocks x)" using d(1) by (simp add: xma_ok_def)
  have sz: "size_at x 4096 = k" using in_useD(3) [OF inv, of 4112 k] k by (simp add: xma_live_def)
  have "round_request n \<le> size_at x 4096"
    unfolding x using assms(2) demo_zone_facts(1) by (auto simp: take_cand_def Let_def detach_same split_block_get [OF refl refl refl])
  then show ?thesis using k sz by simp
qed

theorem qse_xma_realloc_bytes_witness:
  "\<exists>x x' k. xma_live x = [4112 \<mapsto> k] \<and> qse_xma_realloc x 4112 50 = Some (x', 4112) \<and> (\<forall>i < min k 50. xma_mem x' (4112 + i) = xma_mem x (4112 + i))"
proof -
  let ?x = "take_cand demo_zone 4096 112"
  obtain k where k: "xma_live ?x = [4112 \<mapsto> k]" "size_at ?x 4096 = k" "112 \<le> k" using demo_block [of 100 ?x] by (auto simp: round_request_100)
  have r: "round_request 50 = 64" by (simp add: round_request_eq)
  obtain x' where q: "qse_xma_realloc ?x 4112 50 = Some (x', 4112)" using realloc_fits [of 50 ?x 4112] k r by (auto simp: QSE_NULL_def)
  have "xma_ok ?x" using demo_alloc_live(1) [of 100 ?x] by (simp add: round_request_100)
  from qse_xma_realloc_bytes [OF this _ _ q] k q show ?thesis by (auto simp: QSE_NULL_def)
qed

text \<open>
  Shrinking the last block of the zone writes behind the zone. When the block that ends the zone is reallocated to a size
  that leaves room for another block, the size of the new free block is stored in the header that would follow it, at the end of the zone.
\<close>

theorem qse_xma_shrink_writes_behind:
  assumes "xma_ok x" "xma_live x p = Some k" "p + k = xma_end x" "n < 2 ^ 64 - 15" "round_request n + 32 \<le> k"
  shows "\<exists>x'. qse_xma_realloc x p n = Some (x', p) \<and> prev_at x' (xma_end x) = k - round_request n - 16"
proof -
  have inv: "xma_inv x (xma_blocks x)" using assms(1) by (simp add: xma_ok_def)
  note u = in_useD [OF inv assms(2) [unfolded xma_live_def]]
  have pn: "p \<noteq> QSE_NULL" using assms(2) xma_live_null by auto
  obtain b where b: "p = b + 16" using u(4) by blast
  then have e: "xma_end x = b + 16 + k" "size_at x b = k" using u(3) assms(3) by simp_all
  have rem: "32 \<le> k - round_request n" using assms(5) by simp
  have "prev_at (realloc_shrink x b (round_request n)) (b + 16 + k) = k - round_request n - 16"
    using rem by (simp add: realloc_shrink_def Let_def attach_same next_mblk_def e)
  then have "prev_at (realloc_shrink x (p - 16) (round_request n)) (xma_end x) = k - round_request n - 16" by (simp add: b e(1))
  then show ?thesis using realloc_fits [of n x p] u(3) assms(5) pn by auto
qed

theorem qse_xma_shrink_writes_behind_witness:
  "\<exists>x x'. xma_end x = 5120 \<and> qse_xma_realloc x 4112 100 = Some (x', 4112) \<and> prev_at x' 5120 = 880"
proof -
  let ?x = "take_cand demo_zone 4096 1008"
  note d = demo_alloc_live [of 1008 ?x]
  have d': "xma_ok ?x" "xma_end ?x = 5120" using d by (simp_all add: round_request_100)
  obtain k where k: "xma_live ?x = [4112 \<mapsto> k]" "size_at ?x 4096 = k" using demo_block [of 1008 ?x] by (auto simp: round_request_100)
  have "k = 1008" using k(2) demo_zone_facts(1) by (simp add: take_cand_def Let_def detach_same)
  then show ?thesis using qse_xma_shrink_writes_behind [OF d'(1), of 4112 1008 100] k(1) d'(2) by (auto simp: round_request_100)
qed

lemma szlog2_0: "szlog2 0 = 0"
  by (simp add: szlog2_def log_step_def)

text \<open>
  Rounding up wraps around to zero for the fifteen largest values of \<open>qse_size_t\<close>; the assertion that the rounded size is at least \<open>ALIGN\<close> stops a debug build,
  and a build without assertions goes on with a size of zero.
\<close>

theorem qse_xma_alloc_wraps:
  assumes "2 ^ 64 - 15 \<le> n" "n < 2 ^ 64"
  shows "round_request n = 0 \<and> qse_xma_alloc x n = None"
proof -
  have "(max n 16 + 15) mod 2 ^ 64 = n + 15 - 2 ^ 64" using assms by (simp add: le_mod_geq)
  moreover have "(n + 15 - 2 ^ 64) div 16 = 0" using assms by simp
  ultimately have r: "round_request n = 0" using round_request_eq [OF assms(2)] by simp
  then show ?thesis by (simp add: qse_xma_alloc_def Let_def)
qed

theorem qse_xma_alloc_wraps_witness: "round_request (2 ^ 64 - 1) = 0 \<and> qse_xma_alloc demo_zone (2 ^ 64 - 1) = None"
  by (rule qse_xma_alloc_wraps) simp_all

text \<open>A new zone of less than 544 bytes refuses every request but those for its own chain: 64 bytes are not enough for 16.\<close>

lemma small_zone_refuses:
  assumes ini: "qse_xma_init mm blk m zoneptr zonesize = Some x" "mm \<noteq> Some QSE_NULL" "xma_end x < 2 ^ 63" "xma_end x - xma_start x < 544"
    and n: "n < 512" "getxfi x (round_request n) \<noteq> getxfi x (size_at x (xma_start x))"
  shows "qse_xma_alloc x n = Some (x, QSE_NULL)"
proof -
  note f = init_xfree [OF ini(1-3)]
  have s: "size_at x (xma_start x) < 528" using f(4) ini(4) by simp
  let ?i = "getxfi x (round_request n)" and ?k = "getxfi x (size_at x (xma_start x))"
  have nb: "n < 2 ^ 64 - 15" using n(1) by simp
  note rr = round_request_small [OF nb]
  have "size_at x (xma_start x) div 16 < 33" "round_request n < 528" using s rr(4) n(1) by auto
  then have k: "?k < 32" "?i < 32" using getxfi_eq [OF f(3)] f(5) s rr(2) by auto
  have e: "xma_xfree x ! j = QSE_NULL" if "j \<noteq> ?k" "j < 96" for j using f(6) that by blast
  have "find_cand x ?i (round_request n) = try_chains x 32 (round_request n)"
    using k e [of ?i] e [of 95] n(2) by (simp add: find_cand_def alloc_from_empty)
  also have "\<dots> = try_chains x 94 (round_request n)" using e k by (intro try_chains_skip) auto
  also have "\<dots> = Some (x, QSE_NULL)" by (subst try_chains.simps) simp
  finally show ?thesis using rr(2) by (simp add: qse_xma_alloc_def Let_def)
qed

end
