(* ===== verification/Qse_Chain.thy ===== *)
theory Qse_Chain
  imports Qse_Prelude
begin

text \<open>
  Singly linked chains that end with a null link, as the fixed-size and the pool allocator thread them through the memory they manage:
  \<open>nx\<close> gives the link stored at an address.
\<close>

fun chain :: "(addr \<Rightarrow> addr) \<Rightarrow> addr \<Rightarrow> addr list \<Rightarrow> bool" where
  "chain nx p [] \<longleftrightarrow> p = QSE_NULL"
| "chain nx p (q # qs) \<longleftrightarrow> p = q \<and> q \<noteq> QSE_NULL \<and> chain nx (nx q) qs"

inductive on_chain :: "(addr \<Rightarrow> addr) \<Rightarrow> addr \<Rightarrow> addr \<Rightarrow> bool" where
  here: "p \<noteq> QSE_NULL \<Longrightarrow> on_chain nx p p"
| there: "p \<noteq> QSE_NULL \<Longrightarrow> on_chain nx (nx p) q \<Longrightarrow> on_chain nx p q"

inductive_simps on_chain_null [simp]: "on_chain nx QSE_NULL q"
inductive_simps on_chain_step: "on_chain nx p q"

text \<open>The loop that gives every member back to the memory manager, reading its link first.\<close>

partial_function (option) free_chain :: "(addr \<Rightarrow> addr) \<Rightarrow> addr \<Rightarrow> addr list option" where
  "free_chain nx p = (if p \<noteq> QSE_NULL then Option.bind (free_chain nx (nx p)) (\<lambda>ps. Some (p # ps)) else Some [])"

lemma chain_members: "chain nx p ps \<Longrightarrow> on_chain nx p q \<longleftrightarrow> q \<in> set ps"
proof (induction ps arbitrary: p)
  case Nil then show ?case by simp
next
  case (Cons x ps) then show ?case by (subst on_chain_step) auto
qed

lemma chain_set: "chain nx p ps \<Longrightarrow> {q. on_chain nx p q} = set ps"
  using chain_members by fastforce

lemma chain_no_null: "chain nx p ps \<Longrightarrow> QSE_NULL \<notin> set ps"
  by (induction ps arbitrary: p) auto

lemma chain_update: "a \<notin> set ps \<Longrightarrow> chain (nx(a := b)) p ps = chain nx p ps"
  by (induction ps arbitrary: p) auto

lemma chain_cong: "\<forall>a \<in> set ps. nx a = ny a \<Longrightarrow> chain nx p ps = chain ny p ps"
  by (induction ps arbitrary: p) auto

lemma free_chain_all: "chain nx p ps \<Longrightarrow> free_chain nx p = Some ps"
proof (induction ps arbitrary: p)
  case Nil then show ?case by (subst free_chain.simps) simp
next
  case (Cons x ps) then show ?case by (subst free_chain.simps) simp
qed

lemma chain_snoc:
  assumes "chain nx p (ps @ [l])" "m \<noteq> QSE_NULL" "m \<notin> set (ps @ [l])" "distinct (ps @ [l])"
  shows "chain (nx(m := QSE_NULL, l := m)) p (ps @ [l, m])"
  using assms
proof (induction ps arbitrary: p)
  case (Cons x ps)
  then show ?case by auto
qed auto

end
