(* ===== verification/Qse_Fma.thy ===== *)
theory Qse_Fma
  imports Qse_Chain Qse_Alloc Qse_Mem
begin

text \<open>
  The allocator of fixed-size blocks, \<open>src/lib/cmn/fma.c\<close>. Chunks of \<open>maxblks\<close> blocks come from an outer memory manager; free blocks
  are threaded on a list through their first word, and so are the chunks through their header. \<open>fma_next\<close> holds these links by address, and the
  contents of blocks are bytes of \<open>fma_mem\<close>. A request for more than the block size is refused; in a build with assertions it stops the program before.
\<close>

section \<open>Model\<close>

record qse_fma =
  fma_blksize :: nat
  fma_maxblks :: nat
  fma_maxcnks :: nat
  fma_numcnks :: nat
  fma_cnkhead :: addr
  fma_freeblk :: addr
  fma_next :: "addr \<Rightarrow> addr"
  fma_mem :: mem

definition FMA_BLK_SIZE :: nat where [simp]: "FMA_BLK_SIZE = 8"
definition FMA_CNK_SIZE :: nat where [simp]: "FMA_CNK_SIZE = 8"
definition FMA_OBJSIZE :: nat where "FMA_OBJSIZE = 7 * 8"

definition qse_fma_init :: "(addr \<Rightarrow> addr) \<Rightarrow> mem \<Rightarrow> nat \<Rightarrow> nat \<Rightarrow> nat \<Rightarrow> qse_fma" where
  "qse_fma_init nx m blksize maxblks maxcnks =
     \<lparr>fma_blksize = (if blksize < FMA_BLK_SIZE then FMA_BLK_SIZE else blksize), fma_maxblks = (if maxblks \<le> 0 then 1 else maxblks),
      fma_maxcnks = maxcnks, fma_numcnks = 0, fma_cnkhead = QSE_NULL, fma_freeblk = QSE_NULL, fma_next = nx, fma_mem = m\<rparr>"

text \<open>Opening allocates the object (\<open>obj\<close> is the answer of the memory manager) and clears its extension.\<close>

definition qse_fma_open :: "addr option \<Rightarrow> (addr \<Rightarrow> addr) \<Rightarrow> mem \<Rightarrow> nat \<Rightarrow> nat \<Rightarrow> nat \<Rightarrow> nat \<Rightarrow> (addr \<times> qse_fma) option" where
  "qse_fma_open obj nx m xtnsize blksize maxblks maxcnks =
     map_option (\<lambda>a. (a, qse_fma_init nx (qse_memset m (a + FMA_OBJSIZE) 0 (of_nat xtnsize)) blksize maxblks maxcnks)) obj"

definition qse_fma_fini :: "qse_fma \<Rightarrow> (qse_fma \<times> addr list) option" where
  "qse_fma_fini x = map_option (\<lambda>cs. (x\<lparr>fma_cnkhead := QSE_NULL\<rparr>, cs)) (free_chain (fma_next x) (fma_cnkhead x))"

definition qse_fma_close :: "addr \<times> qse_fma \<Rightarrow> addr list option" where
  "qse_fma_close ax = map_option (\<lambda>r. snd r @ [fst ax]) (qse_fma_fini (snd ax))"

text \<open>The loop that threads \<open>n\<close> more blocks behind \<open>blk\<close>.\<close>

fun weave :: "nat \<Rightarrow> nat \<Rightarrow> addr \<Rightarrow> (addr \<Rightarrow> addr) \<Rightarrow> (addr \<Rightarrow> addr) \<times> addr" where
  "weave blksize 0 blk nx = (nx, blk)"
| "weave blksize (Suc n) blk nx = weave blksize n (blk + blksize) (nx(blk := blk + blksize))"

definition add_chunk :: "addr option \<Rightarrow> qse_fma \<Rightarrow> qse_fma option" where
  "add_chunk mm x =
     (if fma_maxcnks x \<noteq> 0 \<and> fma_numcnks x \<ge> fma_maxcnks x then None
      else
        (case mm of
           None \<Rightarrow> None
         | Some cnk \<Rightarrow>
             (let freeblk = cnk + FMA_CNK_SIZE;
                  (nx, blk) = weave (fma_blksize x) (fma_maxblks x - 1) freeblk (fma_next x);
                  nx = nx(blk := QSE_NULL);
                  nx = nx(cnk := fma_cnkhead x)
              in Some (x\<lparr>fma_freeblk := freeblk, fma_next := nx, fma_cnkhead := cnk, fma_numcnks := fma_numcnks x + 1\<rparr>))))"

definition qse_fma_alloc :: "addr option \<Rightarrow> qse_fma \<Rightarrow> nat \<Rightarrow> qse_fma \<times> addr" where
  "qse_fma_alloc mm x sz =
     (if sz > fma_blksize x then (x, QSE_NULL)
      else
        (case (if fma_freeblk x = QSE_NULL then add_chunk mm x else Some x) of
           None \<Rightarrow> (x, QSE_NULL)
         | Some x \<Rightarrow> (let blk = fma_freeblk x in (x\<lparr>fma_freeblk := fma_next x blk\<rparr>, blk))))"

definition qse_fma_calloc :: "addr option \<Rightarrow> qse_fma \<Rightarrow> nat \<Rightarrow> qse_fma \<times> addr" where
  "qse_fma_calloc mm x sz =
     (let (x, ptr) = qse_fma_alloc mm x sz
      in (if ptr \<noteq> QSE_NULL then x\<lparr>fma_mem := qse_memset (fma_mem x) ptr 0 (of_nat sz)\<rparr> else x, ptr))"

definition qse_fma_realloc :: "addr option \<Rightarrow> qse_fma \<Rightarrow> addr \<Rightarrow> nat \<Rightarrow> qse_fma \<times> addr" where
  "qse_fma_realloc mm x blk sz =
     (if blk \<noteq> QSE_NULL then (if sz > fma_blksize x then (x, QSE_NULL) else (x, blk))
      else qse_fma_alloc mm x sz)"

definition qse_fma_free :: "qse_fma \<Rightarrow> addr \<Rightarrow> qse_fma" where
  "qse_fma_free x blk = x\<lparr>fma_next := (fma_next x)(blk := fma_freeblk x), fma_freeblk := blk\<rparr>"

section \<open>Invariant\<close>

definition chunk_size :: "qse_fma \<Rightarrow> nat" where
  "chunk_size x = FMA_CNK_SIZE + fma_blksize x * fma_maxblks x"

definition chunk_blocks :: "nat \<Rightarrow> nat \<Rightarrow> addr \<Rightarrow> addr list" where
  "chunk_blocks bs n c = map (\<lambda>i. c + FMA_CNK_SIZE + i * bs) [0..<n]"

definition blocks_in :: "qse_fma \<Rightarrow> addr set \<Rightarrow> addr set" where
  "blocks_in x cs = (\<Union>c \<in> cs. set (chunk_blocks (fma_blksize x) (fma_maxblks x) c))"

definition fma_rep :: "qse_fma \<Rightarrow> addr list \<Rightarrow> addr list \<Rightarrow> bool" where
  "fma_rep x cs fs \<longleftrightarrow> 8 \<le> fma_blksize x \<and> 1 \<le> fma_maxblks x \<and> chain (fma_next x) (fma_cnkhead x) cs \<and> chain (fma_next x) (fma_freeblk x) fs \<and>
     distinct cs \<and> distinct fs \<and> fma_numcnks x = length cs \<and> (fma_maxcnks x \<noteq> 0 \<longrightarrow> length cs \<le> fma_maxcnks x) \<and> set fs \<subseteq> blocks_in x (set cs) \<and>
     (\<forall>c \<in> set cs. \<forall>d \<in> set cs. c \<noteq> d \<longrightarrow> c + chunk_size x \<le> d \<or> d + chunk_size x \<le> c)"

definition fma_chunks :: "qse_fma \<Rightarrow> addr set" where
  "fma_chunks x = {c. on_chain (fma_next x) (fma_cnkhead x) c}"

definition fma_ok :: "qse_fma \<Rightarrow> bool" where
  "fma_ok x \<longleftrightarrow> (\<exists>cs fs. fma_rep x cs fs)"

definition fma_live :: "qse_fma \<Rightarrow> addr \<rightharpoonup> nat" where
  "fma_live x p = (if p \<in> blocks_in x (fma_chunks x) \<and> \<not> on_chain (fma_next x) (fma_freeblk x) p then Some (fma_blksize x) else None)"

text \<open>The outer memory manager answers with memory of its own, of the size that was asked for, which does not wrap.\<close>

definition fma_grant :: "addr option \<Rightarrow> qse_fma \<Rightarrow> nat \<Rightarrow> bool" where
  "fma_grant mm x n \<longleftrightarrow> (fma_freeblk x = QSE_NULL \<longrightarrow>
     (case mm of None \<Rightarrow> True
      | Some a \<Rightarrow> a \<noteq> QSE_NULL \<and> chunk_size x < 2 ^ 64 \<and> (\<forall>c \<in> fma_chunks x. c + chunk_size x \<le> a \<or> a + chunk_size x \<le> c)))"

definition fma_ops :: "(addr option, qse_fma) mm_ops" where
  "fma_ops = \<lparr>op_alloc = (\<lambda>e x n. Some (qse_fma_alloc e x n)), op_realloc = (\<lambda>e x p n. Some (qse_fma_realloc e x p n)), op_free = qse_fma_free\<rparr>"

section \<open>Blocks of a chunk\<close>

lemma block_inside:
  assumes "p \<in> set (chunk_blocks bs n c)"
  shows "c + 8 \<le> p \<and> p + bs \<le> c + 8 + bs * n"
proof -
  obtain i where i: "i < n" "p = c + 8 + i * bs" using assms by (auto simp: chunk_blocks_def)
  then have "(i + 1) * bs \<le> n * bs" by (intro mult_right_mono) auto
  then show ?thesis using i by (simp add: algebra_simps)
qed

lemma blocks_apart:
  assumes "p \<in> set (chunk_blocks bs n c)" "q \<in> set (chunk_blocks bs n c)" "p \<noteq> q"
  shows "p + bs \<le> q \<or> q + bs \<le> p"
proof -
  obtain i j where ij: "p = c + 8 + i * bs" "q = c + 8 + j * bs" using assms(1,2) by (auto simp: chunk_blocks_def)
  then have "i < j \<or> j < i" using assms(3) by (metis linorder_neqE_nat)
  then have "(i + 1) * bs \<le> j * bs \<or> (j + 1) * bs \<le> i * bs" by (metis Suc_eq_plus1 Suc_leI mult_le_mono1)
  then show ?thesis using ij by (simp add: algebra_simps)
qed

lemma distinct_chunk_blocks: "0 < bs \<Longrightarrow> distinct (chunk_blocks bs n c)"
  by (auto simp: chunk_blocks_def distinct_map inj_on_def)

lemma fma_rep_blocks:
  assumes "fma_rep x cs fs"
  shows "p \<in> blocks_in x (set cs) \<Longrightarrow> q \<in> blocks_in x (set cs) \<Longrightarrow> p \<noteq> q \<Longrightarrow> p + fma_blksize x \<le> q \<or> q + fma_blksize x \<le> p"
    and "c \<in> set cs \<Longrightarrow> c \<notin> blocks_in x (set cs)"
    and "QSE_NULL \<notin> blocks_in x (set cs)"
proof -
  have ap: "c \<in> set cs \<Longrightarrow> d \<in> set cs \<Longrightarrow> c \<noteq> d \<Longrightarrow> c + (8 + fma_blksize x * fma_maxblks x) \<le> d \<or> d + (8 + fma_blksize x * fma_maxblks x) \<le> c" for c d
    using assms by (simp add: fma_rep_def chunk_size_def)
  show "p + fma_blksize x \<le> q \<or> q + fma_blksize x \<le> p" if pq: "p \<in> blocks_in x (set cs)" "q \<in> blocks_in x (set cs)" "p \<noteq> q"
  proof -
    obtain c d where cd: "c \<in> set cs" "p \<in> set (chunk_blocks (fma_blksize x) (fma_maxblks x) c)" "d \<in> set cs" "q \<in> set (chunk_blocks (fma_blksize x) (fma_maxblks x) d)"
      using pq by (auto simp: blocks_in_def)
    show ?thesis
    proof (cases "c = d")
      case True then show ?thesis using blocks_apart [OF cd(2)] cd(4) pq(3) by simp
    next
      case False then show ?thesis using ap [OF cd(1,3)] block_inside [OF cd(2)] block_inside [OF cd(4)] by linarith
    qed
  qed
  show "c \<notin> blocks_in x (set cs)" if "c \<in> set cs"
  proof
    assume "c \<in> blocks_in x (set cs)"
    then obtain d where d: "d \<in> set cs" "c \<in> set (chunk_blocks (fma_blksize x) (fma_maxblks x) d)" by (auto simp: blocks_in_def)
    have "8 \<le> fma_blksize x" using assms by (simp add: fma_rep_def)
    then show False using ap [OF that d(1)] block_inside [OF d(2)] by (cases "c = d") linarith+
  qed
  show "QSE_NULL \<notin> blocks_in x (set cs)" using block_inside by (fastforce simp: blocks_in_def QSE_NULL_def)
qed

section \<open>Operations\<close>

lemma steps_Cons: "map (\<lambda>i. b + i * bs) [0..<Suc n] = b # map (\<lambda>i. (b + bs) + i * bs) [0..<n]" for b bs :: nat
proof -
  have "[0..<Suc n] = 0 # map Suc [0..<n]" by (metis map_Suc_upt upt_conv_Cons zero_less_Suc)
  then show ?thesis by simp
qed

lemma weave_spec:
  assumes "0 < bs" "0 < b" "weave bs n b nx = (nx', e)"
  shows "e = b + n * bs \<and> chain (nx'(e := QSE_NULL)) b (map (\<lambda>i. b + i * bs) [0..<Suc n]) \<and>
    (\<forall>a. a \<notin> set (map (\<lambda>i. b + i * bs) [0..<Suc n]) \<longrightarrow> nx' a = nx a)"
  using assms(2,3)
proof (induction n arbitrary: b nx)
  case 0
  then show ?case by (simp add: QSE_NULL_def)
next
  case (Suc n)
  let ?l = "map (\<lambda>i. (b + bs) + i * bs) [0..<Suc n]"
  have p: "0 < b + bs" and w: "weave bs n (b + bs) (nx(b := b + bs)) = (nx', e)" using Suc.prems by simp_all
  have ih: "e = b + bs + n * bs" "chain (nx'(e := QSE_NULL)) (b + bs) ?l" "\<forall>a. a \<notin> set ?l \<longrightarrow> nx' a = (nx(b := b + bs)) a"
    using Suc.IH [OF p w] by blast+
  have "b \<notin> set ?l" "b \<noteq> e" using assms(1) ih(1) by auto
  then have "chain (nx'(e := QSE_NULL)) b (b # ?l)" "\<forall>a. a \<notin> set (b # ?l) \<longrightarrow> nx' a = nx a" "e = b + Suc n * bs"
    using ih Suc.prems(1) by (auto simp: QSE_NULL_def)
  then show ?case unfolding steps_Cons [of b bs "Suc n"] by blast
qed

lemma add_chunk_rep:
  assumes r: "fma_rep x cs []" and g: "fma_grant (Some a) x n" and lim: "\<not> (fma_maxcnks x \<noteq> 0 \<and> fma_numcnks x \<ge> fma_maxcnks x)"
  shows "\<exists>x'. add_chunk (Some a) x = Some x' \<and> fma_rep x' (a # cs) (chunk_blocks (fma_blksize x) (fma_maxblks x) a) \<and>
    fma_blksize x' = fma_blksize x \<and> fma_maxblks x' = fma_maxblks x"
proof -
  let ?bs = "fma_blksize x" and ?n = "fma_maxblks x"
  obtain nx e where w: "weave ?bs (?n - 1) (a + 8) (fma_next x) = (nx, e)" by fastforce
  have b: "8 \<le> ?bs" "1 \<le> ?n" "distinct cs" "chain (fma_next x) (fma_cnkhead x) cs" "fma_freeblk x = QSE_NULL" "fma_numcnks x = length cs"
    using r by (auto simp: fma_rep_def)
  have ap: "c + chunk_size x \<le> d \<or> d + chunk_size x \<le> c" if "c \<in> set (a # cs)" "d \<in> set (a # cs)" "c \<noteq> d" for c d
    using r g that chain_set [OF b(4)] b(5) by (auto simp: fma_rep_def fma_grant_def fma_chunks_def)
  have an: "a \<noteq> QSE_NULL" using g b(5) by (simp add: fma_grant_def)
  let ?l = "map (\<lambda>i. (a + 8) + i * ?bs) [0..<Suc (?n - 1)]"
  have l: "?l = chunk_blocks ?bs ?n a" using b(2) by (simp add: chunk_blocks_def)
  have ws: "chain (nx(e := QSE_NULL)) (a + 8) (chunk_blocks ?bs ?n a)" "q \<notin> set (chunk_blocks ?bs ?n a) \<Longrightarrow> nx q = fma_next x q" "e \<in> set (chunk_blocks ?bs ?n a)" for q
    using weave_spec [OF _ _ w] b(1,2) unfolding l [symmetric] by auto
  have nc: "c \<notin> set (chunk_blocks ?bs ?n a)" if "c \<in> set (a # cs)" for c
    using block_inside [of c ?bs ?n a] ap [OF that, of a] b(1) by (cases "c = a") (auto simp: chunk_size_def)
  have na: "a \<notin> set cs" using ap [of a] g b(5) chain_set [OF b(4)] by (auto simp: fma_grant_def fma_chunks_def chunk_size_def)
  let ?nx = "nx(e := QSE_NULL, a := fma_cnkhead x)"
  let ?x = "x\<lparr>fma_freeblk := a + 8, fma_next := ?nx, fma_cnkhead := a, fma_numcnks := fma_numcnks x + 1\<rparr>"
  have "chain ?nx (a + 8) (chunk_blocks ?bs ?n a)" using ws(1) nc [of a] chain_update by simp
  moreover have "chain ?nx a (a # cs)"
  proof -
    have "\<forall>c \<in> set cs. ?nx c = fma_next x c" using nc ws(2,3) na by auto
    then have "chain ?nx (fma_cnkhead x) cs" using b(4) chain_cong by blast
    then show ?thesis using an by simp
  qed
  moreover have "distinct (chunk_blocks ?bs ?n a)" using b(1) by (intro distinct_chunk_blocks) simp
  ultimately have "fma_rep ?x (a # cs) (chunk_blocks ?bs ?n a)"
    using b na ap lim by (auto simp: fma_rep_def blocks_in_def chunk_size_def)
  moreover have "add_chunk (Some a) x = Some ?x" using w lim by (simp add: add_chunk_def Let_def)
  ultimately show ?thesis by auto
qed

lemma fma_live_rep:
  assumes "fma_rep x cs fs"
  shows "fma_live x p = (if p \<in> blocks_in x (set cs) \<and> p \<notin> set fs then Some (fma_blksize x) else None)" "fma_chunks x = set cs"
proof -
  have "chain (fma_next x) (fma_cnkhead x) cs" "chain (fma_next x) (fma_freeblk x) fs" using assms by (auto simp: fma_rep_def)
  then show "fma_chunks x = set cs" "fma_live x p = (if p \<in> blocks_in x (set cs) \<and> p \<notin> set fs then Some (fma_blksize x) else None)"
    using chain_set chain_members [of _ "fma_freeblk x" fs] by (auto simp: fma_chunks_def fma_live_def)
qed

lemma take_free:
  assumes "fma_rep x cs (b # fs)"
  shows "fma_rep (x\<lparr>fma_freeblk := fma_next x b\<rparr>) cs fs" "fma_live (x\<lparr>fma_freeblk := fma_next x b\<rparr>) = (fma_live x)(b \<mapsto> fma_blksize x)"
    "fma_freeblk x = b" "b \<noteq> QSE_NULL" "fma_live x b = None"
proof -
  show r: "fma_rep (x\<lparr>fma_freeblk := fma_next x b\<rparr>) cs fs" "fma_freeblk x = b" "b \<noteq> QSE_NULL" "fma_live x b = None"
    using assms fma_live_rep(1) [OF assms] by (auto simp: fma_rep_def blocks_in_def chunk_size_def)
  have "b \<in> blocks_in x (set cs)" "b \<notin> set fs" using assms by (auto simp: fma_rep_def)
  then show "fma_live (x\<lparr>fma_freeblk := fma_next x b\<rparr>) = (fma_live x)(b \<mapsto> fma_blksize x)"
    using fma_live_rep(1) [OF r(1)] fma_live_rep(1) [OF assms] by (auto simp: fun_eq_iff blocks_in_def)
qed

lemma qse_fma_alloc_step:
  assumes "fma_ok x" "fma_grant mm x n" "qse_fma_alloc mm x n = (x', p)"
  shows "fma_ok x' \<and> heap_step (Alloc n) (fma_live x) p (fma_live x')"
proof -
  obtain cs fs where r: "fma_rep x cs fs" using assms(1) by (auto simp: fma_ok_def)
  have taken: "fma_ok x' \<and> heap_step (Alloc n) (fma_live x) p (fma_live x')"
    if "n \<le> fma_blksize y" "fma_rep y ds (b # bs)" "x' = y\<lparr>fma_freeblk := fma_next y b\<rparr>" "p = b" "fma_live y = fma_live x" for y ds b bs
    using take_free [OF that(2)] that by (auto simp: fma_ok_def heap_step_Alloc)
  have refused: "fma_ok x' \<and> heap_step (Alloc n) (fma_live x) p (fma_live x')" if "x' = x" "p = QSE_NULL"
    using that assms(1) by (auto intro: heap_step.refused)
  show ?thesis
  proof (cases "n > fma_blksize x")
    case True
    then show ?thesis using assms(3) by (intro refused) (auto simp: qse_fma_alloc_def)
  next
    case small: False
    show ?thesis
    proof (cases fs)
      case (Cons b bs)
      then have "fma_freeblk x = b" "b \<noteq> QSE_NULL" using take_free [of x cs b bs] r by auto
      then show ?thesis using small r Cons assms(3) by (intro taken) (auto simp: qse_fma_alloc_def Let_def)
    next
      case Nil
      then have nf: "fma_freeblk x = QSE_NULL" using r by (simp add: fma_rep_def)
      show ?thesis
      proof (cases "add_chunk mm x")
        case None
        then show ?thesis using assms(3) small nf by (intro refused) (auto simp: qse_fma_alloc_def)
      next
        case (Some y)
        then obtain a where a: "mm = Some a" "\<not> (fma_maxcnks x \<noteq> 0 \<and> fma_numcnks x \<ge> fma_maxcnks x)"
          by (auto simp: add_chunk_def split: if_splits option.splits)
        let ?bl = "chunk_blocks (fma_blksize x) (fma_maxblks x) a"
        have y: "fma_rep y (a # cs) ?bl" "fma_blksize y = fma_blksize x" "fma_maxblks y = fma_maxblks x"
          using add_chunk_rep [of x cs a n] r Nil assms(2) a Some by auto
        have "?bl \<noteq> []" using r by (auto simp: fma_rep_def chunk_blocks_def)
        then obtain b bs where bl: "?bl = b # bs" by (cases ?bl) auto
        have dis: "q \<notin> blocks_in x (set cs)" if q: "q \<in> set ?bl" for q
        proof
          assume "q \<in> blocks_in x (set cs)"
          then obtain c where c: "c \<in> set cs" "q \<in> set (chunk_blocks (fma_blksize x) (fma_maxblks x) c)" by (auto simp: blocks_in_def)
          have "c + chunk_size x \<le> a \<or> a + chunk_size x \<le> c" using assms(2) a(1) nf c(1) fma_live_rep(2) [OF r] by (simp add: fma_grant_def)
          moreover have "8 \<le> fma_blksize x" using r by (simp add: fma_rep_def)
          ultimately show False using block_inside [OF q] block_inside [OF c(2)] by (simp add: chunk_size_def)
        qed
        have "fma_live y = fma_live x"
          using fma_live_rep(1) [OF y(1)] fma_live_rep(1) [OF r] y(2,3) dis Nil by (auto simp: fun_eq_iff blocks_in_def)
        moreover have "fma_freeblk y = b" using take_free(3) [of y "a # cs" b bs] y(1) bl by simp
        ultimately show ?thesis using small y(1,2) bl Some nf assms(3) by (intro taken [of y "a # cs" b bs]) (auto simp: qse_fma_alloc_def Let_def)
      qed
    qed
  qed
qed

lemma qse_fma_free_step:
  assumes "fma_ok x" "fma_live x p \<noteq> None"
  shows "fma_ok (qse_fma_free x p) \<and> fma_live (qse_fma_free x p) = (fma_live x)(p := None)"
proof -
  obtain cs fs where r: "fma_rep x cs fs" using assms(1) by (auto simp: fma_ok_def)
  have p: "p \<in> blocks_in x (set cs)" "p \<notin> set fs" using assms(2) fma_live_rep(1) [OF r] by (auto split: if_splits)
  have nc: "p \<notin> set cs" "p \<noteq> QSE_NULL" using fma_rep_blocks(2,3) [OF r] p(1) by auto
  have "chain ((fma_next x)(p := fma_freeblk x)) (fma_cnkhead x) cs" "chain ((fma_next x)(p := fma_freeblk x)) p (p # fs)"
    using r p(2) nc chain_update by (auto simp: fma_rep_def)
  then have r': "fma_rep (qse_fma_free x p) cs (p # fs)"
    using r p by (auto simp: fma_rep_def qse_fma_free_def blocks_in_def chunk_size_def)
  have "fma_live (qse_fma_free x p) = (fma_live x)(p := None)"
    using fma_live_rep(1) [OF r'] fma_live_rep(1) [OF r] by (auto simp: fun_eq_iff qse_fma_free_def blocks_in_def)
  then show ?thesis using r' by (auto simp: fma_ok_def)
qed

lemma qse_fma_realloc_step:
  assumes "fma_ok x" "fma_grant mm x n" "p = QSE_NULL \<or> fma_live x p \<noteq> None" "qse_fma_realloc mm x p n = (x', q)"
  shows "fma_ok x' \<and> heap_step (Realloc p n) (fma_live x) q (fma_live x')"
proof (cases "p = QSE_NULL")
  case True
  obtain cs fs where r: "fma_rep x cs fs" using assms(1) by (auto simp: fma_ok_def)
  have "fma_ok x' \<and> heap_step (Alloc n) (fma_live x) q (fma_live x')" using assms True by (intro qse_fma_alloc_step) (auto simp: qse_fma_realloc_def)
  moreover have "fma_live x QSE_NULL = None" using fma_live_rep(1) [OF r] fma_rep_blocks(3) [OF r] by simp
  ultimately show ?thesis using True by (auto simp: heap_step_Alloc intro: heap_step.kept) (metis fun_upd_triv heap_step.moved)
next
  case False
  have l: "fma_live x p = Some (fma_blksize x)" using assms(3) False by (auto simp: fma_live_def split: if_splits)
  show ?thesis
  proof (cases "n > fma_blksize x")
    case True then show ?thesis using assms(1,4) False by (auto simp: qse_fma_realloc_def intro: heap_step.kept)
  next
    case small: False
    then have "x' = x" "q = p" using assms(4) False by (auto simp: qse_fma_realloc_def)
    moreover have "heap_step (Realloc p n) (fma_live x) p ((fma_live x)(p := None, p \<mapsto> fma_blksize x))"
      using small False l by (intro heap_step.moved) auto
    moreover have "(fma_live x)(p := None, p \<mapsto> fma_blksize x) = fma_live x" using l by auto
    ultimately show ?thesis using assms(1) by simp
  qed
qed

interpretation fma_heap: allocator fma_ok fma_live fma_grant fma_ops
proof
  show "apart (fma_live s)" if ok: "fma_ok s" for s
  proof -
    obtain cs fs where r: "fma_rep s cs fs" using ok by (auto simp: fma_ok_def)
    show ?thesis using fma_rep_blocks(1) [OF r] by (auto simp: apart_def fma_live_rep(1) [OF r] split: if_splits)
  qed
  show "fma_live s QSE_NULL = None" if ok: "fma_ok s" for s
  proof -
    obtain cs fs where r: "fma_rep s cs fs" using ok by (auto simp: fma_ok_def)
    show ?thesis using fma_live_rep(1) [OF r] fma_rep_blocks(3) [OF r] by simp
  qed
  show "\<exists>s' p. op_alloc fma_ops e s n = Some (s', p) \<and> fma_ok s' \<and> heap_step (Alloc n) (fma_live s) p (fma_live s')"
    if "fma_ok s" "fma_grant e s n" for s e n
    using qse_fma_alloc_step [OF that] by (cases "qse_fma_alloc e s n") (auto simp: fma_ops_def)
  show "\<exists>s' q. op_realloc fma_ops e s p n = Some (s', q) \<and> fma_ok s' \<and> heap_step (Realloc p n) (fma_live s) q (fma_live s')"
    if "fma_ok s" "fma_grant e s n" "p = QSE_NULL \<or> fma_live s p \<noteq> None" for s e n p
    using qse_fma_realloc_step [OF that] by (cases "qse_fma_realloc e s p n") (auto simp: fma_ops_def)
  show "fma_ok (op_free fma_ops s p) \<and> fma_live (op_free fma_ops s p) = (fma_live s)(p := None)" if "fma_ok s" "fma_live s p \<noteq> None" for s p
    using qse_fma_free_step [OF that] by (simp add: fma_ops_def)
qed

section \<open>Properties\<close>

definition fma_shape :: "qse_fma \<Rightarrow> nat \<times> nat \<times> nat" where
  "fma_shape x = (fma_blksize x, fma_maxblks x, fma_maxcnks x)"

lemma qse_fma_alloc_shape: "fma_shape (fst (qse_fma_alloc mm x n)) = fma_shape x"
  by (auto simp: qse_fma_alloc_def add_chunk_def fma_shape_def Let_def split: if_splits option.splits prod.splits)

lemma fma_run_shape: "mm_run fma_ops cs x = Some (x', rs) \<Longrightarrow> fma_shape x' = fma_shape x"
proof (induction cs arbitrary: x rs)
  case (Cons c cs)
  obtain e cmd where c: "c = (e, cmd)" by (cases c)
  from Cons.prems obtain x1 r rs' where s: "mm_step fma_ops c x = Some (x1, r)" "mm_run fma_ops cs x1 = Some (x', rs')"
    by (auto split: option.splits)
  have "fma_shape x1 = fma_shape x"
    using s(1) qse_fma_alloc_shape [of e x] c
    by (cases cmd) (auto simp: fma_ops_def qse_fma_realloc_def qse_fma_free_def fma_shape_def split: if_splits; metis fst_conv)+
  then show ?case using Cons.IH [OF s(2)] by simp
qed simp

lemma qse_fma_init_rep: "fma_rep (qse_fma_init nx m b k l) [] []"
  by (auto simp: qse_fma_init_def fma_rep_def)

lemma qse_fma_fini_all:
  assumes "fma_rep x cs fs"
  shows "qse_fma_fini x = Some (x\<lparr>fma_cnkhead := QSE_NULL\<rparr>, cs)"
  using assms free_chain_all [of "fma_next x" "fma_cnkhead x" cs] by (simp add: qse_fma_fini_def fma_rep_def)

text \<open>
  C17. The fixed-size allocator implements the abstract heap. From a new allocator every sequence of allocations, reallocations and releases
  by a client that only hands in blocks it owns gives blocks of the fixed size that do not overlap, or refuses without any change. At most
  \<open>maxcnks\<close> chunks are taken unless that is zero, and finishing gives each chunk that was taken back to the memory manager exactly once.
\<close>

theorem qse_fma_runs_as_heap:
  assumes "proper fma_ops fma_grant fma_live cs (qse_fma_init nx m blksize maxblks maxcnks)"
  shows "\<exists>x' rs ds. mm_run fma_ops cs (qse_fma_init nx m blksize maxblks maxcnks) = Some (x', rs) \<and>
    heap_run (map snd cs) Map.empty rs (fma_live x') \<and> apart (fma_live x') \<and> ran (fma_live x') \<subseteq> {max 8 blksize} \<and>
    qse_fma_fini x' = Some (x'\<lparr>fma_cnkhead := QSE_NULL\<rparr>, ds) \<and> distinct ds \<and> set ds = fma_chunks x' \<and> fma_numcnks x' = length ds \<and>
    (maxcnks \<noteq> 0 \<longrightarrow> length ds \<le> maxcnks)"
proof -
  let ?x = "qse_fma_init nx m blksize maxblks maxcnks"
  have ok: "fma_ok ?x" unfolding fma_ok_def using qse_fma_init_rep by blast
  have e: "fma_live ?x = Map.empty" using fma_live_rep(1) [OF qse_fma_init_rep] by (auto simp: blocks_in_def)
  obtain x' rs where r: "mm_run fma_ops cs ?x = Some (x', rs)" "fma_ok x'" "apart (fma_live x')" "heap_run (map snd cs) Map.empty rs (fma_live x')"
    using fma_heap.run_refines [OF ok assms] e by auto
  obtain ds fs where d: "fma_rep x' ds fs" using r(2) by (auto simp: fma_ok_def)
  have s: "fma_blksize x' = max 8 blksize" "fma_maxcnks x' = maxcnks"
    using fma_run_shape [OF r(1)] by (auto simp: fma_shape_def qse_fma_init_def)
  have "ran (fma_live x') \<subseteq> {max 8 blksize}" using s(1) by (auto simp: ran_def fma_live_def split: if_splits)
  then show ?thesis using r qse_fma_fini_all [OF d] fma_live_rep(2) [OF d] d s(2) by (auto simp: fma_rep_def)
qed

theorem qse_fma_runs_as_heap_witness:
  "\<exists>x' rs. mm_run fma_ops [(Some 4096, Alloc 24), (None, Alloc 20), (None, Alloc 1)] (qse_fma_init (\<lambda>_. 0) (\<lambda>_. 0) 24 2 1) = Some (x', rs) \<and>
     apart (fma_live x') \<and> rs = [4104, 4128, QSE_NULL]"
proof -
  let ?x = "qse_fma_init (\<lambda>_. 0) (\<lambda>_. 0) 24 2 1" and ?cs = "[(Some 4096, Alloc 24), (None, Alloc 20), (None, Alloc 1)]"
  have "proper fma_ops fma_grant fma_live ?cs ?x"
    by (auto simp: fma_ops_def fma_grant_def qse_fma_init_def fma_chunks_def chunk_size_def qse_fma_alloc_def add_chunk_def Let_def QSE_NULL_def
      on_chain_null [unfolded QSE_NULL_def])
  from qse_fma_runs_as_heap [OF this] show ?thesis
    by (auto simp: fma_ops_def qse_fma_init_def qse_fma_alloc_def add_chunk_def Let_def QSE_NULL_def)
qed

end
