(* ===== verification/Qse_Pma.thy ===== *)
theory Qse_Pma
  imports Qse_Chain Qse_Alloc Qse_Mem
begin

text \<open>
  The pool allocator, \<open>src/lib/cmn/pma.c\<close>: blocks are cut off the front of a large block, which comes from an outer memory manager, and are only released
  together. \<open>pma_next\<close> and \<open>pma_data\<close> are the two fields of the headers of the large blocks by address.
\<close>

section \<open>Model\<close>

record qse_pma =
  pma_blocks :: addr
  pma_current :: addr
  pma_ptr :: addr
  pma_n :: nat
  pma_failed :: bool
  pma_data :: "addr \<Rightarrow> addr"
  pma_next :: "addr \<Rightarrow> addr"
  pma_mem :: mem

definition PMA_BLK_SIZE :: nat where [simp]: "PMA_BLK_SIZE = 16"
definition PMA_OBJSIZE :: nat where "PMA_OBJSIZE = 6 * 8"
definition QSE_PMA_BLOCK_SIZE :: nat where [simp]: "QSE_PMA_BLOCK_SIZE = 1024"

definition PMA_ALIGN :: "addr \<Rightarrow> nat" where
  "PMA_ALIGN p = (if p mod 8 \<noteq> 0 then 8 - p mod 8 else 0)"

definition qse_pma_init :: "(addr \<Rightarrow> addr) \<Rightarrow> (addr \<Rightarrow> addr) \<Rightarrow> mem \<Rightarrow> qse_pma" where
  "qse_pma_init dt nx m = \<lparr>pma_blocks = QSE_NULL, pma_current = QSE_NULL, pma_ptr = QSE_NULL, pma_n = 0, pma_failed = False,
     pma_data = dt, pma_next = nx, pma_mem = m\<rparr>"

definition qse_pma_open :: "addr option \<Rightarrow> (addr \<Rightarrow> addr) \<Rightarrow> (addr \<Rightarrow> addr) \<Rightarrow> mem \<Rightarrow> nat \<Rightarrow> (addr \<times> qse_pma) option" where
  "qse_pma_open obj dt nx m xtnsize = map_option (\<lambda>a. (a, qse_pma_init dt nx (qse_memset m (a + PMA_OBJSIZE) 0 (of_nat xtnsize)))) obj"

definition qse_pma_clear :: "qse_pma \<Rightarrow> (qse_pma \<times> addr list) option" where
  "qse_pma_clear x = map_option (\<lambda>ls. (qse_pma_init (pma_data x) (pma_next x) (pma_mem x), ls)) (free_chain (pma_next x) (pma_blocks x))"

definition qse_pma_fini :: "qse_pma \<Rightarrow> (qse_pma \<times> addr list) option" where
  "qse_pma_fini x = qse_pma_clear x"

definition qse_pma_close :: "addr \<times> qse_pma \<Rightarrow> addr list option" where
  "qse_pma_close ax = map_option (\<lambda>r. snd r @ [fst ax]) (qse_pma_fini (snd ax))"

text \<open>The size of a new large block is an \<open>int\<close>; \<open>size * 8\<close> is computed as a \<open>qse_size_t\<close>.\<close>

definition pma_block_size :: "nat \<Rightarrow> int" where
  "pma_block_size sz = (if sz * 8 mod 2 ^ 64 > QSE_PMA_BLOCK_SIZE then wrap_s 32 (int (sz * 8 mod 2 ^ 64)) else int QSE_PMA_BLOCK_SIZE)"

definition pma_extend :: "addr \<Rightarrow> nat \<Rightarrow> qse_pma \<Rightarrow> qse_pma" where
  "pma_extend l sz x =
     (let nx = (pma_next x)(l := QSE_NULL);
          nx = (if pma_current x \<noteq> QSE_NULL then nx(pma_current x := l) else nx)
      in x\<lparr>pma_data := (pma_data x)(l := l + PMA_BLK_SIZE), pma_next := nx, pma_blocks := (if pma_blocks x = QSE_NULL then l else pma_blocks x),
           pma_current := l, pma_ptr := l + PMA_BLK_SIZE, pma_n := nat (pma_block_size sz mod 2 ^ 64)\<rparr>)"

definition pma_take :: "nat \<Rightarrow> qse_pma \<Rightarrow> qse_pma \<times> addr" where
  "pma_take sz x =
     (let sz = (sz + PMA_ALIGN (pma_ptr x + sz)) mod 2 ^ 64
      in (x\<lparr>pma_ptr := pma_ptr x + sz, pma_n := (pma_n x + (2 ^ 64 - sz)) mod 2 ^ 64\<rparr>, pma_ptr x))"

definition qse_pma_alloc :: "addr option \<Rightarrow> qse_pma \<Rightarrow> nat \<Rightarrow> qse_pma \<times> addr" where
  "qse_pma_alloc mm x sz =
     (if pma_failed x then (x, QSE_NULL)
      else if pma_n x < sz then
        (case mm of
           None \<Rightarrow> (x\<lparr>pma_failed := True\<rparr>, QSE_NULL)
         | Some l \<Rightarrow> pma_take sz (pma_extend l sz x))
      else pma_take sz x)"

definition qse_pma_calloc :: "addr option \<Rightarrow> qse_pma \<Rightarrow> nat \<Rightarrow> qse_pma \<times> addr" where
  "qse_pma_calloc mm x sz =
     (let (x, ptr) = qse_pma_alloc mm x sz
      in (if ptr \<noteq> QSE_NULL then x\<lparr>pma_mem := qse_memset (pma_mem x) ptr 0 (of_nat sz)\<rparr> else x, ptr))"

definition qse_pma_realloc :: "qse_pma \<Rightarrow> addr \<Rightarrow> nat \<Rightarrow> qse_pma \<times> addr" where
  "qse_pma_realloc x blk sz = (x, QSE_NULL)"

definition qse_pma_free :: "qse_pma \<Rightarrow> addr \<Rightarrow> qse_pma" where
  "qse_pma_free x blk = x"

section \<open>The pool in use\<close>

text \<open>
  The pool does not know which blocks are in use. A run of a client therefore records, beside the pool, the large blocks that the
  outer memory manager granted, with their sizes, and the blocks the client holds.
\<close>

record pma_use =
  pu_pool :: qse_pma
  pu_got :: "(addr \<times> nat) list"
  pu_live :: blocks

definition pma_request :: "qse_pma \<Rightarrow> nat \<Rightarrow> nat option" where
  "pma_request x sz = (if \<not> pma_failed x \<and> pma_n x < sz then Some (nat ((int PMA_BLK_SIZE + pma_block_size sz) mod 2 ^ 64)) else None)"

definition use_alloc :: "addr option \<Rightarrow> pma_use \<Rightarrow> nat \<Rightarrow> pma_use \<times> addr" where
  "use_alloc mm u sz =
     (let (x, p) = qse_pma_alloc mm (pu_pool u) sz
      in (\<lparr>pu_pool = x, pu_got = pu_got u @ (case (mm, pma_request (pu_pool u) sz) of (Some l, Some k) \<Rightarrow> [(l, k)] | _ \<Rightarrow> []),
           pu_live = (if p = QSE_NULL then pu_live u else (pu_live u)(p \<mapsto> sz))\<rparr>, p))"

definition use_realloc :: "pma_use \<Rightarrow> addr \<Rightarrow> nat \<Rightarrow> pma_use \<times> addr" where
  "use_realloc u p sz = (let (x, q) = qse_pma_realloc (pu_pool u) p sz in (u\<lparr>pu_pool := x\<rparr>, q))"

definition use_free :: "pma_use \<Rightarrow> addr \<Rightarrow> pma_use" where
  "use_free u p = u\<lparr>pu_pool := qse_pma_free (pu_pool u) p, pu_live := (pu_live u)(p := None)\<rparr>"

definition pma_ops :: "(addr option, pma_use) mm_ops" where
  "pma_ops = \<lparr>op_alloc = (\<lambda>e u n. Some (use_alloc e u n)), op_realloc = (\<lambda>e u p n. Some (use_realloc u p n)), op_free = use_free\<rparr>"

text \<open>Requests are neither empty nor too large for the \<open>int\<close>, and the outer memory manager answers with aligned memory of its own.\<close>

definition pma_grant :: "addr option \<Rightarrow> pma_use \<Rightarrow> nat \<Rightarrow> bool" where
  "pma_grant mm u n \<longleftrightarrow> 0 < n \<and> n < 2 ^ 28 \<and>
     (case (mm, pma_request (pu_pool u) n) of
        (Some l, Some k) \<Rightarrow> l \<noteq> QSE_NULL \<and> 8 dvd l \<and> (\<forall>(a, s) \<in> set (pu_got u). a + s \<le> l \<or> l + k \<le> a)
      | _ \<Rightarrow> True)"

definition got_ok :: "(addr \<times> nat) list \<Rightarrow> bool" where
  "got_ok gs \<longleftrightarrow> distinct (map fst gs) \<and> (\<forall>(a, s) \<in> set gs. a \<noteq> QSE_NULL \<and> 16 \<le> s) \<and>
     (\<forall>(a, s) \<in> set gs. \<forall>(b, t) \<in> set gs. a \<noteq> b \<longrightarrow> a + s \<le> b \<or> b + t \<le> a)"

definition room_ok :: "pma_use \<Rightarrow> bool" where
  "room_ok u \<longleftrightarrow> (let x = pu_pool u in
     if pu_got u = [] then pma_current x = QSE_NULL \<and> pma_n x = 0
     else pma_current x = fst (last (pu_got u)) \<and> fst (last (pu_got u)) + 16 \<le> pma_ptr x \<and>
       pma_ptr x + pma_n x = fst (last (pu_got u)) + snd (last (pu_got u)) \<and> 8 dvd pma_ptr x \<and> 8 dvd pma_n x \<and> pma_n x < 2 ^ 64)"

definition live_ok :: "pma_use \<Rightarrow> bool" where
  "live_ok u \<longleftrightarrow> apart (pu_live u) \<and> (\<forall>p k. pu_live u p = Some k \<longrightarrow> 0 < k \<and> 8 dvd p \<and>
     (\<exists>(a, s) \<in> set (pu_got u). a + 16 \<le> p \<and> p + k \<le> a + s \<and> (a = fst (last (pu_got u)) \<longrightarrow> p + k \<le> pma_ptr (pu_pool u))))"

definition pma_ok :: "pma_use \<Rightarrow> bool" where
  "pma_ok u \<longleftrightarrow> chain (pma_next (pu_pool u)) (pma_blocks (pu_pool u)) (map fst (pu_got u)) \<and> got_ok (pu_got u) \<and> room_ok u \<and> live_ok u"

lemma pma_liveE:
  assumes "pma_ok u" "pu_live u p = Some k"
  obtains a s where "(a, s) \<in> set (pu_got u)" "a + 16 \<le> p" "p + k \<le> a + s" "a = fst (last (pu_got u)) \<longrightarrow> p + k \<le> pma_ptr (pu_pool u)" "0 < k" "8 dvd p"
proof -
  have "0 < k" "8 dvd p" "\<exists>(a, s) \<in> set (pu_got u). a + 16 \<le> p \<and> p + k \<le> a + s \<and> (a = fst (last (pu_got u)) \<longrightarrow> p + k \<le> pma_ptr (pu_pool u))"
    using assms unfolding pma_ok_def live_ok_def by simp_all
  then show ?thesis using that by auto
qed

section \<open>Cutting off a block\<close>

lemma padded: "8 dvd p \<Longrightarrow> 8 dvd (sz + PMA_ALIGN (p + sz)) \<and> sz + PMA_ALIGN (p + sz) < sz + 8"
  by (auto simp: PMA_ALIGN_def) presburger+

lemma pma_take_ok:
  assumes ok: "pma_ok u" and n: "n \<le> pma_n (pu_pool u)" "0 < n" and t: "pma_take n (pu_pool u) = (x, p)"
  shows "p \<noteq> QSE_NULL" "pu_live u p = None" "pma_ok \<lparr>pu_pool = x, pu_got = pu_got u, pu_live = (pu_live u)(p \<mapsto> n)\<rparr>"
proof -
  let ?x = "pu_pool u" and ?sz = "n + PMA_ALIGN (pma_ptr (pu_pool u) + n)" and ?g = "last (pu_got u)"
  have ne: "pu_got u \<noteq> []" using ok n by (auto simp: pma_ok_def room_ok_def)
  have r: "pma_current ?x = fst ?g" "fst ?g + 16 \<le> pma_ptr ?x" "pma_ptr ?x + pma_n ?x = fst ?g + snd ?g" "8 dvd pma_ptr ?x" "8 dvd pma_n ?x" "pma_n ?x < 2 ^ 64"
    using ok ne by (auto simp: pma_ok_def room_ok_def Let_def)
  have sz: "8 dvd ?sz" "?sz < n + 8" "n \<le> ?sz" using padded [OF r(4)] by auto
  have le: "?sz \<le> pma_n ?x"
  proof -
    obtain i j where "?sz = 8 * i" "pma_n ?x = 8 * j" using sz(1) r(5) by (auto simp: dvd_def)
    then show ?thesis using n(1) sz(2) by presburger
  qed
  have "pma_n ?x + (2 ^ 64 - ?sz) = (pma_n ?x - ?sz) + 2 ^ 64" using le r(6) by simp
  then have e: "(pma_n ?x + (2 ^ 64 - ?sz)) mod 2 ^ 64 = pma_n ?x - ?sz" using r(6) by (metis less_imp_diff_less mod_add_self2 mod_less)
  have e': "?sz mod 2 ^ 64 = ?sz" using le r(6) by simp
  have x: "x = ?x\<lparr>pma_ptr := pma_ptr ?x + ?sz, pma_n := pma_n ?x - ?sz\<rparr>" "p = pma_ptr ?x"
    using t unfolding pma_take_def Let_def e' e by auto
  have gin: "(fst ?g, snd ?g) \<in> set (pu_got u)" using ne by simp
  then have "16 \<le> snd ?g" "fst ?g \<noteq> QSE_NULL" using ok by (fastforce simp: pma_ok_def got_ok_def)+
  then show pn: "p \<noteq> QSE_NULL" using x(2) r(2) by (auto simp: QSE_NULL_def)
  have before: "q + k \<le> p \<or> p + n \<le> q" if l: "pu_live u q = Some k" for q k
  proof -
    obtain a s where a: "(a, s) \<in> set (pu_got u)" "a + 16 \<le> q" "q + k \<le> a + s" "a = fst ?g \<longrightarrow> q + k \<le> pma_ptr ?x"
      using pma_liveE [OF ok l] by metis
    show ?thesis
    proof (cases "a = fst ?g")
      case True then show ?thesis using a x(2) by simp
    next
      case False
      then have "a + s \<le> fst ?g \<or> fst ?g + snd ?g \<le> a" using ok a(1) gin by (fastforce simp: pma_ok_def got_ok_def)
      then show ?thesis using a r x(2) n(1) by linarith
    qed
  qed
  show none: "pu_live u p = None"
  proof (rule ccontr)
    assume "pu_live u p \<noteq> None"
    then obtain k where "pu_live u p = Some k" by auto
    then show False using before [of p k] ok n(2) by (auto simp: pma_ok_def live_ok_def)
  qed
  let ?u = "\<lparr>pu_pool = x, pu_got = pu_got u, pu_live = (pu_live u)(p \<mapsto> n)\<rparr>"
  have "room_ok ?u" using ne r le sz x by (auto simp: room_ok_def Let_def)
  moreover have "apart (pu_live ?u)" using ok before by (fastforce simp: pma_ok_def live_ok_def apart_def)
  moreover have "0 < k \<and> 8 dvd q \<and> (\<exists>(a, s) \<in> set (pu_got u). a + 16 \<le> q \<and> q + k \<le> a + s \<and> (a = fst ?g \<longrightarrow> q + k \<le> pma_ptr x))"
    if l: "((pu_live u)(p \<mapsto> n)) q = Some k" for q k
  proof (cases "q = p")
    case True
    then show ?thesis using l n r x sz le gin by (auto intro!: bexI [of _ "(fst ?g, snd ?g)"])
  next
    case False
    then have "pu_live u q = Some k" using l by simp
    then obtain a s where "(a, s) \<in> set (pu_got u)" "a + 16 \<le> q" "q + k \<le> a + s" "a = fst ?g \<longrightarrow> q + k \<le> pma_ptr ?x" "0 < k" "8 dvd q"
      using pma_liveE [OF ok] by metis
    then show ?thesis using x(1) by (auto intro!: bexI [of _ "(a, s)"])
  qed
  ultimately show "pma_ok ?u" using ok x(1) by (auto simp: pma_ok_def live_ok_def)
qed

section \<open>Operations\<close>

lemma pma_block_size_bounds:
  assumes "n < 2 ^ 28"
  shows "int n \<le> pma_block_size n" "pma_block_size n \<le> 2 ^ 31" "8 dvd nat (pma_block_size n)" "0 < pma_block_size n"
  using assms by (auto simp: pma_block_size_def wrap_s_32 nat_mult_distrib)

lemma pma_request_size:
  assumes "n < 2 ^ 28" "pma_request x n = Some k"
  shows "k = 16 + nat (pma_block_size n)" "\<not> pma_failed x" "pma_n x < n"
proof -
  show f: "\<not> pma_failed x" "pma_n x < n" using assms(2) by (auto simp: pma_request_def split: if_splits)
  have "(16 + pma_block_size n) mod 2 ^ 64 = 16 + pma_block_size n"
    using pma_block_size_bounds(2,4) [OF assms(1)] by (intro mod_pos_pos_trivial) simp_all
  then show "k = 16 + nat (pma_block_size n)" using assms f pma_block_size_bounds(4) [OF assms(1)] by (auto simp: pma_request_def nat_add_distrib)
qed

lemma pma_extend_ok:
  assumes ok: "pma_ok u" and n: "n < 2 ^ 28" and q: "pma_request (pu_pool u) n = Some k"
    and l: "l \<noteq> QSE_NULL" "8 dvd l" "\<forall>(a, s) \<in> set (pu_got u). a + s \<le> l \<or> l + k \<le> a"
  shows "pma_ok \<lparr>pu_pool = pma_extend l n (pu_pool u), pu_got = pu_got u @ [(l, k)], pu_live = pu_live u\<rparr>" "n \<le> pma_n (pma_extend l n (pu_pool u))"
proof -
  let ?x = "pu_pool u" and ?y = "pma_extend l n (pu_pool u)"
  note bs = pma_block_size_bounds [OF n] and k = pma_request_size(1) [OF n q]
  have "pma_block_size n mod 2 ^ 64 = pma_block_size n" using bs(2,4) by (intro mod_pos_pos_trivial) simp_all
  then have y: "pma_n ?y = nat (pma_block_size n)" "pma_ptr ?y = l + 16" "pma_current ?y = l" by (simp_all add: pma_extend_def Let_def)
  then show "n \<le> pma_n ?y" using bs(1) by simp
  have g: "got_ok (pu_got u)" and c: "chain (pma_next ?x) (pma_blocks ?x) (map fst (pu_got u))" and rm: "room_ok u" using ok by (auto simp: pma_ok_def)
  have new: "l \<notin> fst ` set (pu_got u)"
  proof
    assume "l \<in> fst ` set (pu_got u)"
    then obtain s where s: "(l, s) \<in> set (pu_got u)" by auto
    then have "16 \<le> s" using g by (auto simp: got_ok_def)
    then show False using l(3) s k by fastforce
  qed
  have "got_ok (pu_got u @ [(l, k)])" using g l new k by (fastforce simp: got_ok_def)
  moreover have "room_ok \<lparr>pu_pool = ?y, pu_got = pu_got u @ [(l, k)], pu_live = pu_live u\<rparr>"
    using y l(2) k bs by (auto simp: room_ok_def Let_def)
  moreover have "chain (pma_next ?y) (pma_blocks ?y) (map fst (pu_got u @ [(l, k)]))"
  proof (cases "pu_got u" rule: rev_cases)
    case Nil
    then show ?thesis using c rm l(1) by (auto simp: pma_extend_def room_ok_def Let_def)
  next
    case (snoc gs h)
    then have cur: "pma_current ?x = fst h" "pma_blocks ?x \<noteq> QSE_NULL" "fst h \<noteq> QSE_NULL"
      using rm c chain_no_null [OF c] by (auto simp: room_ok_def Let_def neq_Nil_conv) (cases gs; auto)+
    have "chain ((pma_next ?x)(l := QSE_NULL, fst h := l)) (pma_blocks ?x) (map fst gs @ [fst h, l])"
      using c g l(1) new snoc by (intro chain_snoc) (auto simp: got_ok_def)
    then show ?thesis using snoc cur by (simp add: pma_extend_def Let_def)
  qed
  moreover have "live_ok \<lparr>pu_pool = ?y, pu_got = pu_got u @ [(l, k)], pu_live = pu_live u\<rparr>"
    unfolding live_ok_def pma_use.simps last_snoc fst_conv
  proof (intro conjI allI impI)
    fix p j assume pj: "pu_live u p = Some j"
    then obtain a s where as: "(a, s) \<in> set (pu_got u)" "a + 16 \<le> p" "p + j \<le> a + s" "0 < j" "8 dvd p" using pma_liveE [OF ok] by metis
    then have "a \<noteq> l" using new by force
    then show "\<exists>(a, s) \<in> set (pu_got u @ [(l, k)]). a + 16 \<le> p \<and> p + j \<le> a + s \<and> (a = l \<longrightarrow> p + j \<le> pma_ptr ?y)"
      using as by (intro bexI [of _ "(a, s)"]) auto
    show "0 < j" "8 dvd p" using as by auto
  qed (use ok in \<open>simp add: pma_ok_def live_ok_def\<close>)
  ultimately show "pma_ok \<lparr>pu_pool = ?y, pu_got = pu_got u @ [(l, k)], pu_live = pu_live u\<rparr>" by (simp add: pma_ok_def)
qed

lemma use_alloc_step:
  assumes ok: "pma_ok u" and g: "pma_grant mm u n" and a: "use_alloc mm u n = (u', p)"
  shows "pma_ok u' \<and> heap_step (Alloc n) (pu_live u) p (pu_live u')"
proof -
  have n: "0 < n" "n < 2 ^ 28" using g by (auto simp: pma_grant_def)
  have served: "pma_ok u' \<and> heap_step (Alloc n) (pu_live u) p (pu_live u')"
    if w: "pma_ok w" "n \<le> pma_n (pu_pool w)" "pma_take n (pu_pool w) = (x, p)" "pu_live w = pu_live u"
      "u' = \<lparr>pu_pool = x, pu_got = pu_got w, pu_live = (if p = QSE_NULL then pu_live u else (pu_live u)(p \<mapsto> n))\<rparr>" for w x
    using pma_take_ok [OF w(1,2) n(1) w(3)] w(4,5) by (auto simp: heap_step_Alloc)
  show ?thesis
  proof (cases "pma_request (pu_pool u) n")
    case (Some k)
    note f = pma_request_size(2,3) [OF n(2) Some]
    show ?thesis
    proof (cases mm)
      case None
      then have "u' = u\<lparr>pu_pool := (pu_pool u)\<lparr>pma_failed := True\<rparr>\<rparr>" "p = QSE_NULL" using a f by (auto simp: use_alloc_def qse_pma_alloc_def)
      then show ?thesis using ok by (auto simp: pma_ok_def room_ok_def live_ok_def Let_def heap_step_Alloc)
    next
      case m: (Some l)
      have l: "l \<noteq> QSE_NULL" "8 dvd l" "\<forall>(a, s) \<in> set (pu_got u). a + s \<le> l \<or> l + k \<le> a" using g m Some by (auto simp: pma_grant_def)
      obtain x where x: "pma_take n (pma_extend l n (pu_pool u)) = (x, p)" using a f m by (auto simp: use_alloc_def qse_pma_alloc_def split: prod.splits)
      show ?thesis
        by (rule served [OF pma_extend_ok(1) [OF ok n(2) Some l]])
          (use pma_extend_ok(2) [OF ok n(2) Some l] x a f m Some in \<open>auto simp: use_alloc_def qse_pma_alloc_def\<close>)
    qed
  next
    case None
    then consider "pma_failed (pu_pool u)" | "\<not> pma_failed (pu_pool u)" "n \<le> pma_n (pu_pool u)" by (force simp: pma_request_def split: if_splits)
    then show ?thesis
    proof cases
      case 1
      then have "u' = u" "p = QSE_NULL" using a None by (auto simp: use_alloc_def qse_pma_alloc_def split: option.splits)
      then show ?thesis using ok by (simp add: heap_step_Alloc)
    next
      case 2
      obtain x where "pma_take n (pu_pool u) = (x, p)" using a 2 by (auto simp: use_alloc_def qse_pma_alloc_def split: prod.splits)
      then show ?thesis using 2 a None ok by (intro served [of u x]) (auto simp: use_alloc_def qse_pma_alloc_def split: option.splits)
    qed
  qed
qed

interpretation pma_heap: allocator pma_ok pu_live pma_grant pma_ops
proof
  show "apart (pu_live s)" if "pma_ok s" for s using that by (simp add: pma_ok_def live_ok_def)
  show "pu_live s QSE_NULL = None" if ok: "pma_ok s" for s
  proof (rule ccontr)
    assume "pu_live s QSE_NULL \<noteq> None"
    then obtain k where "pu_live s QSE_NULL = Some k" by auto
    then show False using pma_liveE [OF ok] by (metis QSE_NULL_def add_is_0 le_zero_eq zero_neq_numeral)
  qed
  show "\<exists>s' p. op_alloc pma_ops e s n = Some (s', p) \<and> pma_ok s' \<and> heap_step (Alloc n) (pu_live s) p (pu_live s')"
    if "pma_ok s" "pma_grant e s n" for s e n
    using use_alloc_step [OF that] by (cases "use_alloc e s n") (auto simp: pma_ops_def)
  show "\<exists>s' q. op_realloc pma_ops e s p n = Some (s', q) \<and> pma_ok s' \<and> heap_step (Realloc p n) (pu_live s) q (pu_live s')"
    if "pma_ok s" for s e n p
    using that by (auto simp: pma_ops_def use_realloc_def qse_pma_realloc_def intro: heap_step.kept)
  show "pma_ok (op_free pma_ops s p) \<and> pu_live (op_free pma_ops s p) = (pu_live s)(p := None)" if "pma_ok s" for s p
  proof -
    have "apart ((pu_live s)(p := None))" using that by (simp add: pma_ok_def live_ok_def apart_def)
    then show ?thesis using that by (auto simp: pma_ops_def use_free_def qse_pma_free_def pma_ok_def live_ok_def room_ok_def Let_def)
  qed
qed

section \<open>Properties\<close>

definition new_pool :: "(addr \<Rightarrow> addr) \<Rightarrow> (addr \<Rightarrow> addr) \<Rightarrow> mem \<Rightarrow> pma_use" where
  "new_pool dt nx m = \<lparr>pu_pool = qse_pma_init dt nx m, pu_got = [], pu_live = Map.empty\<rparr>"

lemma new_pool_ok: "pma_ok (new_pool dt nx m)"
  by (simp add: new_pool_def qse_pma_init_def pma_ok_def got_ok_def room_ok_def live_ok_def apart_def)

text \<open>
  C18. The pool allocator implements the abstract heap. From a new pool every sequence of calls, with requests of one to \<open>2 ^ 28 - 1\<close> bytes, gives
  blocks that do not overlap, are aligned to eight bytes and lie in memory that the outer memory manager granted, behind its headers. Clearing gives
  back exactly the large blocks that were granted, each once, and leaves a new pool.
\<close>

theorem qse_pma_runs_as_heap:
  assumes "proper pma_ops pma_grant pu_live cs (new_pool dt nx m)"
  shows "\<exists>u rs. mm_run pma_ops cs (new_pool dt nx m) = Some (u, rs) \<and> heap_run (map snd cs) Map.empty rs (pu_live u) \<and> apart (pu_live u) \<and>
    (\<forall>p k. pu_live u p = Some k \<longrightarrow> 8 dvd p \<and> (\<exists>(a, s) \<in> set (pu_got u). a + 16 \<le> p \<and> p + k \<le> a + s)) \<and>
    distinct (map fst (pu_got u)) \<and>
    qse_pma_clear (pu_pool u) = Some (qse_pma_init (pma_data (pu_pool u)) (pma_next (pu_pool u)) (pma_mem (pu_pool u)), map fst (pu_got u))"
proof -
  obtain u rs where r: "mm_run pma_ops cs (new_pool dt nx m) = Some (u, rs)" "pma_ok u" "apart (pu_live u)" "heap_run (map snd cs) (pu_live (new_pool dt nx m)) rs (pu_live u)"
    using pma_heap.run_refines [OF new_pool_ok assms] by blast
  have "\<forall>p k. pu_live u p = Some k \<longrightarrow> 8 dvd p \<and> (\<exists>(a, s) \<in> set (pu_got u). a + 16 \<le> p \<and> p + k \<le> a + s)"
    using r(2) unfolding pma_ok_def live_ok_def by fast
  moreover have "qse_pma_clear (pu_pool u) = Some (qse_pma_init (pma_data (pu_pool u)) (pma_next (pu_pool u)) (pma_mem (pu_pool u)), map fst (pu_got u))"
    using r(2) free_chain_all by (simp add: qse_pma_clear_def pma_ok_def)
  ultimately show ?thesis using r by (auto simp: pma_ok_def got_ok_def new_pool_def)
qed

theorem qse_pma_runs_as_heap_witness:
  "\<exists>u rs. mm_run pma_ops [(Some 4096, Alloc 5), (None, Alloc 100), (None, Alloc 1000)] (new_pool (\<lambda>_. 0) (\<lambda>_. 0) (\<lambda>_. 0)) = Some (u, rs) \<and>
     rs = [4112, 4120, QSE_NULL] \<and> apart (pu_live u)"
proof -
  let ?cs = "[(Some 4096, Alloc 5), (None, Alloc 100), (None, Alloc 1000)]" and ?u = "new_pool (\<lambda>_. 0) (\<lambda>_. 0) (\<lambda>_. 0)"
  note ev = pma_ops_def use_alloc_def qse_pma_alloc_def pma_take_def pma_extend_def new_pool_def qse_pma_init_def pma_request_def pma_block_size_def PMA_ALIGN_def QSE_NULL_def
  have "proper pma_ops pma_grant pu_live ?cs ?u" by (simp add: ev pma_grant_def Let_def)
  from qse_pma_runs_as_heap [OF this] show ?thesis by (auto simp: ev Let_def)
qed

text \<open>
  The size of a new large block is computed in an \<open>int\<close>. For multiples of \<open>2 ^ 29\<close> it becomes zero: the outer memory manager is asked for a
  bare header, the request is served with the address behind it, and the number of bytes left wraps around.
\<close>

lemma qse_pma_alloc_truncates:
  assumes "\<not> pma_failed x" "pma_n x < n" "n = 2 ^ 29 * c" "0 < c" "c < 2 ^ 32" "8 dvd l"
  shows "pma_request x n = Some 16 \<and> (\<exists>x'. qse_pma_alloc (Some l) x n = (x', l + 16) \<and> pma_n x' = 2 ^ 64 - n)"
proof -
  have m: "n * 8 = c * 2 ^ 32" using assms(3) by simp
  have "n * 8 mod 2 ^ 64 = c * 2 ^ 32" using assms(5) m by simp
  moreover have "wrap_s 32 (int (c * 2 ^ 32)) = 0" by (simp add: wrap_s_def)
  ultimately have b: "pma_block_size n = 0" using assms(4) by (simp add: pma_block_size_def)
  have "n = 8 * (2 ^ 26 * c)" using assms(3) by simp
  then have "8 dvd n" by (rule dvdI)
  then have "PMA_ALIGN (l + 16 + n) = 0" using assms(6) by (auto simp: PMA_ALIGN_def dvd_eq_mod_eq_0 [symmetric])
  moreover have "n < 2 ^ 64" "0 < n" using assms(3-5) by simp_all
  ultimately show ?thesis using assms(1,2) b
    by (auto simp: pma_request_def qse_pma_alloc_def pma_take_def pma_extend_def Let_def)
qed

end
