(* ===== verification/Qse_Uri.thy ===== *)
theory Qse_Uri
  imports Qse_Prelude
begin

text \<open>
  The URI parser of \<open>src/lib/cmn/uri.c\<close>. \<open>qse_mbstouri\<close> works on bytes and \<open>qse_wcstouri\<close> on wide characters; their bodies are the
  same, so both are one parser on character codes. A text is the list of its codes, and reading behind the end gives the terminating null. The
  parts of the result are slices of the text: a pointer, here a position, and a length.
\<close>

section \<open>Data\<close>

record qse_cstr =
  cstr_ptr :: "nat option"
  cstr_len :: nat

record qse_uri_auth =
  auth_user :: qse_cstr
  auth_pass :: qse_cstr

record qse_uri =
  uri_scheme :: qse_cstr
  uri_auth :: qse_uri_auth
  uri_host :: qse_cstr
  uri_port :: qse_cstr
  uri_path :: qse_cstr
  uri_query :: qse_cstr
  uri_frag :: qse_cstr

definition QSE_STRTOURI_NOAUTH :: "32 word" where "QSE_STRTOURI_NOAUTH = push_bit 0 1"
definition QSE_STRTOURI_NOQUERY :: "32 word" where "QSE_STRTOURI_NOQUERY = push_bit 1 1"
definition QSE_STRTOURI_NOFRAG :: "32 word" where "QSE_STRTOURI_NOFRAG = push_bit 2 1"

abbreviation ch_colon :: nat where "ch_colon \<equiv> 58"
abbreviation ch_slash :: nat where "ch_slash \<equiv> 47"
abbreviation ch_at :: nat where "ch_at \<equiv> 64"
abbreviation ch_quest :: nat where "ch_quest \<equiv> 63"
abbreviation ch_sharp :: nat where "ch_sharp \<equiv> 35"

definition slice :: "nat \<Rightarrow> nat \<Rightarrow> qse_cstr" where
  "slice p l = \<lparr>cstr_ptr = Some p, cstr_len = l\<rparr>"

definition no_cstr :: qse_cstr where
  "no_cstr = \<lparr>cstr_ptr = None, cstr_len = 0\<rparr>"

definition empty_uri :: qse_uri where
  "empty_uri = \<lparr>uri_scheme = no_cstr, uri_auth = \<lparr>auth_user = no_cstr, auth_pass = no_cstr\<rparr>, uri_host = no_cstr, uri_port = no_cstr,
     uri_path = no_cstr, uri_query = no_cstr, uri_frag = no_cstr\<rparr>"

definition char_at :: "nat list \<Rightarrow> nat \<Rightarrow> nat" where
  "char_at s i = (if i < length s then s ! i else 0)"

section \<open>The parser\<close>

text \<open>The loops that advance to a character with the property \<open>stop\<close> or to the end.\<close>

function skip_to :: "(nat \<Rightarrow> bool) \<Rightarrow> nat list \<Rightarrow> nat \<Rightarrow> nat" where
  "skip_to stop s i = (if char_at s i \<noteq> 0 \<and> \<not> stop (char_at s i) then skip_to stop s (i + 1) else i)"
  by pat_completeness auto
termination by (relation "measure (\<lambda>(_, s, i). length s - i)") (auto simp: char_at_def split: if_splits)

declare skip_to.simps [simp del]

definition set_hostport :: "nat \<Rightarrow> nat option \<Rightarrow> nat \<Rightarrow> qse_uri \<Rightarrow> qse_uri" where
  "set_hostport ptr colon i u =
     (case colon of
        Some c \<Rightarrow> u\<lparr>uri_host := slice ptr (c - ptr), uri_port := slice (c + 1) (i - c - 1)\<rparr>
      | None \<Rightarrow> u\<lparr>uri_host := slice ptr (i - ptr)\<rparr>)"

definition set_userpass :: "nat \<Rightarrow> nat option \<Rightarrow> nat \<Rightarrow> qse_uri \<Rightarrow> qse_uri" where
  "set_userpass ptr colon i u =
     (case colon of
        Some c \<Rightarrow> u\<lparr>uri_auth := \<lparr>auth_user = slice ptr (c - ptr), auth_pass = slice (c + 1) (i - c - 1)\<rparr>\<rparr>
      | None \<Rightarrow> u\<lparr>uri_auth := (uri_auth u)\<lparr>auth_user := slice ptr (i - ptr)\<rparr>\<rparr>)"

function auth_loop :: "nat list \<Rightarrow> bool \<Rightarrow> nat option \<Rightarrow> nat \<Rightarrow> qse_uri \<Rightarrow> nat \<Rightarrow> qse_uri \<times> nat" where
  "auth_loop s noauth colon ptr u i =
     (let c = char_at s i in
      if noauth then
        (if colon = None \<and> c = ch_colon then auth_loop s noauth (Some i) ptr u (i + 1)
         else if c = ch_slash \<or> c = 0 then (set_hostport ptr colon i u, i)
         else auth_loop s noauth colon ptr u (i + 1))
      else
        (if colon = None \<and> c = ch_colon then auth_loop s noauth (Some i) ptr u (i + 1)
         else if cstr_ptr (auth_user (uri_auth u)) = None \<and> c = ch_at
           then auth_loop s noauth None (i + 1) (set_userpass ptr colon i u) (i + 1)
         else if c = ch_slash \<or> c = 0 then (set_hostport ptr colon i u, i)
         else auth_loop s noauth colon ptr u (i + 1)))"
  by pat_completeness auto
termination by (relation "measure (\<lambda>(s, _, _, _, _, i). length s - i)") (auto simp: char_at_def split: if_splits)

declare auth_loop.simps [simp del]

text \<open>Path, query and fragment; the position is on the slash that begins the path.\<close>

definition path_parts :: "nat list \<Rightarrow> 32 word \<Rightarrow> qse_uri \<Rightarrow> nat \<Rightarrow> qse_uri" where
  "path_parts s flags u i =
     (let noquery = (flags AND QSE_STRTOURI_NOQUERY \<noteq> 0); nofrag = (flags AND QSE_STRTOURI_NOFRAG \<noteq> 0);
          j = skip_to (\<lambda>c. \<not> noquery \<and> c = ch_quest \<or> \<not> nofrag \<and> c = ch_sharp) s i;
          u = u\<lparr>uri_path := slice i (j - i)\<rparr>;
          (u, j) =
            (if \<not> noquery \<and> char_at s j = ch_quest
             then let k = skip_to (\<lambda>c. \<not> nofrag \<and> c = ch_sharp) s (j + 1) in (u\<lparr>uri_query := slice (j + 1) (k - (j + 1))\<rparr>, k)
             else (u, j))
      in if \<not> nofrag \<and> char_at s j = ch_sharp
         then let k = skip_to (\<lambda>c. False) s (j + 1) in u\<lparr>uri_frag := slice (j + 1) (k - (j + 1))\<rparr>
         else u)"

definition touri :: "nat list \<Rightarrow> 32 word \<Rightarrow> qse_uri option" where
  "touri s flags =
     (let i = skip_to (\<lambda>c. c = ch_colon) s 0 in
      if char_at s i = 0 then None
      else
        (let u = empty_uri\<lparr>uri_scheme := slice 0 i\<rparr> in
         if char_at s (i + 1) \<noteq> ch_slash then None
         else if char_at s (i + 2) \<noteq> ch_slash then None
         else
           (let (u, j) = auth_loop s (flags AND QSE_STRTOURI_NOAUTH \<noteq> 0) None (i + 3) u (i + 3)
            in Some (if char_at s j = ch_slash then path_parts s flags u j else u))))"

definition qse_mbstouri :: "8 word list \<Rightarrow> 32 word \<Rightarrow> qse_uri option" where
  "qse_mbstouri str flags = touri (map unat str) flags"

definition qse_wcstouri :: "32 word list \<Rightarrow> 32 word \<Rightarrow> qse_uri option" where
  "qse_wcstouri str flags = touri (map unat str) flags"

section \<open>What a URI is made of\<close>

text \<open>The abstract URI, the text it is written as, and which parts need to avoid which characters.\<close>

record parts =
  p_scheme :: "nat list"
  p_user :: "nat list option"
  p_pass :: "nat list option"
  p_host :: "nat list"
  p_port :: "nat list option"
  p_path :: "nat list"
  p_query :: "nat list option"
  p_frag :: "nat list option"

definition after :: "nat \<Rightarrow> nat list option \<Rightarrow> nat list" where
  "after c x = (case x of None \<Rightarrow> [] | Some t \<Rightarrow> c # t)"

lemma after_simps [simp]: "after c None = []" "after c (Some t) = c # t"
  by (simp_all add: after_def)

definition userinfo :: "parts \<Rightarrow> nat list" where
  "userinfo p = (case p_user p of None \<Rightarrow> [] | Some t \<Rightarrow> t @ after ch_colon (p_pass p) @ [ch_at])"

definition tail_text :: "parts \<Rightarrow> nat list" where
  "tail_text p = p_path p @ after ch_quest (p_query p) @ after ch_sharp (p_frag p)"

definition uri_text :: "parts \<Rightarrow> nat list" where
  "uri_text p = p_scheme p @ [ch_colon, ch_slash, ch_slash] @ userinfo p @ p_host p @ after ch_colon (p_port p) @ tail_text p"

definition avoids :: "nat list \<Rightarrow> nat list \<Rightarrow> bool" where
  "avoids cs t = (\<forall>c \<in> set t. c \<noteq> 0 \<and> c \<notin> set cs)"

definition opt_avoids :: "nat list \<Rightarrow> nat list option \<Rightarrow> bool" where
  "opt_avoids cs x = (case x of None \<Rightarrow> True | Some t \<Rightarrow> avoids cs t)"

definition parts_wf :: "32 word \<Rightarrow> parts \<Rightarrow> bool" where
  "parts_wf flags p =
     (let noauth = (flags AND QSE_STRTOURI_NOAUTH \<noteq> 0); noquery = (flags AND QSE_STRTOURI_NOQUERY \<noteq> 0); nofrag = (flags AND QSE_STRTOURI_NOFRAG \<noteq> 0);
          at_ends = (if noauth \<or> p_user p \<noteq> None then [] else [ch_at]);
          frag_ends = (if nofrag then [] else [ch_sharp])
      in avoids [ch_colon] (p_scheme p) \<and>
         (noauth \<longrightarrow> p_user p = None) \<and> opt_avoids [ch_colon, ch_at, ch_slash] (p_user p) \<and>
         (p_user p = None \<longrightarrow> p_pass p = None) \<and> opt_avoids [ch_at, ch_slash] (p_pass p) \<and>
         avoids ([ch_colon, ch_slash] @ at_ends) (p_host p) \<and> opt_avoids (ch_slash # at_ends) (p_port p) \<and>
         (p_path p = [] \<or> hd (p_path p) = ch_slash) \<and>
         (p_path p = [] \<longrightarrow> p_query p = None \<and> p_frag p = None) \<and>
         avoids ((if noquery then [] else [ch_quest]) @ frag_ends) (p_path p) \<and>
         (noquery \<longrightarrow> p_query p = None) \<and> opt_avoids frag_ends (p_query p) \<and>
         (nofrag \<longrightarrow> p_frag p = None) \<and> opt_avoids [] (p_frag p))"

definition text_of :: "nat list \<Rightarrow> qse_cstr \<Rightarrow> nat list option" where
  "text_of s c = map_option (\<lambda>i. take (cstr_len c) (drop i s)) (cstr_ptr c)"

definition parts_of :: "nat list \<Rightarrow> qse_uri \<Rightarrow> parts" where
  "parts_of s u = \<lparr>p_scheme = the (text_of s (uri_scheme u)), p_user = text_of s (auth_user (uri_auth u)), p_pass = text_of s (auth_pass (uri_auth u)),
     p_host = the (text_of s (uri_host u)), p_port = text_of s (uri_port u), p_path = (case text_of s (uri_path u) of None \<Rightarrow> [] | Some t \<Rightarrow> t),
     p_query = text_of s (uri_query u), p_frag = text_of s (uri_frag u)\<rparr>"

section \<open>The loops on a text in parts\<close>

lemma char_at_app [simp]:
  "char_at (a @ b) (length a) = char_at b 0" "char_at (a @ b) (length a + k) = char_at b k"
  "char_at [] k = 0" "char_at (c # b) 0 = c" "char_at (c # b) (Suc k) = char_at b k"
  by (simp_all add: char_at_def nth_append)

lemma skip_to_end:
  assumes "\<forall>c \<in> set t. c \<noteq> 0 \<and> \<not> stop c" "char_at r 0 = 0 \<or> stop (char_at r 0)"
  shows "skip_to stop (a @ t @ r) (length a) = length a + length t"
  using assms(1)
proof (induction t arbitrary: a)
  case Nil then show ?case using assms(2) by (subst skip_to.simps) auto
next
  case (Cons c t)
  then show ?case using Cons.IH [of "a @ [c]"] by (subst skip_to.simps) simp
qed

definition dull :: "bool \<Rightarrow> nat option \<Rightarrow> qse_uri \<Rightarrow> nat \<Rightarrow> bool" where
  "dull noauth colon u c = (c \<noteq> 0 \<and> c \<noteq> ch_slash \<and> (colon = None \<longrightarrow> c \<noteq> ch_colon) \<and>
     (\<not> noauth \<and> cstr_ptr (auth_user (uri_auth u)) = None \<longrightarrow> c \<noteq> ch_at))"

lemma auth_loop_step: "dull noauth colon u (char_at s i) \<Longrightarrow> auth_loop s noauth colon ptr u i = auth_loop s noauth colon ptr u (i + 1)"
  by (subst auth_loop.simps, cases noauth; cases colon; cases "cstr_ptr (auth_user (uri_auth u))") (simp_all add: dull_def)

lemma auth_loop_dull:
  assumes "\<forall>c \<in> set t. dull noauth colon u c"
  shows "auth_loop (a @ t @ r) noauth colon ptr u (length a) = auth_loop (a @ t @ r) noauth colon ptr u (length a + length t)"
  using assms
proof (induction t arbitrary: a)
  case (Cons c t)
  have "auth_loop (a @ (c # t) @ r) noauth colon ptr u (length a) = auth_loop (a @ (c # t) @ r) noauth colon ptr u (length a + 1)"
    using Cons.prems by (intro auth_loop_step) simp
  then show ?case using Cons.IH [of "a @ [c]"] Cons.prems by simp
qed simp

lemma auth_loop_slash:
  "char_at s i = ch_slash \<or> char_at s i = 0 \<Longrightarrow> auth_loop s noauth colon ptr u i = (set_hostport ptr colon i u, i)"
  by (subst auth_loop.simps) auto

lemma auth_loop_colon: "char_at s i = ch_colon \<Longrightarrow> auth_loop s noauth None ptr u i = auth_loop s noauth (Some i) ptr u (i + 1)"
  by (subst auth_loop.simps) auto

lemma auth_loop_at:
  assumes "char_at s i = ch_at" "cstr_ptr (auth_user (uri_auth u)) = None"
  shows "auth_loop s False colon ptr u i = auth_loop s False None (i + 1) (set_userpass ptr colon i u) (i + 1)"
  using assms by (subst auth_loop.simps) auto

definition opt_slice :: "nat \<Rightarrow> nat list option \<Rightarrow> qse_cstr" where
  "opt_slice i x = (case x of None \<Rightarrow> no_cstr | Some t \<Rightarrow> slice i (length t))"

lemma opt_slice_simps [simp]: "opt_slice i None = no_cstr" "opt_slice i (Some t) = slice i (length t)"
  by (simp_all add: opt_slice_def)

lemma auth_loop_host:
  assumes "\<forall>c \<in> set host. dull noauth None u c" "\<forall>c \<in> set (case port of None \<Rightarrow> [] | Some t \<Rightarrow> t). dull noauth (Some 0) u c"
    "char_at r 0 = ch_slash \<or> char_at r 0 = 0" "uri_port u = no_cstr"
  shows "auth_loop (a @ host @ after ch_colon port @ r) noauth None (length a) u (length a) =
    (u\<lparr>uri_host := slice (length a) (length host),
       uri_port := opt_slice (length a + length host + 1) port\<rparr>,
     length (a @ host @ after ch_colon port))"
proof (cases port)
  case None
  then show ?thesis using assms(3,4) auth_loop_dull [OF assms(1), of a "after ch_colon port @ r"]
    by (simp add: auth_loop_slash set_hostport_def)
next
  case (Some t)
  let ?s = "a @ host @ ch_colon # t @ r"
  have d: "\<forall>c \<in> set t. dull noauth (Some k) u c" for k using assms(2) Some by (simp add: dull_def)
  have "auth_loop ?s noauth None (length a) u (length a) = auth_loop ?s noauth None (length a) u (length a + length host)"
    by (rule auth_loop_dull [OF assms(1)])
  also have "\<dots> = auth_loop ?s noauth (Some (length a + length host)) (length a) u (length a + length host + 1)"
    by (rule auth_loop_colon) simp
  also have "\<dots> = auth_loop ?s noauth (Some (length a + length host)) (length a) u (length a + length host + 1 + length t)"
    using auth_loop_dull [OF d, of "a @ host @ [ch_colon]" r] by simp
  also have "\<dots> = (set_hostport (length a) (Some (length a + length host)) (length a + length host + 1 + length t) u, length a + length host + 1 + length t)"
    using char_at_app(2) [of "a @ host @ ch_colon # t" r 0] assms(3) by (intro auth_loop_slash) (simp add: add.assoc)
  finally show ?thesis using Some by (simp add: set_hostport_def)
qed

lemma auth_loop_user:
  assumes "\<forall>c \<in> set user. dull False None u c" "\<forall>c \<in> set (case pass of None \<Rightarrow> [] | Some t \<Rightarrow> t). dull False (Some 0) u c"
    "cstr_ptr (auth_user (uri_auth u)) = None" "auth_pass (uri_auth u) = no_cstr"
    and b: "b = a @ user @ after ch_colon pass @ [ch_at]"
  shows "auth_loop (b @ r) False None (length a) u (length a) = auth_loop (b @ r) False None (length b)
    (u\<lparr>uri_auth := \<lparr>auth_user = slice (length a) (length user),
       auth_pass = opt_slice (length a + length user + 1) pass\<rparr>\<rparr>) (length b)"
proof (cases pass)
  case None
  have "auth_loop (b @ r) False None (length a) u (length a) = auth_loop (b @ r) False None (length a) u (length a + length user)"
    using auth_loop_dull [OF assms(1), of a "[ch_at] @ r"] b None by simp
  also have "\<dots> = auth_loop (b @ r) False None (length b) (set_userpass (length a) None (length a + length user) u) (length b)"
    using auth_loop_at [OF _ assms(3), of "b @ r" "length a + length user"] b None by simp
  also have "set_userpass (length a) None (length a + length user) u = u\<lparr>uri_auth := \<lparr>auth_user = slice (length a) (length user), auth_pass = no_cstr\<rparr>\<rparr>"
    using assms(4) by (simp add: set_userpass_def)
  finally show ?thesis using None by simp
next
  case (Some t)
  let ?i = "length a + length user" and ?k = "length a + length user + 1 + length t"
  have d: "\<forall>c \<in> set t. dull False (Some k) u c" for k using assms(2) Some by (simp add: dull_def)
  have "auth_loop (b @ r) False None (length a) u (length a) = auth_loop (b @ r) False None (length a) u ?i"
    using auth_loop_dull [OF assms(1), of a "ch_colon # t @ [ch_at] @ r"] b Some by simp
  also have "\<dots> = auth_loop (b @ r) False (Some ?i) (length a) u (?i + 1)" using b Some by (intro auth_loop_colon) simp
  also have "\<dots> = auth_loop (b @ r) False (Some ?i) (length a) u ?k"
    using auth_loop_dull [OF d, of "a @ user @ [ch_colon]" "[ch_at] @ r"] b Some by simp
  also have "\<dots> = auth_loop (b @ r) False None (length b) (set_userpass (length a) (Some ?i) ?k u) (length b)"
    using auth_loop_at [OF _ assms(3), of "b @ r" ?k] char_at_app(2) [of "a @ user @ ch_colon # t" "ch_at # r" 0] b Some by (simp add: add.assoc)
  finally show ?thesis using Some by (simp add: set_userpass_def)
qed

lemma avoids_simps [simp]:
  "avoids cs []" "avoids cs (c # t) \<longleftrightarrow> c \<noteq> 0 \<and> c \<notin> set cs \<and> avoids cs t" "avoids cs (t @ r) \<longleftrightarrow> avoids cs t \<and> avoids cs r"
  "opt_avoids cs None" "opt_avoids cs (Some t) = avoids cs t"
  by (auto simp: avoids_def opt_avoids_def)

lemma path_parts_slices:
  assumes wf: "avoids ((if noquery then [] else [ch_quest]) @ (if nofrag then [] else [ch_sharp])) path" "noquery \<longrightarrow> query = None"
      "opt_avoids (if nofrag then [] else [ch_sharp]) query" "nofrag \<longrightarrow> frag = None" "opt_avoids [] frag"
    and fl: "noquery = (flags AND QSE_STRTOURI_NOQUERY \<noteq> 0)" "nofrag = (flags AND QSE_STRTOURI_NOFRAG \<noteq> 0)"
    and u: "uri_query u = no_cstr" "uri_frag u = no_cstr"
    and s: "s = a @ path @ after ch_quest query @ after ch_sharp frag"
  shows "path_parts s flags u (length a) = u\<lparr>uri_path := slice (length a) (length path), uri_query := opt_slice (length a + length path + 1) query,
    uri_frag := opt_slice (length a + length path + length (after ch_quest query) + 1) frag\<rparr>"
proof -
  let ?r = "after ch_quest query @ after ch_sharp frag" and ?j = "length a + length path" and ?k = "length a + length path + length (after ch_quest query)"
  let ?stop = "\<lambda>c. \<not> noquery \<and> c = ch_quest \<or> \<not> nofrag \<and> c = ch_sharp"
  have j: "skip_to ?stop s (length a) = ?j"
    unfolding s using wf(1,2,4) by (intro skip_to_end) (auto simp: avoids_def after_def split: option.splits if_splits)
  have cj: "char_at s ?j = char_at ?r 0" using s char_at_app(2) [of "a @ path" ?r 0] by simp
  have ck: "char_at s ?k = char_at (after ch_sharp frag) 0"
    using s char_at_app(2) [of "a @ path @ after ch_quest query" "after ch_sharp frag" 0] by (simp add: add.assoc)
  have q: "skip_to (\<lambda>c. \<not> nofrag \<and> c = ch_sharp) s (?j + 1) = ?k" "\<not> noquery" if "query = Some t" for t
    using skip_to_end [of t "\<lambda>c. \<not> nofrag \<and> c = ch_sharp" "after ch_sharp frag" "a @ path @ [ch_quest]"] wf(2-5) that s
    by (auto simp: avoids_def after_def split: option.splits if_splits)
  have f: "skip_to (\<lambda>c. False) s (?k + 1) = ?k + 1 + length t" "\<not> nofrag" if "frag = Some t" for t
    using skip_to_end [of t "\<lambda>c. False" "[]" "a @ path @ after ch_quest query @ [ch_sharp]"] wf(4,5) that s
    by (auto simp: avoids_def add.assoc)
  show ?thesis
  proof (cases query)
    case None
    then have "\<not> (\<not> noquery \<and> char_at s ?j = ch_quest)" "?k = ?j" using cj by (auto simp: after_def split: option.splits)
    then show ?thesis using j ck f None u
      by (cases frag) (simp_all add: path_parts_def Let_def fl [symmetric])
  next
    case (Some t)
    then show ?thesis using j cj ck q f u
      by (cases frag) (simp_all add: path_parts_def Let_def fl [symmetric])
  qed
qed

lemma text_of_slice: "text_of (a @ t @ r) (slice (length a) (length t)) = Some t"
  by (simp add: text_of_def slice_def)

lemma text_of_none [simp]: "text_of s no_cstr = None" "cstr_ptr no_cstr = None"
  by (simp_all add: text_of_def no_cstr_def)

lemma text_of_opt_slice: "text_of (a @ after c x @ r) (opt_slice (length a + 1) x) = x"
  using text_of_slice [of "a @ [c]" _ r] by (cases x) (auto simp: after_def)

lemmas parts_wfD = parts_wf_def [THEN iffD1, unfolded Let_def]

lemma auth_loop_parts:
  assumes wf: "parts_wf flags p" and u: "u = empty_uri\<lparr>uri_scheme := c\<rparr>"
    and s: "s = a @ userinfo p @ p_host p @ after ch_colon (p_port p) @ r" and r: "char_at r 0 = ch_slash \<or> char_at r 0 = 0"
  shows "auth_loop s (flags AND QSE_STRTOURI_NOAUTH \<noteq> 0) None (length a) u (length a) =
    (u\<lparr>uri_auth := \<lparr>auth_user = opt_slice (length a) (p_user p), auth_pass = opt_slice (length a + length (the (p_user p)) + 1) (p_pass p)\<rparr>,
       uri_host := slice (length a + length (userinfo p)) (length (p_host p)),
       uri_port := opt_slice (length a + length (userinfo p) + length (p_host p) + 1) (p_port p)\<rparr>,
     length (a @ userinfo p @ p_host p @ after ch_colon (p_port p)))"
proof (cases "p_user p")
  case None
  have h: "\<forall>c \<in> set (p_host p). dull (flags AND QSE_STRTOURI_NOAUTH \<noteq> 0) None u c"
    "\<forall>c \<in> set (case p_port p of None \<Rightarrow> [] | Some t \<Rightarrow> t). dull (flags AND QSE_STRTOURI_NOAUTH \<noteq> 0) (Some 0) u c"
    using parts_wfD [OF wf] None by (auto simp: dull_def avoids_def opt_avoids_def split: option.splits if_splits)
  have "uri_port u = no_cstr" "uri_auth u = \<lparr>auth_user = no_cstr, auth_pass = no_cstr\<rparr>" "p_pass p = None"
    using u parts_wfD [OF wf] None by (simp_all add: empty_uri_def)
  then show ?thesis using auth_loop_host [OF h r, of a] None s by (simp add: userinfo_def u empty_uri_def)
next
  case (Some t)
  define b where "b = a @ t @ after ch_colon (p_pass p) @ [ch_at]"
  define v where "v = u\<lparr>uri_auth := \<lparr>auth_user = slice (length a) (length t),
    auth_pass = opt_slice (length a + length t + 1) (p_pass p)\<rparr>\<rparr>"
  have na: "(flags AND QSE_STRTOURI_NOAUTH \<noteq> 0) = False" using parts_wfD [OF wf] Some by auto
  have up: "cstr_ptr (auth_user (uri_auth u)) = None" "auth_pass (uri_auth u) = no_cstr" "uri_port v = no_cstr"
    using u by (simp_all add: empty_uri_def v_def)
  have d: "\<forall>c \<in> set t. dull False None u c" "\<forall>c \<in> set (case p_pass p of None \<Rightarrow> [] | Some t \<Rightarrow> t). dull False (Some 0) u c"
    using parts_wfD [OF wf] Some by (auto simp: dull_def avoids_def opt_avoids_def split: option.splits)
  have h: "\<forall>c \<in> set (p_host p). dull False None v c" "\<forall>c \<in> set (case p_port p of None \<Rightarrow> [] | Some t \<Rightarrow> t). dull False (Some 0) v c"
    using parts_wfD [OF wf] Some by (auto simp: v_def slice_def dull_def avoids_def opt_avoids_def split: option.splits)
  have "s = b @ p_host p @ after ch_colon (p_port p) @ r" "b = a @ userinfo p" using s Some by (simp_all add: b_def userinfo_def)
  then show ?thesis unfolding na using auth_loop_user [OF d up(1,2) b_def, of "p_host p @ after ch_colon (p_port p) @ r"] auth_loop_host [OF h r up(3), of b] Some
    by (simp add: v_def)
qed

lemma touri_text:
  assumes wf: "parts_wf flags p" and s: "s = uri_text p"
  shows "\<exists>u. touri s flags = Some u \<and> parts_of s u = p"
proof -
  note w = parts_wfD [OF wf]
  define a where "a = p_scheme p @ [ch_colon, ch_slash, ch_slash]"
  define b where "b = a @ userinfo p @ p_host p @ after ch_colon (p_port p)"
  have sb: "s = b @ tail_text p" and sa: "s = a @ userinfo p @ p_host p @ after ch_colon (p_port p) @ tail_text p"
    using s by (simp_all add: uri_text_def a_def b_def)
  have tl: "char_at (tail_text p) 0 = (if p_path p = [] then 0 else ch_slash)"
    using w by (cases "p_path p") (auto simp: tail_text_def)
  have i: "skip_to (\<lambda>c. c = ch_colon) s 0 = length (p_scheme p)"
    using skip_to_end [of "p_scheme p" "\<lambda>c. c = ch_colon" "[ch_colon, ch_slash, ch_slash] @ drop (length a) s" "[]"] w
    by (simp add: sa a_def avoids_def)
  have c: "char_at s (length (p_scheme p)) = ch_colon" "char_at s (length (p_scheme p) + 1) = ch_slash" "char_at s (length (p_scheme p) + 2) = ch_slash"
    by (simp_all add: sa a_def char_at_def nth_append)
  define u where "u = empty_uri\<lparr>uri_scheme := slice 0 (length (p_scheme p)), 
     uri_auth := \<lparr>auth_user = opt_slice (length a) (p_user p), auth_pass = opt_slice (length a + length (the (p_user p)) + 1) (p_pass p)\<rparr>,
       uri_host := slice (length a + length (userinfo p)) (length (p_host p)),
       uri_port := opt_slice (length a + length (userinfo p) + length (p_host p) + 1) (p_port p)\<rparr>"
  have al: "auth_loop s (flags AND QSE_STRTOURI_NOAUTH \<noteq> 0) None (length (p_scheme p) + 3) (empty_uri\<lparr>uri_scheme := slice 0 (length (p_scheme p))\<rparr>)
      (length (p_scheme p) + 3) = (u, length b)"
    using auth_loop_parts [OF wf refl sa, of "slice 0 (length (p_scheme p))"] tl by (simp add: b_def u_def a_def numeral_3_eq_3 split: if_splits)
  have cb: "char_at s (length b) = char_at (tail_text p) 0" by (simp add: sb)
  define u' where "u' = (if char_at s (length b) = ch_slash then path_parts s flags u (length b) else u)"
  have t: "touri s flags = Some u'" using i c al by (simp add: touri_def Let_def u'_def)
  have e: "uri_query u = no_cstr" "uri_frag u = no_cstr" "uri_path u = no_cstr" by (simp_all add: u_def empty_uri_def)
  have "path_parts s flags u (length b) = u\<lparr>uri_path := slice (length b) (length (p_path p)), uri_query := opt_slice (length b + length (p_path p) + 1) (p_query p),
    uri_frag := opt_slice (length b + length (p_path p) + length (after ch_quest (p_query p)) + 1) (p_frag p)\<rparr>"
    by (rule path_parts_slices [OF _ _ _ _ _ refl refl e(1,2)]) (use w sb in \<open>simp_all add: tail_text_def\<close>)
  then have u': "u' = (if p_path p = [] then u else u\<lparr>uri_path := slice (length b) (length (p_path p)), uri_query := opt_slice (length b + length (p_path p) + 1) (p_query p),
    uri_frag := opt_slice (length b + length (p_path p) + length (after ch_quest (p_query p)) + 1) (p_frag p)\<rparr>)"
    using cb tl by (simp add: u'_def)
  have tp: "text_of s (slice (length b) (length (p_path p))) = Some (p_path p)" "text_of s (opt_slice (length b + length (p_path p) + 1) (p_query p)) = p_query p"
    "text_of s (opt_slice (length b + length (p_path p) + length (after ch_quest (p_query p)) + 1) (p_frag p)) = p_frag p"
    using text_of_slice [of b "p_path p"] text_of_opt_slice [of "b @ p_path p" ch_quest "p_query p"]
      text_of_opt_slice [of "b @ p_path p @ after ch_quest (p_query p)" ch_sharp "p_frag p" "[]"]
    by (simp_all add: sb tail_text_def add.assoc)
  have th: "text_of s (slice 0 (length (p_scheme p))) = Some (p_scheme p)"
    "text_of s (slice (length a + length (userinfo p)) (length (p_host p))) = Some (p_host p)"
    "text_of s (opt_slice (length a + length (userinfo p) + length (p_host p) + 1) (p_port p)) = p_port p"
    using text_of_slice [of "[]" "p_scheme p"] text_of_slice [of "a @ userinfo p" "p_host p"] text_of_opt_slice [of "a @ userinfo p @ p_host p" ch_colon "p_port p"]
    by (simp_all add: sa a_def add.assoc)
  have tu: "text_of s (opt_slice (length a) (p_user p)) = p_user p"
    "text_of s (opt_slice (length a + length (the (p_user p)) + 1) (p_pass p)) = p_pass p"
    using text_of_slice [of a "the (p_user p)"] text_of_opt_slice [of "a @ the (p_user p)" ch_colon "p_pass p"] w
    by (cases "p_user p"; simp add: sa userinfo_def)+
  have "parts_of s u' = p"
    unfolding u' using e w th tu tp by (cases "p_path p = []") (simp_all add: parts_of_def u_def)
  then show ?thesis using t by blast
qed

section \<open>Every text with a scheme has parts\<close>

lemma avoids_iff: "avoids cs t \<longleftrightarrow> 0 \<notin> set t \<and> (\<forall>c \<in> set cs. c \<notin> set t)"
  unfolding avoids_def by metis

lemma split_first: "\<exists>x y. t = x @ after c y \<and> c \<notin> set x" for t :: "nat list"
proof (cases "c \<in> set t")
  case True
  then obtain x y where "t = x @ c # y" "c \<notin> set x" by (meson split_list_first)
  then show ?thesis by (metis after_simps(2))
next
  case False
  then have "t = t @ after c None" by simp
  then show ?thesis using False by blast
qed

lemma split_unless: "\<exists>x y. t = x @ after c y \<and> (no \<longrightarrow> y = None) \<and> (\<not> no \<longrightarrow> c \<notin> set x)" for t :: "nat list"
  using split_first [of t c] by (cases no) (metis after_simps(1) append_Nil2, blast)

lemma split_slash: "\<exists>x y. t = x @ y \<and> ch_slash \<notin> set x \<and> (y = [] \<or> hd y = ch_slash)" for t :: "nat list"
  using split_first [of t ch_slash] by (metis after_simps list.sel(1) option.exhaust)

lemma tail_split:
  assumes "y = [] \<or> hd y = ch_slash" "0 \<notin> set y"
  shows "\<exists>path query frag. y = path @ after ch_quest query @ after ch_sharp frag \<and> (path = [] \<or> hd path = ch_slash) \<and>
    (path = [] \<longrightarrow> query = None \<and> frag = None) \<and> avoids ((if nq then [] else [ch_quest]) @ (if nf then [] else [ch_sharp])) path \<and>
    (nq \<longrightarrow> query = None) \<and> opt_avoids (if nf then [] else [ch_sharp]) query \<and> (nf \<longrightarrow> frag = None) \<and> opt_avoids [] frag"
proof -
  obtain x frag where x: "y = x @ after ch_sharp frag" "nf \<longrightarrow> frag = None" "\<not> nf \<longrightarrow> ch_sharp \<notin> set x" using split_unless by blast
  obtain path query where p: "x = path @ after ch_quest query" "nq \<longrightarrow> query = None" "\<not> nq \<longrightarrow> ch_quest \<notin> set path" using split_unless by blast
  have e: "path = [] \<longrightarrow> query = None \<and> frag = None" "path = [] \<or> hd path = ch_slash"
    using assms(1) x(1) p(1) by (auto simp: after_def hd_append split: option.splits if_splits)
  have "avoids ((if nq then [] else [ch_quest]) @ (if nf then [] else [ch_sharp])) path" "opt_avoids (if nf then [] else [ch_sharp]) query" "opt_avoids [] frag"
    using assms(2) x p by (auto simp: avoids_iff opt_avoids_def after_def split: option.splits)
  then show ?thesis using x p e by (intro exI [of _ path] exI [of _ query] exI [of _ frag]) simp
qed

lemma hostport_split:
  assumes "0 \<notin> set t" "ch_slash \<notin> set t" "ns \<longrightarrow> ch_at \<notin> set t"
  shows "\<exists>host port. t = host @ after ch_colon port \<and> avoids ([ch_colon, ch_slash] @ (if ns then [ch_at] else [])) host \<and>
    opt_avoids (ch_slash # (if ns then [ch_at] else [])) port"
proof -
  obtain host port where h: "t = host @ after ch_colon port" "ch_colon \<notin> set host" using split_first by blast
  then have "avoids ([ch_colon, ch_slash] @ (if ns then [ch_at] else [])) host" "opt_avoids (ch_slash # (if ns then [ch_at] else [])) port"
    using assms by (auto simp: avoids_iff opt_avoids_def after_def split: option.splits)
  then show ?thesis using h by blast
qed

lemma authority_split:
  assumes "0 \<notin> set t" "ch_slash \<notin> set t"
  shows "\<exists>user pass host port. t = (case user of None \<Rightarrow> [] | Some x \<Rightarrow> x @ after ch_colon pass @ [ch_at]) @ host @ after ch_colon port \<and>
    (na \<longrightarrow> user = None) \<and> opt_avoids [ch_colon, ch_at, ch_slash] user \<and> (user = None \<longrightarrow> pass = None) \<and> opt_avoids [ch_at, ch_slash] pass \<and>
    avoids ([ch_colon, ch_slash] @ (if na \<or> user \<noteq> None then [] else [ch_at])) host \<and>
    opt_avoids (ch_slash # (if na \<or> user \<noteq> None then [] else [ch_at])) port"
proof -
  obtain x y where x: "t = x @ after ch_at y" "na \<longrightarrow> y = None" "\<not> na \<longrightarrow> ch_at \<notin> set x" using split_unless by blast
  show ?thesis
  proof (cases y)
    case None
    obtain host port where h: "x = host @ after ch_colon port" "avoids ([ch_colon, ch_slash] @ (if \<not> na then [ch_at] else [])) host"
      "opt_avoids (ch_slash # (if \<not> na then [ch_at] else [])) port"
      using hostport_split [of x "\<not> na"] assms x None by auto
    then show ?thesis using x None by - (rule exI [of _ None], rule exI [of _ None], rule exI [of _ host], rule exI [of _ port], cases na, simp_all)
  next
    case (Some z)
    obtain host port where h: "z = host @ after ch_colon port" "avoids [ch_colon, ch_slash] host" "opt_avoids [ch_slash] port"
      using hostport_split [of z False] assms x(1) Some by auto
    obtain user pass where u: "x = user @ after ch_colon pass" "ch_colon \<notin> set user" using split_first by blast
    have "opt_avoids [ch_colon, ch_at, ch_slash] (Some user)" "opt_avoids [ch_at, ch_slash] pass"
      using assms x Some u by (auto simp: avoids_iff opt_avoids_def after_def split: option.splits)
    then show ?thesis using h u x Some by (intro exI [of _ "Some user"] exI [of _ pass] exI [of _ host] exI [of _ port]) auto
  qed
qed

lemma text_has_parts:
  assumes "0 \<notin> set s" "touri s flags \<noteq> None"
  shows "\<exists>p. parts_wf flags p \<and> s = uri_text p"
proof -
  obtain sch y where s: "s = sch @ after ch_colon y" "ch_colon \<notin> set sch" using split_first by blast
  have z: "\<forall>c \<in> set sch. c \<noteq> 0 \<and> \<not> c = ch_colon" using s assms(1) by (metis UnI1 set_append)
  have i: "skip_to (\<lambda>c. c = ch_colon) s 0 = length sch"
    using skip_to_end [OF z, of "after ch_colon y" "[]"] s(1) by (cases y) auto
  then obtain x where y: "y = Some x" using assms(2) s(1) by (cases y) (auto simp: touri_def Let_def char_at_def)
  then have "char_at x 0 = ch_slash" "char_at x 1 = ch_slash"
    using assms(2) i s(1) char_at_app(2) [of sch "ch_colon # x" 1] char_at_app(2) [of sch "ch_colon # x" 2]
    by (auto simp: touri_def Let_def numeral_2_eq_2 split: if_splits)
  then obtain t where x: "x = ch_slash # ch_slash # t" by (cases x; cases "tl x") auto
  obtain au tl where t: "t = au @ tl" "ch_slash \<notin> set au" "tl = [] \<or> hd tl = ch_slash" using split_slash by blast
  have n: "0 \<notin> set au" "0 \<notin> set tl" using assms(1) s(1) y x t by auto
  obtain user pass host port where a: "au = (case user of None \<Rightarrow> [] | Some x \<Rightarrow> x @ after ch_colon pass @ [ch_at]) @ host @ after ch_colon port"
    "flags AND QSE_STRTOURI_NOAUTH \<noteq> 0 \<longrightarrow> user = None" "opt_avoids [ch_colon, ch_at, ch_slash] user" "user = None \<longrightarrow> pass = None" "opt_avoids [ch_at, ch_slash] pass"
    "avoids ([ch_colon, ch_slash] @ (if flags AND QSE_STRTOURI_NOAUTH \<noteq> 0 \<or> user \<noteq> None then [] else [ch_at])) host"
    "opt_avoids (ch_slash # (if flags AND QSE_STRTOURI_NOAUTH \<noteq> 0 \<or> user \<noteq> None then [] else [ch_at])) port"
    using authority_split [OF n(1) t(2), where na = "flags AND QSE_STRTOURI_NOAUTH \<noteq> 0"] by (elim exE conjE) (rule that; assumption)
  obtain path query frag where b: "tl = path @ after ch_quest query @ after ch_sharp frag" "path = [] \<or> hd path = ch_slash"
    "path = [] \<longrightarrow> query = None \<and> frag = None"
    "avoids ((if flags AND QSE_STRTOURI_NOQUERY \<noteq> 0 then [] else [ch_quest]) @ (if flags AND QSE_STRTOURI_NOFRAG \<noteq> 0 then [] else [ch_sharp])) path"
    "flags AND QSE_STRTOURI_NOQUERY \<noteq> 0 \<longrightarrow> query = None" "opt_avoids (if flags AND QSE_STRTOURI_NOFRAG \<noteq> 0 then [] else [ch_sharp]) query"
    "flags AND QSE_STRTOURI_NOFRAG \<noteq> 0 \<longrightarrow> frag = None" "opt_avoids [] frag"
    using tail_split [OF t(3) n(2), where nq = "flags AND QSE_STRTOURI_NOQUERY \<noteq> 0" and nf = "flags AND QSE_STRTOURI_NOFRAG \<noteq> 0"]
    by (elim exE conjE) (rule that; assumption)
  let ?p = "\<lparr>p_scheme = sch, p_user = user, p_pass = pass, p_host = host, p_port = port, p_path = path, p_query = query, p_frag = frag\<rparr>"
  have "avoids [ch_colon] sch" using z by (simp add: avoids_def)
  then have "parts_wf flags ?p" unfolding parts_wf_def Let_def parts.simps using a b by blast
  moreover have "s = uri_text ?p" using s(1) y x t(1) a(1) b(1) by (simp add: uri_text_def userinfo_def tail_text_def split: option.splits)
  ultimately show ?thesis by blast
qed

lemma touri_inverse:
  assumes "0 \<notin> set s"
  shows "map_option (parts_of s) (touri s flags) = Some p \<longleftrightarrow> parts_wf flags p \<and> s = uri_text p"
proof
  assume m: "map_option (parts_of s) (touri s flags) = Some p"
  then obtain q where q: "parts_wf flags q" "s = uri_text q" using text_has_parts [OF assms, of flags] by auto
  then show "parts_wf flags p \<and> s = uri_text p" using touri_text [OF q] m by auto
next
  assume "parts_wf flags p \<and> s = uri_text p"
  then show "map_option (parts_of s) (touri s flags) = Some p" using touri_text by auto
qed

text \<open>
  C19. Parsing a URI and writing it are inverse. A text without null characters is split by \<open>qse_mbstouri\<close>, and by \<open>qse_wcstouri\<close>, into the
  parts \<open>p\<close> exactly when it is the text of \<open>p\<close> and the parts are well-formed for the flags, so that the parser accepts exactly the texts of
  well-formed parts (a scheme, two slashes, user and password before an at sign, host, port, path, query and fragment), and two texts never share their parts.
\<close>

theorem qse_touri_inverse:
  assumes "0 \<notin> set s" "0 \<notin> set t"
  shows "(map_option (parts_of (map unat s)) (qse_mbstouri s flags) = Some p \<longleftrightarrow> parts_wf flags p \<and> map unat s = uri_text p) \<and>
    (map_option (parts_of (map unat t)) (qse_wcstouri t flags) = Some p \<longleftrightarrow> parts_wf flags p \<and> map unat t = uri_text p)"
proof -
  have "0 \<notin> set (map unat s)" "0 \<notin> set (map unat t)" using assms by (auto simp: unat_eq_0)
  then show ?thesis unfolding qse_mbstouri_def qse_wcstouri_def using touri_inverse by blast
qed

text \<open>\<open>s://u:p@h:8/x?q#f\<close>\<close>

theorem qse_touri_inverse_witness:
  "map_option (parts_of [115, 58, 47, 47, 117, 58, 112, 64, 104, 58, 56, 47, 120, 63, 113, 35, 102])
     (qse_mbstouri [115, 58, 47, 47, 117, 58, 112, 64, 104, 58, 56, 47, 120, 63, 113, 35, 102] 0) =
   Some \<lparr>p_scheme = [115], p_user = Some [117], p_pass = Some [112], p_host = [104], p_port = Some [56], p_path = [47, 120],
     p_query = Some [113], p_frag = Some [102]\<rparr>"
  using qse_touri_inverse [of "[115, 58, 47, 47, 117, 58, 112, 64, 104, 58, 56, 47, 120, 63, 113, 35, 102]" "[]" 0
      "\<lparr>p_scheme = [115], p_user = Some [117], p_pass = Some [112], p_host = [104], p_port = Some [56], p_path = [47, 120],
     p_query = Some [113], p_frag = Some [102]\<rparr>"]
  by (simp add: parts_wf_def Let_def uri_text_def userinfo_def tail_text_def)

text \<open>
  A text without null characters is refused exactly when no colon is followed by two slashes at its first occurrence.
\<close>

lemma touri_refused:
  assumes "0 \<notin> set s"
  shows "touri s flags = None \<longleftrightarrow> \<not> (\<exists>a b. ch_colon \<notin> set a \<and> s = a @ [ch_colon, ch_slash, ch_slash] @ b)"
proof
  assume n: "touri s flags = None"
  show "\<not> (\<exists>a b. ch_colon \<notin> set a \<and> s = a @ [ch_colon, ch_slash, ch_slash] @ b)"
  proof
    assume "\<exists>a b. ch_colon \<notin> set a \<and> s = a @ [ch_colon, ch_slash, ch_slash] @ b"
    then obtain a b where s: "ch_colon \<notin> set a" "s = a @ [ch_colon, ch_slash, ch_slash] @ b" by blast
    have z: "\<forall>c \<in> set a. c \<noteq> 0 \<and> \<not> c = ch_colon" using assms s by (metis UnI1 set_append)
    have "skip_to (\<lambda>c. c = ch_colon) s 0 = length a" using skip_to_end [OF z, of "[ch_colon, ch_slash, ch_slash] @ b" "[]"] s(2) by simp
    moreover have "char_at s (length a) = ch_colon" "char_at s (length a + 1) = ch_slash" "char_at s (length a + 2) = ch_slash"
      by (simp_all add: s(2) char_at_def nth_append)
    ultimately show False using n by (simp add: touri_def Let_def split: prod.splits)
  qed
next
  assume "\<not> (\<exists>a b. ch_colon \<notin> set a \<and> s = a @ [ch_colon, ch_slash, ch_slash] @ b)"
  moreover have "ch_colon \<notin> set (p_scheme p)" if "parts_wf flags p" for p using parts_wfD [OF that] by (auto simp: avoids_def)
  ultimately have "\<not> (\<exists>p. parts_wf flags p \<and> s = uri_text p)" unfolding uri_text_def by blast
  then show "touri s flags = None" using text_has_parts [OF assms] by blast
qed

end
