(* ===== verification/Qse_Sort.thy ===== *)
theory Qse_Sort
  imports Qse_Xptl
begin

text \<open>
  Sorting and searching, \<open>src/lib/cmn/alg-sort.c\<close> and \<open>src/lib/cmn/alg-search.c\<close>. The array is a list of its members, a pointer into it the index of a member; the exchange of two members,
  which the source does by words or by bytes, is one step. \<open>qse_qsort\<close> works on the \<open>n\<close> members from index \<open>a\<close> on, so that its calls of itself work on the same list. The comparator is an
  argument, with what its context pointer gives it; that of \<open>qse_qsortx\<close> may fail.
\<close>

section \<open>The sort\<close>

definition swap_at :: "nat \<Rightarrow> nat \<Rightarrow> 'a list \<Rightarrow> 'a list" where
  "swap_at i j xs = xs[i := xs ! j, j := xs ! i]"

fun vecswap :: "nat \<Rightarrow> nat \<Rightarrow> nat \<Rightarrow> 'a list \<Rightarrow> 'a list" where
  "vecswap i j 0 xs = xs"
| "vecswap i j (Suc n) xs = vecswap (i + 1) (j + 1) n (swap_at i j xs)"

definition med3 :: "('a \<Rightarrow> 'a \<Rightarrow> int) \<Rightarrow> 'a list \<Rightarrow> nat \<Rightarrow> nat \<Rightarrow> nat \<Rightarrow> nat" where
  "med3 cmp xs a b c =
     (if cmp (xs ! a) (xs ! b) < 0 then
        if cmp (xs ! b) (xs ! c) < 0 then b else if cmp (xs ! a) (xs ! c) < 0 then c else a
      else
        if cmp (xs ! b) (xs ! c) > 0 then b else if cmp (xs ! a) (xs ! c) > 0 then c else a)"

fun ins_down :: "('a \<Rightarrow> 'a \<Rightarrow> int) \<Rightarrow> nat \<Rightarrow> nat \<Rightarrow> 'a list \<Rightarrow> 'a list" where
  "ins_down cmp a pl xs =
     (if pl > a \<and> cmp (xs ! (pl - 1)) (xs ! pl) > 0 then ins_down cmp a (pl - 1) (swap_at pl (pl - 1) xs) else xs)"

function insertion_sort :: "('a \<Rightarrow> 'a \<Rightarrow> int) \<Rightarrow> nat \<Rightarrow> nat \<Rightarrow> nat \<Rightarrow> 'a list \<Rightarrow> 'a list" where
  "insertion_sort cmp a pm e xs = (if pm < e then insertion_sort cmp a (pm + 1) e (ins_down cmp a pm xs) else xs)"
  by pat_completeness auto
termination by (relation "measure (\<lambda>(cmp, a, pm, e, xs). e - pm)") auto

definition choose_pivot :: "('a \<Rightarrow> 'a \<Rightarrow> int) \<Rightarrow> nat \<Rightarrow> nat \<Rightarrow> 'a list \<Rightarrow> nat" where
  "choose_pivot cmp a n xs =
     (let pm = a + n div 2 in
      if n > 7 then
        (let pl = a; pn = a + (n - 1) in
         if n > 40 then
           (let d = n div 8;
                pl = med3 cmp xs pl (pl + d) (pl + 2 * d);
                pm = med3 cmp xs (pm - d) pm (pm + d);
                pn = med3 cmp xs (pn - 2 * d) (pn - d) pn
            in med3 cmp xs pl pm pn)
         else med3 cmp xs pl pm pn)
      else pm)"

function scan_up :: "('a \<Rightarrow> 'a \<Rightarrow> int) \<Rightarrow> nat \<Rightarrow> nat \<Rightarrow> nat \<Rightarrow> nat \<Rightarrow> bool \<Rightarrow> 'a list \<Rightarrow> 'a list \<times> nat \<times> nat \<times> bool" where
  "scan_up cmp a pa pb pc swapped xs =
     (if pb \<le> pc \<and> cmp (xs ! pb) (xs ! a) \<le> 0 then
        if cmp (xs ! pb) (xs ! a) = 0 then scan_up cmp a (pa + 1) (pb + 1) pc True (swap_at pa pb xs)
        else scan_up cmp a pa (pb + 1) pc swapped xs
      else (xs, pa, pb, swapped))"
  by pat_completeness auto
termination by (relation "measure (\<lambda>(cmp, a, pa, pb, pc, swapped, xs). pc + 1 - pb)") auto

text \<open>The test \<open>a < pb\<close>, which always holds in the sort, makes the recursion end also for indices that meet zero.\<close>

function scan_down :: "('a \<Rightarrow> 'a \<Rightarrow> int) \<Rightarrow> nat \<Rightarrow> nat \<Rightarrow> nat \<Rightarrow> nat \<Rightarrow> bool \<Rightarrow> 'a list \<Rightarrow> 'a list \<times> nat \<times> nat \<times> bool" where
  "scan_down cmp a pb pc pd swapped xs =
     (if a < pb \<and> pb \<le> pc \<and> cmp (xs ! pc) (xs ! a) \<ge> 0 then
        if cmp (xs ! pc) (xs ! a) = 0 then scan_down cmp a pb (pc - 1) (pd - 1) True (swap_at pc pd xs)
        else scan_down cmp a pb (pc - 1) pd swapped xs
      else (xs, pc, pd, swapped))"
  by pat_completeness auto
termination by (relation "measure (\<lambda>(cmp, a, pb, pc, pd, swapped, xs). pc + 1 - pb)") auto

declare ins_down.simps [simp del] insertion_sort.simps [simp del] scan_up.simps [simp del] scan_down.simps [simp del]

lemma scan_up_bounds:
  "scan_up cmp a pa pb pc sw xs = (ys, pa', pb', sw') \<Longrightarrow> pa \<le> pa' \<and> pb \<le> pb' \<and> (pb' \<le> max pb (pc + 1)) \<and> (pa \<le> pb \<longrightarrow> pa' \<le> pb')"
proof (induction cmp a pa pb pc sw xs rule: scan_up.induct)
  case (1 cmp a pa pb pc sw xs)
  note s = 1(3) [unfolded scan_up.simps [of cmp a pa pb pc sw xs]]
  show ?case
  proof (cases "pb \<le> pc \<and> cmp (xs ! pb) (xs ! a) \<le> 0")
    case c: True
    show ?thesis using 1(1) [OF c] 1(2) [OF c] s c by (cases "cmp (xs ! pb) (xs ! a) = 0") auto
  qed (use s in auto)
qed

lemma scan_down_bounds:
  "scan_down cmp a pb pc pd sw xs = (ys, pc', pd', sw') \<Longrightarrow> pc' \<le> pc \<and> pd' \<le> pd \<and> (min pc (pb - 1) \<le> pc') \<and> (pc \<le> pd \<longrightarrow> pc' \<le> pd')"
proof (induction cmp a pb pc pd sw xs rule: scan_down.induct)
  case (1 cmp a pb pc pd sw xs)
  note s = 1(3) [unfolded scan_down.simps [of cmp a pb pc pd sw xs]]
  show ?case
  proof (cases "a < pb \<and> pb \<le> pc \<and> cmp (xs ! pc) (xs ! a) \<ge> 0")
    case c: True
    show ?thesis using 1(1) [OF c] 1(2) [OF c] s c by (cases "cmp (xs ! pc) (xs ! a) = 0") auto
  qed (use s in auto)
qed

text \<open>The loop that divides the members into equal, smaller, larger and equal ones, compared with the one at \<open>a\<close>.\<close>

type_synonym 'a parts = "'a list \<times> nat \<times> nat \<times> nat \<times> nat \<times> bool"

function part_loop :: "('a \<Rightarrow> 'a \<Rightarrow> int) \<Rightarrow> nat \<Rightarrow> nat \<Rightarrow> nat \<Rightarrow> nat \<Rightarrow> nat \<Rightarrow> bool \<Rightarrow> 'a list \<Rightarrow> 'a parts" where
  "part_loop cmp a pa pb pc pd swapped xs =
     (case scan_up cmp a pa pb pc swapped xs of (xs, pa, pb, swapped) \<Rightarrow>
      case scan_down cmp a pb pc pd swapped xs of (xs, pc, pd, swapped) \<Rightarrow>
      if pb > pc then (xs, pa, pb, pc, pd, swapped)
      else part_loop cmp a pa (pb + 1) (pc - 1) pd True (swap_at pb pc xs))"
  by pat_completeness auto
termination
  by (relation "measure (\<lambda>(cmp, a, pa, pb, pc, pd, swapped, xs). pc + 1 - pb)") (auto dest!: scan_up_bounds [OF sym] scan_down_bounds [OF sym])

declare part_loop.simps [simp del]

lemma part_loop_bounds:
  "part_loop cmp a pa pb pc pd sw xs = (ys, pa', pb', pc', pd', sw') \<Longrightarrow> a < pb \<Longrightarrow> pb \<le> pd + 1 \<Longrightarrow> a \<le> pc \<Longrightarrow> pc \<le> pd \<Longrightarrow>
   pa \<le> pa' \<and> pb' \<le> pd + 1 \<and> a \<le> pc' \<and> pd' \<le> pd \<and> pc' \<le> pd' \<and> (pa \<le> pb \<longrightarrow> pb \<le> pc + 2 \<longrightarrow> pa' \<le> pb' \<and> pb' \<le> pc' + 2)"
proof (induction cmp a pa pb pc pd sw xs rule: part_loop.induct)
  case (1 cmp a pa pb pc pd sw xs)
  obtain xs1 pa1 pb1 sw1 where u: "scan_up cmp a pa pb pc sw xs = (xs1, pa1, pb1, sw1)" by (metis prod_cases4)
  obtain xs2 pc1 pd1 sw2 where d: "scan_down cmp a pb1 pc pd sw1 xs1 = (xs2, pc1, pd1, sw2)" by (metis prod_cases4)
  note b = scan_up_bounds [OF u] scan_down_bounds [OF d]
  note s = 1(2) [unfolded part_loop.simps [of cmp a pa pb pc pd sw xs] u prod.case d]
  have c: "a < pb1" "pb1 \<le> pd + 1" "a \<le> pc1" "pc1 \<le> pd1" "pd1 \<le> pd" using b 1(3-) by auto
  show ?case
  proof (cases "pb1 > pc1")
    case True
    then show ?thesis using s b c by auto
  next
    case False
    have "pa1 \<le> pa' \<and> pb' \<le> pd1 + 1 \<and> a \<le> pc' \<and> pd' \<le> pd1 \<and> pc' \<le> pd' \<and> (pa1 \<le> pb1 + 1 \<longrightarrow> pb1 + 1 \<le> pc1 - 1 + 2 \<longrightarrow> pa' \<le> pb' \<and> pb' \<le> pc' + 2)"
      using 1(1) [OF u [symmetric] refl refl d [symmetric] refl refl False] s c False by auto
    then show ?thesis using b c False by auto
  qed
qed

text \<open>The equal members at both ends are moved to the middle.\<close>

definition gather :: "nat \<Rightarrow> nat \<Rightarrow> nat \<Rightarrow> nat \<Rightarrow> nat \<Rightarrow> nat \<Rightarrow> 'a list \<Rightarrow> 'a list" where
  "gather a pn pa pb pc pd xs =
     (let r = min (pa - a) (pb - pa);
          xs = vecswap a (pb - r) r xs;
          r = min (pd - pc) (pn - pd - 1)
      in vecswap pb (pn - r) r xs)"

text \<open>The jump back to the beginning is a call of itself.\<close>

function qse_qsort :: "('a \<Rightarrow> 'a \<Rightarrow> int) \<Rightarrow> nat \<Rightarrow> nat \<Rightarrow> 'a list \<Rightarrow> 'a list" where
  "qse_qsort cmp a n xs =
     (if n < 7 then insertion_sort cmp a (a + 1) (a + n) xs
      else
        (case part_loop cmp a (a + 1) (a + 1) (a + (n - 1)) (a + (n - 1)) False (swap_at a (choose_pivot cmp a n xs) xs) of (xs, pa, pb, pc, pd, swapped) \<Rightarrow>
         if \<not> swapped then insertion_sort cmp a (a + 1) (a + n) xs
         else
           (let pn = a + n;
                xs = gather a pn pa pb pc pd xs;
                xs = (if pb - pa > 1 then qse_qsort cmp a (pb - pa) xs else xs)
            in if pd - pc > 1 then qse_qsort cmp (pn - (pd - pc)) (pd - pc) xs else xs)))"
  by pat_completeness auto
termination
  by (relation "measure (\<lambda>(cmp, a, n, xs). n)") (auto dest!: part_loop_bounds [OF sym])

declare qse_qsort.simps [simp del]

section \<open>Searching\<close>

fun bsearch_loop :: "('k \<Rightarrow> 'a \<Rightarrow> int) \<Rightarrow> 'k \<Rightarrow> 'a list \<Rightarrow> nat \<Rightarrow> nat \<Rightarrow> nat option" where
  "bsearch_loop cmp key xs base lim =
     (if lim > 0 then
        (let mid = base + lim div 2; n = cmp key (xs ! mid) in
         if n = 0 then Some mid
         else if n > 0 then bsearch_loop cmp key xs (mid + 1) ((lim - 1) div 2)
         else bsearch_loop cmp key xs base (lim div 2))
      else None)"

definition qse_bsearch :: "('k \<Rightarrow> 'a \<Rightarrow> int) \<Rightarrow> 'k \<Rightarrow> 'a list \<Rightarrow> nat \<Rightarrow> nat \<Rightarrow> nat option" where
  "qse_bsearch cmp key xs base nmemb = bsearch_loop cmp key xs base nmemb"

fun qse_lsearch :: "('k \<Rightarrow> 'a \<Rightarrow> int) \<Rightarrow> 'k \<Rightarrow> 'a list \<Rightarrow> nat \<Rightarrow> nat \<Rightarrow> nat option" where
  "qse_lsearch cmp key xs base nmemb =
     (if nmemb > 0 then if cmp key (xs ! base) = 0 then Some base else qse_lsearch cmp key xs (base + 1) (nmemb - 1) else None)"

declare bsearch_loop.simps [simp del] qse_lsearch.simps [simp del]

section \<open>The sort with a comparator that may fail\<close>

text \<open>The result is \<open>Inl\<close> with the array as it is left when the comparator fails.\<close>

definition med3x :: "('a \<Rightarrow> 'a \<Rightarrow> int option) \<Rightarrow> 'a list \<Rightarrow> nat \<Rightarrow> nat \<Rightarrow> nat \<Rightarrow> nat option" where
  "med3x cmp xs a b c =
     Option.bind (cmp (xs ! a) (xs ! b)) (\<lambda>n.
       if n < 0 then
         Option.bind (cmp (xs ! b) (xs ! c)) (\<lambda>n. if n < 0 then Some b else Option.bind (cmp (xs ! a) (xs ! c)) (\<lambda>n. Some (if n < 0 then c else a)))
       else
         Option.bind (cmp (xs ! b) (xs ! c)) (\<lambda>n. if n > 0 then Some b else Option.bind (cmp (xs ! a) (xs ! c)) (\<lambda>n. Some (if n > 0 then c else a))))"

fun ins_downx :: "('a \<Rightarrow> 'a \<Rightarrow> int option) \<Rightarrow> nat \<Rightarrow> nat \<Rightarrow> 'a list \<Rightarrow> 'a list + 'a list" where
  "ins_downx cmp a pl xs =
     (if pl > a then
        (case cmp (xs ! (pl - 1)) (xs ! pl) of
           None \<Rightarrow> Inl xs
         | Some n \<Rightarrow> if n \<le> 0 then Inr xs else ins_downx cmp a (pl - 1) (swap_at pl (pl - 1) xs))
      else Inr xs)"

function insertion_sortx :: "('a \<Rightarrow> 'a \<Rightarrow> int option) \<Rightarrow> nat \<Rightarrow> nat \<Rightarrow> nat \<Rightarrow> 'a list \<Rightarrow> 'a list + 'a list" where
  "insertion_sortx cmp a pm e xs =
     (if pm < e then (case ins_downx cmp a pm xs of Inl ys \<Rightarrow> Inl ys | Inr ys \<Rightarrow> insertion_sortx cmp a (pm + 1) e ys) else Inr xs)"
  by pat_completeness auto
termination by (relation "measure (\<lambda>(cmp, a, pm, e, xs). e - pm)") auto

definition choose_pivotx :: "('a \<Rightarrow> 'a \<Rightarrow> int option) \<Rightarrow> nat \<Rightarrow> nat \<Rightarrow> 'a list \<Rightarrow> nat option" where
  "choose_pivotx cmp a n xs =
     (let pm = a + n div 2 in
      if n > 7 then
        (let pl = a; pn = a + (n - 1) in
         if n > 40 then
           (let d = n div 8 in
            Option.bind (med3x cmp xs pl (pl + d) (pl + 2 * d)) (\<lambda>pl.
            Option.bind (med3x cmp xs (pm - d) pm (pm + d)) (\<lambda>pm.
            Option.bind (med3x cmp xs (pn - 2 * d) (pn - d) pn) (\<lambda>pn.
            med3x cmp xs pl pm pn))))
         else med3x cmp xs pl pm pn)
      else Some pm)"

function scan_upx :: "('a \<Rightarrow> 'a \<Rightarrow> int option) \<Rightarrow> nat \<Rightarrow> nat \<Rightarrow> nat \<Rightarrow> nat \<Rightarrow> bool \<Rightarrow> 'a list \<Rightarrow> 'a list + 'a list \<times> nat \<times> nat \<times> bool" where
  "scan_upx cmp a pa pb pc swapped xs =
     (if pb \<le> pc then
        (case cmp (xs ! pb) (xs ! a) of
           None \<Rightarrow> Inl xs
         | Some n \<Rightarrow>
             if n > 0 then Inr (xs, pa, pb, swapped)
             else if n = 0 then scan_upx cmp a (pa + 1) (pb + 1) pc True (swap_at pa pb xs)
             else scan_upx cmp a pa (pb + 1) pc swapped xs)
      else Inr (xs, pa, pb, swapped))"
  by pat_completeness auto
termination by (relation "measure (\<lambda>(cmp, a, pa, pb, pc, swapped, xs). pc + 1 - pb)") auto

function scan_downx :: "('a \<Rightarrow> 'a \<Rightarrow> int option) \<Rightarrow> nat \<Rightarrow> nat \<Rightarrow> nat \<Rightarrow> nat \<Rightarrow> bool \<Rightarrow> 'a list \<Rightarrow> 'a list + 'a list \<times> nat \<times> nat \<times> bool" where
  "scan_downx cmp a pb pc pd swapped xs =
     (if a < pb \<and> pb \<le> pc then
        (case cmp (xs ! pc) (xs ! a) of
           None \<Rightarrow> Inl xs
         | Some n \<Rightarrow>
             if n < 0 then Inr (xs, pc, pd, swapped)
             else if n = 0 then scan_downx cmp a pb (pc - 1) (pd - 1) True (swap_at pc pd xs)
             else scan_downx cmp a pb (pc - 1) pd swapped xs)
      else Inr (xs, pc, pd, swapped))"
  by pat_completeness auto
termination by (relation "measure (\<lambda>(cmp, a, pb, pc, pd, swapped, xs). pc + 1 - pb)") auto

declare ins_downx.simps [simp del] insertion_sortx.simps [simp del] scan_upx.simps [simp del] scan_downx.simps [simp del]

text \<open>Where the comparator answers, and the loops succeed, they do what those above do.\<close>

definition answer :: "('a \<Rightarrow> 'a \<Rightarrow> int option) \<Rightarrow> 'a \<Rightarrow> 'a \<Rightarrow> int" where
  "answer cmp x y = (case cmp x y of None \<Rightarrow> 0 | Some n \<Rightarrow> n)"

lemma answer_Some [simp]: "cmp x y = Some n \<Longrightarrow> answer cmp x y = n"
  by (simp add: answer_def)

lemma med3x_answer: "med3x cmp xs a b c = Some m \<Longrightarrow> med3 (answer cmp) xs a b c = m"
  by (auto simp: med3x_def med3_def split: Option.bind_splits if_splits)

lemma choose_pivotx_answer: "choose_pivotx cmp a n xs = Some m \<Longrightarrow> choose_pivot (answer cmp) a n xs = m"
  by (auto simp: choose_pivotx_def choose_pivot_def Let_def med3x_answer split: Option.bind_splits if_splits)

lemma ins_downx_answer: "ins_downx cmp a pl xs = Inr ys \<Longrightarrow> ins_down (answer cmp) a pl xs = ys"
proof (induction cmp a pl xs rule: ins_downx.induct)
  case (1 cmp a pl xs)
  show ?case using 1(1) 1(2) [unfolded ins_downx.simps [of cmp a pl xs]]
    by (subst ins_down.simps) (auto split: option.splits if_splits)
qed

lemma insertion_sortx_answer: "insertion_sortx cmp a pm e xs = Inr ys \<Longrightarrow> insertion_sort (answer cmp) a pm e xs = ys"
proof (induction cmp a pm e xs rule: insertion_sortx.induct)
  case (1 cmp a pm e xs)
  show ?case using 1(1) 1(2) [unfolded insertion_sortx.simps [of cmp a pm e xs]]
    by (subst insertion_sort.simps) (auto split: sum.splits if_splits dest: ins_downx_answer)
qed

lemma scan_upx_answer: "scan_upx cmp a pa pb pc sw xs = Inr r \<Longrightarrow> scan_up (answer cmp) a pa pb pc sw xs = r"
proof (induction cmp a pa pb pc sw xs rule: scan_upx.induct)
  case (1 cmp a pa pb pc sw xs)
  show ?case using 1(1,2) 1(3) [unfolded scan_upx.simps [of cmp a pa pb pc sw xs]]
    by (subst scan_up.simps) (auto split: option.splits if_splits)
qed

lemma scan_downx_answer: "scan_downx cmp a pb pc pd sw xs = Inr r \<Longrightarrow> scan_down (answer cmp) a pb pc pd sw xs = r"
proof (induction cmp a pb pc pd sw xs rule: scan_downx.induct)
  case (1 cmp a pb pc pd sw xs)
  show ?case using 1(1,2) 1(3) [unfolded scan_downx.simps [of cmp a pb pc pd sw xs]]
    by (subst scan_down.simps) (auto split: option.splits if_splits)
qed

function part_loopx :: "('a \<Rightarrow> 'a \<Rightarrow> int option) \<Rightarrow> nat \<Rightarrow> nat \<Rightarrow> nat \<Rightarrow> nat \<Rightarrow> nat \<Rightarrow> bool \<Rightarrow> 'a list \<Rightarrow> 'a list + 'a parts" where
  "part_loopx cmp a pa pb pc pd swapped xs =
     (case scan_upx cmp a pa pb pc swapped xs of
        Inl ys \<Rightarrow> Inl ys
      | Inr (xs, pa, pb, swapped) \<Rightarrow>
          (case scan_downx cmp a pb pc pd swapped xs of
             Inl ys \<Rightarrow> Inl ys
           | Inr (xs, pc, pd, swapped) \<Rightarrow>
               if pb > pc then Inr (xs, pa, pb, pc, pd, swapped)
               else part_loopx cmp a pa (pb + 1) (pc - 1) pd True (swap_at pb pc xs)))"
  by pat_completeness auto
termination
  by (relation "measure (\<lambda>(cmp, a, pa, pb, pc, pd, swapped, xs). pc + 1 - pb)")
    (auto dest!: scan_upx_answer [THEN scan_up_bounds] scan_downx_answer [THEN scan_down_bounds])

declare part_loopx.simps [simp del]

lemma part_loopx_answer: "part_loopx cmp a pa pb pc pd sw xs = Inr r \<Longrightarrow> part_loop (answer cmp) a pa pb pc pd sw xs = r"
proof (induction cmp a pa pb pc pd sw xs rule: part_loopx.induct)
  case (1 cmp a pa pb pc pd sw xs)
  note s = 1(2) [unfolded part_loopx.simps [of cmp a pa pb pc pd sw xs]]
  obtain xs1 pa1 pb1 sw1 where u: "scan_upx cmp a pa pb pc sw xs = Inr (xs1, pa1, pb1, sw1)" using s by (auto split: sum.splits)
  obtain xs2 pc1 pd1 sw2 where d: "scan_downx cmp a pb1 pc pd sw1 xs1 = Inr (xs2, pc1, pd1, sw2)" using s u by (auto split: sum.splits)
  show ?case
  proof (cases "pb1 > pc1")
    case True
    then show ?thesis using s u d scan_upx_answer [OF u] scan_downx_answer [OF d] by (subst part_loop.simps) simp
  next
    case False
    note ih = 1(1) [OF u refl refl refl d refl refl refl False]
    show ?thesis using s u d False ih scan_upx_answer [OF u] scan_downx_answer [OF d] by (subst part_loop.simps) simp
  qed
qed

function qse_qsortx :: "('a \<Rightarrow> 'a \<Rightarrow> int option) \<Rightarrow> nat \<Rightarrow> nat \<Rightarrow> 'a list \<Rightarrow> 'a list + 'a list" where
  "qse_qsortx cmp a n xs =
     (if n < 7 then insertion_sortx cmp a (a + 1) (a + n) xs
      else
        (case choose_pivotx cmp a n xs of
           None \<Rightarrow> Inl xs
         | Some pm \<Rightarrow>
             (case part_loopx cmp a (a + 1) (a + 1) (a + (n - 1)) (a + (n - 1)) False (swap_at a pm xs) of
                Inl ys \<Rightarrow> Inl ys
              | Inr (xs, pa, pb, pc, pd, swapped) \<Rightarrow>
                  if \<not> swapped then insertion_sortx cmp a (a + 1) (a + n) xs
                  else
                    (let pn = a + n;
                         xs = gather a pn pa pb pc pd xs
                     in case (if pb - pa > 1 then qse_qsortx cmp a (pb - pa) xs else Inr xs) of
                          Inl ys \<Rightarrow> Inl ys
                        | Inr xs \<Rightarrow> if pd - pc > 1 then qse_qsortx cmp (pn - (pd - pc)) (pd - pc) xs else Inr xs))))"
  by pat_completeness auto
termination
  by (relation "measure (\<lambda>(cmp, a, n, xs). n)") (auto dest!: part_loopx_answer [THEN part_loop_bounds])

declare qse_qsortx.simps [simp del]

lemma qsort_unfold:
  assumes "\<not> n < 7" "part_loop cmp a (a + 1) (a + 1) (a + (n - 1)) (a + (n - 1)) False (swap_at a (choose_pivot cmp a n xs) xs) = (xs1, pa, pb, pc, pd, True)"
    "(if pb - pa > 1 then qse_qsort cmp a (pb - pa) (gather a (a + n) pa pb pc pd xs1) else gather a (a + n) pa pb pc pd xs1) = xs3"
  shows "qse_qsort cmp a n xs = (if pd - pc > 1 then qse_qsort cmp (a + n - (pd - pc)) (pd - pc) xs3 else xs3)"
  unfolding qse_qsort.simps [of cmp a n xs] assms(2) prod.case Let_def assms(3) using assms(1) by (simp only: if_False if_True simp_thms)

lemma qse_qsortx_answer: "qse_qsortx cmp a n xs = Inr ys \<Longrightarrow> qse_qsort (answer cmp) a n xs = ys"
proof (induction n arbitrary: a xs ys rule: less_induct)
  case (less n)
  note s = less.prems [unfolded qse_qsortx.simps [of cmp a n xs]]
  show ?case
  proof (cases "n < 7")
    case True
    then show ?thesis using s insertion_sortx_answer by (subst qse_qsort.simps) auto
  next
    case False
    then obtain pm where m: "choose_pivotx cmp a n xs = Some pm" using s by (auto split: option.splits)
    obtain xs1 pa pb pc pd sw where p: "part_loopx cmp a (a + 1) (a + 1) (a + (n - 1)) (a + (n - 1)) False (swap_at a pm xs) = Inr (xs1, pa, pb, pc, pd, sw)"
      using s m False by (auto split: sum.splits)
    note p' = part_loopx_answer [OF p] and m' = choose_pivotx_answer [OF m]
    have b: "a + 1 \<le> pa" "pb \<le> a + n" "a \<le> pc" "pd \<le> a + (n - 1)" using part_loop_bounds [OF p'] False by auto
    show ?thesis
    proof (cases sw)
      case False
      then show ?thesis using s m p m' p' \<open>\<not> n < 7\<close> insertion_sortx_answer by (subst qse_qsort.simps) auto
    next
      case True
      define xs2 where "xs2 = gather a (a + n) pa pb pc pd xs1"
      have e: "(case (if pb - pa > 1 then qse_qsortx cmp a (pb - pa) xs2 else Inr xs2) of Inl ys \<Rightarrow> Inl ys
          | Inr xs \<Rightarrow> if pd - pc > 1 then qse_qsortx cmp (a + n - (pd - pc)) (pd - pc) xs else Inr xs) = Inr ys"
        using s False True unfolding m option.case p sum.case prod.case Let_def xs2_def by (simp only: if_False if_True simp_thms)
      obtain xs3 where l: "(if pb - pa > 1 then qse_qsortx cmp a (pb - pa) xs2 else Inr xs2) = Inr xs3" using e by (auto split: sum.splits)
      have l': "(if pb - pa > 1 then qse_qsort (answer cmp) a (pb - pa) xs2 else xs2) = xs3"
        using l less.IH [of "pb - pa" a xs2 xs3] b False by (auto split: if_splits)
      have "(if pd - pc > 1 then qse_qsort (answer cmp) (a + n - (pd - pc)) (pd - pc) xs3 else xs3) = ys"
        using e l less.IH [of "pd - pc" "a + n - (pd - pc)" xs3 ys] b False by (auto split: if_splits)
      then show ?thesis using qsort_unfold [of n "answer cmp" a xs xs1 pa pb pc pd xs3] p' m' True False l' [unfolded xs2_def] by simp
    qed
  qed
qed

text \<open>A comparator that always answers.\<close>

definition always :: "('a \<Rightarrow> 'a \<Rightarrow> int) \<Rightarrow> 'a \<Rightarrow> 'a \<Rightarrow> int option" where
  "always f x y = Some (f x y)"

lemma answer_always [simp]: "always f x y = Some (f x y)" "answer (always f) = f"
  by (simp_all add: always_def answer_def fun_eq_iff)

lemma always_ins_down: "\<exists>ys. ins_downx (always f) a pl xs = Inr ys"
proof (induction "always f" a pl xs rule: ins_downx.induct)
  case (1 a pl xs)
  then show ?case by (subst ins_downx.simps) auto
qed

lemma always_insertion: "\<exists>ys. insertion_sortx (always f) a pm e xs = Inr ys"
proof (induction "always f" a pm e xs rule: insertion_sortx.induct)
  case (1 a pm e xs)
  obtain ys where "ins_downx (always f) a pm xs = Inr ys" using always_ins_down by blast
  then show ?case using 1 by (subst insertion_sortx.simps) auto
qed

lemma always_pivot: "\<exists>m. choose_pivotx (always f) a n xs = Some m"
proof -
  have "\<exists>m. med3x (always f) xs a b c = Some m" for a b c by (simp add: med3x_def)
  then show ?thesis unfolding choose_pivotx_def Let_def by (metis Option.bind.bind_lunit)
qed

lemma always_scan_up: "\<exists>r. scan_upx (always f) a pa pb pc sw xs = Inr r"
proof (induction "always f" a pa pb pc sw xs rule: scan_upx.induct)
  case (1 a pa pb pc sw xs)
  then show ?case by (subst scan_upx.simps) auto
qed

lemma always_scan_down: "\<exists>r. scan_downx (always f) a pb pc pd sw xs = Inr r"
proof (induction "always f" a pb pc pd sw xs rule: scan_downx.induct)
  case (1 a pb pc pd sw xs)
  then show ?case by (subst scan_downx.simps) auto
qed

lemma always_part: "\<exists>r. part_loopx (always f) a pa pb pc pd sw xs = Inr r"
proof (induction "always f" a pa pb pc pd sw xs rule: part_loopx.induct)
  case (1 a pa pb pc pd sw xs)
  obtain xs1 pa1 pb1 sw1 where u: "scan_upx (always f) a pa pb pc sw xs = Inr (xs1, pa1, pb1, sw1)" using always_scan_up by (metis prod_cases4)
  obtain xs2 pc1 pd1 sw2 where d: "scan_downx (always f) a pb1 pc pd sw1 xs1 = Inr (xs2, pc1, pd1, sw2)" using always_scan_down by (metis prod_cases4)
  show ?case using 1 [OF u refl refl refl d refl refl refl] u d by (subst part_loopx.simps) simp
qed

lemma part_loop_start:
  assumes "\<not> n < 7" "part_loop cmp a (a + 1) (a + 1) (a + (n - 1)) (a + (n - 1)) False zs = (ys, pa, pb, pc, pd, sw)"
  shows "a + 1 \<le> pa \<and> pa \<le> pb \<and> pb \<le> a + n \<and> pb \<le> pc + 2 \<and> a \<le> pc \<and> pc \<le> pd \<and> pd < a + n \<and> pb - pa < n \<and> pd - pc < n"
proof -
  have n: "a + (n - 1) + 1 = a + n" "a < a + 1" "a + 1 \<le> a + (n - 1) + 1" "a \<le> a + (n - 1)" "a + 1 \<le> a + (n - 1) + 2" using assms(1) by auto
  show ?thesis using part_loop_bounds [OF assms(2) n(2,3,4) order_refl] n assms(1) by linarith
qed

lemma qsortx_always: "\<exists>ys. qse_qsortx (always f) a n xs = Inr ys"
proof (induction n arbitrary: a xs rule: less_induct)
  case (less n)
  show ?case
  proof (cases "n < 7")
    case True
    then show ?thesis by (subst qse_qsortx.simps) (simp add: always_insertion)
  next
    case False
    obtain pm where m: "choose_pivotx (always f) a n xs = Some pm" using always_pivot by blast
    obtain xs1 pa pb pc pd sw where p: "part_loopx (always f) a (a + 1) (a + 1) (a + (n - 1)) (a + (n - 1)) False (swap_at a pm xs) = Inr (xs1, pa, pb, pc, pd, sw)"
      using always_part by (metis prod_cases6)
    have b: "pb - pa < n" "pd - pc < n" using part_loop_start [OF False part_loopx_answer [OF p]] by auto
    let ?xs = "gather a (a + n) pa pb pc pd xs1"
    obtain xs3 where l: "(if pb - pa > 1 then qse_qsortx (always f) a (pb - pa) ?xs else Inr ?xs) = Inr xs3"
      using less.IH [OF b(1), of a ?xs] by (metis (full_types))
    obtain xs4 where r: "(if pd - pc > 1 then qse_qsortx (always f) (a + n - (pd - pc)) (pd - pc) xs3 else Inr xs3) = Inr xs4"
      using less.IH [OF b(2), of "a + n - (pd - pc)" xs3] by (metis (full_types))
    show ?thesis
      unfolding qse_qsortx.simps [of "always f" a n xs] m option.case p sum.case prod.case Let_def l r
      by (simp add: always_insertion)
  qed
qed

section \<open>Members are only exchanged\<close>

definition permuted :: "nat \<Rightarrow> nat \<Rightarrow> 'a list \<Rightarrow> 'a list \<Rightarrow> bool" where
  "permuted a e xs ys \<longleftrightarrow> length ys = length xs \<and> mset ys = mset xs \<and> (\<forall>i < length xs. i < a \<or> e \<le> i \<longrightarrow> ys ! i = xs ! i)"

lemma permuted_refl: "permuted a e xs xs"
  by (simp add: permuted_def)

lemma permuted_trans: "permuted a e xs ys \<Longrightarrow> permuted a e ys zs \<Longrightarrow> permuted a e xs zs"
  by (simp add: permuted_def)

lemma permuted_wider: "permuted a e xs ys \<Longrightarrow> b \<le> a \<Longrightarrow> e \<le> f \<Longrightarrow> permuted b f xs ys"
  by (auto simp: permuted_def)

lemma permuted_length: "permuted a e xs ys \<Longrightarrow> length ys = length xs"
  by (simp add: permuted_def)

lemma permuted_swap: "a \<le> i \<Longrightarrow> i < e \<Longrightarrow> a \<le> j \<Longrightarrow> j < e \<Longrightarrow> e \<le> length xs \<Longrightarrow> permuted a e xs (swap_at i j xs)"
  by (auto simp: permuted_def swap_at_def mset_swap nth_list_update)

lemma length_swap [simp]: "length (swap_at i j xs) = length xs"
  by (simp add: swap_at_def)

lemma permuted_vecswap: "a \<le> i \<Longrightarrow> i + n \<le> e \<Longrightarrow> a \<le> j \<Longrightarrow> j + n \<le> e \<Longrightarrow> e \<le> length xs \<Longrightarrow> permuted a e xs (vecswap i j n xs)"
proof (induction i j n xs rule: vecswap.induct)
  case (2 i j n xs)
  then show ?case using permuted_trans [OF permuted_swap [of a i e j xs]] by simp
qed (simp add: permuted_refl)

lemma permuted_gather:
  assumes "a \<le> pa" "pa \<le> pb" "pb \<le> pn" "pb \<le> pc + 2" "a \<le> pc" "pc \<le> pd" "pd < pn" "pn \<le> length xs"
  shows "permuted a pn xs (gather a pn pa pb pc pd xs)"
proof -
  define r where "r = min (pa - a) (pb - pa)"
  define q where "q = min (pd - pc) (pn - pd - 1)"
  have r: "a + r \<le> pa" "pa + r \<le> pb" using assms by (auto simp: r_def)
  have q: "pc + q \<le> pd" "pd + q + 1 \<le> pn" using assms by (auto simp: q_def)
  have 1: "permuted a pn xs (vecswap a (pb - r) r xs)" using assms r by (intro permuted_vecswap) auto
  have "pb + q \<le> pn" using q assms by (cases "q = 0") auto
  then have "permuted a pn (vecswap a (pb - r) r xs) (vecswap pb (pn - q) q (vecswap a (pb - r) r xs))"
    using assms q permuted_length [OF 1] by (intro permuted_vecswap) auto
  then show ?thesis using permuted_trans [OF 1] by (simp add: gather_def Let_def r_def q_def)
qed

text \<open>The array after a loop, also when the comparator failed.\<close>

definition left_with :: "('b \<Rightarrow> 'a list) \<Rightarrow> 'a list + 'b \<Rightarrow> 'a list" where
  "left_with f r = (case r of Inl ys \<Rightarrow> ys | Inr b \<Rightarrow> f b)"

lemma left_with_simps [simp]: "left_with f (Inl ys) = ys" "left_with f (Inr b) = f b"
  by (simp_all add: left_with_def)

lemma permuted_ins_down: "pl < e \<Longrightarrow> a \<le> pl \<Longrightarrow> e \<le> length xs \<Longrightarrow> permuted a e xs (left_with (\<lambda>y. y) (ins_downx cmp a pl xs))"
proof (induction cmp a pl xs rule: ins_downx.induct)
  case (1 cmp a pl xs)
  have "permuted a e xs (left_with (\<lambda>y. y) (ins_downx cmp a (pl - 1) (swap_at pl (pl - 1) xs)))" if "a < pl" "cmp (xs ! (pl - 1)) (xs ! pl) = Some n" "\<not> n \<le> 0" for n
    by (rule permuted_trans [OF permuted_swap 1(1) [OF that]]) (use 1(2-) that(1) in auto)
  then show ?case by (subst ins_downx.simps) (auto simp: permuted_refl split: option.split)
qed

lemma permuted_insertion: "e \<le> length xs \<Longrightarrow> a \<le> pm \<Longrightarrow> permuted a e xs (left_with (\<lambda>y. y) (insertion_sortx cmp a pm e xs))"
proof (induction cmp a pm e xs rule: insertion_sortx.induct)
  case (1 cmp a pm e xs)
  show ?case
  proof (cases "pm < e")
    case True
    have i: "permuted a e xs (left_with (\<lambda>y. y) (ins_downx cmp a pm xs))" using permuted_ins_down [OF True] 1(2,3) by blast
    show ?thesis
    proof (cases "ins_downx cmp a pm xs")
      case (Inl ys)
      then show ?thesis using i True by (subst insertion_sortx.simps) simp
    next
      case (Inr ys)
      then show ?thesis using i True permuted_trans [OF _ 1(1) [OF True Inr]] 1(2,3) permuted_length [OF i] by (subst insertion_sortx.simps) simp
    qed
  next
    case False
    then show ?thesis by (subst insertion_sortx.simps) (simp add: permuted_refl)
  qed
qed

lemma permuted_scan_up: "pc < e \<Longrightarrow> a \<le> pa \<Longrightarrow> pa \<le> pb \<Longrightarrow> e \<le> length xs \<Longrightarrow> permuted a e xs (left_with fst (scan_upx cmp a pa pb pc sw xs))"
proof (induction cmp a pa pb pc sw xs rule: scan_upx.induct)
  case (1 cmp a pa pb pc sw xs)
  have "permuted a e xs (left_with fst (scan_upx cmp a (pa + 1) (pb + 1) pc True (swap_at pa pb xs)))" if "pb \<le> pc" "cmp (xs ! pb) (xs ! a) = Some 0"
    by (rule permuted_trans [OF permuted_swap 1(1) [OF that]]) (use 1(3-) that(1) in auto)
  then show ?case using 1(2-) by (subst scan_upx.simps) (auto simp: permuted_refl split: option.split)
qed

lemma permuted_scan_down: "pd < e \<Longrightarrow> pc \<le> pd \<Longrightarrow> e \<le> length xs \<Longrightarrow> permuted a e xs (left_with fst (scan_downx cmp a pb pc pd sw xs))"
proof (induction cmp a pb pc pd sw xs rule: scan_downx.induct)
  case (1 cmp a pb pc pd sw xs)
  have "permuted a e xs (left_with fst (scan_downx cmp a pb (pc - 1) (pd - 1) True (swap_at pc pd xs)))" if "a < pb \<and> pb \<le> pc" "cmp (xs ! pc) (xs ! a) = Some 0"
    by (rule permuted_trans [OF permuted_swap 1(1) [OF that]]) (use 1(3-) that(1) in auto)
  then show ?case using 1(2-) by (subst scan_downx.simps) (auto simp: permuted_refl split: option.split)
qed

lemma permuted_part:
  "a < pb \<Longrightarrow> pa \<le> pb \<Longrightarrow> a \<le> pa \<Longrightarrow> a \<le> pc \<Longrightarrow> pc \<le> pd \<Longrightarrow> pb \<le> pd + 1 \<Longrightarrow> pd < e \<Longrightarrow> e \<le> length xs \<Longrightarrow>
   permuted a e xs (left_with fst (part_loopx cmp a pa pb pc pd sw xs))"
proof (induction cmp a pa pb pc pd sw xs rule: part_loopx.induct)
  case (1 cmp a pa pb pc pd sw xs)
  have u: "permuted a e xs (left_with fst (scan_upx cmp a pa pb pc sw xs))" using 1(2-) by (intro permuted_scan_up) auto
  show ?case
  proof (cases "scan_upx cmp a pa pb pc sw xs")
    case (Inl ys)
    then show ?thesis using u by (subst part_loopx.simps) simp
  next
    case (Inr r)
    then obtain xs1 pa1 pb1 sw1 where u1: "scan_upx cmp a pa pb pc sw xs = Inr (xs1, pa1, pb1, sw1)" by (cases r) auto
    have u': "permuted a e xs xs1" using u u1 by simp
    note b1 = scan_up_bounds [OF scan_upx_answer [OF u1]]
    have d: "permuted a e xs (left_with fst (scan_downx cmp a pb1 pc pd sw1 xs1))"
      using 1(2-) permuted_length [OF u'] by (intro permuted_trans [OF u' permuted_scan_down]) auto
    show ?thesis
    proof (cases "scan_downx cmp a pb1 pc pd sw1 xs1")
      case (Inl ys)
      then show ?thesis using d u1 by (subst part_loopx.simps) simp
    next
      case (Inr r)
      then obtain xs2 pc1 pd1 sw2 where d1: "scan_downx cmp a pb1 pc pd sw1 xs1 = Inr (xs2, pc1, pd1, sw2)" by (cases r) auto
      note b2 = scan_down_bounds [OF scan_downx_answer [OF d1]]
      have p: "permuted a e xs xs2" using d d1 by simp
      show ?thesis
      proof (cases "pb1 > pc1")
        case True
        then show ?thesis using p u1 d1 by (subst part_loopx.simps) simp
      next
        case False
        have "permuted a e xs (swap_at pb1 pc1 xs2)"
          using False b1 b2 1(2-) permuted_length [OF p] by (intro permuted_trans [OF p permuted_swap]) auto
        moreover have "permuted a e (swap_at pb1 pc1 xs2) (left_with fst (part_loopx cmp a pa1 (pb1 + 1) (pc1 - 1) pd1 True (swap_at pb1 pc1 xs2)))"
          using False b1 b2 1(2-) permuted_length [OF p] by (intro 1(1) [OF u1 refl refl refl d1 refl refl refl False]) auto
        ultimately show ?thesis using permuted_trans u1 d1 False by (subst part_loopx.simps) auto
      qed
    qed
  qed
qed

lemma choose_pivotx_range: "choose_pivotx cmp a n xs = Some m \<Longrightarrow> 0 < n \<Longrightarrow> a \<le> m \<and> m < a + n"
proof -
  assume p: "choose_pivotx cmp a n xs = Some m" and n: "0 < n"
  have m3: "m \<in> {a, b, c}" if "med3x cmp xs a b c = Some m" for a b c m
    using that by (auto simp: med3x_def split: Option.bind_splits if_splits)
  define d where "d = n div 8"
  define h where "h = n div 2"
  have d: "d \<le> h" "h + d < n" "2 * d < n" "h < n" using n by (auto simp: d_def h_def)
  show ?thesis
  proof (cases "n > 40")
    case True
    then obtain pl pm pn where s: "med3x cmp xs a (a + d) (a + 2 * d) = Some pl" "med3x cmp xs (a + h - d) (a + h) (a + h + d) = Some pm"
      "med3x cmp xs (a + (n - 1) - 2 * d) (a + (n - 1) - d) (a + (n - 1)) = Some pn" "med3x cmp xs pl pm pn = Some m"
      using p by (auto simp: choose_pivotx_def Let_def d_def h_def split: Option.bind_splits)
    have "a \<le> pl \<and> pl < a + n" "a \<le> pm \<and> pm < a + n" "a \<le> pn \<and> pn < a + n" using m3 [OF s(1)] m3 [OF s(2)] m3 [OF s(3)] d n by auto
    then show ?thesis using m3 [OF s(4)] by auto
  next
    case False
    then have "m = a + h \<or> med3x cmp xs a (a + h) (a + (n - 1)) = Some m" using p by (auto simp: choose_pivotx_def Let_def h_def split: if_splits)
    then show ?thesis using m3 [of a "a + h" "a + (n - 1)" m] d n by auto
  qed
qed

lemma permuted_qsortx:
  "a + n \<le> length xs \<Longrightarrow> permuted a (a + n) xs (left_with (\<lambda>y. y) (qse_qsortx cmp a n xs))"
proof (induction n arbitrary: a xs rule: less_induct)
  case (less n)
  show ?case
  proof (cases "n < 7 \<or> choose_pivotx cmp a n xs = None")
    case True
    then show ?thesis using permuted_insertion [OF less.prems, of a "a + 1" cmp] by (subst qse_qsortx.simps) (auto simp: permuted_refl)
  next
    case False
    then obtain pm where m: "choose_pivotx cmp a n xs = Some pm" and n: "\<not> n < 7" by auto
    have s: "permuted a (a + n) xs (swap_at a pm xs)" using choose_pivotx_range [OF m] n less.prems by (intro permuted_swap) auto
    let ?p = "part_loopx cmp a (a + 1) (a + 1) (a + (n - 1)) (a + (n - 1)) False (swap_at a pm xs)"
    have p: "permuted a (a + n) xs (left_with fst ?p)"
      using n less.prems by (intro permuted_trans [OF s permuted_part]) auto
    show ?thesis
    proof (cases ?p)
      case (Inl ys)
      then show ?thesis using p m n by (subst qse_qsortx.simps) simp
    next
      case (Inr r)
      then obtain xs1 pa pb pc pd sw where r: "?p = Inr (xs1, pa, pb, pc, pd, sw)" by (cases r) auto
      have 1: "permuted a (a + n) xs xs1" using p r by simp
      then have len: "a + n \<le> length xs1" using less.prems permuted_length by metis
      note b = part_loop_start [OF n part_loopx_answer [OF r]]
      let ?g = "gather a (a + n) pa pb pc pd xs1"
      have 2: "permuted a (a + n) xs ?g" using b len by (intro permuted_trans [OF 1 permuted_gather]) auto
      let ?l = "if pb - pa > 1 then qse_qsortx cmp a (pb - pa) ?g else Inr ?g"
      have "permuted a (a + n) ?g (left_with (\<lambda>y. y) ?l)"
        using less.IH [of "pb - pa" a ?g] b less.prems permuted_length [OF 2] permuted_wider [of a "a + (pb - pa)" ?g _ a "a + n"] by (auto simp: permuted_refl)
      then have 3: "permuted a (a + n) xs (left_with (\<lambda>y. y) ?l)" by (rule permuted_trans [OF 2])
      have 4: "permuted a (a + n) zs (left_with (\<lambda>y. y) (if pd - pc > 1 then qse_qsortx cmp (a + n - (pd - pc)) (pd - pc) zs else Inr zs))" if "length zs = length xs" for zs
        using less.IH [of "pd - pc" "a + n - (pd - pc)" zs] b less.prems that permuted_wider [of "a + n - (pd - pc)" "a + n" zs _ a "a + n"] by (auto simp: permuted_refl)
      have "left_with (\<lambda>y. y) (qse_qsortx cmp a n xs) = left_with (\<lambda>y. y)
          (if \<not> sw then insertion_sortx cmp a (a + 1) (a + n) xs1
           else case ?l of Inl ys \<Rightarrow> Inl ys | Inr zs \<Rightarrow> if pd - pc > 1 then qse_qsortx cmp (a + n - (pd - pc)) (pd - pc) zs else Inr zs)"
        unfolding qse_qsortx.simps [of cmp a n xs] m option.case r sum.case prod.case Let_def using n by (simp only: if_False)
      moreover have "permuted a (a + n) xs (left_with (\<lambda>y. y) (case ?l of Inl ys \<Rightarrow> Inl ys | Inr zs \<Rightarrow> if pd - pc > 1 then qse_qsortx cmp (a + n - (pd - pc)) (pd - pc) zs else Inr zs))"
      proof (cases ?l)
        case (Inl ys)
        then show ?thesis using 3 by (simp only: sum.case left_with_simps)
      next
        case (Inr zs)
        then have "permuted a (a + n) xs zs" using 3 by (simp only: left_with_simps)
        then show ?thesis unfolding Inr sum.case using permuted_trans 4 permuted_length by metis
      qed
      moreover have "permuted a (a + n) xs (left_with (\<lambda>y. y) (insertion_sortx cmp a (a + 1) (a + n) xs1))"
        by (rule permuted_trans [OF 1 permuted_insertion]) (use len in auto)
      ultimately show ?thesis by (cases sw) simp_all
    qed
  qed
qed

section \<open>The result is sorted\<close>

lemma permuted_qsort: "a + n \<le> length xs \<Longrightarrow> permuted a (a + n) xs (qse_qsort f a n xs)"
  using permuted_qsortx [of a n xs "always f"] qsortx_always [of f a n xs] qse_qsortx_answer [of "always f" a n xs] by auto

lemma permuted_insertion_sort: "e \<le> length xs \<Longrightarrow> a \<le> pm \<Longrightarrow> permuted a e xs (insertion_sort f a pm e xs)"
  using permuted_insertion [of e xs a pm "always f"] always_insertion [of f a pm e xs] insertion_sortx_answer [of "always f" a pm e xs] by auto

lemma permuted_ins: "pl < e \<Longrightarrow> a \<le> pl \<Longrightarrow> e \<le> length xs \<Longrightarrow> permuted a e xs (ins_down f a pl xs)"
  using permuted_ins_down [of pl e a xs "always f"] always_ins_down [of f a pl xs] ins_downx_answer [of "always f" a pl xs] by auto

lemma permuted_set: "permuted a e xs ys \<Longrightarrow> set ys = set xs"
  unfolding permuted_def by (metis set_mset_mset)

text \<open>What holds of all members of a range holds after they have been permuted.\<close>

lemma permuted_slice:
  assumes "permuted a e xs ys" "e \<le> length xs" "a \<le> e"
  shows "mset (take (e - a) (drop a ys)) = mset (take (e - a) (drop a xs))"
proof -
  have s: "mset zs = mset (take a zs) + mset (take (e - a) (drop a zs)) + mset (drop e zs)" if "e \<le> length zs" for zs :: "'a list"
    using that assms(3) by (metis append_take_drop_id drop_drop le_add_diff_inverse2 mset_append union_assoc)
  have t: "take a ys = take a xs" "drop e ys = drop e xs" using assms by (auto simp: permuted_def intro!: nth_equalityI)
  have "mset ys = mset xs" "length ys = length xs" using assms(1) by (auto simp: permuted_def)
  then show ?thesis using s [of xs] s [of ys] t assms(2) by simp
qed

lemma slice_all: "e \<le> length xs \<Longrightarrow> (\<forall>x \<in> set (take (e - a) (drop a xs)). P x) \<longleftrightarrow> (\<forall>i. a \<le> i \<longrightarrow> i < e \<longrightarrow> P (xs ! i))"
proof -
  assume e: "e \<le> length xs"
  have "set (take (e - a) (drop a xs)) = {xs ! i |i. a \<le> i \<and> i < e}"
  proof (cases "a \<le> e")
    case True
    have "x \<in> set (take (e - a) (drop a xs)) \<longleftrightarrow> (\<exists>i. a \<le> i \<and> i < e \<and> x = xs ! i)" for x
    proof
      assume "x \<in> set (take (e - a) (drop a xs))"
      then obtain k where "k < e - a" "x = xs ! (a + k)" using e by (auto simp: in_set_conv_nth)
      then show "\<exists>i. a \<le> i \<and> i < e \<and> x = xs ! i" by (intro exI [of _ "a + k"]) auto
    next
      assume "\<exists>i. a \<le> i \<and> i < e \<and> x = xs ! i"
      then obtain i where "a \<le> i" "i < e" "x = xs ! i" by blast
      then show "x \<in> set (take (e - a) (drop a xs))" using e by (auto simp: in_set_conv_nth intro!: exI [of _ "i - a"])
    qed
    then show ?thesis by auto
  qed auto
  then show ?thesis by auto
qed

lemma permuted_all:
  assumes "permuted a e xs ys" "e \<le> length xs" "\<forall>i. a \<le> i \<longrightarrow> i < e \<longrightarrow> P (xs ! i)"
  shows "\<forall>i. a \<le> i \<longrightarrow> i < e \<longrightarrow> P (ys ! i)"
proof (cases "a \<le> e")
  case True
  have "set (take (e - a) (drop a ys)) = set (take (e - a) (drop a xs))" using permuted_slice [OF assms(1,2) True] by (metis set_mset_mset)
  then show ?thesis using slice_all [OF assms(2), of a P] slice_all [of e ys a P] assms(2,3) permuted_length [OF assms(1)] by auto
qed auto

definition sorted_on :: "('a \<Rightarrow> 'a \<Rightarrow> int) \<Rightarrow> nat \<Rightarrow> nat \<Rightarrow> 'a list \<Rightarrow> bool" where
  "sorted_on cmp a e xs \<longleftrightarrow> (\<forall>i j. a \<le> i \<and> i < j \<and> j < e \<longrightarrow> cmp (xs ! i) (xs ! j) \<le> 0)"

text \<open>The members from \<open>a\<close> to \<open>pm\<close> are sorted but for the one at \<open>pl\<close>, which is not larger than those after it.\<close>

definition sinking :: "('a \<Rightarrow> 'a \<Rightarrow> int) \<Rightarrow> nat \<Rightarrow> nat \<Rightarrow> nat \<Rightarrow> 'a list \<Rightarrow> bool" where
  "sinking cmp a pl pm xs \<longleftrightarrow> (\<forall>i j. a \<le> i \<and> i < j \<and> j \<le> pm \<and> i \<noteq> pl \<and> j \<noteq> pl \<longrightarrow> cmp (xs ! i) (xs ! j) \<le> 0) \<and>
     (\<forall>j. pl < j \<and> j \<le> pm \<longrightarrow> cmp (xs ! pl) (xs ! j) \<le> 0)"

text \<open>The members are equal to the one at \<open>a\<close> before \<open>pa\<close> and after \<open>pd\<close>, smaller from \<open>pa\<close> to \<open>pb\<close> and larger from \<open>pc\<close> to \<open>pd\<close>.\<close>

definition divided :: "('a \<Rightarrow> 'a \<Rightarrow> int) \<Rightarrow> nat \<Rightarrow> nat \<Rightarrow> nat \<Rightarrow> nat \<Rightarrow> nat \<Rightarrow> nat \<Rightarrow> 'a list \<Rightarrow> bool" where
  "divided cmp a e pa pb pc pd xs \<longleftrightarrow> a < pa \<and> pa \<le> pb \<and> pb \<le> pc + 1 \<and> pc \<le> pd \<and> pd < e \<and> e \<le> length xs \<and>
     (\<forall>i. a \<le> i \<and> i < pa \<longrightarrow> cmp (xs ! i) (xs ! a) = 0) \<and> (\<forall>i. pa \<le> i \<and> i < pb \<longrightarrow> cmp (xs ! i) (xs ! a) < 0) \<and>
     (\<forall>i. pc < i \<and> i \<le> pd \<longrightarrow> cmp (xs ! i) (xs ! a) > 0) \<and> (\<forall>i. pd < i \<and> i < e \<longrightarrow> cmp (xs ! i) (xs ! a) = 0)"

lemma nth_swap: "i < length xs \<Longrightarrow> j < length xs \<Longrightarrow> swap_at i j xs ! k = (if k = i then xs ! j else if k = j then xs ! i else xs ! k)"
  by (auto simp: swap_at_def nth_list_update)

lemma divided_up:
  assumes "divided cmp a e pa pb pc pd xs" "pb \<le> pc"
  shows "cmp (xs ! pb) (xs ! a) < 0 \<Longrightarrow> divided cmp a e pa (pb + 1) pc pd xs"
    "cmp (xs ! pb) (xs ! a) = 0 \<Longrightarrow> divided cmp a e (pa + 1) (pb + 1) pc pd (swap_at pa pb xs)"
proof -
  show "divided cmp a e pa (pb + 1) pc pd xs" if "cmp (xs ! pb) (xs ! a) < 0"
    using assms that by (auto simp: divided_def less_Suc_eq)
  show "divided cmp a e (pa + 1) (pb + 1) pc pd (swap_at pa pb xs)" if "cmp (xs ! pb) (xs ! a) = 0"
  proof -
    have l: "pa < length xs" "pb < length xs" "a < pa" "pa \<le> pb" using assms by (auto simp: divided_def)
    then show ?thesis using assms that unfolding divided_def nth_swap [OF l(1,2)] by (auto simp: less_Suc_eq)
  qed
qed

lemma divided_down:
  assumes "divided cmp a e pa pb pc pd xs" "pb \<le> pc"
  shows "cmp (xs ! pc) (xs ! a) > 0 \<Longrightarrow> divided cmp a e pa pb (pc - 1) pd xs"
    "cmp (xs ! pc) (xs ! a) = 0 \<Longrightarrow> divided cmp a e pa pb (pc - 1) (pd - 1) (swap_at pc pd xs)"
proof -
  have q: "i = pc \<or> pc < i" if "pc - 1 < i" for i using that by auto
  have l: "pc < length xs" "pd < length xs" "a < pc" "pc \<le> pd" "a < pa" "pa \<le> pb" using assms by (auto simp: divided_def)
  show "divided cmp a e pa pb (pc - 1) pd xs" if "cmp (xs ! pc) (xs ! a) > 0"
    using assms that l q by (auto simp: divided_def)
  show "divided cmp a e pa pb (pc - 1) (pd - 1) (swap_at pc pd xs)" if "cmp (xs ! pc) (xs ! a) = 0"
    using assms that l q unfolding divided_def nth_swap [OF l(1,2)] by (auto; metis One_nat_def q diff_le_self le_trans)
qed

lemma scan_up_divided:
  "scan_up cmp a pa pb pc sw xs = (ys, pa', pb', sw') \<Longrightarrow> divided cmp a e pa pb pc pd xs \<Longrightarrow>
   divided cmp a e pa' pb' pc pd ys \<and> (pb' \<le> pc \<longrightarrow> cmp (ys ! pb') (ys ! a) > 0)"
proof (induction cmp a pa pb pc sw xs rule: scan_up.induct)
  case (1 cmp a pa pb pc sw xs)
  note s = 1(3) [unfolded scan_up.simps [of cmp a pa pb pc sw xs]]
  show ?case
  proof (cases "pb \<le> pc \<and> cmp (xs ! pb) (xs ! a) \<le> 0")
    case c: True
    then show ?thesis using s 1(1) [OF c] 1(2) [OF c] divided_up [OF 1(4)] by (cases "cmp (xs ! pb) (xs ! a) = 0") auto
  next
    case False
    then show ?thesis using s 1(4) by auto
  qed
qed

lemma scan_down_divided:
  "scan_down cmp a pb pc pd sw xs = (ys, pc', pd', sw') \<Longrightarrow> divided cmp a e pa pb pc pd xs \<Longrightarrow>
   divided cmp a e pa pb pc' pd' ys \<and> (pb \<le> pc' \<longrightarrow> cmp (ys ! pc') (ys ! a) < 0 \<and> ys ! pb = xs ! pb) \<and> ys ! a = xs ! a"
proof (induction cmp a pb pc pd sw xs rule: scan_down.induct)
  case (1 cmp a pb pc pd sw xs)
  note s = 1(3) [unfolded scan_down.simps [of cmp a pb pc pd sw xs]]
  have b: "a < pb" "pc \<le> pd" "pd < length xs" using 1(4) by (auto simp: divided_def)
  show ?case
  proof (cases "a < pb \<and> pb \<le> pc \<and> cmp (xs ! pc) (xs ! a) \<ge> 0")
    case c: True
    note d = divided_down [OF 1(4)]
    show ?thesis
    proof (cases "cmp (xs ! pc) (xs ! a) = 0")
      case True
      have k: "swap_at pc pd xs ! a = xs ! a" "pb < pc \<longrightarrow> swap_at pc pd xs ! pb = xs ! pb" using b c nth_swap [of pc xs pd] by auto
      have "scan_down cmp a pb (pc - 1) (pd - 1) True (swap_at pc pd xs) = (ys, pc', pd', sw')" using s c True by simp
      then show ?thesis using 1(1) [OF c True] d(2) c True k scan_down_bounds [of cmp a pb "pc - 1" "pd - 1" True "swap_at pc pd xs" ys pc' pd' sw'] by auto
    next
      case False
      then show ?thesis using s 1(2) [OF c False] d(1) c by auto
    qed
  next
    case False
    then show ?thesis using s 1(4) b by auto
  qed
qed

lemma divided_swap:
  assumes "divided cmp a e pa pb pc pd xs" "pb \<le> pc" "cmp (xs ! pb) (xs ! a) > 0" "cmp (xs ! pc) (xs ! a) < 0"
  shows "divided cmp a e pa (pb + 1) (pc - 1) pd (swap_at pb pc xs)"
proof -
  have ne: "pb \<noteq> pc" using assms(3,4) by auto
  have l: "pb < length xs" "pc < length xs" "a < pb" using assms(1,2) by (auto simp: divided_def)
  have q: "i = pc \<or> pc < i" if "pc - 1 < i" for i using that by auto
  show ?thesis using assms ne l q unfolding divided_def nth_swap [OF l(1,2)] by (auto simp: less_Suc_eq; metis One_nat_def q)
qed

lemma part_loop_divided:
  "part_loop cmp a pa pb pc pd sw xs = (ys, pa', pb', pc', pd', sw') \<Longrightarrow> divided cmp a e pa pb pc pd xs \<Longrightarrow>
   divided cmp a e pa' pb' pc' pd' ys \<and> pb' = pc' + 1"
proof (induction cmp a pa pb pc pd sw xs rule: part_loop.induct)
  case (1 cmp a pa pb pc pd sw xs)
  obtain xs1 pa1 pb1 sw1 where u: "scan_up cmp a pa pb pc sw xs = (xs1, pa1, pb1, sw1)" by (metis prod_cases4)
  obtain xs2 pc1 pd1 sw2 where d: "scan_down cmp a pb1 pc pd sw1 xs1 = (xs2, pc1, pd1, sw2)" by (metis prod_cases4)
  note s = 1(2) [unfolded part_loop.simps [of cmp a pa pb pc pd sw xs] u prod.case d]
  note u' = scan_up_divided [OF u 1(3)]
  note d' = scan_down_divided [OF d conjunct1 [OF u']] and b = scan_down_bounds [OF d]
  show ?case
  proof (cases "pb1 > pc1")
    case True
    then show ?thesis using s d' by (auto simp: divided_def)
  next
    case False
    have "divided cmp a e pa1 (pb1 + 1) (pc1 - 1) pd1 (swap_at pb1 pc1 xs2)" using False u' d' b by (intro divided_swap) auto
    then show ?thesis using 1(1) [OF u [symmetric] refl refl d [symmetric] refl refl False] s False by auto
  qed
qed

lemma vecswap_nth:
  "i + n \<le> j \<Longrightarrow> j + n \<le> length xs \<Longrightarrow>
   vecswap i j n xs ! k = (if i \<le> k \<and> k < i + n then xs ! (j + (k - i)) else if j \<le> k \<and> k < j + n then xs ! (i + (k - j)) else xs ! k)"
proof (induction i j n xs rule: vecswap.induct)
  case (2 i j n xs)
  have l: "i < length xs" "j < length xs" "length (swap_at i j xs) = length xs" using 2(2,3) by (auto simp: swap_at_def)
  note s = nth_swap [OF l(1,2)]
  have e: "j + 1 + (k - (i + 1)) = j + (k - i)" if "i + 1 \<le> k" using that by simp
  have f: "i + 1 + (k - (j + 1)) = i + (k - j)" if "j + 1 \<le> k" using that by simp
  have v: "vecswap i j (Suc n) xs ! k = (if i + 1 \<le> k \<and> k < i + 1 + n then swap_at i j xs ! (j + (k - i)) else if j + 1 \<le> k \<and> k < j + 1 + n then swap_at i j xs ! (i + (k - j)) else swap_at i j xs ! k)"
    using 2(1) 2(2,3) l(3) e f by simp
  consider "k = i" | "k = j" | "i < k" "k < i + Suc n" | "j < k" "k < j + Suc n" | "k < i \<or> i + Suc n \<le> k" "k < j \<or> j + Suc n \<le> k" by linarith
  then show ?case unfolding v using 2(2,3) by cases (auto simp: s)
qed auto

text \<open>Where the members of the divided range come from, below and above the place where the scans met.\<close>

lemma gather_nth:
  assumes "a < pa" "pa \<le> pb" "pb = pc + 1" "pc \<le> pd" "pd < e" "e \<le> length xs"
  defines "r \<equiv> min (pa - a) (pb - pa)" and "t \<equiv> min (pd - pc) (e - pd - 1)"
  shows "k < pb \<Longrightarrow> gather a e pa pb pc pd xs ! k = (if a \<le> k \<and> k < a + r then xs ! (pb - r + (k - a)) else if pb - r \<le> k \<and> k < pb then xs ! (a + (k - (pb - r))) else xs ! k)"
    "pb \<le> k \<Longrightarrow> k < e \<Longrightarrow> gather a e pa pb pc pd xs ! k = (if k < pb + t then xs ! (e - t + (k - pb)) else if k < e - t then xs ! k else xs ! (pb + (k - (e - t))))"
proof -
  define zs where "zs = vecswap a (pb - r) r xs"
  have r: "a + r \<le> pb - r" "pb - r + r = pb" "pb \<le> length xs" using assms(1-6) by (auto simp: r_def)
  have t: "pb + t \<le> e - t" "e - t + t = e" using assms(1-6) by (auto simp: t_def)
  have z: "zs ! k = (if a \<le> k \<and> k < a + r then xs ! (pb - r + (k - a)) else if pb - r \<le> k \<and> k < pb then xs ! (a + (k - (pb - r))) else xs ! k)" for k
    using vecswap_nth [OF r(1), of xs k] r by (simp add: zs_def)
  have len: "length zs = length xs" using permuted_length [OF permuted_vecswap [of a a r pb "pb - r" xs]] r by (simp add: zs_def)
  have g: "gather a e pa pb pc pd xs = vecswap pb (e - t) t zs" unfolding gather_def Let_def zs_def r_def t_def by (rule refl)
  have y: "gather a e pa pb pc pd xs ! k = (if pb \<le> k \<and> k < pb + t then zs ! (e - t + (k - pb)) else if e - t \<le> k \<and> k < e then zs ! (pb + (k - (e - t))) else zs ! k)" for k
    unfolding g using vecswap_nth [OF t(1), of zs k] t(2) assms(6) len by (simp only: mp)
  show "gather a e pa pb pc pd xs ! k = (if a \<le> k \<and> k < a + r then xs ! (pb - r + (k - a)) else if pb - r \<le> k \<and> k < pb then xs ! (a + (k - (pb - r))) else xs ! k)" if "k < pb"
    using that t unfolding y [of k] z [of k, symmetric] by auto
  have same: "zs ! k = xs ! k" if "pb \<le> k" for k using that r z [of k] by auto
  show "gather a e pa pb pc pd xs ! k = (if k < pb + t then xs ! (e - t + (k - pb)) else if k < e - t then xs ! k else xs ! (pb + (k - (e - t))))" if "pb \<le> k" "k < e"
  proof -
    have "pb \<le> e - t + (k - pb)" "pb \<le> pb + (k - (e - t))" using t by linarith+
    note s = same [OF this(1)] same [OF this(2)] same [OF that(1)]
    have "e - t \<le> k \<and> k < e \<longleftrightarrow> \<not> k < e - t" "pb \<le> k \<and> k < pb + t \<longleftrightarrow> k < pb + t" using that by auto
    then show ?thesis unfolding y [of k] s by (simp only: split: if_split) blast
  qed
qed

lemma divided_places:
  assumes "divided cmp a e pa pb pc pd xs" "pb = pc + 1"
  shows "a < pa" "pa \<le> pb" "pc \<le> pd" "pd < e" "e \<le> length xs"
    "a \<le> i \<Longrightarrow> i < pa \<Longrightarrow> cmp (xs ! i) (xs ! a) = 0" "pa \<le> i \<Longrightarrow> i < pb \<Longrightarrow> cmp (xs ! i) (xs ! a) < 0"
    "pb \<le> i \<Longrightarrow> i \<le> pd \<Longrightarrow> cmp (xs ! i) (xs ! a) > 0" "pd < i \<Longrightarrow> i < e \<Longrightarrow> cmp (xs ! i) (xs ! a) = 0"
  using assms by (auto simp: divided_def)

lemma gather_below:
  assumes d: "divided cmp a e pa pb pc pd xs" "pb = pc + 1" and i: "a \<le> i" "i < a + (pb - pa)"
  shows "cmp (gather a e pa pb pc pd xs ! i) (xs ! a) < 0"
proof -
  note q = divided_places [OF d]
  define r where "r = min (pa - a) (pb - pa)"
  have c: "r = pa - a \<and> pa - a \<le> pb - pa \<or> r = pb - pa \<and> pb - pa \<le> pa - a" by (auto simp: r_def)
  note y = gather_nth(1) [OF q(1,2) d(2) q(3,4,5), of i, folded r_def]
  show ?thesis
  proof (cases "i < a + r")
    case True
    have "pa \<le> pb - r + (i - a)" "pb - r + (i - a) < pb" "i < pb" using True i c q(1,2) by linarith+
    then show ?thesis using q(7) y True i by simp
  next
    case False
    have "pa \<le> i" "i < pb - r" using False i c q(1,2) by linarith+
    then show ?thesis using q(7) [of i] y False by simp
  qed
qed

lemma gather_above:
  assumes d: "divided cmp a e pa pb pc pd xs" "pb = pc + 1" and i: "e - (pd - pc) \<le> i" "i < e"
  shows "cmp (gather a e pa pb pc pd xs ! i) (xs ! a) > 0"
proof -
  note q = divided_places [OF d]
  define t where "t = min (pd - pc) (e - pd - 1)"
  have c: "t = pd - pc \<and> pd - pc \<le> e - pd - 1 \<or> t = e - pd - 1 \<and> e - pd - 1 \<le> pd - pc" by (auto simp: t_def)
  have "pb \<le> i" using i d(2) q(3,4) by linarith
  note y = gather_nth(2) [OF q(1,2) d(2) q(3,4,5) this i(2), folded t_def]
  show ?thesis
  proof (cases "i < e - t")
    case True
    have "pb + t \<le> i" "i \<le> pd" using True i c q(3,4) d(2) by linarith+
    then show ?thesis using q(8) [of i] y True by simp
  next
    case False
    have "\<not> i < pb + t" "pb + (i - (e - t)) \<le> pd" using False i c q(3,4) d(2) by linarith+
    then show ?thesis using q(8) [of "pb + (i - (e - t))"] False unfolding y by (simp only: if_False)
  qed
qed

lemma gather_middle:
  assumes d: "divided cmp a e pa pb pc pd xs" "pb = pc + 1" and i: "a + (pb - pa) \<le> i" "i < e - (pd - pc)"
  shows "cmp (gather a e pa pb pc pd xs ! i) (xs ! a) = 0"
proof -
  note q = divided_places [OF d]
  define r where "r = min (pa - a) (pb - pa)"
  define t where "t = min (pd - pc) (e - pd - 1)"
  have c: "r = pa - a \<and> pa - a \<le> pb - pa \<or> r = pb - pa \<and> pb - pa \<le> pa - a" "t = pd - pc \<and> pd - pc \<le> e - pd - 1 \<or> t = e - pd - 1 \<and> e - pd - 1 \<le> pd - pc"
    by (auto simp: r_def t_def)
  note y = gather_nth(1) [OF q(1,2) d(2) q(3,4,5), of i, folded r_def] gather_nth(2) [OF q(1,2) d(2) q(3,4,5), of i, folded t_def]
  consider "i < pb" "i < pb - r" | "i < pb" "pb - r \<le> i" | "pb \<le> i" "i < pb + t" | "pb + t \<le> i" by linarith
  then show ?thesis
  proof cases
    case 1
    have "i < pa" "a + r \<le> i" using 1 i c q(1,2) by linarith+
    then show ?thesis using q(6) [of i] y(1) 1 by simp
  next
    case 2
    have "a + r \<le> i" "a + (i - (pb - r)) < pa" using 2 i c q(1,2) by linarith+
    then show ?thesis using q(6) [of "a + (i - (pb - r))"] y(1) 2 by simp
  next
    case 3
    have "pd < e - t + (i - pb)" "e - t + (i - pb) < e" using 3 c q(3,4) d(2) by linarith+
    then show ?thesis using q(9) y(2) 3 i by simp
  next
    case 4
    have "i < e - t" "pd < i" using 4 i c q(3,4) d(2) by linarith+
    then show ?thesis using q(9) [of i] y(2) 4 i by simp
  qed
qed

context comper_order
begin

lemma sinking_swap:
  assumes "sinking cmp a (Suc pl) pm xs" "a \<le> pl" "pl < pm" "pm < length xs" "\<forall>x \<in> set xs. ok x" "cmp (xs ! pl) (xs ! Suc pl) > 0"
  shows "sinking cmp a pl pm (swap_at (Suc pl) pl xs)"
proof -
  have l: "Suc pl < length xs" "pl < length xs" using assms(3,4) by auto
  have "cmp (xs ! Suc pl) (xs ! pl) < 0" using swap [of "xs ! pl" "xs ! Suc pl"] assms(5,6) l by auto
  then show ?thesis using assms(1-4) unfolding sinking_def nth_swap [OF l] by (auto simp: less_Suc_eq)
qed

lemma sinking_stops:
  assumes "sinking cmp a pl pm xs" "a \<le> pl" "pl \<le> pm" "pm < length xs" "\<forall>x \<in> set xs. ok x" "pl = a \<or> cmp (xs ! (pl - 1)) (xs ! pl) \<le> 0"
  shows "sorted_on cmp a (pm + 1) xs"
proof -
  have "cmp (xs ! i) (xs ! pl) \<le> 0" if "a \<le> i" "i < pl" for i
  proof (cases "i = pl - 1")
    case False
    then have k: "i < pl - 1" "pl - 1 \<le> pm" "pl - 1 \<noteq> pl" using assms(3) that by auto
    then have "cmp (xs ! i) (xs ! (pl - 1)) \<le> 0" using assms(1) that unfolding sinking_def by blast
    moreover have "cmp (xs ! (pl - 1)) (xs ! pl) \<le> 0" using assms(6) that by auto
    ultimately show ?thesis using le_trans [of "xs ! i" "xs ! (pl - 1)" "xs ! pl"] assms(3,4,5) that by auto
  qed (use assms(6) that in auto)
  then show ?thesis using assms(1) unfolding sorted_on_def sinking_def by (metis Suc_eq_plus1 less_Suc_eq_le)
qed

lemma ins_down_sorted:
  "sinking cmp a pl pm xs \<Longrightarrow> a \<le> pl \<Longrightarrow> pl \<le> pm \<Longrightarrow> pm < length xs \<Longrightarrow> \<forall>x \<in> set xs. ok x \<Longrightarrow> sorted_on cmp a (pm + 1) (ins_down cmp a pl xs)"
proof (induction pl arbitrary: xs)
  case 0
  then show ?case using sinking_stops [OF 0(1)] by (subst ins_down.simps) simp
next
  case (Suc pl)
  show ?case
  proof (cases "Suc pl > a \<and> cmp (xs ! pl) (xs ! Suc pl) > 0")
    case True
    have s: "sinking cmp a pl pm (swap_at (Suc pl) pl xs)" using Suc.prems True by (intro sinking_swap) auto
    have "permuted a (pm + 1) xs (swap_at (Suc pl) pl xs)" using Suc.prems True by (intro permuted_swap) auto
    from permuted_set [OF this] have "sorted_on cmp a (pm + 1) (ins_down cmp a pl (swap_at (Suc pl) pl xs))"
      using Suc.prems True by (intro Suc.IH [OF s]) auto
    then show ?thesis using True by (subst ins_down.simps) simp
  next
    case False
    then show ?thesis using sinking_stops [OF Suc.prems] Suc.prems(2) by (subst ins_down.simps) auto
  qed
qed

lemma insertion_sort_sorted:
  "sorted_on cmp a pm xs \<Longrightarrow> a \<le> pm \<Longrightarrow> pm \<le> e \<Longrightarrow> e \<le> length xs \<Longrightarrow> \<forall>x \<in> set xs. ok x \<Longrightarrow> sorted_on cmp a e (insertion_sort cmp a pm e xs)"
proof (induction "e - pm" arbitrary: pm xs)
  case 0
  then show ?case by (subst insertion_sort.simps) auto
next
  case (Suc k)
  have s: "sinking cmp a pm pm xs" using Suc.prems(1) by (auto simp: sorted_on_def sinking_def)
  have p: "permuted a e xs (ins_down cmp a pm xs)" using Suc by (intro permuted_ins) auto
  have "sorted_on cmp a e (insertion_sort cmp a (pm + 1) e (ins_down cmp a pm xs))"
    using Suc p ins_down_sorted [OF s] permuted_set [OF p] permuted_length [OF p] by (intro Suc.hyps(1)) auto
  then show ?case using Suc.hyps(2) by (subst insertion_sort.simps) auto
qed

lemma insertion_sort_from: "a + n \<le> length xs \<Longrightarrow> \<forall>x \<in> set xs. ok x \<Longrightarrow> sorted_on cmp a (a + n) (insertion_sort cmp a (a + 1) (a + n) xs)"
proof (cases n)
  case 0
  then show ?thesis by (simp add: sorted_on_def)
next
  case (Suc m)
  assume "a + n \<le> length xs" "\<forall>x \<in> set xs. ok x"
  then show ?thesis using Suc by (intro insertion_sort_sorted) (auto simp: sorted_on_def)
qed

end

lemma divided_start:
  assumes "cmp (xs ! a) (xs ! a) = 0" "2 \<le> n" "a + n \<le> length xs"
  shows "divided cmp a (a + n) (a + 1) (a + 1) (a + (n - 1)) (a + (n - 1)) xs"
  using assms by (auto simp: divided_def less_Suc_eq)

lemma choose_pivot_range: "0 < n \<Longrightarrow> a \<le> choose_pivot f a n xs \<and> choose_pivot f a n xs < a + n"
proof -
  assume n: "0 < n"
  obtain m where m: "choose_pivotx (always f) a n xs = Some m" using always_pivot by blast
  then show ?thesis using choose_pivotx_range [OF m n] choose_pivotx_answer [OF m] by simp
qed

lemma permuted_nth: "permuted a e xs ys \<Longrightarrow> i < length xs \<Longrightarrow> i < a \<or> e \<le> i \<Longrightarrow> ys ! i = xs ! i"
  by (auto simp: permuted_def)

lemma part_loop_permuted:
  assumes "\<not> n < 7" "a + n \<le> length xs" "part_loop f a (a + 1) (a + 1) (a + (n - 1)) (a + (n - 1)) False (swap_at a (choose_pivot f a n xs) xs) = (xs1, r)"
  shows "permuted a (a + n) xs xs1"
proof -
  let ?s = "swap_at a (choose_pivot f a n xs) xs"
  obtain q where q: "part_loopx (always f) a (a + 1) (a + 1) (a + (n - 1)) (a + (n - 1)) False ?s = Inr q" using always_part by blast
  then have "q = (xs1, r)" using part_loopx_answer [of "always f"] assms(3) by (metis answer_always(2))
  moreover have "permuted a (a + n) xs (left_with fst (part_loopx (always f) a (a + 1) (a + 1) (a + (n - 1)) (a + (n - 1)) False ?s))"
    using assms(1,2) choose_pivot_range [of n a f xs] by (intro permuted_trans [OF permuted_swap permuted_part]) auto
  ultimately show ?thesis using q by simp
qed

context comper_order
begin

text \<open>A sorted range of small members, one of equal ones and a sorted one of large members make one sorted range.\<close>

lemma sorted_parts:
  assumes ok: "\<forall>x \<in> set ys. ok x" "ok p" "e \<le> length ys" and s: "sorted_on cmp a l ys" "sorted_on cmp h e ys"
    and p: "\<forall>i. a \<le> i \<longrightarrow> i < l \<longrightarrow> cmp (ys ! i) p < 0" "\<forall>i. l \<le> i \<longrightarrow> i < h \<longrightarrow> cmp (ys ! i) p = 0" "\<forall>i. h \<le> i \<longrightarrow> i < e \<longrightarrow> cmp (ys ! i) p > 0"
    and lh: "l \<le> h" "h \<le> e"
  shows "sorted_on cmp a e ys"
proof -
  have low: "cmp (ys ! i) p \<le> 0" if "a \<le> i" "i < h" for i using that p(1,2) by (cases "i < l") (auto intro: less_imp_le)
  have high: "cmp p (ys ! j) \<le> 0" if "l \<le> j" "j < e" for j
  proof (cases "j < h")
    case True
    then show ?thesis using that p(2) eq_sym [of "ys ! j" p] ok by auto
  next
    case False
    then show ?thesis using that p(3) swap [of "ys ! j" p] ok by force
  qed
  have "cmp (ys ! i) (ys ! j) \<le> 0" if "a \<le> i" "i < j" "j < e" for i j
  proof (cases "j < l \<or> h \<le> i")
    case True
    then show ?thesis using s that unfolding sorted_on_def by blast
  next
    case False
    then show ?thesis using le_trans [of "ys ! i" p "ys ! j"] low [of i] high [of j] that ok by auto
  qed
  then show ?thesis by (simp add: sorted_on_def)
qed

lemma sorted_steps:
  assumes g: "e \<le> length g" "\<forall>x \<in> set g. ok x" "ok p" and y: "permuted a l g y" "sorted_on cmp a l y" and z: "permuted h e y z" "sorted_on cmp h e z"
    and lh: "a \<le> l" "l \<le> h" "h \<le> e"
    and p: "\<forall>i. a \<le> i \<longrightarrow> i < l \<longrightarrow> cmp (g ! i) p < 0" "\<forall>i. l \<le> i \<longrightarrow> i < h \<longrightarrow> cmp (g ! i) p = 0" "\<forall>i. h \<le> i \<longrightarrow> i < e \<longrightarrow> cmp (g ! i) p > 0"
  shows "sorted_on cmp a e z"
proof (rule sorted_parts [of z p e a l h])
  have len: "length y = length g" "length z = length y" using y(1) z(1) permuted_length by blast+
  show "\<forall>x \<in> set z. ok x" "e \<le> length z" using g len permuted_set [OF y(1)] permuted_set [OF z(1)] by auto
  have zy: "z ! i = y ! i" if "i < h" for i using permuted_nth [OF z(1), of i] that lh g(1) len by auto
  have yg: "y ! i = g ! i" if "l \<le> i" "i < e" for i using permuted_nth [OF y(1), of i] that g(1) by auto
  show "sorted_on cmp a l z" using y(2) zy lh(2) unfolding sorted_on_def by auto
  show "\<forall>i. a \<le> i \<longrightarrow> i < l \<longrightarrow> cmp (z ! i) p < 0" using permuted_all [OF y(1) _ p(1)] zy lh g(1) by auto
  show "\<forall>i. l \<le> i \<longrightarrow> i < h \<longrightarrow> cmp (z ! i) p = 0" using p(2) zy yg lh by auto
  have "\<forall>i. h \<le> i \<longrightarrow> i < e \<longrightarrow> cmp (y ! i) p > 0" using p(3) yg lh by auto
  from permuted_all [OF z(1) _ this] show "\<forall>i. h \<le> i \<longrightarrow> i < e \<longrightarrow> cmp (z ! i) p > 0" using g(1) len by auto
qed (use g(3) z(2) lh in auto)

lemma part_loop_parts:
  assumes n: "\<not> n < 7" "a + n \<le> length xs" "\<forall>x \<in> set xs. ok x"
    and p: "part_loop cmp a (a + 1) (a + 1) (a + (n - 1)) (a + (n - 1)) False (swap_at a (choose_pivot cmp a n xs) xs) = (xs1, pa, pb, pc, pd, sw)"
  shows "divided cmp a (a + n) pa pb pc pd xs1" "pb = pc + 1"
proof -
  let ?s = "swap_at a (choose_pivot cmp a n xs) xs"
  have "permuted a (a + n) xs ?s" using n choose_pivot_range [of n a cmp xs] by (intro permuted_swap) auto
  then have "\<forall>x \<in> set ?s. ok x" using permuted_set n(3) by metis
  then have "cmp (?s ! a) (?s ! a) = 0" using n(1,2) by (intro eq_refl) auto
  then have "divided cmp a (a + n) (a + 1) (a + 1) (a + (n - 1)) (a + (n - 1)) ?s" using n by (intro divided_start) auto
  then show "divided cmp a (a + n) pa pb pc pd xs1" "pb = pc + 1" using part_loop_divided [OF p] by blast+
qed

lemma qsort_sorted:
  "a + n \<le> length xs \<Longrightarrow> \<forall>x \<in> set xs. ok x \<Longrightarrow> sorted_on cmp a (a + n) (qse_qsort cmp a n xs)"
proof (induction n arbitrary: a xs rule: less_induct)
  case (less n)
  obtain xs1 pa pb pc pd sw where p: "part_loop cmp a (a + 1) (a + 1) (a + (n - 1)) (a + (n - 1)) False (swap_at a (choose_pivot cmp a n xs) xs) = (xs1, pa, pb, pc, pd, sw)"
    by (metis prod_cases6)
  have sub: "permuted b (b + k) zs (if k > 1 then qse_qsort cmp b k zs else zs) \<and> sorted_on cmp b (b + k) (if k > 1 then qse_qsort cmp b k zs else zs)"
    if "k < n" "b + k \<le> length zs" "\<forall>x \<in> set zs. ok x" for b k zs
    using less.IH [OF that] permuted_qsort [OF that(2), of cmp] by (auto simp: permuted_refl sorted_on_def)
  show ?case
  proof (cases "n < 7 \<or> \<not> sw")
    case True
    have "permuted a (a + n) xs xs1" if "\<not> n < 7" by (rule part_loop_permuted [OF that less.prems(1) p])
    then have "\<not> n < 7 \<Longrightarrow> a + n \<le> length xs1 \<and> (\<forall>x \<in> set xs1. ok x)" using less.prems permuted_set permuted_length by metis
    then show ?thesis using True p insertion_sort_from less.prems by (subst qse_qsort.simps) auto
  next
    case False
    then have n: "\<not> n < 7" and sw: "sw = True" by auto
    note d = part_loop_parts [OF n less.prems p]
    note q = divided_places [OF d] and b = part_loop_start [OF n p]
    define l h e where "l = a + (pb - pa)" and "h = a + n - (pd - pc)" and "e = a + n"
    have lh: "a \<le> l" "l \<le> h" "h \<le> e" "h + (pd - pc) = e" using q(1-4) d(2) by (auto simp: l_def h_def e_def)
    define g where "g = gather a e pa pb pc pd xs1"
    have "permuted a e xs g" using b q(5) unfolding g_def e_def by (intro permuted_trans [OF part_loop_permuted [OF n less.prems(1) p] permuted_gather]) auto
    then have g: "e \<le> length g" "\<forall>x \<in> set g. ok x" "ok (xs1 ! a)"
      using less.prems permuted_set [of a e xs g] permuted_length [of a e xs g] permuted_set [OF part_loop_permuted [OF n less.prems(1) p]] q(1-5) nth_mem [of a xs1] d(2) by (auto simp: e_def)
    define y where "y = (if pb - pa > 1 then qse_qsort cmp a (pb - pa) g else g)"
    define z where "z = (if pd - pc > 1 then qse_qsort cmp h (pd - pc) y else y)"
    have y: "permuted a l g y" "sorted_on cmp a l y" using sub [of "pb - pa" a g] b lh g(1,2) by (auto simp: y_def l_def)
    have z: "permuted h e y z" "sorted_on cmp h e z" using sub [of "pd - pc" h y] b lh(4) g(1,2) permuted_set [OF y(1)] permuted_length [OF y(1)] by (auto simp: z_def)
    have "sorted_on cmp a e z"
      by (rule sorted_steps [OF g y z lh(1-3)]) (use gather_below [OF d] gather_middle [OF d] gather_above [OF d] in \<open>auto simp: g_def e_def l_def h_def\<close>)
    moreover have "qse_qsort cmp a n xs = z" using qsort_unfold [OF n p [unfolded sw] refl] unfolding z_def y_def g_def h_def e_def .
    ultimately show ?thesis by (simp add: e_def)
  qed
qed

end

section \<open>What the searches find\<close>

lemma lsearch_first:
  "qse_lsearch cmp key xs b n = Some i \<longleftrightarrow> b \<le> i \<and> i < b + n \<and> cmp key (xs ! i) = 0 \<and> (\<forall>j. b \<le> j \<longrightarrow> j < i \<longrightarrow> cmp key (xs ! j) \<noteq> 0)"
proof (induction n arbitrary: b)
  case 0
  then show ?case by (subst qse_lsearch.simps) auto
next
  case (Suc n)
  have "qse_lsearch cmp key xs b (Suc n) = Some i \<longleftrightarrow> (if cmp key (xs ! b) = 0 then i = b else qse_lsearch cmp key xs (b + 1) n = Some i)"
    by (subst qse_lsearch.simps) auto
  also have "\<dots> \<longleftrightarrow> b \<le> i \<and> i < b + Suc n \<and> cmp key (xs ! i) = 0 \<and> (\<forall>j. b \<le> j \<longrightarrow> j < i \<longrightarrow> cmp key (xs ! j) \<noteq> 0)"
    unfolding Suc.IH by (cases "cmp key (xs ! b) = 0"; cases "i = b") (auto simp: Suc_le_eq; metis le_neq_implies_less)+
  finally show ?case .
qed

text \<open>The answers along the range go from larger over equal to smaller.\<close>

definition falling :: "('k \<Rightarrow> 'a \<Rightarrow> int) \<Rightarrow> 'k \<Rightarrow> 'a list \<Rightarrow> nat \<Rightarrow> nat \<Rightarrow> bool" where
  "falling cmp key xs b e \<longleftrightarrow> (\<forall>i j. b \<le> i \<and> i < j \<and> j < e \<longrightarrow> (cmp key (xs ! j) > 0 \<longrightarrow> cmp key (xs ! i) > 0) \<and> (cmp key (xs ! i) < 0 \<longrightarrow> cmp key (xs ! j) < 0))"

lemma falling_part: "falling cmp key xs b e \<Longrightarrow> b \<le> c \<Longrightarrow> d \<le> e \<Longrightarrow> falling cmp key xs c d"
  unfolding falling_def by (meson le_trans less_le_trans)

lemma bsearch_finds:
  "falling cmp key xs b (b + n) \<Longrightarrow>
   (case bsearch_loop cmp key xs b n of
      Some i \<Rightarrow> b \<le> i \<and> i < b + n \<and> cmp key (xs ! i) = 0
    | None \<Rightarrow> \<forall>j. b \<le> j \<longrightarrow> j < b + n \<longrightarrow> cmp key (xs ! j) \<noteq> 0)"
proof (induction n arbitrary: b rule: less_induct)
  case (less n)
  let ?m = "b + n div 2"
  consider "n = 0" | "n > 0" "cmp key (xs ! ?m) = 0" | "n > 0" "cmp key (xs ! ?m) > 0" | "n > 0" "cmp key (xs ! ?m) < 0" by linarith
  then show ?case
  proof cases
    case 3
    have m: "?m + 1 + (n - 1) div 2 = b + n" "(n - 1) div 2 < n" using 3(1) by linarith+
    have f: "falling cmp key xs (?m + 1) (?m + 1 + (n - 1) div 2)" unfolding m(1) by (rule falling_part [OF less.prems]) auto
    have low: "cmp key (xs ! j) > 0" if "b \<le> j" "j \<le> ?m" for j using that 3 less.prems m(1) unfolding falling_def by (cases "j = ?m") (simp, metis add_less_cancel_left div_less_dividend le_neq_implies_less one_less_numeral_iff semiring_norm(76))
    have e: "bsearch_loop cmp key xs b n = bsearch_loop cmp key xs (?m + 1) ((n - 1) div 2)" using 3 by (subst bsearch_loop.simps) simp
    show ?thesis using less.IH [OF m(2) f] low unfolding e m(1)
      by (cases "bsearch_loop cmp key xs (?m + 1) ((n - 1) div 2)") (auto, metis Suc_leI less_irrefl not_less)
  next
    case 4
    have m: "n div 2 < n" "?m \<le> b + n" using 4(1) by auto
    have f: "falling cmp key xs b ?m" by (rule falling_part [OF less.prems]) (use m in auto)
    have high: "cmp key (xs ! j) < 0" if "?m \<le> j" "j < b + n" for j using that 4 less.prems unfolding falling_def by (cases "j = ?m") (simp, metis le_add1 le_neq_implies_less)
    have e: "bsearch_loop cmp key xs b n = bsearch_loop cmp key xs b (n div 2)" using 4 by (subst bsearch_loop.simps) simp
    show ?thesis using less.IH [OF m(1) f] high m unfolding e
      by (cases "bsearch_loop cmp key xs b (n div 2)") (auto, metis less_irrefl not_less)
  qed (subst bsearch_loop.simps, simp)+
qed

context comper_order
begin

lemma sorted_falling:
  assumes "sorted_on cmp b e xs" "\<forall>x \<in> set xs. ok x" "ok key" "e \<le> length xs"
  shows "falling cmp key xs b e"
proof -
  have "(cmp key (xs ! j) > 0 \<longrightarrow> cmp key (xs ! i) > 0) \<and> (cmp key (xs ! i) < 0 \<longrightarrow> cmp key (xs ! j) < 0)" if "b \<le> i" "i < j" "j < e" for i j
  proof -
    have o: "ok (xs ! i)" "ok (xs ! j)" and s: "cmp (xs ! i) (xs ! j) \<le> 0" using assms that by (auto simp: sorted_on_def)
    show ?thesis using le_trans [OF assms(3) o] le_trans [OF o assms(3)] swap [OF assms(3) o(1)] swap [OF assms(3) o(2)] swap [OF o(1) assms(3)] swap [OF o(2) assms(3)] s by linarith
  qed
  then show ?thesis unfolding falling_def by blast
qed

lemma bsearch_sorted:
  assumes "sorted_on cmp b (b + n) xs" "\<forall>x \<in> set xs. ok x" "ok key" "b + n \<le> length xs"
  shows "case qse_bsearch cmp key xs b n of
      Some i \<Rightarrow> b \<le> i \<and> i < b + n \<and> cmp key (xs ! i) = 0
    | None \<Rightarrow> \<forall>j. b \<le> j \<longrightarrow> j < b + n \<longrightarrow> cmp key (xs ! j) \<noteq> 0"
  using bsearch_finds [OF sorted_falling [OF assms]] by (simp add: qse_bsearch_def)

end

lemma qsortx_fails: "qse_qsortx cmp a n xs = Inl ys \<Longrightarrow> \<exists>x y. cmp x y = None"
proof (rule ccontr)
  assume f: "qse_qsortx cmp a n xs = Inl ys" and "\<not> (\<exists>x y. cmp x y = None)"
  then have "cmp = always (answer cmp)" by (auto simp: fun_eq_iff answer_def split: option.split)
  then show False using qsortx_always [of "answer cmp" a n xs] f by auto
qed

lemma lsearch_none: "qse_lsearch cmp key xs b n = None \<longleftrightarrow> (\<forall>j. b \<le> j \<longrightarrow> j < b + n \<longrightarrow> cmp key (xs ! j) \<noteq> 0)"
proof (induction n arbitrary: b)
  case (Suc n)
  have "qse_lsearch cmp key xs b (Suc n) = None \<longleftrightarrow> cmp key (xs ! b) \<noteq> 0 \<and> qse_lsearch cmp key xs (b + 1) n = None"
    by (subst qse_lsearch.simps) auto
  then show ?case unfolding Suc.IH by (auto simp: Suc_le_eq) (metis le_neq_implies_less)
qed (subst qse_lsearch.simps, simp)

text \<open>The range holds a member equal to the key after it has been permuted just if it did before.\<close>

lemma lsearch_after:
  assumes "permuted a (a + n) xs ys" "a + n \<le> length xs"
  shows "qse_lsearch cmp key xs a n = None \<longleftrightarrow> (\<forall>j. a \<le> j \<longrightarrow> j < a + n \<longrightarrow> cmp key (ys ! j) \<noteq> 0)"
proof -
  have "permuted a (a + n) ys xs" "a + n \<le> length ys" using assms by (auto simp: permuted_def)
  then show ?thesis using permuted_all [OF assms, of "\<lambda>y. cmp key y \<noteq> 0"] permuted_all [of a "a + n" ys xs "\<lambda>y. cmp key y \<noteq> 0"] unfolding lsearch_none by blast
qed

lemma diff_comper: "comper_order (\<lambda>x y :: int. x - y) (\<lambda>x. True)"
  by unfold_locales auto

text \<open>C13. For a comparator that orders the members, \<open>qse_qsort\<close> sorts the \<open>n\<close> members from \<open>a\<close> on, keeps the rest of the array as it is and neither adds nor loses a member:
  the choice of the pivot, the division of the members and the switch to the insertion sort included, for any number of members.\<close>

theorem qse_qsort_sorts:
  assumes "comper_order cmp ok" "\<forall>x \<in> set xs. ok x" "a + n \<le> length xs"
  shows "sorted_on cmp a (a + n) (qse_qsort cmp a n xs) \<and> permuted a (a + n) xs (qse_qsort cmp a n xs)"
  using comper_order.qsort_sorted [OF assms(1,3,2)] permuted_qsort [OF assms(3)] by blast

theorem qse_qsort_sorts_witness:
  "qse_qsort (\<lambda>x y :: int. x - y) 1 9 [0, 5, 3, 9, 3, 1, 7, 3, 8, 2, 4] = [0, 1, 2, 3, 3, 3, 5, 7, 8, 9, 4] \<and>
   sorted_on (\<lambda>x y. x - y) 1 10 [0, 1, 2, 3, 3, 3, 5, 7, 8, 9, 4 :: int] \<and>
   permuted 1 10 [0, 5, 3, 9, 3, 1, 7, 3, 8, 2, 4] [0, 1, 2, 3, 3, 3, 5, 7, 8, 9, 4 :: int]"
proof -
  have e: "qse_qsort (\<lambda>x y :: int. x - y) 1 9 [0, 5, 3, 9, 3, 1, 7, 3, 8, 2, 4] = [0, 1, 2, 3, 3, 3, 5, 7, 8, 9, 4]" by code_simp
  show ?thesis using qse_qsort_sorts [OF diff_comper, of "[0, 5, 3, 9, 3, 1, 7, 3, 8, 2, 4]" 1 9, unfolded e] e by simp
qed

text \<open>C21. With a comparator that may fail, \<open>qse_qsortx\<close> fails only for a comparator that does, and it leaves then the same members in the same range; where it succeeds it has done what \<open>qse_qsort\<close> does with the comparator's answers.\<close>

theorem qse_qsortx_outcome:
  assumes "a + n \<le> length xs"
  shows "case qse_qsortx cmp a n xs of
      Inl ys \<Rightarrow> permuted a (a + n) xs ys \<and> (\<exists>x y. cmp x y = None)
    | Inr ys \<Rightarrow> permuted a (a + n) xs ys \<and> ys = qse_qsort (answer cmp) a n xs"
  using permuted_qsortx [OF assms, of cmp] qsortx_fails [of cmp a n xs] qse_qsortx_answer [of cmp a n xs]
  by (cases "qse_qsortx cmp a n xs") auto

theorem qse_qsortx_outcome_witness:
  "qse_qsortx (\<lambda>x y :: int. if x = 8 then None else Some (x - y)) 0 8 [5, 3, 9, 1, 7, 8, 2, 4] = Inl [5, 3, 4, 1, 2, 8, 7, 9] \<and>
   permuted 0 8 [5, 3, 9, 1, 7, 8, 2, 4] [5, 3, 4, 1, 2, 8, 7, 9 :: int]"
proof -
  have e: "qse_qsortx (\<lambda>x y :: int. if x = 8 then None else Some (x - y)) 0 8 [5, 3, 9, 1, 7, 8, 2, 4] = Inl [5, 3, 4, 1, 2, 8, 7, 9]" by code_simp
  show ?thesis using qse_qsortx_outcome [of 0 8 "[5, 3, 9, 1, 7, 8, 2, 4]" "\<lambda>x y :: int. if x = 8 then None else Some (x - y)", unfolded e] e by simp
qed

text \<open>C15. In a range that \<open>qse_qsort\<close> has sorted, \<open>qse_bsearch\<close> finds a member equal to the key, and it finds none only where \<open>qse_lsearch\<close> finds none in the range as it was before it was sorted.\<close>

theorem qse_bsearch_after_qsort:
  assumes "comper_order cmp ok" "\<forall>x \<in> set xs. ok x" "ok key" "a + n \<le> length xs"
  shows "case qse_bsearch cmp key (qse_qsort cmp a n xs) a n of
      Some i \<Rightarrow> a \<le> i \<and> i < a + n \<and> cmp key (qse_qsort cmp a n xs ! i) = 0 \<and> qse_lsearch cmp key xs a n \<noteq> None
    | None \<Rightarrow> qse_lsearch cmp key xs a n = None"
proof -
  define ys where "ys = qse_qsort cmp a n xs"
  have p: "permuted a (a + n) xs ys" unfolding ys_def by (rule permuted_qsort [OF assms(4)])
  have y: "\<forall>y \<in> set ys. ok y" "a + n \<le> length ys" using assms(2,4) permuted_set [OF p] permuted_length [OF p] by auto
  have "sorted_on cmp a (a + n) ys" unfolding ys_def by (rule comper_order.qsort_sorted [OF assms(1,4,2)])
  from comper_order.bsearch_sorted [OF assms(1) this y(1) assms(3) y(2)] lsearch_after [OF p assms(4), of cmp key]
  show ?thesis unfolding ys_def [symmetric] by (auto split: option.split_asm option.split)
qed

theorem qse_bsearch_after_qsort_witness:
  "qse_bsearch (\<lambda>x y :: int. x - y) 7 (qse_qsort (\<lambda>x y. x - y) 0 8 [5, 3, 9, 1, 7, 8, 2, 4]) 0 8 = Some 5 \<and>
   qse_qsort (\<lambda>x y. x - y) 0 8 [5, 3, 9, 1, 7, 8, 2, 4] ! 5 = (7 :: int) \<and> qse_lsearch (\<lambda>x y :: int. x - y) 7 [5, 3, 9, 1, 7, 8, 2, 4] 0 8 \<noteq> None"
proof -
  have e: "qse_bsearch (\<lambda>x y :: int. x - y) 7 (qse_qsort (\<lambda>x y. x - y) 0 8 [5, 3, 9, 1, 7, 8, 2, 4]) 0 8 = Some 5" by code_simp
  show ?thesis using qse_bsearch_after_qsort [OF diff_comper, of "[5, 3, 9, 1, 7, 8, 2, 4]" 0 8 7, unfolded e] e by simp
qed

end
