(* ===== verification/Qse_Sed.thy ===== *)
theory Qse_Sed
  imports Qse_Prelude
begin

text \<open>
  The data of the stream editor and its execution engine, \<open>src/lib/sed/sed.c\<close> from \<open>read_char\<close> to \<open>qse_sed_exec\<close>. A character is its code, a text the list
  of its characters; the build is the one with wide characters of four bytes. Compiled commands, which the source keeps in a list of blocks, are one list, and a pointer to a
  command is its index. Strings and the append list grow without failing.

  The two I/O handlers and the matcher belong to the client: the answers of the input handler to its read calls and of the output handler to
  its write calls are lists in the state, consumed call by call (no more answers: end of input, everything accepted), and what the output handler accepted is a log. Files
  that are read, whether a file can be opened for writing, the regular expression matcher and the character classes are functions in the
  environment. A handler that fails is taken not to set an error number of its own, so that the one reported is that of the engine. Requests to halt from another thread are not modelled.
\<close>

section \<open>Data\<close>

type_synonym uchar = nat
type_synonym utext = "nat list"

abbreviation ch_nl :: uchar where "ch_nl \<equiv> 10"
abbreviation ch_cr :: uchar where "ch_cr \<equiv> 13"
abbreviation ch_bs :: uchar where "ch_bs \<equiv> 92"
abbreviation ch_amp :: uchar where "ch_amp \<equiv> 38"
abbreviation ch_zero :: uchar where "ch_zero \<equiv> 48"
abbreviation ch_dollar :: uchar where "ch_dollar \<equiv> 36"

datatype sed_err =
    ENOMEM | EINVAL | EINTERN | EREXMA | ENPREX | EIOUSR | EIOFIL utext | ELABNF utext
  | ECMDNR uchar | ECMDMS | ECMDIC uchar | EREXIC utext | EREXBL utext | EA1PHB uchar | EA1MOI | EA2PHB uchar | EA2MOI | EBSEXP | EBSDEL | EGBABS | ESCEXP
  | ELABEM | ELABDU utext | EFILEM | EFILIL | ETSNSL | EGRNBA | EGRNTD | EOCSDU | EOCSZE | EOCSTL | ECSLNV

text \<open>An empty regular expression, \<open>EMPTY_REX\<close>, stands for the one used last; it is \<open>None\<close>.\<close>

datatype 'r sed_adr = ADR_NONE | ADR_DOL | ADR_LINE nat | ADR_REX "'r option" | ADR_STEP nat | ADR_RELLINE nat | ADR_RELLINEM nat

datatype jump = Over | Again | Quit | Quit_quiet | At nat

record 'r sed_subst =
  sub_rex :: "'r option"
  sub_rpl :: utext
  sub_file :: "utext option"
  sub_occ :: nat
  sub_g :: bool
  sub_p :: bool
  sub_k :: bool

datatype cut_sel = SEL_CHAR nat nat | SEL_FIELD nat nat

record sed_cut =
  cut_sels :: "cut_sel list"
  cut_idelim :: uchar
  cut_odelim :: uchar
  cut_w :: bool
  cut_f :: bool
  cut_d :: bool
  cut_fcount :: nat

datatype 'r sed_op =
    CMD_NOOP | CMD_QUIT | CMD_QUIT_QUIET | CMD_APPEND utext | CMD_INSERT utext | CMD_CHANGE utext | CMD_DELETE | CMD_DELETE_FIRSTLN
  | CMD_PRINT_LNNUM | CMD_PRINT | CMD_PRINT_FIRSTLN | CMD_PRINT_CLEARLY | CMD_HOLD | CMD_HOLD_APPEND | CMD_RELEASE | CMD_RELEASE_APPEND
  | CMD_EXCHANGE | CMD_NEXT | CMD_NEXT_APPEND | CMD_READ_FILE utext | CMD_READ_FILELN utext | CMD_WRITE_FILE utext | CMD_WRITE_FILELN utext
  | CMD_BRANCH "utext option" "jump option" | CMD_BRANCH_COND "utext option" "jump option" | CMD_SUBSTITUTE "'r sed_subst" | CMD_TRANSLATE utext
  | CMD_CLEAR_PATTERN | CMD_CUT sed_cut

record 'r sed_cmd =
  c_type :: "'r sed_op"
  c_negated :: bool
  c_a1 :: "'r sed_adr"
  c_a2 :: "'r sed_adr"
  c_a1_matched :: bool
  c_a1_match_line :: nat
  c_ready :: bool
  c_next :: jump

datatype rex_answer = Rex_match nat nat "(nat \<times> nat) option list" | Rex_nomatch | Rex_nomem | Rex_error

datatype 'r rex_built = Built 'r | Build_nomem | Build_error

record 'r sed_env =
  env_tre :: "'r \<Rightarrow> bool \<Rightarrow> utext \<Rightarrow> rex_answer"
  env_read :: "nat \<Rightarrow> utext \<Rightarrow> utext option list option"
  env_open :: "utext \<Rightarrow> bool"
  env_isprint :: "uchar \<Rightarrow> bool"
  env_isspace :: "uchar \<Rightarrow> bool"
  env_quiet :: bool
  env_extendedadr :: bool
  env_open_in :: bool
  env_open_out :: bool
  env_build :: "utext \<Rightarrow> bool \<Rightarrow> 'r rex_built"
  env_isdigit :: "uchar \<Rightarrow> bool"
  env_open_script :: bool
  env_stripls :: bool
  env_keeptbs :: bool
  env_ensurenl :: bool
  env_strict :: bool
  env_sameline :: bool

record 'r qse_sed =
  in_src :: "utext option list"
  in_buf :: utext
  in_xbuf :: uchar
  in_xbuf_len :: int
  in_eof :: bool
  in_line :: utext
  in_num :: nat
  out_buf :: utext
  out_ans :: "int list"
  out_log :: "(utext option \<times> utext) list"
  out_files :: "utext list"
  txt_hold :: utext
  appends :: "'r sed_op list"
  reads :: nat
  subst_done :: bool
  last_rex :: "'r option"
  sed_cmds :: "'r sed_cmd list"
  sed_labs :: "(utext \<times> nat) list"
  sed_grp :: "nat list"
  src_ans :: "utext option list"
  src_buf :: utext
  src_eof :: bool
  src_cc :: "uchar option"
  src_loc :: "nat \<times> nat"
  err_loc :: "nat \<times> nat"

section \<open>Sequencing\<close>

type_synonym ('r, 'a) act = "'r qse_sed \<Rightarrow> (sed_err + 'a) \<times> 'r qse_sed"

definition ret :: "'a \<Rightarrow> ('r, 'a) act" where
  "ret a s = (Inr a, s)"

definition fail :: "sed_err \<Rightarrow> ('r, 'a) act" where
  "fail e s = (Inl e, s)"

definition bnd :: "('r, 'a) act \<Rightarrow> ('a \<Rightarrow> ('r, 'b) act) \<Rightarrow> ('r, 'b) act" where
  "bnd m f s = (case m s of (Inl e, s') \<Rightarrow> (Inl e, s') | (Inr a, s') \<Rightarrow> f a s')"

definition thn :: "('r, 'a) act \<Rightarrow> ('r, 'b) act \<Rightarrow> ('r, 'b) act" where
  "thn m n = bnd m (\<lambda>_. n)"

definition upds :: "('r qse_sed \<Rightarrow> 'r qse_sed) \<Rightarrow> ('r, unit) act" where
  "upds f s = (Inr (), f s)"

definition gets :: "('r qse_sed \<Rightarrow> 'a) \<Rightarrow> ('a \<Rightarrow> ('r, 'b) act) \<Rightarrow> ('r, 'b) act" where
  "gets f k s = k (f s) s"

fun each :: "('a \<Rightarrow> ('r, unit) act) \<Rightarrow> 'a list \<Rightarrow> ('r, unit) act" where
  "each f [] = ret ()"
| "each f (x # xs) = thn (f x) (each f xs)"

section \<open>Input\<close>

text \<open>\<open>in_buf\<close> is the part of the input buffer that is not consumed yet. The answer is \<open>None\<close> at the end of the file.\<close>

definition read_char :: "('r, uchar option) act" where
  "read_char s =
     (if in_xbuf_len s = 0 then
        (case in_buf s of
           c # cs \<Rightarrow> (Inr (Some c), s\<lparr>in_buf := cs\<rparr>)
         | [] \<Rightarrow>
             (case in_src s of
                [] \<Rightarrow> (Inr None, s)
              | None # src \<Rightarrow> (Inl EIOUSR, s\<lparr>in_src := src\<rparr>)
              | Some [] # src \<Rightarrow> (Inr None, s\<lparr>in_src := src\<rparr>)
              | Some (c # cs) # src \<Rightarrow> (Inr (Some c), s\<lparr>in_src := src, in_buf := cs\<rparr>)))
      else if in_xbuf_len s > 0 then (Inr (Some (in_xbuf s)), s\<lparr>in_xbuf_len := in_xbuf_len s - 1\<rparr>)
      else (Inr None, s))"

text \<open>Every character that is read makes this number smaller.\<close>

definition unread :: "'r qse_sed \<Rightarrow> nat" where
  "unread s = nat (in_xbuf_len s) + length (in_buf s) + sum_list (map (\<lambda>x. case x of None \<Rightarrow> 1 | Some t \<Rightarrow> length t + 1) (in_src s))"

lemma read_char_unread: "read_char s = (Inr (Some c), s') \<Longrightarrow> unread s' < unread s"
  by (auto simp: read_char_def unread_def split: if_splits list.splits option.splits)

lemma unread_line [simp]: "unread (s\<lparr>in_line := t\<rparr>) = unread s"
  by (simp add: unread_def)

function line_loop :: "nat \<Rightarrow> ('r, bool) act" where
  "line_loop len s =
     (case read_char s of
        (Inl e, s) \<Rightarrow> (Inl e, s)
      | (Inr None, s) \<Rightarrow>
          (let s = s\<lparr>in_eof := True\<rparr>
           in if len = 0 then (Inr False, s) else (Inr True, s\<lparr>in_num := in_num s + 1, subst_done := False\<rparr>))
      | (Inr (Some c), s) \<Rightarrow>
          (let s = s\<lparr>in_line := in_line s @ [c]\<rparr>
           in if c = ch_nl then (Inr True, s\<lparr>in_num := in_num s + 1, subst_done := False\<rparr>) else line_loop (len + 1) s))"
  by pat_completeness auto
termination by (relation "measure (\<lambda>(len, s). unread s)") (auto dest!: read_char_unread [OF sym])

declare line_loop.simps [simp del]

definition read_line :: "bool \<Rightarrow> ('r, bool) act" where
  "read_line app s =
     (let s = (if app then s else s\<lparr>in_line := []\<rparr>)
      in if in_eof s then (Inr False, s) else line_loop 0 s)"

section \<open>Output\<close>

definition OUT_BUF_SIZE :: nat where [simp]: "OUT_BUF_SIZE = 2048"

text \<open>The writes that empty the buffer: the pieces accepted, what is left when the handler fails, and the answers that are left.\<close>

fun drain :: "utext \<Rightarrow> int list \<Rightarrow> utext list \<times> utext \<times> int list" where
  "drain buf [] = (if buf = [] then ([], [], []) else ([buf], [], []))"
| "drain buf (n # ans) =
     (if buf = [] then ([], [], n # ans)
      else if n \<le> 0 then ([], buf, ans)
      else (let (ws, left, rest) = drain (drop (nat n) buf) ans in (take (nat n) buf # ws, left, rest)))"

text \<open>A failing flush leaves the length of what is left, and the buffer from its beginning.\<close>

definition flush :: "('r, unit) act" where
  "flush s =
     (let (ws, left, rest) = drain (out_buf s) (out_ans s);
          s = s\<lparr>out_buf := take (length left) (out_buf s), out_ans := rest, out_log := out_log s @ map (\<lambda>w. (None, w)) ws\<rparr>
      in if left = [] then (Inr (), s) else (Inl EIOUSR, s))"

definition put :: "uchar \<Rightarrow> 'r qse_sed \<Rightarrow> 'r qse_sed" where
  "put c s = s\<lparr>out_buf := out_buf s @ [c]\<rparr>"

definition write_char :: "uchar \<Rightarrow> ('r, unit) act" where
  "write_char c = thn (upds (put c))
     (gets out_buf (\<lambda>buf. if c = ch_nl \<or> length buf \<ge> OUT_BUF_SIZE then flush else ret ()))"

fun write_str_loop :: "utext \<Rightarrow> bool \<Rightarrow> ('r, bool) act" where
  "write_str_loop [] flush_needed = ret flush_needed"
| "write_str_loop (c # cs) flush_needed =
     thn (upds (put c))
       (gets out_buf (\<lambda>buf.
          if length buf \<ge> OUT_BUF_SIZE then thn flush (write_str_loop cs False)
          else write_str_loop cs (if c = ch_nl then True else flush_needed)))"

definition write_str :: "utext \<Rightarrow> ('r, unit) act" where
  "write_str str = bnd (write_str_loop str False) (\<lambda>needed. if needed then flush else ret ())"

fun write_first_line :: "utext \<Rightarrow> ('r, unit) act" where
  "write_first_line [] = ret ()"
| "write_first_line (c # cs) = thn (write_char c) (if c = ch_nl then ret () else write_first_line cs)"

definition NTOC :: "nat \<Rightarrow> uchar" where
  "NTOC n = (if n < 10 then 48 + n else 55 + n)"

text \<open>The digits before the last are collected in reverse in an \<open>unsigned long\<close> and written from there.\<close>

function rev_loop :: "nat \<Rightarrow> nat \<Rightarrow> nat \<Rightarrow> nat \<Rightarrow> nat \<times> nat" where
  "rev_loop base x y dig =
     (if x > 0 \<and> base \<ge> 2 then rev_loop base (x div base) ((y * base + x mod base) mod 2 ^ 64) (dig + 1) else (y, dig))"
  by pat_completeness auto
termination by (relation "measure (\<lambda>(base, x, y, dig). x)") auto

declare rev_loop.simps [simp del]

function digit_loop :: "nat \<Rightarrow> nat \<Rightarrow> nat \<Rightarrow> utext" where
  "digit_loop base y dig =
     (if y > 0 \<and> base \<ge> 2 then NTOC (y mod base) # digit_loop base (y div base) (dig - 1) else replicate dig ch_zero)"
  by pat_completeness auto
termination by (relation "measure (\<lambda>(base, y, dig). y)") auto

declare digit_loop.simps [simp del]

definition num_text :: "nat \<Rightarrow> nat \<Rightarrow> nat \<Rightarrow> utext" where
  "num_text x base width =
     (let (y, dig) = rev_loop base (x div base) 0 0
      in replicate (width - 1 - dig) ch_zero @ digit_loop base y dig @ [NTOC (x mod base)])"

definition write_num :: "nat \<Rightarrow> nat \<Rightarrow> nat \<Rightarrow> ('r, unit) act" where
  "write_num x base width = each write_char (num_text x base width)"

fun write_clearly_loop :: "'r sed_env \<Rightarrow> utext \<Rightarrow> ('r, unit) act" where
  "write_clearly_loop env [] = ret ()"
| "write_clearly_loop env (c # cs) =
     thn
       (if c = ch_bs then write_str [ch_bs, ch_bs]
        else if c = ch_nl then write_str [ch_dollar, ch_nl]
        else if c = 7 then write_str [ch_bs, 97]
        else if c = 8 then write_str [ch_bs, 98]
        else if c = 12 then write_str [ch_bs, 102]
        else if c = 13 then write_str [ch_bs, 114]
        else if c = 9 then write_str [ch_bs, 116]
        else if c = 11 then write_str [ch_bs, 118]
        else if env_isprint env c then write_char c
        else thn (write_str [ch_bs, 85]) (write_num c 16 8))
       (write_clearly_loop env cs)"

definition write_str_clearly :: "'r sed_env \<Rightarrow> utext \<Rightarrow> ('r, unit) act" where
  "write_str_clearly env str =
     thn (write_clearly_loop env str) (if length str > 1 \<and> last str \<noteq> ch_nl then write_str [ch_dollar, ch_nl] else ret ())"

text \<open>The loop of \<open>write_str_to_file\<close>: after a write that took less than everything, the source does not advance \<open>str\<close>.\<close>

fun file_drain :: "utext \<Rightarrow> int list \<Rightarrow> utext list \<times> bool \<times> int list" where
  "file_drain str [] = (if str = [] then ([], True, []) else ([str], True, []))"
| "file_drain str (n # ans) =
     (if str = [] then ([], True, n # ans)
      else if n \<le> 0 then ([], False, ans)
      else (let (ws, ok, rest) = file_drain (take (length str - nat n) str) ans in (take (nat n) str # ws, ok, rest)))"

definition write_str_to_file :: "'r sed_env \<Rightarrow> utext \<Rightarrow> utext \<Rightarrow> ('r, unit) act" where
  "write_str_to_file env str path s =
     (if path \<notin> set (out_files s) \<and> \<not> env_open env path then (Inl (EIOFIL path), s)
      else
        (let s = (if path \<in> set (out_files s) then s else s\<lparr>out_files := path # out_files s\<rparr>);
             (ws, ok, rest) = file_drain str (out_ans s);
             s = s\<lparr>out_ans := rest, out_log := out_log s @ map (\<lambda>w. (Some path, w)) ws\<rparr>
         in if ok then (Inr (), s) else (Inl (EIOFIL path), s\<lparr>out_files := removeAll path (out_files s)\<rparr>)))"

fun write_file_loop :: "bool \<Rightarrow> utext \<Rightarrow> utext option list \<Rightarrow> ('r, unit) act" where
  "write_file_loop first_line path [] = ret ()"
| "write_file_loop first_line path (a # ans) =
     (case a of
        None \<Rightarrow> fail (EIOFIL path)
      | Some [] \<Rightarrow> ret ()
      | Some buf \<Rightarrow>
          if first_line then thn (write_first_line buf) (if ch_nl \<in> set buf then ret () else write_file_loop first_line path ans)
          else thn (write_str buf) (write_file_loop first_line path ans))"

definition write_file :: "'r sed_env \<Rightarrow> bool \<Rightarrow> utext \<Rightarrow> ('r, unit) act" where
  "write_file env first_line path =
     gets reads (\<lambda>k. thn (upds (\<lambda>s. s\<lparr>reads := reads s + 1\<rparr>))
       (case env_read env k path of None \<Rightarrow> ret () | Some ans \<Rightarrow> write_file_loop first_line path ans))"

definition emit_append :: "'r sed_env \<Rightarrow> 'r sed_op \<Rightarrow> ('r, unit) act" where
  "emit_append env cmd =
     (case cmd of
        CMD_APPEND t \<Rightarrow> write_str t
      | CMD_READ_FILE f \<Rightarrow> write_file env False f
      | CMD_READ_FILELN f \<Rightarrow> write_file env True f
      | _ \<Rightarrow> fail EINTERN)"

definition emit_output :: "'r sed_env \<Rightarrow> bool \<Rightarrow> ('r, unit) act" where
  "emit_output env skipline =
     thn (if \<not> skipline \<and> \<not> env_quiet env then gets in_line write_str else ret ())
       (thn (gets appends (each (emit_append env)))
         (thn (upds (\<lambda>s. s\<lparr>appends := []\<rparr>)) flush))"

section \<open>Substitution, translation and cutting\<close>

text \<open>The pattern space without its line terminator, and the terminator.\<close>

definition trim_line :: "utext \<Rightarrow> utext \<times> utext" where
  "trim_line line =
     (if line \<noteq> [] \<and> last line = ch_nl then
        (if butlast line \<noteq> [] \<and> last (butlast line) = ch_cr then (butlast (butlast line), [ch_cr, ch_nl]) else (butlast line, [ch_nl]))
      else (line, []))"

text \<open>The result is \<open>None\<close> without a match, otherwise position and length of the match and the nine groups as texts.\<close>

definition matchtre :: "'r sed_env \<Rightarrow> 'r \<Rightarrow> bool \<Rightarrow> utext \<Rightarrow> sed_err + (nat \<times> nat \<times> utext list) option" where
  "matchtre env rex notbol str =
     (case env_tre env rex notbol str of
        Rex_nomatch \<Rightarrow> Inr None
      | Rex_nomem \<Rightarrow> Inl ENOMEM
      | Rex_error \<Rightarrow> Inl EREXMA
      | Rex_match so eo subs \<Rightarrow>
          Inr (Some (so, eo - so,
            map (\<lambda>i. case (if i < length subs then subs ! i else None) of None \<Rightarrow> [] | Some (a, b) \<Rightarrow> take (b - a) (drop a str)) [0..<9])))"

fun expand :: "utext \<Rightarrow> utext \<Rightarrow> utext list \<Rightarrow> utext" where
  "expand [] mat subs = []"
| "expand [c] mat subs = (if c = ch_amp then mat else [c])"
| "expand (c # d # r) mat subs =
     (if c = ch_bs then (if 49 \<le> d \<and> d \<le> 57 then subs ! (d - 49) else [d]) @ expand r mat subs
      else (if c = ch_amp then mat else [c]) @ expand (d # r) mat subs)"

text \<open>
  The loop of \<open>do_subst\<close>: \<open>cur\<close> is the position reached in \<open>str\<close>, \<open>pend\<close> the end of the previous match. The result is the text built and whether
  something was replaced.
\<close>

function subst_loop :: "'r sed_env \<Rightarrow> 'r sed_subst \<Rightarrow> 'r \<Rightarrow> utext \<Rightarrow> nat \<Rightarrow> nat \<Rightarrow> nat option \<Rightarrow> bool \<Rightarrow> utext \<Rightarrow> sed_err + utext \<times> bool" where
  "subst_loop env sub rex str cur sub_count pend repl scratch =
     (if cur \<le> length str then
        (let max_count = (if sub_g sub then 0 else sub_occ sub);
             skip_one_char = (\<lambda>cur scratch. scratch @ take 1 (drop cur str))
         in case (if max_count = 0 \<or> sub_count < max_count then matchtre env rex (cur \<noteq> 0) (drop cur str) else Inr None) of
              Inl e \<Rightarrow> Inl e
            | Inr None \<Rightarrow> Inr (if sub_k sub then scratch else scratch @ drop cur str, repl)
            | Inr (Some (so, len, subs)) \<Rightarrow>
                if len = 0 \<and> pend = Some (cur + so)
                then subst_loop env sub rex str (cur + 1) sub_count pend repl (skip_one_char cur scratch)
                else
                  (let before = (if \<not> sub_k sub \<and> cur < length str then take so (drop cur str) else []);
                       skipped = (if \<not> sub_k sub \<and> cur < length str then take (so + len) (drop cur str) else []);
                       later = (max_count > 0 \<and> sub_count + 1 \<noteq> max_count);
                       scratch = (if later then scratch @ skipped
                                  else scratch @ before @ expand (sub_rpl sub) (take len (drop (cur + so) str)) subs);
                       repl = (if later then repl else True);
                       cur' = cur + so + len
                   in if len = 0
                      then subst_loop env sub rex str (cur' + 1) (sub_count + 1) (Some cur') repl (skip_one_char cur' scratch)
                      else subst_loop env sub rex str cur' (sub_count + 1) (Some cur') repl scratch))
      else Inr (scratch, repl))"
  by pat_completeness auto
termination by (relation "measure (\<lambda>(env, sub, rex, str, cur, sub_count, pend, repl, scratch). Suc (length str) - cur)") auto

declare subst_loop.simps [simp del]

definition use_rex :: "'r option \<Rightarrow> ('r \<Rightarrow> ('r, 'a) act) \<Rightarrow> ('r, 'a) act" where
  "use_rex rex k =
     (case rex of
        None \<Rightarrow> gets last_rex (\<lambda>last. case last of None \<Rightarrow> fail ENPREX | Some r \<Rightarrow> k r)
      | Some r \<Rightarrow> thn (upds (\<lambda>s. s\<lparr>last_rex := Some r\<rparr>)) (k r))"

definition lift :: "sed_err + 'a \<Rightarrow> ('a \<Rightarrow> ('r, 'b) act) \<Rightarrow> ('r, 'b) act" where
  "lift x k = (case x of Inl e \<Rightarrow> fail e | Inr a \<Rightarrow> k a)"

definition do_subst :: "'r sed_env \<Rightarrow> 'r sed_subst \<Rightarrow> ('r, unit) act" where
  "do_subst env sub =
     gets in_line (\<lambda>line. case trim_line line of (str, lineterm) \<Rightarrow>
       use_rex (sub_rex sub) (\<lambda>rex.
         lift (subst_loop env sub rex str 0 0 None False []) (\<lambda>(text, repl).
           thn (upds (\<lambda>s. s\<lparr>in_line := text @ lineterm\<rparr>))
             (if repl then
                thn (if sub_p sub then write_str (text @ lineterm) else ret ())
                  (thn (case sub_file sub of None \<Rightarrow> ret () | Some f \<Rightarrow> write_str_to_file env (text @ lineterm) f)
                    (upds (\<lambda>s. s\<lparr>subst_done := True\<rparr>)))
              else ret ()))))"

fun trans_char :: "utext \<Rightarrow> uchar \<Rightarrow> uchar" where
  "trans_char (a # b # r) c = (if c = a then b else trans_char r c)"
| "trans_char _ c = c"

definition do_translate :: "utext \<Rightarrow> utext \<Rightarrow> utext" where
  "do_translate transet line = (case trim_line line of (str, lineterm) \<Rightarrow> map (trans_char transet) str @ lineterm)"

text \<open>The fields of a line, without their delimiters, and whether there was a delimiter.\<close>

function split_fields :: "(uchar \<Rightarrow> bool) \<Rightarrow> bool \<Rightarrow> utext \<Rightarrow> utext \<Rightarrow> utext list" where
  "split_fields isdelim squeeze fld [] = [fld]"
| "split_fields isdelim squeeze fld (c # cs) =
     (if isdelim c then fld # split_fields isdelim squeeze [] (if squeeze then dropWhile isdelim cs else cs)
      else split_fields isdelim squeeze (fld @ [c]) cs)"
  by pat_completeness auto
termination by (relation "measure (\<lambda>(isdelim, squeeze, fld, cs). length cs)") (auto simp: le_imp_less_Suc length_dropWhile_le)

definition split_into_fields_for_cut :: "'r sed_env \<Rightarrow> sed_cut \<Rightarrow> utext \<Rightarrow> utext list \<times> bool" where
  "split_into_fields_for_cut env ct str =
     (let isdelim = (if cut_w ct then env_isspace env else (\<lambda>c. c = cut_idelim ct))
      in (split_fields isdelim (cut_w ct \<or> cut_f ct) [] str, \<exists>c \<in> set str. isdelim c))"

text \<open>The fields from \<open>a\<close> to \<open>b\<close>, with an output delimiter before each but the first that is written.\<close>

definition put_fields :: "uchar \<Rightarrow> utext list \<Rightarrow> nat \<Rightarrow> nat \<Rightarrow> nat \<times> utext \<Rightarrow> nat \<times> utext" where
  "put_fields odelim flds a b st =
     fold (\<lambda>i (out_state, t). (2, t @ (if out_state > 0 then [odelim] else []) @ flds ! i)) [a..<b + 1] st"

definition cut_one :: "sed_cut \<Rightarrow> utext \<Rightarrow> utext list \<Rightarrow> cut_sel \<Rightarrow> nat \<times> utext \<Rightarrow> nat \<times> utext" where
  "cut_one ct str flds sel st =
     (let delim = (if fst st = 2 then [cut_odelim ct] else []) in
      case sel of
        SEL_CHAR s e \<Rightarrow>
          if s \<le> e then
            (if s < length str
             then (let e = (if e \<ge> length str then length str - 1 else e) in (1, snd st @ delim @ take (e - s + 1) (drop s str)))
             else st)
          else
            (if e < length str
             then (let s = (if s \<ge> length str then length str - 1 else s) in (1, snd st @ delim @ rev (take (s - e + 1) (drop e str))))
             else st)
      | SEL_FIELD s e \<Rightarrow>
          if s \<le> e then
            (if s < length str
             then (let e = (if e \<ge> length flds then length flds - 1 else e) in put_fields (cut_odelim ct) flds s e st)
             else st)
          else
            (if e < length str
             then (let s = (if s \<ge> length flds then length flds - 1 else s) in put_fields (cut_odelim ct) flds e s st)
             else st))"

text \<open>The answer is whether the cycle goes on.\<close>

definition do_cut :: "'r sed_env \<Rightarrow> sed_cut \<Rightarrow> ('r, bool) act" where
  "do_cut env ct =
     gets in_line (\<lambda>line. case trim_line line of (str, lineterm) \<Rightarrow>
       if str = [] then thn (upds (\<lambda>s. s\<lparr>in_line := lineterm\<rparr>)) (ret True)
       else
         (let (flds, delimited) = (if cut_fcount ct > 0 then split_into_fields_for_cut env ct str else ([], False))
          in if cut_fcount ct > 0 \<and> cut_d ct \<and> \<not> delimited then thn (upds (\<lambda>s. s\<lparr>in_line := []\<rparr>)) (ret False)
             else
               thn (upds (\<lambda>s. s\<lparr>in_line := snd (fold (cut_one ct str flds) (cut_sels ct) (0, [])) @ lineterm\<rparr>)) (ret True)))"

section \<open>Addresses\<close>

text \<open>The last line is recognised by looking one character ahead.\<close>

definition match_dol :: "('r, bool) act" where
  "match_dol =
     gets in_xbuf_len (\<lambda>l.
       if l < 0 then ret True
       else bnd read_char (\<lambda>c.
         case c of
           None \<Rightarrow> thn (upds (\<lambda>s. s\<lparr>in_xbuf_len := in_xbuf_len s - 1\<rparr>)) (ret True)
         | Some c \<Rightarrow> thn (upds (\<lambda>s. s\<lparr>in_xbuf := c, in_xbuf_len := in_xbuf_len s + 1\<rparr>)) (ret False)))"

definition match_a :: "'r sed_env \<Rightarrow> 'r sed_cmd \<Rightarrow> 'r sed_adr \<Rightarrow> ('r, bool) act" where
  "match_a env cmd a =
     (case a of
        ADR_LINE lno \<Rightarrow> gets in_num (\<lambda>num. ret (num = lno))
      | ADR_REX rex \<Rightarrow>
          gets in_line (\<lambda>line. use_rex rex (\<lambda>r. lift (matchtre env r False (fst (trim_line line))) (\<lambda>m. ret (m \<noteq> None))))
      | ADR_DOL \<Rightarrow> match_dol
      | ADR_RELLINE lno \<Rightarrow> gets in_num (\<lambda>num. ret (num \<ge> c_a1_match_line cmd + lno))
      | ADR_RELLINEM lno \<Rightarrow> gets in_num (\<lambda>num. ret (num \<ge> (c_a1_match_line cmd + lno) - c_a1_match_line cmd mod lno))
      | _ \<Rightarrow> ret True)"

definition upd_cmd :: "nat \<Rightarrow> ('r sed_cmd \<Rightarrow> 'r sed_cmd) \<Rightarrow> ('r, unit) act" where
  "upd_cmd i f = upds (\<lambda>s. s\<lparr>sed_cmds := (sed_cmds s)[i := f (sed_cmds s ! i)]\<rparr>)"

definition match_address :: "'r sed_env \<Rightarrow> nat \<Rightarrow> ('r, bool) act" where
  "match_address env i =
     thn (upd_cmd i (\<lambda>c. c\<lparr>c_ready := False\<rparr>))
       (gets (\<lambda>s. (sed_cmds s ! i, in_num s)) (\<lambda>(cmd, num).
          if c_a1 cmd = ADR_NONE then thn (upd_cmd i (\<lambda>c. c\<lparr>c_ready := True\<rparr>)) (ret True)
          else
            case c_a2 cmd of
              ADR_STEP step \<Rightarrow>
                thn (upd_cmd i (\<lambda>c. c\<lparr>c_ready := True\<rparr>))
                  (case c_a1 cmd of
                     ADR_LINE lno \<Rightarrow> ret (if num < lno then False else (num - lno) mod step = 0)
                   | _ \<Rightarrow> ret False)
            | ADR_NONE \<Rightarrow> thn (upd_cmd i (\<lambda>c. c\<lparr>c_ready := True\<rparr>)) (match_a env cmd (c_a1 cmd))
            | a2 \<Rightarrow>
                if c_a1_matched cmd then
                  bnd (match_a env cmd a2) (\<lambda>n.
                    if \<not> n then
                      (case a2 of
                         ADR_LINE lno \<Rightarrow> if num > lno then thn (upd_cmd i (\<lambda>c. c\<lparr>c_a1_matched := False\<rparr>)) (ret False) else ret True
                       | _ \<Rightarrow> ret True)
                    else thn (upd_cmd i (\<lambda>c. c\<lparr>c_a1_matched := False, c_ready := True\<rparr>)) (ret True))
                else
                  bnd (match_a env cmd (c_a1 cmd)) (\<lambda>n.
                    if \<not> n then ret False
                    else
                      thn (if (case a2 of ADR_LINE lno \<Rightarrow> num \<ge> lno | _ \<Rightarrow> False) then upd_cmd i (\<lambda>c. c\<lparr>c_ready := True\<rparr>)
                           else upd_cmd i (\<lambda>c. c\<lparr>c_a1_matched := True, c_a1_match_line := num\<rparr>))
                        (ret True))))"

section \<open>Commands\<close>

definition set_line :: "utext \<Rightarrow> ('r, unit) act" where
  "set_line t = upds (\<lambda>s. s\<lparr>in_line := t\<rparr>)"

definition first_line :: "utext \<Rightarrow> utext" where
  "first_line t = takeWhile (\<lambda>c. c \<noteq> ch_nl) t @ (if ch_nl \<in> set t then [ch_nl] else [])"

definition exec_cmd :: "'r sed_env \<Rightarrow> nat \<Rightarrow> ('r, jump) act" where
  "exec_cmd env i =
     gets (\<lambda>s. (sed_cmds s ! i, in_line s, txt_hold s)) (\<lambda>(cmd, line, hold).
       let go = ret (c_next cmd) in
       case c_type cmd of
         CMD_NOOP \<Rightarrow> go
       | CMD_QUIT \<Rightarrow> ret Quit
       | CMD_QUIT_QUIET \<Rightarrow> ret Quit_quiet
       | CMD_APPEND t \<Rightarrow> thn (upds (\<lambda>s. s\<lparr>appends := appends s @ [c_type cmd]\<rparr>)) go
       | CMD_INSERT t \<Rightarrow> thn (write_str t) go
       | CMD_CHANGE t \<Rightarrow> thn (set_line (if c_ready cmd then t else [])) (ret Over)
       | CMD_DELETE_FIRSTLN \<Rightarrow>
           if ch_nl \<in> set line then
             (let rest = drop (length (first_line line)) line in thn (set_line rest) (ret (if rest \<noteq> [] then Again else Over)))
           else thn (set_line []) (ret Over)
       | CMD_DELETE \<Rightarrow> thn (set_line []) (ret Over)
       | CMD_PRINT_LNNUM \<Rightarrow> gets in_num (\<lambda>num. thn (write_num num 10 0) (thn (write_char ch_nl) go))
       | CMD_PRINT \<Rightarrow> thn (write_str line) go
       | CMD_PRINT_FIRSTLN \<Rightarrow> thn (write_first_line line) go
       | CMD_PRINT_CLEARLY \<Rightarrow> thn (write_str_clearly env line) go
       | CMD_HOLD \<Rightarrow> thn (upds (\<lambda>s. s\<lparr>txt_hold := line\<rparr>)) go
       | CMD_HOLD_APPEND \<Rightarrow> thn (upds (\<lambda>s. s\<lparr>txt_hold := hold @ line\<rparr>)) go
       | CMD_RELEASE \<Rightarrow> thn (set_line hold) go
       | CMD_RELEASE_APPEND \<Rightarrow> thn (set_line (line @ hold)) go
       | CMD_EXCHANGE \<Rightarrow> thn (upds (\<lambda>s. s\<lparr>in_line := hold, txt_hold := line\<rparr>)) go
       | CMD_NEXT \<Rightarrow> thn (emit_output env False) (bnd (read_line False) (\<lambda>n. if n then go else ret Over))
       | CMD_NEXT_APPEND \<Rightarrow> thn (emit_output env True) (bnd (read_line True) (\<lambda>n. if n then go else ret Over))
       | CMD_READ_FILE f \<Rightarrow> thn (upds (\<lambda>s. s\<lparr>appends := appends s @ [c_type cmd]\<rparr>)) go
       | CMD_READ_FILELN f \<Rightarrow> thn (upds (\<lambda>s. s\<lparr>appends := appends s @ [c_type cmd]\<rparr>)) go
       | CMD_WRITE_FILE f \<Rightarrow> thn (write_str_to_file env line f) go
       | CMD_WRITE_FILELN f \<Rightarrow> thn (write_str_to_file env (first_line line) f) go
       | CMD_BRANCH_COND l t \<Rightarrow>
           gets subst_done (\<lambda>d. if \<not> d then go
             else thn (upds (\<lambda>s. s\<lparr>subst_done := False\<rparr>)) (case t of None \<Rightarrow> fail EINTERN | Some j \<Rightarrow> ret j))
       | CMD_BRANCH l t \<Rightarrow> (case t of None \<Rightarrow> fail EINTERN | Some j \<Rightarrow> ret j)
       | CMD_SUBSTITUTE sub \<Rightarrow> thn (do_subst env sub) go
       | CMD_TRANSLATE tset \<Rightarrow> thn (set_line (do_translate tset line)) go
       | CMD_CLEAR_PATTERN \<Rightarrow> thn (set_line []) go
       | CMD_CUT ct \<Rightarrow> bnd (do_cut env ct) (\<lambda>n. if n then go else ret Over))"

section \<open>Running a script\<close>

definition resolve :: "(utext \<times> nat) list \<Rightarrow> utext option \<Rightarrow> jump option \<Rightarrow> sed_err + jump option" where
  "resolve labs lab target =
     (case target of
        Some j \<Rightarrow> Inr (Some j)
      | None \<Rightarrow>
          (case lab of
             None \<Rightarrow> Inr (Some Over)
           | Some l \<Rightarrow> (case map_of labs l of None \<Rightarrow> Inl (ELABNF l) | Some k \<Rightarrow> Inr (Some (At k)))))"

text \<open>A label that has been resolved is not looked up again; the source frees its name, the model keeps it.\<close>

definition init_one :: "'r sed_env \<Rightarrow> nat \<Rightarrow> ('r, unit) act" where
  "init_one env i =
     gets (\<lambda>s. (sed_cmds s ! i, length (sed_cmds s), sed_labs s)) (\<lambda>(c, n, labs).
       let zero_rex = (env_extendedadr env \<and> (case c_a2 c of ADR_REX r \<Rightarrow> True | _ \<Rightarrow> False) \<and> c_a1 c = ADR_LINE 0) in
       thn (upd_cmd i (\<lambda>c. c\<lparr>c_a1_matched := zero_rex, c_a1_match_line := (if zero_rex then 0 else c_a1_match_line c), c_ready := False,
              c_next := (if i + 1 \<ge> n then Over else At (i + 1))\<rparr>))
         (case c_type c of
            CMD_BRANCH l t \<Rightarrow> lift (resolve labs l t) (\<lambda>j. upd_cmd i (\<lambda>c. c\<lparr>c_type := CMD_BRANCH l j\<rparr>))
          | CMD_BRANCH_COND l t \<Rightarrow> lift (resolve labs l t) (\<lambda>j. upd_cmd i (\<lambda>c. c\<lparr>c_type := CMD_BRANCH_COND l j\<rparr>))
          | CMD_WRITE_FILE f \<Rightarrow> write_str_to_file env [] f
          | CMD_WRITE_FILELN f \<Rightarrow> write_str_to_file env [] f
          | CMD_SUBSTITUTE sub \<Rightarrow> (case sub_file sub of None \<Rightarrow> ret () | Some f \<Rightarrow> write_str_to_file env [] f)
          | _ \<Rightarrow> ret ()))"

definition init_all_commands_for_exec :: "'r sed_env \<Rightarrow> ('r, unit) act" where
  "init_all_commands_for_exec env = gets sed_cmds (\<lambda>cs. each (init_one env) [0..<length cs])"

text \<open>
  One cycle after its line has been read, with at most \<open>fuel\<close> commands: \<open>None\<close> when that is not enough, otherwise whether the loop over
  the lines goes on.
\<close>

fun cycle :: "'r sed_env \<Rightarrow> nat \<Rightarrow> jump \<Rightarrow> 'r qse_sed \<Rightarrow> ((sed_err + bool) \<times> 'r qse_sed) option" where
  "cycle env fuel Over s = Some (bnd (emit_output env False) (\<lambda>_. ret True) s)"
| "cycle env fuel Quit s = Some (bnd (emit_output env False) (\<lambda>_. ret False) s)"
| "cycle env fuel Quit_quiet s = Some (Inr False, s)"
| "cycle env 0 j s = None"
| "cycle env (Suc fuel) Again s = cycle env fuel (At 0) s"
| "cycle env (Suc fuel) (At i) s =
     (case match_address env i s of
        (Inl e, s) \<Rightarrow> Some (Inl e, s)
      | (Inr n, s) \<Rightarrow>
          if n = c_negated (sed_cmds s ! i) then cycle env fuel (c_next (sed_cmds s ! i)) s
          else
            (case exec_cmd env i s of
               (Inl e, s) \<Rightarrow> Some (Inl e, s)
             | (Inr j, s) \<Rightarrow> cycle env fuel j s))"

fun main_loop :: "'r sed_env \<Rightarrow> nat \<Rightarrow> 'r qse_sed \<Rightarrow> ((sed_err + unit) \<times> 'r qse_sed) option" where
  "main_loop env 0 s = None"
| "main_loop env (Suc fuel) s =
     (case read_line False s of
        (Inl e, s) \<Rightarrow> Some (Inl e, s)
      | (Inr False, s) \<Rightarrow> Some (Inr (), s)
      | (Inr True, s) \<Rightarrow>
          (case cycle env fuel (if sed_cmds s = [] then Over else At 0) s of
             None \<Rightarrow> None
           | Some (Inl e, s) \<Rightarrow> Some (Inl e, s)
           | Some (Inr False, s) \<Rightarrow> Some (Inr (), s)
           | Some (Inr True, s) \<Rightarrow> main_loop env fuel s))"

text \<open>The state in which a run starts. The read-ahead buffer is left as it is.\<close>

definition exec_start :: "utext option list \<Rightarrow> int list \<Rightarrow> 'r qse_sed \<Rightarrow> 'r qse_sed" where
  "exec_start src ans s =
     s\<lparr>last_rex := None, subst_done := False, appends := [], txt_hold := [ch_nl], out_buf := [], out_ans := ans, out_log := [], out_files := [],
       in_src := src, in_eof := False, in_buf := [], in_num := 0, in_line := [], reads := 0\<rparr>"

text \<open>At the end the output files are closed.\<close>

definition exec_finish :: "(sed_err + unit) \<times> 'r qse_sed \<Rightarrow> (sed_err + unit) \<times> 'r qse_sed" where
  "exec_finish x = (fst x, (snd x)\<lparr>out_files := []\<rparr>)"

definition qse_sed_exec :: "'r sed_env \<Rightarrow> nat \<Rightarrow> utext option list \<Rightarrow> int list \<Rightarrow> 'r qse_sed \<Rightarrow> ((sed_err + unit) \<times> 'r qse_sed) option" where
  "qse_sed_exec env fuel src ans s =
     (let s = exec_start src ans s in
      if \<not> env_open_in env \<or> \<not> env_open_out env then Some (Inl EIOUSR, s)
      else
        map_option exec_finish
          (case init_all_commands_for_exec env s of
             (Inl e, s) \<Rightarrow> Some (Inl e, s)
           | (Inr _, s) \<Rightarrow> main_loop env fuel s))"

end
