(* ===== verification/Qse_Sed_Act.thy ===== *)
theory Qse_Sed_Act
  imports Qse_Sed
begin

text \<open>
  How properties of the steps of the stream editor carry over to sequences of steps: a preorder on states that every step keeps, and a relation on states on which steps
  cannot tell the difference.
\<close>

section \<open>Recursion through sequences\<close>

lemma bnd_cong [fundef_cong]: "m s = m' s \<Longrightarrow> (\<And>a s'. m' s = (Inr a, s') \<Longrightarrow> f a s' = g a s') \<Longrightarrow> s = t \<Longrightarrow> bnd m f s = bnd m' g t"
  by (auto simp: bnd_def split: prod.splits sum.splits)

lemma thn_cong [fundef_cong]: "m s = m' s \<Longrightarrow> (\<And>a s'. m' s = (Inr a, s') \<Longrightarrow> n s' = n' s') \<Longrightarrow> s = t \<Longrightarrow> thn m n s = thn m' n' t"
  unfolding thn_def by (rule bnd_cong)

section \<open>Actions that keep a preorder\<close>

locale act_preorder =
  fixes R :: "'r qse_sed \<Rightarrow> 'r qse_sed \<Rightarrow> bool"
  assumes R_refl: "R s s" and R_trans: "R s t \<Longrightarrow> R t u \<Longrightarrow> R s u"
begin

definition keeps :: "('r, 'a) act \<Rightarrow> bool" where
  "keeps m \<longleftrightarrow> (\<forall>s. R s (snd (m s)))"

lemma keepsD: "keeps m \<Longrightarrow> m s = (r, s') \<Longrightarrow> R s s'"
  unfolding keeps_def by (metis snd_conv)

lemma keeps_ret: "keeps (ret a)" and keeps_fail: "keeps (fail e)"
  by (simp_all add: keeps_def ret_def fail_def R_refl)

lemma bnd_at:
  assumes "keeps m" "\<And>a s'. m s = (Inr a, s') \<Longrightarrow> R s' (snd (f a s'))"
  shows "R s (snd (bnd m f s))"
proof -
  obtain r s' where m: "m s = (r, s')" by fastforce
  show ?thesis using keepsD [OF assms(1) m] assms(2) m R_trans by (cases r) (auto simp: bnd_def)
qed

lemma keeps_bnd: "keeps m \<Longrightarrow> (\<And>a. keeps (f a)) \<Longrightarrow> keeps (bnd m f)"
  unfolding keeps_def [of "bnd m f"] by (intro allI bnd_at) (simp_all add: keeps_def)

lemma thn_at: "keeps m \<Longrightarrow> (\<And>a s'. m s = (Inr a, s') \<Longrightarrow> R s' (snd (n s'))) \<Longrightarrow> R s (snd (thn m n s))"
  unfolding thn_def by (rule bnd_at)

lemma keeps_at: "keeps m \<Longrightarrow> R s (snd (m s))"
  by (simp add: keeps_def)

lemma if_at: "(b \<Longrightarrow> R s (snd x)) \<Longrightarrow> (\<not> b \<Longrightarrow> R s (snd y)) \<Longrightarrow> R s (snd (if b then x else y))"
  by simp

lemma option_at: "(x = None \<Longrightarrow> R s (snd y)) \<Longrightarrow> (\<And>c. x = Some c \<Longrightarrow> R s (snd (f c))) \<Longrightarrow> R s (snd (case x of None \<Rightarrow> y | Some c \<Rightarrow> f c))"
  by (cases x) simp_all

lemma ret_at: "R s (snd (ret a s))"
  by (simp add: ret_def R_refl)

lemmas at_rules = if_at option_at bnd_at thn_at ret_at

lemma keeps_thn: "keeps m \<Longrightarrow> keeps n \<Longrightarrow> keeps (thn m n)"
  unfolding thn_def by (rule keeps_bnd)

lemma keeps_gets: "(\<And>a. keeps (k a)) \<Longrightarrow> keeps (gets f k)"
  by (simp add: keeps_def gets_def)

lemma keeps_upds: "(\<And>s. R s (f s)) \<Longrightarrow> keeps (upds f)"
  by (simp add: keeps_def upds_def)

lemma keeps_each: "(\<And>x. keeps (f x)) \<Longrightarrow> keeps (each f xs)"
  by (induction xs) (auto intro: keeps_ret keeps_thn)

lemma keeps_lift: "(\<And>a. keeps (k a)) \<Longrightarrow> keeps (lift x k)"
  by (cases x) (auto simp: lift_def keeps_fail)

lemma keeps_if: "keeps m \<Longrightarrow> keeps n \<Longrightarrow> keeps (if b then m else n)"
  by simp

lemma keeps_option: "keeps m \<Longrightarrow> (\<And>c. keeps (f c)) \<Longrightarrow> keeps (case x of None \<Rightarrow> m | Some c \<Rightarrow> f c)"
  by (cases x) simp_all

lemma keeps_prod: "(\<And>a b. keeps (f a b)) \<Longrightarrow> keeps (case p of (a, b) \<Rightarrow> f a b)"
  by (cases p) simp

lemma keeps_use_rex: "(\<And>s r. R s (s\<lparr>last_rex := Some r\<rparr>)) \<Longrightarrow> (\<And>r. keeps (k r)) \<Longrightarrow> keeps (use_rex rex k)"
  unfolding use_rex_def by (auto intro!: keeps_gets keeps_thn keeps_upds keeps_fail split: option.split)

lemmas keeps_rules = keeps_ret keeps_fail keeps_bnd keeps_thn keeps_gets keeps_each keeps_lift keeps_if keeps_option keeps_prod

end

section \<open>Actions that respect a relation\<close>

text \<open>An action is steady when related states give the same answer and related states again.\<close>

named_theorems steady_rules

locale act_bisim =
  fixes R :: "'r qse_sed \<Rightarrow> 'r qse_sed \<Rightarrow> bool"
begin

definition like :: "(sed_err + 'a) \<times> 'r qse_sed \<Rightarrow> (sed_err + 'a) \<times> 'r qse_sed \<Rightarrow> bool" where
  "like p q \<longleftrightarrow> fst p = fst q \<and> R (snd p) (snd q)"

definition steady :: "('r, 'a) act \<Rightarrow> bool" where
  "steady m \<longleftrightarrow> (\<forall>s t. R s t \<longrightarrow> fst (m s) = fst (m t) \<and> R (snd (m s)) (snd (m t)))"

lemma steadyD: "steady m \<Longrightarrow> R s t \<Longrightarrow> fst (m s) = fst (m t) \<and> R (snd (m s)) (snd (m t))"
  by (auto simp: steady_def)

lemma steady_like: "steady m \<longleftrightarrow> (\<forall>s t. R s t \<longrightarrow> like (m s) (m t))"
  by (simp add: steady_def like_def)

lemma like_at: "steady m \<Longrightarrow> R s t \<Longrightarrow> like (m s) (m t)"
  by (simp add: steady_like)

lemma like_ret: "R s t \<Longrightarrow> like (ret a s) (ret a t)"
  by (simp add: like_def ret_def)

lemma like_if: "(b \<Longrightarrow> like x x') \<Longrightarrow> (\<not> b \<Longrightarrow> like y y') \<Longrightarrow> like (if b then x else y) (if b then x' else y')"
  by simp

lemma like_option:
  "(x = None \<Longrightarrow> like y y') \<Longrightarrow> (\<And>c. x = Some c \<Longrightarrow> like (f c) (f' c)) \<Longrightarrow> like (case x of None \<Rightarrow> y | Some c \<Rightarrow> f c) (case x of None \<Rightarrow> y' | Some c \<Rightarrow> f' c)"
  by (cases x) simp_all

lemma like_bnd:
  assumes "steady m" "R s t" "\<And>a s' t'. m s = (Inr a, s') \<Longrightarrow> m t = (Inr a, t') \<Longrightarrow> R s' t' \<Longrightarrow> like (f a s') (f a t')"
  shows "like (bnd m f s) (bnd m f t)"
proof -
  obtain r s' t' where m: "m s = (r, s')" "m t = (r, t')" "R s' t'" using steadyD [OF assms(1,2)] by (metis prod.collapse)
  then show ?thesis using assms(3) by (cases r) (auto simp: bnd_def like_def)
qed

lemma like_thn:
  "steady m \<Longrightarrow> R s t \<Longrightarrow> (\<And>a s' t'. m s = (Inr a, s') \<Longrightarrow> m t = (Inr a, t') \<Longrightarrow> R s' t' \<Longrightarrow> like (n s') (n t')) \<Longrightarrow> like (thn m n s) (thn m n t)"
  unfolding thn_def by (rule like_bnd)

lemmas like_rules = like_if like_option like_bnd like_thn like_ret

lemma steady_ret [steady_rules]: "steady (ret a)"
  by (simp add: steady_def ret_def)

lemma steady_fail [steady_rules]: "steady (fail e)"
  by (simp add: steady_def fail_def)

lemma steady_bnd [steady_rules]: "steady m \<Longrightarrow> (\<And>a. steady (f a)) \<Longrightarrow> steady (bnd m f)"
  unfolding steady_like [of "bnd m f"] by (intro allI impI like_bnd like_at) assumption+

lemma steady_thn [steady_rules]: "steady m \<Longrightarrow> steady n \<Longrightarrow> steady (thn m n)"
  unfolding thn_def by (rule steady_bnd)

lemma steady_gets: "(\<And>s t. R s t \<Longrightarrow> f s = f t) \<Longrightarrow> (\<And>a. steady (k a)) \<Longrightarrow> steady (gets f k)"
  unfolding steady_def gets_def by metis

lemma steady_upds: "(\<And>s t. R s t \<Longrightarrow> R (f s) (f t)) \<Longrightarrow> steady (upds f)"
  by (simp add: steady_def upds_def)

lemma steady_each [steady_rules]: "(\<And>x. steady (f x)) \<Longrightarrow> steady (each f xs)"
  by (induction xs) (auto intro: steady_rules)

lemma steady_lift [steady_rules]: "(\<And>a. steady (k a)) \<Longrightarrow> steady (lift x k)"
  by (cases x) (auto simp: lift_def intro: steady_rules)

lemma steady_if [steady_rules]: "(b \<Longrightarrow> steady m) \<Longrightarrow> (\<not> b \<Longrightarrow> steady n) \<Longrightarrow> steady (if b then m else n)"
  by simp

end

end
