(* ===== verification/Qse_Sed_Io.thy ===== *)
theory Qse_Sed_Io
  imports Qse_Sed_Act
begin

text \<open>
  The input and output layer of the stream editor: what a run does depends on the text that is pending on the input and what it writes to the console and
  to files, not on how the input handler cuts the text into pieces nor on when the output buffer is flushed. Two states that differ in the
  buffers only are the \<open>same\<close>, and every action of the editor keeps that.
\<close>

section \<open>What the buffers hold\<close>

definition pending :: "'r qse_sed \<Rightarrow> utext" where
  "pending s = (if in_xbuf_len s > 0 then [in_xbuf s] else []) @ in_buf s @ concat (map (\<lambda>a. case a of None \<Rightarrow> [] | Some t \<Rightarrow> t) (in_src s))"

definition console :: "'r qse_sed \<Rightarrow> utext" where
  "console s = concat (map snd (filter (\<lambda>e. fst e = None) (out_log s))) @ out_buf s"

definition file_log :: "'r qse_sed \<Rightarrow> (utext option \<times> utext) list" where
  "file_log s = filter (\<lambda>e. fst e \<noteq> None) (out_log s)"

text \<open>The input handler does not fail and gives at least one character until the end, and the output handler accepts everything.\<close>

definition io_ok :: "'r qse_sed \<Rightarrow> bool" where
  "io_ok s \<longleftrightarrow> (\<forall>a \<in> set (in_src s). a \<noteq> None \<and> a \<noteq> Some []) \<and> out_ans s = [] \<and> in_xbuf_len s \<in> {-1, 0, 1} \<and>
     (in_xbuf_len s = -1 \<longrightarrow> in_buf s = [] \<and> in_src s = [])"

definition norm :: "'r qse_sed \<Rightarrow> 'r qse_sed" where
  "norm s = s\<lparr>in_src := [], in_buf := pending s, in_xbuf := 0, in_xbuf_len := 0, out_buf := console s, out_ans := [], out_log := file_log s\<rparr>"

lemma norm_get [simp]:
  "in_line (norm s) = in_line s" "in_num (norm s) = in_num s" "in_eof (norm s) = in_eof s" "txt_hold (norm s) = txt_hold s" "appends (norm s) = appends s"
  "reads (norm s) = reads s" "subst_done (norm s) = subst_done s" "last_rex (norm s) = last_rex s" "sed_cmds (norm s) = sed_cmds s"
  "sed_labs (norm s) = sed_labs s" "out_files (norm s) = out_files s" "in_buf (norm s) = pending s" "out_buf (norm s) = console s" "out_log (norm s) = file_log s"
  by (simp_all add: norm_def)

lemma pending_line [simp]: "pending (s\<lparr>in_line := t\<rparr>) = pending s"
  by (simp add: pending_def)

definition same :: "'r qse_sed \<Rightarrow> 'r qse_sed \<Rightarrow> bool" where
  "same s t \<longleftrightarrow> io_ok s \<and> io_ok t \<and> norm s = norm t"

interpretation io: act_bisim same .

lemma same_fields:
  assumes "same s t"
  shows "in_line s = in_line t" "in_num s = in_num t" "in_eof s = in_eof t" "txt_hold s = txt_hold t" "appends s = appends t" "reads s = reads t"
    "subst_done s = subst_done t" "last_rex s = last_rex t" "sed_cmds s = sed_cmds t" "sed_labs s = sed_labs t" "out_files s = out_files t"
    "pending s = pending t" "console s = console t" "file_log s = file_log t" "out_ans s = []" "out_ans t = []"
proof -
  have n: "norm s = norm t" using assms by (simp add: same_def)
  show "in_line s = in_line t" "in_num s = in_num t" "in_eof s = in_eof t" "txt_hold s = txt_hold t" "appends s = appends t" "reads s = reads t"
    "subst_done s = subst_done t" "last_rex s = last_rex t" "sed_cmds s = sed_cmds t" "sed_labs s = sed_labs t" "out_files s = out_files t"
    "pending s = pending t" "console s = console t" "file_log s = file_log t" "out_ans s = []" "out_ans t = []"
    using arg_cong [OF n, of in_line] arg_cong [OF n, of in_num] arg_cong [OF n, of in_eof] arg_cong [OF n, of txt_hold] arg_cong [OF n, of appends]
      arg_cong [OF n, of reads] arg_cong [OF n, of subst_done] arg_cong [OF n, of last_rex] arg_cong [OF n, of sed_cmds] arg_cong [OF n, of sed_labs]
      arg_cong [OF n, of out_files] arg_cong [OF n, of in_buf] arg_cong [OF n, of out_buf] arg_cong [OF n, of out_log] assms
    by (simp_all add: same_def io_ok_def)
qed

section \<open>Reads and updates\<close>

text \<open>A read or an update of a field that is not part of the buffers.\<close>

lemma steady_get_line [steady_rules]: "(\<And>a. io.steady (k a)) \<Longrightarrow> io.steady (gets in_line k)"
  by (rule io.steady_gets [OF same_fields(1)])

lemma steady_get_appends [steady_rules]: "(\<And>a. io.steady (k a)) \<Longrightarrow> io.steady (gets appends k)"
  by (rule io.steady_gets [OF same_fields(5)])

lemma steady_get_num [steady_rules]: "(\<And>a. io.steady (k a)) \<Longrightarrow> io.steady (gets in_num k)"
  by (rule io.steady_gets [OF same_fields(2)])

lemma same_update:
  assumes "same s t" "\<And>s. norm (f s) = f (norm s)" "\<And>s. io_ok (f s) = io_ok s"
  shows "same (f s) (f t)"
  using assms by (simp add: same_def)

lemma norm_fields [simp]:
  "norm (s\<lparr>in_line := a\<rparr>) = (norm s)\<lparr>in_line := a\<rparr>" "norm (s\<lparr>in_num := b\<rparr>) = (norm s)\<lparr>in_num := b\<rparr>" "norm (s\<lparr>in_eof := c\<rparr>) = (norm s)\<lparr>in_eof := c\<rparr>"
  "norm (s\<lparr>txt_hold := d\<rparr>) = (norm s)\<lparr>txt_hold := d\<rparr>" "norm (s\<lparr>appends := e\<rparr>) = (norm s)\<lparr>appends := e\<rparr>" "norm (s\<lparr>reads := f\<rparr>) = (norm s)\<lparr>reads := f\<rparr>"
  "norm (s\<lparr>subst_done := g\<rparr>) = (norm s)\<lparr>subst_done := g\<rparr>" "norm (s\<lparr>last_rex := h\<rparr>) = (norm s)\<lparr>last_rex := h\<rparr>"
  "norm (s\<lparr>sed_cmds := i\<rparr>) = (norm s)\<lparr>sed_cmds := i\<rparr>" "norm (s\<lparr>out_files := j\<rparr>) = (norm s)\<lparr>out_files := j\<rparr>"
  by (simp_all add: norm_def pending_def console_def file_log_def)

lemma io_ok_fields [simp]:
  "io_ok (s\<lparr>in_line := a\<rparr>) = io_ok s" "io_ok (s\<lparr>in_num := b\<rparr>) = io_ok s" "io_ok (s\<lparr>in_eof := c\<rparr>) = io_ok s"
  "io_ok (s\<lparr>txt_hold := d\<rparr>) = io_ok s" "io_ok (s\<lparr>appends := e\<rparr>) = io_ok s" "io_ok (s\<lparr>reads := f\<rparr>) = io_ok s"
  "io_ok (s\<lparr>subst_done := g\<rparr>) = io_ok s" "io_ok (s\<lparr>last_rex := h\<rparr>) = io_ok s"
  "io_ok (s\<lparr>sed_cmds := i\<rparr>) = io_ok s" "io_ok (s\<lparr>out_files := j\<rparr>) = io_ok s"
  by (simp_all add: io_ok_def)

section \<open>Input\<close>

lemma read_char_pending:
  assumes "io_ok s"
  shows "\<exists>s'. read_char s = (Inr (if pending s = [] then None else Some (hd (pending s))), s') \<and> io_ok s' \<and> norm s' = (norm s)\<lparr>in_buf := tl (pending s)\<rparr>"
proof (cases "in_xbuf_len s = 0")
  case True
  show ?thesis
  proof (cases "in_buf s")
    case Nil
    show ?thesis
    proof (cases "in_src s")
      case src: Nil
      then show ?thesis using True Nil assms by (auto simp: read_char_def pending_def norm_def console_def file_log_def)
    next
      case (Cons a src)
      then obtain c cs where "a = Some (c # cs)" using assms by (cases a; cases "the a") (auto simp: io_ok_def)
      then show ?thesis using True Nil Cons assms by (auto simp: read_char_def pending_def norm_def console_def file_log_def io_ok_def)
    qed
  next
    case (Cons c cs)
    then show ?thesis using True assms by (auto simp: read_char_def pending_def norm_def console_def file_log_def io_ok_def)
  qed
next
  case False
  then consider "in_xbuf_len s = 1" | "in_xbuf_len s = -1" using assms by (auto simp: io_ok_def)
  then show ?thesis
  proof cases
    case 1
    then show ?thesis using assms by (auto simp: read_char_def pending_def norm_def console_def file_log_def io_ok_def)
  next
    case 2
    then show ?thesis using assms by (auto simp: read_char_def pending_def norm_def console_def file_log_def io_ok_def)
  qed
qed

lemma steady_read_char [steady_rules]: "io.steady read_char"
  unfolding io.steady_def
proof (intro allI impI)
  fix s t :: "'a qse_sed" assume st: "same s t"
  have p: "pending s = pending t" "norm s = norm t" "io_ok s" "io_ok t" using st same_fields [OF st] by (simp_all add: same_def)
  obtain s' t' where
    "read_char s = (Inr (if pending s = [] then None else Some (hd (pending s))), s')" "io_ok s'" "norm s' = (norm s)\<lparr>in_buf := tl (pending s)\<rparr>"
    "read_char t = (Inr (if pending t = [] then None else Some (hd (pending t))), t')" "io_ok t'" "norm t' = (norm t)\<lparr>in_buf := tl (pending t)\<rparr>"
    using read_char_pending [OF p(3)] read_char_pending [OF p(4)] by blast
  then show "fst (read_char s) = fst (read_char t) \<and> same (snd (read_char s)) (snd (read_char t))" using p by (simp add: same_def)
qed

text \<open>Reading a line takes the pending text up to its first newline.\<close>

definition cut_line :: "utext \<Rightarrow> utext \<times> utext" where
  "cut_line t = (first_line t, drop (length (first_line t)) t)"

lemma cut_line_simps [simp]: "cut_line [] = ([], [])" "cut_line (c # t) = (if c = ch_nl then ([c], t) else (c # fst (cut_line t), snd (cut_line t)))"
  by (auto simp: cut_line_def first_line_def)

lemma line_loop_pending:
  assumes "io_ok s"
  shows "\<exists>s'. line_loop len s = (Inr (len \<noteq> 0 \<or> pending s \<noteq> []), s') \<and> io_ok s' \<and>
    norm s' = (norm s)\<lparr>in_line := in_line s @ fst (cut_line (pending s)), in_buf := snd (cut_line (pending s)),
      in_eof := (in_eof s \<or> ch_nl \<notin> set (pending s)),
      in_num := in_num s + (if len \<noteq> 0 \<or> pending s \<noteq> [] then 1 else 0), subst_done := (subst_done s \<and> len = 0 \<and> pending s = [])\<rparr>"
  using assms
proof (induction "length (pending s)" arbitrary: s len)
  case 0
  then obtain s' where r: "read_char s = (Inr None, s')" "io_ok s'" "norm s' = (norm s)\<lparr>in_buf := []\<rparr>" using read_char_pending [of s] by auto
  have "in_line s' = in_line s" "in_num s' = in_num s" "subst_done s' = subst_done s"
    using arg_cong [OF r(3), of in_line] arg_cong [OF r(3), of in_num] arg_cong [OF r(3), of subst_done] by simp_all
  then show ?case using 0 r by (subst line_loop.simps) (auto simp: Let_def)
next
  case (Suc n)
  then obtain c cs where p: "pending s = c # cs" "n = length cs" by (cases "pending s") auto
  then obtain s1 where r: "read_char s = (Inr (Some c), s1)" "io_ok s1" "norm s1 = (norm s)\<lparr>in_buf := cs\<rparr>" using read_char_pending [OF Suc.prems] by auto
  have f: "in_line s1 = in_line s" "in_num s1 = in_num s" "subst_done s1 = subst_done s" "in_eof s1 = in_eof s" "pending s1 = cs"
    using arg_cong [OF r(3), of in_line] arg_cong [OF r(3), of in_num] arg_cong [OF r(3), of subst_done] arg_cong [OF r(3), of in_eof] arg_cong [OF r(3), of in_buf]
    by simp_all
  let ?s = "s1\<lparr>in_line := in_line s @ [c]\<rparr>"
  have ps: "pending ?s = cs" using f(5) by simp
  show ?case
  proof (cases "c = ch_nl")
    case True
    then show ?thesis using r f p by (subst line_loop.simps) (simp add: Let_def)
  next
    case False
    obtain s' where "line_loop (len + 1) ?s = (Inr True, s')" "io_ok s'"
      "norm s' = (norm ?s)\<lparr>in_line := in_line ?s @ fst (cut_line cs), in_buf := snd (cut_line cs), in_eof := (in_eof ?s \<or> ch_nl \<notin> set cs),
        in_num := in_num ?s + 1, subst_done := False\<rparr>"
      using Suc.hyps(1) [of ?s "len + 1"] p(2) ps r(2) by auto
    then show ?thesis using False r f p by (subst line_loop.simps) (auto simp: Let_def)
  qed
qed

lemma steady_read_line [steady_rules]: "io.steady (read_line app)"
  unfolding io.steady_def
proof (intro allI impI)
  fix s t :: "'a qse_sed" assume st: "same s t"
  let ?s = "if app then s else s\<lparr>in_line := []\<rparr>" and ?t = "if app then t else t\<lparr>in_line := []\<rparr>"
  have "same (s\<lparr>in_line := []\<rparr>) (t\<lparr>in_line := []\<rparr>)" using st by (simp add: same_def)
  then have st': "same ?s ?t" using st by simp
  note f = same_fields [OF st']
  have ok: "io_ok ?s" "io_ok ?t" "norm ?s = norm ?t" using st' by (simp_all add: same_def)
  show "fst (read_line app s) = fst (read_line app t) \<and> same (snd (read_line app s)) (snd (read_line app t))"
  proof (cases "in_eof ?s")
    case True
    then show ?thesis using f(3) st' by (simp add: read_line_def Let_def)
  next
    case False
    then show ?thesis using f(3) line_loop_pending [OF ok(1), of 0] line_loop_pending [OF ok(2), of 0] ok(3)
      unfolding read_line_def Let_def f(1,2,12,7) same_def by auto
  qed
qed

section \<open>Output\<close>

lemma drain_all: "drain buf [] = (if buf = [] then [] else [buf], [], [])"
  by simp

lemma flush_ok:
  assumes "io_ok s"
  shows "\<exists>s'. flush s = (Inr (), s') \<and> io_ok s' \<and> norm s' = norm s \<and> out_buf s' = []"
  using assms by (auto simp: flush_def io_ok_def Let_def norm_def console_def file_log_def pending_def)

lemma steady_flush [steady_rules]: "io.steady flush"
  unfolding io.steady_def
proof (intro allI impI)
  fix s t :: "'a qse_sed" assume st: "same s t"
  then show "fst (flush s) = fst (flush t) \<and> same (snd (flush s)) (snd (flush t))"
    using flush_ok [of s] flush_ok [of t] by (auto simp: same_def)
qed

lemma put_ok: "io_ok (put c s) = io_ok s" "norm (put c s) = (norm s)\<lparr>out_buf := console s @ [c]\<rparr>"
  by (simp_all add: put_def io_ok_def norm_def console_def file_log_def pending_def)

text \<open>Text that is written goes to the console, whether the buffer is flushed or not.\<close>

definition printed :: "utext \<Rightarrow> 'r qse_sed \<Rightarrow> 'r qse_sed \<Rightarrow> bool" where
  "printed w s s' \<longleftrightarrow> io_ok s' \<and> norm s' = (norm s)\<lparr>out_buf := console s @ w\<rparr>"

lemma printed_console:
  assumes "printed w s s'" shows "console s' = console s @ w \<and> pending s' = pending s"
proof -
  have n: "norm s' = (norm s)\<lparr>out_buf := console s @ w\<rparr>" using assms by (simp add: printed_def)
  show ?thesis using arg_cong [OF n, of out_buf] arg_cong [OF n, of in_buf] by simp
qed

lemma printed_trans: "printed v s s1 \<Longrightarrow> printed w s1 s2 \<Longrightarrow> printed (v @ w) s s2"
  using printed_console [of v s s1] by (simp add: printed_def)

lemma printed_flush: "printed w s s' \<Longrightarrow> \<exists>s''. flush s' = (Inr (), s'') \<and> printed w s s''"
  using flush_ok [of s'] by (auto simp: printed_def)

lemma printed_put: "io_ok s \<Longrightarrow> printed [c] s (put c s)"
  by (simp add: printed_def put_ok)

lemma printed_same: "printed w s s' \<Longrightarrow> printed w t t' \<Longrightarrow> same s t \<Longrightarrow> same s' t'"
  using same_fields(13) [of s t] by (simp add: printed_def same_def)

definition prints :: "utext \<Rightarrow> ('r, unit) act \<Rightarrow> bool" where
  "prints w m \<longleftrightarrow> (\<forall>s. io_ok s \<longrightarrow> (\<exists>s'. m s = (Inr (), s') \<and> printed w s s'))"

lemma prints_steady: "prints w m \<Longrightarrow> io.steady m"
  unfolding io.steady_def
proof (intro allI impI)
  fix s t :: "'a qse_sed" assume m: "prints w m" and st: "same s t"
  then obtain s' t' where "m s = (Inr (), s')" "printed w s s'" "m t = (Inr (), t')" "printed w t t'" by (metis prints_def same_def)
  then show "fst (m s) = fst (m t) \<and> same (snd (m s)) (snd (m t))" using printed_same st by auto
qed

lemma prints_ret: "prints [] (ret ())"
  by (simp add: prints_def ret_def printed_def norm_def)

lemma prints_thn: "prints v m \<Longrightarrow> prints w n \<Longrightarrow> prints (v @ w) (thn m n)"
  unfolding prints_def
proof (intro allI impI)
  fix s :: "'a qse_sed" assume m: "\<forall>s. io_ok s \<longrightarrow> (\<exists>s'. m s = (Inr (), s') \<and> printed v s s')" "\<forall>s. io_ok s \<longrightarrow> (\<exists>s'. n s = (Inr (), s') \<and> printed w s s')" "io_ok s"
  then obtain s1 where s1: "m s = (Inr (), s1)" "printed v s s1" by blast
  then obtain s2 where "n s1 = (Inr (), s2)" "printed w s1 s2" using m(2) by (auto simp: printed_def)
  then show "\<exists>s'. thn m n s = (Inr (), s') \<and> printed (v @ w) s s'" using s1 printed_trans [OF s1(2)] by (simp add: thn_def bnd_def)
qed

lemma prints_write_char: "prints [c] (write_char c)"
  unfolding prints_def
proof (intro allI impI)
  fix s :: "'a qse_sed" assume "io_ok s"
  note p = printed_put [OF this, of c]
  show "\<exists>s'. write_char c s = (Inr (), s') \<and> printed [c] s s'"
    using p printed_flush [OF p] by (auto simp: write_char_def thn_def bnd_def upds_def gets_def ret_def)
qed

lemma prints_each: "prints t (each write_char t)"
  using prints_thn [OF prints_write_char] by (induction t) (auto simp: prints_ret)

lemma write_str_loop_prints:
  assumes "io_ok s"
  shows "\<exists>b s'. write_str_loop t needed s = (Inr b, s') \<and> printed t s s'"
  using assms
proof (induction t arbitrary: needed s)
  case Nil
  then show ?case by (simp add: ret_def printed_def norm_def)
next
  case (Cons c t)
  note p = printed_put [OF Cons.prems, of c]
  obtain s1 where f: "flush (put c s) = (Inr (), s1)" "printed [c] s s1" using printed_flush [OF p] by blast
  have ok: "io_ok s1" "io_ok (put c s)" using f(2) p by (simp_all add: printed_def)
  show ?case
  proof (cases "length (out_buf (put c s)) \<ge> OUT_BUF_SIZE")
    case True
    then show ?thesis using f Cons.IH [OF ok(1), of False] printed_trans [OF f(2)] by (auto simp: thn_def bnd_def upds_def gets_def)
  next
    case False
    then show ?thesis using Cons.IH [OF ok(2)] printed_trans [OF p] by (auto simp: thn_def bnd_def upds_def gets_def) (metis append_Cons append_Nil)+
  qed
qed

lemma prints_write_str: "prints t (write_str t)"
  unfolding prints_def
proof (intro allI impI)
  fix s :: "'a qse_sed" assume "io_ok s"
  then obtain b s' where p: "write_str_loop t False s = (Inr b, s')" "printed t s s'" using write_str_loop_prints by blast
  then show "\<exists>s'. write_str t s = (Inr (), s') \<and> printed t s s'"
    using printed_flush [OF p(2)] by (auto simp: write_str_def bnd_def ret_def)
qed

lemma prints_first_line: "prints (first_line t) (write_first_line t)"
proof (induction t)
  case Nil
  then show ?case by (simp add: first_line_def prints_ret)
next
  case (Cons c t)
  then show ?case using prints_thn [OF prints_write_char, of _ _ c] prints_ret by (cases "c = ch_nl") (auto simp: first_line_def)
qed

lemma prints_write_num: "prints (num_text x b w) (write_num x b w)"
  by (simp add: write_num_def prints_each)

lemmas steady_writes [steady_rules] = prints_steady [OF prints_write_char] prints_steady [OF prints_write_str] prints_steady [OF prints_first_line]
  prints_steady [OF prints_write_num]

lemma steady_clearly [steady_rules]: "io.steady (write_str_clearly env t)"
proof -
  have "io.steady (write_clearly_loop env t)" by (induction t) (auto intro!: steady_rules)
  then show ?thesis unfolding write_str_clearly_def by (auto intro!: steady_rules)
qed

lemma steady_to_file [steady_rules]: "io.steady (write_str_to_file env str path)"
  unfolding io.steady_def
proof (intro allI impI)
  fix s t :: "'a qse_sed" assume st: "same s t"
  note f = same_fields [OF st]
  let ?l = "if str = [] then [] else [(Some path, str)]"
  have w: "write_str_to_file env str path s' = (if path \<notin> set (out_files s') \<and> \<not> env_open env path then (Inl (EIOFIL path), s')
     else (Inr (), s'\<lparr>out_files := (if path \<in> set (out_files s') then out_files s' else path # out_files s'), out_log := out_log s' @ ?l\<rparr>))"
    if "out_ans s' = []" for s' :: "'a qse_sed"
    using that by (simp add: write_str_to_file_def Let_def)
  have n: "norm (s'\<lparr>out_files := x, out_log := out_log s' @ ?l\<rparr>) = (norm s')\<lparr>out_files := x, out_log := file_log s' @ ?l\<rparr>"
      "io_ok (s'\<lparr>out_files := x, out_log := out_log s' @ ?l\<rparr>) = io_ok s'" for s' :: "'a qse_sed" and x
    by (simp_all add: io_ok_def norm_def pending_def console_def file_log_def)
  have "same (s\<lparr>out_files := x, out_log := out_log s @ ?l\<rparr>) (t\<lparr>out_files := x, out_log := out_log t @ ?l\<rparr>)" for x
    using st f(14) by (simp add: same_def n)
  moreover have e: "write_str_to_file env str path s = (if path \<notin> set (out_files t) \<and> \<not> env_open env path then (Inl (EIOFIL path), s)
     else (Inr (), s\<lparr>out_files := (if path \<in> set (out_files t) then out_files t else path # out_files t), out_log := out_log s @ ?l\<rparr>))"
    unfolding w [OF f(15)] f(11) by (rule refl)
  ultimately show "fst (write_str_to_file env str path s) = fst (write_str_to_file env str path t) \<and>
      same (snd (write_str_to_file env str path s)) (snd (write_str_to_file env str path t))"
    unfolding e w [OF f(16)] by (cases "path \<notin> set (out_files t) \<and> \<not> env_open env path") (simp_all only: if_True if_False fst_conv snd_conv st simp_thms)
qed

section \<open>The editor\<close>

lemma steady_upd [steady_rules]: "(\<And>s. norm (f s) = f (norm s)) \<Longrightarrow> (\<And>s. io_ok (f s) = io_ok s) \<Longrightarrow> io.steady (upds f)"
  by (rule io.steady_upds) (rule same_update)

lemma steady_set_line [steady_rules]: "io.steady (set_line t)"
  unfolding set_line_def by (intro steady_upd) simp_all

lemma steady_upd_cmd [steady_rules]: "io.steady (upd_cmd i f)"
  unfolding upd_cmd_def by (intro steady_upd) simp_all

lemma steady_use_rex [steady_rules]: "(\<And>r. io.steady (k r)) \<Longrightarrow> io.steady (use_rex rex k)"
  unfolding use_rex_def by (auto intro!: steady_rules io.steady_gets [OF same_fields(8)] split: option.split)

lemma steady_emit_append [steady_rules]: "io.steady (emit_append env cmd)"
proof -
  have "io.steady (write_file_loop fl path ans)" for fl path ans
    by (induction ans) (auto intro!: steady_rules split: option.split list.split)
  then have "io.steady (write_file env fl path)" for fl path
    unfolding write_file_def by (auto intro!: steady_rules io.steady_gets [OF same_fields(6)] split: option.split)
  then show ?thesis unfolding emit_append_def by (auto intro!: steady_rules split: sed_op.split)
qed

lemma steady_emit_output [steady_rules]: "io.steady (emit_output env skip)"
  unfolding emit_output_def by (intro steady_rules) simp_all

lemma steady_do_subst [steady_rules]: "io.steady (do_subst env sub)"
  unfolding do_subst_def by (auto intro!: steady_rules split: prod.split option.split)

lemma steady_do_cut [steady_rules]: "io.steady (do_cut env ct)"
  unfolding do_cut_def by (auto intro!: steady_rules simp: Let_def split: prod.split)

text \<open>The last line is the one after which nothing is pending; looking at the next character takes nothing from what is pending.\<close>

lemma match_dol_pending:
  assumes "io_ok s"
  shows "\<exists>s'. match_dol s = (Inr (pending s = []), s') \<and> io_ok s' \<and> norm s' = norm s"
proof -
  note d = match_dol_def gets_def bnd_def thn_def upds_def ret_def read_char_def pending_def norm_def console_def file_log_def io_ok_def
  consider "in_xbuf_len s = 1" | "in_xbuf_len s = -1" | "in_xbuf_len s = 0" using assms by (auto simp: io_ok_def)
  then show ?thesis
  proof cases
    case 1 then show ?thesis using assms by (auto simp: d)
  next
    case 2 then show ?thesis using assms by (auto simp: d)
  next
    case 3
    show ?thesis
    proof (cases "in_buf s")
      case (Cons c cs) then show ?thesis using assms 3 by (auto simp: d)
    next
      case Nil
      show ?thesis
      proof (cases "in_src s")
        case src: Nil then show ?thesis using assms 3 Nil by (auto simp: d)
      next
        case (Cons a src)
        then obtain c cs where "a = Some (c # cs)" using assms by (cases a; cases "the a") (auto simp: io_ok_def)
        then show ?thesis using assms 3 Nil Cons by (auto simp: d)
      qed
    qed
  qed
qed

lemma steady_match_dol [steady_rules]: "io.steady match_dol"
  unfolding io.steady_def
proof (intro allI impI)
  fix s t :: "'a qse_sed" assume st: "same s t"
  then show "fst (match_dol s) = fst (match_dol t) \<and> same (snd (match_dol s)) (snd (match_dol t))"
    using match_dol_pending [of s] match_dol_pending [of t] same_fields(12) [OF st] by (auto simp: same_def)
qed

lemma steady_match_a [steady_rules]: "io.steady (match_a env cmd a)"
  unfolding match_a_def by (cases a) (auto intro!: steady_rules)

lemma steady_match_address [steady_rules]: "io.steady (match_address env i)"
proof -
  have f: "(sed_cmds s ! i, in_num s) = (sed_cmds t ! i, in_num t)" if "same s t" for s t :: "'a qse_sed" using same_fields [OF that] by simp
  show ?thesis unfolding match_address_def
    by (intro steady_rules io.steady_gets) (rule f, assumption, auto intro!: steady_rules split: sed_adr.split)
qed

lemma steady_exec_cmd [steady_rules]: "io.steady (exec_cmd env i)"
proof -
  have f: "(sed_cmds s ! i, in_line s, txt_hold s) = (sed_cmds t ! i, in_line t, txt_hold t)" if "same s t" for s t :: "'a qse_sed"
    using same_fields [OF that] by simp
  show ?thesis unfolding exec_cmd_def Let_def
    by (intro io.steady_gets) (rule f, assumption, auto intro!: steady_rules io.steady_gets [OF same_fields(7)] split: sed_op.split option.split)
qed

lemma steady_init [steady_rules]: "io.steady (init_all_commands_for_exec env)"
proof -
  have f: "(sed_cmds s ! i, length (sed_cmds s), sed_labs s) = (sed_cmds t ! i, length (sed_cmds t), sed_labs t)" if "same s t" for s t :: "'a qse_sed" and i
    using same_fields [OF that] by simp
  have "io.steady (init_one env i)" for i
    unfolding init_one_def Let_def by (intro io.steady_gets) (rule f, assumption, auto intro!: steady_rules split: sed_op.split option.split)
  then show ?thesis unfolding init_all_commands_for_exec_def by (intro io.steady_gets [OF same_fields(9)] steady_rules)
qed

definition agree :: "((sed_err + 'a) \<times> 'r qse_sed) option \<Rightarrow> ((sed_err + 'a) \<times> 'r qse_sed) option \<Rightarrow> bool" where
  "agree x y \<longleftrightarrow> rel_option (\<lambda>(r, s) (r', s'). r = r' \<and> same s s') x y"

lemma agree_Some [simp]: "agree (Some x) (Some y) \<longleftrightarrow> fst x = fst y \<and> same (snd x) (snd y)" "agree None None"
  by (simp_all add: agree_def case_prod_beta)

lemma steady_agree: "io.steady m \<Longrightarrow> same s t \<Longrightarrow> agree (Some (m s)) (Some (m t))"
  using io.steadyD by simp

lemma cycle_agree: "same s t \<Longrightarrow> agree (cycle env fuel j s) (cycle env fuel j t)"
proof (induction env fuel j s arbitrary: t rule: cycle.induct)
  case (1 env fuel s)
  then show ?case by (simp only: cycle.simps) (intro steady_agree steady_rules)
next
  case (2 env fuel s)
  then show ?case by (simp only: cycle.simps) (intro steady_agree steady_rules)
next
  case (6 env fuel i s)
  obtain r s' t' where m: "match_address env i s = (r, s')" "match_address env i t = (r, t')" "same s' t'"
    using io.steadyD [OF steady_match_address 6(3), of env i] by (metis prod.collapse)
  have c: "sed_cmds s' = sed_cmds t'" using same_fields(9) [OF m(3)] .
  show ?case
  proof (cases r)
    case (Inl e) then show ?thesis using m by simp
  next
    case (Inr n)
    show ?thesis
    proof (cases "n = c_negated (sed_cmds s' ! i)")
      case True then show ?thesis using m c Inr 6(1) [of r s' n] by simp
    next
      case False
      obtain r2 s2 t2 where e: "exec_cmd env i s' = (r2, s2)" "exec_cmd env i t' = (r2, t2)" "same s2 t2"
        using io.steadyD [OF steady_exec_cmd m(3), of env i] by (metis prod.collapse)
      then show ?thesis using m c Inr False 6(2) [of r s' n r2 s2] by (cases r2) auto
    qed
  qed
qed auto

lemma main_loop_agree: "same s t \<Longrightarrow> agree (main_loop env fuel s) (main_loop env fuel t)"
proof (induction env fuel s arbitrary: t rule: main_loop.induct)
  case (2 env fuel s)
  obtain r s' t' where m: "read_line False s = (r, s')" "read_line False t = (r, t')" "same s' t'"
    using io.steadyD [OF steady_read_line 2(2), of False] by (metis prod.collapse)
  have c: "sed_cmds s' = sed_cmds t'" using same_fields(9) [OF m(3)] .
  show ?case
  proof (cases r)
    case (Inl e) then show ?thesis using m by simp
  next
    case (Inr n)
    let ?j = "if sed_cmds t' = [] then Over else At 0"
    show ?thesis
    proof (cases n)
      case True
      have a: "agree (cycle env fuel ?j s') (cycle env fuel ?j t')" using cycle_agree [OF m(3)] .
      show ?thesis
      proof (cases "cycle env fuel ?j s'")
        case None
        then show ?thesis using a m Inr True c by (cases "cycle env fuel ?j t'") (auto simp: agree_def)
      next
        case (Some x)
        then obtain y where y: "cycle env fuel ?j t' = Some y" "fst x = fst y" "same (snd x) (snd y)"
          using a by (cases "cycle env fuel ?j t'") (auto simp: agree_def)
        obtain q s2 t2 where x: "x = (q, s2)" "y = (q, t2)" using y(2) by (metis prod.collapse)
        show ?thesis
        proof (cases q)
          case (Inl e) then show ?thesis using Some y x m Inr True c by simp
        next
          case q: (Inr b)
          then show ?thesis using Some y x m Inr True c 2(1) [of r s' n x q s2 b t2] by (cases b) auto
        qed
      qed
    next
      case False then show ?thesis using m Inr by simp
    qed
  qed
qed simp

end
