(* ===== verification/Qse_Sed_Spec.thy ===== *)
theory Qse_Sed_Spec
  imports Qse_Sed_Io
begin

text \<open>
  What the stream editor's engine promises of whole runs: scripts whose jumps lead forward end, and the results do not depend on the buffering.
\<close>

section \<open>Scripts end\<close>

text \<open>The part of a command that a run does not change.\<close>

definition fixed :: "'r sed_cmd \<Rightarrow> 'r sed_cmd" where
  "fixed c = c\<lparr>c_a1_matched := False, c_a1_match_line := 0, c_ready := False\<rparr>"

definition later :: "'r qse_sed \<Rightarrow> 'r qse_sed \<Rightarrow> bool" where
  "later s s' \<longleftrightarrow> map fixed (sed_cmds s') = map fixed (sed_cmds s) \<and> unread s' \<le> unread s"

interpretation later: act_preorder later
  by unfold_locales (auto simp: later_def)

lemma later_upd:
  "later s (s\<lparr>in_line := a\<rparr>)" "later s (s\<lparr>in_num := b\<rparr>)" "later s (s\<lparr>in_eof := c\<rparr>)" "later s (s\<lparr>txt_hold := d\<rparr>)" "later s (s\<lparr>appends := e\<rparr>)"
  "later s (s\<lparr>reads := f\<rparr>)" "later s (s\<lparr>subst_done := g\<rparr>)" "later s (s\<lparr>last_rex := h\<rparr>)" "later s (s\<lparr>out_files := j\<rparr>)" "later s (put k s)"
  "later s (s\<lparr>out_buf := l, out_ans := m, out_log := n\<rparr>)" "later s (s\<lparr>in_line := a, txt_hold := d\<rparr>)"
  by (simp_all add: later_def unread_def put_def)

lemma unread_fields [simp]:
  "unread (s\<lparr>in_num := b\<rparr>) = unread s" "unread (s\<lparr>in_eof := c\<rparr>) = unread s" "unread (s\<lparr>subst_done := d\<rparr>) = unread s"
  by (simp_all add: unread_def)

lemma later_read_char: "later.keeps read_char"
  by (auto simp: later.keeps_def later_def read_char_def unread_def split: list.split option.split)

lemma line_loop_later:
  "line_loop len s = (r, s') \<Longrightarrow> later s s' \<and> (r = Inr True \<longrightarrow> len = 0 \<longrightarrow> unread s' < unread s)"
proof (induction len s arbitrary: r s' rule: line_loop.induct)
  case (1 len s)
  obtain q s1 where q: "read_char s = (q, s1)" by fastforce
  then have l: "later s s1" using later.keepsD [OF later_read_char] by blast
  show ?case
  proof (cases q)
    case (Inl e)
    then show ?thesis using 1(2) q l by (subst (asm) line_loop.simps) auto
  next
    case (Inr x)
    show ?thesis
    proof (cases x)
      case None
      then show ?thesis using 1(2) q l Inr by (subst (asm) line_loop.simps) (auto simp: Let_def later_def split: if_splits)
    next
      case (Some c)
      then have less: "unread s1 < unread s" using read_char_unread q Inr by blast
      let ?s = "s1\<lparr>in_line := in_line s1 @ [c]\<rparr>"
      show ?thesis
      proof (cases "c = ch_nl")
        case True
        then show ?thesis using 1(2) q l Inr Some less by (subst (asm) line_loop.simps) (auto simp: Let_def later_def)
      next
        case False
        then have e: "line_loop (len + 1) ?s = (r, s')" using 1(2) q Inr Some by (subst (asm) line_loop.simps) (simp add: Let_def)
        have "later ?s s'" using 1(1) [OF q [symmetric] Inr Some refl False e] by blast
        then show ?thesis using l less by (auto simp: later_def)
      qed
    qed
  qed
qed

lemma read_line_later: "read_line app s = (r, s') \<Longrightarrow> later s s' \<and> (r = Inr True \<longrightarrow> unread s' < unread s)"
  using line_loop_later [of 0 s r s'] line_loop_later [of 0 "s\<lparr>in_line := []\<rparr>" r s']
  by (auto simp: read_line_def Let_def later_def split: if_splits)

lemma later_keeps_read_line: "later.keeps (read_line app)"
  unfolding later.keeps_def using read_line_later by (metis prod.collapse)

lemma later_flush: "later.keeps flush"
  by (auto simp: later.keeps_def flush_def Let_def later_upd split: prod.split)

lemma later_write_char: "later.keeps (write_char c)"
  unfolding write_char_def by (intro later.keeps_rules later.keeps_upds later_upd later_flush)

lemma later_write_str: "later.keeps (write_str t)"
proof -
  have "later.keeps (write_str_loop t b)" for b
    by (induction t arbitrary: b) (auto intro!: later.keeps_rules later.keeps_upds later_upd later_flush)
  then show ?thesis unfolding write_str_def by (intro later.keeps_rules later_flush)
qed

lemma later_first_line: "later.keeps (write_first_line t)"
  by (induction t) (auto intro!: later.keeps_rules later_write_char)

lemma later_write_num: "later.keeps (write_num x b w)"
  unfolding write_num_def by (intro later.keeps_rules later_write_char)

lemmas later_io = later.keeps_rules later_flush later_write_char later_write_str later_first_line later_write_num later_keeps_read_line later_read_char

lemma later_clearly: "later.keeps (write_str_clearly env t)"
proof -
  have "later.keeps (write_clearly_loop env t)" by (induction t) (auto intro!: later_io)
  then show ?thesis unfolding write_str_clearly_def by (intro later_io)
qed

lemma later_to_file: "later.keeps (write_str_to_file env str path)"
  by (auto simp: later.keeps_def write_str_to_file_def Let_def later_def unread_def split: prod.split)

lemma later_emit_output: "later.keeps (emit_output env skip)"
proof -
  have "later.keeps (write_file_loop fl path ans)" for fl path ans
    by (induction ans) (auto intro!: later_io split: option.split list.split)
  then have "later.keeps (write_file env fl path)" for fl path
    unfolding write_file_def by (auto intro!: later_io later.keeps_upds later_upd split: option.split)
  then have "later.keeps (emit_append env cmd)" for cmd
    unfolding emit_append_def by (auto intro!: later_io split: sed_op.split)
  then show ?thesis unfolding emit_output_def by (intro later_io later.keeps_upds later_upd) simp_all
qed

lemma later_do_subst: "later.keeps (do_subst env sub)"
  unfolding do_subst_def
  by (auto intro!: later_io later.keeps_use_rex later.keeps_upds later_upd later_to_file split: prod.split option.split)

lemma later_do_cut: "later.keeps (do_cut env ct)"
  unfolding do_cut_def by (auto intro!: later_io later.keeps_upds later_upd simp: Let_def split: prod.split)

lemma fixed_update: "(\<And>c. fixed (f c) = fixed c) \<Longrightarrow> map fixed (cs[i := f (cs ! i)]) = map fixed cs"
  by (cases "i < length cs") (auto simp: map_update intro!: nth_equalityI simp: nth_list_update)

lemma later_upd_cmd: "(\<And>c. fixed (f c) = fixed c) \<Longrightarrow> later.keeps (upd_cmd i f)"
  unfolding upd_cmd_def by (rule later.keeps_upds) (simp add: later_def unread_def fixed_update)

lemma later_match_a: "later.keeps (match_a env cmd a)"
proof -
  have "later.keeps match_dol"
    by (auto simp: later.keeps_def match_dol_def gets_def bnd_def thn_def upds_def ret_def read_char_def later_def unread_def split: list.split option.split)
  then show ?thesis unfolding match_a_def by (cases a) (auto intro!: later_io later.keeps_use_rex later_upd)
qed

lemma later_match_address: "later.keeps (match_address env i)"
  unfolding match_address_def
  by (auto intro!: later_io later_match_a later_upd_cmd simp: fixed_def split: sed_adr.split prod.split)

lemma later_exec_cmd: "later.keeps (exec_cmd env i)"
  unfolding exec_cmd_def Let_def set_line_def
  by (auto intro!: later_io later.keeps_upds later_upd later_clearly later_to_file later_emit_output later_do_subst later_do_cut split: sed_op.split prod.split option.split)

text \<open>Where a command can lead.\<close>

lemma thn_ret: "thn m (ret x) s = (Inr j, s') \<Longrightarrow> j = x"
  by (auto simp: thn_def bnd_def ret_def split: prod.splits sum.splits)

lemma bnd_ret: "bnd m (\<lambda>n. if n then ret x else ret y) s = (Inr j, s') \<Longrightarrow> j = x \<or> j = y"
  by (auto simp: bnd_def ret_def split: prod.splits sum.splits if_splits)

lemma thn_thn: "thn m n s = (Inr j, s') \<Longrightarrow> \<exists>s1. n s1 = (Inr j, s')"
  by (auto simp: thn_def bnd_def split: prod.splits sum.splits)

lemma gets_D: "gets f k s = (Inr j, s') \<Longrightarrow> k (f s) s = (Inr j, s')"
  by (simp add: gets_def)

definition targets :: "'r sed_cmd \<Rightarrow> jump set" where
  "targets c = {c_next c, Over, Quit, Quit_quiet} \<union>
     (case c_type c of CMD_BRANCH l (Some j) \<Rightarrow> {j} | CMD_BRANCH_COND l (Some j) \<Rightarrow> {j} | CMD_DELETE_FIRSTLN \<Rightarrow> {Again} | _ \<Rightarrow> {})"

lemma exec_cmd_targets:
  assumes "exec_cmd env i s = (Inr j, s')"
  shows "j \<in> targets (sed_cmds s ! i)"
proof -
  note e = assms [unfolded exec_cmd_def Let_def, THEN gets_D, simplified prod.case]
  show ?thesis
  proof (cases "c_type (sed_cmds s ! i)")
    case CMD_PRINT_LNNUM
    then show ?thesis using e by (auto simp: gets_def targets_def ret_def dest!: thn_thn)
  next
    case CMD_NEXT
    then show ?thesis using e by (auto simp: targets_def dest!: thn_thn bnd_ret)
  next
    case CMD_NEXT_APPEND
    then show ?thesis using e by (auto simp: targets_def dest!: thn_thn bnd_ret)
  next
    case (CMD_CUT ct)
    then show ?thesis using e by (auto simp: targets_def dest!: bnd_ret)
  next
    case (CMD_BRANCH_COND l t)
    then show ?thesis using e by (auto simp: targets_def gets_def ret_def fail_def split: if_splits option.splits dest!: thn_thn)
  next
    case (CMD_BRANCH l t)
    then show ?thesis using e by (auto simp: targets_def ret_def fail_def split: option.splits)
  qed (use e in \<open>auto simp: targets_def ret_def split: if_splits dest!: thn_ret\<close>)
qed

text \<open>A jump from the command at \<open>i\<close> in a script of \<open>n\<close> commands leads forward or out of the script.\<close>

definition ahead :: "nat \<Rightarrow> nat \<Rightarrow> jump \<Rightarrow> bool" where
  "ahead n i j \<longleftrightarrow> (case j of At k \<Rightarrow> i < k \<and> k < n | Again \<Rightarrow> False | _ \<Rightarrow> True)"

definition forward :: "'r sed_cmd list \<Rightarrow> bool" where
  "forward cs \<longleftrightarrow> (\<forall>i < length cs. \<forall>j \<in> targets (cs ! i). ahead (length cs) i j)"

lemma targets_fixed: "targets (fixed c) = targets c"
  by (simp add: targets_def fixed_def)

lemma forward_fixed: "forward (map fixed cs) = forward cs"
  by (auto simp: forward_def targets_fixed)

lemma later_forward: "later s s' \<Longrightarrow> forward (sed_cmds s) \<Longrightarrow> forward (sed_cmds s') \<and> length (sed_cmds s') = length (sed_cmds s)"
  by (metis forward_fixed later_def length_map)

lemma cycle_out:
  assumes "ahead n i j" "\<nexists>k. j = At k"
  shows "\<exists>r s'. cycle env fuel j s = Some (r, s') \<and> later s s'"
proof -
  have "later.keeps (bnd (emit_output env False) (\<lambda>_. ret b))" for b by (intro later_io later_emit_output)
  then have "\<exists>r s'. bnd (emit_output env False) (\<lambda>_. ret b) s = (r, s') \<and> later s s'" for b by (metis later.keepsD prod.collapse)
  then show ?thesis using assms later.R_refl by (cases j) (auto simp: ahead_def)
qed

lemma cycle_returns:
  assumes "forward (sed_cmds s)" "i < length (sed_cmds s)" "length (sed_cmds s) - i \<le> fuel"
  shows "\<exists>r s'. cycle env fuel (At i) s = Some (r, s') \<and> later s s'"
  using assms
proof (induction fuel arbitrary: i s)
  case (Suc fuel)
  obtain r s1 where m: "match_address env i s = (r, s1)" by fastforce
  have l1: "later s s1" using later.keepsD [OF later_match_address m] .
  note f1 = later_forward [OF l1 Suc.prems(1)]
  have jump: "\<exists>r s'. cycle env fuel j s2 = Some (r, s') \<and> later s s'"
    if t: "j \<in> targets (sed_cmds s1 ! i)" and l2: "later s1 s2" for j s2
  proof -
    have a: "ahead (length (sed_cmds s)) i j" using f1 t Suc.prems(2) by (auto simp: forward_def)
    have l: "later s s2" using later.R_trans [OF l1 l2] .
    show ?thesis
    proof (cases "\<exists>k. j = At k")
      case True
      then obtain k where k: "j = At k" "i < k" "k < length (sed_cmds s)" using a by (auto simp: ahead_def)
      have "\<exists>r s'. cycle env fuel (At k) s2 = Some (r, s') \<and> later s2 s'"
        using later_forward [OF l Suc.prems(1)] k Suc.prems(3) by (intro Suc.IH) auto
      then show ?thesis using k(1) later.R_trans [OF l] by blast
    next
      case False
      then show ?thesis using cycle_out [OF a False] later.R_trans [OF l] by blast
    qed
  qed
  show ?case
  proof (cases r)
    case (Inl e)
    then show ?thesis using m l1 by auto
  next
    case (Inr n)
    show ?thesis
    proof (cases "n = c_negated (sed_cmds s1 ! i)")
      case True
      then show ?thesis using m Inr jump [of "c_next (sed_cmds s1 ! i)" s1] later.R_refl by (auto simp: targets_def)
    next
      case False
      obtain q s2 where e: "exec_cmd env i s1 = (q, s2)" by fastforce
      have l2: "later s1 s2" using later.keepsD [OF later_exec_cmd e] .
      show ?thesis
      proof (cases q)
        case q: (Inl e)
        then show ?thesis using m Inr False e later.R_trans [OF l1 l2] by auto
      next
        case q: (Inr j)
        then show ?thesis using m Inr False e jump [OF exec_cmd_targets l2, of env j s2] by auto
      qed
    qed
  qed
qed simp

lemma main_loop_returns:
  assumes "forward (sed_cmds s)" "unread s + length (sed_cmds s) + 1 < fuel"
  shows "\<exists>r. main_loop env fuel s = Some r"
  using assms
proof (induction fuel arbitrary: s)
  case (Suc fuel)
  obtain q s1 where q: "read_line False s = (q, s1)" by fastforce
  note l1 = read_line_later [OF q]
  show ?case
  proof (cases "q = Inr True")
    case True
    note f1 = later_forward [OF conjunct1 [OF l1] Suc.prems(1)]
    let ?j = "if sed_cmds s1 = [] then Over else At 0"
    have "\<exists>r s2. cycle env fuel ?j s1 = Some (r, s2) \<and> later s1 s2"
    proof (cases "sed_cmds s1 = []")
      case True
      then show ?thesis using cycle_out [of 0 0 Over env fuel s1] by (simp add: ahead_def)
    next
      case False
      then have "0 < length (sed_cmds s1)" "length (sed_cmds s1) - 0 \<le> fuel" using f1 Suc.prems(2) by auto
      then show ?thesis using cycle_returns [of s1 0 fuel env] f1 False by simp
    qed
    then obtain r s2 where c: "cycle env fuel ?j s1 = Some (r, s2)" "later s1 s2" by blast
    have "\<exists>r. main_loop env fuel s2 = Some r"
      using later_forward [OF c(2)] f1 l1 True c(2) Suc.prems(2) by (intro Suc.IH) (auto simp: later_def)
    then show ?thesis using q True c(1) by (auto split: sum.split bool.split)
  next
    case False
    then show ?thesis using q by (auto split: sum.split bool.split)
  qed
qed simp

text \<open>What the initialisation makes of a command: the next command is set and a label is resolved.\<close>

definition prepared :: "(utext \<times> nat) list \<Rightarrow> nat \<Rightarrow> nat \<Rightarrow> 'r sed_cmd \<Rightarrow> 'r sed_cmd \<Rightarrow> bool" where
  "prepared labs n i c c' \<longleftrightarrow> c_next c' = (if i + 1 \<ge> n then Over else At (i + 1)) \<and>
     (case c_type c of
        CMD_BRANCH l t \<Rightarrow> \<exists>j. resolve labs l t = Inr j \<and> c_type c' = CMD_BRANCH l j
      | CMD_BRANCH_COND l t \<Rightarrow> \<exists>j. resolve labs l t = Inr j \<and> c_type c' = CMD_BRANCH_COND l j
      | _ \<Rightarrow> c_type c' = c_type c)"

lemma to_file_cmds: "write_str_to_file env t f s = (r, s') \<Longrightarrow> sed_cmds s' = sed_cmds s \<and> sed_labs s' = sed_labs s \<and> unread s' = unread s"
  by (auto simp: write_str_to_file_def Let_def unread_def split: if_splits prod.splits)

lemma init_one_prepared:
  assumes "init_one env i s = (Inr u, s')" "i < length (sed_cmds s)"
  shows "\<exists>c'. sed_cmds s' = (sed_cmds s)[i := c'] \<and> prepared (sed_labs s) (length (sed_cmds s)) i (sed_cmds s ! i) c' \<and> sed_labs s' = sed_labs s \<and> unread s' = unread s"
proof -
  define c where "c = sed_cmds s ! i"
  define z where "z = (env_extendedadr env \<and> (case c_a2 c of ADR_REX r \<Rightarrow> True | _ \<Rightarrow> False) \<and> c_a1 c = ADR_LINE 0)"
  define d where "d = c\<lparr>c_a1_matched := z, c_a1_match_line := (if z then 0 else c_a1_match_line c), c_ready := False,
    c_next := (if i + 1 \<ge> length (sed_cmds s) then Over else At (i + 1))\<rparr>"
  define s1 where "s1 = s\<lparr>sed_cmds := (sed_cmds s)[i := d]\<rparr>"
  have s1: "sed_cmds s1 = (sed_cmds s)[i := d]" "sed_labs s1 = sed_labs s" "unread s1 = unread s" by (simp_all add: s1_def unread_def)
  have e: "(case c_type c of
            CMD_BRANCH l t \<Rightarrow> lift (resolve (sed_labs s) l t) (\<lambda>j. upd_cmd i (\<lambda>c. c\<lparr>c_type := CMD_BRANCH l j\<rparr>))
          | CMD_BRANCH_COND l t \<Rightarrow> lift (resolve (sed_labs s) l t) (\<lambda>j. upd_cmd i (\<lambda>c. c\<lparr>c_type := CMD_BRANCH_COND l j\<rparr>))
          | CMD_WRITE_FILE f \<Rightarrow> write_str_to_file env [] f
          | CMD_WRITE_FILELN f \<Rightarrow> write_str_to_file env [] f
          | CMD_SUBSTITUTE sub \<Rightarrow> (case sub_file sub of None \<Rightarrow> ret () | Some f \<Rightarrow> write_str_to_file env [] f)
          | _ \<Rightarrow> ret ()) s1 = (Inr u, s')"
    using assms(1) unfolding init_one_def gets_def thn_def bnd_def upd_cmd_def upds_def Let_def s1_def d_def z_def c_def by simp
  have keep: "\<exists>c'. sed_cmds s' = (sed_cmds s)[i := c'] \<and> prepared (sed_labs s) (length (sed_cmds s)) i c c' \<and> sed_labs s' = sed_labs s \<and> unread s' = unread s"
    if "sed_cmds s' = sed_cmds s1" "sed_labs s' = sed_labs s1" "unread s' = unread s1"
      "case c_type c of CMD_BRANCH l t \<Rightarrow> False | CMD_BRANCH_COND l t \<Rightarrow> False | _ \<Rightarrow> True"
    using that s1 by (intro exI [of _ d]) (auto simp: prepared_def d_def split: sed_op.splits)
  have branch: "\<exists>c'. sed_cmds s' = (sed_cmds s)[i := c'] \<and> prepared (sed_labs s) (length (sed_cmds s)) i c c' \<and> sed_labs s' = sed_labs s \<and> unread s' = unread s"
    if "lift (resolve (sed_labs s) l t) (\<lambda>j. upd_cmd i (\<lambda>c. c\<lparr>c_type := f l j\<rparr>)) s1 = (Inr u, s')"
      "c_type c = f l t \<and> f = CMD_BRANCH \<or> c_type c = f l t \<and> f = CMD_BRANCH_COND" for l t f
  proof (cases "resolve (sed_labs s) l t")
    case (Inl a)
    then show ?thesis using that by (simp add: lift_def fail_def)
  next
    case (Inr j)
    then have "s' = s1\<lparr>sed_cmds := (sed_cmds s)[i := d\<lparr>c_type := f l j\<rparr>]\<rparr>" using that assms(2) s1 by (auto simp: lift_def upd_cmd_def upds_def)
    then show ?thesis using Inr that(2) s1 by (intro exI [of _ "d\<lparr>c_type := f l j\<rparr>"]) (auto simp: prepared_def d_def unread_def)
  qed
  show ?thesis unfolding c_def [symmetric]
  proof (cases "c_type c")
    case (CMD_BRANCH l t)
    then show "\<exists>c'. sed_cmds s' = (sed_cmds s)[i := c'] \<and> prepared (sed_labs s) (length (sed_cmds s)) i c c' \<and> sed_labs s' = sed_labs s \<and> unread s' = unread s"
      using branch [of l t CMD_BRANCH] e by simp
  next
    case (CMD_BRANCH_COND l t)
    then show "\<exists>c'. sed_cmds s' = (sed_cmds s)[i := c'] \<and> prepared (sed_labs s) (length (sed_cmds s)) i c c' \<and> sed_labs s' = sed_labs s \<and> unread s' = unread s"
      using branch [of l t CMD_BRANCH_COND] e by simp
  next
    case (CMD_WRITE_FILE f)
    then show "\<exists>c'. sed_cmds s' = (sed_cmds s)[i := c'] \<and> prepared (sed_labs s) (length (sed_cmds s)) i c c' \<and> sed_labs s' = sed_labs s \<and> unread s' = unread s"
      using e to_file_cmds [of env "[]" f s1 "Inr u" s'] by (intro keep) auto
  next
    case (CMD_WRITE_FILELN f)
    then show "\<exists>c'. sed_cmds s' = (sed_cmds s)[i := c'] \<and> prepared (sed_labs s) (length (sed_cmds s)) i c c' \<and> sed_labs s' = sed_labs s \<and> unread s' = unread s"
      using e to_file_cmds [of env "[]" f s1 "Inr u" s'] by (intro keep) auto
  next
    case (CMD_SUBSTITUTE sub)
    then show "\<exists>c'. sed_cmds s' = (sed_cmds s)[i := c'] \<and> prepared (sed_labs s) (length (sed_cmds s)) i c c' \<and> sed_labs s' = sed_labs s \<and> unread s' = unread s"
      using e to_file_cmds [of env "[]" "the (sub_file sub)" s1 "Inr u" s'] by (intro keep) (auto simp: ret_def split: option.splits)
  qed (use e in \<open>intro keep; auto simp: ret_def\<close>)+
qed

lemma init_each_prepared:
  assumes "each (init_one env) xs s = (Inr u, s')" "distinct xs" "\<forall>i \<in> set xs. i < length (sed_cmds s)"
  shows "length (sed_cmds s') = length (sed_cmds s) \<and> sed_labs s' = sed_labs s \<and> unread s' = unread s \<and>
    (\<forall>i < length (sed_cmds s). if i \<in> set xs then prepared (sed_labs s) (length (sed_cmds s)) i (sed_cmds s ! i) (sed_cmds s' ! i)
       else sed_cmds s' ! i = sed_cmds s ! i)"
  using assms
proof (induction xs arbitrary: s)
  case Nil
  then show ?case by (simp add: ret_def)
next
  case (Cons x xs)
  then obtain v s1 where s1: "init_one env x s = (Inr v, s1)" "each (init_one env) xs s1 = (Inr u, s')"
    by (auto simp: thn_def bnd_def split: prod.splits sum.splits)
  obtain c' where c: "sed_cmds s1 = (sed_cmds s)[x := c']" "prepared (sed_labs s) (length (sed_cmds s)) x (sed_cmds s ! x) c'" "sed_labs s1 = sed_labs s"
      "unread s1 = unread s"
    using init_one_prepared [OF s1(1)] Cons.prems(3) by auto
  have ih: "length (sed_cmds s') = length (sed_cmds s1) \<and> sed_labs s' = sed_labs s1 \<and> unread s' = unread s1 \<and>
    (\<forall>i < length (sed_cmds s1). if i \<in> set xs then prepared (sed_labs s1) (length (sed_cmds s1)) i (sed_cmds s1 ! i) (sed_cmds s' ! i)
       else sed_cmds s' ! i = sed_cmds s1 ! i)"
    by (rule Cons.IH [OF s1(2)]) (use Cons.prems(2,3) c(1) in simp_all)
  then show ?case using c Cons.prems(2,3) by (auto simp: nth_list_update split: if_splits)
qed

text \<open>A script whose branches lead forward and that does not restart the cycle with \<open>D\<close>.\<close>

definition forward_script :: "(utext \<times> nat) list \<Rightarrow> 'r sed_cmd list \<Rightarrow> bool" where
  "forward_script labs cs \<longleftrightarrow> (\<forall>i < length cs.
     case c_type (cs ! i) of
       CMD_BRANCH l t \<Rightarrow> (\<forall>j. resolve labs l t = Inr (Some j) \<longrightarrow> ahead (length cs) i j)
     | CMD_BRANCH_COND l t \<Rightarrow> (\<forall>j. resolve labs l t = Inr (Some j) \<longrightarrow> ahead (length cs) i j)
     | CMD_DELETE_FIRSTLN \<Rightarrow> False
     | _ \<Rightarrow> True)"

lemma prepared_ahead:
  assumes "prepared labs n i c c'" "i < n" "j \<in> targets c'"
    "case c_type c of CMD_BRANCH l t \<Rightarrow> (\<forall>j. resolve labs l t = Inr (Some j) \<longrightarrow> ahead n i j)
     | CMD_BRANCH_COND l t \<Rightarrow> (\<forall>j. resolve labs l t = Inr (Some j) \<longrightarrow> ahead n i j) | CMD_DELETE_FIRSTLN \<Rightarrow> False | _ \<Rightarrow> True"
  shows "ahead n i j"
  using assms by (cases "c_type c") (auto simp: prepared_def targets_def ahead_def split: if_splits option.splits)

lemma init_all_forward:
  assumes "init_all_commands_for_exec env s = (Inr u, s')" "forward_script (sed_labs s) (sed_cmds s)"
  shows "forward (sed_cmds s')" "length (sed_cmds s') = length (sed_cmds s)" "unread s' = unread s"
proof -
  have p: "length (sed_cmds s') = length (sed_cmds s)" "unread s' = unread s"
    "\<forall>i < length (sed_cmds s). prepared (sed_labs s) (length (sed_cmds s)) i (sed_cmds s ! i) (sed_cmds s' ! i)"
    using init_each_prepared [of env "[0..<length (sed_cmds s)]" s u s'] assms(1) by (auto simp: init_all_commands_for_exec_def gets_def)
  then show "length (sed_cmds s') = length (sed_cmds s)" "unread s' = unread s" by auto
  show "forward (sed_cmds s')" unfolding forward_def p(1)
  proof (intro allI impI ballI)
    fix i j assume i: "i < length (sed_cmds s)" and j: "j \<in> targets (sed_cmds s' ! i)"
    then show "ahead (length (sed_cmds s)) i j"
      using assms(2) by (intro prepared_ahead [OF p(3) [rule_format, OF i] i j]) (simp add: forward_script_def)
  qed
qed

section \<open>Properties\<close>

definition src_size :: "utext option list \<Rightarrow> nat" where
  "src_size src = sum_list (map (\<lambda>a. case a of None \<Rightarrow> 1 | Some t \<Rightarrow> length t + 1) src)"

text \<open>
  A script whose branches lead forward, and that does not restart the cycle with \<open>D\<close>, ends on every input and with every output handler, also
  when they fail: one pass through the commands for every character of the input is enough.
\<close>

theorem qse_sed_exec_returns:
  assumes "forward_script (sed_labs s) (sed_cmds s)" "in_xbuf_len s \<le> 1" "src_size src + length (sed_cmds s) + 2 < fuel"
  shows "\<exists>r s'. qse_sed_exec env fuel src ans s = Some (r, s')"
proof -
  let ?s = "exec_start src ans s"
  have s: "sed_cmds ?s = sed_cmds s" "sed_labs ?s = sed_labs s" "unread ?s \<le> src_size src + 1" using assms(2) by (simp_all add: exec_start_def unread_def src_size_def)
  obtain r s1 where i: "init_all_commands_for_exec env ?s = (r, s1)" by fastforce
  show ?thesis
  proof (cases r)
    case (Inl e)
    then show ?thesis using i by (simp add: qse_sed_exec_def exec_finish_def Let_def)
  next
    case (Inr u)
    have f: "forward (sed_cmds s1)" "length (sed_cmds s1) = length (sed_cmds s)" "unread s1 = unread ?s"
      using init_all_forward [of env ?s u s1] i Inr assms(1) s by simp_all
    then have "\<exists>r. main_loop env fuel s1 = Some r" using s(3) assms(3) by (intro main_loop_returns) simp_all
    then show ?thesis using i Inr by (auto simp: qse_sed_exec_def exec_finish_def Let_def)
  qed
qed

text \<open>
  C9. The buffering does not show. Two input handlers that deliver the same text, cut into pieces at whatever places, make a run end with the same
  status, the same text on the console, the same writes to files and the same number of lines read. The look-ahead for the
  address \<open>$\<close> and the flushing of the output buffer do not change what is read and written.
\<close>

theorem qse_sed_exec_buffering:
  assumes "\<forall>a \<in> set src. a \<noteq> None \<and> a \<noteq> Some []" "\<forall>a \<in> set src'. a \<noteq> None \<and> a \<noteq> Some []" "concat (map the src) = concat (map the src')" "in_xbuf_len s = 0"
  shows "map_option (\<lambda>(r, s'). (r, console s', file_log s', in_num s')) (qse_sed_exec env fuel src [] s) =
    map_option (\<lambda>(r, s'). (r, console s', file_log s', in_num s')) (qse_sed_exec env fuel src' [] s)"
proof -
  let ?s = "exec_start src [] s" and ?t = "exec_start src' [] s"
  have m: "map (\<lambda>a. case a of None \<Rightarrow> [] | Some t \<Rightarrow> t) x = map the x" if "\<forall>a \<in> set x. a \<noteq> None \<and> a \<noteq> Some []" for x :: "utext option list"
    using that by (induction x) auto
  have st: "same ?s ?t"
    using assms by (simp add: same_def io_ok_def norm_def exec_start_def pending_def console_def file_log_def m)
  obtain r s1 t1 where i: "init_all_commands_for_exec env ?s = (r, s1)" "init_all_commands_for_exec env ?t = (r, t1)" "same s1 t1"
    using io.steadyD [OF steady_init st, of env] by (metis prod.collapse)
  have fin: "agree (map_option exec_finish x) (map_option exec_finish y)" if "agree x y" for x y :: "((sed_err + unit) \<times> 'a qse_sed) option"
    using that by (cases x; cases y) (auto simp: agree_def exec_finish_def same_def)
  have "agree (qse_sed_exec env fuel src [] s) (qse_sed_exec env fuel src' [] s)"
    using i st fin [OF main_loop_agree [OF i(3), of env fuel]] by (cases r) (auto simp: qse_sed_exec_def exec_finish_def Let_def same_def)
  then show ?thesis
    using same_fields(2,13,14) by (cases "qse_sed_exec env fuel src [] s"; cases "qse_sed_exec env fuel src' [] s") (auto simp: agree_def)
qed

section \<open>Examples\<close>

text \<open>A fresh editor with a script, and an environment whose matcher finds the first occurrence of a character.\<close>

definition fresh :: "(utext \<times> nat) list \<Rightarrow> uchar sed_cmd list \<Rightarrow> uchar qse_sed" where
  "fresh labs cs = \<lparr>in_src = [], in_buf = [], in_xbuf = 0, in_xbuf_len = 0, in_eof = False, in_line = [], in_num = 0, out_buf = [], out_ans = [],
     out_log = [], out_files = [], txt_hold = [], appends = [], reads = 0, subst_done = False, last_rex = None, sed_cmds = cs, sed_labs = labs,
     sed_grp = [], src_ans = [], src_buf = [], src_eof = False, src_cc = None, src_loc = (1, 0), err_loc = (0, 0)\<rparr>"

definition simple_env :: "bool \<Rightarrow> uchar sed_env" where
  "simple_env quiet = \<lparr>env_tre = (\<lambda>c notbol str. if c \<in> set str then (let k = length (takeWhile (\<lambda>d. d \<noteq> c) str) in Rex_match k (k + 1) []) else Rex_nomatch),
     env_read = (\<lambda>k f. None), env_open = (\<lambda>f. True), env_isprint = (\<lambda>c. 32 \<le> c \<and> c < 127), env_isspace = (\<lambda>c. c = 32), env_quiet = quiet, env_extendedadr = False, env_open_in = True, env_open_out = True,
     env_build = (\<lambda>t ic. case t of [c] \<Rightarrow> Built c | _ \<Rightarrow> Build_error), env_isdigit = (\<lambda>c. 48 \<le> c \<and> c \<le> 57), env_open_script = True,
     env_stripls = False, env_keeptbs = False, env_ensurenl = False, env_strict = False, env_sameline = True\<rparr>"

definition cmd_at :: "uchar sed_adr \<Rightarrow> uchar sed_adr \<Rightarrow> uchar sed_op \<Rightarrow> uchar sed_cmd" where
  "cmd_at a b t = \<lparr>c_type = t, c_negated = False, c_a1 = a, c_a2 = b, c_a1_matched = False, c_a1_match_line = 0, c_ready = False, c_next = Over\<rparr>"

theorem qse_sed_exec_returns_witness:
  "\<exists>r s'. qse_sed_exec (simple_env False) 20 [Some [97, 10], None] [0] (fresh [([120], 1)] [cmd_at ADR_DOL ADR_NONE (CMD_BRANCH (Some [120]) None), cmd_at ADR_NONE ADR_NONE CMD_PRINT]) = Some (r, s')"
  by (rule qse_sed_exec_returns) (simp_all add: fresh_def cmd_at_def forward_script_def less_Suc_eq resolve_def ahead_def src_size_def)

theorem qse_sed_exec_buffering_witness:
  "map_option (\<lambda>(r, s'). (r, console s', file_log s', in_num s')) (qse_sed_exec (simple_env False) 20 [Some [97, 10], Some [98]] [] (fresh [] [cmd_at ADR_DOL ADR_NONE CMD_PRINT])) =
   map_option (\<lambda>(r, s'). (r, console s', file_log s', in_num s')) (qse_sed_exec (simple_env False) 20 [Some [97], Some [10, 98]] [] (fresh [] [cmd_at ADR_DOL ADR_NONE CMD_PRINT])) \<and>
   map_option (\<lambda>(r, s'). console s') (qse_sed_exec (simple_env False) 20 [Some [97, 10], Some [98]] [] (fresh [] [cmd_at ADR_DOL ADR_NONE CMD_PRINT])) = Some [97, 10, 98, 98]"
proof (intro conjI)
  show "map_option (\<lambda>(r, s'). (r, console s', file_log s', in_num s')) (qse_sed_exec (simple_env False) 20 [Some [97, 10], Some [98]] [] (fresh [] [cmd_at ADR_DOL ADR_NONE CMD_PRINT])) =
   map_option (\<lambda>(r, s'). (r, console s', file_log s', in_num s')) (qse_sed_exec (simple_env False) 20 [Some [97], Some [10, 98]] [] (fresh [] [cmd_at ADR_DOL ADR_NONE CMD_PRINT]))"
    by (rule qse_sed_exec_buffering) (simp_all add: fresh_def)
  show "map_option (\<lambda>(r, s'). console s') (qse_sed_exec (simple_env False) 20 [Some [97, 10], Some [98]] [] (fresh [] [cmd_at ADR_DOL ADR_NONE CMD_PRINT])) = Some [97, 10, 98, 98]"
    by code_simp
qed

end
