(* ===== verification/Qse_Sed_Cmds.thy ===== *)
theory Qse_Sed_Cmds
  imports Qse_Sed_Spec
begin

text \<open>
  What single commands of the stream editor do: line addresses select the lines they name, numbers are written digit by digit, a substitution
  replaces what the matcher finds and nothing else. Also two places where the engine does not do what it means to: a partial write to a file, and a second run after
  the address \<open>$\<close>.
\<close>

section \<open>Line addresses\<close>

lemma range_step:
  assumes "i < length (sed_cmds s)" "sed_cmds s ! i = c" "c_a1 c = ADR_LINE m" "c_a2 c = ADR_LINE n" "in_num s = Suc k"
    "c_a1_matched c \<longleftrightarrow> m \<le> k \<and> k < n"
  shows "\<exists>c'. match_address env i s = (Inr (m \<le> Suc k \<and> Suc k \<le> max m n), s\<lparr>sed_cmds := (sed_cmds s)[i := c']\<rparr>) \<and> fixed c' = fixed c \<and>
    (c_a1_matched c' \<longleftrightarrow> m \<le> Suc k \<and> Suc k < n)"
proof -
  note d = match_address_def thn_def bnd_def gets_def upd_cmd_def upds_def ret_def match_a_def fixed_def
  consider "c_a1_matched c" "Suc k = n" | "c_a1_matched c" "Suc k \<noteq> n" | "\<not> c_a1_matched c" "Suc k \<noteq> m" | "\<not> c_a1_matched c" "Suc k = m" "m \<ge> n" | "\<not> c_a1_matched c" "Suc k = m" "m < n"
    by linarith
  then show ?thesis
  proof cases
    case 1
    then show ?thesis using assms by (intro exI [of _ "c\<lparr>c_a1_matched := False, c_ready := True\<rparr>"]) (auto simp: d)
  next
    case 2
    then show ?thesis using assms by (intro exI [of _ "c\<lparr>c_ready := False\<rparr>"]) (auto simp: d)
  next
    case 3
    then show ?thesis using assms by (intro exI [of _ "c\<lparr>c_ready := False\<rparr>"]) (auto simp: d)
  next
    case 4
    then show ?thesis using assms by (intro exI [of _ "c\<lparr>c_ready := True\<rparr>"]) (auto simp: d)
  next
    case 5
    then show ?thesis using assms by (intro exI [of _ "c\<lparr>c_ready := False, c_a1_matched := True, c_a1_match_line := m\<rparr>"]) (auto simp: d)
  qed
qed

text \<open>The lines of a text, each with its newline.\<close>

function lines_of :: "utext \<Rightarrow> utext list" where
  "lines_of [] = []"
| "lines_of (c # t) = fst (cut_line (c # t)) # lines_of (snd (cut_line (c # t)))"
  by pat_completeness auto
termination by (relation "measure length") (auto simp: cut_line_def first_line_def)

declare lines_of.simps [simp del]

lemma cut_line_append: "fst (cut_line t) @ snd (cut_line t) = t"
  by (induction t) auto

lemma cut_line_last: "ch_nl \<notin> set t \<Longrightarrow> snd (cut_line t) = []"
  by (induction t) auto

lemma concat_lines_of: "concat (lines_of t) = t"
  by (induction t rule: lines_of.induct) (simp_all add: lines_of.simps cut_line_append)

lemma read_line_next:
  assumes "io_ok s" "in_eof s \<longrightarrow> pending s = []"
  shows "\<exists>s'. read_line False s = (Inr (pending s \<noteq> []), s') \<and> io_ok s' \<and> pending s' = snd (cut_line (pending s)) \<and> in_line s' = fst (cut_line (pending s)) \<and>
    in_num s' = in_num s + (if pending s = [] then 0 else 1) \<and> console s' = console s \<and> appends s' = appends s \<and> sed_cmds s' = sed_cmds s \<and>
    (in_eof s' \<longrightarrow> pending s' = [])"
proof (cases "in_eof s")
  case True
  then show ?thesis using assms by (intro exI [of _ "s\<lparr>in_line := []\<rparr>"]) (auto simp: read_line_def console_def)
next
  case False
  let ?s = "s\<lparr>in_line := []\<rparr>"
  have "io_ok ?s" using assms(1) by simp
  from line_loop_pending [OF this, of 0] obtain s' where r: "line_loop 0 ?s = (Inr (pending s \<noteq> []), s')" "io_ok s'" and
    n: "norm s' = (norm ?s)\<lparr>in_line := in_line ?s @ fst (cut_line (pending ?s)), in_buf := snd (cut_line (pending ?s)),
      in_eof := (in_eof ?s \<or> ch_nl \<notin> set (pending ?s)),
      in_num := in_num ?s + (if (0::nat) \<noteq> 0 \<or> pending ?s \<noteq> [] then 1 else 0), subst_done := (subst_done ?s \<and> (0::nat) = 0 \<and> pending ?s = [])\<rparr>"
    by auto
  show ?thesis
    using r False cut_line_last [of "pending s"] arg_cong [OF n, of in_line] arg_cong [OF n, of in_buf] arg_cong [OF n, of in_eof] arg_cong [OF n, of in_num]
      arg_cong [OF n, of out_buf] arg_cong [OF n, of appends] arg_cong [OF n, of sed_cmds]
    by (intro exI [of _ s']) (auto simp: read_line_def Let_def console_def)
qed

lemma printed_fields:
  assumes "printed w s s'"
  shows "io_ok s'" "console s' = console s @ w" "pending s' = pending s" "in_eof s' = in_eof s" "in_num s' = in_num s" "appends s' = appends s" "sed_cmds s' = sed_cmds s"
    "in_line s' = in_line s"
proof -
  have n: "norm s' = (norm s)\<lparr>out_buf := console s @ w\<rparr>" using assms by (simp add: printed_def)
  show "io_ok s'" using assms by (simp add: printed_def)
  show "console s' = console s @ w" "pending s' = pending s" using printed_console [OF assms] by simp_all
  show "in_eof s' = in_eof s" using arg_cong [OF n, of in_eof] by simp
  show "in_num s' = in_num s" using arg_cong [OF n, of in_num] by simp
  show "appends s' = appends s" using arg_cong [OF n, of appends] by simp
  show "sed_cmds s' = sed_cmds s" using arg_cong [OF n, of sed_cmds] by simp
  show "in_line s' = in_line s" using arg_cong [OF n, of in_line] by simp
qed

lemma emit_quiet:
  assumes "io_ok s" "appends s = []" "env_quiet env"
  shows "\<exists>s'. emit_output env False s = (Inr (), s') \<and> printed [] s s'"
proof -
  have e: "s\<lparr>appends := []\<rparr> = s" using assms(2) by simp
  have "printed [] s s" using assms(1) by (simp add: printed_def norm_def)
  from printed_flush [OF this] assms show ?thesis
    by (auto simp: e emit_output_def thn_def bnd_def ret_def gets_def upds_def)
qed

text \<open>One line of \<open>m,np\<close>.\<close>

lemma print_cycle:
  assumes s: "io_ok s" "appends s = []" "env_quiet env" "sed_cmds s = [c]" "in_num s = Suc k"
    and c: "c_type c = CMD_PRINT" "\<not> c_negated c" "c_a1 c = ADR_LINE m" "c_a2 c = ADR_LINE n" "c_next c = Over" "c_a1_matched c \<longleftrightarrow> m \<le> k \<and> k < n"
  shows "\<exists>s' c'. cycle env (Suc fuel) (At 0) s = Some (Inr True, s') \<and> io_ok s' \<and> pending s' = pending s \<and> appends s' = [] \<and> in_eof s' = in_eof s \<and>
    in_num s' = Suc k \<and> console s' = console s @ (if m \<le> Suc k \<and> Suc k \<le> max m n then in_line s else []) \<and> sed_cmds s' = [c'] \<and> fixed c' = fixed c \<and>
    (c_a1_matched c' \<longleftrightarrow> m \<le> Suc k \<and> Suc k < n)"
proof -
  have "0 < length (sed_cmds s)" "sed_cmds s ! 0 = c" using s(4) by simp_all
  then obtain c' where c': "match_address env 0 s = (Inr (m \<le> Suc k \<and> Suc k \<le> max m n), s\<lparr>sed_cmds := [c']\<rparr>)" "fixed c' = fixed c"
      "c_a1_matched c' \<longleftrightarrow> m \<le> Suc k \<and> Suc k < n"
    using range_step [of 0 s c m n k env] c s(4,5) by auto
  let ?s = "s\<lparr>sed_cmds := [c']\<rparr>"
  have f: "c_type c' = CMD_PRINT" "\<not> c_negated c'" "c_next c' = Over"
    using c arg_cong [OF c'(2), of c_type] arg_cong [OF c'(2), of c_negated] arg_cong [OF c'(2), of c_next] by (simp_all add: fixed_def)
  have ok: "io_ok ?s" "pending ?s = pending s" "console ?s = console s" using s(1) by (simp_all add: pending_def console_def)
  have out: "\<exists>s'. cycle env fuel Over t = Some (Inr True, s') \<and> printed [] t s'" if "io_ok t" "appends t = []" for t
    using emit_quiet [OF that s(3)] by (auto simp: bnd_def ret_def)
  show ?thesis
  proof (cases "m \<le> Suc k \<and> Suc k \<le> max m n")
    case True
    obtain s1 where p: "write_str (in_line s) ?s = (Inr (), s1)" "printed (in_line s) ?s s1" using prints_write_str ok(1) unfolding prints_def by blast
    note g = printed_fields [OF p(2)]
    obtain s2 where s2: "cycle env fuel Over s1 = Some (Inr True, s2)" "printed [] s1 s2" using out [OF g(1)] g(6) s(2) by auto
    have "exec_cmd env 0 ?s = (Inr Over, s1)" using f p(1) by (simp add: exec_cmd_def gets_def thn_def bnd_def ret_def Let_def)
    then have "cycle env (Suc fuel) (At 0) s = Some (Inr True, s2)" using c'(1) True f(2) s2(1) by simp
    then show ?thesis using printed_fields [OF s2(2)] g ok s(2,5) c' True by (intro exI [of _ s2] exI [of _ c']) auto
  next
    case False
    obtain s2 where s2: "cycle env fuel Over ?s = Some (Inr True, s2)" "printed [] ?s s2" using out [OF ok(1)] s(2) by auto
    then have "cycle env (Suc fuel) (At 0) s = Some (Inr True, s2)" using c'(1) False f(2,3) by auto
    then show ?thesis using printed_fields [OF s2(2)] ok s(2,5) c' False by (intro exI [of _ s2] exI [of _ c']) auto
  qed
qed

fun select :: "nat \<Rightarrow> nat \<Rightarrow> nat \<Rightarrow> utext list \<Rightarrow> utext" where
  "select m n k [] = []"
| "select m n k (l # ls) = (if m \<le> Suc k \<and> Suc k \<le> n then l else []) @ select m n (Suc k) ls"

lemma print_loop:
  assumes "io_ok s" "in_eof s \<longrightarrow> pending s = []" "appends s = []" "env_quiet env" "sed_cmds s = [c]"
    "c_type c = CMD_PRINT" "\<not> c_negated c" "c_a1 c = ADR_LINE m" "c_a2 c = ADR_LINE n" "c_next c = Over" "c_a1_matched c \<longleftrightarrow> m \<le> in_num s \<and> in_num s < n"
    "length (lines_of (pending s)) + 1 < fuel"
  shows "\<exists>s'. main_loop env fuel s = Some (Inr (), s') \<and> console s' = console s @ select m (max m n) (in_num s) (lines_of (pending s))"
  using assms
proof (induction fuel arbitrary: s c)
  case (Suc fuel)
  obtain s1 where r: "read_line False s = (Inr (pending s \<noteq> []), s1)" "io_ok s1" "pending s1 = snd (cut_line (pending s))" "in_line s1 = fst (cut_line (pending s))"
    "in_num s1 = in_num s + (if pending s = [] then 0 else 1)" "console s1 = console s" "appends s1 = appends s" "sed_cmds s1 = sed_cmds s"
    "in_eof s1 \<longrightarrow> pending s1 = []"
    using read_line_next [OF Suc.prems(1,2)] by blast
  show ?case
  proof (cases "pending s")
    case Nil
    then show ?thesis using r by (simp add: lines_of.simps)
  next
    case (Cons x t)
    then have l: "lines_of (pending s) = fst (cut_line (pending s)) # lines_of (snd (cut_line (pending s)))" by (simp add: lines_of.simps)
    obtain f where f: "fuel = Suc f" using Suc.prems(12) by (cases fuel) auto
    have a: "appends s1 = []" "sed_cmds s1 = [c]" "in_num s1 = Suc (in_num s)" using r Suc.prems(3,5) Cons by simp_all
    obtain s2 c' where cy: "cycle env fuel (At 0) s1 = Some (Inr True, s2)" "io_ok s2" "pending s2 = pending s1" "appends s2 = []" "in_eof s2 = in_eof s1"
      "in_num s2 = Suc (in_num s)" "console s2 = console s1 @ (if m \<le> Suc (in_num s) \<and> Suc (in_num s) \<le> max m n then in_line s1 else [])"
      "sed_cmds s2 = [c']" "fixed c' = fixed c" "c_a1_matched c' \<longleftrightarrow> m \<le> Suc (in_num s) \<and> Suc (in_num s) < n"
      using print_cycle [OF r(2) a(1) Suc.prems(4) a(2,3) Suc.prems(6-11), of f] f by blast
    have c': "c_type c' = CMD_PRINT" "\<not> c_negated c'" "c_a1 c' = ADR_LINE m" "c_a2 c' = ADR_LINE n" "c_next c' = Over"
      using Suc.prems(6-10) arg_cong [OF cy(9), of c_type] arg_cong [OF cy(9), of c_negated] arg_cong [OF cy(9), of c_next]
        arg_cong [OF cy(9), of c_a1] arg_cong [OF cy(9), of c_a2] by (simp_all add: fixed_def)
    have m: "main_loop env (Suc fuel) s = main_loop env fuel s2" using r(1) Cons a(2) cy(1) by simp
    obtain s' where s': "main_loop env fuel s2 = Some (Inr (), s')" "console s' = console s2 @ select m (max m n) (in_num s2) (lines_of (pending s2))"
      using Suc.IH [OF cy(2) _ cy(4) Suc.prems(4) cy(8) c'] cy(3,5,6,10) r(3,9) l Suc.prems(12) by auto
    then show ?thesis unfolding m l select.simps cy(3,6,7) r(3,4,6) by (intro exI [of _ s']) simp
  qed
qed simp

text \<open>
  With the option that suppresses the automatic output, the script \<open>m,np\<close> writes the lines \<open>m\<close> to \<open>n\<close> of the input, each once and unchanged, and
  the line \<open>m\<close> alone when \<open>n\<close> is smaller; as many steps as there are lines are enough.
\<close>

theorem qse_sed_prints_range:
  assumes "sed_cmds s = [c]" "c_type c = CMD_PRINT" "\<not> c_negated c" "c_a1 c = ADR_LINE m" "c_a2 c = ADR_LINE n" "0 < m" "env_quiet env" "in_xbuf_len s = 0" "env_open_in env" "env_open_out env"
    "\<forall>a \<in> set src. a \<noteq> None \<and> a \<noteq> Some []" "length (lines_of (concat (map the src))) + 1 < fuel"
  shows "\<exists>s'. qse_sed_exec env fuel src [] s = Some (Inr (), s') \<and> console s' = select m (max m n) 0 (lines_of (concat (map the src)))"
proof -
  let ?s = "exec_start src [] s" and ?c = "c\<lparr>c_a1_matched := False, c_ready := False, c_next := Over\<rparr>"
  let ?t = "?s\<lparr>sed_cmds := [?c]\<rparr>"
  have i: "init_all_commands_for_exec env ?s = (Inr (), ?t)"
    using assms(1-5) by (simp add: init_all_commands_for_exec_def init_one_def exec_start_def gets_def thn_def bnd_def upd_cmd_def upds_def ret_def Let_def)
  have p: "pending ?t = concat (map the src)" using assms(8,11) by (simp add: pending_def exec_start_def) (induction src; auto)
  have "\<exists>s'. main_loop env fuel ?t = Some (Inr (), s') \<and> console s' = console ?t @ select m (max m n) (in_num ?t) (lines_of (pending ?t))"
    by (rule print_loop [of _ _ ?c]) (use assms p in \<open>simp_all add: io_ok_def exec_start_def\<close>)
  then obtain s' where s': "main_loop env fuel ?t = Some (Inr (), s')" "console s' = console ?t @ select m (max m n) (in_num ?t) (lines_of (pending ?t))" by blast
  have "qse_sed_exec env fuel src [] s = Some (Inr (), s'\<lparr>out_files := []\<rparr>)" using i s'(1) assms(9,10) by (simp add: qse_sed_exec_def exec_finish_def)
  then show ?thesis using s'(2) p by (simp add: exec_start_def console_def)
qed

section \<open>Numbers\<close>

text \<open>The digits of a number in a base, the most significant first.\<close>

function digits :: "nat \<Rightarrow> nat \<Rightarrow> nat list" where
  "digits b x = (if b < 2 \<or> x < b then [x] else digits b (x div b) @ [x mod b])"
  by pat_completeness auto
termination by (relation "measure snd") (auto simp: not_less)

declare digits.simps [simp del]

lemma digits_value: "foldl (\<lambda>v d. v * b + d) 0 (digits b x) = x"
  by (induction b x rule: digits.induct) (subst digits.simps, simp)

text \<open>The digits of a positive number and none for zero.\<close>

definition front :: "nat \<Rightarrow> nat \<Rightarrow> nat list" where
  "front b x = (if x = 0 then [] else digits b x)"

lemma digits_front: "2 \<le> b \<Longrightarrow> digits b x = front b (x div b) @ [x mod b]"
  by (auto simp: front_def digits.simps [of b x] div_eq_0_iff)

lemma front_step: "2 \<le> b \<Longrightarrow> 0 < x \<Longrightarrow> front b x = front b (x div b) @ [x mod b]"
  by (subst front_def) (simp add: digits_front)

lemma front_bound: "2 \<le> b \<Longrightarrow> 0 < x \<Longrightarrow> b ^ length (front b x) \<le> b * x"
proof (induction x rule: less_induct)
  case (less x)
  show ?case
  proof (cases "x div b = 0")
    case True
    then have "front b x = [x mod b]" using front_step [OF less.prems] by (simp add: front_def)
    then show ?thesis using less.prems by simp
  next
    case False
    then have "b ^ length (front b (x div b)) \<le> b * (x div b)" using less by simp
    also have "\<dots> \<le> x" by simp
    finally show ?thesis using less.prems by (simp add: front_step)
  qed
qed

lemma rev_loop_value:
  assumes "2 \<le> b" "y < b ^ dig" "b ^ (dig + length (front b x)) \<le> 2 ^ 64"
  shows "rev_loop b x y dig = (foldl (\<lambda>v d. v * b + d) y (rev (front b x)), dig + length (front b x))"
  using assms
proof (induction x arbitrary: y dig rule: less_induct)
  case (less x)
  show ?case
  proof (cases "x = 0")
    case True
    then show ?thesis by (simp add: rev_loop.simps front_def)
  next
    case False
    have "y * b + x mod b < (y + 1) * b" using less.prems(1) by simp
    also have "\<dots> \<le> b ^ dig * b" using less.prems(2) by (intro mult_right_mono) simp_all
    finally have y: "y * b + x mod b < b ^ (dig + 1)" by (simp add: mult.commute)
    have f: "front b x = front b (x div b) @ [x mod b]" using front_step [of b x] less.prems(1) False by simp
    have e: "b ^ (dig + 1 + length (front b (x div b))) \<le> 2 ^ 64" using less.prems(3) f by simp
    have "b ^ (dig + 1) \<le> b ^ (dig + 1 + length (front b (x div b)))" using less.prems(1) by (intro power_increasing) simp_all
    then have w: "(y * b + x mod b) mod 2 ^ 64 = y * b + x mod b" using y e by (intro mod_less) linarith
    have "rev_loop b x y dig = rev_loop b (x div b) (y * b + x mod b) (dig + 1)"
      using False less.prems(1) w by (subst rev_loop.simps) simp
    also have "\<dots> = (foldl (\<lambda>v d. v * b + d) (y * b + x mod b) (rev (front b (x div b))), dig + 1 + length (front b (x div b)))"
      using False less.prems(1) y e by (intro less.IH) simp_all
    finally show ?thesis using f by simp
  qed
qed

lemma digit_loop_value:
  assumes "2 \<le> b" "\<forall>d \<in> set ds. d < b"
  shows "digit_loop b (foldl (\<lambda>v d. v * b + d) 0 ds) (length ds) = map NTOC (rev ds)"
  using assms(2)
proof (induction ds rule: rev_induct)
  case Nil
  then show ?case by (simp add: digit_loop.simps)
next
  case (snoc d ds)
  let ?v = "foldl (\<lambda>v d. v * b + d) 0 ds"
  have ih: "digit_loop b ?v (length ds) = map NTOC (rev ds)" and d: "d < b" using snoc by simp_all
  show ?case
  proof (cases "?v * b + d > 0")
    case True
    then show ?thesis using ih d assms(1) by (subst digit_loop.simps) simp
  next
    case False
    then have "?v = 0" "d = 0" using assms(1) by simp_all
    then show ?thesis using ih by (simp add: digit_loop.simps NTOC_def)
  qed
qed

lemma front_less: "2 \<le> b \<Longrightarrow> d \<in> set (front b x) \<Longrightarrow> d < b"
proof (induction x rule: less_induct)
  case (less x)
  show ?case
  proof (cases "x = 0")
    case False
    then have "d \<in> set (front b (x div b)) \<or> d = x mod b" using front_step [of b x] less.prems by auto
    then show ?thesis using less.IH [of "x div b"] less.prems(1) False by auto
  qed (use less.prems in \<open>simp add: front_def\<close>)
qed

text \<open>
  The number that \<open>=\<close> writes, and the code of an unprintable character in \<open>l\<close>, is the number: its digits in the base, the most significant first, with zeros
  in front up to the width. The digits are reversed in an \<open>unsigned long\<close> on the way, which never overflows although the reversed number may be larger than the number itself.
\<close>

theorem num_text_digits:
  assumes "2 \<le> b" "x < 2 ^ 64"
  shows "num_text x b w = replicate (w - length (digits b x)) ch_zero @ map NTOC (digits b x) \<and> foldl (\<lambda>v d. v * b + d) 0 (digits b x) = x"
proof -
  let ?f = "front b (x div b)"
  have "b ^ length ?f \<le> 2 ^ 64"
  proof (cases "x div b = 0")
    case False
    then have "b ^ length ?f \<le> b * (x div b)" using front_bound assms(1) by simp
    also have "\<dots> \<le> x" by simp
    finally show ?thesis using assms(2) by linarith
  qed (simp add: front_def)
  then have r: "rev_loop b (x div b) 0 0 = (foldl (\<lambda>v d. v * b + d) 0 (rev ?f), length ?f)" using rev_loop_value [of b 0 0 "x div b"] assms(1) by simp
  have "digit_loop b (foldl (\<lambda>v d. v * b + d) 0 (rev ?f)) (length ?f) = map NTOC ?f"
    using digit_loop_value [of b "rev ?f"] front_less assms(1) by (metis length_rev rev_rev_ident set_rev)
  then have "num_text x b w = replicate (w - length (digits b x)) ch_zero @ map NTOC (digits b x)" using r by (simp add: num_text_def digits_front [OF assms(1)])
  then show ?thesis using digits_value by blast
qed

lemma replicate_eq: "replicate (numeral n) x = x # replicate (pred_numeral n) x"
  by (simp add: numeral_eq_Suc)

theorem num_text_digits_witness:
  "num_text 120 10 8 = [48, 48, 48, 48, 48, 49, 50, 48] \<and> num_text 18446744073709551609 10 0 = map NTOC (digits 10 18446744073709551609)"
  using num_text_digits [of 10 120 8] num_text_digits [of 10 18446744073709551609 0] by (simp add: digits.simps NTOC_def replicate_eq)

section \<open>Substitution\<close>

text \<open>What the matcher promises: a match lies within the text.\<close>

definition sane_matcher :: "'r sed_env \<Rightarrow> bool" where
  "sane_matcher env \<longleftrightarrow> (\<forall>rex notbol str so eo subs. env_tre env rex notbol str = Rex_match so eo subs \<longrightarrow> so \<le> eo \<and> eo \<le> length str)"

lemma matchtre_within:
  "sane_matcher env \<Longrightarrow> matchtre env rex notbol str = Inr (Some (so, len, subs)) \<Longrightarrow> so + len \<le> length str"
  by (auto simp: sane_matcher_def matchtre_def split: rex_answer.splits) fastforce

lemma take_step: "k \<le> length t \<Longrightarrow> take k t @ take n (drop k t) = take (k + n) t"
  by (simp add: take_add)

text \<open>With \<open>&\<close> as the replacement the text built so far is the text passed so far.\<close>

lemma subst_loop_amp_step:
  assumes "sane_matcher env" "sub_rpl sub = [ch_amp]" "\<not> sub_k sub" "cur \<le> length str"
    "subst_loop env sub rex str cur sub_count pend repl (take cur str) = Inr (new, b)"
  shows "new = str \<or> (\<exists>cur' n p r. cur < cur' \<and> subst_loop env sub rex str cur' n p r (take cur' str) = Inr (new, b))"
proof -
  define mx where "mx = (if sub_g sub then 0 else sub_occ sub)"
  define q where "q = (if mx = 0 \<or> sub_count < mx then matchtre env rex (cur \<noteq> 0) (drop cur str) else Inr None)"
  note e = assms(5) [unfolded subst_loop.simps [of env sub rex str cur] Let_def mx_def [symmetric] q_def [symmetric]]
  consider x where "q = Inl x" | "q = Inr None" | so len subs where "q = Inr (Some (so, len, subs))" by (metis sum.exhaust option.exhaust prod_cases3)
  then show ?thesis
  proof cases
    case 1
    then show ?thesis using e assms(4) by simp
  next
    case 2
    then show ?thesis using e assms(3,4) by simp
  next
    case (3 so len subs)
    then have w: "cur + so + len \<le> length str"
      using matchtre_within [OF assms(1), of rex "cur \<noteq> 0" "drop cur str" so len subs] assms(4) by (auto simp: q_def split: if_splits)
    have at: "take cur str @ take so (drop cur str) @ take len (drop (cur + so) str) = take (cur + so + len) str"
      "take cur str @ take (so + len) (drop cur str) = take (cur + so + len) str"
      using w by (simp add: take_add) (use w in \<open>simp add: take_step add.assoc\<close>)
    have full: "cur = length str \<Longrightarrow> so = 0 \<and> len = 0" using w by simp
    show ?thesis
    proof (cases "len = 0 \<and> pend = Some (cur + so)")
      case True
      then have "subst_loop env sub rex str (cur + 1) sub_count pend repl (take (cur + 1) str) = Inr (new, b)"
        using e assms(4) 3 take_step [of cur str 1] by simp
      then show ?thesis using less_add_one by blast
    next
      case False
      let ?l = "mx > 0 \<and> sub_count + 1 \<noteq> mx"
      have s: "(if ?l then take cur str @ (if \<not> sub_k sub \<and> cur < length str then take (so + len) (drop cur str) else [])
          else take cur str @ (if \<not> sub_k sub \<and> cur < length str then take so (drop cur str) else []) @ expand (sub_rpl sub) (take len (drop (cur + so) str)) subs) =
          take (cur + so + len) str"
        using assms(2,3) at full by (cases "cur < length str") (simp_all add: not_less)
      note f = e [unfolded 3 sum.case option.case prod.case if_P [OF assms(4)] if_not_P [OF False] s]
      show ?thesis
      proof (cases "len = 0")
        case True
        have "subst_loop env sub rex str (cur + so + len + 1) (sub_count + 1) (Some (cur + so + len)) (if ?l then repl else True) (take (cur + so + len + 1) str) = Inr (new, b)"
          using f [unfolded if_P [OF True] take_step [OF w]] by (simp only: if_P [OF True] True)
        then show ?thesis by (intro disjI2 exI conjI) (auto simp: less_Suc_eq_le)
      next
        case len: False
        have "subst_loop env sub rex str (cur + so + len) (sub_count + 1) (Some (cur + so + len)) (if ?l then repl else True) (take (cur + so + len) str) = Inr (new, b)"
          using f [unfolded if_not_P [OF len]] by (simp only: )
        moreover have "cur < cur + so + len" using len by simp
        ultimately show ?thesis by blast
      qed
    qed
  qed
qed

lemma subst_loop_amp:
  assumes "sane_matcher env" "sub_rpl sub = [ch_amp]" "\<not> sub_k sub"
    "subst_loop env sub rex str cur sub_count pend repl (take cur str) = Inr (new, b)"
  shows "new = str"
  using assms(4)
proof (induction "Suc (length str) - cur" arbitrary: cur sub_count pend repl rule: less_induct)
  case less
  show ?case
  proof (cases "cur \<le> length str")
    case True
    then show ?thesis using subst_loop_amp_step [OF assms(1-3) True less.prems] less.hyps by (metis diff_less_mono2 le_imp_less_Suc)
  next
    case False
    then show ?thesis using less.prems by (simp add: subst_loop.simps)
  qed
qed

text \<open>The rest of a substitution leaves the pattern space alone.\<close>

interpretation kept_line: act_preorder "\<lambda>s s'. in_line s' = in_line s"
  by unfold_locales simp_all

lemma line_write_str: "kept_line.keeps (write_str t)"
proof -
  have f: "kept_line.keeps flush" by (auto simp: kept_line.keeps_def flush_def Let_def split: prod.split)
  have "kept_line.keeps (write_str_loop t b)" for b
    by (induction t arbitrary: b) (auto intro!: kept_line.keeps_rules kept_line.keeps_upds f simp: put_def)
  then show ?thesis unfolding write_str_def by (intro kept_line.keeps_rules f)
qed

lemma line_to_file: "kept_line.keeps (write_str_to_file env str path)"
  by (auto simp: kept_line.keeps_def write_str_to_file_def Let_def split: prod.split)

lemma trim_line_append: "trim_line line = (str, lineterm) \<Longrightarrow> str @ lineterm = line"
  by (cases line rule: rev_cases; cases "butlast line" rule: rev_cases) (auto simp: trim_line_def butlast_append split: if_splits)

text \<open>What a substitution does to the pattern space, whatever it writes.\<close>

lemma do_subst_line:
  assumes "trim_line (in_line s) = (str, lineterm)" "sub_rex sub = Some rex"
  shows "in_line (snd (do_subst env sub s)) =
    (case subst_loop env sub rex str 0 0 None False [] of Inl e \<Rightarrow> in_line s | Inr (new, repl) \<Rightarrow> new @ lineterm)"
proof (cases "subst_loop env sub rex str 0 0 None False []")
  case (Inl e)
  then show ?thesis using assms by (simp add: do_subst_def gets_def use_rex_def thn_def bnd_def upds_def lift_def fail_def)
next
  case (Inr q)
  obtain new repl where q: "q = (new, repl)" by (cases q)
  define rest where "rest = (if repl then
      thn (if sub_p sub then write_str (new @ lineterm) else ret ())
        (thn (case sub_file sub of None \<Rightarrow> ret () | Some f \<Rightarrow> write_str_to_file env (new @ lineterm) f) (upds (\<lambda>s. s\<lparr>subst_done := True\<rparr>)))
    else ret ())"
  have "kept_line.keeps rest"
    unfolding rest_def by (auto intro!: kept_line.keeps_rules kept_line.keeps_upds line_write_str line_to_file split: option.split)
  then have "in_line (snd (rest (s\<lparr>last_rex := Some rex, in_line := new @ lineterm\<rparr>))) = new @ lineterm" by (simp add: kept_line.keeps_def)
  moreover have "do_subst env sub s = rest (s\<lparr>last_rex := Some rex, in_line := new @ lineterm\<rparr>)"
    using assms Inr q by (simp add: do_subst_def gets_def use_rex_def thn_def bnd_def upds_def lift_def rest_def)
  ultimately show ?thesis using Inr q by simp
qed

text \<open>
  A substitution that replaces what it matches by itself, \<open>s/re/&/\<close>, leaves the pattern space as it was, with every choice of the flags \<open>g\<close>, \<open>p\<close>, \<open>w\<close> and of
  the occurrence, for every matcher whose matches lie within the text, empty matches included.
\<close>

theorem do_subst_amp_identity:
  assumes "sane_matcher env" "sub_rpl sub = [ch_amp]" "\<not> sub_k sub" "sub_rex sub = Some rex"
  shows "in_line (snd (do_subst env sub s)) = in_line s"
proof -
  obtain str lineterm where t: "trim_line (in_line s) = (str, lineterm)" by fastforce
  show ?thesis
    using do_subst_line [OF t assms(4), of env] subst_loop_amp [OF assms(1-3), of rex str 0 0 None False] trim_line_append [OF t]
    by (auto split: sum.split)
qed

text \<open>
  C20. Without the flag \<open>g\<close> the command \<open>s/re/rpl/\<close> replaces the first match and nothing else: the pattern space becomes what precedes the match, the expanded replacement, what
  follows the match, and the line terminator.
\<close>

theorem do_subst_first:
  assumes "sane_matcher env" "trim_line (in_line s) = (str, lineterm)" "sub_rex sub = Some rex" "\<not> sub_g sub" "sub_occ sub = 1" "\<not> sub_k sub"
    "matchtre env rex False str = Inr (Some (so, len, subs))"
  shows "in_line (snd (do_subst env sub s)) = take so str @ expand (sub_rpl sub) (take len (drop so str)) subs @ drop (so + len) str @ lineterm"
proof -
  have w: "so + len \<le> length str" using matchtre_within [OF assms(1,7)] .
  have one: "take 1 (drop n str) @ drop (Suc n) str = drop n str" for n by (metis append_take_drop_id drop_drop plus_1_eq_Suc)
  have "subst_loop env sub rex str 0 0 None False [] = Inr (take so str @ expand (sub_rpl sub) (take len (drop so str)) subs @ drop (so + len) str, True)"
  proof (cases "len = 0")
    case True
    show ?thesis
    proof (cases "so = length str")
      case so: True
      then show ?thesis using assms True w
        by (cases str) (simp_all add: subst_loop.simps [of env sub rex _ 0] subst_loop.simps [of env sub rex _ "Suc x" for x] Let_def)
    next
      case False
      then show ?thesis using assms True w one [of so]
        by (simp add: subst_loop.simps [of env sub rex str 0] subst_loop.simps [of env sub rex str "Suc so"] Let_def)
    qed
  next
    case False
    then show ?thesis using assms w
      by (auto simp add: subst_loop.simps [of env sub rex str 0] subst_loop.simps [of env sub rex str "so + len"] Let_def)
  qed
  then show ?thesis using do_subst_line [OF assms(2,3), of env] by simp
qed

section \<open>Writing to a file\<close>

text \<open>
  When the output handler of a file takes only a part of the text, the text that follows is not the rest but the beginning again: the loop of
  \<open>write_str_to_file\<close> subtracts what was taken from the length and leaves the pointer where it was.
\<close>

theorem write_str_to_file_partial_repeats:
  assumes "path \<in> set (out_files s)" "out_ans s = [int n]" "0 < n" "n < length str"
  shows "write_str_to_file env str path s =
    (Inr (), s\<lparr>out_ans := [], out_log := out_log s @ [(Some path, take n str), (Some path, take (length str - n) str)]\<rparr>)"
  using assms by (auto simp: write_str_to_file_def Let_def)

section \<open>Running twice\<close>

interpretation kept_input: act_preorder
  "\<lambda>s s'. in_src s' = in_src s \<and> in_buf s' = in_buf s \<and> in_xbuf_len s' = in_xbuf_len s \<and> in_num s' = in_num s \<and> in_eof s' = in_eof s \<and> out_buf s' = out_buf s"
  by unfold_locales simp_all

lemma input_init: "kept_input.keeps (init_all_commands_for_exec env)"
proof -
  have "kept_input.keeps (write_str_to_file env str path)" for str path
    by (auto simp: kept_input.keeps_def write_str_to_file_def Let_def split: prod.split)
  then have "kept_input.keeps (init_one env i)" for i
    unfolding init_one_def upd_cmd_def Let_def by (auto intro!: kept_input.keeps_rules kept_input.keeps_upds split: sed_op.split option.split)
  then show ?thesis unfolding init_all_commands_for_exec_def by (intro kept_input.keeps_rules)
qed

text \<open>
  C40. A run that starts with the look-ahead buffer at \<open>-1\<close>, where the address \<open>$\<close> leaves it at the end of the input, reads nothing: it ends without a
  line, nothing of the new input is consumed and nothing goes to the console. The start of a run resets the other fields of the input state, not this one.
\<close>

theorem qse_sed_exec_stale_lookahead:
  assumes "in_xbuf_len s = -1"
  shows "\<exists>r s'. qse_sed_exec env (Suc fuel) src ans s = Some (r, s') \<and> in_num s' = 0 \<and> in_src s' = src \<and> out_buf s' = []"
proof -
  obtain r s1 where i: "init_all_commands_for_exec env (exec_start src ans s) = (r, s1)" by fastforce
  then have "in_src s1 = src" "in_buf s1 = []" "in_xbuf_len s1 = -1" "in_num s1 = 0" "\<not> in_eof s1" "out_buf s1 = []"
    using kept_input.keepsD [OF input_init i] assms by (simp_all add: exec_start_def)
  then show ?thesis using i by (cases r) (simp_all add: exec_start_def qse_sed_exec_def exec_finish_def read_line_def line_loop.simps read_char_def Let_def)
qed

section \<open>Examples\<close>

lemma sane_simple: "sane_matcher (simple_env q)"
proof -
  have "Suc (length (takeWhile (\<lambda>d. d \<noteq> c) str)) \<le> length str" if "c \<in> set str" for c :: nat and str
    using that by (induction str) auto
  then show ?thesis by (auto simp: sane_matcher_def simple_env_def Let_def split: if_splits)
qed

theorem qse_sed_prints_range_witness:
  "\<exists>s'. qse_sed_exec (simple_env True) 10 [Some [97, 10, 98], Some [10, 99]] [] (fresh [] [cmd_at (ADR_LINE 2) (ADR_LINE 7) CMD_PRINT]) = Some (Inr (), s') \<and> console s' = [98, 10, 99]"
proof -
  have l: "lines_of [97, 10, 98, 10, 99] = [[97, 10], [98, 10], [99]]" by (simp add: lines_of.simps)
  show ?thesis
    using qse_sed_prints_range [of "fresh [] [cmd_at (ADR_LINE 2) (ADR_LINE 7) CMD_PRINT]" "cmd_at (ADR_LINE 2) (ADR_LINE 7) CMD_PRINT" 2 7
        "simple_env True" "[Some [97, 10, 98], Some [10, 99]]" 10]
    by (simp add: fresh_def cmd_at_def simple_env_def l)
qed

definition subst_demo :: "utext \<Rightarrow> uchar sed_subst" where
  "subst_demo rpl = \<lparr>sub_rex = Some 97, sub_rpl = rpl, sub_file = None, sub_occ = 1, sub_g = False, sub_p = True, sub_k = False\<rparr>"

theorem do_subst_amp_identity_witness:
  "in_line (snd (do_subst (simple_env True) (subst_demo [38]) ((fresh [] [])\<lparr>in_line := [98, 97, 10]\<rparr>))) = [98, 97, 10]"
  using do_subst_amp_identity [OF sane_simple, of "subst_demo [38]" 97 True "(fresh [] [])\<lparr>in_line := [98, 97, 10]\<rparr>"] by (simp add: subst_demo_def)

theorem do_subst_first_witness:
  "in_line (snd (do_subst (simple_env True) (subst_demo [60, 38, 62]) ((fresh [] [])\<lparr>in_line := [98, 97, 97, 10]\<rparr>))) = [98, 60, 97, 62, 97, 10]"
  using do_subst_first [OF sane_simple, of "(fresh [] [])\<lparr>in_line := [98, 97, 97, 10]\<rparr>" "[98, 97, 97]" "[10]" "subst_demo [60, 38, 62]" 97 True 1 1 "replicate 9 []"]
  by (simp add: subst_demo_def trim_line_def matchtre_def simple_env_def numeral_nat upt_rec)

theorem write_str_to_file_partial_repeats_witness:
  "write_str_to_file (simple_env True) [97, 98, 99] [102] ((fresh [] [])\<lparr>out_files := [[102]], out_ans := [1]\<rparr>) =
    (Inr (), (fresh [] [])\<lparr>out_files := [[102]], out_log := [(Some [102], [97]), (Some [102], [97, 98])]\<rparr>)"
  using write_str_to_file_partial_repeats [of "[102]" "(fresh [] [])\<lparr>out_files := [[102]], out_ans := [1]\<rparr>" 1 "[97, 98, 99]" "simple_env True"]
  by (simp add: fresh_def)

theorem qse_sed_exec_stale_lookahead_witness:
  "\<exists>s1. qse_sed_exec (simple_env True) 9 [Some [97, 10]] [] (fresh [] [cmd_at ADR_DOL ADR_NONE CMD_PRINT]) = Some (Inr (), s1) \<and> console s1 = [97, 10] \<and>
     (\<exists>r s2. qse_sed_exec (simple_env True) 9 [Some [98, 10]] [] s1 = Some (r, s2) \<and> in_num s2 = 0 \<and> in_src s2 = [Some [98, 10]] \<and> out_buf s2 = [])"
proof -
  define x where "x = qse_sed_exec (simple_env True) 9 [Some [97, 10]] [] (fresh [] [cmd_at ADR_DOL ADR_NONE CMD_PRINT])"
  have "map_option (\<lambda>(r, s). (r, console s, in_xbuf_len s)) x = Some (Inr (), [97, 10], -1)" unfolding x_def by code_simp
  then obtain s1 where "x = Some (Inr (), s1)" "console s1 = [97, 10]" "in_xbuf_len s1 = -1" by (cases x) auto
  then show ?thesis using qse_sed_exec_stale_lookahead [of s1 "simple_env True" 8 "[Some [98, 10]]" "[]"] by (simp add: x_def)
qed

end
