(* ===== verification/Qse_Sed_Comp.thy ===== *)
theory Qse_Sed_Comp
  imports Qse_Sed_Act
begin

text \<open>
  The compiler of the stream editor, \<open>src/lib/sed/sed.c\<close> from \<open>open_script_stream\<close> to \<open>qse_sed_comp\<close>. The script comes from a handler whose answers to the read
  calls are a list in the state; regular expressions are built by a function of the environment. \<open>src_cc\<close> is the current character, \<open>None\<close> at the
  end of the script; loops over the script are recursive functions that end because every turn consumes a character. The place of an error is kept as line and column.
  Compilation identifiers and the release of memory are not modelled.
\<close>

abbreviation ch :: "char \<Rightarrow> uchar" where "ch c \<equiv> of_char c"

section \<open>Reading the script\<close>

definition fail_at :: "nat \<times> nat \<Rightarrow> sed_err \<Rightarrow> ('r, 'a) act" where
  "fail_at loc e s = (Inl e, s\<lparr>err_loc := loc\<rparr>)"

definition fail_here :: "sed_err \<Rightarrow> ('r, 'a) act" where
  "fail_here e = gets src_loc (\<lambda>loc. fail_at loc e)"

definition read_script_stream :: "('r, unit) act" where
  "read_script_stream s =
     (case src_ans s of
        [] \<Rightarrow> (Inr (), s\<lparr>src_eof := True\<rparr>)
      | None # ans \<Rightarrow> (Inl EIOUSR, s\<lparr>src_ans := ans, err_loc := (0, 0)\<rparr>)
      | Some [] # ans \<Rightarrow> (Inr (), s\<lparr>src_ans := ans, src_eof := True\<rparr>)
      | Some t # ans \<Rightarrow> (Inr (), s\<lparr>src_ans := ans, src_buf := t\<rparr>))"

definition fill_script :: "('r, unit) act" where
  "fill_script s = (if src_buf s = [] \<and> \<not> src_eof s then read_script_stream s else (Inr (), s))"

definition getnextsc :: "('r, uchar option) act" where
  "getnextsc =
     thn (upds (\<lambda>s. s\<lparr>src_loc := (if src_cc s = Some ch_nl then (fst (src_loc s) + 1, 1) else (fst (src_loc s), snd (src_loc s) + 1))\<rparr>))
       (thn fill_script
         (gets src_buf (\<lambda>buf. case buf of
            [] \<Rightarrow> thn (upds (\<lambda>s. s\<lparr>src_cc := None\<rparr>)) (ret None)
          | c # cs \<Rightarrow> thn (upds (\<lambda>s. s\<lparr>src_cc := Some c, src_buf := cs\<rparr>)) (ret (Some c)))))"

definition peepnextsc :: "('r, uchar option) act" where
  "peepnextsc = thn fill_script (gets src_buf (\<lambda>buf. ret (case buf of [] \<Rightarrow> None | c # cs \<Rightarrow> Some c)))"

text \<open>What is left of the script, the current character included.\<close>

definition script_left :: "'r qse_sed \<Rightarrow> nat" where
  "script_left s = (if src_cc s = None then 0 else 1) + length (src_buf s) + sum_list (map (\<lambda>x. case x of None \<Rightarrow> 1 | Some t \<Rightarrow> length t + 1) (src_ans s))"

definition scanned :: "'r qse_sed \<Rightarrow> 'r qse_sed \<Rightarrow> bool" where
  "scanned s s' \<longleftrightarrow> script_left s' \<le> script_left s \<and> sed_cmds s' = sed_cmds s \<and> sed_labs s' = sed_labs s \<and> sed_grp s' = sed_grp s"

interpretation scan: act_preorder scanned
  by unfold_locales (auto simp: scanned_def)

interpretation shrink: act_preorder "\<lambda>s s'. script_left s' \<le> script_left s"
  by unfold_locales auto

named_theorems scan_rules

lemma scan_shrink: "scan.keeps m \<Longrightarrow> shrink.keeps m"
  by (simp add: scan.keeps_def shrink.keeps_def scanned_def)

lemma scan_fail [scan_rules]: "scan.keeps (fail_at loc e)" "scan.keeps (fail_here e)"
  by (simp_all add: scan.keeps_def fail_at_def fail_here_def gets_def scanned_def script_left_def)

lemma scan_fill [scan_rules]: "scan.keeps fill_script"
  by (auto simp: scan.keeps_def fill_script_def read_script_stream_def scanned_def script_left_def split: list.split option.split)

lemma scan_peepnextsc [scan_rules]: "scan.keeps peepnextsc"
  unfolding peepnextsc_def by (intro scan.keeps_rules scan_fill)

lemma getnextsc_cases:
  assumes "getnextsc s = (r, s')"
  shows "scanned s s' \<and> (\<forall>c. r = Inr c \<longrightarrow> src_cc s' = c \<and> (src_cc s \<noteq> None \<longrightarrow> script_left s' < script_left s))"
  using assms
  by (auto simp: getnextsc_def fill_script_def read_script_stream_def thn_def bnd_def gets_def upds_def ret_def scanned_def script_left_def
      split: if_splits list.splits option.splits)

lemma scan_getnextsc [scan_rules]: "scan.keeps getnextsc"
  unfolding scan.keeps_def using getnextsc_cases by (metis prod.collapse)

lemma getnextsc_less: "getnextsc s = (Inr c, s') \<Longrightarrow> src_cc s \<noteq> None \<Longrightarrow> script_left s' < script_left s"
  using getnextsc_cases by blast

lemma getnextsc_next: "getnextsc s = (Inr c, s') \<Longrightarrow> src_cc s' = c"
  using getnextsc_cases by blast

lemma scan_less: "scan.keeps m \<Longrightarrow> m s1 = (r, s') \<Longrightarrow> script_left s1 < script_left s \<Longrightarrow> script_left s' < script_left s"
  using scan.keepsD [of m s1 r s'] by (auto simp: scanned_def)

subsection \<open>Character classes and simple loops\<close>

definition IS_SPACE :: "uchar \<Rightarrow> bool" where
  "IS_SPACE c \<longleftrightarrow> c = 32 \<or> c = 9 \<or> c = 13"

definition IS_WSPACE :: "uchar \<Rightarrow> bool" where
  "IS_WSPACE c \<longleftrightarrow> IS_SPACE c \<or> c = ch_nl"

text \<open>The terminators \<open>#\<close>, \<open>;\<close>, newline and the braces, and the end of the script.\<close>

definition IS_CMDTERM :: "uchar option \<Rightarrow> bool" where
  "IS_CMDTERM c \<longleftrightarrow> c \<in> {None, Some (ch CHR ''#''), Some (ch CHR '';''), Some ch_nl, Some (ch CHR ''{''), Some (ch CHR ''}'')}"

definition IS_LABCHAR :: "uchar \<Rightarrow> bool" where
  "IS_LABCHAR c \<longleftrightarrow> \<not> IS_CMDTERM (Some c) \<and> \<not> IS_WSPACE c"

definition is_dec :: "uchar \<Rightarrow> bool" where
  "is_dec c \<longleftrightarrow> ch CHR ''0'' \<le> c \<and> c \<le> ch CHR ''9''"

text \<open>The characters from the current one on that have a property are passed and returned.\<close>

function take_sc :: "(uchar \<Rightarrow> bool) \<Rightarrow> utext \<Rightarrow> ('r, utext) act" where
  "take_sc P acc s =
     (case src_cc s of
        None \<Rightarrow> ret acc s
      | Some c \<Rightarrow> if P c then thn getnextsc (take_sc P (acc @ [c])) s else ret acc s)"
  by pat_completeness auto
termination by (relation "measure (\<lambda>(P, acc, s). script_left s)") (auto dest: getnextsc_less)

declare take_sc.simps [simp del]

definition skip_sc :: "(uchar \<Rightarrow> bool) \<Rightarrow> ('r, unit) act" where
  "skip_sc P = bnd (take_sc P []) (\<lambda>_. ret ())"

lemma scan_take_sc [scan_rules]: "scan.keeps (take_sc P acc)"
proof -
  have "scanned s (snd (take_sc P acc s))" for s :: "'a qse_sed"
  proof (induction "script_left s" arbitrary: s acc rule: less_induct)
    case less
    show ?case by (subst take_sc.simps) (intro scan.at_rules; (rule scan_getnextsc less | auto dest: getnextsc_less)+)
  qed
  then show ?thesis by (simp add: scan.keeps_def)
qed

lemma scan_skip_sc [scan_rules]: "scan.keeps (skip_sc P)"
  unfolding skip_sc_def by (intro scan.keeps_rules scan_take_sc)

text \<open>A decimal number, in a size of 64 bits.\<close>

definition size_of_digits :: "utext \<Rightarrow> nat" where
  "size_of_digits ds = foldl (\<lambda>v d. (v * 10 + (d - ch CHR ''0'')) mod 2 ^ 64) 0 ds"

definition number :: "(uchar \<Rightarrow> bool) \<Rightarrow> ('r, nat) act" where
  "number P = bnd (take_sc P []) (\<lambda>ds. ret (size_of_digits ds))"

lemma scan_number [scan_rules]: "scan.keeps (number P)"
  unfolding number_def by (intro scan.keeps_rules scan_rules)

definition terminate_command :: "('r, unit) act" where
  "terminate_command =
     thn (skip_sc IS_SPACE)
       (gets src_cc (\<lambda>c.
          if \<not> IS_CMDTERM c then fail_here ESCEXP
          else if c \<notin> {Some (ch CHR ''#''), Some (ch CHR ''{''), Some (ch CHR ''}''), None} then bnd getnextsc (\<lambda>_. ret ())
          else ret ()))"

lemma scan_terminate [scan_rules]: "scan.keeps terminate_command"
  unfolding terminate_command_def by (intro scan.keeps_rules scan_rules)

section \<open>Escapes, regular expressions and addresses\<close>

definition XDIGITTONUM :: "uchar option \<Rightarrow> nat option" where
  "XDIGITTONUM c =
     (case c of
        None \<Rightarrow> None
      | Some c \<Rightarrow>
          if ch CHR ''0'' \<le> c \<and> c \<le> ch CHR ''9'' then Some (c - ch CHR ''0'')
          else if ch CHR ''A'' \<le> c \<and> c \<le> ch CHR ''F'' then Some (c - ch CHR ''A'' + 10)
          else if ch CHR ''a'' \<le> c \<and> c \<le> ch CHR ''f'' then Some (c - ch CHR ''a'' + 10) else None)"

fun hex_loop :: "nat \<Rightarrow> nat \<Rightarrow> ('r, nat) act" where
  "hex_loop 0 c = ret c"
| "hex_loop (Suc n) c =
     bnd peepnextsc (\<lambda>p. case XDIGITTONUM p of None \<Rightarrow> ret c | Some d \<Rightarrow> thn getnextsc (hex_loop n (c * 16 + d)))"

text \<open>The case \<open>f\<close> has no \<open>break\<close>: it gives a newline, like \<open>n\<close>. The second part of the result says that an ampersand was written as a code.\<close>

definition trans_escaped :: "uchar \<Rightarrow> ('r, uchar \<times> bool) act" where
  "trans_escaped c =
     (if c = ch CHR ''a'' then ret (7, False)
      else if c = ch CHR ''f'' \<or> c = ch CHR ''n'' then ret (10, False)
      else if c = ch CHR ''r'' then ret (13, False)
      else if c = ch CHR ''t'' then ret (9, False)
      else if c = ch CHR ''v'' then ret (11, False)
      else if c = ch CHR ''x'' \<or> c = ch CHR ''X'' then
        bnd peepnextsc (\<lambda>p. case XDIGITTONUM p of
            None \<Rightarrow> ret (c, False)
          | Some d \<Rightarrow> thn getnextsc (bnd (hex_loop (if c = ch CHR ''x'' then 1 else 7) d) (\<lambda>x. ret (x, x = ch_amp))))
      else ret (c, False))"

lemma scan_trans_escaped [scan_rules]: "scan.keeps (trans_escaped c)"
proof -
  have "scan.keeps (hex_loop n d)" for n d
    by (induction n arbitrary: d) (auto intro!: scan.keeps_rules scan_rules)
  then show ?thesis unfolding trans_escaped_def by (auto intro!: scan.keeps_rules scan_rules split: option.split)
qed

text \<open>
  \<open>bracket\<close> is 1 inside a bracket expression of the regular expression and 2 inside a class \<open>[: :]\<close> of it, \<open>chars\<close> the number of characters since the bracket
  was opened. \<open>cmd\<close> is the letter of the command, if there is one.
\<close>

definition rex_incomplete :: "uchar option \<Rightarrow> utext \<Rightarrow> ('r, 'a) act" where
  "rex_incomplete cmd buf = fail_here (case cmd of Some t \<Rightarrow> ECMDIC t | None \<Rightarrow> EREXIC buf)"

definition rex_escape :: "bool \<Rightarrow> uchar \<Rightarrow> ('r, utext) act" where
  "rex_escape replacement nc =
     (if nc = ch_nl then ret [nc]
      else bnd (trans_escaped nc) (\<lambda>(ec, xamp). ret ((if ec = nc \<or> xamp \<and> replacement then [ch_bs] else []) @ [ec])))"

lemma scan_rex_escape [scan_rules]: "scan.keeps (rex_incomplete cmd buf)" "scan.keeps (rex_escape replacement nc)"
  unfolding rex_incomplete_def rex_escape_def by (auto intro!: scan.keeps_rules scan_rules)

lemma rex_escape_less:
  "getnextsc s = (Inr c, s1) \<Longrightarrow> src_cc s = Some d \<Longrightarrow> rex_escape replacement nc s1 = (q, s2) \<Longrightarrow> getnextsc s2 = (q', s3) \<Longrightarrow> script_left s3 < script_left s"
  using scan_less [OF scan_getnextsc, of s2 q' s3 s] scan_less [OF scan_rex_escape(2), of replacement nc s1 q s2 s] getnextsc_less [of s c s1] by simp

function rex_loop :: "uchar \<Rightarrow> bool \<Rightarrow> uchar option \<Rightarrow> utext \<Rightarrow> nat \<Rightarrow> nat \<Rightarrow> ('r, utext) act" where
  "rex_loop rxend replacement cmd buf chars bracket s =
     (case src_cc s of
        None \<Rightarrow> rex_incomplete cmd buf s
      | Some c \<Rightarrow>
          if c = ch_nl then rex_incomplete cmd buf s
          else if c = rxend \<and> bracket = 0 then ret buf s
          else if c = ch_bs then
            bnd getnextsc (\<lambda>nc s. case nc of
               None \<Rightarrow> rex_incomplete cmd buf s
             | Some nc \<Rightarrow>
                 bnd (rex_escape replacement nc) (\<lambda>t.
                   thn getnextsc
                     (rex_loop rxend replacement cmd (buf @ t) (chars + 1) (if bracket > 0 \<and> nc = ch CHR '']'' \<and> chars > 1 then 0 else bracket))) s) s
          else if \<not> replacement \<and> c = ch CHR ''['' \<and> bracket = 1 then
            bnd getnextsc (\<lambda>nc. rex_loop rxend replacement cmd (buf @ [c]) (chars + 1) (if nc = Some (ch CHR '':'') then 2 else bracket)) s
          else
            thn getnextsc
              (rex_loop rxend replacement cmd (buf @ [c])
                (if \<not> replacement \<and> c = ch CHR ''['' \<and> bracket = 0 then 1 else chars + 1)
                (if \<not> replacement \<and> c = ch CHR ''['' \<and> bracket = 0 then 1
                 else if \<not> replacement \<and> c = ch CHR '']'' \<and> bracket = 1 \<and> chars > 1 then 0
                 else if \<not> replacement \<and> c = ch CHR '']'' \<and> bracket = 2 \<and> buf \<noteq> [] \<and> last buf = ch CHR '':'' then 1
                 else bracket)) s)"
  by pat_completeness auto
termination
  by (relation "measure (\<lambda>(rxend, replacement, cmd, buf, chars, bracket, s). script_left s)")
    (auto dest: getnextsc_less rex_escape_less)

declare rex_loop.simps [simp del]

lemma scan_rex_loop [scan_rules]: "scan.keeps (rex_loop rxend replacement cmd buf chars bracket)"
proof -
  have "scanned s (snd (rex_loop rxend replacement cmd buf chars bracket s))" for s :: "'a qse_sed"
  proof (induction "script_left s" arbitrary: s buf chars bracket rule: less_induct)
    case less
    show ?case
      by (subst rex_loop.simps)
        (intro scan.at_rules; (rule scan_getnextsc scan_rex_escape scan.keeps_at [OF scan_rex_escape(1)] less | auto dest: getnextsc_less rex_escape_less)+)
  qed
  then show ?thesis by (simp add: scan.keeps_def)
qed

definition pickup_rex :: "uchar \<Rightarrow> bool \<Rightarrow> uchar option \<Rightarrow> ('r, utext) act" where
  "pickup_rex rxend replacement cmd = thn getnextsc (rex_loop rxend replacement cmd [] 0 0)"

definition build_rex :: "'r sed_env \<Rightarrow> utext \<Rightarrow> bool \<Rightarrow> ('r, 'r) act" where
  "build_rex env str ignorecase =
     (case env_build env str ignorecase of
        Built r \<Rightarrow> ret r
      | Build_nomem \<Rightarrow> fail_here ENOMEM
      | Build_error \<Rightarrow> fail_here (EREXBL str))"

definition compile_rex_address :: "'r sed_env \<Rightarrow> uchar \<Rightarrow> ('r, 'r option) act" where
  "compile_rex_address env rxend =
     bnd (pickup_rex rxend False None) (\<lambda>rex.
       if rex = [] then ret None
       else
         bnd peepnextsc (\<lambda>p.
           if p = Some (ch CHR ''I'') then thn getnextsc (bnd (build_rex env rex True) (\<lambda>r. ret (Some r)))
           else bnd (build_rex env rex False) (\<lambda>r. ret (Some r))))"

definition get_address :: "'r sed_env \<Rightarrow> bool \<Rightarrow> ('r, 'r sed_adr) act" where
  "get_address env extended =
     gets src_cc (\<lambda>cc. case cc of
        None \<Rightarrow> ret ADR_NONE
      | Some c \<Rightarrow>
          if c = ch_dollar then thn getnextsc (ret ADR_DOL)
          else if is_dec c then bnd (number is_dec) (\<lambda>lno. ret (ADR_LINE lno))
          else if c = ch CHR ''/'' then bnd (compile_rex_address env c) (\<lambda>r. thn getnextsc (ret (ADR_REX r)))
          else if c = ch_bs then
            bnd getnextsc (\<lambda>nc. case nc of
               None \<Rightarrow> fail_here (EREXIC [])
             | Some d \<Rightarrow>
                 if d = ch_nl then fail_here (EREXIC [])
                 else bnd (compile_rex_address env d) (\<lambda>r. thn getnextsc (ret (ADR_REX r))))
          else if extended \<and> (c = ch CHR ''+'' \<or> c = ch CHR ''~'') then
            bnd getnextsc (\<lambda>nc.
              if \<not> (case nc of None \<Rightarrow> False | Some d \<Rightarrow> is_dec d) then fail_here EA2MOI
              else bnd (number is_dec) (\<lambda>lno. ret (if c = ch CHR ''+'' then ADR_RELLINE lno else ADR_RELLINEM lno)))
          else ret ADR_NONE)"

lemma scan_get_address [scan_rules]: "scan.keeps (pickup_rex rxend replacement cmd)" "scan.keeps (build_rex env str ic)" "scan.keeps (compile_rex_address env c)"
  "scan.keeps (get_address env extended)"
proof -
  show p: "scan.keeps (pickup_rex rxend replacement cmd)" for rxend :: uchar and replacement cmd
    unfolding pickup_rex_def by (intro scan.keeps_rules scan_rules)
  show b: "scan.keeps (build_rex env str ic)" for env :: "'c sed_env" and str ic
    unfolding build_rex_def by (auto intro!: scan.keeps_rules scan_rules split: rex_built.split)
  show c: "scan.keeps (compile_rex_address env c)" for env :: "'c sed_env" and c
    unfolding compile_rex_address_def by (intro scan.keeps_rules scan_rules p b)
  show "scan.keeps (get_address env extended)"
    unfolding get_address_def by (auto intro!: scan.keeps_rules scan_rules c split: option.split)
qed

section \<open>Arguments of commands\<close>

text \<open>
  The text of \<open>a\<close>, \<open>i\<close> and \<open>c\<close>. \<open>start\<close> says that a line begins, where the option to strip leading spaces applies. The second part of the result is whether the
  text ended at a newline that was not escaped.
\<close>

function text_loop :: "'r sed_env \<Rightarrow> bool \<Rightarrow> utext \<Rightarrow> ('r, utext \<times> bool) act" where
  "text_loop env start t s =
     (case src_cc s of
        None \<Rightarrow> ret (t, False) s
      | Some c \<Rightarrow>
          if start \<and> env_stripls env \<and> IS_SPACE c then thn getnextsc (text_loop env True t) s
          else if c = ch_bs then
            bnd getnextsc (\<lambda>nc s. case nc of
               None \<Rightarrow> ret (if env_keeptbs env then t @ [ch_bs] else t, False) s
             | Some d \<Rightarrow> thn getnextsc (text_loop env (d = ch_nl) (t @ [d])) s) s
          else if c = ch_nl then thn getnextsc (ret (t @ [c], True)) s
          else thn getnextsc (text_loop env False (t @ [c])) s)"
  by pat_completeness auto
termination
  by (relation "measure (\<lambda>(env, start, t, s). script_left s)") (auto dest: getnextsc_less intro: scan_less [OF scan_getnextsc])

declare text_loop.simps [simp del]

definition get_text :: "'r sed_env \<Rightarrow> ('r, utext) act" where
  "get_text env = bnd (text_loop env True []) (\<lambda>(t, nl). ret (if env_ensurenl env \<and> \<not> nl then t @ [ch_nl] else t))"

text \<open>The label of the command at \<open>here\<close> is entered into the table.\<close>

definition get_label :: "'r sed_env \<Rightarrow> nat \<Rightarrow> ('r, unit) act" where
  "get_label env here =
     thn (skip_sc IS_SPACE)
       (gets src_cc (\<lambda>c.
          thn
            (if \<not> (case c of None \<Rightarrow> False | Some c \<Rightarrow> IS_LABCHAR c) then (if env_strict env then fail_here ELABEM else ret ())
             else
               bnd (take_sc IS_LABCHAR []) (\<lambda>lab.
                 gets sed_labs (\<lambda>labs.
                   if map_of labs lab \<noteq> None then fail_here (ELABDU lab) else upds (\<lambda>s. s\<lparr>sed_labs := (lab, here) # labs\<rparr>))))
            (thn (skip_sc IS_SPACE)
              (gets src_cc (\<lambda>c.
                 if IS_CMDTERM c \<and> c \<notin> {Some (ch CHR ''}''), Some (ch CHR ''#''), None} then bnd getnextsc (\<lambda>_. ret ()) else ret ())))))"

text \<open>A branch to a label that is known is resolved at once.\<close>

definition get_branch_target :: "('r, utext option \<times> jump option) act" where
  "get_branch_target =
     thn (skip_sc IS_SPACE)
       (gets src_cc (\<lambda>c.
          if IS_CMDTERM c then thn terminate_command (ret (None, None))
          else
            bnd (take_sc IS_LABCHAR []) (\<lambda>lab.
              thn terminate_command
                (gets sed_labs (\<lambda>labs. ret (case map_of labs lab of None \<Rightarrow> (Some lab, None) | Some k \<Rightarrow> (None, Some (At k))))))))"

text \<open>The name of a file and the number of spaces at its end, which are cut off.\<close>

function file_loop :: "utext \<Rightarrow> nat \<Rightarrow> ('r, utext \<times> nat) act" where
  "file_loop t spaces s =
     (if IS_CMDTERM (src_cc s) then ret (t, spaces) s
      else
        (case src_cc s of
           None \<Rightarrow> ret (t, spaces) s
         | Some c \<Rightarrow>
             if c = 0 then fail_here EFILIL s
             else if c = ch_bs then
               bnd getnextsc (\<lambda>nc s.
                 if nc \<in> {Some 0, None, Some ch_nl} then fail_here EFILIL s
                 else thn getnextsc (file_loop (t @ [if nc = Some (ch CHR ''n'') then ch_nl else the nc]) 0) s) s
             else thn getnextsc (file_loop (t @ [c]) (if IS_SPACE c then spaces + 1 else 0)) s))"
  by pat_completeness auto
termination
  by (relation "measure (\<lambda>(t, spaces, s). script_left s)") (auto dest: getnextsc_less intro: scan_less [OF scan_getnextsc])

declare file_loop.simps [simp del]

definition get_file :: "('r, utext) act" where
  "get_file =
     thn (skip_sc IS_SPACE)
       (gets src_cc (\<lambda>c.
          if IS_CMDTERM c then fail_here EFILEM
          else bnd (file_loop [] 0) (\<lambda>(t, spaces). thn terminate_command (ret (take (length t - spaces) t)))))"

lemma getnextsc_less2: "getnextsc s = (Inr c, s1) \<Longrightarrow> src_cc s = Some d \<Longrightarrow> getnextsc s1 = (r, s2) \<Longrightarrow> script_left s2 < script_left s"
  using getnextsc_less scan_less [OF scan_getnextsc] by (metis option.distinct(1))

lemma scan_text [scan_rules]: "scan.keeps (text_loop env start t)"
proof -
  have "scanned s (snd (text_loop env start t s))" for s
  proof (induction "script_left s" arbitrary: s start t rule: less_induct)
    case less
    show ?case by (subst text_loop.simps) (intro scan.at_rules; (rule scan_getnextsc less | auto dest: getnextsc_less getnextsc_less2)+)
  qed
  then show ?thesis by (simp add: scan.keeps_def)
qed

lemma scan_get_text [scan_rules]: "scan.keeps (get_text env)"
  unfolding get_text_def by (auto intro!: scan.keeps_rules scan_rules split: prod.split)

lemma scan_branch [scan_rules]: "scan.keeps get_branch_target"
  unfolding get_branch_target_def by (intro scan.keeps_rules scan_rules)

lemma scan_file [scan_rules]: "scan.keeps (file_loop t spaces)"
proof -
  have "scanned s (snd (file_loop t spaces s))" for s :: "'a qse_sed"
  proof (induction "script_left s" arbitrary: s t spaces rule: less_induct)
    case less
    show ?case
      by (subst file_loop.simps)
        (intro scan.at_rules; (rule scan_getnextsc scan.keeps_at [OF scan_fail(2)] less | auto dest: getnextsc_less getnextsc_less2)+)
  qed
  then show ?thesis by (simp add: scan.keeps_def)
qed

lemma scan_get_file [scan_rules]: "scan.keeps get_file"
  unfolding get_file_def by (auto intro!: scan.keeps_rules scan_rules split: prod.split)

subsection \<open>Substitution\<close>

text \<open>The letter of the command is reported when its argument ends too early.\<close>

definition check_cmdic :: "uchar \<Rightarrow> (uchar \<Rightarrow> ('r, 'a) act) \<Rightarrow> ('r, 'a) act" where
  "check_cmdic cmd k =
     gets src_cc (\<lambda>cc. case cc of None \<Rightarrow> fail_here (ECMDIC cmd) | Some c \<Rightarrow> if c = ch_nl then fail_here (ECMDIC cmd) else k c)"

function occ_loop :: "nat \<Rightarrow> ('r, nat) act" where
  "occ_loop occ s =
     (case src_cc s of
        None \<Rightarrow> ret occ s
      | Some c \<Rightarrow>
          if is_dec c then
            if occ * 10 + (c - ch CHR ''0'') > 65535 then fail_here EOCSTL s
            else thn getnextsc (occ_loop (occ * 10 + (c - ch CHR ''0''))) s
          else ret occ s)"
  by pat_completeness auto
termination by (relation "measure (\<lambda>(occ, s). script_left s)") (auto dest: getnextsc_less)

declare occ_loop.simps [simp del]

lemma scan_occ_loop [scan_rules]: "scan.keeps (occ_loop occ)"
proof -
  have "scanned s (snd (occ_loop occ s))" for s :: "'a qse_sed"
  proof (induction "script_left s" arbitrary: s occ rule: less_induct)
    case less
    show ?case by (subst occ_loop.simps) (intro scan.at_rules; (rule scan_getnextsc scan.keeps_at [OF scan_fail(2)] less | auto dest: getnextsc_less)+)
  qed
  then show ?thesis by (simp add: scan.keeps_def)
qed

lemma occ_loop_less: "occ_loop 0 s = (Inr occ, s') \<Longrightarrow> src_cc s = Some c \<Longrightarrow> is_dec c \<Longrightarrow> script_left s' < script_left s"
  using scan.keepsD [OF scan_occ_loop] getnextsc_less
  by (subst (asm) occ_loop.simps) (fastforce simp: thn_def bnd_def scanned_def fail_here_def fail_at_def gets_def split: if_splits prod.splits sum.splits)

text \<open>The options of \<open>s\<close>; the second part of the state is the option \<open>i\<close>.\<close>

function opt_loop :: "'r sed_subst \<Rightarrow> bool \<Rightarrow> ('r, 'r sed_subst \<times> bool) act" where
  "opt_loop sub ic s =
     (case src_cc s of
        None \<Rightarrow> ret (sub, ic) s
      | Some c \<Rightarrow>
          if c = ch CHR ''p'' then thn getnextsc (opt_loop (sub\<lparr>sub_p := True\<rparr>) ic) s
          else if c = ch CHR ''i'' \<or> c = ch CHR ''I'' then thn getnextsc (opt_loop sub True) s
          else if c = ch CHR ''g'' then thn getnextsc (opt_loop (sub\<lparr>sub_g := True\<rparr>) ic) s
          else if c = ch CHR ''k'' then thn getnextsc (opt_loop (sub\<lparr>sub_k := True\<rparr>) ic) s
          else if is_dec c then
            if sub_occ sub \<noteq> 0 then fail_here EOCSDU s
            else bnd (occ_loop 0) (\<lambda>occ s. if occ = 0 then fail_here EOCSZE s else opt_loop (sub\<lparr>sub_occ := occ\<rparr>) ic s) s
          else if c = ch CHR ''w'' then thn getnextsc (bnd get_file (\<lambda>f. ret (sub\<lparr>sub_file := Some f\<rparr>, ic))) s
          else ret (sub, ic) s)"
  by pat_completeness auto
termination by (relation "measure (\<lambda>(sub, ic, s). script_left s)") (auto dest: getnextsc_less occ_loop_less)

declare opt_loop.simps [simp del]

lemma scan_opt_loop [scan_rules]: "scan.keeps (opt_loop sub ic)"
proof -
  have "scanned s (snd (opt_loop sub ic s))" for s
  proof (induction "script_left s" arbitrary: s sub ic rule: less_induct)
    case less
    show ?case
      by (subst opt_loop.simps)
        (intro scan.at_rules;
          (rule scan_getnextsc scan_occ_loop scan_get_file scan.keeps_at [OF scan_fail(2)] less | auto dest: getnextsc_less occ_loop_less)+)
  qed
  then show ?thesis by (simp add: scan.keeps_def)
qed

definition no_subst :: "utext \<Rightarrow> 'r sed_subst" where
  "no_subst rpl = \<lparr>sub_rex = None, sub_rpl = rpl, sub_file = None, sub_occ = 0, sub_g = False, sub_p = False, sub_k = False\<rparr>"

definition get_subst :: "'r sed_env \<Rightarrow> uchar \<Rightarrow> ('r, 'r sed_subst) act" where
  "get_subst env cmd =
     check_cmdic cmd (\<lambda>delim.
       if delim = ch_bs then fail_here EBSDEL
       else
         bnd (pickup_rex delim False (Some cmd)) (\<lambda>rex.
         bnd (pickup_rex delim True (Some cmd)) (\<lambda>rpl.
         thn getnextsc (
         thn (skip_sc IS_SPACE) (
         bnd (opt_loop (no_subst rpl) False) (\<lambda>(sub, ic).
         thn (if sub_file sub = None then terminate_command else ret ()) (
         bnd (if rex = [] then ret None else bnd (build_rex env rex ic) (\<lambda>r. ret (Some r))) (\<lambda>r.
         ret (sub\<lparr>sub_rex := r, sub_occ := (if \<not> sub_g sub \<and> sub_occ sub = 0 then 1 else sub_occ sub)\<rparr>)))))))))"

lemma scan_check_cmdic: "(\<And>c. scan.keeps (k c)) \<Longrightarrow> scan.keeps (check_cmdic cmd k)"
  unfolding check_cmdic_def by (auto intro!: scan.keeps_rules scan_rules split: option.split)

lemma scan_get_subst [scan_rules]: "scan.keeps (get_subst env cmd)"
  unfolding get_subst_def by (auto intro!: scan_check_cmdic scan.keeps_rules scan_rules split: prod.split)

subsection \<open>Translation\<close>

text \<open>One of the two strings of \<open>y\<close>, not longer than \<open>limit\<close> if there is one.\<close>

definition trans_char_esc :: "uchar \<Rightarrow> uchar \<Rightarrow> ('r, uchar) act" where
  "trans_char_esc cmd c =
     (if c = ch_bs
      then bnd getnextsc (\<lambda>nc. case nc of None \<Rightarrow> fail_here (ECMDIC cmd) | Some d \<Rightarrow> bnd (trans_escaped d) (\<lambda>(ec, _). ret ec))
      else ret c)"

lemma scan_trans_char_esc [scan_rules]: "scan.keeps (trans_char_esc cmd c)"
  unfolding trans_char_esc_def by (auto intro!: scan.keeps_rules scan_rules split: option.split)

text \<open>An action that consumes the current character, unless it fails.\<close>

definition consumes :: "('r, 'a) act \<Rightarrow> bool" where
  "consumes m \<longleftrightarrow> (\<forall>s r s'. src_cc s \<noteq> None \<longrightarrow> m s = (Inr r, s') \<longrightarrow> script_left s' < script_left s)"

lemma consumesD: "consumes m \<Longrightarrow> m s = (Inr r, s') \<Longrightarrow> src_cc s = Some c \<Longrightarrow> script_left s' < script_left s"
  by (auto simp: consumes_def)

named_theorems consumes_rules

lemma consumes_getnextsc [consumes_rules]: "consumes getnextsc"
  using getnextsc_less by (auto simp: consumes_def)

lemma consumes_bnd [consumes_rules]: "consumes m \<Longrightarrow> (\<And>a. shrink.keeps (f a)) \<Longrightarrow> consumes (bnd m f)"
  unfolding consumes_def
proof (intro allI impI)
  fix s :: "'a qse_sed" and r s'
  assume c: "\<forall>s r s'. src_cc s \<noteq> None \<longrightarrow> m s = (Inr r, s') \<longrightarrow> script_left s' < script_left s" "\<And>a. shrink.keeps (f a)" "src_cc s \<noteq> None" "bnd m f s = (Inr r, s')"
  then obtain a s1 where m: "m s = (Inr a, s1)" "f a s1 = (Inr r, s')" by (auto simp: bnd_def split: prod.splits sum.splits)
  have "script_left s1 < script_left s" using c(1,3) m(1) by blast
  moreover have "script_left s' \<le> script_left s1" using shrink.keepsD [OF c(2) m(2)] .
  ultimately show "script_left s' < script_left s" by simp
qed

lemma consumes_thn [consumes_rules]: "consumes m \<Longrightarrow> shrink.keeps n \<Longrightarrow> consumes (thn m n)"
  unfolding thn_def by (rule consumes_bnd)

lemma consumes_fail [consumes_rules]: "consumes (fail_here e)"
  by (simp add: consumes_def fail_here_def fail_at_def gets_def)

lemma trans_step_less:
  assumes "trans_char_esc cmd c s = (Inr d, s1)" "getnextsc s1 = (Inr u, s2)" "src_cc s = Some c"
  shows "script_left s2 < script_left s"
proof (cases "c = ch_bs")
  case True
  have "consumes (trans_char_esc cmd ch_bs :: ('a, nat) act)"
    unfolding trans_char_esc_def by (auto intro!: consumes_rules scan_shrink scan.keeps_rules scan_rules split: option.split)
  then have "script_left s1 < script_left s" using consumesD [of "trans_char_esc cmd ch_bs" s d s1] assms(1,3) True by simp
  then show ?thesis by (rule scan_less [OF scan_getnextsc assms(2)])
next
  case False
  then show ?thesis using assms getnextsc_less by (auto simp: trans_char_esc_def ret_def)
qed

function trans_loop :: "uchar \<Rightarrow> uchar \<Rightarrow> nat option \<Rightarrow> utext \<Rightarrow> ('r, utext) act" where
  "trans_loop cmd delim limit t s =
     (case src_cc s of
        None \<Rightarrow> fail_here (ECMDIC cmd) s
      | Some c \<Rightarrow>
          if c = delim then ret t s
          else if c = ch_nl then fail_here (ECMDIC cmd) s
          else
            bnd (trans_char_esc cmd c) (\<lambda>d s.
              if (case limit of None \<Rightarrow> False | Some n \<Rightarrow> length t \<ge> n) then fail_here ETSNSL s
              else thn getnextsc (trans_loop cmd delim limit (t @ [d])) s) s)"
  by pat_completeness auto
termination by (relation "measure (\<lambda>(cmd, delim, limit, t, s). script_left s)") (auto dest: trans_step_less)

declare trans_loop.simps [simp del]

lemma scan_trans_loop [scan_rules]: "scan.keeps (trans_loop cmd delim limit t)"
proof -
  have "scanned s (snd (trans_loop cmd delim limit t s))" for s :: "'a qse_sed"
  proof (induction "script_left s" arbitrary: s t rule: less_induct)
    case less
    show ?case
      by (subst trans_loop.simps)
        (intro scan.at_rules; (rule scan_getnextsc scan_trans_char_esc scan.keeps_at [OF scan_fail(2)] less | auto dest: trans_step_less)+)
  qed
  then show ?thesis by (simp add: scan.keeps_def)
qed

text \<open>The characters of the two strings alternate in the result.\<close>

definition get_transet :: "uchar \<Rightarrow> ('r, utext) act" where
  "get_transet cmd =
     check_cmdic cmd (\<lambda>delim.
       if delim = ch_bs then fail_here EBSDEL
       else
         thn getnextsc (
         bnd (trans_loop cmd delim None []) (\<lambda>xs.
         thn getnextsc (
         bnd (trans_loop cmd delim (Some (length xs)) []) (\<lambda>ys.
         if length ys < length xs then fail_here ETSNSL
         else thn getnextsc (thn terminate_command (ret (concat (map2 (\<lambda>x y. [x, y]) xs ys)))))))))"

lemma scan_get_transet [scan_rules]: "scan.keeps (get_transet cmd)"
  unfolding get_transet_def by (intro scan_check_cmdic scan.keeps_rules scan_rules)

subsection \<open>Cutting\<close>

definition MAX_SIZE :: nat where
  "MAX_SIZE = 2 ^ 64 - 1"

text \<open>The bounds of one selection; a missing start is the first and a missing end the last position.\<close>

definition cut_bounds :: "'r sed_env \<Rightarrow> ('r, nat \<times> nat) act" where
  "cut_bounds env =
     gets src_cc (\<lambda>c1. let has_start = (case c1 of None \<Rightarrow> False | Some c \<Rightarrow> env_isdigit env c) in
     bnd (if has_start then bnd (number (env_isdigit env)) (\<lambda>n. thn (skip_sc IS_SPACE) (ret (n - 1))) else ret 0) (\<lambda>start.
     gets src_cc (\<lambda>c2.
       if c2 = Some (ch CHR ''-'') then
         thn getnextsc (
         thn (skip_sc IS_SPACE) (
         gets src_cc (\<lambda>c3. let has_end = (case c3 of None \<Rightarrow> False | Some c \<Rightarrow> env_isdigit env c) in
         bnd (if has_end then number (env_isdigit env) else ret MAX_SIZE) (\<lambda>end.
         thn (skip_sc IS_SPACE) (
         if has_start \<or> has_end then ret (start, end - 1) else fail_here ECSLNV)))))
       else if has_start then ret (start, start) else fail_here ECSLNV)))"

definition cut_add :: "bool \<Rightarrow> nat \<times> nat \<Rightarrow> sed_cut \<Rightarrow> sed_cut" where
  "cut_add field b ct =
     ct\<lparr>cut_sels := cut_sels ct @ [if field then SEL_FIELD (fst b) (snd b) else SEL_CHAR (fst b) (snd b)],
        cut_fcount := (if field then cut_fcount ct + 1 else cut_fcount ct)\<rparr>"

text \<open>One item of the list: a delimiter or a selection. \<open>field\<close> says what the last \<open>c\<close> or \<open>f\<close> selected.\<close>

definition cut_item :: "'r sed_env \<Rightarrow> sed_cut \<Rightarrow> bool \<Rightarrow> ('r, sed_cut \<times> bool) act" where
  "cut_item env ct field =
     thn (skip_sc IS_SPACE) (
     gets src_cc (\<lambda>cc. case cc of
        None \<Rightarrow> fail_here ECSLNV
      | Some c \<Rightarrow>
          if c = ch CHR ''d'' \<or> c = ch CHR ''D'' then
            bnd getnextsc (\<lambda>nc. case nc of
               None \<Rightarrow> fail_here ECSLNV
             | Some d \<Rightarrow> thn getnextsc (ret (if c = ch CHR ''d'' then ct\<lparr>cut_idelim := d\<rparr> else ct\<lparr>cut_odelim := d\<rparr>, field)))
          else
            (let field = (if c = ch CHR ''c'' then False else if c = ch CHR ''f'' then True else field) in
             thn (if c = ch CHR ''c'' \<or> c = ch CHR ''f'' then thn getnextsc (skip_sc IS_SPACE) else ret ())
               (bnd (cut_bounds env) (\<lambda>b. ret (cut_add field b ct, field))))))"

lemma scan_cut_item [scan_rules]: "scan.keeps (cut_bounds env)" "scan.keeps (cut_item env ct field)"
proof -
  show b: "scan.keeps (cut_bounds env)" for env :: "'b sed_env"
    unfolding cut_bounds_def Let_def by (intro scan.keeps_rules scan_rules)
  show "scan.keeps (cut_item env ct field)"
    unfolding cut_item_def Let_def by (auto intro!: scan.keeps_rules scan_rules b split: option.split)
qed

lemma cut_step_less:
  assumes "cut_item env ct field s = (Inr x, s1)" "skip_sc IS_SPACE s1 = (Inr u, s2)" "src_cc s2 = Some c" "getnextsc s2 = (Inr d, s3)"
  shows "script_left s3 < script_left s"
  using scan.keepsD [OF scan_cut_item(2) assms(1)] scan.keepsD [OF scan_skip_sc assms(2)] getnextsc_less [OF assms(4)] assms(3) by (simp add: scanned_def)

function cut_loop :: "'r sed_env \<Rightarrow> uchar \<Rightarrow> sed_cut \<Rightarrow> bool \<Rightarrow> ('r, sed_cut) act" where
  "cut_loop env delim ct field s =
     bnd (cut_item env ct field) (\<lambda>x.
     bnd (skip_sc IS_SPACE) (\<lambda>_ s.
       case src_cc s of
         None \<Rightarrow> fail_here ECSLNV s
       | Some c \<Rightarrow>
           if c = delim then ret (fst x) s
           else if c \<noteq> ch CHR '','' then fail_here ECSLNV s
           else thn getnextsc (cut_loop env delim (fst x) (snd x)) s)) s"
  by pat_completeness auto
termination by (relation "measure (\<lambda>(env, delim, ct, field, s). script_left s)") (auto dest: cut_step_less)

declare cut_loop.simps [simp del]

lemma scan_cut_loop [scan_rules]: "scan.keeps (cut_loop env delim ct field)"
proof -
  have "scanned s (snd (cut_loop env delim ct field s))" for s
  proof (induction "script_left s" arbitrary: s ct field rule: less_induct)
    case less
    show ?case
      by (subst cut_loop.simps)
        (intro scan.at_rules; (rule scan_getnextsc scan_cut_item scan_skip_sc scan.keeps_at [OF scan_fail(2)] less | auto dest: cut_step_less)+)
  qed
  then show ?thesis by (simp add: scan.keeps_def)
qed

definition get_cut :: "'r sed_env \<Rightarrow> uchar \<Rightarrow> ('r, sed_cut) act" where
  "get_cut env cmd =
     check_cmdic cmd (\<lambda>delim.
       if delim = ch_bs then fail_here EBSDEL
       else
         thn getnextsc (
         bnd (cut_loop env delim \<lparr>cut_sels = [], cut_idelim = 32, cut_odelim = 32, cut_w = False, cut_f = False, cut_d = False, cut_fcount = 0\<rparr> False) (\<lambda>ct.
         thn getnextsc (
         thn (skip_sc IS_SPACE) (
         bnd (take_sc (\<lambda>c. c = ch CHR ''f'' \<or> c = ch CHR ''w'' \<or> c = ch CHR ''d'') []) (\<lambda>opts.
         thn terminate_command
           (ret (ct\<lparr>cut_f := (ch CHR ''f'' \<in> set opts), cut_w := (ch CHR ''w'' \<in> set opts), cut_d := (ch CHR ''d'' \<in> set opts)\<rparr>))))))))"

lemma scan_get_cut [scan_rules]: "scan.keeps (get_cut env cmd)"
  unfolding get_cut_def by (intro scan_check_cmdic scan.keeps_rules scan_rules)

section \<open>Commands\<close>

definition new_cmd :: "'r sed_adr \<Rightarrow> 'r sed_adr \<Rightarrow> bool \<Rightarrow> 'r sed_op \<Rightarrow> 'r sed_cmd" where
  "new_cmd a1 a2 negated t =
     \<lparr>c_type = t, c_negated = negated, c_a1 = a1, c_a2 = a2, c_a1_matched = False, c_a1_match_line = 0, c_ready = False, c_next = Over\<rparr>"

text \<open>The commands without an argument.\<close>

definition plain_op :: "uchar \<Rightarrow> 'r sed_op option" where
  "plain_op c =
     map_of [(ch CHR ''='', CMD_PRINT_LNNUM), (ch CHR ''d'', CMD_DELETE), (ch CHR ''D'', CMD_DELETE_FIRSTLN), (ch CHR ''p'', CMD_PRINT),
       (ch CHR ''P'', CMD_PRINT_FIRSTLN), (ch CHR ''l'', CMD_PRINT_CLEARLY), (ch CHR ''h'', CMD_HOLD), (ch CHR ''H'', CMD_HOLD_APPEND),
       (ch CHR ''g'', CMD_RELEASE), (ch CHR ''G'', CMD_RELEASE_APPEND), (ch CHR ''x'', CMD_EXCHANGE), (ch CHR ''n'', CMD_NEXT),
       (ch CHR ''N'', CMD_NEXT_APPEND), (ch CHR ''z'', CMD_CLEAR_PATTERN), (ch CHR ''q'', CMD_QUIT), (ch CHR ''Q'', CMD_QUIT_QUIET)] c"

definition text_op :: "uchar \<Rightarrow> utext \<Rightarrow> 'r sed_op" where
  "text_op c t = (if c = ch CHR ''a'' then CMD_APPEND t else if c = ch CHR ''i'' then CMD_INSERT t else CMD_CHANGE t)"

definition file_op :: "uchar \<Rightarrow> utext \<Rightarrow> 'r sed_op" where
  "file_op c f =
     (if c = ch CHR ''r'' then CMD_READ_FILE f else if c = ch CHR ''R'' then CMD_READ_FILELN f
      else if c = ch CHR ''w'' then CMD_WRITE_FILE f else CMD_WRITE_FILELN f)"

text \<open>The commands that take one address at most, when the compiler is strict.\<close>

definition one_address :: "uchar \<Rightarrow> bool" where
  "one_address c \<longleftrightarrow> c \<in> {ch CHR ''q'', ch CHR ''Q'', ch CHR ''a'', ch CHR ''i'', ch CHR ''=''}"

definition start_text :: "'r sed_env \<Rightarrow> ('r, unit) act" where
  "start_text env =
     thn getnextsc (
     thn (skip_sc IS_SPACE) (
     gets src_cc (\<lambda>c.
       if c \<noteq> Some ch_bs then
         (if env_sameline env \<and> c \<noteq> None \<and> c \<noteq> Some ch_nl then ret () else fail_here EBSEXP)
       else
         thn getnextsc (
         thn (skip_sc IS_SPACE) (
         gets src_cc (\<lambda>c.
           if c \<noteq> None \<and> c \<noteq> Some ch_nl then (if env_sameline env then ret () else fail_here EGBABS)
           else bnd getnextsc (\<lambda>_. ret ())))))))"

abbreviation MAX_GROUP :: nat where
  "MAX_GROUP \<equiv> 128"

text \<open>A closing brace gives the branch at the opening brace its target.\<close>

definition close_group :: "nat \<Rightarrow> ('r, unit) act" where
  "close_group here =
     gets sed_grp (\<lambda>grp. case grp of
        [] \<Rightarrow> fail_here EGRNBA
      | tc # rest \<Rightarrow>
          thn (upds (\<lambda>s. s\<lparr>sed_grp := rest\<rparr>))
            (upd_cmd tc (\<lambda>c. c\<lparr>c_type := CMD_BRANCH None (Some (At here))\<rparr>)))"

definition open_group :: "nat \<Rightarrow> ('r, unit) act" where
  "open_group here =
     gets sed_grp (\<lambda>grp. if length grp \<ge> MAX_GROUP then fail_here EGRNTD else upds (\<lambda>s. s\<lparr>sed_grp := here # grp\<rparr>))"

definition get_command :: "'r sed_env \<Rightarrow> 'r sed_adr \<Rightarrow> 'r sed_adr \<Rightarrow> bool \<Rightarrow> ('r, 'r sed_cmd) act" where
  "get_command env a1 a2 negated =
     gets (\<lambda>s. (src_cc s, length (sed_cmds s))) (\<lambda>(cc, here).
       let new = (\<lambda>t. ret (new_cmd a1 a2 negated t)) in
       case cc of
         None \<Rightarrow> fail_here ECMDMS
       | Some c \<Rightarrow>
           if c = ch_nl then fail_here ECMDMS
           else if c = ch CHR '':'' then
             (if a1 \<noteq> ADR_NONE then fail_here (EA1PHB 0)
              else thn getnextsc (thn (get_label env here) (thn (skip_sc IS_SPACE) (new CMD_NOOP))))
           else if c = ch CHR ''{'' then
             thn (open_group here) (thn getnextsc (ret (new_cmd a1 a2 (\<not> negated) (CMD_BRANCH None None))))
           else if c = ch CHR ''}'' then
             (if a1 \<noteq> ADR_NONE then fail_here (EA1PHB c)
              else thn (close_group here) (thn getnextsc (new CMD_NOOP)))
           else if env_strict env \<and> one_address c \<and> a2 \<noteq> ADR_NONE then fail_here (EA2PHB c)
           else if c = ch CHR ''a'' \<or> c = ch CHR ''i'' \<or> c = ch CHR ''c'' then
             thn (start_text env) (bnd (get_text env) (\<lambda>t. new (text_op c t)))
           else if c = ch CHR ''b'' then thn getnextsc (bnd get_branch_target (\<lambda>(l, t). new (CMD_BRANCH l t)))
           else if c = ch CHR ''t'' then thn getnextsc (bnd get_branch_target (\<lambda>(l, t). new (CMD_BRANCH_COND l t)))
           else if c = ch CHR ''r'' \<or> c = ch CHR ''R'' \<or> c = ch CHR ''w'' \<or> c = ch CHR ''W'' then thn getnextsc (bnd get_file (\<lambda>f. new (file_op c f)))
           else if c = ch CHR ''s'' then thn getnextsc (bnd (get_subst env c) (\<lambda>sub. new (CMD_SUBSTITUTE sub)))
           else if c = ch CHR ''y'' then thn getnextsc (bnd (get_transet c) (\<lambda>t. new (CMD_TRANSLATE t)))
           else if c = ch CHR ''C'' then thn getnextsc (bnd (get_cut env c) (\<lambda>ct. new (CMD_CUT ct)))
           else
             (case plain_op c of
                Some t \<Rightarrow> thn getnextsc (thn terminate_command (new t))
              | None \<Rightarrow> fail_here (ECMDNR c)))"

text \<open>The error of an address is replaced by a general one.\<close>

definition or_else :: "('r, 'a) act \<Rightarrow> sed_err \<Rightarrow> ('r, 'a) act" where
  "or_else m e s = (case m s of (Inl _, s) \<Rightarrow> fail_here e s | (Inr a, s) \<Rightarrow> (Inr a, s))"

definition second_address :: "'r sed_env \<Rightarrow> 'r sed_adr \<Rightarrow> ('r, 'r sed_adr) act" where
  "second_address env a1 =
     thn (skip_sc IS_SPACE) (
     gets src_cc (\<lambda>c.
       if c = Some (ch CHR '','') \<or> env_extendedadr env \<and> c = Some (ch CHR ''~'') then
         thn getnextsc (
         thn (skip_sc IS_SPACE) (
         bnd (or_else (get_address env (env_extendedadr env)) EA2MOI) (\<lambda>a2.
           if c = Some (ch CHR '','') then
             (case a2 of
                ADR_NONE \<Rightarrow> fail_here EA2MOI
              | ADR_RELLINE lno \<Rightarrow> ret (if lno = 0 then ADR_NONE else a2)
              | ADR_RELLINEM lno \<Rightarrow> ret (if lno = 0 then ADR_NONE else a2)
              | _ \<Rightarrow> ret a2)
           else
             (case (a1, a2) of
                (ADR_LINE _, ADR_LINE lno) \<Rightarrow> ret (if lno > 0 then ADR_STEP lno else ADR_NONE)
              | _ \<Rightarrow> fail_here EA2MOI))))
       else ret ADR_NONE))"

definition zero_ok :: "'r sed_env \<Rightarrow> 'r sed_adr \<Rightarrow> 'r sed_adr \<Rightarrow> bool" where
  "zero_ok env a1 a2 \<longleftrightarrow>
     (case a1 of
        ADR_LINE lno \<Rightarrow> lno > 0 \<or> (case a2 of ADR_STEP _ \<Rightarrow> True | ADR_REX _ \<Rightarrow> env_extendedadr env | _ \<Rightarrow> False)
      | _ \<Rightarrow> True)"

lemma script_left_fields [simp]:
  "script_left (s\<lparr>sed_labs := a\<rparr>) = script_left s" "script_left (s\<lparr>sed_grp := b\<rparr>) = script_left s" "script_left (s\<lparr>sed_cmds := c\<rparr>) = script_left s"
  "script_left (s\<lparr>err_loc := d\<rparr>) = script_left s"
  by (simp_all add: script_left_def)

lemma shrink_upds: "shrink.keeps (upds (\<lambda>s. s\<lparr>sed_labs := f s\<rparr>))" "shrink.keeps (upds (\<lambda>s. s\<lparr>sed_grp := g s\<rparr>))" "shrink.keeps (upd_cmd i h)"
  unfolding upd_cmd_def by (rule shrink.keeps_upds, simp)+

lemma scan_or_else [scan_rules]: "scan.keeps m \<Longrightarrow> scan.keeps (or_else m e)"
  unfolding scan.keeps_def [of "or_else m e"]
proof
  fix s
  assume m: "scan.keeps m"
  obtain r s' where "m s = (r, s')" by fastforce
  then show "scanned s (snd (or_else m e s))"
    using scan.keepsD [OF m] by (cases r) (auto simp: or_else_def fail_here_def fail_at_def gets_def scanned_def)
qed

lemma scan_second_address [scan_rules]: "scan.keeps (second_address env a1)"
  unfolding second_address_def by (intro scan.keeps_rules scan_rules) (auto intro!: scan.keeps_rules scan_rules split: sed_adr.split)

lemma scan_start_text [scan_rules]: "scan.keeps (start_text env)"
  unfolding start_text_def by (intro scan.keeps_rules scan_rules)

lemmas shrinks = shrink.keeps_rules shrink_upds scan_rules [THEN scan_shrink]

lemma shrink_get_label: "shrink.keeps (get_label env here)"
  unfolding get_label_def by (intro shrinks)

lemma consumes_start_text [consumes_rules]: "consumes (start_text env)"
  unfolding start_text_def by (intro consumes_rules shrinks)

lemma consumes_gets [consumes_rules]: "(\<And>a. consumes (k a)) \<Longrightarrow> consumes (gets f k)"
  by (simp add: consumes_def gets_def)

lemma consumes_if [consumes_rules]: "consumes m \<Longrightarrow> consumes n \<Longrightarrow> consumes (if b then m else n)"
  by simp

lemma consumes_option [consumes_rules]: "consumes m \<Longrightarrow> (\<And>c. consumes (f c)) \<Longrightarrow> consumes (case x of None \<Rightarrow> m | Some c \<Rightarrow> f c)"
  by (cases x) simp_all

lemma consumes_prod [consumes_rules]: "(\<And>a b. consumes (f a b)) \<Longrightarrow> consumes (case p of (a, b) \<Rightarrow> f a b)"
  by (cases p) simp

lemma consumes_after:
  assumes "\<And>s. src_cc (snd (m s)) = src_cc s" "\<And>s. script_left (snd (m s)) = script_left s" "consumes n"
  shows "consumes (thn m n)"
  unfolding consumes_def
proof (intro allI impI)
  fix s :: "'a qse_sed" and r s'
  assume s: "src_cc s \<noteq> None" "thn m n s = (Inr r, s')"
  then obtain a s1 where m: "m s = (Inr a, s1)" "n s1 = (Inr r, s')" by (auto simp: thn_def bnd_def split: prod.splits sum.splits)
  then have "src_cc s1 \<noteq> None" "script_left s1 = script_left s" using assms(1,2) [of s] s(1) by simp_all
  then show "script_left s' < script_left s" using assms(3) m(2) unfolding consumes_def by metis
qed

lemma group_keeps: "src_cc (snd (open_group here s)) = src_cc s" "script_left (snd (open_group here s)) = script_left s"
  "src_cc (snd (close_group here s)) = src_cc s" "script_left (snd (close_group here s)) = script_left s"
  by (auto simp: open_group_def close_group_def gets_def upds_def upd_cmd_def thn_def bnd_def fail_here_def fail_at_def split: list.split)

lemma consumes_group [consumes_rules]:
  "consumes m \<Longrightarrow> consumes (thn (open_group here) m)" "consumes m \<Longrightarrow> consumes (thn (close_group here) m)"
  by (rule consumes_after; simp add: group_keeps)+

lemma consumes_get_command [consumes_rules]: "consumes (get_command env a1 a2 negated)"
  unfolding get_command_def Let_def
  by (intro consumes_gets consumes_prod consumes_option consumes_if consumes_fail consumes_group
      consumes_thn [OF consumes_getnextsc] consumes_thn [OF consumes_start_text] consumes_getnextsc shrinks shrink_get_label)

lemma get_command_less:
  assumes "get_command env a1 a2 negated s = (Inr cmd, s')"
  shows "script_left s' < script_left s"
proof (cases "src_cc s")
  case None
  then show ?thesis using assms by (simp add: get_command_def gets_def Let_def fail_here_def fail_at_def)
next
  case (Some c)
  then show ?thesis by (rule consumesD [OF consumes_get_command assms])
qed

lemma bnd_InrD: "bnd m f s = (Inr r, s') \<Longrightarrow> \<exists>a s1. m s = (Inr a, s1) \<and> f a s1 = (Inr r, s')"
  by (auto simp: bnd_def split: prod.splits sum.splits)

lemma thn_InrD: "thn m n s = (Inr r, s') \<Longrightarrow> \<exists>a s1. m s = (Inr a, s1) \<and> n s1 = (Inr r, s')"
  unfolding thn_def by (rule bnd_InrD)

text \<open>What is read before the command letter.\<close>

definition command_prefix :: "'r sed_env \<Rightarrow> ('r, 'r sed_adr \<times> 'r sed_adr \<times> bool) act" where
  "command_prefix env =
     gets src_loc (\<lambda>a1_loc.
     bnd (or_else (get_address env False) EA1MOI) (\<lambda>a1.
     bnd (if a1 = ADR_NONE then ret ADR_NONE else second_address env a1) (\<lambda>a2.
     if \<not> zero_ok env a1 a2 then fail_at a1_loc EA1MOI
     else
       thn (skip_sc IS_SPACE) (
       bnd (take_sc (\<lambda>c. c = ch CHR ''!'') []) (\<lambda>nots.
       thn (skip_sc IS_SPACE) (ret (a1, a2, odd (length nots))))))))"

definition one_command :: "'r sed_env \<Rightarrow> ('r, 'r sed_cmd) act" where
  "one_command env = bnd (command_prefix env) (\<lambda>(a1, a2, negated). get_command env a1 a2 negated)"

lemma scan_command_prefix [scan_rules]: "scan.keeps (command_prefix env)"
  unfolding command_prefix_def by (intro scan.keeps_rules scan_rules)

text \<open>A command that is read without an error is not empty.\<close>

lemma one_command_less: "one_command env s = (Inr cmd, s') \<Longrightarrow> script_left s' < script_left s"
proof -
  assume "one_command env s = (Inr cmd, s')"
  then obtain a1 a2 negated s1 where "command_prefix env s = (Inr (a1, a2, negated), s1)" "get_command env a1 a2 negated s1 = (Inr cmd, s')"
    unfolding one_command_def by (auto dest!: bnd_InrD)
  then show "script_left s' < script_left s" using scan.keepsD [OF scan_command_prefix] get_command_less by (fastforce simp: scanned_def)
qed

lemma comp_comment_less:
  "getnextsc s = (Inr a, s1) \<Longrightarrow> src_cc s = Some c \<Longrightarrow> skip_sc P s1 = (r, s2) \<Longrightarrow> getnextsc s2 = (q, s3) \<Longrightarrow> script_left s3 < script_left s"
  using scan_less [OF scan_getnextsc, of s2 q s3 s] scan_less [OF scan_skip_sc, of P s1 r s2 s] getnextsc_less [of s a s1] by simp

definition add_command :: "'r sed_cmd \<Rightarrow> ('r, unit) act" where
  "add_command cmd = upds (\<lambda>s. s\<lparr>sed_cmds := sed_cmds s @ [cmd]\<rparr>)"

lemma skip_less: "skip_sc P s = (r, s1) \<Longrightarrow> script_left s2 < script_left s1 \<Longrightarrow> script_left s2 < script_left s"
  using scan.keepsD [OF scan_skip_sc, of P s r s1] by (simp add: scanned_def)

lemma skip_command_less: "skip_sc P s = (r, s1) \<Longrightarrow> one_command env s1 = (Inr cmd, s2) \<Longrightarrow> script_left s2 < script_left s"
  by (rule skip_less [OF _ one_command_less])

function comp_loop :: "'r sed_env \<Rightarrow> ('r, unit) act" where
  "comp_loop env s =
     bnd (skip_sc IS_WSPACE) (\<lambda>_ s.
       case src_cc s of
         None \<Rightarrow> ret () s
       | Some c \<Rightarrow>
           if c = ch CHR ''#'' then thn getnextsc (thn (skip_sc (\<lambda>c. c \<noteq> ch_nl)) (thn getnextsc (comp_loop env))) s
           else if c = ch CHR '';'' then thn getnextsc (comp_loop env) s
           else bnd (one_command env) (\<lambda>cmd. thn (add_command cmd) (comp_loop env)) s) s"
  by pat_completeness auto
termination
  by (relation "measure (\<lambda>(env, s). script_left s)")
    (auto intro: skip_less dest: getnextsc_less comp_comment_less skip_command_less simp: add_command_def upds_def)

declare comp_loop.simps [simp del]

text \<open>The script handler may be missing, and opening the script may fail. A failing compilation is reported by the error that was set and its place; that
  closing the script stream afterwards resets the error number is left out.\<close>

definition comp_start :: "utext option list \<Rightarrow> 'r qse_sed \<Rightarrow> 'r qse_sed" where
  "comp_start ans s =
     s\<lparr>sed_cmds := [], sed_labs := [], sed_grp := [], src_ans := ans, src_buf := [], src_eof := False, src_cc := None, src_loc := (1, 0)\<rparr>"

definition qse_sed_comp :: "'r sed_env \<Rightarrow> utext option list option \<Rightarrow> ('r, unit) act" where
  "qse_sed_comp env handler s =
     (case handler of
        None \<Rightarrow> fail_at (0, 0) EINVAL s
      | Some ans \<Rightarrow>
          if \<not> env_open_script env then fail_at (0, 0) EIOUSR (s\<lparr>sed_cmds := [], sed_labs := [], sed_grp := []\<rparr>)
          else
            thn getnextsc (
            thn (comp_loop env) (
            gets sed_grp (\<lambda>grp. if grp \<noteq> [] then fail_here EGRNBA else ret ()))) (comp_start ans s))"

end
