(* ===== verification/Qse_Sed_Script.thy ===== *)
theory Qse_Sed_Script
  imports Qse_Sed_Comp
begin

text \<open>
  What the compiler of the stream editor promises: its result does not depend on how the script is cut into pieces.
\<close>

section \<open>The script and its pieces\<close>

definition src_pending :: "'r qse_sed \<Rightarrow> utext" where
  "src_pending s = src_buf s @ concat (map (\<lambda>a. case a of None \<Rightarrow> [] | Some t \<Rightarrow> t) (src_ans s))"

text \<open>The script handler does not fail and gives at least one character until the end.\<close>

definition src_ok :: "'r qse_sed \<Rightarrow> bool" where
  "src_ok s \<longleftrightarrow> (\<forall>a \<in> set (src_ans s). a \<noteq> None \<and> a \<noteq> Some []) \<and> (src_eof s \<longrightarrow> src_buf s = [] \<and> src_ans s = [])"

definition src_norm :: "'r qse_sed \<Rightarrow> 'r qse_sed" where
  "src_norm s = s\<lparr>src_ans := [], src_buf := src_pending s, src_eof := False\<rparr>"

definition src_same :: "'r qse_sed \<Rightarrow> 'r qse_sed \<Rightarrow> bool" where
  "src_same s t \<longleftrightarrow> src_ok s \<and> src_ok t \<and> src_norm s = src_norm t"

interpretation src: act_bisim src_same .

lemma src_norm_get [simp]:
  "src_cc (src_norm s) = src_cc s" "src_loc (src_norm s) = src_loc s" "sed_cmds (src_norm s) = sed_cmds s" "sed_labs (src_norm s) = sed_labs s"
  "sed_grp (src_norm s) = sed_grp s" "src_buf (src_norm s) = src_pending s" "err_loc (src_norm s) = err_loc s"
  by (simp_all add: src_norm_def)

lemma src_norm_fields [simp]:
  "src_norm (s\<lparr>sed_cmds := a\<rparr>) = (src_norm s)\<lparr>sed_cmds := a\<rparr>" "src_norm (s\<lparr>sed_labs := b\<rparr>) = (src_norm s)\<lparr>sed_labs := b\<rparr>"
  "src_norm (s\<lparr>sed_grp := c\<rparr>) = (src_norm s)\<lparr>sed_grp := c\<rparr>" "src_norm (s\<lparr>err_loc := d\<rparr>) = (src_norm s)\<lparr>err_loc := d\<rparr>"
  "src_norm (s\<lparr>src_loc := e\<rparr>) = (src_norm s)\<lparr>src_loc := e\<rparr>"
  by (simp_all add: src_norm_def src_pending_def)

lemma src_ok_fields [simp]:
  "src_ok (s\<lparr>sed_cmds := a\<rparr>) = src_ok s" "src_ok (s\<lparr>sed_labs := b\<rparr>) = src_ok s" "src_ok (s\<lparr>sed_grp := c\<rparr>) = src_ok s"
  "src_ok (s\<lparr>err_loc := d\<rparr>) = src_ok s" "src_ok (s\<lparr>src_loc := e\<rparr>) = src_ok s"
  by (simp_all add: src_ok_def)

lemma src_same_fields:
  assumes "src_same s t"
  shows "src_cc s = src_cc t" "src_loc s = src_loc t" "sed_cmds s = sed_cmds t" "sed_labs s = sed_labs t" "sed_grp s = sed_grp t" "src_pending s = src_pending t"
    "err_loc s = err_loc t"
proof -
  have n: "src_norm s = src_norm t" using assms by (simp add: src_same_def)
  show "src_cc s = src_cc t" using arg_cong [OF n, of src_cc] by simp
  show "src_loc s = src_loc t" using arg_cong [OF n, of src_loc] by simp
  show "sed_cmds s = sed_cmds t" using arg_cong [OF n, of sed_cmds] by simp
  show "sed_labs s = sed_labs t" using arg_cong [OF n, of sed_labs] by simp
  show "sed_grp s = sed_grp t" using arg_cong [OF n, of sed_grp] by simp
  show "src_pending s = src_pending t" using arg_cong [OF n, of src_buf] by simp
  show "err_loc s = err_loc t" using arg_cong [OF n, of err_loc] by simp
qed

definition next_loc :: "'r qse_sed \<Rightarrow> nat \<times> nat" where
  "next_loc s = (if src_cc s = Some ch_nl then (fst (src_loc s) + 1, 1) else (fst (src_loc s), snd (src_loc s) + 1))"

lemma fill_pending:
  assumes "src_ok s"
  shows "\<exists>s'. fill_script s = (Inr (), s') \<and> src_ok s' \<and> src_norm s' = src_norm s \<and> src_buf s' = (if src_pending s = [] then [] else src_buf s') \<and>
    (src_pending s \<noteq> [] \<longrightarrow> src_buf s' \<noteq> [])"
proof (cases "src_buf s = [] \<and> \<not> src_eof s")
  case True
  show ?thesis
  proof (cases "src_ans s")
    case Nil
    then show ?thesis using True by (auto simp: fill_script_def read_script_stream_def src_ok_def src_norm_def src_pending_def)
  next
    case (Cons a ans)
    then obtain c cs where "a = Some (c # cs)" using assms by (cases a; cases "the a") (auto simp: src_ok_def)
    then show ?thesis using True Cons assms by (auto simp: fill_script_def read_script_stream_def src_ok_def src_norm_def src_pending_def)
  qed
next
  case False
  then show ?thesis using assms by (auto simp: fill_script_def src_ok_def src_norm_def src_pending_def)
qed

lemma buf_pending: "src_buf s \<noteq> [] \<Longrightarrow> hd (src_buf s) = hd (src_pending s) \<and> src_pending (s\<lparr>src_buf := tl (src_buf s)\<rparr>) = tl (src_pending s)"
  by (cases "src_buf s") (auto simp: src_pending_def)

definition peeped :: "'r qse_sed \<Rightarrow> uchar option" where
  "peeped s = (case src_pending s of [] \<Rightarrow> None | c # cs \<Rightarrow> Some c)"

lemma getnextsc_pending:
  assumes "src_ok s"
  shows "\<exists>s'. getnextsc s = (Inr (peeped s), s') \<and> src_ok s' \<and>
    src_norm s' = (src_norm s)\<lparr>src_loc := next_loc s, src_cc := peeped s, src_buf := tl (src_pending s)\<rparr>"
proof -
  let ?s = "s\<lparr>src_loc := next_loc s\<rparr>"
  have "src_ok ?s" using assms by simp
  from fill_pending [OF this] obtain s1 where f: "fill_script ?s = (Inr (), s1)" "src_ok s1" "src_norm s1 = src_norm ?s"
    "src_buf s1 = (if src_pending ?s = [] then [] else src_buf s1)" "src_pending ?s \<noteq> [] \<longrightarrow> src_buf s1 \<noteq> []" by blast
  have ps: "src_pending ?s = src_pending s" by (simp add: src_pending_def)
  have p1: "src_pending s1 = src_pending s" using arg_cong [OF f(3), of src_buf] ps by simp
  have g: "getnextsc s = (case src_buf s1 of [] \<Rightarrow> (Inr None, s1\<lparr>src_cc := None\<rparr>) | c # cs \<Rightarrow> (Inr (Some c), s1\<lparr>src_cc := Some c, src_buf := cs\<rparr>))"
    using f(1) by (simp add: getnextsc_def thn_def bnd_def upds_def gets_def ret_def next_loc_def split: list.split)
  show ?thesis
  proof (cases "src_buf s1")
    case Nil
    then have n: "src_pending s = []" using f(5) ps by auto
    have "src_norm (s1\<lparr>src_cc := None\<rparr>) = (src_norm s1)\<lparr>src_cc := None\<rparr>" "src_ok (s1\<lparr>src_cc := None\<rparr>)" using f(2) by (simp_all add: src_norm_def src_pending_def src_ok_def)
    then show ?thesis using g Nil n f(3) ps by (simp add: peeped_def src_norm_def)
  next
    case (Cons c cs)
    then have n: "src_pending s = c # tl (src_pending s)" using buf_pending [of s1] p1 f(4) ps by (cases "src_pending s") auto
    have "src_pending (s1\<lparr>src_buf := cs\<rparr>) = tl (src_pending s)" using buf_pending [of s1] Cons p1 by simp
    moreover have "src_pending (s1\<lparr>src_cc := Some c, src_buf := cs\<rparr>) = src_pending (s1\<lparr>src_buf := cs\<rparr>)" by (simp add: src_pending_def)
    ultimately have "src_norm (s1\<lparr>src_cc := Some c, src_buf := cs\<rparr>) = (src_norm s1)\<lparr>src_cc := Some c, src_buf := tl (src_pending s)\<rparr>"
      by (simp add: src_norm_def)
    moreover have "src_ok (s1\<lparr>src_cc := Some c, src_buf := cs\<rparr>)" using f(2) Cons by (auto simp: src_ok_def)
    moreover have "peeped s = Some c" using n by (cases "src_pending s") (simp_all add: peeped_def)
    ultimately show ?thesis using g Cons f(3) by simp
  qed
qed

lemma peepnextsc_pending:
  assumes "src_ok s"
  shows "\<exists>s'. peepnextsc s = (Inr (peeped s), s') \<and> src_ok s' \<and> src_norm s' = src_norm s"
proof -
  from fill_pending [OF assms] obtain s1 where f: "fill_script s = (Inr (), s1)" "src_ok s1" "src_norm s1 = src_norm s"
    "src_buf s1 = (if src_pending s = [] then [] else src_buf s1)" "src_pending s \<noteq> [] \<longrightarrow> src_buf s1 \<noteq> []" by blast
  have p1: "src_pending s1 = src_pending s" using arg_cong [OF f(3), of src_buf] by simp
  have "(case src_buf s1 of [] \<Rightarrow> None | c # cs \<Rightarrow> Some c) = peeped s"
    using f(4,5) buf_pending [of s1] p1 by (auto simp: peeped_def split: list.splits)
  then show ?thesis using f by (simp add: peepnextsc_def thn_def bnd_def gets_def ret_def)
qed

lemma src_getnextsc [steady_rules]: "src.steady getnextsc"
  unfolding src.steady_def
proof (intro allI impI)
  fix s t :: "'a qse_sed" assume st: "src_same s t"
  note f = src_same_fields [OF st]
  have "peeped s = peeped t" "next_loc s = next_loc t" using f by (simp_all add: peeped_def next_loc_def)
  then show "fst (getnextsc s) = fst (getnextsc t) \<and> src_same (snd (getnextsc s)) (snd (getnextsc t))"
    using getnextsc_pending [of s] getnextsc_pending [of t] st f(6) by (auto simp: src_same_def)
qed

lemma src_peepnextsc [steady_rules]: "src.steady peepnextsc"
  unfolding src.steady_def
proof (intro allI impI)
  fix s t :: "'a qse_sed" assume st: "src_same s t"
  have "peeped s = peeped t" using src_same_fields(6) [OF st] by (simp add: peeped_def)
  then show "fst (peepnextsc s) = fst (peepnextsc t) \<and> src_same (snd (peepnextsc s)) (snd (peepnextsc t))"
    using peepnextsc_pending [of s] peepnextsc_pending [of t] st by (auto simp: src_same_def)
qed

lemma src_gets [steady_rules]:
  "(\<And>a. src.steady (k1 a)) \<Longrightarrow> src.steady (gets src_cc k1)" "(\<And>a. src.steady (k2 a)) \<Longrightarrow> src.steady (gets src_loc k2)"
  "(\<And>a. src.steady (k3 a)) \<Longrightarrow> src.steady (gets sed_labs k3)" "(\<And>a. src.steady (k4 a)) \<Longrightarrow> src.steady (gets sed_grp k4)"
  by (rule src.steady_gets, erule src_same_fields, assumption)+

lemma src_fail [steady_rules]: "src.steady (fail_at loc e)" "src.steady (fail_here e)"
proof -
  show a: "src.steady (fail_at loc e)" for loc e by (simp add: src.steady_def fail_at_def src_same_def)
  show "src.steady (fail_here e)" unfolding fail_here_def by (intro steady_rules a)
qed

lemma src_take_sc [steady_rules]: "src.steady (take_sc P acc)"
proof -
  have "src.like (take_sc P acc s) (take_sc P acc t)" if "src_same s t" for s t :: "'a qse_sed"
    using that
  proof (induction "script_left s" arbitrary: s t acc rule: less_induct)
    case less
    show ?case
      unfolding take_sc.simps [of P acc s] take_sc.simps [of P acc t] src_same_fields(1) [OF less.prems, symmetric]
      by (intro src.like_rules; (rule src_getnextsc less | auto dest: getnextsc_less)+)
  qed
  then show ?thesis by (simp add: src.steady_like)
qed

lemma src_skip_sc [steady_rules]: "src.steady (skip_sc P)"
  unfolding skip_sc_def by (intro steady_rules)

lemma src_number [steady_rules]: "src.steady (number P)"
  unfolding number_def by (intro steady_rules)

lemma src_terminate [steady_rules]: "src.steady terminate_command"
  unfolding terminate_command_def by (intro steady_rules)

lemma src_case [steady_rules]:
  "src.steady m \<Longrightarrow> (\<And>c. src.steady (f c)) \<Longrightarrow> src.steady (case x of None \<Rightarrow> m | Some c \<Rightarrow> f c)" "(\<And>a b. src.steady (g a b)) \<Longrightarrow> src.steady (case p of (a, b) \<Rightarrow> g a b)"
  by (cases x; simp) (cases p; simp)

lemma src_trans_escaped [steady_rules]: "src.steady (trans_escaped c)"
proof -
  have "src.steady (hex_loop n d)" for n d by (induction n arbitrary: d) (auto intro!: steady_rules)
  then show ?thesis unfolding trans_escaped_def by (intro steady_rules)
qed

lemma src_rex_escape [steady_rules]: "src.steady (rex_incomplete cmd buf)" "src.steady (rex_escape replacement nc)"
  unfolding rex_incomplete_def rex_escape_def by (intro steady_rules)+

lemma src_rex_loop [steady_rules]: "src.steady (rex_loop rxend replacement cmd buf chars bracket)"
proof -
  have "src.like (rex_loop rxend replacement cmd buf chars bracket s) (rex_loop rxend replacement cmd buf chars bracket t)" if "src_same s t" for s t :: "'a qse_sed"
    using that
  proof (induction "script_left s" arbitrary: s t buf chars bracket rule: less_induct)
    case less
    show ?case
      unfolding rex_loop.simps [of rxend replacement cmd buf chars bracket s] rex_loop.simps [of rxend replacement cmd buf chars bracket t] src_same_fields(1) [OF less.prems, symmetric]
      by (intro src.like_rules; (rule src_getnextsc src_rex_escape src.like_at [OF src_rex_escape(1)] less | auto dest: getnextsc_less rex_escape_less)+)
  qed
  then show ?thesis by (simp add: src.steady_like)
qed

lemma src_build_rex [steady_rules]: "src.steady (build_rex env str ic)"
  unfolding build_rex_def by (auto intro!: steady_rules split: rex_built.split)

lemma src_get_address [steady_rules]: "src.steady (get_address env extended)"
  unfolding get_address_def compile_rex_address_def pickup_rex_def by (intro steady_rules)

lemma src_text_loop [steady_rules]: "src.steady (text_loop env start t)"
proof -
  have "src.like (text_loop env start t s) (text_loop env start t s')" if "src_same s s'" for s s'
    using that
  proof (induction "script_left s" arbitrary: s s' start t rule: less_induct)
    case less
    show ?case
      unfolding text_loop.simps [of env start t s] text_loop.simps [of env start t s'] src_same_fields(1) [OF less.prems, symmetric]
      by (intro src.like_rules; (rule src_getnextsc less | auto dest: getnextsc_less getnextsc_less2)+)
  qed
  then show ?thesis by (simp add: src.steady_like)
qed

lemma src_file_loop [steady_rules]: "src.steady (file_loop t spaces)"
proof -
  have "src.like (file_loop t spaces s) (file_loop t spaces s')" if "src_same s s'" for s s' :: "'a qse_sed"
    using that
  proof (induction "script_left s" arbitrary: s s' t spaces rule: less_induct)
    case less
    show ?case
      unfolding file_loop.simps [of t spaces s] file_loop.simps [of t spaces s'] src_same_fields(1) [OF less.prems, symmetric]
      by (intro src.like_rules; (rule src_getnextsc src.like_at [OF src_fail(2)] less | auto dest: getnextsc_less getnextsc_less2)+)
  qed
  then show ?thesis by (simp add: src.steady_like)
qed

lemma src_get_file [steady_rules]: "src.steady get_file"
  unfolding get_file_def by (intro steady_rules)

lemma src_occ_loop [steady_rules]: "src.steady (occ_loop occ)"
proof -
  have "src.like (occ_loop occ s) (occ_loop occ s')" if "src_same s s'" for s s' :: "'a qse_sed"
    using that
  proof (induction "script_left s" arbitrary: s s' occ rule: less_induct)
    case less
    show ?case
      unfolding occ_loop.simps [of occ s] occ_loop.simps [of occ s'] src_same_fields(1) [OF less.prems, symmetric]
      by (intro src.like_rules; (rule src_getnextsc src.like_at [OF src_fail(2)] less | auto dest: getnextsc_less)+)
  qed
  then show ?thesis by (simp add: src.steady_like)
qed

lemma src_opt_loop [steady_rules]: "src.steady (opt_loop sub ic)"
proof -
  have "src.like (opt_loop sub ic s) (opt_loop sub ic s')" if "src_same s s'" for s s'
    using that
  proof (induction "script_left s" arbitrary: s s' sub ic rule: less_induct)
    case less
    show ?case
      unfolding opt_loop.simps [of sub ic s] opt_loop.simps [of sub ic s'] src_same_fields(1) [OF less.prems, symmetric]
      by (intro src.like_rules;
          (rule src_getnextsc src_occ_loop src_get_file src.like_at [OF src_fail(2)] less | auto dest: getnextsc_less occ_loop_less)+)
  qed
  then show ?thesis by (simp add: src.steady_like)
qed

lemma src_check_cmdic [steady_rules]: "(\<And>c. src.steady (k c)) \<Longrightarrow> src.steady (check_cmdic cmd k)"
  unfolding check_cmdic_def by (intro steady_rules)

lemma src_get_subst [steady_rules]: "src.steady (get_subst env cmd)"
  unfolding get_subst_def pickup_rex_def by (intro steady_rules)

lemma src_trans_char_esc [steady_rules]: "src.steady (trans_char_esc cmd c)"
  unfolding trans_char_esc_def by (intro steady_rules)

lemma src_trans_loop [steady_rules]: "src.steady (trans_loop cmd delim limit t)"
proof -
  have "src.like (trans_loop cmd delim limit t s) (trans_loop cmd delim limit t s')" if "src_same s s'" for s s' :: "'a qse_sed"
    using that
  proof (induction "script_left s" arbitrary: s s' t rule: less_induct)
    case less
    show ?case
      unfolding trans_loop.simps [of cmd delim limit t s] trans_loop.simps [of cmd delim limit t s'] src_same_fields(1) [OF less.prems, symmetric]
      by (intro src.like_rules; (rule src_getnextsc src_trans_char_esc src.like_at [OF src_fail(2)] less | auto dest: trans_step_less)+)
  qed
  then show ?thesis by (simp add: src.steady_like)
qed

lemma src_get_transet [steady_rules]: "src.steady (get_transet cmd)"
  unfolding get_transet_def by (intro steady_rules)

lemma src_cut_item [steady_rules]: "src.steady (cut_item env ct field)"
  unfolding cut_item_def cut_bounds_def Let_def by (intro steady_rules)

lemma src_cut_loop [steady_rules]: "src.steady (cut_loop env delim ct field)"
proof -
  have "src.like (cut_loop env delim ct field s) (cut_loop env delim ct field s')" if "src_same s s'" for s s'
    using that
  proof (induction "script_left s" arbitrary: s s' ct field rule: less_induct)
    case less
    have step: "src.like
        (case src_cc s2 of None \<Rightarrow> fail_here ECSLNV s2 | Some c \<Rightarrow> if c = delim then ret (fst x) s2 else if c \<noteq> ch CHR '','' then fail_here ECSLNV s2
           else thn getnextsc (cut_loop env delim (fst x) (snd x)) s2)
        (case src_cc t2 of None \<Rightarrow> fail_here ECSLNV t2 | Some c \<Rightarrow> if c = delim then ret (fst x) t2 else if c \<noteq> ch CHR '','' then fail_here ECSLNV t2
           else thn getnextsc (cut_loop env delim (fst x) (snd x)) t2)"
      if "cut_item env ct field s = (Inr x, s1)" "skip_sc IS_SPACE s1 = (Inr u, s2)" "src_same s2 t2" for x s1 u s2 t2
      unfolding src_same_fields(1) [OF that(3), symmetric]
      by (intro src.like_rules; (rule src_getnextsc src.like_at [OF src_fail(2)] less that | use that in \<open>auto dest: cut_step_less\<close>)+)
    show ?case
      unfolding cut_loop.simps [of env delim ct field s] cut_loop.simps [of env delim ct field s']
      by (rule src.like_bnd [OF src_cut_item less.prems], rule src.like_bnd [OF src_skip_sc], assumption, rule step)
  qed
  then show ?thesis by (simp add: src.steady_like)
qed

lemma src_get_cut [steady_rules]: "src.steady (get_cut env cmd)"
  unfolding get_cut_def by (intro steady_rules)

lemma src_same_cmds: "src_same s t \<Longrightarrow> src_same (s\<lparr>sed_cmds := g (sed_cmds s)\<rparr>) (t\<lparr>sed_cmds := g (sed_cmds t)\<rparr>)"
  using src_same_fields(3) [of s t] by (simp add: src_same_def)

lemma src_upds [steady_rules]: "src.steady (upds (\<lambda>s. s\<lparr>sed_labs := a\<rparr>))" "src.steady (upds (\<lambda>s. s\<lparr>sed_grp := b\<rparr>))"
  by (rule src.steady_upds, simp add: src_same_def)+

lemma src_upd_cmds [steady_rules]: "src.steady (upd_cmd i f)" "src.steady (add_command cmd)"
  unfolding upd_cmd_def add_command_def by (rule src.steady_upds, erule src_same_cmds)+

lemma src_groups [steady_rules]: "src.steady (open_group here)" "src.steady (close_group here)"
  unfolding open_group_def close_group_def by (auto intro!: steady_rules split: list.split)

lemma src_get_label [steady_rules]: "src.steady (get_label env here)"
  unfolding get_label_def by (intro steady_rules)

lemma src_get_branch [steady_rules]: "src.steady get_branch_target"
  unfolding get_branch_target_def by (intro steady_rules)

lemma src_start_text [steady_rules]: "src.steady (start_text env)" "src.steady (get_text env)"
  unfolding start_text_def get_text_def by (intro steady_rules)+

lemma src_get_command [steady_rules]: "src.steady (get_command env a1 a2 negated)"
proof -
  have f: "(src_cc s, length (sed_cmds s)) = (src_cc t, length (sed_cmds t))" if "src_same s t" for s t :: "'a qse_sed" using src_same_fields [OF that] by simp
  show ?thesis unfolding get_command_def Let_def by (intro src.steady_gets, erule f) (intro steady_rules)
qed

lemma src_or_else [steady_rules]: "src.steady m \<Longrightarrow> src.steady (or_else m e)"
  unfolding src.steady_like [of "or_else m e"]
proof (intro allI impI)
  fix s t :: "'a qse_sed" assume m: "src.steady m" and st: "src_same s t"
  obtain r s' t' where "m s = (r, s')" "m t = (r, t')" "src_same s' t'" using src.steadyD [OF m st] by (metis prod.collapse)
  then show "src.like (or_else m e s) (or_else m e t)"
    using src.like_at [OF src_fail(2)] by (cases r) (auto simp: or_else_def src.like_def)
qed

lemma src_second_address [steady_rules]: "src.steady (second_address env a1)"
  unfolding second_address_def by (intro steady_rules) (auto intro!: steady_rules split: sed_adr.split)

lemma src_one_command [steady_rules]: "src.steady (one_command env)"
  unfolding one_command_def command_prefix_def by (intro steady_rules)

lemma src_comp_loop [steady_rules]: "src.steady (comp_loop env)"
proof -
  have "src.like (comp_loop env s) (comp_loop env s')" if "src_same s s'" for s s'
    using that
  proof (induction "script_left s" arbitrary: s s' rule: less_induct)
    case less
    have step: "src.like
        (case src_cc s2 of None \<Rightarrow> ret () s2
         | Some c \<Rightarrow> if c = ch CHR ''#'' then thn getnextsc (thn (skip_sc (\<lambda>c. c \<noteq> ch_nl)) (thn getnextsc (comp_loop env))) s2
             else if c = ch CHR '';'' then thn getnextsc (comp_loop env) s2 else bnd (one_command env) (\<lambda>cmd. thn (add_command cmd) (comp_loop env)) s2)
        (case src_cc t2 of None \<Rightarrow> ret () t2
         | Some c \<Rightarrow> if c = ch CHR ''#'' then thn getnextsc (thn (skip_sc (\<lambda>c. c \<noteq> ch_nl)) (thn getnextsc (comp_loop env))) t2
             else if c = ch CHR '';'' then thn getnextsc (comp_loop env) t2 else bnd (one_command env) (\<lambda>cmd. thn (add_command cmd) (comp_loop env)) t2)"
      if k: "skip_sc IS_WSPACE s = (Inr u, s2)" "src_same s2 t2" for u s2 t2
      unfolding src_same_fields(1) [OF that(2), symmetric]
    proof (intro src.like_rules src_getnextsc src_skip_sc src_one_command src_upd_cmds k(2); (assumption | rule less)?)
    qed (use k(1) in \<open>auto intro: skip_less dest: getnextsc_less comp_comment_less skip_command_less simp: add_command_def upds_def\<close>)
    show ?case
      unfolding comp_loop.simps [of env s] comp_loop.simps [of env s']
      by (rule src.like_bnd [OF src_skip_sc less.prems], rule step)
  qed
  then show ?thesis by (simp add: src.steady_like)
qed

text \<open>
  C11. The compiler does not depend on how the handler cuts the script into pieces: it gives the same status, the same commands and the same labels, and reports an error
  at the same line and column.
\<close>

theorem qse_sed_comp_buffering:
  assumes "\<forall>a \<in> set ans. a \<noteq> None \<and> a \<noteq> Some []" "\<forall>a \<in> set ans'. a \<noteq> None \<and> a \<noteq> Some []" "concat (map the ans) = concat (map the ans')"
  shows "(case qse_sed_comp env (Some ans) s of (r, s') \<Rightarrow> (r, sed_cmds s', sed_labs s', err_loc s')) =
    (case qse_sed_comp env (Some ans') s of (r, s') \<Rightarrow> (r, sed_cmds s', sed_labs s', err_loc s'))"
proof -
  have m: "map (\<lambda>a. case a of None \<Rightarrow> [] | Some t \<Rightarrow> t) x = map the x" if "\<forall>a \<in> set x. a \<noteq> None \<and> a \<noteq> Some []" for x :: "utext option list"
    using that by (induction x) auto
  have st: "src_same (comp_start ans s) (comp_start ans' s)"
    using assms by (simp add: src_same_def src_ok_def src_norm_def comp_start_def src_pending_def m)
  show ?thesis
  proof (cases "env_open_script env")
    case True
    have "src.like (qse_sed_comp env (Some ans) s) (qse_sed_comp env (Some ans') s)"
      unfolding qse_sed_comp_def option.case by (intro src.like_if src.like_at [OF _ st] steady_rules) (simp add: True)
    then show ?thesis
      unfolding src.like_def using src_same_fields(3,4,7) by (auto split: prod.splits)
  next
    case False
    then show ?thesis by (simp add: qse_sed_comp_def)
  qed
qed

end
