(* ===== verification/Qse_Sed_Wf.thy ===== *)
theory Qse_Sed_Wf
  imports Qse_Sed_Comp
begin

text \<open>
  What the compiler of the stream editor guarantees of the scripts it accepts: addresses that the engine can match, branches that lead to commands of the script, arguments
  that the commands can work with. \<open>yields\<close> is about the result of an action, \<open>sure\<close> is a precondition and a postcondition of it.
\<close>

section \<open>Results of actions\<close>

text \<open>What an action returns when it does not fail.\<close>

definition yields :: "('a \<Rightarrow> bool) \<Rightarrow> ('r, 'a) act \<Rightarrow> bool" where
  "yields P m \<longleftrightarrow> (\<forall>s r s'. m s = (Inr r, s') \<longrightarrow> P r)"

lemma yieldsD: "yields P m \<Longrightarrow> m s = (Inr r, s') \<Longrightarrow> P r"
  by (auto simp: yields_def)

lemma yields_ret: "P a \<Longrightarrow> yields P (ret a)" and yields_fail: "yields P (fail_here e)" "yields P (fail_at loc e)"
  by (simp_all add: yields_def ret_def fail_here_def fail_at_def gets_def)

lemma yields_bnd2: "yields Q m \<Longrightarrow> (\<And>a. Q a \<Longrightarrow> yields P (f a)) \<Longrightarrow> yields P (bnd m f)"
  unfolding yields_def using bnd_InrD [of m f] by metis

lemma yields_bnd: "(\<And>a. yields P (f a)) \<Longrightarrow> yields P (bnd m f)"
  unfolding yields_def by (auto dest!: bnd_InrD)

lemma yields_thn: "yields P n \<Longrightarrow> yields P (thn m n)"
  unfolding thn_def by (rule yields_bnd)

lemma yields_gets: "(\<And>a. yields P (k a)) \<Longrightarrow> yields P (gets f k)"
  by (simp add: yields_def gets_def)

lemma yields_if: "(b \<Longrightarrow> yields P m) \<Longrightarrow> (\<not> b \<Longrightarrow> yields P n) \<Longrightarrow> yields P (if b then m else n)"
  by simp

lemma yields_option: "(x = None \<Longrightarrow> yields P m) \<Longrightarrow> (\<And>c. x = Some c \<Longrightarrow> yields P (f c)) \<Longrightarrow> yields P (case x of None \<Rightarrow> m | Some c \<Rightarrow> f c)"
  by (cases x) simp_all

lemma yields_prod: "(\<And>a b. p = (a, b) \<Longrightarrow> yields P (f a b)) \<Longrightarrow> yields P (case p of (a, b) \<Rightarrow> f a b)"
  by (cases p) simp

lemma yields_or_else: "yields P m \<Longrightarrow> yields P (or_else m e)"
  by (auto simp: yields_def or_else_def fail_here_def fail_at_def gets_def split: prod.splits sum.splits)

lemma yields_check: "(\<And>c. yields P (k c)) \<Longrightarrow> yields P (check_cmdic cmd k)"
  unfolding check_cmdic_def by (intro yields_gets yields_option yields_if yields_fail)

lemmas yields_rules = yields_fail yields_thn yields_gets yields_if yields_option yields_prod yields_check

definition adr_plain :: "'r sed_adr \<Rightarrow> bool" where
  "adr_plain a \<longleftrightarrow> (case a of ADR_STEP _ \<Rightarrow> False | ADR_RELLINE _ \<Rightarrow> False | ADR_RELLINEM _ \<Rightarrow> False | _ \<Rightarrow> True)"

definition adrs_ok :: "'r sed_adr \<Rightarrow> 'r sed_adr \<Rightarrow> bool" where
  "adrs_ok a1 a2 \<longleftrightarrow> adr_plain a1 \<and> (a1 = ADR_NONE \<longrightarrow> a2 = ADR_NONE) \<and>
     (case a2 of ADR_STEP k \<Rightarrow> 0 < k \<and> (case a1 of ADR_LINE _ \<Rightarrow> True | _ \<Rightarrow> False) | ADR_RELLINE k \<Rightarrow> 0 < k | ADR_RELLINEM k \<Rightarrow> 0 < k | _ \<Rightarrow> True) \<and>
     (a1 = ADR_LINE 0 \<longrightarrow> (case a2 of ADR_STEP _ \<Rightarrow> True | ADR_REX _ \<Rightarrow> True | _ \<Rightarrow> False))"

lemma get_address_plain: "yields (\<lambda>a. (\<forall>k. a \<noteq> ADR_STEP k) \<and> (\<not> extended \<longrightarrow> adr_plain a)) (get_address env extended)"
  unfolding get_address_def
  by (intro yields_rules; (rule yields_bnd yields_ret yields_rules)+; simp add: adr_plain_def)

lemma second_address_ok:
  "yields (\<lambda>a2. case a2 of ADR_STEP k \<Rightarrow> 0 < k \<and> (case a1 of ADR_LINE _ \<Rightarrow> True | _ \<Rightarrow> False) | ADR_RELLINE k \<Rightarrow> 0 < k | ADR_RELLINEM k \<Rightarrow> 0 < k | _ \<Rightarrow> True)
     (second_address env a1)"
  unfolding second_address_def
  by (intro yields_rules yields_bnd2 [OF yields_or_else [OF get_address_plain]])
    (auto intro!: yields_ret yields_fail split: sed_adr.split)

lemma command_prefix_ok: "yields (\<lambda>(a1, a2, negated). adrs_ok a1 a2) (command_prefix env)"
  unfolding command_prefix_def
proof (intro yields_rules yields_bnd2 [OF yields_or_else [OF get_address_plain]])
  fix a1 :: "'a sed_adr"
  let ?Q = "\<lambda>a2. (a1 = ADR_NONE \<longrightarrow> a2 = ADR_NONE) \<and>
    (case a2 of ADR_STEP k \<Rightarrow> 0 < k \<and> (case a1 of ADR_LINE _ \<Rightarrow> True | _ \<Rightarrow> False) | ADR_RELLINE k \<Rightarrow> 0 < k | ADR_RELLINEM k \<Rightarrow> 0 < k | _ \<Rightarrow> True)"
  assume a1: "(\<forall>k. a1 \<noteq> ADR_STEP k) \<and> (\<not> False \<longrightarrow> adr_plain a1)"
  have q: "yields ?Q (if a1 = ADR_NONE then ret ADR_NONE else second_address env a1)"
    using second_address_ok [of a1 env] by (auto simp: yields_def ret_def)
  show "yields (\<lambda>(a1, a2, negated). adrs_ok a1 a2)
     (bnd (if a1 = ADR_NONE then ret ADR_NONE else second_address env a1) (\<lambda>a2.
       if \<not> zero_ok env a1 a2 then fail_at loc EA1MOI
       else thn (skip_sc IS_SPACE) (bnd (take_sc (\<lambda>c. c = ch CHR ''!'') []) (\<lambda>nots. thn (skip_sc IS_SPACE) (ret (a1, a2, odd (length nots)))))))" for loc
    by (rule yields_bnd2 [OF q], intro yields_rules yields_bnd yields_ret)
      (use a1 in \<open>auto simp: adrs_ok_def zero_ok_def split: sed_adr.splits\<close>)
qed

text \<open>Options and arguments.\<close>

lemma occ_loop_ok: "occ \<le> 65535 \<Longrightarrow> occ_loop occ s = (Inr r, s') \<Longrightarrow> r \<le> 65535"
proof (induction "script_left s" arbitrary: s occ rule: less_induct)
  case less
  show ?case
  proof (cases "\<exists>c. src_cc s = Some c \<and> is_dec c")
    case True
    then obtain c where c: "src_cc s = Some c" "is_dec c" by blast
    let ?occ = "occ * 10 + (c - ch CHR ''0'')"
    have o: "?occ \<le> 65535" "thn getnextsc (occ_loop ?occ) s = (Inr r, s')"
      using less.prems(2) c by (subst (asm) occ_loop.simps, auto simp: fail_here_def fail_at_def gets_def split: if_splits)+
    obtain a s1 where "getnextsc s = (Inr a, s1)" "occ_loop ?occ s1 = (Inr r, s')" using thn_InrD [OF o(2)] by blast
    then show ?thesis using less.hyps [OF _ o(1)] getnextsc_less c(1) by blast
  next
    case False
    then show ?thesis using less.prems by (subst (asm) occ_loop.simps) (auto simp: ret_def split: option.splits)
  qed
qed

lemma opt_loop_ok: "sub_occ sub \<le> 65535 \<Longrightarrow> opt_loop sub ic s = (Inr r, s') \<Longrightarrow> sub_occ (fst r) \<le> 65535"
proof (induction "script_left s" arbitrary: s sub ic rule: less_induct)
  case less
  have next_char: "sub_occ (fst r) \<le> 65535" if "thn getnextsc (opt_loop sub' ic') s = (Inr r, s')" "src_cc s = Some c" "sub_occ sub' \<le> 65535" for sub' ic' c
    using thn_InrD [OF that(1)] less.hyps [OF getnextsc_less that(3)] that(2) by blast
  have occ: "sub_occ (fst r) \<le> 65535"
    if step: "bnd (occ_loop 0) (\<lambda>occ s. if occ = 0 then fail_here EOCSZE s else opt_loop (sub\<lparr>sub_occ := occ\<rparr>) ic s) s = (Inr r, s')" and c: "src_cc s = Some c" "is_dec c" for c
  proof -
    obtain k s1 where k: "occ_loop 0 s = (Inr k, s1)" "(if k = 0 then fail_here EOCSZE s1 else opt_loop (sub\<lparr>sub_occ := k\<rparr>) ic s1) = (Inr r, s')"
      using bnd_InrD [OF step] by blast
    then show ?thesis using less.hyps [OF occ_loop_less [OF k(1) c], of "sub\<lparr>sub_occ := k\<rparr>" ic] occ_loop_ok [OF _ k(1)]
      by (auto simp: fail_here_def fail_at_def gets_def split: if_splits)
  qed
  have w: "sub_occ (fst r) \<le> 65535" if "thn getnextsc (bnd get_file (\<lambda>f. ret (sub\<lparr>sub_file := Some f\<rparr>, ic))) s = (Inr r, s')"
    using thn_InrD [OF that] less.prems(1) by (auto simp: ret_def dest!: bnd_InrD)
  show ?case using less.prems
    by (subst (asm) opt_loop.simps)
      (auto simp: ret_def fail_here_def fail_at_def gets_def split: option.splits if_splits dest: next_char occ w)
qed

lemma get_subst_ok: "yields (\<lambda>sub. (sub_g sub \<or> 0 < sub_occ sub) \<and> sub_occ sub \<le> 65535) (get_subst env cmd)"
proof -
  have o: "yields (\<lambda>r. sub_occ (fst r) \<le> 65535) (opt_loop (no_subst rpl) False)" for rpl
    using opt_loop_ok [of "no_subst rpl" False] by (auto simp: yields_def no_subst_def)
  show ?thesis
    unfolding get_subst_def
    by (intro yields_rules yields_bnd2 [OF o]; (rule yields_bnd yields_rules yields_bnd2 [OF o])+; intro yields_rules yields_bnd yields_ret; auto)
qed

lemma map2_pair_even: "length (concat (map2 (\<lambda>x y. [x, y]) xs ys)) = 2 * min (length xs) (length ys)"
  by (induction xs ys rule: list_induct2') simp_all

lemma get_transet_ok: "yields (\<lambda>t. even (length t)) (get_transet cmd)"
  unfolding get_transet_def by (intro yields_rules yields_bnd yields_ret) (simp add: map2_pair_even)

definition field_sel :: "cut_sel \<Rightarrow> bool" where
  "field_sel x \<longleftrightarrow> (case x of SEL_FIELD _ _ \<Rightarrow> True | SEL_CHAR _ _ \<Rightarrow> False)"

definition cut_ok :: "sed_cut \<Rightarrow> bool" where
  "cut_ok ct \<longleftrightarrow> cut_fcount ct = length (filter field_sel (cut_sels ct))"

lemma cut_item_ok: "cut_ok ct \<Longrightarrow> yields (\<lambda>x. cut_ok (fst x)) (cut_item env ct field)"
  unfolding cut_item_def Let_def
  by (intro yields_rules yields_bnd yields_ret) (auto simp: cut_ok_def cut_add_def field_sel_def)

lemma cut_loop_ok: "cut_ok ct \<Longrightarrow> cut_loop env delim ct field s = (Inr r, s') \<Longrightarrow> cut_ok r"
proof (induction "script_left s" arbitrary: s ct field rule: less_induct)
  case less
  obtain x s1 u s2 where x: "cut_item env ct field s = (Inr x, s1)" "skip_sc IS_SPACE s1 = (Inr u, s2)" 
    and e: "(case src_cc s2 of None \<Rightarrow> fail_here ECSLNV s2 | Some c \<Rightarrow> if c = delim then ret (fst x) s2 else if c \<noteq> ch CHR '','' then fail_here ECSLNV s2
           else thn getnextsc (cut_loop env delim (fst x) (snd x)) s2) = (Inr r, s')"
    using less.prems(2) by (subst (asm) cut_loop.simps) (auto dest!: bnd_InrD)
  have ok: "cut_ok (fst x)" using yieldsD [OF cut_item_ok [OF less.prems(1)] x(1)] .
  show ?case
  proof (cases "\<exists>c s3 d. src_cc s2 = Some c \<and> getnextsc s2 = (Inr d, s3) \<and> cut_loop env delim (fst x) (snd x) s3 = (Inr r, s')")
    case True
    then show ?thesis using less.hyps [OF cut_step_less [OF x] ok] by blast
  next
    case False
    then show ?thesis using e ok by (auto simp: ret_def fail_here_def fail_at_def gets_def split: option.splits if_splits dest!: thn_InrD)
  qed
qed

lemma cut_loop_yields: "cut_ok ct \<Longrightarrow> yields cut_ok (cut_loop env delim ct field)"
  unfolding yields_def using cut_loop_ok by blast

lemma get_cut_ok: "yields cut_ok (get_cut env cmd)"
proof -
  have start: "cut_ok \<lparr>cut_sels = [], cut_idelim = 32, cut_odelim = 32, cut_w = False, cut_f = False, cut_d = False, cut_fcount = 0\<rparr>"
    by (simp add: cut_ok_def)
  show ?thesis
    unfolding get_cut_def by (intro yields_rules yields_bnd2 [OF cut_loop_yields [OF start]] yields_bnd yields_ret) (auto simp: cut_ok_def)
qed

section \<open>The table of commands\<close>

text \<open>
  A target is a command of the script. It lies behind the branch, or a label stands there. A branch that keeps the name of a label has no target yet, and the label
  can only stand behind it; one without name and target ends the cycle.
\<close>

definition jump_ok :: "(utext \<times> nat) list \<Rightarrow> nat \<Rightarrow> nat \<Rightarrow> utext option \<Rightarrow> jump option \<Rightarrow> bool" where
  "jump_ok labs n i l t \<longleftrightarrow> (case t of None \<Rightarrow> (\<forall>x k. l = Some x \<longrightarrow> (x, k) \<in> set labs \<longrightarrow> i < k) | Some j \<Rightarrow> l = None \<and> (\<exists>k < n. j = At k \<and> (i < k \<or> k \<in> snd ` set labs)))"

definition op_ok :: "(utext \<times> nat) list \<Rightarrow> nat \<Rightarrow> nat \<Rightarrow> 'r sed_op \<Rightarrow> bool" where
  "op_ok labs n i x \<longleftrightarrow>
     (case x of
        CMD_BRANCH l t \<Rightarrow> jump_ok labs n i l t
      | CMD_BRANCH_COND l t \<Rightarrow> jump_ok labs n i l t
      | CMD_SUBSTITUTE sub \<Rightarrow> (sub_g sub \<or> 0 < sub_occ sub) \<and> sub_occ sub \<le> 65535
      | CMD_TRANSLATE t \<Rightarrow> even (length t)
      | CMD_CUT ct \<Rightarrow> cut_ok ct
      | _ \<Rightarrow> True)"

definition script_ok :: "nat \<Rightarrow> 'r sed_cmd list \<Rightarrow> (utext \<times> nat) list \<Rightarrow> bool" where
  "script_ok n cs labs \<longleftrightarrow>
     (\<forall>i < length cs. adrs_ok (c_a1 (cs ! i)) (c_a2 (cs ! i)) \<and> op_ok labs n i (c_type (cs ! i))) \<and> (\<forall>k \<in> snd ` set labs. k < n) \<and> distinct (map fst labs)"

lemma jump_ok_mono: "jump_ok labs n i l t \<Longrightarrow> n \<le> m \<Longrightarrow> jump_ok labs m i l t"
  unfolding jump_ok_def by (auto split: option.splits) force+

lemma op_ok_mono: "op_ok labs n i x \<Longrightarrow> n \<le> m \<Longrightarrow> op_ok labs m i x"
  using jump_ok_mono [of labs n i _ _ m] by (cases x) (simp_all add: op_ok_def)

lemma jump_ok_label: "jump_ok labs n i l t \<Longrightarrow> i < k \<Longrightarrow> jump_ok ((lab, k) # labs) n i l t"
  unfolding jump_ok_def by (auto split: option.splits)

lemma op_ok_label: "op_ok labs n i x \<Longrightarrow> i < k \<Longrightarrow> op_ok ((lab, k) # labs) n i x"
  using jump_ok_label [of labs n i _ _ k lab] by (cases x) (simp_all add: op_ok_def)

lemma script_ok_mono: "script_ok n cs labs \<Longrightarrow> n \<le> m \<Longrightarrow> script_ok m cs labs"
  unfolding script_ok_def using op_ok_mono [of labs n _ _ m] by fastforce

lemma script_ok_label:
  assumes "script_ok n cs labs" "map_of labs lab = None" "length cs \<le> k" "k < n"
  shows "script_ok n cs ((lab, k) # labs)"
  using assms by (auto simp: script_ok_def map_of_eq_None_iff intro!: op_ok_label)

lemma script_ok_target:
  assumes "script_ok n cs labs" "length cs \<le> k" "k < n"
  shows "script_ok n (cs[tc := (cs ! tc)\<lparr>c_type := CMD_BRANCH None (Some (At k))\<rparr>]) labs"
  using assms by (cases "tc < length cs") (auto simp: script_ok_def nth_list_update op_ok_def jump_ok_def)

lemma script_ok_add:
  assumes "script_ok n cs labs" "adrs_ok (c_a1 c) (c_a2 c)" "op_ok labs n (length cs) (c_type c)"
  shows "script_ok n (cs @ [c]) labs"
  using assms by (auto simp: script_ok_def nth_append less_Suc_eq)

text \<open>The state while the command after \<open>n\<close> others is read.\<close>

definition reading :: "nat \<Rightarrow> 'r qse_sed \<Rightarrow> bool" where
  "reading n s \<longleftrightarrow> length (sed_cmds s) = n \<and> script_ok (n + 1) (sed_cmds s) (sed_labs s)"

definition sure :: "('r qse_sed \<Rightarrow> bool) \<Rightarrow> ('r, 'a) act \<Rightarrow> ('a \<Rightarrow> 'r qse_sed \<Rightarrow> bool) \<Rightarrow> bool" where
  "sure P m Q \<longleftrightarrow> (\<forall>s r s'. P s \<longrightarrow> m s = (Inr r, s') \<longrightarrow> Q r s')"

lemma sure_bnd: "sure P m Q \<Longrightarrow> (\<And>a. sure (Q a) (f a) R) \<Longrightarrow> sure P (bnd m f) R"
  unfolding sure_def using bnd_InrD [of m f] by metis

lemma sure_thn: "sure P m (\<lambda>_. Q) \<Longrightarrow> sure Q n R \<Longrightarrow> sure P (thn m n) R"
  unfolding thn_def by (rule sure_bnd)

lemma sure_gets: "(\<And>a. sure P (k a) Q) \<Longrightarrow> sure P (gets f k) Q"
  unfolding sure_def gets_def by blast

lemma sure_if: "(b \<Longrightarrow> sure P m Q) \<Longrightarrow> (\<not> b \<Longrightarrow> sure P n Q) \<Longrightarrow> sure P (if b then m else n) Q"
  by simp

lemma sure_option: "(x = None \<Longrightarrow> sure P m Q) \<Longrightarrow> (\<And>c. x = Some c \<Longrightarrow> sure P (f c) Q) \<Longrightarrow> sure P (case x of None \<Rightarrow> m | Some c \<Rightarrow> f c) Q"
  by (cases x) simp_all

lemma sure_ret: "(\<And>s. P s \<Longrightarrow> Q a s) \<Longrightarrow> sure P (ret a) Q" and sure_fail: "sure P (fail_here e) Q"
  by (simp_all add: sure_def ret_def fail_here_def fail_at_def gets_def)

lemma sure_scan: "scan.keeps m \<Longrightarrow> sure (reading n) m (\<lambda>_. reading n)"
  unfolding sure_def reading_def using scan.keepsD [of m] by (metis scanned_def)

lemma sure_scan_yields: "scan.keeps m \<Longrightarrow> yields Y m \<Longrightarrow> sure (reading n) m (\<lambda>a s. reading n s \<and> Y a)"
  using sure_scan [of m n] unfolding sure_def yields_def by blast

lemma sure_first: "scan.keeps m \<Longrightarrow> sure (reading n) k Q \<Longrightarrow> sure (reading n) (thn m k) Q"
  by (rule sure_thn [OF sure_scan])

lemma sure_take: "scan.keeps m \<Longrightarrow> (\<And>a. sure (reading n) (k a) Q) \<Longrightarrow> sure (reading n) (bnd m k) Q"
  by (rule sure_bnd [OF sure_scan])

lemmas sure_rules = sure_fail sure_gets sure_if sure_option sure_first sure_take

lemma get_label_reading: "sure (reading n) (get_label env n) (\<lambda>_. reading n)"
proof -
  have lab: "sure (reading n) (gets sed_labs (\<lambda>labs. if map_of labs lab \<noteq> None then fail_here (ELABDU lab) else upds (\<lambda>s. s\<lparr>sed_labs := (lab, n) # labs\<rparr>))) (\<lambda>_. reading n)"
    for lab :: utext
    using script_ok_label [of "n + 1" _ _ lab n]
    by (auto simp: sure_def gets_def upds_def fail_here_def fail_at_def reading_def split: if_splits)
  show ?thesis
    unfolding get_label_def
    by (rule sure_first sure_gets sure_thn [where Q = "reading n"] sure_if sure_fail sure_take lab sure_ret scan_rules | assumption)+
qed

lemma get_branch_reading: "sure (reading n) get_branch_target (\<lambda>p s. reading n s \<and> jump_ok (sed_labs s) (n + 1) n (fst p) (snd p))"
proof -
  have known: "sure (reading n) (gets sed_labs (\<lambda>labs. ret (case map_of labs lab of None \<Rightarrow> (Some lab, None) | Some k \<Rightarrow> (None, Some (At k)))))
    (\<lambda>p s. reading n s \<and> jump_ok (sed_labs s) (n + 1) n (fst p) (snd p))" for lab :: utext
    by (force simp: sure_def gets_def ret_def reading_def script_ok_def jump_ok_def map_of_eq_None_iff split: option.splits dest: map_of_SomeD)
  show ?thesis
    unfolding get_branch_target_def by (intro sure_first sure_gets sure_if sure_take scan_rules known sure_ret) (simp add: jump_ok_def)
qed

lemma close_group_reading: "sure (reading n) (close_group n) (\<lambda>_. reading n)"
  using script_ok_target [of "n + 1"]
  by (auto simp: sure_def close_group_def gets_def thn_def bnd_def upds_def upd_cmd_def fail_here_def fail_at_def reading_def split: list.splits)

lemma open_group_reading: "sure (reading n) (open_group n) (\<lambda>_. reading n)"
  by (auto simp: sure_def open_group_def gets_def upds_def fail_here_def fail_at_def reading_def split: if_splits)

text \<open>A finished command fits behind those that are there.\<close>

definition finished :: "nat \<Rightarrow> 'r sed_adr \<Rightarrow> 'r sed_adr \<Rightarrow> 'r sed_cmd \<Rightarrow> 'r qse_sed \<Rightarrow> bool" where
  "finished n a1 a2 cmd s \<longleftrightarrow> reading n s \<and> c_a1 cmd = a1 \<and> c_a2 cmd = a2 \<and> op_ok (sed_labs s) (n + 1) n (c_type cmd)"

lemma sure_new:
  "(\<And>s. P s \<Longrightarrow> reading n s \<and> op_ok (sed_labs s) (n + 1) n t) \<Longrightarrow> sure P (ret (new_cmd a1 a2 negated t)) (finished n a1 a2)"
  by (rule sure_ret) (simp add: finished_def new_cmd_def)

lemma sure_new_arg:
  assumes "sure (reading n) m (\<lambda>a s. reading n s \<and> Y a s)" "\<And>a s. Y a s \<Longrightarrow> op_ok (sed_labs s) (n + 1) n (t a)"
  shows "sure (reading n) (bnd m (\<lambda>a. ret (new_cmd a1 a2 negated (t a)))) (finished n a1 a2)"
  by (rule sure_bnd [OF assms(1)], rule sure_new) (use assms(2) in auto)

lemma sure_gets_here: "(\<And>cc. sure (reading n) (k (cc, n)) Q) \<Longrightarrow> sure (reading n) (gets (\<lambda>s. (src_cc s, length (sed_cmds s))) k) Q"
  unfolding sure_def gets_def by (auto simp: reading_def)

lemma op_ok_simps [simp]:
  "op_ok labs n i CMD_NOOP" "op_ok labs n i (CMD_BRANCH l t) = jump_ok labs n i l t" "op_ok labs n i (CMD_BRANCH_COND l t) = jump_ok labs n i l t"
  "op_ok labs n i (CMD_SUBSTITUTE sub) \<longleftrightarrow> (sub_g sub \<or> 0 < sub_occ sub) \<and> sub_occ sub \<le> 65535"
  "op_ok labs n i (CMD_TRANSLATE y) \<longleftrightarrow> even (length y)" "op_ok labs n i (CMD_CUT ct) = cut_ok ct" "jump_ok labs n i None None"
  by (simp_all add: op_ok_def jump_ok_def)

lemma op_ok_text: "op_ok labs n i (text_op c t)" and op_ok_file: "op_ok labs n i (file_op c t)"
  by (simp_all add: op_ok_def text_op_def file_op_def)

lemma op_ok_plain: "plain_op c = Some t \<Longrightarrow> op_ok labs n i t"
  by (auto simp: plain_op_def op_ok_def split: if_splits)

lemma get_command_finished: "sure (reading n) (get_command env a1 a2 negated) (finished n a1 a2)"
proof -
  have branch: "sure (reading n) (bnd get_branch_target (\<lambda>(l, t). ret (new_cmd a1 a2 negated (f l t)))) (finished n a1 a2)"
    if "\<And>labs l t. op_ok labs (n + 1) n (f l t) = jump_ok labs (n + 1) n l t" for f
    by (rule sure_bnd [OF get_branch_reading]) (use that in \<open>auto intro!: sure_new split: prod.split\<close>)
  note args = sure_new_arg [OF sure_scan_yields [OF _ get_subst_ok]] sure_new_arg [OF sure_scan_yields [OF _ get_transet_ok]]
    sure_new_arg [OF sure_scan_yields [OF _ get_cut_ok]]
  show ?thesis
    unfolding get_command_def Let_def
    by (rule sure_gets_here, unfold prod.case, intro sure_option sure_if sure_fail;
        (rule sure_thn [OF get_label_reading] sure_thn [OF open_group_reading] sure_thn [OF close_group_reading] sure_first branch args scan_rules
           | rule sure_take | rule sure_new)+;
        simp add: op_ok_text op_ok_file op_ok_plain)
qed

text \<open>Between two commands the script is well-formed as it stands.\<close>

definition whole :: "'r qse_sed \<Rightarrow> bool" where
  "whole s \<longleftrightarrow> script_ok (length (sed_cmds s)) (sed_cmds s) (sed_labs s)"

lemma whole_reading: "whole s \<Longrightarrow> reading (length (sed_cmds s)) s"
  unfolding whole_def reading_def using script_ok_mono by fastforce

lemma whole_scan: "scan.keeps m \<Longrightarrow> whole s \<Longrightarrow> m s = (r, s') \<Longrightarrow> whole s'"
  using scan.keepsD [of m s r s'] by (simp add: whole_def scanned_def)

lemma one_command_whole:
  assumes "one_command env s = (Inr cmd, s1)" "add_command cmd s1 = (Inr u, s2)" "whole s"
  shows "whole s2"
proof -
  let ?n = "length (sed_cmds s)"
  obtain a1 a2 negated s0 where p: "command_prefix env s = (Inr (a1, a2, negated), s0)" and c: "get_command env a1 a2 negated s0 = (Inr cmd, s1)"
    using assms(1) unfolding one_command_def by (auto dest!: bnd_InrD)
  have "reading ?n s0" using sure_scan [OF scan_command_prefix] p whole_reading [OF assms(3)] unfolding sure_def by blast
  then have "finished ?n a1 a2 cmd s1" using get_command_finished c unfolding sure_def by blast
  moreover have "adrs_ok a1 a2" using yieldsD [OF command_prefix_ok p] by simp
  ultimately have "script_ok (?n + 1) (sed_cmds s1 @ [cmd]) (sed_labs s1)" "length (sed_cmds s1) = ?n"
    by (auto intro: script_ok_add simp: finished_def reading_def)
  then show ?thesis using assms(2) by (auto simp: add_command_def upds_def whole_def)
qed

lemma comp_loop_whole: "whole s \<Longrightarrow> comp_loop env s = (Inr u, s') \<Longrightarrow> whole s'"
proof (induction "script_left s" arbitrary: s rule: less_induct)
  case less
  obtain v s1 where v: "skip_sc IS_WSPACE s = (Inr v, s1)"
    and e: "(case src_cc s1 of None \<Rightarrow> ret () s1
       | Some c \<Rightarrow>
           if c = ch CHR ''#'' then thn getnextsc (thn (skip_sc (\<lambda>c. c \<noteq> ch_nl)) (thn getnextsc (comp_loop env))) s1
           else if c = ch CHR '';'' then thn getnextsc (comp_loop env) s1
           else bnd (one_command env) (\<lambda>cmd. thn (add_command cmd) (comp_loop env)) s1) = (Inr u, s')"
    using less.prems(2) by (subst (asm) comp_loop.simps) (auto dest!: bnd_InrD)
  have w: "whole s1" using whole_scan [OF scan_skip_sc less.prems(1) v] .
  have "s' = s1 \<or> (\<exists>s2. script_left s2 < script_left s \<and> whole s2 \<and> comp_loop env s2 = (Inr u, s'))"
  proof (cases "src_cc s1")
    case None
    then show ?thesis using e by (simp add: ret_def)
  next
    case (Some c)
    consider "c = ch CHR ''#''" | "c = ch CHR '';''" | "c \<noteq> ch CHR ''#''" "c \<noteq> ch CHR '';''" by blast
    then show ?thesis
    proof cases
      case 1
      then obtain a s2 b s3 d s4 where g: "getnextsc s1 = (Inr a, s2)" "skip_sc (\<lambda>c. c \<noteq> ch_nl) s2 = (Inr b, s3)" "getnextsc s3 = (Inr d, s4)"
        "comp_loop env s4 = (Inr u, s')" using e Some by (auto dest!: thn_InrD)
      then show ?thesis
        using comp_comment_less [OF g(1) Some g(2,3)] skip_less [OF v] whole_scan [OF scan_getnextsc whole_scan [OF scan_skip_sc whole_scan [OF scan_getnextsc w g(1)] g(2)] g(3)]
        by blast
    next
      case 2
      then obtain a s2 where g: "getnextsc s1 = (Inr a, s2)" "comp_loop env s2 = (Inr u, s')" using e Some by (auto dest!: thn_InrD)
      then show ?thesis using getnextsc_less [OF g(1)] Some skip_less [OF v] whole_scan [OF scan_getnextsc w g(1)] by blast
    next
      case 3
      then obtain cmd s2 a s3 where g: "one_command env s1 = (Inr cmd, s2)" "add_command cmd s2 = (Inr a, s3)" "comp_loop env s3 = (Inr u, s')"
        using e Some by (auto dest!: thn_InrD bnd_InrD)
      have "script_left s3 = script_left s2" using g(2) by (auto simp: add_command_def upds_def)
      then show ?thesis using skip_command_less [OF v g(1)] one_command_whole [OF g(1,2) w] g(3) by auto
    qed
  qed
  then show ?case using less.hyps w by blast
qed

lemma qse_sed_comp_whole:
  assumes "qse_sed_comp env handler s = (Inr u, s')"
  shows "whole s' \<and> sed_grp s' = []"
proof -
  obtain ans where ans: "handler = Some ans" "env_open_script env"
    using assms by (auto simp: qse_sed_comp_def fail_at_def Let_def split: option.splits if_splits)
  obtain a s1 where g: "getnextsc (comp_start ans s) = (Inr a, s1)"
    and rest: "thn (comp_loop env) (gets sed_grp (\<lambda>grp. if grp \<noteq> [] then fail_here EGRNBA else ret ())) s1 = (Inr u, s')"
    using assms ans by (auto simp: qse_sed_comp_def Let_def dest!: thn_InrD [of getnextsc])
  obtain b where "comp_loop env s1 = (Inr b, s')" "sed_grp s' = []"
    using thn_InrD [OF rest] by (auto simp: gets_def ret_def fail_here_def fail_at_def split: if_splits)
  moreover have "whole s1" by (rule whole_scan [OF scan_getnextsc _ g]) (simp add: whole_def comp_start_def script_ok_def)
  ultimately show ?thesis using comp_loop_whole by blast
qed

end
