(* ===== verification/Qse_Sed_Run.thy ===== *)
theory Qse_Sed_Run
  imports Qse_Sed_Cmds Qse_Sed_Script Qse_Sed_Wf
begin

text \<open>
  Scripts that are compiled and then run: what the compiler guarantees is what the engine needs.
\<close>

section \<open>Accepted scripts are well-formed\<close>

text \<open>
  C10. A script that compiles is well-formed. The first address of a command is a plain one; a command without first address has no second; steps and relative line numbers are
  positive and a step follows a line number; line 0 is only a first address in front of a step or a regular expression. The target of a branch is a command of the script, behind the
  branch or at a label; a branch that still carries a name can only meet the label behind it; labels have different names. A substitution has the option \<open>g\<close> or an
  occurrence number from 1 to 65535, a translation has an even number of characters, the number of fields of a cut is the number of its field selections, and no group is left open.
\<close>

theorem qse_sed_comp_well_formed:
  assumes "qse_sed_comp env handler s = (Inr u, s')"
  shows "script_ok (length (sed_cmds s')) (sed_cmds s') (sed_labs s') \<and> sed_grp s' = []"
  using qse_sed_comp_whole [OF assms] by (simp add: whole_def)

section \<open>Accepted scripts without backward jumps end\<close>

text \<open>No branch has been resolved to a command at or before it, and the cycle is not restarted with \<open>D\<close>.\<close>

definition no_way_back :: "'r sed_cmd list \<Rightarrow> bool" where
  "no_way_back cs \<longleftrightarrow> (\<forall>i < length cs.
     case c_type (cs ! i) of
       CMD_BRANCH l (Some (At k)) \<Rightarrow> i < k
     | CMD_BRANCH_COND l (Some (At k)) \<Rightarrow> i < k
     | CMD_DELETE_FIRSTLN \<Rightarrow> False
     | _ \<Rightarrow> True)"

lemma jump_ok_ahead:
  assumes "jump_ok labs n i l t" "resolve labs l t = Inr (Some j)" "\<And>k. t = Some (At k) \<Longrightarrow> i < k" "\<forall>k \<in> snd ` set labs. k < n"
  shows "ahead n i j"
  using assms by (auto simp: jump_ok_def resolve_def ahead_def split: option.splits dest!: map_of_SomeD)

lemma script_ok_forward: "script_ok (length cs) cs labs \<Longrightarrow> no_way_back cs \<Longrightarrow> forward_script labs cs"
  unfolding forward_script_def
proof (intro allI impI)
  fix i assume s: "script_ok (length cs) cs labs" "no_way_back cs" and i: "i < length cs"
  then have o: "op_ok labs (length cs) i (c_type (cs ! i))" "\<forall>k \<in> snd ` set labs. k < length cs" by (auto simp: script_ok_def)
  show "case c_type (cs ! i) of CMD_BRANCH l t \<Rightarrow> \<forall>j. resolve labs l t = Inr (Some j) \<longrightarrow> ahead (length cs) i j
     | CMD_BRANCH_COND l t \<Rightarrow> \<forall>j. resolve labs l t = Inr (Some j) \<longrightarrow> ahead (length cs) i j | CMD_DELETE_FIRSTLN \<Rightarrow> False | _ \<Rightarrow> True"
    using s(2) [unfolded no_way_back_def, rule_format, OF i] o(1)
    by (cases "c_type (cs ! i)") (auto intro!: jump_ok_ahead [OF _ _ _ o(2)] split: option.splits)
qed

text \<open>
  C7. A script that compiles ends on every input, whatever the handlers answer, unless it branches back to a label or restarts the cycle with \<open>D\<close>: groups, branches to labels
  that come later and branches without a label never make a loop.
\<close>

theorem compiled_script_ends:
  assumes "qse_sed_comp env handler s = (Inr u, s')" "no_way_back (sed_cmds s')" "in_xbuf_len s' \<le> 1" "src_size src + length (sed_cmds s') + 2 < fuel"
  shows "\<exists>r t. qse_sed_exec env fuel src ans s' = Some (r, t)"
proof -
  have "forward_script (sed_labs s') (sed_cmds s')" using qse_sed_comp_whole [OF assms(1)] assms(2) by (simp add: whole_def script_ok_forward)
  then show ?thesis using qse_sed_exec_returns assms(3,4) by blast
qed

section \<open>Scripts from their text\<close>

text \<open>The rest of the script, from the current character on, when it came in one piece; the rest of the editor is \<open>b\<close>.\<close>

definition bare :: "'r qse_sed \<Rightarrow> 'r qse_sed" where
  "bare s = s\<lparr>src_ans := [], src_buf := [], src_eof := False, src_cc := None, src_loc := (0, 0)\<rparr>"

definition first :: "utext \<Rightarrow> uchar option" where
  "first t = (case t of [] \<Rightarrow> None | c # cs \<Rightarrow> Some c)"

lemma first_simps [simp]: "first [] = None" "first (c # t) = Some c"
  by (simp_all add: first_def)

definition at_text :: "'r qse_sed \<Rightarrow> utext \<Rightarrow> 'r qse_sed \<Rightarrow> bool" where
  "at_text b t s \<longleftrightarrow> src_ans s = [] \<and> src_cc s = first t \<and> src_buf s = tl t \<and> bare s = b"

lemma at_text_cc: "at_text b t s \<Longrightarrow> src_cc s = first t"
  by (simp add: at_text_def)

lemma at_text_fields: "at_text b t s \<Longrightarrow> sed_cmds s = sed_cmds b \<and> sed_labs s = sed_labs b \<and> sed_grp s = sed_grp b"
  by (auto simp: at_text_def bare_def)

text \<open>An action that succeeds with \<open>a\<close> and leaves \<open>t'\<close> when \<open>t\<close> is in front of it.\<close>

definition eats :: "utext \<Rightarrow> ('r, 'a) act \<Rightarrow> 'a \<Rightarrow> utext \<Rightarrow> bool" where
  "eats t m a t' \<longleftrightarrow> (\<forall>b s. at_text b t s \<longrightarrow> (\<exists>s'. m s = (Inr a, s') \<and> at_text b t' s'))"

lemma eats_ret: "eats t (ret a) a t"
  by (simp add: eats_def ret_def)

lemma eats_bnd: "eats t m a t1 \<Longrightarrow> eats t1 (f a) b t2 \<Longrightarrow> eats t (bnd m f) b t2"
  unfolding eats_def bnd_def by fastforce

lemma eats_thn: "eats t m a t1 \<Longrightarrow> eats t1 n b t2 \<Longrightarrow> eats t (thn m n) b t2"
  unfolding thn_def by (rule eats_bnd)

lemma eats_cc: "eats t (k (first t)) b t2 \<Longrightarrow> eats t (gets src_cc k) b t2"
  unfolding eats_def gets_def using at_text_cc by metis

lemma eats_getnextsc: "eats (c # t) getnextsc (first t) t"
  unfolding eats_def
proof (intro allI impI)
  fix b s :: "'a qse_sed" assume "at_text b (c # t) s"
  then have s: "src_ans s = []" "src_cc s = Some c" "src_buf s = t" "bare s = b" by (simp_all add: at_text_def)
  define loc where "loc = (if src_cc s = Some ch_nl then (fst (src_loc s) + 1, 1) else (fst (src_loc s), snd (src_loc s) + 1))"
  define s1 where "s1 = s\<lparr>src_loc := loc, src_eof := (t = [] \<or> src_eof s), src_cc := first t, src_buf := tl t\<rparr>"
  have "getnextsc s = (Inr (first t), s1)"
    using s(1,3) unfolding s1_def loc_def
    by (cases t) (simp_all add: getnextsc_def fill_script_def read_script_stream_def thn_def bnd_def gets_def upds_def ret_def)
  moreover have "at_text b t s1" using s by (simp add: at_text_def s1_def bare_def)
  ultimately show "\<exists>s'. getnextsc s = (Inr (first t), s') \<and> at_text b t s'" by blast
qed

lemma eats_take_sc: "eats t (take_sc P acc) (acc @ takeWhile P t) (dropWhile P t)"
proof (induction t arbitrary: acc)
  case Nil
  show ?case unfolding eats_def by (auto simp: take_sc.simps ret_def at_text_cc)
next
  case (Cons c t)
  show ?case
  proof (cases "P c")
    case True
    show ?thesis using True eats_thn [OF eats_getnextsc Cons [of "acc @ [c]"], of c] unfolding eats_def by (subst take_sc.simps) (auto simp: at_text_cc)
  next
    case False
    then show ?thesis unfolding eats_def by (subst take_sc.simps) (auto simp: at_text_cc ret_def)
  qed
qed

lemma eats_skip_sc: "eats t (skip_sc P) () (dropWhile P t)"
  unfolding skip_sc_def by (rule eats_bnd [OF eats_take_sc eats_ret])

lemma eats_loc: "(\<And>loc. eats t (k loc) a t') \<Longrightarrow> eats t (gets src_loc k) a t'"
  unfolding eats_def gets_def by blast

lemma eats_here: "(\<And>n. eats t (k (first t, n)) a t') \<Longrightarrow> eats t (gets (\<lambda>s. (src_cc s, length (sed_cmds s))) k) a t'"
  unfolding eats_def gets_def using at_text_cc by metis

lemma eats_or_else: "eats t m a t' \<Longrightarrow> eats t (or_else m e) a t'"
  unfolding eats_def or_else_def by fastforce

text \<open>Line numbers, in decimal.\<close>

lemma digits_small: "2 \<le> b \<Longrightarrow> d \<in> set (digits b x) \<Longrightarrow> d < b"
  by (induction b x rule: digits.induct) (subst (asm) (2) digits.simps, auto split: if_splits)

lemma digits_nonempty: "digits b x \<noteq> []"
  by (subst digits.simps) simp

lemma foldl_mod: "foldl (\<lambda>v d. (v * b + d) mod m) (a mod m) xs = foldl (\<lambda>v d. v * b + d) a xs mod m" for a :: nat
proof (induction xs arbitrary: a)
  case (Cons x xs)
  have "(a mod m * b + x) mod m = (a * b + x) mod m" by (metis mod_add_left_eq mod_mult_left_eq)
  then show ?case using Cons [of "a * b + x"] by simp
qed simp

definition dec_text :: "nat \<Rightarrow> utext" where
  "dec_text k = map NTOC (digits 10 k)"

lemma dec_text_digits: "\<forall>c \<in> set (dec_text k). is_dec c" "dec_text k \<noteq> []"
  by (auto simp: dec_text_def digits_nonempty NTOC_def is_dec_def dest!: digits_small [of 10 _ k, simplified])

lemma dec_text_value: "k < 2 ^ 64 \<Longrightarrow> size_of_digits (dec_text k) = k"
proof -
  assume k: "k < 2 ^ 64"
  have "size_of_digits (dec_text k) = foldl (\<lambda>v d. (v * 10 + d) mod 2 ^ 64) 0 (map (\<lambda>c. c - ch CHR ''0'') (dec_text k))"
    by (simp add: size_of_digits_def foldl_map)
  also have "map (\<lambda>c. c - ch CHR ''0'') (dec_text k) = digits 10 k"
    by (auto simp: dec_text_def NTOC_def intro!: map_idI dest!: digits_small [of 10 _ k, simplified])
  also have "foldl (\<lambda>v d. (v * 10 + d) mod 2 ^ 64) 0 (digits 10 k) = k mod 2 ^ 64" using foldl_mod [of 10 "2 ^ 64" 0 "digits 10 k"] by (simp add: digits_value)
  finally show "size_of_digits (dec_text k) = k" using k by simp
qed

lemma dec_text_take: "first rest = None \<or> \<not> is_dec (the (first rest)) \<Longrightarrow> takeWhile is_dec (dec_text k @ rest) = dec_text k \<and> dropWhile is_dec (dec_text k @ rest) = rest"
  using dec_text_digits(1) [of k] by (cases rest) (auto simp: takeWhile_append2 dropWhile_append2)

fun adr_text :: "'r sed_adr \<Rightarrow> utext" where
  "adr_text ADR_DOL = [ch_dollar]"
| "adr_text (ADR_LINE k) = dec_text k"
| "adr_text _ = []"

definition printable_adr :: "'r sed_adr \<Rightarrow> bool" where
  "printable_adr a \<longleftrightarrow> a = ADR_DOL \<or> (\<exists>k. a = ADR_LINE k \<and> 0 < k \<and> k < 2 ^ 64)"

lemma eats_address:
  assumes "printable_adr a" "first rest = None \<or> \<not> is_dec (the (first rest))"
  shows "eats (adr_text a @ rest) (get_address env extended) a rest"
proof (cases "a = ADR_DOL")
  case True
  then show ?thesis unfolding get_address_def by (intro eats_cc) (simp add: eats_thn [OF eats_getnextsc eats_ret])
next
  case False
  then obtain k where k: "a = ADR_LINE k" "k < 2 ^ 64" using assms(1) by (auto simp: printable_adr_def)
  obtain c t where c: "dec_text k = c # t" "is_dec c" using dec_text_digits [of k] by (cases "dec_text k") auto
  have "eats (dec_text k @ rest) (number is_dec) k rest"
    unfolding number_def using eats_bnd [OF eats_take_sc [of "dec_text k @ rest" is_dec "[]"] eats_ret, of size_of_digits] dec_text_take [OF assms(2)] dec_text_value [OF k(2)] by simp
  then have "eats (adr_text a @ rest) (bnd (number is_dec) (\<lambda>lno. ret (ADR_LINE lno))) a rest" using k(1) by (auto intro: eats_bnd eats_ret)
  then show ?thesis unfolding get_address_def using c k(1) by (intro eats_cc) (auto simp: is_dec_def)
qed

text \<open>Commands without arguments and their text, one on a line.\<close>

type_synonym 'r item = "'r sed_adr \<times> 'r sed_adr \<times> bool \<times> uchar"

fun item_text :: "'r item \<Rightarrow> utext" where
  "item_text (a1, a2, negated, c) =
     adr_text a1 @ (if a2 = ADR_NONE then [] else ch CHR '','' # adr_text a2) @ (if negated then [ch CHR ''!''] else []) @ [c, ch_nl]"

fun item_ok :: "'r sed_env \<Rightarrow> 'r item \<Rightarrow> bool" where
  "item_ok env (a1, a2, negated, c) \<longleftrightarrow>
     (a1 = ADR_NONE \<and> a2 = ADR_NONE \<or> printable_adr a1 \<and> (a2 = ADR_NONE \<or> printable_adr a2)) \<and> (plain_op c :: 'r sed_op option) \<noteq> None \<and>
     (env_strict env \<and> one_address c \<longrightarrow> a2 = ADR_NONE)"

fun item_cmd :: "'r item \<Rightarrow> 'r sed_cmd" where
  "item_cmd (a1, a2, negated, c) = new_cmd a1 a2 negated (the (plain_op c))"

lemma plain_chars: "plain_op c = Some t \<Longrightarrow> c \<in> {61, 100, 68, 112, 80, 108, 104, 72, 103, 71, 120, 110, 78, 122, 113, 81}"
  by (auto simp: plain_op_def split: if_splits)

lemma eats_plain:
  assumes "plain_op c = Some t" "env_strict env \<and> one_address c \<longrightarrow> a2 = ADR_NONE"
  shows "eats (c # ch_nl # rest) (get_command env a1 a2 negated) (new_cmd a1 a2 negated t) rest"
proof -
  have "eats (ch_nl # rest) (bnd getnextsc (\<lambda>_. ret ())) () rest" by (rule eats_bnd [OF eats_getnextsc eats_ret])
  then have "eats (ch_nl # rest) terminate_command () rest"
    unfolding terminate_command_def
    by (intro eats_thn [OF eats_skip_sc] eats_cc) (simp add: IS_SPACE_def IS_CMDTERM_def)
  then have "eats (c # ch_nl # rest) (thn getnextsc (thn terminate_command (ret (new_cmd a1 a2 negated t)))) (new_cmd a1 a2 negated t) rest"
    by (intro eats_thn [OF eats_getnextsc] eats_thn [OF _ eats_ret])
  moreover have "c \<notin> {10, 58, 123, 125, 97, 105, 99, 98, 116, 114, 82, 119, 87, 115, 121, 67}" using plain_chars [OF assms(1)] by auto
  ultimately show ?thesis unfolding get_command_def Let_def using assms by (intro eats_here) auto
qed

lemma eats_no_address: "c \<notin> {36, 47, 92, 43, 126} \<Longrightarrow> \<not> is_dec c \<Longrightarrow> eats (c # t) (get_address env extended) ADR_NONE (c # t)"
  unfolding get_address_def by (intro eats_cc) (simp add: eats_ret)

lemma eats_unskipped: "dropWhile P t = t \<Longrightarrow> eats t m a t' \<Longrightarrow> eats t (thn (skip_sc P) m) a t'"
  using eats_thn [OF eats_skip_sc [of t P], of m a t'] by simp

lemma eats_nots:
  assumes "c \<noteq> ch CHR ''!''" "\<not> IS_SPACE c"
  shows "eats ((if negated then [ch CHR ''!''] else []) @ c # t)
    (thn (skip_sc IS_SPACE) (bnd (take_sc (\<lambda>c. c = ch CHR ''!'') []) (\<lambda>nots. thn (skip_sc IS_SPACE) (ret (a1, a2, odd (length nots)))))) (a1, a2, negated) (c # t)"
proof -
  let ?t = "(if negated then [ch CHR ''!''] else []) @ c # t" and ?nots = "if negated then [ch CHR ''!''] else []"
  have sp: "dropWhile IS_SPACE ?t = ?t" "dropWhile IS_SPACE (c # t) = c # t" using assms(2) by (simp_all add: IS_SPACE_def)
  have nots: "eats ?t (take_sc (\<lambda>c. c = ch CHR ''!'') []) ?nots (c # t)" using eats_take_sc [of ?t "\<lambda>c. c = ch CHR ''!''" "[]"] assms(1) by (cases negated) simp_all
  have "eats (c # t) (thn (skip_sc IS_SPACE) (ret (a1, a2, odd (length ?nots)))) (a1, a2, odd (length ?nots)) (c # t)"
    by (rule eats_unskipped [OF sp(2) eats_ret])
  then have "eats ?t (bnd (take_sc (\<lambda>c. c = ch CHR ''!'') []) (\<lambda>nots. thn (skip_sc IS_SPACE) (ret (a1, a2, odd (length nots))))) (a1, a2, odd (length ?nots)) (c # t)"
    by (rule eats_bnd [OF nots])
  then show ?thesis using eats_unskipped [OF sp(1)] by (cases negated) simp_all
qed

text \<open>A character that ends an address and does not begin one.\<close>

definition ends_adr :: "uchar \<Rightarrow> bool" where
  "ends_adr d \<longleftrightarrow> d \<notin> {36, 47, 92, 43, 126} \<and> \<not> is_dec d \<and> \<not> IS_SPACE d"

lemma ends_adr_special: "ends_adr (ch CHR ''!'')" "ends_adr (ch CHR '','')"
  by (simp_all add: ends_adr_def is_dec_def IS_SPACE_def)

lemma ends_adr_plain: "plain_op c = Some x \<Longrightarrow> ends_adr c \<and> c \<notin> {10, 33, 35, 44, 59}"
  by (drule plain_chars) (auto simp: ends_adr_def is_dec_def IS_SPACE_def)

lemma eats_first_address:
  assumes "a = ADR_NONE \<or> printable_adr a" "ends_adr d"
  shows "eats (adr_text a @ d # t) (get_address env extended) a (d # t)"
proof (cases "a = ADR_NONE")
  case True
  then show ?thesis using eats_no_address [of d t] assms(2) by (simp add: ends_adr_def)
next
  case False
  then show ?thesis using eats_address [of a "d # t"] assms by (simp add: ends_adr_def)
qed

lemma drop_ends: "ends_adr d \<Longrightarrow> dropWhile IS_SPACE (d # t) = d # t"
  by (simp add: ends_adr_def)

lemma drop_adr: "printable_adr a \<Longrightarrow> dropWhile IS_SPACE (adr_text a @ t) = adr_text a @ t"
proof (cases "a = ADR_DOL")
  case False
  assume "printable_adr a"
  with False obtain k where k: "a = ADR_LINE k" by (auto simp: printable_adr_def)
  obtain c u where "dec_text k = c # u" "is_dec c" using dec_text_digits [of k] by (cases "dec_text k") auto
  then show ?thesis using k by (auto simp: is_dec_def IS_SPACE_def)
qed (simp add: IS_SPACE_def)

lemma eats_second_none:
  assumes "ends_adr d" "d \<noteq> ch CHR '',''"
  shows "eats (d # t) (second_address env a1) ADR_NONE (d # t)"
  unfolding second_address_def
  by (intro eats_unskipped drop_ends assms(1) eats_cc) (use assms in \<open>simp add: eats_ret ends_adr_def\<close>)

lemma eats_second:
  assumes "printable_adr a2" "ends_adr d"
  shows "eats (ch CHR '','' # adr_text a2 @ d # t) (second_address env a1) a2 (d # t)"
proof -
  have n: "a2 \<noteq> ADR_NONE" "\<And>k. a2 \<noteq> ADR_RELLINE k" "\<And>k. a2 \<noteq> ADR_RELLINEM k" using assms(1) by (auto simp: printable_adr_def)
  have "eats (adr_text a2 @ d # t) (or_else (get_address env (env_extendedadr env)) EA2MOI) a2 (d # t)"
    by (rule eats_or_else, rule eats_first_address) (use assms in auto)
  moreover have "eats (d # t) (case a2 of ADR_NONE \<Rightarrow> fail_here EA2MOI | ADR_RELLINE lno \<Rightarrow> ret (if lno = 0 then ADR_NONE else a2)
      | ADR_RELLINEM lno \<Rightarrow> ret (if lno = 0 then ADR_NONE else a2) | _ \<Rightarrow> ret a2) a2 (d # t)"
    using n eats_ret by (cases a2) auto
  ultimately show ?thesis
    unfolding second_address_def
    by (intro eats_unskipped drop_ends ends_adr_special eats_cc)
      (auto intro!: eats_thn [OF eats_getnextsc] eats_unskipped drop_adr assms(1) elim: eats_bnd)
qed

lemma eats_prefix:
  assumes "item_ok env (a1, a2, negated, c)"
  shows "eats (item_text (a1, a2, negated, c) @ rest) (command_prefix env) (a1, a2, negated) (c # ch_nl # rest)"
proof -
  let ?tail = "(if negated then [ch CHR ''!''] else []) @ c # ch_nl # rest"
  obtain x :: "'a sed_op" where "plain_op c = Some x" using assms by auto
  note c = ends_adr_plain [OF this]
  obtain d t where e: "?tail = d # t" "ends_adr d" "d \<noteq> ch CHR '',''" using c ends_adr_special by (cases negated) auto
  define mid where "mid = (if a2 = ADR_NONE then d # t else ch CHR '','' # adr_text a2 @ d # t)"
  obtain d' t' where m: "mid = d' # t'" "ends_adr d'" using e(2) ends_adr_special by (cases "a2 = ADR_NONE") (auto simp: mid_def)
  have a1: "a1 = ADR_NONE \<or> printable_adr a1" "a2 = ADR_NONE \<or> printable_adr a2" "a1 = ADR_NONE \<Longrightarrow> a2 = ADR_NONE" using assms by (auto simp: printable_adr_def)
  have p1: "eats (adr_text a1 @ mid) (or_else (get_address env False) EA1MOI) a1 mid"
    unfolding m(1) by (rule eats_or_else [OF eats_first_address [OF a1(1) m(2)]])
  have p2: "eats mid (if a1 = ADR_NONE then ret ADR_NONE else second_address env a1) a2 (d # t)"
    using a1(2,3) eats_second_none [OF e(2,3)] eats_second [OF _ e(2)] eats_ret by (cases "a1 = ADR_NONE"; cases "a2 = ADR_NONE") (simp_all add: mid_def)
  have z: "zero_ok env a1 a2" using a1(1) by (auto simp: zero_ok_def printable_adr_def)
  have p3: "eats (d # t) (thn (skip_sc IS_SPACE) (bnd (take_sc (\<lambda>c. c = ch CHR ''!'') []) (\<lambda>nots. thn (skip_sc IS_SPACE) (ret (a1, a2, odd (length nots))))) :: ('a, 'a sed_adr \<times> 'a sed_adr \<times> bool) act) (a1, a2, negated) (c # ch_nl # rest)"
    unfolding e(1) [symmetric] by (rule eats_nots) (use c in \<open>auto simp: ends_adr_def\<close>)
  have "eats (adr_text a1 @ mid) (command_prefix env) (a1, a2, negated) (c # ch_nl # rest)"
    unfolding command_prefix_def by (intro eats_loc eats_bnd [OF p1] eats_bnd [OF p2]) (use z p3 in simp)
  moreover have "item_text (a1, a2, negated, c) @ rest = adr_text a1 @ mid" using e(1) by (auto simp: mid_def)
  ultimately show ?thesis by metis
qed

lemma eats_one_command: "item_ok env it \<Longrightarrow> eats (item_text it @ rest) (one_command env) (item_cmd it) rest"
proof (cases it)
  case (fields a1 a2 negated c)
  assume "item_ok env it"
  then have ok: "item_ok env (a1, a2, negated, c)" using fields by simp
  then obtain x :: "'a sed_op" where x: "plain_op c = Some x" by auto
  show ?thesis
    unfolding one_command_def fields
    by (rule eats_bnd [OF eats_prefix [OF ok]]) (use eats_plain [OF x, of env a2] ok x in simp)
qed

text \<open>The text of a command does not begin with a space, a comment or a semicolon.\<close>

lemma item_text_first:
  assumes "item_ok env it"
  shows "\<exists>d t. item_text it @ rest = d # t \<and> \<not> IS_WSPACE d \<and> d \<noteq> ch CHR ''#'' \<and> d \<noteq> ch CHR '';''"
proof (cases it)
  case (fields a1 a2 negated c)
  obtain x :: "'a sed_op" where "plain_op c = Some x" using assms fields by auto
  note c = ends_adr_plain [OF this]
  consider "a1 = ADR_NONE" "a2 = ADR_NONE" | "a1 = ADR_DOL" | k where "a1 = ADR_LINE k" using assms fields by (auto simp: printable_adr_def)
  then show ?thesis
  proof cases
    case 1
    then show ?thesis using fields c by (cases negated) (auto simp: IS_WSPACE_def IS_SPACE_def ends_adr_def)
  next
    case 2
    then show ?thesis using fields by (simp add: IS_WSPACE_def IS_SPACE_def)
  next
    case (3 k)
    obtain d u where "dec_text k = d # u" "is_dec d" using dec_text_digits [of k] by (cases "dec_text k") auto
    then show ?thesis using fields 3 by (auto simp: IS_WSPACE_def IS_SPACE_def is_dec_def)
  qed
qed

lemma comp_loop_items:
  assumes "\<forall>it \<in> set its. item_ok env it" "at_text b (concat (map item_text its)) s"
  shows "\<exists>s'. comp_loop env s = (Inr (), s') \<and> at_text (b\<lparr>sed_cmds := sed_cmds b @ map item_cmd its\<rparr>) [] s'"
  using assms
proof (induction its arbitrary: b s)
  case Nil
  then obtain s1 where "skip_sc IS_WSPACE s = (Inr (), s1)" "at_text b [] s1" using eats_skip_sc [of "[]" IS_WSPACE] unfolding eats_def by fastforce
  then show ?case by (subst comp_loop.simps) (simp add: bnd_def ret_def at_text_cc)
next
  case (Cons it its)
  let ?rest = "concat (map item_text its)"
  obtain d t where d: "item_text it @ ?rest = d # t" "\<not> IS_WSPACE d" "d \<noteq> ch CHR ''#''" "d \<noteq> ch CHR '';''"
    using item_text_first [of env it ?rest] Cons.prems(1) by auto
  have t: "at_text b (d # t) s" using Cons.prems(2) d(1) by simp
  obtain s1 where s1: "skip_sc IS_WSPACE s = (Inr (), s1)" "at_text b (d # t) s1" using eats_skip_sc [of "d # t" IS_WSPACE] d(2) t unfolding eats_def by fastforce
  obtain s2 where s2: "one_command env s1 = (Inr (item_cmd it), s2)" "at_text b ?rest s2"
    using eats_one_command [of env it ?rest] Cons.prems(1) s1(2) d(1) unfolding eats_def by fastforce
  let ?s = "s2\<lparr>sed_cmds := sed_cmds s2 @ [item_cmd it]\<rparr>" and ?b = "b\<lparr>sed_cmds := sed_cmds b @ [item_cmd it]\<rparr>"
  have "at_text ?b ?rest ?s" using s2(2) by (auto simp: at_text_def bare_def)
  then obtain s' where s': "comp_loop env ?s = (Inr (), s')" "at_text (b\<lparr>sed_cmds := sed_cmds b @ map item_cmd (it # its)\<rparr>) [] s'"
    using Cons.IH [of ?b ?s] Cons.prems(1) by auto
  have "comp_loop env s = comp_loop env ?s"
    using s1 s2(1) d at_text_cc [OF s1(2)] by (subst comp_loop.simps) (simp add: bnd_def thn_def add_command_def upds_def)
  then show ?case using s' by auto
qed

lemma comp_items:
  assumes "\<forall>it \<in> set its. item_ok env it" "env_open_script env" "its \<noteq> []"
  shows "\<exists>s'. qse_sed_comp env (Some [Some (concat (map item_text its))]) s = (Inr (), s') \<and> sed_cmds s' = map item_cmd its \<and> sed_labs s' = [] \<and> in_xbuf_len s' = in_xbuf_len s"
proof -
  let ?t = "concat (map item_text its)" and ?s = "comp_start [Some (concat (map item_text its))] s"
  define b where "b = bare ?s"
  obtain d t where t: "?t = d # t" using assms(1,3) item_text_first [of env "hd its" "concat (map item_text (tl its))"] by (cases its) auto
  define s1 where "s1 = ?s\<lparr>src_ans := [], src_buf := t, src_cc := Some d, src_loc := (1, 1)\<rparr>"
  have g: "getnextsc ?s = (Inr (Some d), s1)"
    unfolding t s1_def by (simp add: getnextsc_def fill_script_def read_script_stream_def comp_start_def thn_def bnd_def gets_def upds_def ret_def)
  have "at_text b ?t s1" unfolding t by (simp add: at_text_def s1_def b_def bare_def comp_start_def)
  then obtain s' where s': "comp_loop env s1 = (Inr (), s')" "at_text (b\<lparr>sed_cmds := sed_cmds b @ map item_cmd its\<rparr>) [] s'"
    using comp_loop_items [OF assms(1)] by blast
  have f: "sed_cmds s' = map item_cmd its \<and> sed_labs s' = [] \<and> sed_grp s' = []" using at_text_fields [OF s'(2)] by (simp add: b_def bare_def comp_start_def)
  have "in_xbuf_len s' = in_xbuf_len s"
    using arg_cong [OF s'(2) [unfolded at_text_def, THEN conjunct2, THEN conjunct2, THEN conjunct2], of in_xbuf_len] by (simp add: b_def bare_def comp_start_def)
  then show ?thesis using f g s'(1) assms(2) by (simp add: qse_sed_comp_def Let_def thn_def bnd_def gets_def ret_def)
qed

text \<open>
  C12. The compiler reads back what a script says: a script written with one command on each line, with line numbers or \<open>$\<close> as addresses, the sign \<open>!\<close> and any of the commands
  that take no argument, compiles to exactly these commands, in this order, with no label.
\<close>

theorem qse_sed_comp_roundtrip:
  assumes "\<forall>it \<in> set its. item_ok env it" "env_open_script env" "its \<noteq> []"
  shows "\<exists>s'. qse_sed_comp env (Some [Some (concat (map item_text its))]) s = (Inr (), s') \<and> sed_cmds s' = map item_cmd its \<and> sed_labs s' = [] \<and> in_xbuf_len s' = in_xbuf_len s"
  using assms by (rule comp_items)

text \<open>
  C8. The script \<open>m,np\<close> from its text to its output: it compiles, and run with automatic output off it writes exactly the lines \<open>m\<close> to \<open>n\<close> of the input, the line \<open>m\<close> alone when
  \<open>n\<close> is smaller, however the input is cut into pieces.
\<close>

theorem range_script_prints:
  assumes "0 < m" "m < 2 ^ 64" "0 < n" "n < 2 ^ 64" "env_open_script env" "env_quiet env" "env_open_in env" "env_open_out env" "in_xbuf_len s = 0"
    "\<forall>a \<in> set src. a \<noteq> None \<and> a \<noteq> Some []" "length (lines_of (concat (map the src))) + 1 < fuel"
  shows "\<exists>s1 s2. qse_sed_comp env (Some [Some (dec_text m @ [ch CHR '',''] @ dec_text n @ [ch CHR ''p'', ch_nl])]) s = (Inr (), s1) \<and>
    qse_sed_exec env fuel src [] s1 = Some (Inr (), s2) \<and> console s2 = select m (max m n) 0 (lines_of (concat (map the src)))"
proof -
  let ?it = "(ADR_LINE m, ADR_LINE n, False, ch CHR ''p'') :: 'a item"
  have "item_ok env ?it" using assms(1-4) by (simp add: printable_adr_def plain_op_def one_address_def)
  then obtain s1 where s1: "qse_sed_comp env (Some [Some (item_text ?it)]) s = (Inr (), s1)" "sed_cmds s1 = [item_cmd ?it]" "in_xbuf_len s1 = 0"
    using comp_items [of "[?it]" env s] assms(5,9) by auto
  obtain s2 where "qse_sed_exec env fuel src [] s1 = Some (Inr (), s2)" "console s2 = select m (max m n) 0 (lines_of (concat (map the src)))"
    using qse_sed_prints_range [OF s1(2) _ _ _ _ assms(1,6) s1(3) assms(7,8,10,11), of n] by (auto simp: new_cmd_def plain_op_def)
  then show ?thesis using s1(1) by auto
qed

section \<open>Examples\<close>

text \<open>The script \<open>{b x}\<close>, a newline and \<open>:x\<close>, in two pieces.\<close>

definition demo_script :: "utext option list" where
  "demo_script = [Some [123, 98, 32], Some [120, 125, 10, 58, 120]]"

lemma demo_compiles:
  "case qse_sed_comp (simple_env True) (Some demo_script) (fresh [] []) of (r, s) \<Rightarrow>
     r = Inr () \<and> sed_labs s = [([120], 3)] \<and> in_xbuf_len s = 0 \<and>
     map c_type (sed_cmds s) = [CMD_BRANCH None (Some (At 2)), CMD_BRANCH (Some [120]) None, CMD_NOOP, CMD_NOOP]"
  by code_simp

theorem qse_sed_comp_buffering_witness:
  "(case qse_sed_comp (simple_env True) (Some demo_script) (fresh [] []) of (r, s') \<Rightarrow> (r, sed_cmds s', sed_labs s', err_loc s')) =
   (case qse_sed_comp (simple_env True) (Some [Some (concat (map the demo_script))]) (fresh [] []) of (r, s') \<Rightarrow> (r, sed_cmds s', sed_labs s', err_loc s'))"
  by (rule qse_sed_comp_buffering) (simp_all add: demo_script_def)

theorem qse_sed_comp_well_formed_witness:
  "\<exists>s'. qse_sed_comp (simple_env True) (Some demo_script) (fresh [] []) = (Inr (), s') \<and> length (sed_cmds s') = 4 \<and> script_ok 4 (sed_cmds s') (sed_labs s')"
proof -
  obtain r s' where c: "qse_sed_comp (simple_env True) (Some demo_script) (fresh [] []) = (r, s')" by fastforce
  then have r: "r = Inr ()" "map c_type (sed_cmds s') = [CMD_BRANCH None (Some (At 2)), CMD_BRANCH (Some [120]) None, CMD_NOOP, CMD_NOOP]" using demo_compiles by auto
  have "length (sed_cmds s') = 4" using arg_cong [OF r(2), of length] by simp
  then show ?thesis using qse_sed_comp_well_formed [of "simple_env True" "Some demo_script" "fresh [] []" "()" s'] c r(1) by auto
qed

theorem compiled_script_ends_witness:
  "\<exists>s'. qse_sed_comp (simple_env True) (Some demo_script) (fresh [] []) = (Inr (), s') \<and> (\<exists>r t. qse_sed_exec (simple_env True) 20 [Some [97, 10], None] [0] s' = Some (r, t))"
proof -
  obtain r s' where c: "qse_sed_comp (simple_env True) (Some demo_script) (fresh [] []) = (r, s')" by fastforce
  then have r: "r = Inr ()" "in_xbuf_len s' = 0"
    "map c_type (sed_cmds s') = [CMD_BRANCH None (Some (At 2)), CMD_BRANCH (Some [120]) None, CMD_NOOP, CMD_NOOP]" using demo_compiles by auto
  have n: "length (sed_cmds s') = 4" using arg_cong [OF r(3), of length] by simp
  have "c_type (sed_cmds s' ! i) = [CMD_BRANCH None (Some (At 2)), CMD_BRANCH (Some [120]) None, CMD_NOOP, CMD_NOOP] ! i" if "i < 4" for i
    using nth_map [of i "sed_cmds s'" c_type] that n r(3) by simp
  then have "no_way_back (sed_cmds s')" using n by (auto simp: no_way_back_def less_Suc_eq numeral_eq_Suc)
  then show ?thesis
    using compiled_script_ends [of "simple_env True" "Some demo_script" "fresh [] []" "()" s' "[Some [97, 10], None]" 20 "[0]"] c r n by (simp add: src_size_def)
qed

theorem qse_sed_comp_roundtrip_witness:
  "\<exists>s'. qse_sed_comp (simple_env True) (Some [Some (concat (map item_text [(ADR_LINE 12, ADR_DOL, True, 100), (ADR_NONE, ADR_NONE, False, 112)]))]) (fresh [] []) = (Inr (), s') \<and>
     sed_cmds s' = [item_cmd (ADR_LINE 12, ADR_DOL, True, 100), item_cmd (ADR_NONE, ADR_NONE, False, 112)] \<and> sed_labs s' = [] \<and> in_xbuf_len s' = 0"
  using qse_sed_comp_roundtrip [of "[(ADR_LINE 12, ADR_DOL, True, 100), (ADR_NONE, ADR_NONE, False, 112)]" "simple_env True" "fresh [] []"]
  by (simp add: printable_adr_def plain_op_def simple_env_def fresh_def)

theorem range_script_prints_witness:
  "\<exists>s1 s2. qse_sed_comp (simple_env True) (Some [Some (dec_text 2 @ [ch CHR '',''] @ dec_text 7 @ [ch CHR ''p'', ch_nl])]) (fresh [] []) = (Inr (), s1) \<and>
     qse_sed_exec (simple_env True) 10 [Some [97, 10, 98], Some [10, 99]] [] s1 = Some (Inr (), s2) \<and> console s2 = [98, 10, 99]"
proof -
  have l: "lines_of [97, 10, 98, 10, 99] = [[97, 10], [98, 10], [99]]" by (simp add: lines_of.simps)
  show ?thesis using range_script_prints [of 2 7 "simple_env True" "fresh [] []" "[Some [97, 10, 98], Some [10, 99]]" 10] by (simp add: fresh_def simple_env_def l)
qed

end
