(* ===== verification/Spec2Isabelle.thy ===== *)
theory Spec2Isabelle
  imports Qse_Tmr Qse_Arr Qse_Htb Qse_Rbt_Map Qse_Base64 Qse_Utf8 Qse_Xma_Spec Qse_Fma Qse_Pma Qse_Uri Qse_Sort Qse_Sed_Run
begin

text \<open>
  QSE is a C library. Its core, \<open>src/lib/cmn\<close>, has containers, allocators, codecs, sorting and time functions; on it rest a stream editor, an AWK interpreter, an HTTP
  server, a configuration reader and other parts. This development models parts of the core and the stream editor.

  \<^bold>\<open>Conventions.\<close> \<open>Qse_Prelude\<close> has the types all components share and C's arithmetic. A C structure is a record, an enumeration a datatype. Integers keep their width
  where it matters: bytes and hashes are words, sizes are numbers with \<open>mod 2 ^ 64\<close> written out, signed results go through \<open>wrap_s\<close>. Pointers are addresses, and linked
  structures live in maps from addresses to records. Errors are values of \<open>option\<close> or of a sum. Code that belongs to the client (memory managers, comparators, copiers, callbacks,
  I/O handlers, the regular expression library) is an argument, a field or a list of answers; calls that go out to it are logged. Loops are recursive functions with a termination
  proof; those that may not end are \<open>partial_function (option)\<close>, and that they return is proved.

  \<^bold>\<open>Time and timer.\<close> \<open>Qse_Time\<close> models \<open>time.c\<close>: arithmetic with saturation, the calendar in both directions, the parser of time texts. The conversion agrees with counting
  days, and both directions are inverse. \<open>Qse_Heap\<close> is the binary heap that two components keep, with the locale \<open>heap_order\<close> for what their
  orders promise; \<open>Qse_Tmr\<close> models \<open>tmr.c\<close> on it: every reachable timer is a heap whose owners know their indices, and firing ends and fires what is due, in order.

  \<^bold>\<open>Memory and items.\<close> \<open>Qse_Mem\<close> models the portable branches of \<open>mem.c\<close> on a byte memory, word by word, against bytewise specifications, with the case where \<open>qse_memset\<close>
  runs over. \<open>Qse_Xptl\<close> has the items that containers keep and their copiers and comparators.

  \<^bold>\<open>Containers.\<close> \<open>Qse_Arr\<close> models \<open>arr.c\<close>: slots, growth, stack and heap. \<open>Qse_Pair\<close> has the pairs of both maps, \<open>Qse_Htb\<close> models \<open>htb.c\<close> and
  \<open>Qse_Rbt\<close> models \<open>rbt.c\<close> on linked pairs with parent pointers. \<open>Qse_Rtree\<close> and \<open>Qse_Rbt_Repr\<close> say when linked pairs form a tree and what rotation and the
  loops do to it; \<open>Qse_Rbt_Map\<close> has the invariant and the operations as changes of the map. \<open>Qse_Map\<close> is the interface of \<open>map.h\<close> as a locale, with its abstract
  specification and the refinement of command sequences proved once; both maps interpret it, and here they are shown interchangeable.

  \<^bold>\<open>Codecs.\<close> \<open>Qse_Base64\<close>, \<open>Qse_Utf8\<close> and \<open>Qse_Uri\<close> model \<open>alg-base64.c\<close>, \<open>utf8.c\<close> and \<open>uri.c\<close>: decoding inverts encoding, with the sizes and failures reported for short
  buffers, and the URI parser splits a text into parts exactly when the parts are well-formed and written as that text.

  \<^bold>\<open>Sorting and searching.\<close> \<open>Qse_Sort\<close> models \<open>alg-sort.c\<close> and \<open>alg-search.c\<close> on a list of members: the quicksort sorts its range and only exchanges members, the one whose
  comparator may fail does the same as far as it gets, and the binary search finds in a sorted range what the linear one finds. What a comparator promises is the locale \<open>comper_order\<close> of \<open>Qse_Xptl\<close>.

  \<^bold>\<open>Allocators.\<close> \<open>Qse_Alloc\<close> is the interface of a memory manager as a locale with an abstract heap as its specification, and a weaker locale for one that may stop at a failed check. \<open>Qse_Xma\<close> models \<open>xma.c\<close>; \<open>Qse_Xma_Zone\<close>,
  \<open>Qse_Xma_Lists\<close> and \<open>Qse_Xma_Inv\<close> have the tiling of the zone, the free lists and the invariant, \<open>Qse_Xma_Spec\<close> the refinement. \<open>Qse_Chain\<close> has
  the chains that \<open>Qse_Fma\<close> (\<open>fma.c\<close>) and \<open>Qse_Pma\<close> (\<open>pma.c\<close>) thread through their memory. All three interpret the interface, \<open>Qse_Xma\<close> for zones
  whose size is a multiple of sixteen: in another zone a debug build may stop at an assertion of \<open>qse_xma_alloc\<close>, which the model has as the result \<open>None\<close>.

  \<^bold>\<open>The stream editor.\<close> \<open>Qse_Sed\<close> has the state of \<open>sed.c\<close> and the execution engine, from reading a character to \<open>qse_sed_exec\<close>; \<open>Qse_Sed_Comp\<close> the compiler, from reading a
  script character to \<open>qse_sed_comp\<close>. An operation is an action on the state that returns an error or a value. \<open>Qse_Sed_Act\<close> has two locales on actions: keeping a preorder on
  states, and not telling related states apart. Their interpretations give that the engine (\<open>Qse_Sed_Io\<close>, \<open>Qse_Sed_Spec\<close>) and the compiler
  (\<open>Qse_Sed_Script\<close>) do not depend on how text is cut into pieces, that loops of the compiler consume the script, and that runs of forward scripts end.
  \<open>Qse_Sed_Cmds\<close> says what single commands do. \<open>Qse_Sed_Wf\<close> shows that accepted scripts are well-formed, and \<open>Qse_Sed_Run\<close> joins both halves: scripts
  that compile and do not jump back end, the text of a simple script compiles to its commands, and the script \<open>m,np\<close> prints the lines it names.

  \<^bold>\<open>Bounds and fuel.\<close> The loop over commands and lines of the stream editor has fuel, since a script may loop: a number above the characters of the input plus the commands of the
  script is shown to be enough for scripts without backward jumps, since every cycle consumes a character and every jump leads forward. Every other loop
  of the compiler and the engine is total. The build is one with 64-bit sizes, wide characters of four bytes, and assertions. Of these the model has the ones that can fail for a
  well-behaved client, in \<open>qse_xma_alloc\<close>; the others are conditions on the client, or hold always. Capacities and positions of the array and the timer are numbers, since what
  they count has to fit in memory; the conversion of times is shown for the years one to three million, where its \<open>int\<close> arithmetic does not overflow.

  \<^bold>\<open>Not modelled.\<close> The AWK interpreter, the HTTP server, the configuration reader, the packet formats and the older containers, for their extent. Files, sockets, processes and threads
  (\<open>src/lib/si\<close>), the system clock and the time zone, because they are calls of the operating system. The TRE and cryptographic
  code, which come from elsewhere, and the generated tables of characters. Of the stream editor: opening, closing and options, the compilation
  identifiers, failing allocations, requests to halt from another thread, error messages and the formatter hook. Of the memory functions:
  assembly and vector branches.
\<close>

section \<open>The two maps are interchangeable\<close>

text \<open>
  C5. \<open>src/include/qse/cmn/map.h\<close> lets a program be compiled with the hash table or with the red-black tree as its map. Any
  sequence of insertions, searches, deletions and clearings gives the same results with either, whatever capacity the hash table starts
  with and wherever the two memory managers place the pairs, and the two then represent the same map.
\<close>

theorem maps_interchangeable:
  assumes "qse_htb_init mem_ok capa factor ks vs = Some htb"
    "granted htb_ops htb_grant hcs htb" "granted rbt_ops rbt_grant rcs (qse_rbt_init h ks vs)"
    "map snd hcs = map snd rcs" "\<forall>c \<in> set rcs. cmd_ok (byte_scale ks) (byte_scale vs) (snd c)"
  shows "snd (map_run htb_ops hcs htb) = snd (map_run rbt_ops rcs (qse_rbt_init h ks vs)) \<and>
    htb_view (fst (map_run htb_ops hcs htb)) = rbt_view (fst (map_run rbt_ops rcs (qse_rbt_init h ks vs)))"
proof -
  note hi = qse_htb_init_ok [OF assms(1)]
  have "snd ` set hcs = snd ` set rcs" using assms(4) by (metis list.set_map)
  then have "\<forall>c \<in> snd ` set hcs. cmd_ok (byte_scale ks) (byte_scale vs) c" using assms(5) by auto
  then have hc: "\<forall>c \<in> set hcs. cmd_ok (htb_kscale htb) (htb_vscale htb) (snd c)" by (simp add: hi(3,4))
  have ok: "rbt_ok (qse_rbt_init h ks vs)" using qse_rbt_init_ok(1) by (auto simp: rbt_ok_def)
  have rc: "\<forall>c \<in> set rcs. cmd_ok (rbt_kscale (qse_rbt_init h ks vs)) (rbt_vscale (qse_rbt_init h ks vs)) (snd c)"
    using assms(5) by (simp add: qse_rbt_init_ok(3,4))
  show ?thesis using htb_map.run_refines [OF hi(1) assms(2) hc] rbt_map.run_refines [OF ok assms(3) rc]
    by (simp add: hi(2) qse_rbt_init_ok(2) assms(4))
qed

theorem maps_interchangeable_witness:
  "snd (map_run htb_ops [((Some (100, \<lambda>_. 0), True), Ins INSERT (bytes_item 10 [1]) (bytes_item 20 [2]))] (the (qse_htb_init True 4 70 1 1))) =
   snd (map_run rbt_ops [(Some (300, \<lambda>_. 0), Ins INSERT (bytes_item 10 [1]) (bytes_item 20 [2]))] (qse_rbt_init (\<lambda>_. zero_node) 1 1))"
proof -
  let ?h = "[((Some (100, \<lambda>_. 0), True), Ins INSERT (bytes_item 10 [1]) (bytes_item 20 [2]))] :: (htb_answer \<times> map_cmd) list"
  let ?r = "[(Some (300, \<lambda>_. 0), Ins INSERT (bytes_item 10 [1]) (bytes_item 20 [2]))] :: (block \<times> map_cmd) list"
  obtain htb where h: "qse_htb_init True 4 70 1 1 = Some htb" by (simp add: qse_htb_init_def Let_def)
  have g: "granted htb_ops htb_grant ?h htb" "granted rbt_ops rbt_grant ?r (qse_rbt_init (\<lambda>_. zero_node) 1 1)"
    by (simp_all add: htb_grant_def block_ok_def rbt_grant_def rbt_block_ok_def shape_init QSE_NULL_def XNIL_def)
  have "map snd ?h = map snd ?r" "\<forall>c \<in> set ?r. cmd_ok (byte_scale 1) (byte_scale 1) (snd c)" by (simp_all add: QSE_NULL_def)
  from maps_interchangeable [OF h g this] h show ?thesis by simp
qed

end
